(* ===== verification/Prelude.thy ===== *)
theory Prelude
  imports Main "HOL-Library.Multiset" "HOL-Library.Product_Lexorder"
begin

text \<open>
  Generic material the components share: Python's insertion-ordered dictionaries as association
  lists, \<open>dict.fromkeys\<close> as order-keeping duplicate removal, stable sorting in both
  directions, decimal rendering of numbers, and the collections of rewrite rules
  (\<open>dict_simps\<close>, \<open>dedup_simps\<close>) the component proofs pass to the simplifier.
\<close>

named_theorems dict_simps
named_theorems dedup_simps

section \<open>Dictionaries in insertion order\<close>

type_synonym ('k, 'v) dict = "('k \<times> 'v) list"

text \<open>\<open>d[k] = v\<close>: overwrite in place, or append when the key is new.\<close>

fun dict_set :: "'k \<Rightarrow> 'v \<Rightarrow> ('k, 'v) dict \<Rightarrow> ('k, 'v) dict" where
  "dict_set k v [] = [(k, v)]"
| "dict_set k v ((k', v') # d) = (if k' = k then (k, v) # d else (k', v') # dict_set k v d)"

definition dict_get :: "('k, 'v) dict \<Rightarrow> 'k \<Rightarrow> 'v \<Rightarrow> 'v" where
  "dict_get d k dflt = (case map_of d k of None \<Rightarrow> dflt | Some v \<Rightarrow> v)"

definition dict_has :: "('k, 'v) dict \<Rightarrow> 'k \<Rightarrow> bool" where
  "dict_has d k \<longleftrightarrow> map_of d k \<noteq> None"

lemma map_of_dict_set [simp, dict_simps]: "map_of (dict_set k v d) = (map_of d)(k \<mapsto> v)"
  by (induction d) (auto simp: fun_eq_iff)

lemma map_of_dict_set_at [dict_simps]:
  "map_of (dict_set k v d) k' = (if k' = k then Some v else map_of d k')"
  by simp

lemma keys_dict_set [dict_simps]: "fst ` set (dict_set k v d) = insert k (fst ` set d)"
proof (induction d)
  case (Cons p d)
  then show ?case by (cases p) (simp add: insert_commute)
qed simp

lemma distinct_keys_dict_set [simp, dict_simps]:
  "distinct (map fst d) \<Longrightarrow> distinct (map fst (dict_set k v d))"
  by (induction d) (auto simp: keys_dict_set)

lemma set_dict_set_subset: "set (dict_set k v d) \<subseteq> insert (k, v) (set d)"
proof (induction d)
  case (Cons e d)
  then show ?case by (cases e) auto
qed simp

lemma length_dict_set [dict_simps]:
  "length (dict_set k v d) = (if k \<in> fst ` set d then length d else Suc (length d))"
proof (induction d)
  case (Cons p d)
  then show ?case by (cases p) simp
qed simp

lemma dict_set_new: "k \<notin> fst ` set d \<Longrightarrow> dict_set k v d = d @ [(k, v)]"
  by (induction d) auto

lemma dict_get_simps [simp, dict_simps]:
  "dict_get [] k dflt = dflt"
  "dict_get ((k', v) # d) k dflt = (if k = k' then v else dict_get d k dflt)"
  by (auto simp: dict_get_def)

lemma dict_get_set [simp, dict_simps]:
  "dict_get (dict_set k v d) k' dflt = (if k' = k then v else dict_get d k' dflt)"
  by (simp add: dict_get_def)

lemma dict_has_iff [dict_simps]: "dict_has d k \<longleftrightarrow> k \<in> fst ` set d"
  by (simp add: dict_has_def map_of_eq_None_iff)

lemma length_eq_card_dom:
  "distinct (map fst d) \<Longrightarrow> length d = card (dom (map_of d))"
  by (simp add: dom_map_of_conv_image_fst distinct_card flip: set_map)

text \<open>A dictionary comprehension over distinct keys.\<close>

lemma dict_comprehension_append:
  "distinct (map fst acc @ map f xs) \<Longrightarrow>
    foldl (\<lambda>d x. dict_set (f x) (g x) d) acc xs = acc @ map (\<lambda>x. (f x, g x)) xs"
proof (induction xs arbitrary: acc)
  case (Cons x xs)
  have "dict_set (f x) (g x) acc = acc @ [(f x, g x)]"
    using Cons.prems by (intro dict_set_new) auto
  then show ?case using Cons.IH [of "acc @ [(f x, g x)]"] Cons.prems by simp
qed simp

lemma dict_comprehension:
  "distinct (map f xs) \<Longrightarrow> foldl (\<lambda>d x. dict_set (f x) (g x) d) [] xs = map (\<lambda>x. (f x, g x)) xs"
  using dict_comprehension_append [of "[]" f xs g] by simp

lemma map_of_comprehension:
  "distinct (map f xs) \<Longrightarrow> x \<in> set xs \<Longrightarrow> map_of (map (\<lambda>x. (f x, g x)) xs) (f x) = Some (g x)"
  by (intro map_of_is_SomeI) (auto simp: o_def)

text \<open>\<open>Counter\<close>: a dictionary of integers with default 0, and what it holds on the keys
  satisfying a predicate.\<close>

definition counter_add :: "'k \<Rightarrow> int \<Rightarrow> ('k, int) dict \<Rightarrow> ('k, int) dict" where
  "counter_add k n d = dict_set k (dict_get d k 0 + n) d"

definition total_where :: "('k \<Rightarrow> bool) \<Rightarrow> ('k, int) dict \<Rightarrow> int" where
  "total_where P d = sum_list (map snd (filter (\<lambda>(k, n). P k) d))"

lemma total_where_simps [simp]:
  "total_where P [] = 0"
  "total_where P ((k, n) # d) = (if P k then n else 0) + total_where P d"
  by (auto simp: total_where_def)

lemma total_where_set:
  "distinct (map fst d) \<Longrightarrow>
    total_where P (dict_set k v d) = total_where P d + (if P k then v - dict_get d k 0 else 0)"
proof (induction d)
  case (Cons e d)
  obtain k' v' where e: "e = (k', v')" by (cases e)
  have "dict_get d k 0 = 0" if "k \<notin> fst ` set d"
    using that by (simp add: dict_get_def map_of_eq_None_iff [symmetric])
  then show ?case using Cons by (cases "k = k'") (auto simp: e)
qed simp

lemma distinct_counter_add [simp]:
  "distinct (map fst d) \<Longrightarrow> distinct (map fst (counter_add k n d))"
  by (simp add: counter_add_def)

lemma total_where_counter_add:
  "distinct (map fst d) \<Longrightarrow> total_where P (counter_add k n d) = total_where P d + (if P k then n else 0)"
  by (simp add: counter_add_def total_where_set)

lemma total_where_counter:
  "distinct (map fst d) \<Longrightarrow>
    total_where P (foldl (\<lambda>d x. counter_add (f x) (g x) d) d xs) =
      total_where P d + sum_list (map g (filter (P \<circ> f) xs)) \<and>
    distinct (map fst (foldl (\<lambda>d x. counter_add (f x) (g x) d) d xs))"
  by (induction xs arbitrary: d) (auto simp: total_where_counter_add)

lemma dict_get_total: "distinct (map fst d) \<Longrightarrow> dict_get d k 0 = total_where (\<lambda>k'. k' = k) d"
proof (induction d)
  case (Cons e d)
  have "total_where (\<lambda>k'. k' = k) d = 0" if "k \<notin> fst ` set d"
    using that by (induction d) auto
  then show ?case using Cons by (cases e) auto
qed simp

section \<open>Duplicate removal that keeps the first occurrence\<close>

fun dedup :: "'a list \<Rightarrow> 'a list" where
  "dedup [] = []"
| "dedup (x # xs) = x # filter (\<lambda>y. y \<noteq> x) (dedup xs)"

lemma set_dedup [simp, dedup_simps]: "set (dedup xs) = set xs"
  by (induction xs) auto

lemma distinct_dedup [simp, dedup_simps]: "distinct (dedup xs)"
  by (induction xs) auto

lemma dedup_distinct [dedup_simps]: "distinct xs \<Longrightarrow> dedup xs = xs"
proof (induction xs)
  case (Cons x xs)
  then show ?case by (simp add: filter_id_conv) (metis filter_id_conv)
qed simp

lemma dedup_dedup [simp, dedup_simps]: "dedup (dedup xs) = dedup xs"
  by (simp add: dedup_distinct)

lemma dedup_filter: "dedup (filter P xs) = filter P (dedup xs)"
  by (induction xs) (auto simp: filter_filter intro: filter_cong)

lemma dedup_append: "dedup (xs @ ys) = dedup xs @ filter (\<lambda>y. y \<notin> set xs) (dedup ys)"
  by (induction xs) (auto simp: filter_filter intro: filter_cong)

lemma length_dedup: "length (dedup xs) = card (set xs)"
  by (metis distinct_card distinct_dedup set_dedup)

lemma distinct_filter_eq: "distinct xs \<Longrightarrow> length (filter (\<lambda>y. y = x) xs) = (if x \<in> set xs then 1 else 0)"
  by (induction xs) auto

lemma ex1_filter: "length (filter P xs) = 1 \<Longrightarrow> \<exists>!x. x \<in> set xs \<and> P x"
proof -
  assume "length (filter P xs) = 1"
  then obtain x where x: "filter P xs = [x]" by (auto simp: length_Suc_conv)
  have "y \<in> set xs \<and> P y \<longleftrightarrow> y = x" for y
    using arg_cong [OF x, of set] by (auto simp: set_eq_iff)
  then show ?thesis by simp
qed

lemma length_filter_mono:
  "(\<And>x. x \<in> set xs \<Longrightarrow> P x \<Longrightarrow> Q x) \<Longrightarrow> length (filter P xs) \<le> length (filter Q xs)"
  by (induction xs) (auto simp: le_SucI)

text \<open>The comprehensions with a condition are \<open>List.map_filter\<close>.\<close>

lemma map_filter_Cons: "List.map_filter f (x # xs) = (case f x of None \<Rightarrow> [] | Some y \<Rightarrow> [y]) @ List.map_filter f xs"
  by (simp add: map_filter_simps split: option.splits)

lemma set_map_filter_iff: "y \<in> set (List.map_filter f xs) \<longleftrightarrow> (\<exists>x \<in> set xs. f x = Some y)"
  by (induction xs) (auto simp: map_filter_Cons map_filter_simps split: option.splits)

lemma distinct_map_filter_keys:
  assumes "distinct (map k xs)" and "\<And>x y. x \<in> set xs \<Longrightarrow> f x = Some y \<Longrightarrow> g y = k x"
  shows "distinct (map g (List.map_filter f xs))"
  using assms
proof (induction xs)
  case (Cons x xs)
  have "g y \<noteq> g z" if "f x = Some y" "z \<in> set (List.map_filter f xs)" for y z
  proof -
    obtain x' where "x' \<in> set xs" "f x' = Some z" using \<open>z \<in> _\<close> by (auto simp: set_map_filter_iff)
    then show ?thesis using Cons.prems that(1) by (metis distinct.simps(2) image_eqI list.set_intros list.set_map list.simps(9))
  qed
  then show ?case using Cons by (fastforce simp: map_filter_Cons split: option.splits)
qed (simp add: map_filter_simps)

lemma find_SomeD: "find P xs = Some x \<Longrightarrow> x \<in> set xs \<and> P x"
  by (induction xs) (auto split: if_splits)

section \<open>Stable sorting\<close>

text \<open>
  \<open>sorted(xs, key=k)\<close> is the library's stable \<open>sort_key\<close>; \<open>reverse=True\<close> keeps
  equal elements in their original order as well.
\<close>

definition sort_key_desc :: "('a \<Rightarrow> 'k::linorder) \<Rightarrow> 'a list \<Rightarrow> 'a list" where
  "sort_key_desc k xs = rev (sort_key k (rev xs))"

lemma mset_sort_key_desc [simp]: "mset (sort_key_desc k xs) = mset xs"
  by (simp add: sort_key_desc_def)

lemma set_sort_key_desc [simp]: "set (sort_key_desc k xs) = set xs"
  by (simp add: sort_key_desc_def)

lemma length_sort_key_desc [simp]: "length (sort_key_desc k xs) = length xs"
  by (simp add: sort_key_desc_def)

lemma distinct_sort_key_desc [simp]: "distinct (sort_key_desc k xs) = distinct xs"
  by (simp add: sort_key_desc_def)

lemma rev_filter_eq: "rev (filter (\<lambda>y. y = x) xs) = filter (\<lambda>y. y = x) xs"
proof -
  have "filter (\<lambda>y. y = x) xs = replicate (length (filter (\<lambda>y. y = x) xs)) x" by (induction xs) auto
  then show ?thesis by (metis rev_replicate)
qed

text \<open>With distinct keys the order of the input does not matter, so \<open>reverse=True\<close>
  mirrors the ascending order.\<close>

lemma sort_key_rev:
  assumes "inj_on k (set xs)"
  shows "sort_key k (rev xs) = sort_key k xs"
proof (rule properties_for_sort_key)
  fix x assume x: "x \<in> set (sort_key k xs)"
  have "filter (\<lambda>y. k x = k y) xs = filter (\<lambda>y. y = x) xs"
    by (rule filter_cong) (use assms x in \<open>auto simp: inj_on_def\<close>)
  then show "filter (\<lambda>y. k x = k y) (sort_key k xs) = filter (\<lambda>y. k x = k y) (rev xs)"
    using sort_key_stable [of k "k x" xs] by (simp add: eq_commute [of "k x"] rev_filter_eq flip: rev_filter)
qed auto

lemma sort_key_desc_rev: "inj_on k (set xs) \<Longrightarrow> sort_key_desc k xs = rev (sort_key k xs)"
  by (simp add: sort_key_desc_def sort_key_rev)

section \<open>Rendering numbers\<close>

fun digit_char :: "nat \<Rightarrow> char" where
  "digit_char d = (char_of (48 + d) :: char)"

fun show_nat :: "nat \<Rightarrow> string" where
  "show_nat n = (if n < 10 then [digit_char n] else show_nat (n div 10) @ [digit_char (n mod 10)])"

declare show_nat.simps [simp del]

definition show_int :: "int \<Rightarrow> string" where
  "show_int i = (if i < 0 then CHR ''-'' # show_nat (nat (- i)) else show_nat (nat i))"

section \<open>Reading strings\<close>

text \<open>\<open>str.strip\<close> on the characters below 256.\<close>

definition is_space :: "char \<Rightarrow> bool" where
  "is_space c \<longleftrightarrow> (let n = (of_char c :: nat) in (9 \<le> n \<and> n \<le> 13) \<or> (28 \<le> n \<and> n \<le> 32) \<or> n = 133 \<or> n = 160)"

definition strip :: "string \<Rightarrow> string" where
  "strip s = rev (dropWhile is_space (rev (dropWhile is_space s)))"

definition is_digit :: "char \<Rightarrow> bool" where
  "is_digit c \<longleftrightarrow> 48 \<le> (of_char c :: nat) \<and> (of_char c :: nat) \<le> 57"

definition parse_nat :: "string \<Rightarrow> nat" where
  "parse_nat s = foldl (\<lambda>n c. 10 * n + (of_char c - 48)) 0 s"

lemma of_char_digit: "d < 10 \<Longrightarrow> (of_char (digit_char d) :: nat) = 48 + d"
  by (simp add: of_char_of)

declare digit_char.simps [simp del]

lemma is_digit_char: "d < 10 \<Longrightarrow> is_digit (digit_char d)"
  by (simp add: is_digit_def of_char_digit)

lemma show_nat_unfold:
  "show_nat n = (if n < 10 then [digit_char n] else show_nat (n div 10) @ [digit_char (n mod 10)])"
  by (rule show_nat.simps)

lemma show_nat_digits: "list_all is_digit (show_nat n)"
  by (induction n rule: show_nat.induct) (subst show_nat_unfold, simp add: is_digit_char)

lemma show_nat_nonempty [simp]: "show_nat n \<noteq> []"
  by (subst show_nat_unfold) simp

lemma parse_nat_snoc: "parse_nat (s @ [c]) = 10 * parse_nat s + (of_char c - 48)"
  by (simp add: parse_nat_def)

lemma parse_show_nat [simp]: "parse_nat (show_nat n) = n"
proof (induction n rule: show_nat.induct)
  case (1 n)
  then show ?case
    by (cases "n < 10"; subst show_nat_unfold) (simp_all add: parse_nat_snoc of_char_digit, simp add: parse_nat_def of_char_digit)
qed

lemma hd_show_nat: "0 < n \<Longrightarrow> hd (show_nat n) \<noteq> CHR ''0''"
proof (induction n rule: show_nat.induct)
  case (1 n)
  show ?case
  proof (cases "n < 10")
    case True
    have "digit_char n \<noteq> CHR ''0''"
    proof
      assume "digit_char n = CHR ''0''"
      then have "48 + n = (of_char (CHR ''0'') :: nat)" using of_char_digit [OF True] by simp
      then show False using 1(2) by simp
    qed
    then show ?thesis using True by (subst show_nat_unfold) simp
  qed (use 1 in \<open>subst show_nat_unfold, simp\<close>)
qed

lemma length_show_nat: "n < 10 ^ k \<Longrightarrow> 0 < k \<Longrightarrow> length (show_nat n) \<le> k"
proof (induction k arbitrary: n)
  case (Suc k)
  show ?case
  proof (cases "n < 10")
    case False
    then have "n div 10 < 10 ^ k" "0 < k" using Suc.prems(1) by (cases k; auto)+
    then show ?thesis using Suc.IH [of "n div 10"] False by (subst show_nat_unfold) simp
  qed (subst show_nat_unfold, simp)
qed simp

lemma digit_value: "is_digit c \<Longrightarrow> digit_char (of_char c - 48) = c \<and> (of_char c :: nat) - 48 < 10"
proof -
  assume "is_digit c"
  then have "(48 :: nat) \<le> of_char c" "(of_char c :: nat) \<le> 57" by (simp_all add: is_digit_def)
  then show ?thesis by (simp add: digit_char.simps)
qed

lemma parse_nat_pos: "ds \<noteq> [] \<Longrightarrow> list_all is_digit ds \<Longrightarrow> hd ds \<noteq> CHR ''0'' \<Longrightarrow> 0 < parse_nat ds"
proof (induction ds rule: rev_induct)
  case (snoc c ds)
  show ?case
  proof (cases "ds = []")
    case True
    have "(of_char c :: nat) \<noteq> 48"
    proof
      assume "(of_char c :: nat) = 48"
      moreover have "(of_char (CHR ''0'') :: nat) = 48" by simp
      ultimately have "c = CHR ''0''" by (metis char_of_char)
      then show False using snoc.prems(3) True by simp
    qed
    then show ?thesis using snoc.prems(2) True by (simp add: parse_nat_def is_digit_def)
  qed (use snoc in \<open>simp add: parse_nat_snoc\<close>)
qed simp

lemma show_parse_nat:
  "ds \<noteq> [] \<Longrightarrow> list_all is_digit ds \<Longrightarrow> hd ds \<noteq> CHR ''0'' \<Longrightarrow> show_nat (parse_nat ds) = ds"
proof (induction ds rule: rev_induct)
  case (snoc c ds)
  have c: "digit_char (of_char c - 48) = c" "(of_char c :: nat) - 48 < 10" using digit_value [of c] snoc.prems(2) by auto
  show ?case
  proof (cases "ds = []")
    case True
    then show ?thesis using c by (subst show_nat_unfold) (simp add: parse_nat_def)
  next
    case False
    then have "show_nat (parse_nat ds) = ds" "0 < parse_nat ds" using snoc parse_nat_pos by simp_all
    then show ?thesis using c by (subst show_nat_unfold) (simp add: parse_nat_snoc)
  qed
qed simp

end
