(* ===== verification/Matching.thy ===== *)
theory Matching
  imports Prelude
begin

text \<open>
  The deterministic bipartite matcher of \<open>balancer-service/src/domain/matching.py\<close>:
  \<open>try_match\<close> is the augmenting depth-first search with its shared \<open>visited_slots\<close>
  set, \<open>match_all\<close> the loop over the candidates with its early stop, and
  \<open>maximum_bipartite_matching\<close> the function the callers use. The lemmas show that a search
  only ever extends the set of seated candidates, that a failed search leaves a closed region
  behind, and that the regions of all failed searches together certify that the matching is
  maximum and that its size is decided by Hall's condition.
\<close>

section \<open>The search\<close>

text \<open>\<open>edges\<close>: a dictionary from candidates to the slots they may take.\<close>

type_synonym ('c, 's) edges = "('c, 's list) dict"

definition adj :: "('c, 's) edges \<Rightarrow> 'c \<Rightarrow> 's list" where
  "adj E c = dict_get E c []"

definition edge_slots :: "('c, 's) edges \<Rightarrow> 's set" where
  "edge_slots E = (\<Union>(c, ss) \<in> set E. set ss)"

lemma set_adj_edge_slots: "set (adj E c) \<subseteq> edge_slots E"
proof (induction E)
  case (Cons p E)
  then show ?case by (cases p) (auto simp: adj_def edge_slots_def)
qed (simp add: adj_def)

lemma finite_edge_slots [simp]: "finite (edge_slots E)"
  by (auto simp: edge_slots_def)

text \<open>
  \<open>try_match E c ss V M\<close>: candidate \<open>c\<close> with the slots \<open>ss\<close> of its loop still to try, the
  visited slots \<open>V\<close> and the current \<open>slot_to_candidate\<close> dictionary \<open>M\<close>; answers success, the
  visited set as the search leaves it, and the dictionary.
\<close>

function try_match ::
  "('c, 's) edges \<Rightarrow> 'c \<Rightarrow> 's list \<Rightarrow> 's set \<Rightarrow> ('s, 'c) dict \<Rightarrow> bool \<times> 's set \<times> ('s, 'c) dict" where
  "try_match E c [] V M = (False, V, M)"
| "try_match E c (s # ss) V M =
     (if s \<in> V then try_match E c ss V M
      else case map_of M s of
        None \<Rightarrow> (True, insert s V, dict_set s c M)
      | Some owner \<Rightarrow>
          (case try_match E owner (adj E owner) (insert s V) M of
             (ok, V', M') \<Rightarrow>
               if ok then (True, V', dict_set s c M') else try_match E c ss V' M'))"
  by pat_completeness auto

text \<open>
  The same search as a relation: one rule per way an iteration of the loop can go. The rule
  inductions below and the proof that \<open>try_match\<close> always returns rest on it.
\<close>

inductive search ::
  "('c, 's) edges \<Rightarrow> 'c \<Rightarrow> 's list \<Rightarrow> 's set \<Rightarrow> ('s, 'c) dict \<Rightarrow> bool \<Rightarrow> 's set \<Rightarrow> ('s, 'c) dict \<Rightarrow> bool"
  for E :: "('c, 's) edges" where
  exhausted: "search E c [] V M False V M"
| seen: "s \<in> V \<Longrightarrow> search E c ss V M ok V' M' \<Longrightarrow> search E c (s # ss) V M ok V' M'"
| free: "s \<notin> V \<Longrightarrow> map_of M s = None \<Longrightarrow> search E c (s # ss) V M True (insert s V) (dict_set s c M)"
| moved: "s \<notin> V \<Longrightarrow> map_of M s = Some owner \<Longrightarrow>
    search E owner (adj E owner) (insert s V) M True V' M' \<Longrightarrow>
    search E c (s # ss) V M True V' (dict_set s c M')"
| stuck: "s \<notin> V \<Longrightarrow> map_of M s = Some owner \<Longrightarrow>
    search E owner (adj E owner) (insert s V) M False V1 M1 \<Longrightarrow>
    search E c ss V1 M1 ok V' M' \<Longrightarrow> search E c (s # ss) V M ok V' M'"

lemma search_visited: "search E c ss V M ok V' M' \<Longrightarrow> V \<subseteq> V'"
  by (induction rule: search.induct) auto

lemma try_match_visited:
  "try_match_dom (E, c, ss, V, M) \<Longrightarrow> try_match E c ss V M = (ok, V', M') \<Longrightarrow> V \<subseteq> V'"
proof (induction E c ss V M arbitrary: ok V' M' rule: try_match.pinduct)
  case (2 E c s ss V M)
  show ?case
  proof (cases "s \<in> V")
    case True
    then show ?thesis using 2 by (simp add: try_match.psimps)
  next
    case fresh: False
    show ?thesis
    proof (cases "map_of M s")
      case None
      then show ?thesis using 2 fresh by (auto simp: try_match.psimps)
    next
      case (Some owner)
      obtain r W N where rec: "try_match E owner (adj E owner) (insert s V) M = (r, W, N)"
        by (metis prod_cases3)
      then have "insert s V \<subseteq> W" using "2.IH"(2) [OF fresh Some] by blast
      moreover have "W \<subseteq> V'"
      proof (cases r)
        case False
        then have "try_match E c ss W N = (ok, V', M')"
          using 2 fresh Some rec by (simp add: try_match.psimps)
        then show ?thesis by (rule "2.IH"(3) [OF fresh Some rec [symmetric] refl False])
      qed (use 2 fresh Some rec in \<open>simp add: try_match.psimps\<close>)
      ultimately show ?thesis by blast
    qed
  qed
qed (simp add: try_match.psimps)

termination try_match
proof (relation "measures
    [\<lambda>(E, c, ss, V, M). card ((edge_slots E \<union> set ss) - V), \<lambda>(E, c, ss, V, M). length ss]",
    goal_cases)
  case 1
  then show ?case by simp
next
  case (2 E c s ss V M)
  have "(edge_slots E \<union> set ss) - V = (edge_slots E \<union> set (s # ss)) - V"
    using 2 by auto
  then show ?case by simp
next
  case (3 E c s ss V M owner)
  let ?U = "(edge_slots E \<union> set (s # ss)) - V"
  have "(edge_slots E \<union> set (adj E owner)) - insert s V \<subseteq> ?U - {s}"
    using set_adj_edge_slots [of E owner] by auto
  moreover have "s \<in> ?U" and "finite ?U"
    using 3 by auto
  ultimately have "card ((edge_slots E \<union> set (adj E owner)) - insert s V) < card ?U"
    by (meson card_Diff1_less card_mono finite_Diff le_less_trans)
  then show ?case by simp
next
  case (4 E c s ss V M owner ok y V' M')
  then have "try_match E owner (adj E owner) (insert s V) M = (ok, V', M')"
    by simp
  then have "insert s V \<subseteq> V'"
    by (rule try_match_visited [OF 4(6)])
  then have "(edge_slots E \<union> set ss) - V' \<subseteq> ((edge_slots E \<union> set (s # ss)) - V) - {s}"
    by auto
  moreover have "s \<in> (edge_slots E \<union> set (s # ss)) - V"
    using 4 by auto
  ultimately have "card ((edge_slots E \<union> set ss) - V') < card ((edge_slots E \<union> set (s # ss)) - V)"
    by (meson card_Diff1_less card_mono finite_Diff finite_UnI finite_edge_slots finite_set le_less_trans)
  then show ?case by simp
qed

lemma try_match_search:
  "try_match E c ss V M = (ok, V', M') \<Longrightarrow> search E c ss V M ok V' M'"
proof (induction E c ss V M arbitrary: ok V' M' rule: try_match.induct)
  case (1 E c V M)
  then show ?case by (simp add: try_match.simps search.exhausted)
next
  case (2 E c s ss V M)
  show ?case
  proof (cases "s \<in> V")
    case True
    then show ?thesis using 2 by (simp add: try_match.simps search.seen)
  next
    case fresh: False
    show ?thesis
    proof (cases "map_of M s")
      case None
      then show ?thesis using 2 fresh by (auto simp: try_match.simps intro: search.free)
    next
      case (Some owner)
      obtain r W N where rec: "try_match E owner (adj E owner) (insert s V) M = (r, W, N)"
        by (metis prod_cases3)
      then have sub: "search E owner (adj E owner) (insert s V) M r W N"
        using "2.IH"(2) [OF fresh Some] by blast
      show ?thesis
      proof (cases r)
        case True
        then show ?thesis using 2 fresh Some rec sub
          by (auto simp: try_match.simps intro: search.moved)
      next
        case False
        then have "try_match E c ss W N = (ok, V', M')"
          using 2 fresh Some rec by (simp add: try_match.simps)
        then have "search E c ss W N ok V' M'"
          by (rule "2.IH"(3) [OF fresh Some rec [symmetric] refl False])
        moreover have "search E owner (adj E owner) (insert s V) M False W N"
          using sub False by simp
        ultimately show ?thesis by (rule search.stuck [OF fresh Some, rotated])
      qed
    qed
  qed
qed

section \<open>What one search does\<close>

text \<open>A failed search changes nothing and leaves a closed region of visited slots.\<close>

lemma search_failed_frame: "search E c ss V M ok V' M' \<Longrightarrow> \<not> ok \<Longrightarrow> M' = M"
  by (induction rule: search.induct) auto

lemma search_failed_closed:
  assumes "search E c ss V M ok V' M'" and "\<not> ok"
  shows "set ss \<subseteq> V' \<and> (\<forall>s \<in> V' - V. \<exists>owner. map_of M s = Some owner \<and> set (adj E owner) \<subseteq> V')"
  using assms
proof (induction rule: search.induct)
  case (stuck s V M owner V1 M1 c ss ok V' M')
  have "M1 = M" and "V1 \<subseteq> V'" and "insert s V \<subseteq> V1"
    using search_failed_frame [OF stuck(3)] search_visited [OF stuck(4)] search_visited [OF stuck(3)]
    by simp_all
  moreover from stuck have ih1: "set (adj E owner) \<subseteq> V1"
      "\<And>t. t \<in> V1 - insert s V \<Longrightarrow> \<exists>o'. map_of M t = Some o' \<and> set (adj E o') \<subseteq> V1"
    by simp_all
  moreover from stuck \<open>M1 = M\<close> have ih2: "set ss \<subseteq> V'"
      "\<And>t. t \<in> V' - V1 \<Longrightarrow> \<exists>o'. map_of M t = Some o' \<and> set (adj E o') \<subseteq> V'"
    by simp_all
  ultimately have "\<exists>o'. map_of M t = Some o' \<and> set (adj E o') \<subseteq> V'" if "t \<in> V' - V" for t
    using that stuck(2) by (cases "t = s"; cases "t \<in> V1") (fastforce+)
  then show ?case using ih2 \<open>insert s V \<subseteq> V1\<close> \<open>V1 \<subseteq> V'\<close> by auto
qed (auto dest: search_visited)

text \<open>A search that starts inside a closed region fails; a successful one leaves the region alone.\<close>

definition closed_region :: "('c, 's) edges \<Rightarrow> ('s, 'c) dict \<Rightarrow> 's set \<Rightarrow> bool" where
  "closed_region E M Y \<longleftrightarrow> (\<forall>s \<in> Y. \<exists>owner. map_of M s = Some owner \<and> set (adj E owner) \<subseteq> Y)"

lemma search_closed_region_fails:
  "search E c ss V M ok V' M' \<Longrightarrow> closed_region E M Y \<Longrightarrow> set ss \<subseteq> Y \<Longrightarrow> \<not> ok"
proof (induction rule: search.induct)
  case (stuck s V M owner V1 M1 c ss ok V' M')
  then show ?case by (metis search_failed_frame set_subset_Cons subset_trans)
qed (auto simp: closed_region_def)

lemma search_keeps_closed_region:
  "search E c ss V M ok V' M' \<Longrightarrow> closed_region E M Y \<Longrightarrow> s \<in> Y \<Longrightarrow> map_of M' s = map_of M s"
proof (induction rule: search.induct)
  case (moved t V M owner V' M' c ss)
  have "t \<notin> Y"
  proof
    assume "t \<in> Y"
    then have "set (adj E owner) \<subseteq> Y"
      using moved.prems(1) moved.hyps(2) unfolding closed_region_def by fastforce
    then show False
      using search_closed_region_fails [OF moved.hyps(3) moved.prems(1)] by simp
  qed
  then show ?case using moved by auto
next
  case (stuck t V M owner V1 M1 c ss ok V' M')
  then show ?case using search_failed_frame by fastforce
qed (auto simp: closed_region_def)

text \<open>
  A successful search seats \<open>c\<close>, keeps everybody seated and fills exactly one new slot. During the
  recursion the slots \<open>D\<close> on the path hold a stale owner; the statement leaves them out.
\<close>

definition seated_outside :: "('s \<Rightarrow> 'c option) \<Rightarrow> 's set \<Rightarrow> 'c set" where
  "seated_outside m D = {c. \<exists>s. s \<notin> D \<and> m s = Some c}"

definition one_each :: "('s \<Rightarrow> 'c option) \<Rightarrow> 's set \<Rightarrow> bool" where
  "one_each m D \<longleftrightarrow> (\<forall>s t c. s \<notin> D \<longrightarrow> t \<notin> D \<longrightarrow> m s = Some c \<longrightarrow> m t = Some c \<longrightarrow> s = t)"

lemma one_each_upd:
  "one_each m (insert s D) \<Longrightarrow> c \<notin> seated_outside m (insert s D) \<Longrightarrow> one_each (m(s \<mapsto> c)) D"
  by (auto simp: one_each_def seated_outside_def)

lemma one_each_insert: "one_each m D \<Longrightarrow> one_each m (insert s D)"
  by (auto simp: one_each_def)

lemma seated_outside_upd:
  "s \<notin> D \<Longrightarrow> seated_outside (m(s \<mapsto> c)) D = insert c (seated_outside m (insert s D))"
  by (auto simp: seated_outside_def)

lemma seated_outside_insert:
  "s \<notin> D \<Longrightarrow> one_each m D \<Longrightarrow> m s = Some c \<Longrightarrow>
    c \<notin> seated_outside m (insert s D) \<and> insert c (seated_outside m (insert s D)) = seated_outside m D"
proof -
  assume s: "s \<notin> D" and one: "one_each m D" and m: "m s = Some c"
  have "c \<notin> seated_outside m (insert s D)"
    using s m one unfolding seated_outside_def one_each_def by blast
  moreover have "insert c (seated_outside m (insert s D)) = seated_outside m D"
    using s m unfolding seated_outside_def by (auto, metis option.inject)
  ultimately show ?thesis ..
qed

lemma seated_outside_free: "m s = None \<Longrightarrow> seated_outside m (insert s D) = seated_outside m D"
  unfolding seated_outside_def by (metis insert_iff option.distinct(1))

lemma search_augments:
  assumes "search E c ss V M ok V' M'" and ok
    and "D \<subseteq> V" and "one_each (map_of M) D" and "c \<notin> seated_outside (map_of M) D"
  shows "one_each (map_of M') D \<and> seated_outside (map_of M') D = insert c (seated_outside (map_of M) D) \<and>
    (\<exists>t. t \<notin> V \<and> t \<notin> dom (map_of M) \<and> dom (map_of M') = insert t (dom (map_of M)))"
  using assms
proof (induction arbitrary: D rule: search.induct)
  case (seen s V c ss M ok V' M')
  then show ?case by blast
next
  case (free s V M c ss)
  let ?m = "map_of M"
  have s: "s \<notin> D" using free by auto
  have out: "seated_outside ?m (insert s D) = seated_outside ?m D"
    by (rule seated_outside_free [of ?m, OF free.hyps(2)])
  have one: "one_each (?m(s \<mapsto> c)) D"
    using free.prems one_each_upd [of ?m s D c] one_each_insert [of ?m D s] out by simp
  have seats: "seated_outside (?m(s \<mapsto> c)) D = insert c (seated_outside ?m D)"
    using seated_outside_upd [OF s, of ?m c] out by simp
  have "s \<notin> dom ?m" and "dom (?m(s \<mapsto> c)) = insert s (dom ?m)"
    using free.hyps(2) by auto
  then show ?case
    unfolding map_of_dict_set using one seats free.hyps(1) by blast
next
  case (moved s V M owner V' M' c ss)
  let ?m = "map_of M" and ?m' = "map_of M'"
  have s: "s \<notin> D" using moved by auto
  note out = seated_outside_insert [OF s moved.prems(3) moved.hyps(2)]
  have IH: "one_each ?m' (insert s D)"
    "seated_outside ?m' (insert s D) = insert owner (seated_outside ?m (insert s D))"
    "\<exists>t. t \<notin> insert s V \<and> t \<notin> dom ?m \<and> dom ?m' = insert t (dom ?m)"
    using moved.IH [OF TrueI _ one_each_insert [OF moved.prems(3)], of s] moved.prems(2) out
    by (simp_all add: subset_insertI2)
  have keep: "seated_outside ?m' (insert s D) = seated_outside ?m D"
    using IH(2) out by simp
  have one: "one_each (?m'(s \<mapsto> c)) D"
    using one_each_upd [of ?m' s D c] IH(1) keep moved.prems(4) by blast
  have seats: "seated_outside (?m'(s \<mapsto> c)) D = insert c (seated_outside ?m D)"
    using seated_outside_upd [OF s, of ?m' c] keep by simp
  have "s \<in> dom ?m" using moved.hyps(2) by auto
  moreover obtain t where t: "t \<notin> insert s V" "t \<notin> dom ?m" "dom ?m' = insert t (dom ?m)"
    using IH(3) by blast
  ultimately have dom': "dom (?m'(s \<mapsto> c)) = insert t (dom ?m)"
    by (simp only: dom_fun_upd option.distinct if_False) blast
  have "\<exists>t. t \<notin> V \<and> t \<notin> dom ?m \<and> dom (?m'(s \<mapsto> c)) = insert t (dom ?m)"
    by (rule exI [of _ t]) (intro conjI dom' t(2), use t(1) in blast)
  then show ?case unfolding map_of_dict_set using one seats by blast
next
  case (stuck s V M owner V1 M1 c ss ok V' M')
  have "M1 = M" and V: "V \<subseteq> V1"
    using search_failed_frame [OF stuck.hyps(3)] search_visited [OF stuck.hyps(3)] by auto
  have "one_each (map_of M1) D" and "c \<notin> seated_outside (map_of M1) D" and "D \<subseteq> V1"
    using stuck.prems \<open>M1 = M\<close> V by auto
  note IH = stuck.IH(2) [OF stuck.prems(1) this(3,1,2)]
  then obtain t where t: "t \<notin> V1" "t \<notin> dom (map_of M)" "dom (map_of M') = insert t (dom (map_of M))"
    unfolding \<open>M1 = M\<close> by (elim conjE exE)
  have "t \<notin> V" using t(1) V by (rule contra_subsetD [rotated])
  with t(2,3) have "\<exists>t. t \<notin> V \<and> t \<notin> dom (map_of M) \<and> dom (map_of M') = insert t (dom (map_of M))"
    by (intro exI [of _ t] conjI)
  then show ?case using IH unfolding \<open>M1 = M\<close> by (elim conjE) (intro conjI)
qed simp

lemma search_edges:
  assumes "search E c ss V M ok V' M'" and "set ss \<subseteq> set (adj E c)"
    and "\<And>t o'. map_of M t = Some o' \<Longrightarrow> t \<in> set (adj E o')"
  shows "map_of M' t = Some o' \<Longrightarrow> t \<in> set (adj E o')"
  using assms
  by (induction arbitrary: t o' rule: search.induct) (auto split: if_splits)

lemma search_distinct_keys:
  "search E c ss V M ok V' M' \<Longrightarrow> distinct (map fst M) \<Longrightarrow> distinct (map fst M')"
  by (induction rule: search.induct) auto


section \<open>The loop over the candidates\<close>

text \<open>
  \<open>match_all\<close>: the \<open>for candidate in candidate_order\<close> loop; \<open>n\<close> is
  \<open>len(slot_order)\<close>, and the loop breaks once that many slots are taken.
\<close>

fun match_all ::
  "('c, 's) edges \<Rightarrow> nat \<Rightarrow> 'c list \<Rightarrow> ('s, 'c) dict \<Rightarrow> ('s, 'c) dict" where
  "match_all E n [] M = M"
| "match_all E n (c # cs) M =
     (if length M = n then M
      else case try_match E c (adj E c) {} M of (ok, V, M') \<Rightarrow> match_all E n cs M')"

record ('c, 's) bipartite_matching =
  slot_to_candidate :: "('s, 'c) dict"
  candidate_to_slot :: "('c, 's) dict"
  unmatched_slots :: "'s list"
  unmatched_candidates :: "'c list"

definition matched_count :: "('c, 's) bipartite_matching \<Rightarrow> nat" where
  "matched_count r = length (slot_to_candidate r)"

definition known_edges :: "'c list \<Rightarrow> 's list \<Rightarrow> ('c, 's) edges \<Rightarrow> ('c, 's) edges" where
  "known_edges candidate_order slot_order eligible =
     map (\<lambda>c. (c, dedup (filter (\<lambda>s. s \<in> set slot_order) (adj eligible c)))) candidate_order"

text \<open>\<open>{k: d[k] for k in order if k in d}\<close>\<close>

definition dict_in_order :: "'k list \<Rightarrow> ('k, 'v) dict \<Rightarrow> ('k, 'v) dict" where
  "dict_in_order order d = List.map_filter (\<lambda>k. map_option (Pair k) (map_of d k)) order"

definition invert_dict :: "('s, 'c) dict \<Rightarrow> ('c, 's) dict" where
  "invert_dict d = foldl (\<lambda>acc (s, c). dict_set c s acc) [] d"

definition maximum_bipartite_matching ::
  "'c list \<Rightarrow> 's list \<Rightarrow> ('c, 's) edges \<Rightarrow> ('c, 's) bipartite_matching" where
  "maximum_bipartite_matching candidates slots eligible =
     (let candidate_order = dedup candidates;
          slot_order = dedup slots;
          E = known_edges candidate_order slot_order eligible;
          M = match_all E (length slot_order) candidate_order [];
          back = invert_dict M
      in \<lparr>slot_to_candidate = dict_in_order slot_order M,
          candidate_to_slot = dict_in_order candidate_order back,
          unmatched_slots = filter (\<lambda>s. \<not> dict_has M s) slot_order,
          unmatched_candidates = filter (\<lambda>c. \<not> dict_has back c) candidate_order\<rparr>)"

section \<open>The invariant of the loop\<close>

text \<open>
  \<open>certified E P M\<close>: the dictionary is a matching of the processed candidates \<open>P\<close>
  along the edges, and a closed region contains every edge of a processed candidate left without a
  slot.
\<close>

abbreviation seated :: "('s, 'c) dict \<Rightarrow> 'c set" where
  "seated M \<equiv> ran (map_of M)"

definition matching_along :: "('c \<Rightarrow> 's set) \<Rightarrow> 'c set \<Rightarrow> ('s \<Rightarrow> 'c option) \<Rightarrow> bool" where
  "matching_along A P m \<longleftrightarrow> inj_on m (dom m) \<and> (\<forall>s c. m s = Some c \<longrightarrow> c \<in> P \<and> s \<in> A c)"

definition region_for :: "('c \<Rightarrow> 's set) \<Rightarrow> 'c set \<Rightarrow> ('s \<Rightarrow> 'c option) \<Rightarrow> 's set \<Rightarrow> bool" where
  "region_for A P m Y \<longleftrightarrow> (\<forall>s \<in> Y. \<exists>c. m s = Some c \<and> A c \<subseteq> Y) \<and> (\<forall>c \<in> P - ran m. A c \<subseteq> Y)"

definition certified :: "('c \<Rightarrow> 's set) \<Rightarrow> 'c set \<Rightarrow> ('s \<Rightarrow> 'c option) \<Rightarrow> bool" where
  "certified A P m \<longleftrightarrow> matching_along A P m \<and> (\<exists>Y. region_for A P m Y)"

lemma seated_outside_empty [simp]: "seated_outside m {} = ran m"
  by (auto simp: seated_outside_def ran_def)

lemma one_each_inj_on: "one_each m {} \<longleftrightarrow> inj_on m (dom m)"
  by (fastforce simp: one_each_def inj_on_def dom_def)

lemma region_for_closed:
  "region_for (\<lambda>c. set (adj E c)) P (map_of M) Y \<Longrightarrow> closed_region E M Y"
  by (simp add: region_for_def closed_region_def)

lemma certified_step:
  assumes cert: "certified (\<lambda>c. set (adj E c)) P (map_of M)" and new: "c \<notin> P"
    and run: "try_match E c (adj E c) {} M = (ok, V, M')"
  shows "certified (\<lambda>c. set (adj E c)) (insert c P) (map_of M')"
    and "ran (map_of M') = (if ok then insert c (ran (map_of M)) else ran (map_of M))"
proof -
  let ?A = "\<lambda>c. set (adj E c)"
  have sr: "search E c (adj E c) {} M ok V M'" using run by (rule try_match_search)
  from cert obtain Y where mat: "matching_along ?A P (map_of M)" and Y: "region_for ?A P (map_of M) Y"
    unfolding certified_def by blast
  have c_free: "c \<notin> ran (map_of M)"
    using mat new by (auto simp: matching_along_def ran_def)
  have "certified ?A (insert c P) (map_of M') \<and>
    ran (map_of M') = (if ok then insert c (ran (map_of M)) else ran (map_of M))"
  proof (cases ok)
    case False
    have same: "M' = M" using search_failed_frame [OF sr False] .
    have "region_for ?A (insert c P) (map_of M) (Y \<union> V)"
      using Y search_failed_closed [OF sr False] unfolding region_for_def by fastforce
    moreover have "matching_along ?A (insert c P) (map_of M)"
      using mat by (auto simp: matching_along_def)
    ultimately show ?thesis using same False by (auto simp: certified_def)
  next
    case True
    have aug: "one_each (map_of M') {}" "ran (map_of M') = insert c (ran (map_of M))"
      using search_augments [OF sr True, of "{}"] mat c_free
      by (simp_all add: matching_along_def one_each_inj_on)
    have edge: "t \<in> ?A o'" if "map_of M' t = Some o'" for t o'
      using search_edges [OF sr _ _ that] mat by (simp add: matching_along_def)
    have "o' \<in> insert c P" if "map_of M' t = Some o'" for t o'
    proof -
      have "o' \<in> insert c (ran (map_of M))" using that aug(2) by (metis ranI)
      then show ?thesis using mat by (auto simp: matching_along_def ran_def)
    qed
    then have mat': "matching_along ?A (insert c P) (map_of M')"
      using aug(1) edge by (simp add: matching_along_def one_each_inj_on)
    have keep: "map_of M' s = map_of M s" if "s \<in> Y" for s
      using search_keeps_closed_region [OF sr region_for_closed [OF Y] that] .
    have "region_for ?A (insert c P) (map_of M') Y"
      using Y keep aug(2) unfolding region_for_def by auto
    then show ?thesis using mat' aug(2) True by (auto simp: certified_def)
  qed
  then show "certified ?A (insert c P) (map_of M')"
    and "ran (map_of M') = (if ok then insert c (ran (map_of M)) else ran (map_of M))" by blast+
qed

lemma certified_all_slots:
  assumes "certified A P m" and "\<And>c. A c \<subseteq> S" and "finite S" and "card (dom m) = card S"
    and "P \<subseteq> Q"
  shows "certified A Q m"
proof -
  have mat: "matching_along A P m" using assms(1) by (simp add: certified_def)
  then have "dom m \<subseteq> S" using assms(2) by (fastforce simp: matching_along_def)
  then have "dom m = S" using assms(3,4) by (metis card_subset_eq)
  then have "region_for A Q m S"
    using assms(2) by (auto simp: region_for_def dom_def)
  moreover have "matching_along A Q m" using mat assms(5) by (auto simp: matching_along_def)
  ultimately show ?thesis by (auto simp: certified_def)
qed

lemma match_all_certified:
  assumes "certified (\<lambda>c. set (adj E c)) P (map_of M)" and "distinct (map fst M)"
    and "\<And>c. set (adj E c) \<subseteq> S" and "finite S" and "n = card S"
    and "distinct cs" and "set cs \<inter> P = {}"
  shows "certified (\<lambda>c. set (adj E c)) (P \<union> set cs) (map_of (match_all E n cs M)) \<and>
    distinct (map fst (match_all E n cs M)) \<and>
    ran (map_of M) \<subseteq> ran (map_of (match_all E n cs M))"
  using assms
proof (induction cs arbitrary: P M)
  case (Cons c cs)
  show ?case
  proof (cases "length M = n")
    case True
    then have "certified (\<lambda>c. set (adj E c)) (P \<union> set (c # cs)) (map_of M)"
      using Cons.prems
      by (intro certified_all_slots [OF Cons.prems(1) _ Cons.prems(4)])
        (auto simp: length_eq_card_dom)
    then show ?thesis using True Cons.prems(2) by simp
  next
    case False
    obtain ok V M' where run: "try_match E c (adj E c) {} M = (ok, V, M')" by (metis prod_cases3)
    have c: "c \<notin> P" using Cons.prems by auto
    note step = certified_step [OF Cons.prems(1) c run]
    have "distinct (map fst M')"
      using search_distinct_keys [OF try_match_search [OF run] Cons.prems(2)] .
    then have "certified (\<lambda>c. set (adj E c)) (insert c P \<union> set cs) (map_of (match_all E n cs M')) \<and>
      distinct (map fst (match_all E n cs M')) \<and>
      ran (map_of M') \<subseteq> ran (map_of (match_all E n cs M'))"
      using Cons.prems by (intro Cons.IH step(1)) auto
    moreover have "ran (map_of M) \<subseteq> ran (map_of M')" using step(2) by auto
    ultimately show ?thesis using False run by auto
  qed
qed simp

lemma certified_empty [simp]: "certified A {} Map.empty"
  by (auto simp: certified_def matching_along_def region_for_def)

lemma adj_known_edges:
  "adj (known_edges cs ss el) c =
    (if c \<in> set cs then dedup (filter (\<lambda>s. s \<in> set ss) (adj el c)) else [])"
  by (induction cs) (auto simp: known_edges_def adj_def)

lemma map_of_dict_in_order:
  "map_of (dict_in_order ks d) k = (if k \<in> set ks then map_of d k else None)"
  by (induction ks) (auto simp: dict_in_order_def map_filter_simps split: option.splits)

lemma map_of_dict_in_order_all:
  "dom (map_of d) \<subseteq> set ks \<Longrightarrow> map_of (dict_in_order ks d) = map_of d"
  by (rule ext) (metis domIff in_mono map_of_dict_in_order)

lemma distinct_dict_in_order:
  "distinct ks \<Longrightarrow> distinct (map fst (dict_in_order ks d))"
proof -
  have "map fst (dict_in_order ks d) = filter (\<lambda>k. map_of d k \<noteq> None) ks" for ks
    by (induction ks) (auto simp: dict_in_order_def map_filter_simps split: option.splits)
  then show "distinct ks \<Longrightarrow> ?thesis" by simp
qed

lemma invert_dict_snoc:
  "map_of (invert_dict (d @ [(t, e)])) = (map_of (invert_dict d))(e \<mapsto> t)"
  by (simp add: invert_dict_def)

lemma map_of_invert_dict_set:
  "(\<And>s t c. (s, c) \<in> set d \<Longrightarrow> (t, c) \<in> set d \<Longrightarrow> s = t) \<Longrightarrow>
    map_of (invert_dict d) c = Some s \<longleftrightarrow> (s, c) \<in> set d"
proof (induction d arbitrary: s rule: rev_induct)
  case (snoc p d)
  obtain t e where p: "p = (t, e)" by (cases p)
  have "map_of (invert_dict d) c = Some s \<longleftrightarrow> (s, c) \<in> set d"
    using snoc.prems by (intro snoc.IH) auto
  then show ?case
    using snoc.prems [of s c t] unfolding p invert_dict_snoc by auto
qed (simp add: invert_dict_def)

lemma map_of_invert_dict:
  assumes "inj_on (map_of d) (dom (map_of d))" and "distinct (map fst d)"
  shows "map_of (invert_dict d) c = Some s \<longleftrightarrow> map_of d s = Some c"
proof -
  have "map_of (invert_dict d) c = Some s \<longleftrightarrow> (s, c) \<in> set d"
    using assms by (intro map_of_invert_dict_set) (metis domI inj_onD map_of_is_SomeI)
  then show ?thesis using assms(2) by simp
qed

section \<open>The contract of a matcher, and what its clients get from it\<close>

text \<open>
  What every matcher of the program promises: for an instance \<open>i\<close> it returns a matching of
  \<open>cands i\<close> along \<open>nbrs i\<close> together with (provably) a certifying region. From that
  alone follow maximality, Hall's condition for the slots, and the symmetric count for the
  candidates.
\<close>

lemma matching_along_inj:
  assumes "matching_along A P m" and "T \<subseteq> dom m"
  shows "inj_on (the \<circ> m) T"
proof (rule inj_onI)
  fix s t assume "s \<in> T" "t \<in> T" and eq: "(the \<circ> m) s = (the \<circ> m) t"
  then have "s \<in> dom m" "t \<in> dom m" using assms(2) by auto
  then have "m s = m t" using eq by auto
  then show "s = t"
    using assms(1) \<open>s \<in> dom m\<close> \<open>t \<in> dom m\<close> unfolding matching_along_def inj_on_def by blast
qed

lemma matching_alongD: "matching_along A P m \<Longrightarrow> m s = Some c \<Longrightarrow> c \<in> P \<and> s \<in> A c"
  by (simp add: matching_along_def)

locale bipartite_matcher =
  fixes cands :: "'i \<Rightarrow> 'c set"
    and nbrs :: "'i \<Rightarrow> 'c \<Rightarrow> 's set"
    and solve :: "'i \<Rightarrow> 's \<Rightarrow> 'c option"
  assumes finite_cands: "finite (cands i)"
    and finite_nbrs: "finite (nbrs i c)"
    and solved: "certified (nbrs i) (cands i) (solve i)"
begin

lemma solve_matching: "matching_along (nbrs i) (cands i) (solve i)"
  using solved [of i] by (simp add: certified_def)

lemma finite_ran: "finite (ran (solve i))"
  using solve_matching [of i] finite_cands [of i]
  by (elim rev_finite_subset) (auto simp: matching_along_def ran_def)

lemma finite_matching:
  assumes "matching_along (nbrs i) (cands i) m"
  shows "finite (dom m)" and "card (ran m) = card (dom m)"
proof -
  have "ran m = the ` m ` dom m" by (force simp: ran_def)
  moreover have inj: "inj_on (the \<circ> m) (dom m)"
    by (rule matching_along_inj [OF assms order_refl])
  ultimately show "card (ran m) = card (dom m)"
    by (simp add: card_image flip: image_comp) (metis card_image image_comp)
  have "ran m \<subseteq> cands i" using assms by (auto simp: matching_along_def ran_def)
  then have "finite (ran m)" using finite_cands [of i] by (rule finite_subset)
  then show "finite (dom m)"
    using inj \<open>ran m = the ` m ` dom m\<close> by (metis finite_imageD image_comp)
qed

text \<open>The certifying region: its slots are all taken, and only by candidates confined to it.\<close>

lemma region_count:
  assumes "region_for (nbrs i) (cands i) (solve i) Y"
  shows "Y \<subseteq> dom (solve i)"
    and "\<And>s c. c \<in> cands i \<Longrightarrow> s \<in> nbrs i c \<Longrightarrow> s \<notin> Y \<Longrightarrow> \<exists>t. t \<notin> Y \<and> solve i t = Some c"
proof -
  note Y = assms [unfolded region_for_def]
  show "Y \<subseteq> dom (solve i)" using Y by blast
  fix s c assume c: "c \<in> cands i" "s \<in> nbrs i c" "s \<notin> Y"
  then have "c \<in> ran (solve i)" using Y by blast
  then obtain t where t: "solve i t = Some c" by (auto simp: ran_def)
  moreover have "t \<notin> Y"
  proof
    assume "t \<in> Y"
    then have "nbrs i c \<subseteq> Y" using Y t by fastforce
    then show False using c by blast
  qed
  ultimately show "\<exists>t. t \<notin> Y \<and> solve i t = Some c" by blast
qed

theorem maximum:
  assumes "matching_along (nbrs i) (cands i) m"
  shows "card (dom m) \<le> card (dom (solve i))"
proof -
  obtain Y where Y: "region_for (nbrs i) (cands i) (solve i) Y"
    using solved [of i] by (auto simp: certified_def)
  note region = region_count [OF Y]
  let ?M = "dom (solve i) - Y" and ?Q = "{c. \<exists>s. s \<notin> Y \<and> solve i s = Some c}"
  have "finite (dom (solve i))" by (rule finite_matching [OF solve_matching])
  then have fin: "finite ?M" and split: "card (dom (solve i)) = card Y + card ?M" and "finite Y"
    using region(1) by (auto simp: card_Diff_subset card_mono finite_subset)
  have "?Q = (the \<circ> solve i) ` ?M" by force
  then have Q: "finite ?Q" "card ?Q \<le> card ?M" using fin by (simp_all add: card_image_le)
  have "dom m - Y \<subseteq> dom m" by blast
  have free: "the (m s) \<in> ?Q" if s: "s \<in> dom m - Y" for s
  proof -
    obtain c where c: "m s = Some c" using s by blast
    then have "c \<in> cands i" "s \<in> nbrs i c" using assms by (auto simp: matching_along_def)
    moreover have "s \<notin> Y" using s by blast
    ultimately show ?thesis using region(2) c by simp
  qed
  have "inj_on (the \<circ> m) (dom m - Y)"
    by (rule matching_along_inj [OF assms]) blast
  then have "card (dom m - Y) \<le> card ?Q"
    using free Q(1) by (intro card_inj_on_le [of "the \<circ> m"]) auto
  moreover have "card (dom m) \<le> card Y + card (dom m - Y)"
    using \<open>finite Y\<close> finite_matching(1) [OF assms]
    by (metis Un_Diff_cancel add.commute card_Un_le card_mono finite_Diff finite_UnI le_trans
        sup.cobounded2 sup_commute)
  ultimately show ?thesis using Q(2) split by linarith
qed

text \<open>
  Hall's condition, read from the slots: the slots \<open>S\<close> (all those any candidate can reach,
  or more) are all taken exactly when every set of them is wanted by at least as many candidates.
\<close>

lemma all_slots_imp_hall:
  assumes "S \<subseteq> dom (solve i)" and "T \<subseteq> S"
  shows "card T \<le> card {c \<in> cands i. nbrs i c \<inter> T \<noteq> {}}"
proof (rule card_inj_on_le [of "the \<circ> solve i"])
  show "inj_on (the \<circ> solve i) T"
    using assms by (intro matching_along_inj [OF solve_matching]) blast
  show "(the \<circ> solve i) ` T \<subseteq> {c \<in> cands i. nbrs i c \<inter> T \<noteq> {}}"
  proof
    fix c assume "c \<in> (the \<circ> solve i) ` T"
    then obtain s where s: "s \<in> T" "c = the (solve i s)" by auto
    then have "solve i s = Some c" using assms by auto
    from matching_alongD [OF solve_matching this] show "c \<in> {c \<in> cands i. nbrs i c \<inter> T \<noteq> {}}"
      using s(1) by blast
  qed
qed (simp add: finite_cands)

lemma hall_imp_all_slots:
  assumes "finite S" and "dom (solve i) \<subseteq> S"
    and hall: "\<And>T. T \<subseteq> S \<Longrightarrow> card T \<le> card {c \<in> cands i. nbrs i c \<inter> T \<noteq> {}}"
  shows "dom (solve i) = S"
proof (rule ccontr)
  assume "dom (solve i) \<noteq> S"
  obtain Y where Y: "region_for (nbrs i) (cands i) (solve i) Y"
    using solved [of i] by (auto simp: certified_def)
  note region = region_count [OF Y]
  let ?M = "dom (solve i) - Y" and ?N = "{c \<in> cands i. nbrs i c \<inter> (S - Y) \<noteq> {}}"
  have "?N \<subseteq> (the \<circ> solve i) ` ?M"
  proof
    fix c assume "c \<in> ?N"
    then obtain t where t: "t \<notin> Y" "solve i t = Some c" using region(2) by blast
    then show "c \<in> (the \<circ> solve i) ` ?M" by (intro image_eqI [of _ _ t]) auto
  qed
  moreover have fin: "finite ?M" using assms by (meson finite_Diff finite_subset)
  ultimately have "card ?N \<le> card ?M" by (rule surj_card_le [rotated])
  moreover have "?M \<subset> S - Y"
    using \<open>dom (solve i) \<noteq> S\<close> assms(2) region(1) by blast
  then have "card ?M < card (S - Y)" using assms(1) by (intro psubset_card_mono) auto
  moreover have "card (S - Y) \<le> card ?N" using hall by blast
  ultimately show False by linarith
qed

theorem all_slots_iff_hall:
  assumes "finite S" and "dom (solve i) \<subseteq> S"
  shows "dom (solve i) = S \<longleftrightarrow> (\<forall>T \<subseteq> S. card T \<le> card {c \<in> cands i. nbrs i c \<inter> T \<noteq> {}})"
  using all_slots_imp_hall hall_imp_all_slots [OF assms] by blast

text \<open>Nobody is left out when somebody could still be added: every reachable slot of a candidate
  without one is taken.\<close>

lemma unseated_slots_taken: "c \<in> cands i \<Longrightarrow> c \<notin> ran (solve i) \<Longrightarrow> nbrs i c \<subseteq> dom (solve i)"
  using solved [of i] by (fastforce simp: certified_def region_for_def)

end

section \<open>\<open>maximum_bipartite_matching\<close> meets the contract\<close>

definition allowed_slots :: "'s list \<Rightarrow> ('c, 's) edges \<Rightarrow> 'c \<Rightarrow> 's set" where
  "allowed_slots slots eligible c = set (adj eligible c) \<inter> set slots"

lemma certified_cong:
  "certified A P m \<Longrightarrow> (\<And>c. c \<in> P \<Longrightarrow> A c = B c) \<Longrightarrow> certified B P m"
  unfolding certified_def matching_along_def region_for_def
  by (metis Diff_iff ranI)

lemma final_matching:
  fixes candidates :: "'c list" and slots :: "'s list" and eligible :: "('c, 's) edges"
  defines "M \<equiv> match_all (known_edges (dedup candidates) (dedup slots) eligible)
      (length (dedup slots)) (dedup candidates) []"
  shows "certified (allowed_slots slots eligible) (set candidates) (map_of M)"
    and "distinct (map fst M)"
    and "map_of (slot_to_candidate (maximum_bipartite_matching candidates slots eligible)) = map_of M"
proof -
  let ?E = "known_edges (dedup candidates) (dedup slots) eligible"
  have sub: "set (adj ?E c) \<subseteq> set slots" for c by (auto simp: adj_known_edges)
  have all: "certified (\<lambda>c. set (adj ?E c)) ({} \<union> set (dedup candidates)) (map_of M) \<and>
      distinct (map fst M) \<and> seated ([] :: ('s, 'c) dict) \<subseteq> seated M"
    unfolding M_def
    by (rule match_all_certified [where S = "set slots"]) (use sub in \<open>simp_all add: length_dedup\<close>)
  then show dist: "distinct (map fst M)" by blast
  from all have "certified (\<lambda>c. set (adj ?E c)) (set candidates) (map_of M)" by simp
  then show cert: "certified (allowed_slots slots eligible) (set candidates) (map_of M)"
    by (rule certified_cong) (auto simp: adj_known_edges allowed_slots_def)
  have "dom (map_of M) \<subseteq> set (dedup slots)"
    using cert by (auto simp: certified_def allowed_slots_def dest!: matching_alongD)
  then have "map_of (dict_in_order (dedup slots) M) = map_of M"
    by (rule map_of_dict_in_order_all)
  moreover have "slot_to_candidate (maximum_bipartite_matching candidates slots eligible) =
      dict_in_order (dedup slots) M"
    by (simp add: maximum_bipartite_matching_def Let_def M_def)
  ultimately show "map_of (slot_to_candidate (maximum_bipartite_matching candidates slots eligible)) = map_of M"
    by simp
qed

definition solved_instance :: "'c list \<times> 's list \<times> ('c, 's) edges \<Rightarrow> 's \<Rightarrow> 'c option" where
  "solved_instance = (\<lambda>(candidates, slots, eligible).
     map_of (slot_to_candidate (maximum_bipartite_matching candidates slots eligible)))"

interpretation mbm: bipartite_matcher
  "\<lambda>(candidates, slots, eligible). set candidates"
  "\<lambda>(candidates, slots, eligible). allowed_slots slots eligible"
  solved_instance
proof (unfold_locales, goal_cases)
  case (3 i)
  obtain cs ss el where "i = (cs, ss, el)" by (cases i)
  then show ?case
    using final_matching(1) [of ss el cs] by (simp add: solved_instance_def final_matching(3))
qed (auto simp: allowed_slots_def)

lemma mbm_matching:
  "matching_along (allowed_slots slots eligible) (set candidates)
    (map_of (slot_to_candidate (maximum_bipartite_matching candidates slots eligible)))"
  using mbm.solve_matching [of "(candidates, slots, eligible)"] by (simp add: solved_instance_def)

lemma matched_dom:
  defines "r \<equiv> \<lambda>candidates slots eligible. maximum_bipartite_matching candidates slots eligible"
  shows "distinct (map fst (slot_to_candidate (r candidates slots eligible)))"
    and "matched_count (r candidates slots eligible) =
      card (dom (map_of (slot_to_candidate (r candidates slots eligible))))"
    and "dom (map_of (slot_to_candidate (r candidates slots eligible))) \<subseteq> set slots"
    and "set (unmatched_slots (r candidates slots eligible)) =
      set slots - dom (map_of (slot_to_candidate (r candidates slots eligible)))"
proof -
  show dist: "distinct (map fst (slot_to_candidate (r candidates slots eligible)))"
    by (simp add: r_def maximum_bipartite_matching_def Let_def distinct_dict_in_order)
  then show "matched_count (r candidates slots eligible) =
      card (dom (map_of (slot_to_candidate (r candidates slots eligible))))"
    by (simp add: matched_count_def length_eq_card_dom)
  show "dom (map_of (slot_to_candidate (r candidates slots eligible))) \<subseteq> set slots"
    using mbm_matching [of slots eligible candidates]
    by (auto simp: r_def allowed_slots_def dest!: matching_alongD)
  show "set (unmatched_slots (r candidates slots eligible)) =
      set slots - dom (map_of (slot_to_candidate (r candidates slots eligible)))"
    unfolding r_def final_matching(3)
    by (auto simp: maximum_bipartite_matching_def Let_def dict_has_def)
qed

section \<open>Input order is priority\<close>

lemma search_same_owners:
  "search E c ss V M ok V' M' \<Longrightarrow> (\<And>o'. o' \<in> seated M \<Longrightarrow> adj E o' = adj E' o') \<Longrightarrow>
    try_match E' c ss V M = (ok, V', M')"
proof (induction rule: search.induct)
  case (moved s V M owner V' M' c ss)
  then show ?case by (simp add: ranI)
next
  case (stuck s V M owner V1 M1 c ss ok V' M')
  have "M1 = M" using search_failed_frame [OF stuck.hyps(3)] by simp
  then show ?case using stuck by (simp add: ranI)
qed auto

lemma match_all_prefix:
  assumes "\<And>c. c \<in> set cs \<union> seated M \<Longrightarrow> adj E c = adj E' c"
    and "certified (\<lambda>c. set (adj E c)) P (map_of M)" and "distinct cs" and "set cs \<inter> P = {}"
  shows "match_all E' n (cs @ ds) M = match_all E' n ds (match_all E n cs M)"
  using assms
proof (induction cs arbitrary: M P)
  case (Cons c cs)
  show ?case
  proof (cases "length M = n")
    case True
    then have "match_all E' n ds M = M" by (cases ds) auto
    then show ?thesis using True by simp
  next
    case False
    obtain ok V M' where run: "try_match E c (adj E c) {} M = (ok, V, M')" by (metis prod_cases3)
    have "c \<notin> P" using Cons.prems by auto
    note step = certified_step [OF Cons.prems(2) this run]
    have "try_match E' c (adj E' c) {} M = (ok, V, M')"
      using search_same_owners [OF try_match_search [OF run]] Cons.prems(1) by fastforce
    moreover have "match_all E' n (cs @ ds) M' = match_all E' n ds (match_all E n cs M')"
    proof (rule Cons.IH [OF _ step(1)])
      fix d assume "d \<in> set cs \<union> seated M'"
      then show "adj E d = adj E' d" using step(2) Cons.prems(1) by (auto split: if_splits)
    qed (use Cons.prems in auto)
    ultimately show ?thesis using False run by simp
  qed
qed simp

section \<open>Properties\<close>

lemma unmatched_slots_hall:
  "unmatched_slots (maximum_bipartite_matching candidates slots eligible) = [] \<longleftrightarrow>
    (\<forall>T \<subseteq> set slots. card T \<le> card {c \<in> set candidates. allowed_slots slots eligible c \<inter> T \<noteq> {}})"
proof -
  let ?m = "map_of (slot_to_candidate (maximum_bipartite_matching candidates slots eligible))"
  have "unmatched_slots (maximum_bipartite_matching candidates slots eligible) = [] \<longleftrightarrow> dom ?m = set slots"
    using matched_dom(3,4) [of candidates slots eligible] by (metis Diff_eq_empty_iff set_empty subset_antisym)
  then show ?thesis
    using mbm.all_slots_iff_hall [of "set slots" "(candidates, slots, eligible)"]
      matched_dom(3) [of candidates slots eligible]
    by (simp add: solved_instance_def)
qed

lemma backward_matching:
  fixes candidates :: "'c list" and slots :: "'s list"
  shows "map_of (candidate_to_slot (maximum_bipartite_matching candidates slots eligible)) c = Some s \<longleftrightarrow>
    map_of (slot_to_candidate (maximum_bipartite_matching candidates slots eligible)) s = Some c"
    and "unmatched_slots (maximum_bipartite_matching candidates slots eligible) =
      filter (\<lambda>s. map_of (slot_to_candidate (maximum_bipartite_matching candidates slots eligible)) s = None)
        (dedup slots)"
    and "unmatched_candidates (maximum_bipartite_matching candidates slots eligible) =
      filter (\<lambda>c. map_of (candidate_to_slot (maximum_bipartite_matching candidates slots eligible)) c = None)
        (dedup candidates)"
proof -
  define M where "M = match_all (known_edges (dedup candidates) (dedup slots) eligible)
      (length (dedup slots)) (dedup candidates) []"
  note fin = final_matching [where candidates = candidates and slots = slots and eligible = eligible, folded M_def]
  have mat: "matching_along (allowed_slots slots eligible) (set candidates) (map_of M)"
    using fin(1) by (simp add: certified_def)
  have inverse: "map_of (invert_dict M) c = Some s \<longleftrightarrow> map_of M s = Some c" for c s
    using mat fin(2) by (intro map_of_invert_dict) (simp_all add: matching_along_def)
  have "dom (map_of (invert_dict M)) \<subseteq> set (dedup candidates)"
    using inverse matching_alongD [OF mat] by (auto simp: dom_def)
  then have ctos: "map_of (candidate_to_slot (maximum_bipartite_matching candidates slots eligible)) =
      map_of (invert_dict M)"
    by (simp add: maximum_bipartite_matching_def Let_def M_def [symmetric] map_of_dict_in_order_all)
  show "map_of (candidate_to_slot (maximum_bipartite_matching candidates slots eligible)) c = Some s \<longleftrightarrow>
    map_of (slot_to_candidate (maximum_bipartite_matching candidates slots eligible)) s = Some c"
    unfolding ctos fin(3) by (rule inverse)
  show "unmatched_slots (maximum_bipartite_matching candidates slots eligible) =
      filter (\<lambda>s. map_of (slot_to_candidate (maximum_bipartite_matching candidates slots eligible)) s = None)
        (dedup slots)"
    unfolding fin(3)
    by (simp add: maximum_bipartite_matching_def Let_def M_def [symmetric] dict_has_def)
  show "unmatched_candidates (maximum_bipartite_matching candidates slots eligible) =
      filter (\<lambda>c. map_of (candidate_to_slot (maximum_bipartite_matching candidates slots eligible)) c = None)
        (dedup candidates)"
    unfolding ctos
    by (simp add: maximum_bipartite_matching_def Let_def M_def [symmetric] dict_has_def)
qed

text \<open>Whatever the candidates, slots and eligibility, duplicates and unknown slots included,
  the result is a matching: every slot appears once, no candidate holds two slots, each holds a known
  slot it is eligible for, \<open>candidate_to_slot\<close> is the inverse dictionary, and the two
  unmatched lists are exactly the rest, in input order.\<close>

theorem matching_valid:
  "let r = maximum_bipartite_matching candidates slots eligible;
       forth = map_of (slot_to_candidate r); back = map_of (candidate_to_slot r)
   in matching_along (allowed_slots slots eligible) (set candidates) forth \<and>
      distinct (map fst (slot_to_candidate r)) \<and>
      (back c = Some s \<longleftrightarrow> forth s = Some c) \<and>
      unmatched_slots r = filter (\<lambda>s. forth s = None) (dedup slots) \<and>
      unmatched_candidates r = filter (\<lambda>c. back c = None) (dedup candidates)"
  unfolding Let_def
  by (intro conjI mbm_matching matched_dom(1) backward_matching)

text \<open>C19: the matching is a maximum one: no set of eligible (slot, candidate) pairs in which
  nobody appears twice is larger than \<open>matched_count\<close>, although the loop stops early once
  all slots are taken.\<close>

theorem matching_maximum:
  assumes "matching_along (allowed_slots slots eligible) (set candidates) m"
  shows "card (dom m) \<le> matched_count (maximum_bipartite_matching candidates slots eligible)"
  using mbm.maximum [of "(candidates, slots, eligible)" m] assms
  by (simp add: solved_instance_def matched_dom(2))

theorem matching_maximum_witness:
  "card (dom [''a'' \<mapsto> (2::int), ''b'' \<mapsto> 1]) \<le>
    matched_count (maximum_bipartite_matching [1::int, 2] [''a'', ''b''] [(1, [''a'', ''b'']), (2, [''a''])])"
  by (rule matching_maximum)
    (auto simp: matching_along_def allowed_slots_def adj_def inj_on_def split: if_splits)

text \<open>Every slot is filled exactly when Hall's condition holds: each set of slots is wanted
  by at least as many candidates as it has members.\<close>

theorem matching_hall:
  "unmatched_slots (maximum_bipartite_matching candidates slots eligible) = [] \<longleftrightarrow>
    (\<forall>T \<subseteq> set slots. card T \<le> card {c \<in> set candidates. allowed_slots slots eligible c \<inter> T \<noteq> {}})"
  by (rule unmatched_slots_hall)

theorem matching_hall_witness:
  "card {''a''} \<le> card {c \<in> {1::int, 2}. allowed_slots [''a''] [(1, [''a''])] c \<inter> {''a''} \<noteq> {}}"
proof -
  have "unmatched_slots (maximum_bipartite_matching [1::int, 2] [''a''] [(1, [''a''])]) = []"
    by code_simp
  then show ?thesis
    using matching_hall [of "[1::int, 2]" "[''a'']" "[(1, [''a''])]", THEN iffD1, THEN spec, of "{''a''}"]
    by simp
qed

text \<open>Input order is priority: a candidate seated by the candidates before some point of the
  order is still seated when any further candidates are appended.\<close>

theorem matching_priority:
  "dom (map_of (candidate_to_slot (maximum_bipartite_matching candidates slots eligible))) \<subseteq>
    dom (map_of (candidate_to_slot (maximum_bipartite_matching (candidates @ later) slots eligible)))"
proof -
  let ?dc = "dedup candidates"
  define ds where "ds = filter (\<lambda>d. d \<notin> set candidates) (dedup later)"
  have split: "dedup (candidates @ later) = ?dc @ ds" unfolding ds_def by (rule dedup_append)
  let ?E = "known_edges ?dc (dedup slots) eligible" and ?E' = "known_edges (?dc @ ds) (dedup slots) eligible"
  let ?n = "length (dedup slots)"
  define M where "M = match_all ?E ?n ?dc []"
  have agree: "adj ?E c = adj ?E' c" if "c \<in> set ?dc \<union> seated ([] :: ('b, 'a) dict)" for c
    using that by (auto simp: adj_known_edges)
  have run: "match_all ?E' ?n (?dc @ ds) [] = match_all ?E' ?n ds M"
    unfolding M_def by (rule match_all_prefix [where P = "{}", OF agree]) simp_all
  have "certified (\<lambda>c. set (adj ?E' c)) (set ?dc) (map_of M)"
    using final_matching(1) [where candidates = candidates and slots = slots and eligible = eligible, folded M_def] unfolding set_dedup
    by (rule certified_cong) (auto simp: adj_known_edges allowed_slots_def)
  then have "seated M \<subseteq> seated (match_all ?E' ?n ds M)"
    using final_matching(2) [where candidates = candidates and slots = slots and eligible = eligible, folded M_def]
      match_all_certified [of ?E' "set ?dc" M "set slots" ?n ds]
    by (auto simp: adj_known_edges length_dedup ds_def)
  moreover have "dom (map_of (candidate_to_slot (maximum_bipartite_matching cs slots eligible))) =
      seated (slot_to_candidate (maximum_bipartite_matching cs slots eligible))" for cs :: "'a list"
    using backward_matching(1) [of cs slots eligible] by (auto simp: dom_def ran_def)
  ultimately show ?thesis
    by (simp only: final_matching(3) split run M_def [symmetric])
qed

text \<open>Only the appended candidates can be newly seated.\<close>

lemma match_all_newcomers:
  assumes "certified (\<lambda>c. set (adj E c)) P (map_of M)" and "distinct cs" and "set cs \<inter> P = {}"
  shows "ran (map_of (match_all E n cs M)) \<subseteq> ran (map_of M) \<union> set cs"
  using assms
proof (induction cs arbitrary: P M)
  case (Cons c cs)
  show ?case
  proof (cases "length M = n")
    case False
    obtain ok V M' where run: "try_match E c (adj E c) {} M = (ok, V, M')" by (metis prod_cases3)
    have "c \<notin> P" using Cons.prems by auto
    note step = certified_step [OF Cons.prems(1) this run]
    have "ran (map_of (match_all E n cs M')) \<subseteq> ran (map_of M') \<union> set cs"
      by (rule Cons.IH [OF step(1)]) (use Cons.prems in auto)
    then show ?thesis using False run step(2) by (auto split: if_splits)
  qed auto
qed simp

lemma matching_newcomers:
  "dom (map_of (candidate_to_slot (maximum_bipartite_matching (candidates @ later) slots eligible))) \<subseteq>
    dom (map_of (candidate_to_slot (maximum_bipartite_matching candidates slots eligible))) \<union> (set later - set candidates)"
proof -
  let ?dc = "dedup candidates"
  define ds where "ds = filter (\<lambda>d. d \<notin> set candidates) (dedup later)"
  have split: "dedup (candidates @ later) = ?dc @ ds" unfolding ds_def by (rule dedup_append)
  let ?E = "known_edges ?dc (dedup slots) eligible" and ?E' = "known_edges (?dc @ ds) (dedup slots) eligible"
  let ?n = "length (dedup slots)"
  define M where "M = match_all ?E ?n ?dc []"
  have agree: "adj ?E c = adj ?E' c" if "c \<in> set ?dc \<union> seated ([] :: ('b, 'a) dict)" for c
    using that by (auto simp: adj_known_edges)
  have run: "match_all ?E' ?n (?dc @ ds) [] = match_all ?E' ?n ds M"
    unfolding M_def by (rule match_all_prefix [where P = "{}", OF agree]) simp_all
  have "certified (\<lambda>c. set (adj ?E' c)) (set ?dc) (map_of M)"
    using final_matching(1) [where candidates = candidates and slots = slots and eligible = eligible, folded M_def] unfolding set_dedup
    by (rule certified_cong) (auto simp: adj_known_edges allowed_slots_def)
  then have "ran (map_of (match_all ?E' ?n ds M)) \<subseteq> ran (map_of M) \<union> set ds"
    by (rule match_all_newcomers) (auto simp: ds_def)
  moreover have "set ds = set later - set candidates" by (auto simp: ds_def)
  moreover have "dom (map_of (candidate_to_slot (maximum_bipartite_matching cs slots eligible))) =
      ran (map_of (slot_to_candidate (maximum_bipartite_matching cs slots eligible)))" for cs :: "'a list"
    using backward_matching(1) [of cs slots eligible] by (auto simp: dom_def ran_def)
  ultimately show ?thesis
    by (simp only: final_matching(3) split run M_def [symmetric])
qed

end
