(* ===== verification/Roster.thy ===== *)
theory Roster
  imports Prelude
begin

text \<open>
  Roster shapes (\<open>shared/domain/roster_shape.py\<close>), resolved player rosters
  (\<open>shared/domain/roster.py\<close>) and the rank a draft slot is worth
  (\<open>balancer-service/src/domain/draft/ranks.py\<close>). Slot codes and roles are strings, counts
  and ranks are unbounded integers. Of a \<open>PlayerRoster\<close> the fields some rule of the draft
  reads are kept; contact and workflow fields it only transports are not. The lemmas characterise the
  shapes that can be built at all, and show that the different readings of a player's roles (playable
  roles, rank per role, best rank, seat role) never disagree.
\<close>

section \<open>Roster shapes\<close>

definition FLEX_SLOT_CODE :: string where
  "FLEX_SLOT_CODE = ''flex''"

definition MIN_TEAM_SIZE :: int where "MIN_TEAM_SIZE = 1"

definition MAX_TEAM_SIZE :: int where "MAX_TEAM_SIZE = 12"

datatype roster_shape_error =
    Roster_slots_not_canonical
  | Roster_slots_empty
  | Roster_slots_unknown_code
  | Roster_slots_invalid_count
  | Roster_slots_out_of_range

record roster_shape =
  entries :: "(string \<times> int) list"

definition slots :: "roster_shape \<Rightarrow> (string, int) dict" where
  "slots shape = foldl (\<lambda>d (code, n). dict_set code n d) [] (entries shape)"

definition team_size :: "roster_shape \<Rightarrow> int" where
  "team_size shape = sum_list (map snd (entries shape))"

definition flex_slots :: "roster_shape \<Rightarrow> int" where
  "flex_slots shape =
     (case find (\<lambda>(code, n). code = FLEX_SLOT_CODE) (entries shape) of
        None \<Rightarrow> 0 | Some (code, n) \<Rightarrow> n)"

definition role_slots :: "roster_shape \<Rightarrow> (string, int) dict" where
  "role_slots shape =
     foldl (\<lambda>d (code, n). dict_set code n d) []
       (filter (\<lambda>(code, n). code \<noteq> FLEX_SLOT_CODE) (entries shape))"

definition has_role_slots :: "roster_shape \<Rightarrow> bool" where
  "has_role_slots shape \<longleftrightarrow> (\<exists>(code, n) \<in> set (entries shape). code \<noteq> FLEX_SLOT_CODE)"

definition draft_rounds :: "roster_shape \<Rightarrow> int" where
  "draft_rounds shape = team_size shape - 1"

text \<open>
  \<open>__post_init__\<close>: the loop over the entries with its \<open>seen\<close> set; the branch on
  \<open>index != last\<close> is the test that entries are left. The two tests on Python types
  (not a string, not an integer) cannot fire on typed values.
\<close>

fun check_entries :: "string set \<Rightarrow> (string \<times> int) list \<Rightarrow> roster_shape_error option" where
  "check_entries seen [] = None"
| "check_entries seen ((code, n) # rest) =
     (if code = '''' then Some Roster_slots_unknown_code
      else if n < 1 then Some Roster_slots_invalid_count
      else if code \<in> seen \<or> (code = FLEX_SLOT_CODE \<and> rest \<noteq> []) then Some Roster_slots_not_canonical
      else check_entries (insert code seen) rest)"

definition validate_team_size :: "int \<Rightarrow> roster_shape_error option" where
  "validate_team_size n =
     (if MIN_TEAM_SIZE \<le> n \<and> n \<le> MAX_TEAM_SIZE then None else Some Roster_slots_out_of_range)"

definition mk_roster_shape :: "(string \<times> int) list \<Rightarrow> roster_shape_error + roster_shape" where
  "mk_roster_shape es =
     (if es = [] then Inl Roster_slots_empty
      else case check_entries {} es of
        Some e \<Rightarrow> Inl e
      | None \<Rightarrow>
          (case validate_team_size (team_size \<lparr>entries = es\<rparr>) of
             Some e \<Rightarrow> Inl e
           | None \<Rightarrow> Inr \<lparr>entries = es\<rparr>))"

definition canonical_entries :: "(string \<times> int) list \<Rightarrow> bool" where
  "canonical_entries es \<longleftrightarrow>
     es \<noteq> [] \<and> distinct (map fst es) \<and> FLEX_SLOT_CODE \<notin> fst ` set (butlast es) \<and>
     '''' \<notin> fst ` set es \<and> (\<forall>n \<in> snd ` set es. 1 \<le> n) \<and>
     sum_list (map snd es) \<le> 12"

lemma check_entries_None:
  "check_entries seen es = None \<longleftrightarrow>
    distinct (map fst es) \<and> seen \<inter> fst ` set es = {} \<and>
    FLEX_SLOT_CODE \<notin> fst ` set (butlast es) \<and>
    '''' \<notin> fst ` set es \<and> (\<forall>n \<in> snd ` set es. 1 \<le> n)"
proof (induction seen es rule: check_entries.induct)
  case (2 seen code n rest)
  then show ?case by (cases "rest = []") auto
qed simp

lemma sum_counts_positive:
  "es \<noteq> [] \<Longrightarrow> (\<forall>n \<in> snd ` set es. (1::int) \<le> n) \<Longrightarrow> 1 \<le> sum_list (map snd es)"
proof (induction es)
  case (Cons e es)
  have "0 \<le> sum_list (map snd es)" using Cons.prems by (intro sum_list_nonneg) auto
  then show ?case using Cons.prems by auto
qed simp

lemma mk_roster_shape_Inr:
  "mk_roster_shape es = Inr shape \<longleftrightarrow> canonical_entries es \<and> shape = \<lparr>entries = es\<rparr>"
  using sum_counts_positive [of es] check_entries_None [of "{}" es]
  by (auto simp: mk_roster_shape_def canonical_entries_def validate_team_size_def team_size_def
      MIN_TEAM_SIZE_def MAX_TEAM_SIZE_def split: option.splits)

lemma dict_of_distinct:
  "distinct (map fst (acc @ es)) \<Longrightarrow> foldl (\<lambda>d (k, v). dict_set k v d) acc es = acc @ es"
proof (induction es arbitrary: acc)
  case (Cons e es)
  obtain k v where e: "e = (k, v)" by (cases e)
  have "dict_set k v acc = acc @ [e]" using Cons.prems unfolding e by (intro dict_set_new) auto
  then show ?case using Cons.IH [of "acc @ [e]"] Cons.prems by (simp add: e)
qed simp

lemma dict_of_distinct_keys: "distinct (map fst es) \<Longrightarrow> foldl (\<lambda>d (k, v). dict_set k v d) [] es = es"
  using dict_of_distinct [of "[]" es] by simp

lemma canonical_slots:
  assumes "canonical_entries (entries shape)"
  shows "slots shape = entries shape"
    and "role_slots shape = filter (\<lambda>(code, n). code \<noteq> FLEX_SLOT_CODE) (entries shape)"
    and "flex_slots shape = dict_get (slots shape) FLEX_SLOT_CODE 0"
proof -
  have dist: "distinct (map fst (entries shape))" using assms by (simp add: canonical_entries_def)
  show slots: "slots shape = entries shape"
    unfolding slots_def using dist by (rule dict_of_distinct_keys)
  show "role_slots shape = filter (\<lambda>(code, n). code \<noteq> FLEX_SLOT_CODE) (entries shape)"
    unfolding role_slots_def using distinct_map_filter [OF dist] by (rule dict_of_distinct_keys)
  have "(case find (\<lambda>(code, n). code = k) es of None \<Rightarrow> 0 | Some (code, n) \<Rightarrow> n) = dict_get es k (0::int)"
    for es and k :: string by (induction es) auto
  then show "flex_slots shape = dict_get (slots shape) FLEX_SLOT_CODE 0"
    unfolding flex_slots_def slots .
qed

lemma team_size_split:
  assumes "canonical_entries (entries shape)"
  shows "team_size shape = sum_list (map snd (role_slots shape)) + flex_slots shape"
proof -
  have "sum_list (map snd es) =
      sum_list (map snd (filter (\<lambda>(code, n). code \<noteq> k) es)) + dict_get es k (0::int)"
    if "distinct (map fst es)" for es and k :: string
    using that
  proof (induction es)
    case (Cons e es)
    then show ?case
      by (cases e) (auto simp: dict_get_def filter_id_conv map_of_eq_None_iff
          split: option.splits; force)
  qed simp
  then show ?thesis
    using assms unfolding canonical_slots(2,3) [OF assms] canonical_slots(1) [OF assms] team_size_def
    by (simp add: canonical_entries_def)
qed

section \<open>Player rosters\<close>

text \<open>Where a rank comes from (\<open>RankSource\<close>) is only carried along.\<close>

record character_ref =
  character_id :: "int option"
  slug :: string
  image_path :: "string option"

record roster_role =
  role :: string
  rank :: "int option"
  rank_source :: string
  is_primary :: bool
  priority :: int
  subrole :: "string option"
  top_characters :: "character_ref list"

record player_roster =
  registration_id :: "int option"
  handle :: "string option"
  display_name :: "string option"
  player_id :: "int option"
  auth_user_id :: "int option"
  workspace_member_id :: "int option"
  roles :: "roster_role list"
  is_full_flex :: bool

definition is_playable :: "roster_role \<Rightarrow> bool" where
  "is_playable e \<longleftrightarrow> (case rank e of None \<Rightarrow> False | Some r \<Rightarrow> 0 < r)"

definition playable :: "player_roster \<Rightarrow> roster_role list" where
  "playable p = filter is_playable (roles p)"

definition playable_roles :: "player_roster \<Rightarrow> string set" where
  "playable_roles p = set (map role (filter is_playable (roles p)))"

definition primary :: "player_roster \<Rightarrow> roster_role option" where
  "primary p =
     (case find is_primary (playable p) of
        Some e \<Rightarrow> Some e
      | None \<Rightarrow> (case playable p of [] \<Rightarrow> None | e # _ \<Rightarrow> Some e))"

definition secondary_roles :: "player_roster \<Rightarrow> string list" where
  "secondary_roles p =
     (case primary p of
        None \<Rightarrow> map role (playable p)
      | Some lead \<Rightarrow> map role (filter (\<lambda>e. role e \<noteq> role lead) (playable p)))"

definition sub_role :: "player_roster \<Rightarrow> string option" where
  "sub_role p = (case primary p of None \<Rightarrow> None | Some lead \<Rightarrow> subrole lead)"

text \<open>\<open>max(..., default=None)\<close> over the ranks that are not \<open>None\<close>.\<close>

fun max_rank :: "int option list \<Rightarrow> int option" where
  "max_rank [] = None"
| "max_rank (None # rs) = max_rank rs"
| "max_rank (Some r # rs) = (case max_rank rs of None \<Rightarrow> Some r | Some r' \<Rightarrow> Some (max r r'))"

definition best_rank :: "player_roster \<Rightarrow> int option" where
  "best_rank p = max_rank (map rank (playable p))"

definition rank_on :: "player_roster \<Rightarrow> string option \<Rightarrow> int option" where
  "rank_on p r =
     (case r of
        None \<Rightarrow> best_rank p
      | Some r \<Rightarrow>
          (case find (\<lambda>e. role e = r \<and> is_playable e) (roles p) of
             None \<Rightarrow> None | Some e \<Rightarrow> rank e))"

text \<open>The dictionary comprehensions over the playable roles.\<close>

definition role_dict :: "(roster_role \<Rightarrow> 'v option) \<Rightarrow> player_roster \<Rightarrow> (string, 'v) dict" where
  "role_dict f p =
     foldl (\<lambda>d e. case f e of None \<Rightarrow> d | Some v \<Rightarrow> dict_set (role e) v d) [] (playable p)"

definition role_ranks :: "player_roster \<Rightarrow> (string, int) dict" where
  "role_ranks = role_dict rank"

definition role_sources :: "player_roster \<Rightarrow> (string, string) dict" where
  "role_sources = role_dict (\<lambda>e. Some (rank_source e))"

definition role_top_characters :: "player_roster \<Rightarrow> (string, character_ref list) dict" where
  "role_top_characters =
     role_dict (\<lambda>e. if top_characters e = [] then None else Some (top_characters e))"

definition role_sub_roles :: "player_roster \<Rightarrow> (string, string) dict" where
  "role_sub_roles = role_dict (\<lambda>e. if subrole e = Some '''' then None else subrole e)"

definition is_ranked_complete :: "player_roster \<Rightarrow> bool" where
  "is_ranked_complete p \<longleftrightarrow> roles p \<noteq> [] \<and> (\<forall>e \<in> set (roles p). is_playable e)"

definition is_draftable :: "player_roster \<Rightarrow> bool" where
  "is_draftable p \<longleftrightarrow> playable p \<noteq> []"

definition covers :: "player_roster \<Rightarrow> string option \<Rightarrow> bool" where
  "covers p r \<longleftrightarrow>
     (case r of
        None \<Rightarrow> is_draftable p
      | Some r \<Rightarrow> if r = FLEX_SLOT_CODE then is_draftable p else r \<in> playable_roles p)"

section \<open>What a slot is worth\<close>

definition slot_rank :: "player_roster option \<Rightarrow> string option \<Rightarrow> roster_shape \<Rightarrow> int option" where
  "slot_rank roster r shape =
     (case roster of
        None \<Rightarrow> None
      | Some p \<Rightarrow> rank_on p (if has_role_slots shape then r else None))"

definition seat_role :: "player_roster option \<Rightarrow> string option \<Rightarrow> string option" where
  "seat_role roster pinned =
     (case roster of
        None \<Rightarrow> None
      | Some p \<Rightarrow>
          if (case pinned of None \<Rightarrow> False | Some r \<Rightarrow> r \<in> playable_roles p) then pinned
          else map_option role (primary p))"

text \<open>\<open>slot_rank(...) or -1\<close>: an absent rank and a rank of 0 both read as -1.\<close>

definition captain_rank :: "player_roster option \<Rightarrow> string option \<Rightarrow> roster_shape \<Rightarrow> int" where
  "captain_rank roster pinned shape =
     (case slot_rank roster (seat_role roster pinned) shape of
        None \<Rightarrow> - 1
      | Some r \<Rightarrow> if r = 0 then - 1 else r)"

definition drafted_rank ::
  "player_roster option \<Rightarrow> string option \<Rightarrow> roster_shape \<Rightarrow> int option \<Rightarrow> int option" where
  "drafted_rank roster r shape frozen =
     (case frozen of
        Some f \<Rightarrow> if has_role_slots shape then Some f else slot_rank roster r shape
      | None \<Rightarrow> slot_rank roster r shape)"

section \<open>All readings of a roster agree\<close>

lemma max_rank_None: "max_rank rs = None \<longleftrightarrow> set rs \<subseteq> {None}"
  by (induction rs rule: max_rank.induct) (auto split: option.splits)

lemma max_rank_Some:
  "max_rank rs = Some b \<longleftrightarrow> Some b \<in> set rs \<and> (\<forall>r. Some r \<in> set rs \<longrightarrow> r \<le> b)"
proof (induction rs arbitrary: b rule: max_rank.induct)
  case (3 r rs)
  show ?case
  proof (cases "max_rank rs")
    case None
    then have "set rs \<subseteq> {None}" by (simp add: max_rank_None)
    then show ?thesis using None by auto
  next
    case (Some r')
    then have mem: "Some r' \<in> set rs" and up: "\<And>q. Some q \<in> set rs \<Longrightarrow> q \<le> r'" using 3 by blast+
    show ?thesis
    proof
      assume "max_rank (Some r # rs) = Some b"
      then have "b = max r r'" using Some by simp
      then show "Some b \<in> set (Some r # rs) \<and> (\<forall>q. Some q \<in> set (Some r # rs) \<longrightarrow> q \<le> b)"
        using mem up by (fastforce simp: max_def)
    next
      assume "Some b \<in> set (Some r # rs) \<and> (\<forall>q. Some q \<in> set (Some r # rs) \<longrightarrow> q \<le> b)"
      then have "b = r \<or> b \<le> r'" "r \<le> b" "r' \<le> b" using mem up by auto
      then show "max_rank (Some r # rs) = Some b" using Some by auto
    qed
  qed
qed auto

lemma is_playable_rank: "is_playable e \<longleftrightarrow> (\<exists>k. rank e = Some k \<and> 0 < k)"
  by (auto simp: is_playable_def split: option.splits)

lemma primary_playable:
  "primary p = Some e \<Longrightarrow> e \<in> set (playable p)"
  "primary p = None \<longleftrightarrow> \<not> is_draftable p"
  by (auto simp: primary_def is_draftable_def find_None_iff dest: find_SomeD split: option.splits list.splits)

lemma playable_roles_playable: "playable_roles p = role ` set (playable p)"
  by (simp add: playable_roles_def playable_def)

lemma best_rank_None: "best_rank p = None \<longleftrightarrow> \<not> is_draftable p"
  by (fastforce simp: best_rank_def max_rank_None is_draftable_def playable_def is_playable_rank
      filter_empty_conv)

lemma best_rank_Some:
  assumes "best_rank p = Some b"
  shows "0 < b" and "\<exists>e \<in> set (playable p). rank e = Some b"
    and "e \<in> set (playable p) \<Longrightarrow> rank e = Some k \<Longrightarrow> k \<le> b"
proof -
  have mem: "Some b \<in> rank ` set (playable p)"
    and up: "\<And>r. Some r \<in> rank ` set (playable p) \<Longrightarrow> r \<le> b"
    using assms unfolding best_rank_def max_rank_Some by auto
  show "\<exists>e \<in> set (playable p). rank e = Some b" using mem by force
  then show "0 < b" by (auto simp: playable_def is_playable_rank)
  show "e \<in> set (playable p) \<Longrightarrow> rank e = Some k \<Longrightarrow> k \<le> b" using up by (metis image_eqI)
qed

lemma rank_on_Some:
  "rank_on p (Some r) = Some k \<Longrightarrow> \<exists>e \<in> set (playable p). role e = r \<and> rank e = Some k"
  "rank_on p (Some r) = None \<longleftrightarrow> r \<notin> playable_roles p"
  by (auto simp: rank_on_def playable_def playable_roles_def find_None_iff is_playable_rank
      dest!: find_SomeD split: option.splits)

lemma seat_role_playable:
  "seat_role (Some p) pinned = Some r \<Longrightarrow> r \<in> playable_roles p"
  by (auto simp: seat_role_def playable_roles_playable dest: primary_playable(1)
      split: if_splits option.splits)

lemma seat_role_None: "seat_role (Some p) pinned = None \<longleftrightarrow> \<not> is_draftable p"
  by (auto simp: seat_role_def primary_playable(2) is_draftable_def playable_roles_playable split: option.splits)

lemma rank_on_positive: "rank_on p r = Some k \<Longrightarrow> 0 < k"
proof (cases r)
  case None
  then show "rank_on p r = Some k \<Longrightarrow> 0 < k" using best_rank_Some(1) by (simp add: rank_on_def)
next
  case (Some r')
  then show "rank_on p r = Some k \<Longrightarrow> 0 < k"
    using rank_on_Some(1) [of p r' k] by (auto simp: playable_def is_playable_rank)
qed

section \<open>Properties\<close>

text \<open>A roster shape can be built from exactly the canonical entry lists: some entry, no empty
  code, every count positive, no code twice, open slots last, team size between 1 and 12; the shape
  then holds the entries unchanged, its role slots and open slots add up to the team size, and a draft
  on it has between 0 and 11 rounds.\<close>

theorem roster_shape_accepts:
  "(mk_roster_shape es = Inr \<lparr>entries = es\<rparr> \<longleftrightarrow> canonical_entries es) \<and>
   (mk_roster_shape es = Inr shape \<longrightarrow>
      slots shape = es \<and> team_size shape = sum_list (map snd (role_slots shape)) + flex_slots shape \<and>
      0 \<le> draft_rounds shape \<and> draft_rounds shape \<le> 11 \<and>
      (has_role_slots shape \<longleftrightarrow> role_slots shape \<noteq> []))"
proof -
  have "slots shape = es \<and> team_size shape = sum_list (map snd (role_slots shape)) + flex_slots shape \<and>
      0 \<le> draft_rounds shape \<and> draft_rounds shape \<le> 11 \<and> (has_role_slots shape \<longleftrightarrow> role_slots shape \<noteq> [])"
    if "mk_roster_shape es = Inr shape"
  proof -
    have can: "canonical_entries (entries shape)" and es: "es = entries shape"
      using that by (auto simp: mk_roster_shape_Inr)
    have "1 \<le> team_size shape" "team_size shape \<le> 12"
      using can sum_counts_positive [of "entries shape"]
      unfolding canonical_entries_def team_size_def by blast+
    then show ?thesis
      using team_size_split [OF can] unfolding es
      by (auto simp: canonical_slots [OF can] draft_rounds_def has_role_slots_def filter_empty_conv)
  qed
  then show ?thesis by (auto simp: mk_roster_shape_Inr)
qed

theorem roster_shape_accepts_witness:
  "role_slots \<lparr>entries = [(''tank'', 1), (''flex'', 5)]\<rparr> \<noteq> [] \<and>
   team_size \<lparr>entries = [(''tank'', 1), (''flex'', 5)]\<rparr> =
     sum_list (map snd (role_slots \<lparr>entries = [(''tank'', 1), (''flex'', 5)]\<rparr>)) +
     flex_slots \<lparr>entries = [(''tank'', 1), (''flex'', 5)]\<rparr>"
proof -
  let ?es = "[(''tank'', 1), (''flex'', 5 :: int)]"
  have "mk_roster_shape ?es = Inr \<lparr>entries = ?es\<rparr>" by code_simp
  moreover have "has_role_slots \<lparr>entries = ?es\<rparr>" by code_simp
  ultimately show ?thesis using roster_shape_accepts [of ?es "\<lparr>entries = ?es\<rparr>"] by simp
qed

text \<open>All readings of one roster agree: a role has a rank exactly when it is playable, that rank
  is positive and at most the best rank, a slot is covered by exactly the playable roles (an open slot
  by anybody draftable), a seated player holds a playable role, and a captain is worth -1 exactly when
  no role of theirs is playable.\<close>

theorem roster_readings_agree:
  "(rank_on p (Some r) \<noteq> None \<longleftrightarrow> r \<in> playable_roles p) \<and>
   (rank_on p (Some r) = Some k \<longrightarrow> 0 < k \<and> (\<exists>b. best_rank p = Some b \<and> k \<le> b)) \<and>
   (is_draftable p \<longleftrightarrow> playable_roles p \<noteq> {}) \<and>
   (covers p (Some r) \<longleftrightarrow> r \<in> playable_roles p \<or> r = FLEX_SLOT_CODE \<and> is_draftable p) \<and>
   (seat_role (Some p) pinned = Some s \<longrightarrow> s \<in> playable_roles p) \<and>
   (captain_rank (Some p) pinned shape = - 1 \<longleftrightarrow> \<not> is_draftable p)"
proof (intro conjI impI)
  assume r: "rank_on p (Some r) = Some k"
  then show "0 < k" by (rule rank_on_positive)
  obtain e where e: "e \<in> set (playable p)" "rank e = Some k" using rank_on_Some(1) [OF r] by blast
  then have "is_draftable p" by (auto simp: is_draftable_def)
  then obtain b where "best_rank p = Some b" using best_rank_None by blast
  then show "\<exists>b. best_rank p = Some b \<and> k \<le> b" using best_rank_Some(3) e by blast
next
  let ?r = "if has_role_slots shape then seat_role (Some p) pinned else None"
  have "rank_on p ?r = None \<longleftrightarrow> \<not> is_draftable p"
  proof (cases ?r)
    case None
    then show ?thesis by (simp add: rank_on_def best_rank_None)
  next
    case (Some s)
    then have "seat_role (Some p) pinned = Some s" by (simp split: if_splits)
    then show ?thesis
      using Some seat_role_playable seat_role_None [of p pinned] by (simp add: rank_on_Some(2))
  qed
  then show "captain_rank (Some p) pinned shape = - 1 \<longleftrightarrow> \<not> is_draftable p"
    using rank_on_positive [of p ?r]
    by (fastforce simp: captain_rank_def slot_rank_def split: option.splits)
qed (use rank_on_Some(2) in \<open>auto simp: covers_def is_draftable_def playable_roles_playable
    dest: seat_role_playable\<close>)

theorem roster_readings_agree_witness:
  "\<exists>p. rank_on p (Some ''tank'') = Some 3200 \<and> (\<exists>b. best_rank p = Some b \<and> (3200 :: int) \<le> b) \<and>
    ''tank'' \<in> playable_roles p"
proof -
  let ?e = "\<lparr>role = ''tank'', rank = Some 3200, rank_source = ''workspace'', is_primary = True,
    priority = 1, subrole = None, top_characters = []\<rparr>"
  let ?p = "\<lparr>registration_id = Some 1, handle = None, display_name = None, player_id = None,
    auth_user_id = None, workspace_member_id = None, roles = [?e], is_full_flex = False\<rparr>"
  have r: "rank_on ?p (Some ''tank'') = Some 3200" and s: "seat_role (Some ?p) None = Some ''tank''"
    by code_simp+
  then show ?thesis
    using roster_readings_agree [of ?p "''tank''" 3200 None "''tank''" "\<lparr>entries = []\<rparr>"] by blast
qed

end
