(* ===== verification/Draft_Model.thy ===== *)
theory Draft_Model
  imports Roster
begin

text \<open>
  The rows and value types of a live draft: the statuses of \<open>shared/core/enums.py\<close>, the
  columns of \<open>shared/models/draft/draft.py\<close> the pure rules read, the dataclasses of
  \<open>balancer-service/src/domain/draft/entities.py\<close> and the error value of
  \<open>balancer-service/src/domain/draft/errors.py\<close>. Identifiers are integers, points in time
  are microseconds, and an error keeps its code and HTTP status (its English text is left out).
\<close>

datatype draft_status =
  Draft_setup | Draft_ready | Draft_live | Draft_paused | Draft_completed | Draft_cancelled

datatype draft_format = Format_snake | Format_linear | Format_custom

datatype draft_captain_order = Order_manual | Order_weakest_first | Order_strongest_first | Order_random

datatype draft_player_status = Player_available | Player_picked | Player_removed

datatype draft_pick_status =
  Pick_upcoming | Pick_on_clock | Pick_completed | Pick_skipped | Pick_autopicked

record draft_session =
  session_id :: int
  session_status :: draft_status
  blocked_reason :: "string option"
  current_pick_id :: "int option"
  session_version :: "int option"

record draft_team =
  team_row_id :: int
  draft_position :: int
  captain_auth_user_id :: "int option"
  captain_user_id :: "int option"

record draft_player =
  player_row_id :: int
  player_session_id :: int
  player_status :: draft_player_status
  drafted_by_team_id :: "int option"
  captain_role :: "string option"
  player_version :: int

record draft_pick =
  pick_id :: int
  pick_team_id :: int
  target_role :: "string option"
  pick_status :: draft_pick_status
  picked_player_id :: "int option"
  clock_started_at :: "int option"
  clock_expires_at :: "int option"
  clock_remaining_ms :: "int option"
  pick_version :: int

record api_error =
  error_code :: string
  status_code :: int

definition err :: "string \<Rightarrow> int \<Rightarrow> api_error" where
  "err code status = \<lparr>error_code = code, status_code = status\<rparr>"

record eligible_player =
  ep_player_id :: int
  ep_playable_roles :: "string set"

record draft_assignment =
  da_player_id :: int
  da_team_id :: int
  da_slot_code :: string

record draft_slot =
  ds_team_id :: int
  ds_slot_code :: string
  ds_ordinal :: nat

record slot_deficit =
  sd_slot_code :: string
  sd_unmatched_slots :: nat
  sd_eligible_players :: nat

record feasibility_report =
  is_feasible :: bool
  total_open_slots :: nat
  matched_slots :: nat
  fr_unmatched_slots :: "draft_slot list"
  slot_deficits :: "slot_deficit list"
  blocking_player_ids :: "int list"
  fr_reason_code :: "string option"

record pick_option =
  po_player_id :: int
  po_role :: string
  is_safe :: bool
  po_reason_code :: "string option"
  po_unmatched_slots :: "draft_slot list"
  po_blocking_player_ids :: "int list"

record feasibility_state =
  fs_team_ids :: "int list"
  slot_targets :: "(string, int) dict"
  fs_players :: "eligible_player list"
  fs_assignments :: "draft_assignment list"

record draft_snapshot =
  snap_teams :: "draft_team list"
  snap_players :: "draft_player list"
  snap_picks :: "draft_pick list"
  snap_rosters :: "(int, player_roster) dict"

record pool_seat =
  seat_registration_id :: "int option"
  seat_draft_position :: "int option"
  seat_team_name :: "string option"
  seat_captain_role :: "string option"
  seat_workspace_member_id :: "int option"

text \<open>\<open>PoolSeat.key\<close>: the registration, else the member (which may be missing).\<close>

definition seat_key :: "pool_seat \<Rightarrow> int option" where
  "seat_key seat =
     (case seat_registration_id seat of Some r \<Rightarrow> Some r | None \<Rightarrow> seat_workspace_member_id seat)"

record draft_result =
  dr_pick :: draft_pick
  dr_next_pick :: "draft_pick option"
  dr_completed :: bool
  dr_blocked_reason :: "string option"

record slot_decision =
  sl_role :: string
  recorded_role :: "string option"

record role_edit_preview =
  rp_before :: feasibility_report
  rp_after :: feasibility_report

end
