(* ===== verification/Draft_Feasibility.thy ===== *)
theory Draft_Feasibility
  imports Matching Draft_Model "HOL-Library.Char_ord" "HOL-Library.List_Lexorder"
begin

text \<open>
  \<open>balancer-service/src/domain/draft/feasibility.py\<close>: the matching input built from a
  snapshot, the remaining capacity with its spill into open slots, the analysis of a draft before or
  after a hypothetical pick, and the pick options with their subset test (\<open>_SlotDemand\<close>)
  and their cache. The reference for the options is the analysis of every single pick; the main theorem
  says the optimised verdicts are those.
\<close>

unbundle bit_operations_syntax

section \<open>The state of a draft\<close>

text \<open>\<open>picked_role_by_player\<close>: the role each resolved pick froze, an absent or empty one
  read as the open slot.\<close>

definition picked_role_by_player :: "draft_pick list \<Rightarrow> (int, string) dict" where
  "picked_role_by_player picks =
     foldl (\<lambda>d pick. case picked_player_id pick of
         None \<Rightarrow> d
       | Some pid \<Rightarrow>
           if pick_status pick \<in> {Pick_completed, Pick_autopicked}
           then dict_set pid (case target_role pick of None \<Rightarrow> FLEX_SLOT_CODE
                              | Some r \<Rightarrow> if r = '''' then FLEX_SLOT_CODE else r) d
           else d) [] picks"

text \<open>The two branches of the loop over the players: a pool player, and a seat already taken.\<close>

definition pool_player :: "(int, player_roster) dict \<Rightarrow> draft_player \<Rightarrow> eligible_player option" where
  "pool_player rosters p =
     (if player_status p = Player_available
      then (let playing = (case map_of rosters (player_row_id p) of
                None \<Rightarrow> {} | Some roster \<Rightarrow> playable_roles roster)
            in if playing = {} then None
               else Some \<lparr>ep_player_id = player_row_id p, ep_playable_roles = playing\<rparr>)
      else None)"

definition seat_assignment ::
  "roster_shape \<Rightarrow> (int, string) dict \<Rightarrow> (int, player_roster) dict \<Rightarrow> draft_player \<Rightarrow>
    draft_assignment option" where
  "seat_assignment shape picked rosters p =
     (case drafted_by_team_id p of
        None \<Rightarrow> None
      | Some team \<Rightarrow>
          if player_status p \<noteq> Player_picked then None
          else if \<not> has_role_slots shape
          then Some \<lparr>da_player_id = player_row_id p, da_team_id = team, da_slot_code = FLEX_SLOT_CODE\<rparr>
          else map_option (\<lambda>r. \<lparr>da_player_id = player_row_id p, da_team_id = team, da_slot_code = r\<rparr>)
            (case map_of picked (player_row_id p) of
               Some r \<Rightarrow> Some r
             | None \<Rightarrow> seat_role (map_of rosters (player_row_id p)) (captain_role p)))"

definition build_feasibility_state ::
  "roster_shape \<Rightarrow> draft_team list \<Rightarrow> draft_player list \<Rightarrow> draft_pick list \<Rightarrow>
    (int, player_roster) dict \<Rightarrow> feasibility_state" where
  "build_feasibility_state shape teams players picks rosters =
     \<lparr>fs_team_ids = map team_row_id (sort_key (\<lambda>t. (draft_position t, team_row_id t)) teams),
      slot_targets = slots shape,
      fs_players = List.map_filter (pool_player rosters) players,
      fs_assignments = List.map_filter (seat_assignment shape (picked_role_by_player picks) rosters) players\<rparr>"

lemma pool_player_Some:
  "pool_player rosters p = Some q \<Longrightarrow> ep_player_id q = player_row_id p \<and> player_status p = Player_available \<and>
    finite (ep_playable_roles q) \<and> ep_playable_roles q \<noteq> {}"
  by (auto simp: pool_player_def Let_def playable_roles_def split: if_splits option.splits)

lemma seat_assignment_Some:
  "seat_assignment shape picked rosters p = Some a \<Longrightarrow> player_row_id p = da_player_id a \<and>
    player_status p = Player_picked \<and> drafted_by_team_id p = Some (da_team_id a)"
  by (auto simp: seat_assignment_def split: if_splits option.splits)

section \<open>Capacity\<close>

type_synonym capacity = "(int \<times> string, int) dict"

definition ordered_slot_codes :: "(string, int) dict \<Rightarrow> string list" where
  "ordered_slot_codes targets = map fst (filter (\<lambda>(code, n). 0 < n) targets)"

definition slot_fits :: "eligible_player \<Rightarrow> string \<Rightarrow> bool" where
  "slot_fits player code \<longleftrightarrow> code = FLEX_SLOT_CODE \<or> code \<in> ep_playable_roles player"

definition full_capacity :: "int list \<Rightarrow> (string, int) dict \<Rightarrow> capacity" where
  "full_capacity team_ids targets =
     concat (map (\<lambda>t. map (\<lambda>code. ((t, code), dict_get targets code 0)) (ordered_slot_codes targets))
       (dedup team_ids))"

text \<open>One iteration of the loop over the assignments: the named slot, else an open slot, else
  overfilled.\<close>

definition take_slot :: "capacity \<times> bool \<Rightarrow> draft_assignment \<Rightarrow> capacity \<times> bool" where
  "take_slot st a =
     (case st of (remaining, overfilled) \<Rightarrow>
       let key = (da_team_id a, da_slot_code a); flex_key = (da_team_id a, FLEX_SLOT_CODE)
       in if 0 < dict_get remaining key 0
          then (dict_set key (dict_get remaining key 0 - 1) remaining, overfilled)
          else if da_slot_code a \<noteq> FLEX_SLOT_CODE \<and> 0 < dict_get remaining flex_key 0
          then (dict_set flex_key (dict_get remaining flex_key 0 - 1) remaining, overfilled)
          else (remaining, True))"

definition remaining_capacity ::
  "int list \<Rightarrow> (string, int) dict \<Rightarrow> draft_assignment list \<Rightarrow> capacity \<times> bool" where
  "remaining_capacity team_ids targets assignments =
     foldl take_slot (full_capacity team_ids targets, False) assignments"

definition open_slots :: "capacity \<Rightarrow> draft_slot list" where
  "open_slots remaining =
     concat (map (\<lambda>((team, code), n).
       map (\<lambda>k. \<lparr>ds_team_id = team, ds_slot_code = code, ds_ordinal = k\<rparr>) [0..<nat n]) remaining)"

section \<open>The analysis\<close>

definition available_players :: "eligible_player list \<Rightarrow> draft_assignment list \<Rightarrow> eligible_player list" where
  "available_players players assignments =
     filter (\<lambda>p. ep_player_id p \<notin> set (map da_player_id assignments)) players"

definition eligible_slots ::
  "(string, int) dict \<Rightarrow> draft_slot list \<Rightarrow> eligible_player list \<Rightarrow> (int, draft_slot) edges" where
  "eligible_slots targets open_ps available =
     foldl (\<lambda>d p. dict_set (ep_player_id p)
       (concat (map (\<lambda>code. filter (\<lambda>s. ds_slot_code s = code) open_ps)
         (filter (slot_fits p) (ordered_slot_codes targets)))) d) [] available"

definition count_code :: "draft_slot list \<Rightarrow> string \<Rightarrow> nat" where
  "count_code ss code = length (filter (\<lambda>s. ds_slot_code s = code) ss)"

definition analyze_draft_feasibility ::
  "int list \<Rightarrow> (string, int) dict \<Rightarrow> eligible_player list \<Rightarrow> draft_assignment list \<Rightarrow>
    draft_assignment option \<Rightarrow> feasibility_report" where
  "analyze_draft_feasibility team_ids targets players assignments hypothetical =
     (let all_assignments = assignments @ (case hypothetical of None \<Rightarrow> [] | Some h \<Rightarrow> [h]);
          (remaining, overfilled) = remaining_capacity team_ids targets all_assignments;
          open_ps = open_slots remaining;
          available = available_players players all_assignments;
          matching = maximum_bipartite_matching (map ep_player_id available) open_ps
            (eligible_slots targets open_ps available);
          unmatched = unmatched_slots matching;
          unmatched_codes = set (map ds_slot_code unmatched);
          blocking = map ep_player_id
            (filter (\<lambda>p. \<exists>code \<in> unmatched_codes. slot_fits p code) available);
          deficits = map (\<lambda>code. \<lparr>sd_slot_code = code, sd_unmatched_slots = count_code unmatched code,
              sd_eligible_players = length (filter (\<lambda>p. slot_fits p code) available)\<rparr>)
            (filter (\<lambda>code. count_code unmatched code \<noteq> 0) (ordered_slot_codes targets))
      in \<lparr>is_feasible = (\<not> overfilled \<and> unmatched = []),
          total_open_slots = length open_ps,
          matched_slots = matched_count matching,
          fr_unmatched_slots = unmatched,
          slot_deficits = deficits,
          blocking_player_ids = blocking,
          fr_reason_code = (if overfilled then Some ''role_overfilled''
            else if unmatched \<noteq> [] then Some ''role_shortage'' else None)\<rparr>)"

section \<open>The subset test and the pick options\<close>

record slot_demand =
  sdm_codes :: "string list"
  sdm_demand :: "(string, int) dict"
  sdm_masks :: "(int, int) dict"
  sdm_supply :: "(int, int) dict"

definition player_mask :: "string list \<Rightarrow> eligible_player \<Rightarrow> int" where
  "player_mask codes p =
     sum_list (map (\<lambda>(b, code). push_bit b 1) (filter (\<lambda>(b, code). slot_fits p code) (enumerate 0 codes)))"

definition mk_slot_demand ::
  "(string, int) dict \<Rightarrow> capacity \<Rightarrow> eligible_player list \<Rightarrow> draft_assignment list \<Rightarrow> slot_demand" where
  "mk_slot_demand targets remaining players assignments =
     (let codes = ordered_slot_codes targets;
          demand = foldl (\<lambda>d ((team, code), n). counter_add code n d) [] remaining;
          masks = foldl (\<lambda>d p. dict_set (ep_player_id p) (player_mask codes p) d) []
            (available_players players assignments);
          supply = foldl (\<lambda>d (pid, pm). counter_add pm 1 d) [] masks
      in \<lparr>sdm_codes = codes, sdm_demand = demand, sdm_masks = masks, sdm_supply = supply\<rparr>)"

definition fillable_after :: "slot_demand \<Rightarrow> int \<Rightarrow> string \<Rightarrow> bool" where
  "fillable_after d pid slot_code =
     (let demand = map (\<lambda>code. dict_get (sdm_demand d) code 0 - (if code = slot_code then 1 else 0))
            (sdm_codes d);
          supply = (case map_of (sdm_masks d) pid of
              None \<Rightarrow> sdm_supply d | Some pm \<Rightarrow> counter_add pm (- 1) (sdm_supply d))
      in list_all (\<lambda>codes.
           sum_list (map snd (filter (\<lambda>(b, n). drop_bit b codes AND 1 \<noteq> 0) (enumerate 0 demand))) \<le>
           sum_list (map snd (filter (\<lambda>(pm, n). pm AND codes \<noteq> 0) supply)))
         (map int [1..<2 ^ length (sdm_codes d)]))"

type_synonym report_cache = "(string set \<times> string, int \<times> feasibility_report option) dict"

text \<open>One \<open>(player, role)\<close> iteration of \<open>evaluate_pick_options\<close>; the closure of
  the fixed arguments comes first.\<close>

definition pick_step ::
  "int \<Rightarrow> int list \<Rightarrow> (string, int) dict \<Rightarrow> eligible_player list \<Rightarrow> draft_assignment list \<Rightarrow>
    capacity \<Rightarrow> slot_demand option \<Rightarrow> pick_option list \<times> report_cache \<Rightarrow> eligible_player \<times> string \<Rightarrow>
    pick_option list \<times> report_cache" where
  "pick_step team_id team_ids targets players assignments remaining demand st pr =
     (case (st, pr) of ((options, cache), (p, r)) \<Rightarrow>
       if dict_get remaining (team_id, r) 0 + dict_get remaining (team_id, FLEX_SLOT_CODE) 0 \<le> 0
       then (options @ [\<lparr>po_player_id = ep_player_id p, po_role = r, is_safe = False,
              po_reason_code = Some ''slot_filled'', po_unmatched_slots = [], po_blocking_player_ids = []\<rparr>], cache)
       else
         let key = (ep_playable_roles p, r);
             (representative, report, cache') =
               (case map_of cache key of
                  Some (rid, rep) \<Rightarrow> (rid, rep, cache)
                | None \<Rightarrow>
                    let code = (if 0 < dict_get remaining (team_id, r) 0 then r else FLEX_SLOT_CODE);
                        rep = (if (case demand of None \<Rightarrow> False | Some d \<Rightarrow> fillable_after d (ep_player_id p) code)
                               then None
                               else Some (analyze_draft_feasibility team_ids targets players assignments
                                 (Some \<lparr>da_player_id = ep_player_id p, da_team_id = team_id, da_slot_code = r\<rparr>)))
                    in (ep_player_id p, rep, dict_set key (ep_player_id p, rep) cache))
         in case report of
              None \<Rightarrow> (options @ [\<lparr>po_player_id = ep_player_id p, po_role = r, is_safe = True,
                po_reason_code = None, po_unmatched_slots = [], po_blocking_player_ids = []\<rparr>], cache')
            | Some rep \<Rightarrow>
                let blocking = (if representative \<noteq> ep_player_id p
                      then map (\<lambda>i. if i = ep_player_id p then representative else i) (blocking_player_ids rep)
                      else blocking_player_ids rep)
                in (options @ [\<lparr>po_player_id = ep_player_id p, po_role = r, is_safe = is_feasible rep,
                      po_reason_code = (if is_feasible rep then None else fr_reason_code rep),
                      po_unmatched_slots = fr_unmatched_slots rep, po_blocking_player_ids = blocking\<rparr>], cache'))"

definition player_roles :: "eligible_player list \<Rightarrow> (eligible_player \<times> string) list" where
  "player_roles players = concat (map (\<lambda>p. map (Pair p) (sorted_list_of_set (ep_playable_roles p))) players)"

definition evaluate_pick_options ::
  "int \<Rightarrow> int list \<Rightarrow> (string, int) dict \<Rightarrow> eligible_player list \<Rightarrow> draft_assignment list \<Rightarrow>
    pick_option list" where
  "evaluate_pick_options team_id team_ids targets players assignments =
     (let (remaining, overfilled) = remaining_capacity team_ids targets assignments;
          demand = (if overfilled then None else Some (mk_slot_demand targets remaining players assignments))
      in fst (foldl (pick_step team_id team_ids targets players assignments remaining demand) ([], [])
           (player_roles players)))"

section \<open>Capacity is conserved\<close>

definition capacity_ok :: "string list \<Rightarrow> capacity \<Rightarrow> bool" where
  "capacity_ok codes remaining \<longleftrightarrow> distinct (map fst remaining) \<and>
     (\<forall>((team, code), n) \<in> set remaining. 0 \<le> n \<and> code \<in> set codes)"

definition demand :: "capacity \<Rightarrow> string \<Rightarrow> int" where
  "demand remaining code = total_where (\<lambda>(team, code'). code' = code) remaining"

lemma distinct_ordered_slot_codes:
  "distinct (map fst targets) \<Longrightarrow> distinct (ordered_slot_codes targets)"
  by (simp add: ordered_slot_codes_def distinct_map_filter)

lemma dict_get_positive_key: "0 < dict_get d k (0::int) \<Longrightarrow> k \<in> fst ` set d"
  by (auto simp: dict_get_def dest!: map_of_SomeD split: option.splits intro: rev_image_eqI)

lemma full_capacity_ok:
  assumes "distinct (map fst targets)"
  shows "capacity_ok (ordered_slot_codes targets) (full_capacity team_ids targets)"
proof -
  let ?cs = "ordered_slot_codes targets"
  have keys: "map fst (full_capacity team_ids targets) = List.product (dedup team_ids) ?cs"
    unfolding full_capacity_def
    by (induction "dedup team_ids" arbitrary: team_ids) (auto simp: o_def product_concat_map map_concat)
  have "0 \<le> dict_get targets code 0" if "code \<in> set ?cs" for code
  proof -
    from that obtain n where "(code, n) \<in> set targets" "0 < n" by (auto simp: ordered_slot_codes_def)
    then show ?thesis using assms by (simp add: dict_get_def)
  qed
  moreover have "distinct (map fst (full_capacity team_ids targets))"
    unfolding keys by (simp add: distinct_product distinct_ordered_slot_codes assms)
  ultimately show ?thesis by (auto simp: capacity_ok_def full_capacity_def)
qed

lemma capacity_ok_spend:
  assumes "capacity_ok codes remaining" and "0 < dict_get remaining key 0"
  shows "capacity_ok codes (dict_set key (dict_get remaining key 0 - 1) remaining)"
    and "demand (dict_set key (dict_get remaining key 0 - 1) remaining) code =
      demand remaining code - (if snd key = code then 1 else 0)"
proof -
  have dist: "distinct (map fst remaining)" using assms(1) by (simp add: capacity_ok_def)
  obtain n where "(key, n) \<in> set remaining" using dict_get_positive_key [OF assms(2)] by auto
  then have "snd key \<in> set codes" using assms(1) by (auto simp: capacity_ok_def)
  then show "capacity_ok codes (dict_set key (dict_get remaining key 0 - 1) remaining)"
    using assms set_dict_set_subset [of key "dict_get remaining key 0 - 1" remaining] dist
    by (auto simp: capacity_ok_def)
  show "demand (dict_set key (dict_get remaining key 0 - 1) remaining) code =
      demand remaining code - (if snd key = code then 1 else 0)"
    by (cases key) (simp add: demand_def total_where_set dist)
qed

text \<open>The slot an assignment takes, when it does not overfill the roster.\<close>

definition slot_taken :: "capacity \<Rightarrow> draft_assignment \<Rightarrow> string option" where
  "slot_taken remaining a =
     (if 0 < dict_get remaining (da_team_id a, da_slot_code a) 0 then Some (da_slot_code a)
      else if 0 < dict_get remaining (da_team_id a, FLEX_SLOT_CODE) 0 then Some FLEX_SLOT_CODE
      else None)"

lemma take_slot_cases:
  assumes "capacity_ok codes remaining"
  shows "case slot_taken remaining a of
      None \<Rightarrow> take_slot (remaining, ov) a = (remaining, True)
    | Some code \<Rightarrow> (\<exists>remaining'. take_slot (remaining, ov) a = (remaining', ov) \<and>
        capacity_ok codes remaining' \<and>
        (\<forall>c. demand remaining' c = demand remaining c - (if code = c then 1 else 0)))"
  using capacity_ok_spend [OF assms]
  by (auto simp: slot_taken_def take_slot_def Let_def)

lemma take_slots_ok:
  "capacity_ok codes remaining \<Longrightarrow> capacity_ok codes (fst (foldl take_slot (remaining, ov) as))"
proof (induction as arbitrary: remaining ov)
  case (Cons a as)
  obtain remaining' ov' where step: "take_slot (remaining, ov) a = (remaining', ov')" by fastforce
  then have "capacity_ok codes remaining'"
    using take_slot_cases [OF Cons.prems, where a = a and ov = ov] Cons.prems
    by (auto split: option.splits)
  then show ?case using Cons.IH by (simp add: step)
qed simp

lemma remaining_capacity_ok:
  "distinct (map fst targets) \<Longrightarrow> remaining_capacity team_ids targets as = (remaining, ov) \<Longrightarrow>
    capacity_ok (ordered_slot_codes targets) remaining"
  using take_slots_ok [OF full_capacity_ok] by (metis fst_conv remaining_capacity_def)

lemma remaining_capacity_snoc:
  "remaining_capacity team_ids targets (as @ [a]) = take_slot (remaining_capacity team_ids targets as) a"
  by (simp add: remaining_capacity_def)

section \<open>Feasible means Hall's condition over the codes\<close>

text \<open>\<open>enough codes d ps\<close>: every set of codes is fitted by at least as many players as it
  has open slots.\<close>

definition enough :: "string set \<Rightarrow> (string \<Rightarrow> int) \<Rightarrow> eligible_player list \<Rightarrow> bool" where
  "enough codes d ps \<longleftrightarrow>
     (\<forall>T \<subseteq> codes. (\<Sum>c\<in>T. d c) \<le> int (length (filter (\<lambda>p. \<exists>c\<in>T. slot_fits p c) ps)))"

lemma open_slots_Cons:
  "open_slots (((team, code), n) # remaining) =
    map (\<lambda>k. \<lparr>ds_team_id = team, ds_slot_code = code, ds_ordinal = k\<rparr>) [0..<nat n] @ open_slots remaining"
  by (simp add: open_slots_def)

lemma open_slots_key: "s \<in> set (open_slots remaining) \<Longrightarrow> (ds_team_id s, ds_slot_code s) \<in> fst ` set remaining"
  by (force simp: open_slots_def)

lemma distinct_open_slots: "distinct (map fst remaining) \<Longrightarrow> distinct (open_slots remaining)"
proof (induction remaining)
  case (Cons e remaining)
  obtain team code n where e: "e = ((team, code), n)" by (metis prod.exhaust)
  let ?mk = "\<lambda>k. \<lparr>ds_team_id = team, ds_slot_code = code, ds_ordinal = k\<rparr>"
  have "distinct (map ?mk [0..<nat n])" by (simp add: distinct_map inj_on_def)
  moreover have "s \<notin> set (open_slots remaining)" if mk: "s \<in> set (map ?mk [0..<nat n])" for s
  proof
    assume s: "s \<in> set (open_slots remaining)"
    obtain k where "s = ?mk k" using mk by auto
    then have "(team, code) \<in> fst ` set remaining" using open_slots_key [OF s] by simp
    then show False using Cons.prems by (simp add: e)
  qed
  then have "set (map ?mk [0..<nat n]) \<inter> set (open_slots remaining) = {}" by blast
  ultimately show ?case using Cons unfolding e open_slots_Cons by simp
qed (simp add: open_slots_def)

lemma open_slots_code:
  "capacity_ok codes remaining \<Longrightarrow> s \<in> set (open_slots remaining) \<Longrightarrow> ds_slot_code s \<in> set codes"
  by (auto simp: open_slots_def capacity_ok_def)

lemma count_open_slots:
  assumes "finite T" and "\<forall>((team, code), n) \<in> set remaining. 0 \<le> n"
  shows "int (length (filter (\<lambda>s. ds_slot_code s \<in> T) (open_slots remaining))) = (\<Sum>c\<in>T. demand remaining c)"
  using assms(2)
proof (induction remaining)
  case Nil
  then show ?case by (simp add: open_slots_def demand_def)
next
  case (Cons e remaining)
  obtain team code n where e: "e = ((team, code), n)" by (metis prod.exhaust)
  have "(\<Sum>c\<in>T. demand (e # remaining) c) = (\<Sum>c\<in>T. (if code = c then n else 0) + demand remaining c)"
    by (simp add: demand_def e)
  also have "\<dots> = (if code \<in> T then n else 0) + (\<Sum>c\<in>T. demand remaining c)"
    by (simp add: sum.distrib assms(1))
  finally show ?case
    using Cons by (simp add: open_slots_Cons e o_def filter_map)
qed

text \<open>The edges of the matcher: a player's id reaches exactly the open slots whose code fits.\<close>

lemma allowed_open_slots:
  assumes "distinct (map ep_player_id ps)" and "p \<in> set ps"
    and "\<And>s. s \<in> set os \<Longrightarrow> ds_slot_code s \<in> set (ordered_slot_codes targets)"
  shows "allowed_slots os (eligible_slots targets os ps) (ep_player_id p) =
    {s \<in> set os. slot_fits p (ds_slot_code s)}"
proof -
  have "map_of (eligible_slots targets os ps) (ep_player_id p) =
      Some (concat (map (\<lambda>code. filter (\<lambda>s. ds_slot_code s = code) os)
        (filter (slot_fits p) (ordered_slot_codes targets))))"
    unfolding eligible_slots_def dict_comprehension [OF assms(1)]
    by (rule map_of_comprehension [OF assms(1,2)])
  then show ?thesis
    using assms(3) by (auto simp: allowed_slots_def adj_def dict_get_def)
qed

lemma card_filter_ids:
  "distinct (map ep_player_id ps) \<Longrightarrow>
    card {i \<in> set (map ep_player_id ps). \<exists>p \<in> set ps. ep_player_id p = i \<and> Q p} = length (filter Q ps)"
proof -
  assume d: "distinct (map ep_player_id ps)"
  have "{i \<in> set (map ep_player_id ps). \<exists>p \<in> set ps. ep_player_id p = i \<and> Q p} =
      set (map ep_player_id (filter Q ps))" by (fastforce simp: image_iff)
  then show ?thesis by (simp only: distinct_card [OF distinct_map_filter [OF d]] length_map)
qed

lemma all_fitted_iff_enough:
  assumes ids: "distinct (map ep_player_id ps)" and cap: "capacity_ok (ordered_slot_codes targets) remaining"
  shows "unmatched_slots (maximum_bipartite_matching (map ep_player_id ps) (open_slots remaining)
      (eligible_slots targets (open_slots remaining) ps)) = [] \<longleftrightarrow>
    enough (set (ordered_slot_codes targets)) (demand remaining) ps"
    (is "?L \<longleftrightarrow> ?R")
proof -
  let ?os = "open_slots remaining" and ?cs = "set (ordered_slot_codes targets)"
  let ?N = "\<lambda>U. {i \<in> set (map ep_player_id ps).
      allowed_slots ?os (eligible_slots targets ?os ps) i \<inter> U \<noteq> {}}"
  have dist: "distinct ?os" and nonneg: "\<forall>((team, code), n) \<in> set remaining. 0 \<le> n"
    using cap by (auto simp: capacity_ok_def distinct_open_slots)
  note edges = allowed_open_slots [OF ids _ open_slots_code [OF cap]]
  have N: "card (?N U) = length (filter (\<lambda>p. \<exists>s \<in> U. slot_fits p (ds_slot_code s)) ps)"
    if "U \<subseteq> set ?os" for U
  proof -
    have "?N U = {i \<in> set (map ep_player_id ps).
        \<exists>p \<in> set ps. ep_player_id p = i \<and> (\<exists>s \<in> U. slot_fits p (ds_slot_code s))}"
      using edges that by fastforce
    then show ?thesis by (simp only: card_filter_ids [OF ids])
  qed
  have size: "int (card {s \<in> set ?os. ds_slot_code s \<in> T}) = (\<Sum>c\<in>T. demand remaining c)"
    if "finite T" for T
    using count_open_slots [OF that nonneg] distinct_card [OF distinct_filter [OF dist], of "\<lambda>s. ds_slot_code s \<in> T"]
    by simp
  have "?L \<longleftrightarrow> (\<forall>U \<subseteq> set ?os. card U \<le> card (?N U))" by (rule unmatched_slots_hall)
  also have "\<dots> \<longleftrightarrow> ?R"
  proof
    assume hall: "\<forall>U \<subseteq> set ?os. card U \<le> card (?N U)"
    show ?R unfolding enough_def
    proof (intro allI impI)
      fix T assume "T \<subseteq> ?cs"
      then have fin: "finite T" by (rule finite_subset) simp
      let ?U = "{s \<in> set ?os. ds_slot_code s \<in> T}"
      have "card ?U \<le> card (?N ?U)" by (rule hall [rule_format]) blast
      also have "\<dots> = length (filter (\<lambda>p. \<exists>s \<in> ?U. slot_fits p (ds_slot_code s)) ps)"
        by (rule N) blast
      also have "\<dots> \<le> length (filter (\<lambda>p. \<exists>c\<in>T. slot_fits p c) ps)"
        by (rule length_filter_mono) blast
      finally show "(\<Sum>c\<in>T. demand remaining c) \<le> int (length (filter (\<lambda>p. \<exists>c\<in>T. slot_fits p c) ps))"
        using size [OF fin] by simp
    qed
  next
    assume R: ?R
    show "\<forall>U \<subseteq> set ?os. card U \<le> card (?N U)"
    proof (intro allI impI)
      fix U assume U: "U \<subseteq> set ?os"
      let ?T = "ds_slot_code ` U"
      have fin: "finite ?T" using U by (meson finite_imageI finite_set finite_subset)
      have "card U \<le> card {s \<in> set ?os. ds_slot_code s \<in> ?T}" using U by (intro card_mono) auto
      then have "int (card U) \<le> (\<Sum>c\<in>?T. demand remaining c)" unfolding size [OF fin, symmetric] by simp
      moreover have "?T \<subseteq> ?cs" using U open_slots_code [OF cap] by blast
      then have "(\<Sum>c\<in>?T. demand remaining c) \<le> int (length (filter (\<lambda>p. \<exists>c\<in>?T. slot_fits p c) ps))"
        using R unfolding enough_def by blast
      ultimately show "card U \<le> card (?N U)" using N [OF U] by simp
    qed
  qed
  finally show ?thesis .
qed

section \<open>The masks\<close>

lemma player_mask_horner:
  "sum_list (map (\<lambda>(b, code). push_bit b (1::int)) (filter (\<lambda>(b, code). P code) (enumerate n codes))) =
    push_bit n (horner_sum of_bool 2 (map P codes))"
proof (induction codes arbitrary: n)
  case (Cons code codes)
  have "push_bit n (of_bool b + 2 * (h::int)) = of_bool b * push_bit n 1 + push_bit (Suc n) h" for b h
    by (simp add: push_bit_eq_mult distrib_right)
  then show ?case using Cons [of "Suc n"] by simp
qed simp

lemma bit_player_mask: "bit (player_mask codes p) b \<longleftrightarrow> b < length codes \<and> slot_fits p (codes ! b)"
proof -
  have "player_mask codes p = horner_sum of_bool 2 (map (slot_fits p) codes)"
    unfolding player_mask_def player_mask_horner by simp
  then show ?thesis by (auto simp: bit_horner_sum_bit_iff)
qed

definition codes_of_bits :: "string list \<Rightarrow> int \<Rightarrow> string set" where
  "codes_of_bits codes m = {codes ! b | b. b < length codes \<and> bit m b}"

lemma mask_meets:
  "player_mask codes p AND m \<noteq> 0 \<longleftrightarrow> (\<exists>c \<in> codes_of_bits codes m. slot_fits p c)"
proof -
  have "player_mask codes p AND m \<noteq> 0 \<longleftrightarrow> (\<exists>b. bit (player_mask codes p AND m) b)"
    by (auto simp: bit_eq_iff)
  then show ?thesis by (auto simp: bit_and_iff bit_player_mask codes_of_bits_def)
qed

lemma test_bit_source: "drop_bit b (m::int) AND 1 \<noteq> 0 \<longleftrightarrow> bit m b"
  by (simp add: and_one_eq bit_iff_odd_drop_bit odd_iff_mod_2_eq_one)

lemma sum_over_bits:
  "distinct codes \<Longrightarrow>
    sum_list (map snd (filter (\<lambda>(b, n). bit m b) (enumerate 0 (map d codes)))) =
      (\<Sum>c \<in> codes_of_bits codes m. (d c :: int))"
proof -
  assume dist: "distinct codes"
  have "sum_list (map snd (filter (\<lambda>(b, n). bit m b) (enumerate k (map d cs)))) =
      (\<Sum>b \<in> {b. b < length cs \<and> bit m (b + k)}. d (cs ! b))" for k and cs :: "string list"
  proof (induction cs arbitrary: k)
    case (Cons c cs)
    have split: "{b. b < length (c # cs) \<and> bit m (b + k)} =
        (if bit m k then {0} else {}) \<union> Suc ` {b. b < length cs \<and> bit m (b + Suc k)}"
      by (auto simp: image_iff less_Suc_eq_0_disj)
    have "(\<Sum>b \<in> {b. b < length (c # cs) \<and> bit m (b + k)}. d ((c # cs) ! b)) =
        (if bit m k then d c else 0) + (\<Sum>b \<in> {b. b < length cs \<and> bit m (b + Suc k)}. d (cs ! b))"
      unfolding split by (subst sum.union_disjoint) (auto simp: sum.reindex)
    then show ?case using Cons [of "Suc k"] by simp
  qed simp
  from this [of 0 codes] have "sum_list (map snd (filter (\<lambda>(b, n). bit m b) (enumerate 0 (map d codes)))) =
      (\<Sum>b \<in> {b. b < length codes \<and> bit m b}. d (codes ! b))" by simp
  also have "\<dots> = (\<Sum>c \<in> codes_of_bits codes m. d c)"
    unfolding codes_of_bits_def setcompr_eq_image
    by (subst sum.reindex) (auto simp: inj_on_def nth_eq_iff_index_eq dist)
  finally show ?thesis .
qed

text \<open>The masks \<open>1 .. 2^n - 1\<close> enumerate exactly the non-empty sets of codes.\<close>

lemma codes_of_bits_subset: "codes_of_bits codes m \<subseteq> set codes"
  by (auto simp: codes_of_bits_def)

lemma codes_of_bits_surj:
  assumes "T \<subseteq> set codes" and "T \<noteq> {}"
  shows "\<exists>k \<in> {1..<2 ^ length codes}. codes_of_bits codes (int k) = T"
proof -
  define m where "m = (horner_sum of_bool 2 (map (\<lambda>c. c \<in> T) codes) :: int)"
  have bits: "bit m b \<longleftrightarrow> b < length codes \<and> codes ! b \<in> T" for b
    by (auto simp: m_def bit_horner_sum_bit_iff)
  have T: "codes_of_bits codes m = T"
    using assms(1) unfolding codes_of_bits_def bits by (auto simp: in_set_conv_nth) (metis in_mono in_set_conv_nth)
  have "0 \<le> m" unfolding m_def by (induction codes) auto
  moreover have "m < 2 ^ length codes"
    unfolding m_def by (induction codes) auto
  moreover have "m \<noteq> 0" using T assms(2) by (auto simp: codes_of_bits_def)
  ultimately have "nat m \<in> {1..<2 ^ length codes}" "int (nat m) = m" by (auto simp: nat_less_iff)
  then show ?thesis using T by metis
qed

section \<open>The subset test decides Hall's condition after a pick\<close>

lemma slot_demand_demand:
  "dict_get (sdm_demand (mk_slot_demand targets remaining ps as)) code 0 = demand remaining code"
proof -
  have form: "(\<lambda>d ((team, code), n). counter_add code n d) =
      (\<lambda>d (x :: (int \<times> string) \<times> int). counter_add (snd (fst x)) (snd x) d)"
    by (auto simp: fun_eq_iff)
  note tot = total_where_counter [where d = "[]" and f = "\<lambda>x. snd (fst x)" and g = snd and xs = remaining,
      folded form]
  show ?thesis
    unfolding mk_slot_demand_def Let_def slot_demand.simps
    using tot [where P = "\<lambda>k. k = code"]
    by (simp add: dict_get_total demand_def) (simp add: total_where_def o_def case_prod_unfold)
qed

lemma length_filter_remove:
  assumes "distinct (map ep_player_id ps)" and "p \<in> set ps"
  shows "length (filter Q ps) =
    length (filter Q (filter (\<lambda>q. ep_player_id q \<noteq> ep_player_id p) ps)) + (if Q p then 1 else 0)"
  using assms
proof (induction ps)
  case (Cons q ps)
  show ?case
  proof (cases "q = p")
    case True
    then have "filter (\<lambda>q. ep_player_id q \<noteq> ep_player_id p) ps = ps"
      using Cons.prems(1) by (intro filter_True ballI) (force simp: image_iff)
    then show ?thesis using True by simp
  next
    case False
    then have "ep_player_id q \<noteq> ep_player_id p" using Cons.prems by (auto simp: image_iff)
    then show ?thesis using Cons False by auto
  qed
qed simp

lemma supply_after_pick:
  fixes targets :: "(string, int) dict" and remaining :: capacity
    and ps :: "eligible_player list" and as :: "draft_assignment list"
  defines "d \<equiv> mk_slot_demand targets remaining ps as" and "av \<equiv> available_players ps as"
  assumes ids: "distinct (map ep_player_id ps)"
  shows "total_where P (case map_of (sdm_masks d) pid of
        None \<Rightarrow> sdm_supply d | Some pm \<Rightarrow> counter_add pm (- 1) (sdm_supply d)) =
    int (length (filter (\<lambda>p. P (player_mask (ordered_slot_codes targets) p))
      (filter (\<lambda>p. ep_player_id p \<noteq> pid) av)))"
proof -
  let ?mk = "player_mask (ordered_slot_codes targets)"
  have ids': "distinct (map ep_player_id av)"
    unfolding av_def available_players_def by (rule distinct_map_filter [OF ids])
  have masks: "sdm_masks d = map (\<lambda>p. (ep_player_id p, ?mk p)) av"
    unfolding d_def mk_slot_demand_def Let_def slot_demand.simps av_def
    by (rule dict_comprehension [OF ids' [unfolded av_def]])
  have "sdm_supply d = foldl (\<lambda>d x. counter_add (snd x) 1 d) [] (sdm_masks d)"
    by (simp add: d_def mk_slot_demand_def Let_def case_prod_unfold)
  moreover note total_where_counter [where d = "[]" and f = snd and g = "\<lambda>_. 1" and xs = "sdm_masks d"]
  ultimately have sup: "total_where P (sdm_supply d) = int (length (filter (\<lambda>p. P (?mk p)) av))"
    and dist: "distinct (map fst (sdm_supply d))" for P
    by (simp_all add: masks sum_list_triv filter_map o_def)
  show ?thesis
  proof (cases "\<exists>p \<in> set av. ep_player_id p = pid")
    case True
    then obtain p where p: "p \<in> set av" "ep_player_id p = pid" by blast
    then have "map_of (sdm_masks d) pid = Some (?mk p)"
      unfolding masks using map_of_comprehension [OF ids' p(1)] by simp
    then show ?thesis
      using length_filter_remove [OF ids' p(1), of "\<lambda>p. P (?mk p)"] p(2)
      by (simp add: total_where_counter_add dist sup)
  next
    case False
    then have "map_of (sdm_masks d) pid = None" by (auto simp: masks map_of_eq_None_iff)
    moreover have "filter (\<lambda>p. ep_player_id p \<noteq> pid) av = av" using False by (auto simp: filter_id_conv)
    ultimately show ?thesis by (simp add: sup)
  qed
qed

lemma fillable_after_iff:
  assumes ids: "distinct (map ep_player_id ps)" and targets: "distinct (map fst targets)"
  shows "fillable_after (mk_slot_demand targets remaining ps as) pid code \<longleftrightarrow>
    enough (set (ordered_slot_codes targets)) (\<lambda>c. demand remaining c - (if c = code then 1 else 0))
      (filter (\<lambda>p. ep_player_id p \<noteq> pid) (available_players ps as))"
proof -
  let ?d = "mk_slot_demand targets remaining ps as" and ?cs = "ordered_slot_codes targets"
  let ?av = "filter (\<lambda>p. ep_player_id p \<noteq> pid) (available_players ps as)"
  let ?need = "\<lambda>c. demand remaining c - (if c = code then 1 else 0)"
  let ?ok = "\<lambda>T. (\<Sum>c\<in>T. ?need c) \<le> int (length (filter (\<lambda>p. \<exists>c\<in>T. slot_fits p c) ?av))"
  have codes: "sdm_codes ?d = ?cs" by (simp add: mk_slot_demand_def Let_def)
  have need: "map (\<lambda>c. dict_get (sdm_demand ?d) c 0 - (if c = code then 1 else 0)) ?cs = map ?need ?cs"
    by (simp add: slot_demand_demand)
  have got: "sum_list (map snd (filter (\<lambda>(pm, n). pm AND m \<noteq> 0)
      (case map_of (sdm_masks ?d) pid of
         None \<Rightarrow> sdm_supply ?d | Some pm \<Rightarrow> counter_add pm (- 1) (sdm_supply ?d)))) =
      int (length (filter (\<lambda>p. \<exists>c \<in> codes_of_bits ?cs m. slot_fits p c) ?av))" for m
    using supply_after_pick [OF ids, of "\<lambda>pm. pm AND m \<noteq> 0" targets remaining as pid]
    unfolding total_where_def mask_meets .
  have "fillable_after ?d pid code \<longleftrightarrow> (\<forall>k \<in> {1..<2 ^ length ?cs}. ?ok (codes_of_bits ?cs (int k)))"
    unfolding fillable_after_def Let_def codes test_bit_source need got
      sum_over_bits [OF distinct_ordered_slot_codes [OF targets]]
    by (simp add: list_all_iff)
  also have "\<dots> \<longleftrightarrow> (\<forall>T \<subseteq> set ?cs. ?ok T)"
  proof
    assume all: "\<forall>k \<in> {1..<2 ^ length ?cs}. ?ok (codes_of_bits ?cs (int k))"
    show "\<forall>T \<subseteq> set ?cs. ?ok T"
    proof (intro allI impI)
      fix T assume T: "T \<subseteq> set ?cs"
      show "?ok T"
      proof (cases "T = {}")
        case False
        then show ?thesis using codes_of_bits_surj [OF T] all by blast
      qed simp
    qed
  qed (use codes_of_bits_subset in blast)
  finally show ?thesis unfolding enough_def .
qed

section \<open>The pick options are the verdicts of the plain analysis\<close>

lemma analyze_verdict:
  assumes ids: "distinct (map ep_player_id ps)" and targets: "distinct (map fst targets)"
    and all: "as @ (case h of None \<Rightarrow> [] | Some a \<Rightarrow> [a]) = all"
    and run: "remaining_capacity team_ids targets all = (remaining, ov)"
  defines "rep \<equiv> analyze_draft_feasibility team_ids targets ps as h"
  defines "ok \<equiv> enough (set (ordered_slot_codes targets)) (demand remaining) (available_players ps all)"
  shows "is_feasible rep \<longleftrightarrow> \<not> ov \<and> ok"
    and "fr_reason_code rep =
      (if ov then Some ''role_overfilled'' else if ok then None else Some ''role_shortage'')"
proof -
  have "distinct (map ep_player_id (available_players ps all))"
    unfolding available_players_def by (rule distinct_map_filter [OF ids])
  note iff = all_fitted_iff_enough [OF this remaining_capacity_ok [OF targets run]]
  show "is_feasible rep \<longleftrightarrow> \<not> ov \<and> ok"
    and "fr_reason_code rep =
      (if ov then Some ''role_overfilled'' else if ok then None else Some ''role_shortage'')"
    unfolding rep_def ok_def analyze_draft_feasibility_def Let_def all run prod.case iff [symmetric]
    by simp_all
qed

definition pick_verdict ::
  "int \<Rightarrow> int list \<Rightarrow> (string, int) dict \<Rightarrow> eligible_player list \<Rightarrow> draft_assignment list \<Rightarrow>
    eligible_player \<Rightarrow> string \<Rightarrow> bool \<times> string option" where
  "pick_verdict team_id team_ids targets ps as p r =
     (let rep = analyze_draft_feasibility team_ids targets ps as
          (Some \<lparr>da_player_id = ep_player_id p, da_team_id = team_id, da_slot_code = r\<rparr>)
      in (is_feasible rep, fr_reason_code rep))"

text \<open>The reference: capacity test, else the analysis with this pick; no subset test, no cache.\<close>

definition reference_option ::
  "int \<Rightarrow> int list \<Rightarrow> (string, int) dict \<Rightarrow> eligible_player list \<Rightarrow> draft_assignment list \<Rightarrow>
    eligible_player \<times> string \<Rightarrow> int \<times> string \<times> bool \<times> string option" where
  "reference_option team_id team_ids targets ps as pr =
     (case pr of (p, r) \<Rightarrow>
       let remaining = fst (remaining_capacity team_ids targets as)
       in (ep_player_id p, r,
           if dict_get remaining (team_id, r) 0 + dict_get remaining (team_id, FLEX_SLOT_CODE) 0 \<le> 0
           then (False, Some ''slot_filled'') else pick_verdict team_id team_ids targets ps as p r))"

definition option_summary :: "pick_option \<Rightarrow> int \<times> string \<times> bool \<times> string option" where
  "option_summary po = (po_player_id po, po_role po, is_safe po, po_reason_code po)"

text \<open>The verdict of a pick in terms of Hall's condition; it does not depend on who, of the players
  with one set of roles, is picked.\<close>

lemma pick_verdict_enough:
  fixes p :: eligible_player
  assumes ids: "distinct (map ep_player_id ps)" and targets: "distinct (map fst targets)"
    and base: "remaining_capacity team_ids targets as = (remaining, ov)"
    and cap: "0 < dict_get remaining (team_id, r) 0 + dict_get remaining (team_id, FLEX_SLOT_CODE) 0"
  defines "code \<equiv> (if 0 < dict_get remaining (team_id, r) 0 then r else FLEX_SLOT_CODE)"
  defines "ok \<equiv> enough (set (ordered_slot_codes targets)) (\<lambda>c. demand remaining c - (if c = code then 1 else 0))
    (filter (\<lambda>q. ep_player_id q \<noteq> ep_player_id p) (available_players ps as))"
  shows "pick_verdict team_id team_ids targets ps as p r =
    (\<not> ov \<and> ok, if ov then Some ''role_overfilled'' else if ok then None else Some ''role_shortage'')"
proof -
  let ?h = "\<lparr>da_player_id = ep_player_id p, da_team_id = team_id, da_slot_code = r\<rparr>"
  have "slot_taken remaining ?h = Some code" using cap by (auto simp: slot_taken_def code_def)
  then obtain remaining' where take: "take_slot (remaining, ov) ?h = (remaining', ov)"
    and dem: "\<And>c. demand remaining' c = demand remaining c - (if code = c then 1 else 0)"
    using take_slot_cases [OF remaining_capacity_ok [OF targets base], where a = ?h and ov = ov] by auto
  have run: "remaining_capacity team_ids targets (as @ [?h]) = (remaining', ov)"
    using take by (simp add: remaining_capacity_snoc base)
  have "available_players ps (as @ [?h]) =
      filter (\<lambda>q. ep_player_id q \<noteq> ep_player_id p) (available_players ps as)"
    by (auto simp: available_players_def filter_filter intro: filter_cong)
  moreover have "demand remaining' = (\<lambda>c. demand remaining c - (if c = code then 1 else 0))"
    using dem by auto
  ultimately have "ok \<longleftrightarrow> enough (set (ordered_slot_codes targets)) (demand remaining')
      (available_players ps (as @ [?h]))"
    by (simp add: ok_def)
  then show ?thesis
    using analyze_verdict [OF ids targets _ run, of as "Some ?h"] by (simp add: pick_verdict_def Let_def)
qed

lemma enough_interchangeable:
  assumes ids: "distinct (map ep_player_id av)" and "p \<in> set av" and "q \<in> set av"
    and "ep_playable_roles p = ep_playable_roles q"
  shows "enough codes d (filter (\<lambda>x. ep_player_id x \<noteq> ep_player_id p) av) \<longleftrightarrow>
    enough codes d (filter (\<lambda>x. ep_player_id x \<noteq> ep_player_id q) av)"
proof -
  have "slot_fits p = slot_fits q" using assms(4) by (auto simp: slot_fits_def)
  then have "length (filter (\<lambda>x. \<exists>c\<in>T. slot_fits x c) (filter (\<lambda>x. ep_player_id x \<noteq> ep_player_id p) av)) =
      length (filter (\<lambda>x. \<exists>c\<in>T. slot_fits x c) (filter (\<lambda>x. ep_player_id x \<noteq> ep_player_id q) av))" for T
    using length_filter_remove [OF ids assms(2), of "\<lambda>x. \<exists>c\<in>T. slot_fits x c"]
      length_filter_remove [OF ids assms(3), of "\<lambda>x. \<exists>c\<in>T. slot_fits x c"] by simp
  then show ?thesis unfolding enough_def by simp
qed

lemma pick_verdict_interchangeable:
  assumes ids: "distinct (map ep_player_id ps)" and targets: "distinct (map fst targets)"
    and base: "remaining_capacity team_ids targets as = (remaining, ov)"
    and cap: "0 < dict_get remaining (team_id, r) 0 + dict_get remaining (team_id, FLEX_SLOT_CODE) 0"
    and "p \<in> set ps" and "q \<in> set ps" and roles: "ep_playable_roles p = ep_playable_roles q"
    and free: "\<forall>x \<in> set ps. ep_player_id x \<notin> set (map da_player_id as)"
  shows "pick_verdict team_id team_ids targets ps as p r = pick_verdict team_id team_ids targets ps as q r"
proof -
  have av: "available_players ps as = ps"
    unfolding available_players_def using free by (simp add: filter_id_conv)
  show ?thesis
    unfolding pick_verdict_enough [OF ids targets base cap] av
    using enough_interchangeable [OF ids assms(5,6) roles] by simp
qed

text \<open>What the cache may hold: a report whose verdict is that of every player with these roles.\<close>

definition report_verdict :: "feasibility_report option \<Rightarrow> bool \<times> string option" where
  "report_verdict rep = (case rep of None \<Rightarrow> (True, None) | Some r \<Rightarrow> (is_feasible r, fr_reason_code r))"

definition cache_ok ::
  "int \<Rightarrow> int list \<Rightarrow> (string, int) dict \<Rightarrow> eligible_player list \<Rightarrow> draft_assignment list \<Rightarrow>
    report_cache \<Rightarrow> bool" where
  "cache_ok team_id team_ids targets ps as cache \<longleftrightarrow>
     (\<forall>R r rid rep p. map_of cache (R, r) = Some (rid, rep) \<longrightarrow> p \<in> set ps \<longrightarrow> ep_playable_roles p = R \<longrightarrow>
        pick_verdict team_id team_ids targets ps as p r = report_verdict rep)"

lemma pick_step_ok:
  assumes ids: "distinct (map ep_player_id ps)" and targets: "distinct (map fst targets)"
    and base: "remaining_capacity team_ids targets as = (remaining, ov)"
    and p: "p \<in> set ps" and free: "\<forall>x \<in> set ps. ep_player_id x \<notin> set (map da_player_id as)"
    and cache: "cache_ok team_id team_ids targets ps as cache"
  shows "\<exists>po cache'. pick_step team_id team_ids targets ps as remaining
      (if ov then None else Some (mk_slot_demand targets remaining ps as)) (options, cache) (p, r) =
      (options @ [po], cache') \<and>
    option_summary po = reference_option team_id team_ids targets ps as (p, r) \<and>
    cache_ok team_id team_ids targets ps as cache'"
proof (cases "dict_get remaining (team_id, r) 0 + dict_get remaining (team_id, FLEX_SLOT_CODE) 0 \<le> 0")
  case True
  then show ?thesis
    using cache by (auto simp: pick_step_def option_summary_def reference_option_def base Let_def)
next
  case False
  then have cap: "0 < dict_get remaining (team_id, r) 0 + dict_get remaining (team_id, FLEX_SLOT_CODE) 0"
    by simp
  let ?verdict = "pick_verdict team_id team_ids targets ps as"
  have clean: "fst (?verdict q r) \<Longrightarrow> snd (?verdict q r) = None" for q
    unfolding pick_verdict_enough [OF ids targets base cap] by simp
  have ref: "reference_option team_id team_ids targets ps as (p, r) = (ep_player_id p, r, ?verdict p r)"
    using False by (simp add: reference_option_def base Let_def)
  show ?thesis
  proof (cases "map_of cache (ep_playable_roles p, r)")
    case (Some e)
    obtain rid rep where e: "e = (rid, rep)" by (cases e)
    have v: "?verdict p r = report_verdict rep"
      using cache p Some unfolding cache_ok_def e by blast
    show ?thesis
      using False Some cache v clean [of p]
      by (cases rep) (auto simp: pick_step_def e ref option_summary_def report_verdict_def Let_def)
  next
    case None
    let ?code = "if 0 < dict_get remaining (team_id, r) 0 then r else FLEX_SLOT_CODE"
    let ?dem = "if ov then None else Some (mk_slot_demand targets remaining ps as)"
    let ?rep = "if (case ?dem of None \<Rightarrow> False | Some d \<Rightarrow> fillable_after d (ep_player_id p) ?code)
      then None else Some (analyze_draft_feasibility team_ids targets ps as
        (Some \<lparr>da_player_id = ep_player_id p, da_team_id = team_id, da_slot_code = r\<rparr>))"
    let ?cache = "dict_set (ep_playable_roles p, r) (ep_player_id p, ?rep) cache"
    have v: "?verdict p r = report_verdict ?rep"
    proof (cases "case ?dem of None \<Rightarrow> False | Some d \<Rightarrow> fillable_after d (ep_player_id p) ?code")
      case True
      then have "\<not> ov" and "fillable_after (mk_slot_demand targets remaining ps as) (ep_player_id p) ?code"
        by (auto split: if_splits)
      then show ?thesis
        unfolding pick_verdict_enough [OF ids targets base cap] fillable_after_iff [OF ids targets]
        using True by (simp add: report_verdict_def)
    next
      case False
      then show ?thesis by (simp add: report_verdict_def pick_verdict_def Let_def)
    qed
    have "cache_ok team_id team_ids targets ps as ?cache"
      using cache v pick_verdict_interchangeable [OF ids targets base cap p _ _ free]
      unfolding cache_ok_def map_of_dict_set by (auto split: if_splits)
    moreover have "\<exists>po. pick_step team_id team_ids targets ps as remaining ?dem (options, cache) (p, r) =
        (options @ [po], ?cache) \<and> option_summary po = (ep_player_id p, r, ?verdict p r)"
      using False None v clean [of p]
      by (cases ?rep) (auto simp: pick_step_def option_summary_def report_verdict_def Let_def)
    ultimately show ?thesis unfolding ref by blast
  qed
qed

lemma pick_steps_ok:
  assumes ids: "distinct (map ep_player_id ps)" and targets: "distinct (map fst targets)"
    and base: "remaining_capacity team_ids targets as = (remaining, ov)"
    and free: "\<forall>x \<in> set ps. ep_player_id x \<notin> set (map da_player_id as)"
    and cache: "cache_ok team_id team_ids targets ps as cache" and sub: "fst ` set prs \<subseteq> set ps"
  shows "map option_summary (fst (foldl (pick_step team_id team_ids targets ps as remaining
      (if ov then None else Some (mk_slot_demand targets remaining ps as))) (options, cache) prs)) =
    map option_summary options @ map (reference_option team_id team_ids targets ps as) prs"
  using cache sub
proof (induction prs arbitrary: options cache)
  case (Cons pr prs)
  obtain p r where pr: "pr = (p, r)" by (cases pr)
  then have p: "p \<in> set ps" using Cons.prems by simp
  obtain po cache' where step: "pick_step team_id team_ids targets ps as remaining
      (if ov then None else Some (mk_slot_demand targets remaining ps as)) (options, cache) (p, r) =
      (options @ [po], cache')"
    and "option_summary po = reference_option team_id team_ids targets ps as (p, r)"
    and "cache_ok team_id team_ids targets ps as cache'"
    using pick_step_ok [OF ids targets base p free Cons.prems(1)] by blast
  then show ?case using Cons.IH [of cache' "options @ [po]"] Cons.prems by (simp add: pr)
qed simp

section \<open>A feasible draft is never stuck\<close>

text \<open>What feasibility promises: distinct available players for all open slots, each fitting.\<close>

definition fills :: "(draft_slot \<Rightarrow> eligible_player) \<Rightarrow> draft_slot set \<Rightarrow> eligible_player list \<Rightarrow> bool" where
  "fills f S ps \<longleftrightarrow> inj_on f S \<and> (\<forall>s \<in> S. f s \<in> set ps \<and> slot_fits (f s) (ds_slot_code s))"

lemma fills_imp_enough:
  assumes "fills f S ps" and "finite S"
    and size: "\<And>T. T \<subseteq> codes \<Longrightarrow> (\<Sum>c\<in>T. d c) = int (card {s \<in> S. ds_slot_code s \<in> T})"
    and "distinct ps"
  shows "enough codes d ps"
  unfolding enough_def
proof (intro allI impI)
  fix T assume T: "T \<subseteq> codes"
  let ?S = "{s \<in> S. ds_slot_code s \<in> T}" and ?P = "filter (\<lambda>p. \<exists>c\<in>T. slot_fits p c) ps"
  have "card ?S \<le> card (set ?P)"
    using assms(1) by (intro card_inj_on_le [of f]) (auto simp: fills_def inj_on_def)
  also have "\<dots> = length ?P" by (rule distinct_card) (simp add: assms(4))
  finally show "(\<Sum>c\<in>T. d c) \<le> int (length ?P)" using size [OF T] by simp
qed

lemma enough_imp_fills:
  assumes ids: "distinct (map ep_player_id ps)" and cap: "capacity_ok (ordered_slot_codes targets) remaining"
    and en: "enough (set (ordered_slot_codes targets)) (demand remaining) ps"
  shows "\<exists>f. fills f (set (open_slots remaining)) ps"
proof -
  let ?os = "open_slots remaining"
  let ?el = "eligible_slots targets ?os ps"
  let ?m = "map_of (slot_to_candidate (maximum_bipartite_matching (map ep_player_id ps) ?os ?el))"
  define f where "f s = the (find (\<lambda>p. ep_player_id p = the (?m s)) ps)" for s
  have "unmatched_slots (maximum_bipartite_matching (map ep_player_id ps) ?os ?el) = []"
    using all_fitted_iff_enough [OF ids cap] en by blast
  then have dom: "dom ?m = set ?os"
    using matched_dom(3,4) [of "map ep_player_id ps" ?os ?el] by auto
  have mat: "matching_along (allowed_slots ?os ?el) (set (map ep_player_id ps)) ?m" by (rule mbm_matching)
  have f: "f s \<in> set ps \<and> ep_player_id (f s) = the (?m s) \<and> slot_fits (f s) (ds_slot_code s)"
    if s: "s \<in> set ?os" for s
  proof -
    obtain i where i: "?m s = Some i" using s dom by blast
    then have i': "i \<in> set (map ep_player_id ps)" "s \<in> allowed_slots ?os ?el i"
      using matching_alongD [OF mat] by blast+
    then have "find (\<lambda>p. ep_player_id p = i) ps \<noteq> None" by (auto simp: find_None_iff)
    then obtain p where p: "find (\<lambda>p. ep_player_id p = i) ps = Some p" by blast
    then have "p \<in> set ps" "ep_player_id p = i" using find_SomeD by fastforce+
    then show ?thesis
      using i i'(2) p allowed_open_slots [OF ids _ open_slots_code [OF cap], of p] by (auto simp: f_def)
  qed
  have "inj_on f (set ?os)"
  proof (rule inj_onI)
    fix s t assume st: "s \<in> set ?os" "t \<in> set ?os" "f s = f t"
    then have "the (?m s) = the (?m t)" using f by metis
    then show "s = t"
      using matching_along_inj [OF mat, of "set ?os"] dom st(1,2) by (auto simp: inj_on_def)
  qed
  then show ?thesis using f unfolding fills_def by blast
qed

lemma open_slot_capacity:
  assumes cap: "capacity_ok codes remaining" and s: "s \<in> set (open_slots remaining)"
  shows "0 < dict_get remaining (ds_team_id s, ds_slot_code s) 0"
  using assms by (auto simp: open_slots_def capacity_ok_def dict_get_def)

lemma capacity_open_slot:
  assumes "0 < dict_get remaining (team, code) 0"
  shows "\<exists>u \<in> set (open_slots remaining). ds_team_id u = team \<and> ds_slot_code u = code"
proof -
  let ?u = "\<lparr>ds_team_id = team, ds_slot_code = code, ds_ordinal = 0\<rparr>"
  obtain n where n: "((team, code), n) \<in> set remaining" "0 < n"
    using assms by (auto simp: dict_get_def dest: map_of_SomeD split: option.splits)
  then have "?u \<in> set (open_slots remaining)" by (force simp: open_slots_def)
  then show ?thesis by force
qed

lemma capacity_nonneg: "capacity_ok codes remaining \<Longrightarrow> 0 \<le> dict_get remaining (team, code) 0"
  by (auto simp: capacity_ok_def dict_get_def dest!: map_of_SomeD split: option.splits)

lemma count_open_slots_set:
  assumes cap: "capacity_ok codes remaining" and "T \<subseteq> set codes"
  shows "(\<Sum>c\<in>T. demand remaining c) = int (card {s \<in> set (open_slots remaining). ds_slot_code s \<in> T})"
proof -
  have fin: "finite T" using assms(2) by (rule finite_subset) simp
  have nonneg: "\<forall>((team, code), n) \<in> set remaining. 0 \<le> n" and dist: "distinct (map fst remaining)"
    using cap by (auto simp: capacity_ok_def)
  show ?thesis
    unfolding count_open_slots [OF fin nonneg, symmetric]
    using distinct_card [OF distinct_filter [OF distinct_open_slots [OF dist]], of "\<lambda>s. ds_slot_code s \<in> T"]
    by simp
qed

text \<open>Taking a slot away from a filled draft, with the player who filled it, leaves it filled.\<close>

lemma enough_after_filled:
  assumes cap: "capacity_ok codes remaining" and f: "fills f (set (open_slots remaining)) ps"
    and s: "s \<in> set (open_slots remaining)" and ids: "distinct (map ep_player_id ps)"
  shows "enough (set codes) (\<lambda>c. demand remaining c - (if c = ds_slot_code s then 1 else 0))
    (filter (\<lambda>q. ep_player_id q \<noteq> ep_player_id (f s)) ps)"
proof (rule fills_imp_enough)
  let ?S = "set (open_slots remaining) - {s}"
  show "fills f ?S (filter (\<lambda>q. ep_player_id q \<noteq> ep_player_id (f s)) ps)"
    unfolding fills_def
  proof (intro conjI ballI)
    fix t assume t: "t \<in> ?S"
    then have "f t \<in> set ps" "f s \<in> set ps" "f t \<noteq> f s" "slot_fits (f t) (ds_slot_code t)"
      using f s by (auto simp: fills_def inj_on_def)
    then show "f t \<in> set (filter (\<lambda>q. ep_player_id q \<noteq> ep_player_id (f s)) ps)"
      and "slot_fits (f t) (ds_slot_code t)"
      using ids by (auto simp: distinct_map inj_on_def)
  qed (use f in \<open>auto simp: fills_def intro: inj_on_subset\<close>)
  show "(\<Sum>c\<in>T. demand remaining c - (if c = ds_slot_code s then 1 else 0)) =
      int (card {t \<in> ?S. ds_slot_code t \<in> T})" if T: "T \<subseteq> set codes" for T
  proof -
    have fin: "finite T" using T by (rule finite_subset) simp
    let ?A = "{t \<in> set (open_slots remaining). ds_slot_code t \<in> T}" and ?B = "{t \<in> ?S. ds_slot_code t \<in> T}"
    have "int (card ?B) = int (card ?A) - (if ds_slot_code s \<in> T then 1 else 0)"
    proof (cases "ds_slot_code s \<in> T")
      case True
      then have A: "?A = insert s ?B" "s \<notin> ?B" "finite ?B" using s by auto
      have "card ?A = Suc (card ?B)" by (subst A(1)) (rule card_insert_disjoint [OF A(3,2)])
      then show ?thesis using True by simp
    next
      case False
      then have "?A = ?B" by auto
      then show ?thesis using False by simp
    qed
    then show ?thesis unfolding count_open_slots_set [OF cap T, symmetric] using fin by (simp add: sum_subtractf)
  qed
qed (use ids in \<open>simp_all add: distinct_map\<close>)

section \<open>Properties\<close>

lemma evaluate_pick_options_ref:
  assumes ids: "distinct (map ep_player_id players)" and targets: "distinct (map fst targets)"
    and free: "\<forall>p \<in> set players. ep_player_id p \<notin> set (map da_player_id assignments)"
  shows "map option_summary (evaluate_pick_options team_id team_ids targets players assignments) =
    map (reference_option team_id team_ids targets players assignments) (player_roles players)"
proof -
  obtain remaining ov where base: "remaining_capacity team_ids targets assignments = (remaining, ov)"
    by fastforce
  have sub: "fst ` set (player_roles players) \<subseteq> set players" by (auto simp: player_roles_def)
  have "cache_ok team_id team_ids targets players assignments []" by (simp add: cache_ok_def)
  then show ?thesis
    using pick_steps_ok [OF ids targets base free _ sub, of team_id "[]" "[]"]
    by (simp add: evaluate_pick_options_def base)
qed

lemma feasible_enough:
  assumes ids: "distinct (map ep_player_id players)" and targets: "distinct (map fst targets)"
    and base: "remaining_capacity team_ids targets assignments = (remaining, ov)"
  shows "is_feasible (analyze_draft_feasibility team_ids targets players assignments None) \<longleftrightarrow>
    \<not> ov \<and> enough (set (ordered_slot_codes targets)) (demand remaining) (available_players players assignments)"
  using analyze_verdict(1) [OF ids targets _ base, of assignments None] by simp

text \<open>C18: the analysis calls a draft feasible exactly when no roster is overfilled and the open
  slots can be given to distinct available players who fit them.\<close>

theorem feasible_iff_fillable:
  assumes "distinct (map ep_player_id players)" and "distinct (map fst targets)"
    and "remaining_capacity team_ids targets assignments = (remaining, overfilled)"
  shows "is_feasible (analyze_draft_feasibility team_ids targets players assignments None) \<longleftrightarrow>
    \<not> overfilled \<and> (\<exists>f. fills f (set (open_slots remaining)) (available_players players assignments))"
proof -
  let ?av = "available_players players assignments"
  have ids: "distinct (map ep_player_id ?av)"
    unfolding available_players_def by (rule distinct_map_filter [OF assms(1)])
  have cap: "capacity_ok (ordered_slot_codes targets) remaining"
    by (rule remaining_capacity_ok [OF assms(2,3)])
  have "enough (set (ordered_slot_codes targets)) (demand remaining) ?av \<longleftrightarrow>
      (\<exists>f. fills f (set (open_slots remaining)) ?av)"
  proof
    assume "\<exists>f. fills f (set (open_slots remaining)) ?av"
    then obtain f where "fills f (set (open_slots remaining)) ?av" ..
    then show "enough (set (ordered_slot_codes targets)) (demand remaining) ?av"
      by (rule fills_imp_enough) (use count_open_slots_set [OF cap] ids in \<open>simp_all add: distinct_map\<close>)
  qed (rule enough_imp_fills [OF ids cap])
  then show ?thesis unfolding feasible_enough [OF assms] by blast
qed

text \<open>C1: the pick options, computed with the subset test over all sets of slot codes and a cache
  shared by players of equal roles, list every (player, playable role) pair in order with exactly the
  verdict the full analysis of that single pick gives: safe or not, and for which reason.\<close>

theorem pick_options_exact:
  assumes "distinct (map ep_player_id players)" and "distinct (map fst targets)"
    and "\<forall>p \<in> set players. ep_player_id p \<notin> set (map da_player_id assignments)"
  shows "map option_summary (evaluate_pick_options team_id team_ids targets players assignments) =
    map (reference_option team_id team_ids targets players assignments) (player_roles players)"
  by (rule evaluate_pick_options_ref [OF assms])

text \<open>C2: a feasible draft never blocks a team: if the team has an open slot and every pool player
  plays some role, then some pick option of that team is safe.\<close>

theorem safe_option_exists:
  assumes ids: "distinct (map ep_player_id players)" and targets: "distinct (map fst targets)"
    and free: "\<forall>p \<in> set players. ep_player_id p \<notin> set (map da_player_id assignments)"
    and roles: "\<forall>p \<in> set players. finite (ep_playable_roles p) \<and> ep_playable_roles p \<noteq> {}"
    and feasible: "is_feasible (analyze_draft_feasibility team_ids targets players assignments None)"
    and slot: "s \<in> set (open_slots (fst (remaining_capacity team_ids targets assignments)))"
      "ds_team_id s = team_id"
  shows "\<exists>po \<in> set (evaluate_pick_options team_id team_ids targets players assignments). is_safe po"
proof -
  obtain remaining ov where base: "remaining_capacity team_ids targets assignments = (remaining, ov)"
    by fastforce
  have cap: "capacity_ok (ordered_slot_codes targets) remaining"
    by (rule remaining_capacity_ok [OF targets base])
  have av: "available_players players assignments = players"
    unfolding available_players_def using free by (simp add: filter_id_conv)
  have s: "s \<in> set (open_slots remaining)" using slot(1) by (simp add: base)
  have "\<not> ov" and en: "enough (set (ordered_slot_codes targets)) (demand remaining) players"
    using feasible unfolding feasible_enough [OF ids targets base] av by auto
  obtain f where f: "fills f (set (open_slots remaining)) players"
    using enough_imp_fills [OF ids cap en] by blast
  obtain t where t: "t \<in> set (open_slots remaining)" "ds_team_id t = team_id"
    and pref: "ds_slot_code t \<noteq> FLEX_SLOT_CODE \<or>
      (\<forall>u \<in> set (open_slots remaining). ds_team_id u = team_id \<longrightarrow> ds_slot_code u = FLEX_SLOT_CODE)"
    using s slot(2) by blast
  let ?p = "f t"
  have p: "?p \<in> set players" "slot_fits ?p (ds_slot_code t)" using f t(1) by (auto simp: fills_def)
  have flex: "0 \<le> dict_get remaining (team_id, c) 0" for c by (rule capacity_nonneg [OF cap])
  have "\<exists>r \<in> ep_playable_roles ?p. 0 < dict_get remaining (team_id, r) 0 + dict_get remaining (team_id, FLEX_SLOT_CODE) 0 \<and>
      (if 0 < dict_get remaining (team_id, r) 0 then r else FLEX_SLOT_CODE) = ds_slot_code t"
  proof (cases "ds_slot_code t = FLEX_SLOT_CODE")
    case True
    obtain r where r: "r \<in> ep_playable_roles ?p" using roles p(1) by blast
    have "r = FLEX_SLOT_CODE" if "0 < dict_get remaining (team_id, r) 0"
      using capacity_open_slot [OF that] pref True by force
    then show ?thesis
      using r True open_slot_capacity [OF cap t(1)] flex [of r] t(2) by (intro bexI [of _ r]) auto
  next
    case False
    then have "ds_slot_code t \<in> ep_playable_roles ?p" using p(2) by (simp add: slot_fits_def)
    then show ?thesis
      using open_slot_capacity [OF cap t(1)] flex [of FLEX_SLOT_CODE] t(2)
      by (intro bexI [of _ "ds_slot_code t"]) auto
  qed
  then obtain r where r: "r \<in> ep_playable_roles ?p"
    and capr: "0 < dict_get remaining (team_id, r) 0 + dict_get remaining (team_id, FLEX_SLOT_CODE) 0"
    and code: "(if 0 < dict_get remaining (team_id, r) 0 then r else FLEX_SLOT_CODE) = ds_slot_code t"
    by blast
  have "fst (pick_verdict team_id team_ids targets players assignments ?p r)"
    unfolding pick_verdict_enough [OF ids targets base capr] av code
    using enough_after_filled [OF cap f t(1) ids] \<open>\<not> ov\<close> by simp
  then have ref: "fst (snd (snd (reference_option team_id team_ids targets players assignments (?p, r))))"
    using capr by (simp add: reference_option_def base Let_def)
  have "(?p, r) \<in> set (player_roles players)" using p(1) r roles by (auto simp: player_roles_def)
  then have "reference_option team_id team_ids targets players assignments (?p, r) \<in>
      set (map option_summary (evaluate_pick_options team_id team_ids targets players assignments))"
    unfolding evaluate_pick_options_ref [OF ids targets free] by simp
  then show ?thesis using ref by (auto simp: option_summary_def)
qed

text \<open>The state built from a snapshot with distinct player rows and an accepted roster shape
  meets everything the analysis relies on: pool players are distinct, none of them is already on a
  roster, each plays some role, and no slot code repeats.\<close>

theorem build_state_well_formed:
  fixes teams :: "draft_team list" and picks :: "draft_pick list" and rosters :: "(int, player_roster) dict"
  assumes "distinct (map player_row_id players)" and "mk_roster_shape es = Inr shape"
  defines "st \<equiv> build_feasibility_state shape teams players picks rosters"
  shows "distinct (map ep_player_id (fs_players st)) \<and> distinct (map fst (slot_targets st)) \<and>
    (\<forall>p \<in> set (fs_players st). ep_player_id p \<notin> set (map da_player_id (fs_assignments st)) \<and>
      finite (ep_playable_roles p) \<and> ep_playable_roles p \<noteq> {}) \<and>
    (\<forall>a \<in> set (fs_assignments st). \<exists>p \<in> set players.
      player_row_id p = da_player_id a \<and> player_status p = Player_picked \<and>
      drafted_by_team_id p = Some (da_team_id a))"
proof -
  note st = st_def [unfolded build_feasibility_state_def]
  have pool: "\<exists>p \<in> set players. player_row_id p = ep_player_id q \<and> player_status p = Player_available \<and>
      finite (ep_playable_roles q) \<and> ep_playable_roles q \<noteq> {}" if "q \<in> set (fs_players st)" for q
    using that unfolding st by (auto simp: set_map_filter_iff dest!: pool_player_Some)
  have seat: "\<exists>p \<in> set players. player_row_id p = da_player_id a \<and> player_status p = Player_picked \<and>
      drafted_by_team_id p = Some (da_team_id a)" if "a \<in> set (fs_assignments st)" for a
    using that unfolding st by (auto simp: set_map_filter_iff dest!: seat_assignment_Some)
  have same: "p = p'" if "p \<in> set players" "p' \<in> set players" "player_row_id p = player_row_id p'" for p p'
    using that assms(1) by (auto simp: distinct_map inj_on_def)
  have "ep_player_id q \<notin> set (map da_player_id (fs_assignments st))" if q: "q \<in> set (fs_players st)" for q
  proof
    assume "ep_player_id q \<in> set (map da_player_id (fs_assignments st))"
    then obtain a where a: "a \<in> set (fs_assignments st)" "da_player_id a = ep_player_id q" by auto
    obtain p p' where "p \<in> set players" "player_row_id p = ep_player_id q" "player_status p = Player_available"
      "p' \<in> set players" "player_row_id p' = ep_player_id q" "player_status p' = Player_picked"
      using pool [OF q] seat [OF a(1)] a(2) by metis
    then show False using same [of p p'] by simp
  qed
  moreover have "distinct (map ep_player_id (fs_players st))"
    unfolding st feasibility_state.simps
    by (rule distinct_map_filter_keys [OF assms(1)]) (simp add: pool_player_Some)
  moreover have "distinct (map fst (slot_targets st))"
    using assms(2) by (auto simp: st mk_roster_shape_Inr canonical_slots canonical_entries_def)
  ultimately show ?thesis using pool seat by blast
qed

theorem pick_options_exact_witness:
  "map option_summary (evaluate_pick_options 7 [7] [(''tank'', 1), (''flex'', 1)]
      [\<lparr>ep_player_id = 1, ep_playable_roles = {''tank''}\<rparr>, \<lparr>ep_player_id = 2, ep_playable_roles = {''tank''}\<rparr>] []) =
    map (reference_option 7 [7] [(''tank'', 1), (''flex'', 1)]
      [\<lparr>ep_player_id = 1, ep_playable_roles = {''tank''}\<rparr>, \<lparr>ep_player_id = 2, ep_playable_roles = {''tank''}\<rparr>] [])
      (player_roles [\<lparr>ep_player_id = 1, ep_playable_roles = {''tank''}\<rparr>, \<lparr>ep_player_id = 2, ep_playable_roles = {''tank''}\<rparr>])"
  by (rule pick_options_exact) simp_all

theorem feasible_iff_fillable_witness:
  "is_feasible (analyze_draft_feasibility [7] [(''tank'', 1)]
      [\<lparr>ep_player_id = 1, ep_playable_roles = {''tank''}\<rparr>] [] None) \<longleftrightarrow>
    (\<exists>f. fills f (set (open_slots [((7, ''tank''), 1)]))
      (available_players [\<lparr>ep_player_id = 1, ep_playable_roles = {''tank''}\<rparr>] []))"
proof -
  have "remaining_capacity [7] [(''tank'', 1)] [] = ([((7, ''tank''), 1)], False)" by code_simp
  then show ?thesis
    using feasible_iff_fillable [of "[\<lparr>ep_player_id = 1, ep_playable_roles = {''tank''}\<rparr>]" "[(''tank'', 1)]"
        "[7]" "[]" "[((7, ''tank''), 1)]" False] by simp
qed

theorem safe_option_exists_witness:
  "\<exists>po \<in> set (evaluate_pick_options 7 [7] [(''tank'', 1)]
      [\<lparr>ep_player_id = 1, ep_playable_roles = {''tank''}\<rparr>] []). is_safe po"
proof (rule safe_option_exists)
  show "is_feasible (analyze_draft_feasibility [7] [(''tank'', 1)]
      [\<lparr>ep_player_id = 1, ep_playable_roles = {''tank''}\<rparr>] [] None)" by code_simp
  have "open_slots (fst (remaining_capacity [7] [(''tank'', 1)] [])) =
      [\<lparr>ds_team_id = 7, ds_slot_code = ''tank'', ds_ordinal = 0\<rparr>]" by code_simp
  then show "\<lparr>ds_team_id = 7, ds_slot_code = ''tank'', ds_ordinal = 0\<rparr> \<in>
      set (open_slots (fst (remaining_capacity [7] [(''tank'', 1)] [])))" by simp
qed simp_all

theorem build_state_well_formed_witness:
  "distinct (map fst (slot_targets (build_feasibility_state \<lparr>entries = [(''flex'', 2)]\<rparr> []
    [\<lparr>player_row_id = 1, player_session_id = 1, player_status = Player_available,
      drafted_by_team_id = None, captain_role = None, player_version = 0\<rparr>] [] [])))"
proof -
  have "mk_roster_shape [(''flex'', 2)] = Inr \<lparr>entries = [(''flex'', 2)]\<rparr>" by code_simp
  from build_state_well_formed [OF _ this, of "[\<lparr>player_row_id = 1, player_session_id = 1,
      player_status = Player_available, drafted_by_team_id = None, captain_role = None, player_version = 0\<rparr>]"]
  show ?thesis by simp
qed

end
