(* ===== verification/Draft_Rules.thy ===== *)
theory Draft_Rules
  imports Draft_Feasibility "HOL-Library.Word"
begin

text \<open>
  \<open>balancer-service/src/domain/draft/rules.py\<close>: seating validation, the seat order of a
  round, the order of captains with its seeded shuffle (32-bit words), the clock, slot counting, the
  checks of one pick and of an emergency role edit. A rule that raises returns a sum with the error on
  the left; a rule that writes a row returns the row updated. The shuffle computes its index from a float
  that is exact below 2^53, so exactly as the integer division here for fewer than 2^21 captains. Live
  averages are any ordered ring, as only their sign is changed. \<open>team_fit_config\<close> weighs
  floats and is left out.
\<close>

section \<open>Lifecycle and seeding\<close>

datatype draft_error = Api api_error | Key_error

definition DELETABLE_STATUSES :: "draft_status set" where
  "DELETABLE_STATUSES = {Draft_setup, Draft_ready, Draft_completed, Draft_cancelled}"

definition validate_draft_rounds :: "int \<Rightarrow> roster_shape \<Rightarrow> draft_error + unit" where
  "validate_draft_rounds rounds shape =
     (if rounds \<noteq> draft_rounds shape then Inl (Api (err ''invalid_roster_shape'' 422)) else Inr ())"

definition validate_seed_version :: "draft_session \<Rightarrow> int option \<Rightarrow> draft_error + unit" where
  "validate_seed_version session expected =
     (if expected \<noteq> None \<and> session_version session \<noteq> expected
      then Inl (Api (err ''draft_session_stale'' 409)) else Inr ())"

definition bump_seed_version :: "draft_session \<Rightarrow> draft_session" where
  "bump_seed_version session = session\<lparr>session_version :=
     Some ((case session_version session of None \<Rightarrow> 0 | Some v \<Rightarrow> v) + 1)\<rparr>"

text \<open>\<open>f"{code}: {n} open, {m} eligible"\<close> joined with a comma and a space.\<close>

fun join :: "string \<Rightarrow> string list \<Rightarrow> string" where
  "join sep [] = []"
| "join sep [x] = x"
| "join sep (x # xs) = x @ sep @ join sep xs"

definition describe_role_deficits :: "feasibility_report \<Rightarrow> string" where
  "describe_role_deficits rep =
     join '', '' (map (\<lambda>d. sd_slot_code d @ '': '' @ show_nat (sd_unmatched_slots d) @ '' open, '' @
       show_nat (sd_eligible_players d) @ '' eligible'') (slot_deficits rep))"

definition role_shortage_error :: "feasibility_report \<Rightarrow> api_error" where
  "role_shortage_error rep = err ''role_shortage'' 422"

definition unranked_pool_error :: "player_roster list \<Rightarrow> api_error" where
  "unranked_pool_error rosters = err ''draft_pool_unranked'' 422"

definition validate_seat_identities :: "pool_seat list \<Rightarrow> bool \<Rightarrow> draft_error + unit" where
  "validate_seat_identities seats mix =
     (let wrong = (if mix
          then filter (\<lambda>s. seat_registration_id s \<noteq> None \<or> seat_workspace_member_id s = None) seats
          else filter (\<lambda>s. seat_registration_id s = None) seats)
      in if wrong \<noteq> [] then Inl (Api (err ''seat_identity_invalid'' 422)) else Inr ())"

fun validate_captain_roles ::
  "pool_seat list \<Rightarrow> (int, player_roster) dict \<Rightarrow> roster_shape \<Rightarrow> draft_error + unit" where
  "validate_captain_roles [] rosters shape = Inr ()"
| "validate_captain_roles (seat # captains) rosters shape =
     (case seat_captain_role seat of
        None \<Rightarrow> validate_captain_roles captains rosters shape
      | Some r \<Rightarrow>
          (case Option.bind (seat_key seat) (map_of rosters) of
             None \<Rightarrow> Inl Key_error
           | Some roster \<Rightarrow>
               if dict_get (role_slots shape) r 0 < 1 \<or> r \<notin> playable_roles roster
               then Inl (Api (err ''captain_role_invalid'' 422))
               else validate_captain_roles captains rosters shape))"

section \<open>Seat order\<close>

definition weakest_key :: "(int, int) dict \<Rightarrow> draft_team \<Rightarrow> int \<times> int" where
  "weakest_key captain_ranks t = (dict_get captain_ranks (team_row_id t) (- 1), draft_position t)"

definition round_seat_order ::
  "draft_team list \<Rightarrow> draft_format \<Rightarrow> string option list \<Rightarrow> nat \<Rightarrow> (int, int) dict \<Rightarrow> draft_team list" where
  "round_seat_order seats fmt round_rules round_idx captain_ranks =
     (if fmt = Format_snake then (if round_idx mod 2 = 1 then rev seats else seats)
      else if fmt \<noteq> Format_custom then seats
      else
        let rule = (if round_idx < length round_rules then round_rules ! round_idx else None)
        in if rule = Some ''reverse'' then rev seats
           else if rule = Some ''weakest_first'' then sort_key (weakest_key captain_ranks) seats
           else if rule = Some ''strongest_first'' then sort_key_desc (weakest_key captain_ranks) seats
           else seats)"

definition average_seat_order ::
  "draft_team list \<Rightarrow> (int, 'f::linordered_idom) dict \<Rightarrow> (int, int) dict \<Rightarrow> bool \<Rightarrow> bool \<Rightarrow> draft_team list" where
  "average_seat_order seats averages captain_ranks descending tie_reversed =
     (let direction = (if descending then - 1 else 1);
          tie = (if tie_reversed then - 1 else 1)
      in sort_key (\<lambda>t. ((if descending then - 1 else 1) * dict_get averages (team_row_id t) 0,
           tie * direction * dict_get captain_ranks (team_row_id t) (- 1),
           tie * draft_position t)) seats)"

section \<open>The order of captains\<close>

text \<open>\<open>_next\<close>: one step of Mulberry32, the number before its division by 2^32 and the
  new state.\<close>

definition mulberry_next :: "32 word \<Rightarrow> 32 word \<times> 32 word" where
  "mulberry_next state0 =
     (let state = state0 + 0x6D2B79F5;
          t1 = (state XOR drop_bit 15 state) * (state OR 1);
          t2 = t1 XOR (t1 + (t1 XOR drop_bit 7 t1) * (t1 OR 61))
      in (t2 XOR drop_bit 14 t2, state))"

definition shuffle_index :: "32 word \<Rightarrow> nat \<Rightarrow> nat" where
  "shuffle_index u i = unat u * (i + 1) div 2 ^ 32"

fun shuffle_loop :: "nat \<Rightarrow> 32 word \<Rightarrow> 'a list \<Rightarrow> 'a list" where
  "shuffle_loop 0 state ordered = ordered"
| "shuffle_loop (Suc k) state ordered =
     (case mulberry_next state of (u, state') \<Rightarrow>
       let i = Suc k; j = shuffle_index u i
       in shuffle_loop k state' (ordered[i := ordered ! j, j := ordered ! i]))"

definition rank_or :: "int option \<Rightarrow> int" where
  "rank_or r = (case r of None \<Rightarrow> - 1 | Some k \<Rightarrow> k)"

definition order_captain_ids ::
  "(int \<times> int option) list \<Rightarrow> draft_captain_order \<Rightarrow> int option \<Rightarrow> int list" where
  "order_captain_ids es strategy seed =
     (case strategy of
        Order_manual \<Rightarrow> map fst es
      | Order_weakest_first \<Rightarrow> map fst (sort_key (\<lambda>e. (rank_or (snd e), fst e)) es)
      | Order_strongest_first \<Rightarrow> map fst (sort_key (\<lambda>e. (- rank_or (snd e), fst e)) es)
      | Order_random \<Rightarrow>
          shuffle_loop (length es - 1) (word_of_int (case seed of None \<Rightarrow> 0 | Some s \<Rightarrow> s)) (map fst es))"

definition arm_clock :: "draft_pick \<Rightarrow> int \<Rightarrow> int \<Rightarrow> draft_pick" where
  "arm_clock pick pick_time_seconds now =
     pick\<lparr>pick_status := Pick_on_clock, clock_started_at := Some now,
       clock_expires_at := Some (now + pick_time_seconds * 1000000), clock_remaining_ms := None\<rparr>"

section \<open>Slots of one team\<close>

definition resolved_picks_of :: "draft_pick list \<Rightarrow> int \<Rightarrow> (int, draft_pick) dict" where
  "resolved_picks_of picks team_id =
     foldl (\<lambda>d pk. case picked_player_id pk of
         None \<Rightarrow> d
       | Some pid \<Rightarrow>
           if pick_team_id pk = team_id \<and> pick_status pk \<in> {Pick_completed, Pick_autopicked}
           then dict_set pid pk d else d) [] picks"

definition count_player ::
  "(int, draft_pick) dict \<Rightarrow> (string, int) dict \<Rightarrow> int \<Rightarrow> (int, player_roster) dict \<Rightarrow>
    (string, int) dict \<times> int \<Rightarrow> draft_player \<Rightarrow> (string, int) dict \<times> int" where
  "count_player pick_by_player role_targets team_id rosters st p =
     (case st of (counts, taken) \<Rightarrow>
       if drafted_by_team_id p \<noteq> Some team_id \<or> player_status p \<noteq> Player_picked then (counts, taken)
       else
         let code = (case map_of pick_by_player (player_row_id p) of
               Some pk \<Rightarrow> target_role pk
             | None \<Rightarrow> seat_role (map_of rosters (player_row_id p)) (captain_role p))
         in (case code of
               None \<Rightarrow> (counts, taken + 1)
             | Some c \<Rightarrow>
                 if dict_has role_targets c \<and> dict_get counts c 0 < dict_get role_targets c 0
                 then (dict_set c (dict_get counts c 0 + 1) counts, taken + 1)
                 else (counts, taken + 1)))"

definition team_slot_counts ::
  "draft_player list \<Rightarrow> draft_pick list \<Rightarrow> int \<Rightarrow> roster_shape \<Rightarrow> (int, player_roster) dict \<Rightarrow>
    (string, int) dict" where
  "team_slot_counts players picks team_id shape rosters =
     (let role_targets = role_slots shape;
          (counts, taken) = foldl (count_player (resolved_picks_of picks team_id) role_targets team_id rosters)
            (map (\<lambda>(code, n). (code, 0)) (slots shape), 0) players
      in if dict_has counts FLEX_SLOT_CODE
         then dict_set FLEX_SLOT_CODE
           (min (flex_slots shape)
             (max 0 (taken - sum_list (map (\<lambda>(code, n). dict_get counts code 0) role_targets)))) counts
         else counts)"

definition free_flex :: "roster_shape \<Rightarrow> (string, int) dict \<Rightarrow> int" where
  "free_flex shape counts =
     max 0 (dict_get (slots shape) FLEX_SLOT_CODE 0 - dict_get counts FLEX_SLOT_CODE 0)"

definition role_openings :: "roster_shape \<Rightarrow> (string, int) dict \<Rightarrow> string \<Rightarrow> int" where
  "role_openings shape counts r =
     max 0 (dict_get (slots shape) r 0 - dict_get counts r 0) + free_flex shape counts"

section \<open>One pick\<close>

definition pick_conflict :: "draft_pick \<Rightarrow> api_error" where
  "pick_conflict pick =
     (if pick_status pick = Pick_on_clock then err ''draft_pick_stale_version'' 409
      else err ''pick_already_resolved'' 409)"

definition validate_current_pick :: "draft_session \<Rightarrow> draft_pick \<Rightarrow> int \<Rightarrow> api_error + unit" where
  "validate_current_pick session pick expected =
     (if session_status session \<noteq> Draft_live then Inl (err ''draft_not_live'' 409)
      else if Some (pick_id pick) \<noteq> current_pick_id session \<or> pick_status pick \<noteq> Pick_on_clock
      then Inl (err ''pick_not_on_clock'' 409)
      else if pick_version pick \<noteq> expected then Inl (pick_conflict pick)
      else Inr ())"

definition available_player_from :: "draft_snapshot \<Rightarrow> int \<Rightarrow> api_error + draft_player" where
  "available_player_from snapshot pid =
     (case find (\<lambda>p. player_row_id p = pid) (snap_players snapshot) of
        None \<Rightarrow> Inl (err ''player_not_found'' 404)
      | Some p \<Rightarrow>
          if player_status p \<noteq> Player_available then Inl (err ''player_unavailable'' 409) else Inr p)"

text \<open>\<open>requested or lead.role\<close> takes the lead role for an absent or empty request; the
  look-up of the role in \<open>role_openings(...)\<close> answers 0 for a role that is not playable.\<close>

definition resolve_pick_slot ::
  "roster_shape \<Rightarrow> (string, int) dict \<Rightarrow> player_roster option \<Rightarrow> string option \<Rightarrow> api_error + slot_decision" where
  "resolve_pick_slot shape counts roster target =
     (case roster of
        None \<Rightarrow> Inl (err ''player_unranked'' 422)
      | Some p \<Rightarrow>
          if \<not> is_draftable p then Inl (err ''player_unranked'' 422)
          else
            let requested = (if has_role_slots shape then target else None)
            in if \<not> covers p requested then Inl (err ''illegal_role'' 422)
               else (case primary p of
                 None \<Rightarrow> Inl (err ''player_unranked'' 422)
               | Some lead \<Rightarrow>
                   let r = (case requested of None \<Rightarrow> role lead | Some q \<Rightarrow> if q = '''' then role lead else q)
                   in if (if r \<in> playable_roles p then role_openings shape counts r else 0) \<le> 0
                      then Inl (err ''slot_filled'' 422)
                      else Inr \<lparr>sl_role = r, recorded_role = (if has_role_slots shape then Some r else None)\<rparr>))"

definition unsafe_pick_error :: "feasibility_report \<Rightarrow> api_error" where
  "unsafe_pick_error rep = err ''pick_makes_draft_infeasible'' 422"

definition mark_role_shortage_paused ::
  "draft_session \<Rightarrow> draft_pick \<Rightarrow> draft_session \<times> draft_pick \<times> draft_result" where
  "mark_role_shortage_paused session pick =
     (let session' = session\<lparr>session_status := Draft_paused, blocked_reason := Some ''role_shortage''\<rparr>;
          pick' = pick\<lparr>clock_expires_at := None, clock_remaining_ms := Some 0\<rparr>
      in (session', pick', \<lparr>dr_pick = pick', dr_next_pick = None, dr_completed = False,
            dr_blocked_reason = Some ''role_shortage''\<rparr>))"

definition is_on_clock_captain :: "draft_team option \<Rightarrow> int option \<Rightarrow> int set \<Rightarrow> bool" where
  "is_on_clock_captain team actor_auth actor_players \<longleftrightarrow>
     (case team of
        None \<Rightarrow> False
      | Some t \<Rightarrow>
          actor_auth \<noteq> None \<and> captain_auth_user_id t = actor_auth \<or>
          (case captain_user_id t of None \<Rightarrow> False | Some u \<Rightarrow> u \<in> actor_players))"

section \<open>Role edits\<close>

definition EDITABLE_STATUSES :: "draft_status set" where
  "EDITABLE_STATUSES = {Draft_setup, Draft_ready, Draft_paused}"

definition validate_role_edit_request ::
  "draft_session \<Rightarrow> draft_player \<Rightarrow> player_roster option \<Rightarrow> string \<Rightarrow> int \<Rightarrow> string \<Rightarrow> int \<Rightarrow>
    api_error + string" where
  "validate_role_edit_request session player roster new_role rank_value reason expected =
     (if session_status session \<notin> EDITABLE_STATUSES then Inl (err ''role_edit_requires_pause'' 409)
      else if player_session_id player \<noteq> session_id session then Inl (err ''player_not_found'' 404)
      else if player_status player \<noteq> Player_available then Inl (err ''player_not_available'' 409)
      else if player_version player \<noteq> expected then Inl (err ''draft_player_stale'' 409)
      else if (case roster of None \<Rightarrow> False | Some p \<Rightarrow> new_role \<in> playable_roles p)
      then Inl (err ''role_already_exists'' 409)
      else if rank_value \<le> 0 then Inl (err ''role_rank_required'' 409)
      else if strip reason = '''' then Inl (err ''role_edit_reason_required'' 409)
      else Inr (strip reason))"

definition preview_role_addition ::
  "feasibility_state \<Rightarrow> int \<Rightarrow> string \<Rightarrow> api_error + role_edit_preview" where
  "preview_role_addition st pid new_role =
     (let analyze = (\<lambda>ps. analyze_draft_feasibility (fs_team_ids st) (slot_targets st) ps (fs_assignments st) None);
          updated = map (\<lambda>p. if ep_player_id p = pid
            then p\<lparr>ep_playable_roles := insert new_role (ep_playable_roles p)\<rparr> else p) (fs_players st)
      in if \<not> (\<exists>p \<in> set (fs_players st). ep_player_id p = pid) then Inl (err ''player_not_available'' 404)
         else Inr \<lparr>rp_before = analyze (fs_players st), rp_after = analyze updated\<rparr>)"

section \<open>Seat orders\<close>

lemma mset_round_seat_order: "mset (round_seat_order seats fmt rules i ranks) = mset seats"
  by (simp add: round_seat_order_def Let_def)

lemma shuffle_index_le: "shuffle_index u i \<le> i"
proof -
  have "unat u < 2 ^ 32" using unsigned_less [of u] by simp
  then have "unat u * (i + 1) < 2 ^ 32 * (i + 1)" by (intro mult_strict_right_mono) auto
  then show ?thesis unfolding shuffle_index_def by (metis Suc_eq_plus1 less_Suc_eq_le less_mult_imp_div_less mult.commute)
qed

lemma mset_shuffle_loop: "k < length xs \<Longrightarrow> mset (shuffle_loop k st xs) = mset xs"
proof (induction k arbitrary: st xs)
  case (Suc k)
  obtain u st' where n: "mulberry_next st = (u, st')" by fastforce
  let ?j = "shuffle_index u (Suc k)"
  have "?j < length xs" using shuffle_index_le [of u "Suc k"] Suc.prems by simp
  then show ?case using Suc mset_swap [of ?j xs "Suc k"] by (simp add: n Let_def)
qed simp

section \<open>Slot counts and remaining capacity are one rule\<close>

text \<open>The slot a resolved pick or a seat names, and what counting reads instead.\<close>

definition frozen_slot :: "string option \<Rightarrow> string" where
  "frozen_slot r = (case r of None \<Rightarrow> FLEX_SLOT_CODE | Some r \<Rightarrow> if r = '''' then FLEX_SLOT_CODE else r)"

lemma frozen_slot_role:
  "c \<noteq> FLEX_SLOT_CODE \<Longrightarrow> c \<noteq> '''' \<Longrightarrow> frozen_slot r = c \<longleftrightarrow> r = Some c"
  by (auto simp: frozen_slot_def split: option.splits)

abbreviation resolved :: "draft_pick \<Rightarrow> bool" where
  "resolved pk \<equiv> pick_status pk \<in> {Pick_completed, Pick_autopicked}"

lemma pick_lookups_agree:
  assumes "\<forall>pk \<in> set picks. resolved pk \<longrightarrow> picked_player_id pk = Some pid \<longrightarrow> pick_team_id pk = team_id"
  shows "map_of (picked_role_by_player picks) pid =
    map_option (\<lambda>pk. frozen_slot (target_role pk)) (map_of (resolved_picks_of picks team_id) pid)"
  using assms
proof (induction picks rule: rev_induct)
  case (snoc pk picks)
  then have IH: "map_of (picked_role_by_player picks) pid =
      map_option (\<lambda>pk. frozen_slot (target_role pk)) (map_of (resolved_picks_of picks team_id) pid)" by simp
  have steps: "picked_role_by_player (picks @ [pk]) =
      (case picked_player_id pk of None \<Rightarrow> picked_role_by_player picks
       | Some pid \<Rightarrow> if resolved pk then dict_set pid (frozen_slot (target_role pk)) (picked_role_by_player picks)
           else picked_role_by_player picks)"
    "resolved_picks_of (picks @ [pk]) team_id =
      (case picked_player_id pk of None \<Rightarrow> resolved_picks_of picks team_id
       | Some pid \<Rightarrow> if pick_team_id pk = team_id \<and> resolved pk
           then dict_set pid pk (resolved_picks_of picks team_id) else resolved_picks_of picks team_id)"
    unfolding picked_role_by_player_def resolved_picks_of_def frozen_slot_def by simp_all
  show ?case unfolding steps using IH snoc.prems by (auto split: option.splits)
qed (simp add: picked_role_by_player_def resolved_picks_of_def)

definition role_total :: "(string, int) dict \<Rightarrow> (string, int) dict \<Rightarrow> int" where
  "role_total role_targets counts = sum_list (map (\<lambda>(code, n). dict_get counts code 0) role_targets)"

lemma role_total_set:
  assumes "distinct (map fst rt)"
  shows "role_total rt (dict_set c v counts) =
    role_total rt counts + (if c \<in> fst ` set rt then v - dict_get counts c 0 else 0)"
  using assms
proof (induction rt)
  case (Cons e rt)
  then show ?case by (cases e) (force simp: role_total_def)
qed (simp add: role_total_def)

text \<open>The running counts of a team against the capacity it has left.\<close>

definition counts_match ::
  "(string, int) dict \<Rightarrow> int \<Rightarrow> int \<Rightarrow> capacity \<Rightarrow> (string, int) dict \<Rightarrow> int \<Rightarrow> bool" where
  "counts_match rt flex team remaining counts taken \<longleftrightarrow>
     (\<forall>c \<in> fst ` set rt. dict_get remaining (team, c) 0 = dict_get rt c 0 - dict_get counts c 0 \<and>
        dict_get counts c 0 \<le> dict_get rt c 0) \<and>
     (\<forall>c. c \<notin> fst ` set rt \<longrightarrow> c \<noteq> FLEX_SLOT_CODE \<longrightarrow> dict_get remaining (team, c) 0 = 0) \<and>
     role_total rt counts \<le> taken \<and>
     dict_get remaining (team, FLEX_SLOT_CODE) 0 = max 0 (flex - (taken - role_total rt counts))"

lemma counts_match_other_team:
  "counts_match rt flex team remaining counts taken \<Longrightarrow> da_team_id a \<noteq> team \<Longrightarrow>
    counts_match rt flex team (fst (take_slot (remaining, ov) a)) counts taken"
  by (auto simp: take_slot_def Let_def counts_match_def)

lemma counts_match_seat:
  assumes match: "counts_match rt flex team remaining counts taken"
    and rt: "distinct (map fst rt)" "FLEX_SLOT_CODE \<notin> fst ` set rt"
    and a: "da_team_id a = team" and code: "\<And>c. c \<in> fst ` set rt \<Longrightarrow> code = Some c \<longleftrightarrow> da_slot_code a = c"
  shows "counts_match rt flex team (fst (take_slot (remaining, ov) a))
    (case code of None \<Rightarrow> counts | Some c \<Rightarrow>
       if dict_has rt c \<and> dict_get counts c 0 < dict_get rt c 0
       then dict_set c (dict_get counts c 0 + 1) counts else counts)
    (taken + 1)"
proof -
  let ?f = "da_slot_code a"
  note m = match [unfolded counts_match_def]
  show ?thesis
  proof (cases "?f \<in> fst ` set rt \<and> dict_get counts ?f 0 < dict_get rt ?f 0")
    case True
    then have "code = Some ?f" using code by blast
    moreover have "0 < dict_get remaining (team, ?f) 0"
      using bspec [OF conjunct1 [OF m], of ?f] True by auto
    moreover have "?f \<noteq> FLEX_SLOT_CODE" using True rt(2) by metis
    ultimately show ?thesis
      using m True a by (auto simp: take_slot_def Let_def counts_match_def dict_has_iff role_total_set rt(1))
  next
    case False
    have same: "(case code of None \<Rightarrow> counts | Some c \<Rightarrow>
       if dict_has rt c \<and> dict_get counts c 0 < dict_get rt c 0
       then dict_set c (dict_get counts c 0 + 1) counts else counts) = counts"
      using False code by (auto simp: dict_has_iff split: option.splits)
    have "\<not> 0 < dict_get remaining (team, ?f) 0" if "?f \<noteq> FLEX_SLOT_CODE"
      using bspec [OF conjunct1 [OF m], of ?f] m False that by (cases "?f \<in> fst ` set rt") auto
    then have "fst (take_slot (remaining, ov) a) =
        (if 0 < dict_get remaining (team, FLEX_SLOT_CODE) 0
         then dict_set (team, FLEX_SLOT_CODE) (dict_get remaining (team, FLEX_SLOT_CODE) 0 - 1) remaining
         else remaining)"
      using a by (cases "?f = FLEX_SLOT_CODE") (simp_all add: take_slot_def Let_def)
    then show ?thesis unfolding same using m rt(2) by (auto simp: counts_match_def max_def; force)
  qed
qed

text \<open>What the comparison relies on: the resolved picks of the team's players are the team's own,
  and every player the team holds is placed somewhere by the feasibility state.\<close>

definition seats_settled ::
  "roster_shape \<Rightarrow> draft_player list \<Rightarrow> draft_pick list \<Rightarrow> (int, player_roster) dict \<Rightarrow> int \<Rightarrow> bool" where
  "seats_settled shape players picks rosters team \<longleftrightarrow>
     (\<forall>p \<in> set players. drafted_by_team_id p = Some team \<longrightarrow> player_status p = Player_picked \<longrightarrow>
        seat_assignment shape (picked_role_by_player picks) rosters p \<noteq> None \<and>
        (\<forall>pk \<in> set picks. resolved pk \<longrightarrow> picked_player_id pk = Some (player_row_id p) \<longrightarrow> pick_team_id pk = team))"

lemma counts_match_players:
  assumes can: "canonical_entries (entries shape)"
    and settled: "seats_settled shape players picks rosters team"
    and match: "counts_match (role_slots shape) flex team remaining counts taken"
  shows "case foldl (count_player (resolved_picks_of picks team) (role_slots shape) team rosters)
      (counts, taken) players of (counts', taken') \<Rightarrow>
    counts_match (role_slots shape) flex team
      (fst (foldl take_slot (remaining, ov)
        (List.map_filter (seat_assignment shape (picked_role_by_player picks) rosters) players)))
      counts' taken' \<and>
    dict_get counts' FLEX_SLOT_CODE 0 = dict_get counts FLEX_SLOT_CODE 0 \<and>
    (fst ` set (role_slots shape) \<subseteq> fst ` set counts \<longrightarrow> fst ` set counts' = fst ` set counts)"
  using settled match
proof (induction players arbitrary: remaining ov counts taken)
  case (Cons p players)
  let ?rt = "role_slots shape" and ?seat = "seat_assignment shape (picked_role_by_player picks) rosters"
  have rt: "distinct (map fst ?rt)" "FLEX_SLOT_CODE \<notin> fst ` set ?rt" "'''' \<notin> fst ` set ?rt"
    using can unfolding canonical_slots(2) [OF can]
    by (auto simp: canonical_entries_def distinct_map_filter)
  have rest: "seats_settled shape players picks rosters team"
    using Cons.prems(1) by (simp add: seats_settled_def)
  show ?case
  proof (cases "drafted_by_team_id p = Some team \<and> player_status p = Player_picked")
    case True
    then obtain a where a: "?seat p = Some a"
      and own: "\<forall>pk \<in> set picks. resolved pk \<longrightarrow> picked_player_id pk = Some (player_row_id p) \<longrightarrow> pick_team_id pk = team"
      using Cons.prems(1) by (auto simp: seats_settled_def)
    define code where "code = (case map_of (resolved_picks_of picks team) (player_row_id p) of
        Some pk \<Rightarrow> target_role pk
      | None \<Rightarrow> seat_role (map_of rosters (player_row_id p)) (captain_role p))"
    have same: "code = Some c \<longleftrightarrow> da_slot_code a = c" if c: "c \<in> fst ` set ?rt" for c
    proof -
      have has: "has_role_slots shape" using c by (auto simp: has_role_slots_def canonical_slots(2) [OF can])
      have "c \<noteq> FLEX_SLOT_CODE" "c \<noteq> ''''" using rt c by metis+
      note frozen = frozen_slot_role [OF this]
      show ?thesis
      proof (cases "map_of (resolved_picks_of picks team) (player_row_id p)")
        case None
        then show ?thesis
          using a has True by (auto simp: code_def seat_assignment_def pick_lookups_agree [OF own])
      next
        case (Some pk)
        then have "da_slot_code a = frozen_slot (target_role pk)" and "code = target_role pk"
          using a has True by (auto simp: code_def seat_assignment_def pick_lookups_agree [OF own])
        then show ?thesis using frozen by simp
      qed
    qed
    let ?counts = "case code of None \<Rightarrow> counts | Some c \<Rightarrow>
       if dict_has ?rt c \<and> dict_get counts c 0 < dict_get ?rt c 0
       then dict_set c (dict_get counts c 0 + 1) counts else counts"
    have team: "da_team_id a = team" using seat_assignment_Some [OF a] True by simp
    have step: "count_player (resolved_picks_of picks team) ?rt team rosters (counts, taken) p = (?counts, taken + 1)"
      using True by (auto simp: count_player_def code_def Let_def split: option.splits)
    obtain remaining' ov' where take: "take_slot (remaining, ov) a = (remaining', ov')" by fastforce
    have "counts_match ?rt flex team remaining' ?counts (taken + 1)"
      using counts_match_seat [OF Cons.prems(2) rt(1,2) team same, where ov = ov] take by simp
    note IH = Cons.IH [OF rest this, of ov']
    have "dict_get ?counts FLEX_SLOT_CODE 0 = dict_get counts FLEX_SLOT_CODE 0"
      using rt(2) by (auto simp: dict_has_iff split: option.splits)
    moreover have "fst ` set ?rt \<subseteq> fst ` set counts \<Longrightarrow> fst ` set ?counts = fst ` set counts"
      by (auto simp: keys_dict_set dict_has_iff split: option.splits)
    ultimately show ?thesis using IH by (simp add: map_filter_Cons a take step split: prod.splits)
  next
    case False
    have step: "count_player (resolved_picks_of picks team) ?rt team rosters (counts, taken) p = (counts, taken)"
      using False by (auto simp: count_player_def)
    show ?thesis
    proof (cases "?seat p")
      case None
      then show ?thesis using Cons.IH [OF rest Cons.prems(2)] by (simp add: map_filter_Cons step)
    next
      case (Some a)
      obtain remaining' ov' where take: "take_slot (remaining, ov) a = (remaining', ov')" by fastforce
      have "da_team_id a \<noteq> team" using seat_assignment_Some [OF Some] False by auto
      then have "counts_match ?rt flex team remaining' counts taken"
        using counts_match_other_team [OF Cons.prems(2), of a ov] take by simp
      then show ?thesis using Cons.IH [OF rest] by (simp add: map_filter_Cons Some take step)
    qed
  qed
qed (simp add: map_filter_simps)

lemma dict_get_full_capacity:
  assumes "team \<in> set team_ids"
  shows "dict_get (full_capacity team_ids targets) (team, c) 0 =
    (if c \<in> set (ordered_slot_codes targets) then dict_get targets c 0 else 0)"
proof -
  let ?cs = "ordered_slot_codes targets"
  have row: "map_of (map (\<lambda>code. ((t, code), dict_get targets code 0)) cs) (team, c) =
      (if t = team \<and> c \<in> set cs then Some (dict_get targets c 0) else None)" for t cs
    by (induction cs) auto
  have "map_of (concat (map (\<lambda>t. map (\<lambda>code. ((t, code), dict_get targets code 0)) ?cs) ts)) (team, c) =
      (if team \<in> set ts \<and> c \<in> set ?cs then Some (dict_get targets c 0) else None)" for ts
    by (induction ts) (auto simp: row map_add_def)
  then show ?thesis using assms by (simp add: full_capacity_def dict_get_def)
qed

lemma counts_match_start:
  assumes can: "canonical_entries (entries shape)" and team: "team \<in> set team_ids"
  shows "counts_match (role_slots shape) (flex_slots shape) team (full_capacity team_ids (slots shape))
    (map (\<lambda>(code, n). (code, 0)) (slots shape)) 0"
proof -
  let ?es = "entries shape"
  have dist: "distinct (map fst ?es)" and pos: "\<And>code n. (code, n) \<in> set ?es \<Longrightarrow> 1 \<le> n"
    using can by (auto simp: canonical_entries_def)
  have codes: "ordered_slot_codes ?es = map fst ?es"
    unfolding ordered_slot_codes_def using pos by (intro arg_cong [of _ _ "map fst"] filter_True) fastforce
  have zero: "dict_get (map (\<lambda>(code, n). (code, 0)) es) c 0 = (0::int)" for es :: "(string \<times> int) list" and c
    by (induction es) auto
  have role: "dict_get (filter (\<lambda>(code, n). code \<noteq> FLEX_SLOT_CODE) es) c 0 = dict_get es c (0::int)"
    if "c \<noteq> FLEX_SLOT_CODE" for es c using that by (induction es) auto
  have absent: "dict_get es c (0::int) = 0" if "c \<notin> fst ` set es" for es and c :: string
    using that by (simp add: dict_get_def map_of_eq_None_iff [symmetric])
  have "0 \<le> dict_get ?es c 0" for c
    using pos by (auto simp: dict_get_def dest!: map_of_SomeD split: option.splits) force
  then show ?thesis
    using absent [of _ ?es] role [of _ ?es]
    unfolding counts_match_def canonical_slots [OF can] role_total_def dict_get_full_capacity [OF team] codes zero
    by (auto simp: case_prod_unfold)
qed

text \<open>For a team whose players all sit somewhere, counting its filled slots and spending the
  capacity seat by seat are the same rule: every slot code's count is its target less what the
  feasibility analysis still has open, spill into the open slots included.\<close>

theorem slot_counts_match_capacity:
  assumes "mk_roster_shape es = Inr shape" and "team_id \<in> set (map team_row_id teams)"
    and "seats_settled shape players picks rosters team_id"
    and "code \<in> fst ` set es"
  defines "st \<equiv> build_feasibility_state shape teams players picks rosters"
  shows "dict_get (team_slot_counts players picks team_id shape rosters) code 0 =
    dict_get (slots shape) code 0 -
    dict_get (fst (remaining_capacity (fs_team_ids st) (slot_targets st) (fs_assignments st))) (team_id, code) 0"
proof -
  have can: "canonical_entries (entries shape)" and es: "es = entries shape"
    using assms(1) by (auto simp: mk_roster_shape_Inr)
  let ?rt = "role_slots shape" and ?c0 = "map (\<lambda>(code, n). (code, 0 :: int)) (slots shape)"
  let ?rem = "fst (remaining_capacity (fs_team_ids st) (slot_targets st) (fs_assignments st))"
  have team: "team_id \<in> set (fs_team_ids st)" using assms(2) by (simp add: st_def build_feasibility_state_def)
  obtain counts taken where run: "foldl (count_player (resolved_picks_of picks team_id) ?rt team_id rosters)
      (?c0, 0) players = (counts, taken)" by fastforce
  have keys0: "fst ` set ?c0 = fst ` set es" by (force simp: canonical_slots(1) [OF can] es)
  have zero: "dict_get (map (\<lambda>(code, n). (code, 0)) ss) c 0 = (0::int)" for ss :: "(string \<times> int) list" and c
    by (induction ss) auto
  have rt_sub: "fst ` set ?rt \<subseteq> fst ` set ?c0"
    unfolding keys0 canonical_slots(2) [OF can] es by force
  have rem: "?rem = fst (foldl take_slot (full_capacity (fs_team_ids st) (slots shape), False)
      (List.map_filter (seat_assignment shape (picked_role_by_player picks) rosters) players))"
    by (simp add: st_def build_feasibility_state_def remaining_capacity_def)
  have big: "counts_match ?rt (flex_slots shape) team_id ?rem counts taken \<and>
      dict_get counts FLEX_SLOT_CODE 0 = dict_get ?c0 FLEX_SLOT_CODE 0 \<and>
      (fst ` set ?rt \<subseteq> fst ` set ?c0 \<longrightarrow> fst ` set counts = fst ` set ?c0)"
    using counts_match_players [OF can assms(3) counts_match_start [OF can team], of False]
    unfolding run prod.case rem .
  then have match: "counts_match ?rt (flex_slots shape) team_id ?rem counts taken"
    and flex0: "dict_get counts FLEX_SLOT_CODE 0 = 0" and keys: "fst ` set counts = fst ` set es"
    using rt_sub unfolding keys0 zero by blast+
  note m = match [unfolded counts_match_def]
  have tot: "sum_list (map (\<lambda>(code, n). dict_get counts code 0) ?rt) = role_total ?rt counts"
    by (simp add: role_total_def)
  have result: "team_slot_counts players picks team_id shape rosters =
      (if FLEX_SLOT_CODE \<in> fst ` set es
       then dict_set FLEX_SLOT_CODE (min (flex_slots shape) (max 0 (taken - role_total ?rt counts))) counts
       else counts)"
    unfolding team_slot_counts_def Let_def run prod.case tot by (simp add: dict_has_iff keys)
  show ?thesis
  proof (cases "code = FLEX_SLOT_CODE")
    case True
    then show ?thesis using m assms(4) canonical_slots(3) [OF can] by (simp add: result)
  next
    case False
    then have rt: "code \<in> fst ` set ?rt" using assms(4) by (force simp: canonical_slots(2) [OF can] es)
    have "dict_get ?rt code 0 = dict_get (slots shape) code 0"
    proof -
      have "dict_get (filter (\<lambda>(c, n). c \<noteq> FLEX_SLOT_CODE) ss) code 0 = dict_get ss code (0::int)" for ss
        using False by (induction ss) auto
      then show ?thesis unfolding canonical_slots(1,2) [OF can] .
    qed
    then show ?thesis using bspec [OF conjunct1 [OF m] rt] False by (simp add: result)
  qed
qed

theorem slot_counts_match_capacity_witness:
  "dict_get (team_slot_counts [\<lparr>player_row_id = 1, player_session_id = 1, player_status = Player_picked,
      drafted_by_team_id = Some 7, captain_role = None, player_version = 0\<rparr>] [] 7 \<lparr>entries = [(''flex'', 2)]\<rparr> [])
      ''flex'' 0 = 1"
proof -
  let ?p = "\<lparr>player_row_id = 1, player_session_id = 1, player_status = Player_picked,
      drafted_by_team_id = Some 7, captain_role = None, player_version = 0\<rparr>"
  let ?t = "\<lparr>team_row_id = 7, draft_position = 1, captain_auth_user_id = None, captain_user_id = None\<rparr>"
  let ?st = "build_feasibility_state \<lparr>entries = [(''flex'', 2)]\<rparr> [?t] [?p] [] []"
  have 1: "mk_roster_shape [(''flex'', 2)] = Inr \<lparr>entries = [(''flex'', 2)]\<rparr>" by code_simp
  have 2: "seats_settled \<lparr>entries = [(''flex'', 2)]\<rparr> [?p] [] [] 7" by code_simp
  have 3: "dict_get (slots \<lparr>entries = [(''flex'', 2)]\<rparr>) ''flex'' 0 -
      dict_get (fst (remaining_capacity (fs_team_ids ?st) (slot_targets ?st) (fs_assignments ?st))) (7, ''flex'') 0 = 1"
    by code_simp
  have 4: "7 \<in> set (map team_row_id [?t])" and 5: "''flex'' \<in> fst ` set [(''flex'', 2 :: int)]" by simp_all
  show ?thesis using slot_counts_match_capacity [OF 1 4 2 5] 3 by simp
qed

text \<open>The exception to that rule, against the promise of \<open>team_slot_counts\<close>: a seated
  player with no usable role is counted into an open slot, but takes no capacity in the analysis.\<close>

theorem unranked_seat_divergence:
  "\<exists>shape p. has_role_slots shape \<and> player_status p = Player_picked \<and>
    dict_get (team_slot_counts [p] [] 7 shape []) FLEX_SLOT_CODE 0 = 1 \<and>
    dict_get (fst (remaining_capacity [7] (slots shape)
      (fs_assignments (build_feasibility_state shape [] [p] [] [])))) (7, FLEX_SLOT_CODE) 0 = dict_get (slots shape) FLEX_SLOT_CODE 0"
  by (rule exI [of _ "\<lparr>entries = [(''tank'', 1), (''flex'', 2)]\<rparr>"],
      rule exI [of _ "\<lparr>player_row_id = 1, player_session_id = 1, player_status = Player_picked,
        drafted_by_team_id = Some 7, captain_role = None, player_version = 0\<rparr>"]) code_simp

text \<open>In every round, whatever the format and the rule, every team picks exactly once; and a
  strongest-first round is the exact mirror of a weakest-first one, ties included, as long as no two
  teams share a seat.\<close>

theorem round_order_fair:
  assumes "distinct (map draft_position seats)" and "i < length rules" and "j < length rules'"
    and "rules ! i = Some ''weakest_first''" and "rules' ! j = Some ''strongest_first''"
  shows "mset (round_seat_order seats fmt any k ranks) = mset seats \<and>
    round_seat_order seats Format_custom rules' j ranks = rev (round_seat_order seats Format_custom rules i ranks)"
proof -
  have "inj_on (weakest_key ranks) (set seats)"
    using assms(1) by (auto simp: distinct_map inj_on_def weakest_key_def)
  then show ?thesis
    using assms(2-) by (simp add: mset_round_seat_order) (simp add: round_seat_order_def Let_def sort_key_desc_rev)
qed

theorem round_order_fair_witness:
  "let a = \<lparr>team_row_id = 1, draft_position = 1, captain_auth_user_id = None, captain_user_id = None\<rparr>;
       b = \<lparr>team_row_id = 2, draft_position = 2, captain_auth_user_id = None, captain_user_id = None\<rparr>
   in round_seat_order [a, b] Format_custom [Some ''strongest_first''] 0 [(1, 5), (2, 9)] =
      rev (round_seat_order [a, b] Format_custom [Some ''weakest_first''] 0 [(1, 5), (2, 9)])"
  unfolding Let_def by (rule round_order_fair [THEN conjunct2]) simp_all

text \<open>The captain order is always a permutation of the captains (the shuffle index never leaves
  the list); weakest-first is sorted by rank with unranked captains first, strongest-first by falling
  rank, both with ties by id.\<close>

theorem captain_order_permutation:
  "mset (order_captain_ids es strategy seed) = mset (map fst es) \<and>
   (\<exists>es'. mset es' = mset es \<and> order_captain_ids es Order_weakest_first seed = map fst es' \<and>
      sorted (map (\<lambda>e. (rank_or (snd e), fst e)) es')) \<and>
   (\<exists>es'. mset es' = mset es \<and> order_captain_ids es Order_strongest_first seed = map fst es' \<and>
      sorted (map (\<lambda>e. (- rank_or (snd e), fst e)) es'))"
proof (intro conjI)
  have "mset (map fst (sort_key f es)) = mset (map fst es)" for f :: "int \<times> int option \<Rightarrow> int \<times> int"
    by (simp add: mset_map)
  moreover have "mset (shuffle_loop (length es - 1) st (map fst es)) = mset (map fst es)" for st
    by (cases es) (simp_all add: mset_shuffle_loop del: mset_map)
  ultimately show "mset (order_captain_ids es strategy seed) = mset (map fst es)"
    by (cases strategy) (simp_all add: order_captain_ids_def del: mset_map)
next
  show "\<exists>es'. mset es' = mset es \<and> order_captain_ids es Order_weakest_first seed = map fst es' \<and>
      sorted (map (\<lambda>e. (rank_or (snd e), fst e)) es')"
    by (rule exI [of _ "sort_key (\<lambda>e. (rank_or (snd e), fst e)) es"]) (simp add: order_captain_ids_def)
  show "\<exists>es'. mset es' = mset es \<and> order_captain_ids es Order_strongest_first seed = map fst es' \<and>
      sorted (map (\<lambda>e. (- rank_or (snd e), fst e)) es')"
    by (rule exI [of _ "sort_key (\<lambda>e. (- rank_or (snd e), fst e)) es"]) (simp add: order_captain_ids_def)
qed

text \<open>What a pick resolves to: a decision is made exactly for a draftable player who covers the
  requested role and whose role (the request, else the lead role) is one they play with an opening
  left; the role is recorded exactly on a roster with role slots.\<close>

theorem resolve_pick_slot_accepts:
  "resolve_pick_slot shape counts roster target = Inr d \<longleftrightarrow>
    (\<exists>p lead. roster = Some p \<and> primary p = Some lead \<and>
      covers p (if has_role_slots shape then target else None) \<and>
      sl_role d = (if has_role_slots shape \<and> target \<noteq> None \<and> target \<noteq> Some '''' then the target else role lead) \<and>
      sl_role d \<in> playable_roles p \<and> 0 < role_openings shape counts (sl_role d) \<and>
      recorded_role d = (if has_role_slots shape then Some (sl_role d) else None))"
proof (cases roster)
  case None
  then show ?thesis by (simp add: resolve_pick_slot_def)
next
  case (Some p)
  show ?thesis
  proof (cases "primary p")
    case None
    then show ?thesis using Some primary_playable(2) [of p] by (simp add: resolve_pick_slot_def)
  next
    case (Some lead)
    have d: "(Inr \<lparr>sl_role = r, recorded_role = q\<rparr> = (Inr d :: api_error + slot_decision)) \<longleftrightarrow>
        sl_role d = r \<and> recorded_role d = q" for r q by (cases d) auto
    show ?thesis
      using \<open>roster = Some p\<close> Some primary_playable(2) [of p]
      by (cases target) (auto simp: resolve_pick_slot_def Let_def d split: if_splits)
  qed
qed

text \<open>Giving a pool player an emergency role never makes a draft worse: if it was feasible before
  the edit it is feasible after it.\<close>

theorem role_addition_monotone:
  assumes "preview_role_addition st pid new_role = Inr pv"
    and "distinct (map ep_player_id (fs_players st))" and "distinct (map fst (slot_targets st))"
    and "is_feasible (rp_before pv)"
  shows "is_feasible (rp_after pv)"
proof -
  let ?ps = "fs_players st" and ?as = "fs_assignments st"
  let ?upd = "\<lambda>p. if ep_player_id p = pid then p\<lparr>ep_playable_roles := insert new_role (ep_playable_roles p)\<rparr> else p"
  obtain remaining ov where base: "remaining_capacity (fs_team_ids st) (slot_targets st) ?as = (remaining, ov)"
    by fastforce
  have ids: "map ep_player_id (map ?upd ?ps) = map ep_player_id ?ps" by simp
  have av: "available_players (map ?upd ?ps) ?as = map ?upd (available_players ?ps ?as)"
    by (auto simp: available_players_def filter_map o_def intro!: filter_cong arg_cong [of _ _ "map ?upd"])
  have grow: "length (filter (\<lambda>p. \<exists>c\<in>T. slot_fits p c) xs) \<le>
      length (filter (\<lambda>p. \<exists>c\<in>T. slot_fits p c) (map ?upd xs))"
    for T xs by (induction xs) (auto simp: slot_fits_def)
  have mono: "enough C d (available_players ?ps ?as) \<Longrightarrow> enough C d (available_players (map ?upd ?ps) ?as)"
    for C d unfolding enough_def av
    by (intro allI impI, drule spec, drule mp, assumption, erule order_trans) (simp only: of_nat_le_iff grow)
  have before: "rp_before pv = analyze_draft_feasibility (fs_team_ids st) (slot_targets st) ?ps ?as None"
    and after: "rp_after pv = analyze_draft_feasibility (fs_team_ids st) (slot_targets st) (map ?upd ?ps) ?as None"
    using assms(1) by (auto simp: preview_role_addition_def Let_def split: if_splits)
  have ids': "distinct (map ep_player_id (map ?upd ?ps))" unfolding ids by (rule assms(2))
  show ?thesis
    using assms(4) mono unfolding before after feasible_enough [OF assms(2,3) base] feasible_enough [OF ids' assms(3) base]
    by blast
qed

theorem role_addition_monotone_witness:
  "\<exists>pv. preview_role_addition \<lparr>fs_team_ids = [7], slot_targets = [(''tank'', 1)],
      fs_players = [\<lparr>ep_player_id = 1, ep_playable_roles = {''tank''}\<rparr>], fs_assignments = []\<rparr> 1 ''support'' = Inr pv \<and>
    is_feasible (rp_after pv)"
proof -
  let ?st = "\<lparr>fs_team_ids = [7], slot_targets = [(''tank'', 1)],
      fs_players = [\<lparr>ep_player_id = 1, ep_playable_roles = {''tank''}\<rparr>], fs_assignments = []\<rparr>"
  obtain pv where pv: "preview_role_addition ?st 1 ''support'' = Inr pv"
    by (simp add: preview_role_addition_def Let_def)
  have "rp_before pv = analyze_draft_feasibility [7] [(''tank'', 1)]
      [\<lparr>ep_player_id = 1, ep_playable_roles = {''tank''}\<rparr>] [] None"
    using pv by (auto simp: preview_role_addition_def Let_def)
  moreover have "is_feasible (analyze_draft_feasibility [7] [(''tank'', 1)]
      [\<lparr>ep_player_id = 1, ep_playable_roles = {''tank''}\<rparr>] [] None)" by code_simp
  ultimately show ?thesis using pv role_addition_monotone [OF pv] by auto
qed

end
