(* ===== verification/Bracket_Types.thy ===== *)
theory Bracket_Types
  imports Prelude
begin

text \<open>
  The bracket vocabulary of \<open>tournament-service/src/domain/bracket/types.py\<close>, the seeding
  order of \<open>seeding_order.py\<close>, and what a generator has to deliver. Team ids are integers
  (placeholders are negative), match identities (\<open>local_id\<close>) natural numbers. The contract
  counts origins: the teams, and the first and second place of every match; every one of them is used by
  exactly one seat, is still pending, or has dropped out. The locale derives from it what consumers of a
  bracket rely on.
\<close>

section \<open>Pairings, edges, skeletons\<close>

record advancement_edge =
  source_local_id :: nat
  source_position :: nat
  target_local_id :: nat
  target_slot :: nat

record pairing =
  team_ids :: "int option list"
  round_number :: int
  pairing_name :: string
  local_id :: nat
  best_of :: "int option"

definition slot_count :: "pairing \<Rightarrow> nat" where
  "slot_count p = length (team_ids p)"

record bracket_skeleton =
  pairings :: "pairing list"
  total_rounds :: int
  advancement_edges :: "advancement_edge list"
  bye_team_id :: "int option"

definition mk_pairing :: "int option list \<Rightarrow> int \<Rightarrow> string \<Rightarrow> nat \<Rightarrow> pairing" where
  "mk_pairing ids rnd nm lid =
     \<lparr>team_ids = ids, round_number = rnd, pairing_name = nm, local_id = lid, best_of = None\<rparr>"

definition mk_skeleton :: "pairing list \<Rightarrow> int \<Rightarrow> advancement_edge list \<Rightarrow> bracket_skeleton" where
  "mk_skeleton ps rounds es =
     \<lparr>pairings = ps, total_rounds = rounds, advancement_edges = es, bye_team_id = None\<rparr>"

section \<open>The seeding order\<close>

text \<open>Only powers of two are ever passed; the Python function does not return for 0.\<close>

function seeding_order :: "nat \<Rightarrow> nat list" where
  "seeding_order n =
     (if n \<le> 1 then [0]
      else concat (map (\<lambda>seed. [seed, n - 1 - seed]) (seeding_order (n div 2))))"
  by pat_completeness auto

termination seeding_order
  by (relation "measure id") auto

declare seeding_order.simps [simp del]

lemma seeding_order_1 [simp]: "seeding_order 1 = [0]" "seeding_order (Suc 0) = [0]"
  by (simp_all add: seeding_order.simps)

lemma seeding_order_double:
  "seeding_order (2 ^ Suc k) = concat (map (\<lambda>s. [s, 2 ^ Suc k - 1 - s]) (seeding_order (2 ^ k)))"
proof -
  have "1 < (2 :: nat) ^ Suc k" by (rule one_less_power) simp_all
  then show ?thesis by (subst seeding_order.simps) simp
qed

lemma length_concat_pairs: "length (concat (map (\<lambda>s. [f s, g s]) xs)) = 2 * length xs"
  by (induction xs) auto

lemma nth_concat_pairs:
  "i < length xs \<Longrightarrow> concat (map (\<lambda>s. [f s, g s]) xs) ! (2 * i) = f (xs ! i) \<and>
    concat (map (\<lambda>s. [f s, g s]) xs) ! Suc (2 * i) = g (xs ! i)"
proof (induction xs arbitrary: i)
  case (Cons x xs)
  then show ?case by (cases i) auto
qed simp

lemma length_seeding_order [simp]: "length (seeding_order (2 ^ k)) = 2 ^ k"
  by (induction k) (simp_all add: seeding_order_double length_concat_pairs del: power_Suc, simp)

lemma mset_concat_pairs: "mset (concat (map (\<lambda>s. [f s, g s]) xs)) = mset (map f xs) + mset (map g xs)"
  by (induction xs) auto

lemma mset_seeding_order: "mset (seeding_order (2 ^ k)) = mset [0..<2 ^ k]"
proof (induction k)
  case (Suc k)
  let ?n = "2 ^ k :: nat"
  have "mset (seeding_order (2 ^ Suc k)) =
      mset (seeding_order ?n) + image_mset (\<lambda>s. 2 ^ Suc k - 1 - s) (mset (seeding_order ?n))"
    by (simp add: seeding_order_double mset_concat_pairs del: power_Suc)
  also have "\<dots> = mset [0..<?n] + mset (map (\<lambda>s. 2 * ?n - 1 - s) [0..<?n])"
    by (simp add: Suc)
  also have "mset (map (\<lambda>s. 2 * ?n - 1 - s) [0..<?n]) = mset [?n..<2 * ?n]"
  proof -
    have "map (\<lambda>s. 2 * ?n - 1 - s) [0..<?n] = rev [?n..<2 * ?n]"
      by (rule nth_equalityI) (auto simp: rev_nth)
    then show ?thesis by (simp only: mset_rev)
  qed
  also have "mset [0..<?n] + mset [?n..<2 * ?n] = mset [0..<2 ^ Suc k]"
    by (metis le_add2 mset_append mult_2 power_Suc upt_add_eq_append zero_le)
  finally show ?case .
qed simp

lemma seeding_order_protects:
  "j \<le> k \<Longrightarrow> i < 2 ^ j \<Longrightarrow> seeding_order (2 ^ k) ! (i * 2 ^ (k - j)) = seeding_order (2 ^ j) ! i"
proof (induction k)
  case (Suc k)
  show ?case
  proof (cases "j = Suc k")
    case False
    then have j: "j \<le> k" and d: "Suc k - j = Suc (k - j)" using Suc.prems(1) by auto
    have "i * 2 ^ (k - j) < 2 ^ j * 2 ^ (k - j)" using Suc.prems(2) by simp
    then have "i * 2 ^ (k - j) < length (seeding_order (2 ^ k))"
      using j by (simp flip: power_add)
    from nth_concat_pairs [OF this, of "\<lambda>s. s" "\<lambda>s. 2 ^ Suc k - 1 - s"] have "seeding_order (2 ^ Suc k) ! (i * 2 ^ (Suc k - j)) =
        seeding_order (2 ^ k) ! (i * 2 ^ (k - j))"
      unfolding seeding_order_double d by (simp add: mult.left_commute)
    then show ?thesis using Suc.IH [OF j Suc.prems(2)] by simp
  qed simp
qed simp

lemma seeding_order_adjacent:
  assumes "i < 2 ^ k"
  shows "seeding_order (2 ^ Suc k) ! (2 * i) + seeding_order (2 ^ Suc k) ! Suc (2 * i) = 2 ^ Suc k - 1"
proof -
  let ?s = "seeding_order (2 ^ k) ! i"
  have "?s \<in> set (seeding_order (2 ^ k))" using assms by simp
  then have "?s \<in> set [0..<2 ^ k]" using mset_seeding_order [of k] by (metis set_mset_mset)
  moreover have "i < length (seeding_order (2 ^ k))" using assms by simp
  note nth_concat_pairs [OF this, of "\<lambda>s. s" "\<lambda>s. 2 ^ Suc k - 1 - s"]
  ultimately show ?thesis unfolding seeding_order_double by (simp add: le_add_diff_inverse)
qed

text \<open>The seeding order is a permutation of the seeds, the two seeds of a first-round match add
  up to \<open>size - 1\<close>, and the top \<open>2 ^ j\<close> seeds open the \<open>2 ^ j\<close> equal blocks of
  the bracket in the order of the smaller bracket: no two of them can meet before only they could be left.\<close>

theorem seeding_order_fair:
  assumes "j \<le> k" and "i < 2 ^ k"
  shows "mset (seeding_order (2 ^ Suc k)) = mset [0..<2 ^ Suc k] \<and>
    seeding_order (2 ^ Suc k) ! (2 * i) + seeding_order (2 ^ Suc k) ! Suc (2 * i) = 2 ^ Suc k - 1 \<and>
    map (\<lambda>b. seeding_order (2 ^ k) ! (b * 2 ^ (k - j))) [0..<2 ^ j] = seeding_order (2 ^ j)"
  by (intro conjI mset_seeding_order seeding_order_adjacent [OF assms(2)] nth_equalityI)
    (simp_all add: seeding_order_protects [OF assms(1)])

theorem seeding_order_fair_witness:
  "mset (seeding_order (2 ^ Suc 2)) = mset [0..<2 ^ Suc 2] \<and>
   seeding_order (2 ^ Suc 2) ! (2 * 3) + seeding_order (2 ^ Suc 2) ! Suc (2 * 3) = 2 ^ Suc 2 - 1 \<and>
   map (\<lambda>b. seeding_order (2 ^ 2) ! (b * 2 ^ (2 - 1))) [0..<2 ^ 1] = seeding_order (2 ^ 1)"
  by (rule seeding_order_fair) simp_all

section \<open>Where every team and every result goes\<close>

datatype origin = TEAM int | WINNER nat | LOSER nat

definition edge_origin :: "advancement_edge \<Rightarrow> origin" where
  "edge_origin e = (if source_position e = 1 then WINNER (source_local_id e) else LOSER (source_local_id e))"

definition seeded_teams :: "pairing list \<Rightarrow> int list" where
  "seeded_teams ps = concat (map (\<lambda>p. List.map_filter (\<lambda>x. x) (team_ids p)) ps)"

definition open_seats :: "pairing list \<Rightarrow> (nat \<times> nat) list" where
  "open_seats ps = concat (map (\<lambda>p. map (\<lambda>i. (local_id p, Suc i))
     (filter (\<lambda>i. team_ids p ! i = None) [0..<length (team_ids p)])) ps)"

definition used_origins :: "pairing list \<Rightarrow> advancement_edge list \<Rightarrow> origin multiset" where
  "used_origins ps es = mset (map TEAM (seeded_teams ps)) + mset (map edge_origin es)"

definition all_origins :: "int list \<Rightarrow> nat \<Rightarrow> origin multiset" where
  "all_origins teams n = mset (map TEAM teams) + mset (map WINNER [0..<n]) + mset (map LOSER [0..<n])"

text \<open>
  \<open>bracket_inv teams ps es n pending d\<close>: \<open>n\<close> matches so far, numbered in order, two
  seats each, one edge per seat without a team and none for a seeded one, edges leading forward; and of
  all origins each is used by one seat, or pending, or one of \<open>d\<close> losers that are out.
\<close>

definition bracket_inv ::
  "int list \<Rightarrow> pairing list \<Rightarrow> advancement_edge list \<Rightarrow> nat \<Rightarrow> origin multiset \<Rightarrow> nat \<Rightarrow> bool" where
  "bracket_inv teams ps es n pending d \<longleftrightarrow>
     map local_id ps = [0..<n] \<and> (\<forall>p \<in> set ps. length (team_ids p) = 2) \<and>
     map (\<lambda>e. (target_local_id e, target_slot e)) es = open_seats ps \<and>
     (\<forall>e \<in> set es. source_position e \<in> {1, 2} \<and> source_local_id e < target_local_id e \<and>
        target_local_id e < n) \<and>
     (\<exists>out. size out = d \<and> (\<forall>x \<in># out. \<exists>l. x = LOSER l) \<and>
        used_origins ps es + pending + out = all_origins teams n)"

definition origin_team :: "origin \<Rightarrow> int option" where
  "origin_team x = (case x of TEAM t \<Rightarrow> Some t | WINNER l \<Rightarrow> None | LOSER l \<Rightarrow> None)"

definition origin_edges :: "origin \<Rightarrow> nat \<Rightarrow> nat \<Rightarrow> advancement_edge list" where
  "origin_edges x target slot =
     (case x of
        TEAM t \<Rightarrow> []
      | WINNER l \<Rightarrow> [\<lparr>source_local_id = l, source_position = 1, target_local_id = target, target_slot = slot\<rparr>]
      | LOSER l \<Rightarrow> [\<lparr>source_local_id = l, source_position = 2, target_local_id = target, target_slot = slot\<rparr>])"

lemma all_origins_Suc:
  "all_origins teams (Suc n) = all_origins teams n + {#WINNER n#} + {#LOSER n#}"
  by (simp add: all_origins_def)

lemma all_origins_below:
  "WINNER l \<in># all_origins teams n \<Longrightarrow> l < n" "LOSER l \<in># all_origins teams n \<Longrightarrow> l < n"
  by (auto simp: all_origins_def)

lemma bracket_inv_start: "bracket_inv teams [] [] 0 (mset (map TEAM teams)) 0"
  by (simp add: bracket_inv_def open_seats_def used_origins_def seeded_teams_def all_origins_def)

text \<open>Playing a match between two pending origins.\<close>

lemma bracket_inv_match:
  assumes inv: "bracket_inv teams ps es n (rest + {#a#} + {#b#}) d"
  shows "bracket_inv teams (ps @ [mk_pairing [origin_team a, origin_team b] r nm n])
    (es @ origin_edges a n 1 @ origin_edges b n 2) (Suc n) (rest + {#WINNER n#} + {#LOSER n#}) d"
proof -
  obtain out where out: "size out = d" "\<forall>x \<in># out. \<exists>l. x = LOSER l"
    and eq: "used_origins ps es + (rest + {#a#} + {#b#}) + out = all_origins teams n"
    using inv by (auto simp: bracket_inv_def)
  have "a \<in># all_origins teams n" "b \<in># all_origins teams n" unfolding eq [symmetric] by simp_all
  then have below: "\<And>l. a = WINNER l \<or> a = LOSER l \<Longrightarrow> l < n" "\<And>l. b = WINNER l \<or> b = LOSER l \<Longrightarrow> l < n"
    using all_origins_below by blast+
  let ?ps = "ps @ [mk_pairing [origin_team a, origin_team b] r nm n]"
  let ?es = "es @ origin_edges a n 1 @ origin_edges b n 2"
  have "used_origins ?ps ?es = used_origins ps es + {#a#} + {#b#}"
    by (cases a; cases b) (simp_all add: used_origins_def seeded_teams_def mk_pairing_def origin_team_def
        origin_edges_def edge_origin_def map_filter_simps)
  then have "used_origins ?ps ?es + (rest + {#WINNER n#} + {#LOSER n#}) + out = all_origins teams (Suc n)"
    unfolding all_origins_Suc eq [symmetric] by (simp add: ac_simps)
  moreover have "open_seats ?ps = open_seats ps @
      (if origin_team a = None then [(n, 1)] else []) @ (if origin_team b = None then [(n, 2)] else [])"
    by (simp add: open_seats_def mk_pairing_def numeral_2_eq_2)
  moreover have "map (\<lambda>e. (target_local_id e, target_slot e)) ?es =
      map (\<lambda>e. (target_local_id e, target_slot e)) es @
      (if origin_team a = None then [(n, 1)] else []) @ (if origin_team b = None then [(n, 2)] else [])"
    by (cases a; cases b) (simp_all add: origin_edges_def origin_team_def)
  moreover have "source_position e \<in> {1, 2} \<and> source_local_id e < target_local_id e \<and> target_local_id e < Suc n"
    if "e \<in> set ?es" for e
  proof (cases "e \<in> set es")
    case True
    then show ?thesis using inv by (auto simp: bracket_inv_def)
  next
    case False
    then show ?thesis using that below
      by (cases a; cases b) (auto simp: origin_edges_def)
  qed
  ultimately show ?thesis
    using inv out unfolding bracket_inv_def by (auto simp: mk_pairing_def)
qed

lemma bracket_inv_drop:
  "bracket_inv teams ps es n (rest + {#LOSER l#}) d \<Longrightarrow> bracket_inv teams ps es n rest (Suc d)"
  unfolding bracket_inv_def
  by (elim conjE exE, intro conjI, assumption+, rule_tac x = "add_mset (LOSER l) out" in exI)
    (auto simp: ac_simps)

text \<open>Two seats per match are two origins used per match.\<close>

lemma seats_filled_or_open:
  "(\<forall>p \<in> set ps. length (team_ids p) = 2) \<Longrightarrow>
    length (seeded_teams ps) + length (open_seats ps) = 2 * length ps"
proof (induction ps)
  case (Cons p ps)
  obtain x y where "team_ids p = [x, y]" using Cons.prems
    by (metis length_0_conv length_Suc_conv list.set_intros(1) numeral_2_eq_2)
  then show ?case
    using Cons by (cases x; cases y) (simp_all add: seeded_teams_def open_seats_def map_filter_simps)
qed (simp add: seeded_teams_def open_seats_def)

lemma bracket_inv_count:
  assumes "bracket_inv teams ps es n pending d"
  shows "length ps = n" and "size pending + d = length teams"
proof -
  have ids: "map local_id ps = [0..<n]" using assms by (simp add: bracket_inv_def)
  then show len: "length ps = n" by (metis length_map length_upt minus_nat.diff_0)
  obtain out where "size out = d" and eq: "used_origins ps es + pending + out = all_origins teams n"
    using assms by (auto simp: bracket_inv_def)
  have "length es = length (open_seats ps)"
    using assms unfolding bracket_inv_def by (metis length_map)
  then have "size (used_origins ps es) = 2 * n"
    using seats_filled_or_open [of ps] assms len by (simp add: used_origins_def bracket_inv_def)
  moreover have "size (all_origins teams n) = length teams + 2 * n" by (simp add: all_origins_def)
  ultimately show "size pending + d = length teams"
    using arg_cong [OF eq, of size] \<open>size out = d\<close> by simp
qed

section \<open>The contract of a knockout generator\<close>

definition sound_bracket :: "int list \<Rightarrow> bracket_skeleton \<Rightarrow> bool" where
  "sound_bracket teams sk \<longleftrightarrow>
     (let n = length (pairings sk) in 0 < n \<and>
        (\<exists>d. bracket_inv teams (pairings sk) (advancement_edges sk) n {#WINNER (n - 1), LOSER (n - 1)#} d))"

lemma map_filter_TEAM: "{#x \<in># mset (map TEAM ts). \<exists>t. x = TEAM t#} = mset (map TEAM ts)"
  by (induction ts) auto

lemma bracket_inv_unfold:
  assumes "sound_bracket teams sk"
  defines "n \<equiv> length (pairings sk)"
  obtains out where "\<forall>x \<in># out. \<exists>l. x = LOSER l"
    and "mset (map TEAM (seeded_teams (pairings sk))) + mset (map edge_origin (advancement_edges sk)) +
      {#WINNER (n - 1), LOSER (n - 1)#} + out = all_origins teams n"
  using assms unfolding sound_bracket_def bracket_inv_def used_origins_def Let_def by blast

lemma no_TEAM_edge: "TEAM t \<notin># mset (map edge_origin es)"
  by (auto simp: edge_origin_def)

lemma count_map_inj: "count (mset (map WINNER ls)) (WINNER l) = count (mset ls) l"
  "count (mset (map LOSER ls)) (LOSER l) = count (mset ls) l"
  "count (mset (map TEAM ts)) (TEAM t) = count (mset ts) t"
  "count (mset (map WINNER ls)) (LOSER l) = 0" "count (mset (map WINNER ls)) (TEAM t) = 0"
  "count (mset (map LOSER ls)) (WINNER l) = 0" "count (mset (map LOSER ls)) (TEAM t) = 0"
  "count (mset (map TEAM ts)) (WINNER l) = 0" "count (mset (map TEAM ts)) (LOSER l) = 0"
proof -
  show "count (mset (map WINNER ls)) (WINNER l) = count (mset ls) l" by (induction ls) auto
  show "count (mset (map LOSER ls)) (LOSER l) = count (mset ls) l" by (induction ls) auto
  show "count (mset (map TEAM ts)) (TEAM t) = count (mset ts) t" by (induction ts) auto
  show "count (mset (map WINNER ls)) (LOSER l) = 0" by (induction ls) auto
  show "count (mset (map WINNER ls)) (TEAM t) = 0" by (induction ls) auto
  show "count (mset (map LOSER ls)) (WINNER l) = 0" by (induction ls) auto
  show "count (mset (map LOSER ls)) (TEAM t) = 0" by (induction ls) auto
  show "count (mset (map TEAM ts)) (WINNER l) = 0" by (induction ts) auto
  show "count (mset (map TEAM ts)) (LOSER l) = 0" by (induction ts) auto
qed

lemma count_edge_origin:
  "count (mset (map edge_origin es)) (WINNER l) =
    length (filter (\<lambda>e. source_local_id e = l \<and> source_position e = 1) es)"
  "count (mset (map edge_origin es)) (TEAM t) = 0"
  by (induction es) (auto simp: edge_origin_def)

lemma count_upt: "count (mset [0..<n]) i = (if i < n then 1 else 0)"
  by (induction n) auto

lemma sound_seeded_once:
  assumes "sound_bracket teams sk"
  shows "mset (seeded_teams (pairings sk)) = mset teams"
proof (rule multiset_eqI)
  fix t
  obtain out where out: "\<forall>x \<in># out. \<exists>l. x = LOSER l"
    and eq: "mset (map TEAM (seeded_teams (pairings sk))) + mset (map edge_origin (advancement_edges sk)) +
      {#WINNER (length (pairings sk) - 1), LOSER (length (pairings sk) - 1)#} + out =
      all_origins teams (length (pairings sk))"
    by (rule bracket_inv_unfold [OF assms])
  have "count out (TEAM t) = 0" using out by (metis not_in_iff origin.distinct(3))
  then show "count (mset (seeded_teams (pairings sk))) t = count (mset teams) t"
    using arg_cong [OF eq, of "\<lambda>M. count M (TEAM t)"]
    by (simp add: all_origins_def count_map_inj count_edge_origin del: mset_map)
qed

lemma sound_winner_advances:
  assumes "sound_bracket teams sk"
  shows "length (filter (\<lambda>e. source_local_id e = l \<and> source_position e = 1) (advancement_edges sk)) =
    (if l < length (pairings sk) - 1 then 1 else 0)"
proof -
  obtain out where out: "\<forall>x \<in># out. \<exists>l. x = LOSER l"
    and eq: "mset (map TEAM (seeded_teams (pairings sk))) + mset (map edge_origin (advancement_edges sk)) +
      {#WINNER (length (pairings sk) - 1), LOSER (length (pairings sk) - 1)#} + out =
      all_origins teams (length (pairings sk))"
    by (rule bracket_inv_unfold [OF assms])
  have "0 < length (pairings sk)" using assms by (simp add: sound_bracket_def Let_def)
  moreover have "count out (WINNER l) = 0" using out by (metis not_in_iff origin.distinct(5))
  ultimately show ?thesis
    using arg_cong [OF eq, of "\<lambda>M. count M (WINNER l)"]
    by (auto simp: all_origins_def count_map_inj count_edge_origin count_upt simp del: mset_map mset_upt
        split: if_splits)
qed

lemma distinct_open_seats: "distinct (map local_id ps) \<Longrightarrow> distinct (open_seats ps)"
proof (induction ps)
  case (Cons p ps)
  have "fst ` set (open_seats ps) \<subseteq> local_id ` set ps" by (force simp: open_seats_def)
  then have "(local_id p, k) \<notin> set (open_seats ps)" for k using Cons.prems by force
  moreover have "open_seats (p # ps) = map (\<lambda>i. (local_id p, Suc i))
      (filter (\<lambda>i. team_ids p ! i = None) [0..<length (team_ids p)]) @ open_seats ps"
    by (simp add: open_seats_def)
  ultimately show ?case using Cons by (auto simp: distinct_map inj_on_def)
qed (simp add: open_seats_def)

lemma sound_seat_fed:
  assumes "sound_bracket teams sk"
    and "p \<in> set (pairings sk)" and "k < length (team_ids p)" and "team_ids p ! k = None"
  shows "length (filter (\<lambda>e. (target_local_id e, target_slot e) = (local_id p, Suc k)) (advancement_edges sk)) = 1"
proof -
  have ids: "map local_id (pairings sk) = [0..<length (pairings sk)]"
    and seats: "map (\<lambda>e. (target_local_id e, target_slot e)) (advancement_edges sk) = open_seats (pairings sk)"
    using assms(1) by (auto simp: sound_bracket_def Let_def bracket_inv_def)
  have "distinct (open_seats (pairings sk))" by (rule distinct_open_seats) (simp add: ids)
  moreover have "(local_id p, Suc k) \<in> set (open_seats (pairings sk))"
    using assms(2-4) by (force simp: open_seats_def)
  ultimately have "length (filter (\<lambda>x. x = (local_id p, Suc k)) (open_seats (pairings sk))) = 1"
    by (simp add: distinct_filter_eq)
  then show ?thesis unfolding seats [symmetric] by (simp add: filter_map o_def)
qed

locale bracket_generator =
  fixes gen :: "'i \<Rightarrow> bracket_skeleton" and teams :: "'i \<Rightarrow> int list" and legal :: "'i \<Rightarrow> bool"
  assumes legal_distinct: "legal i \<Longrightarrow> distinct (teams i)"
    and sound: "legal i \<Longrightarrow> sound_bracket (teams i) (gen i)"
begin

lemma everyone_seeded_once: "legal i \<Longrightarrow> distinct (seeded_teams (pairings (gen i))) \<and>
    set (seeded_teams (pairings (gen i))) = set (teams i)"
  using sound_seeded_once [OF sound] legal_distinct by (metis mset_eq_imp_distinct_iff set_mset_mset)

lemma winner_advances_once:
  "legal i \<Longrightarrow> l < length (pairings (gen i)) - 1 \<Longrightarrow>
    \<exists>!e. e \<in> set (advancement_edges (gen i)) \<and> source_local_id e = l \<and> source_position e = 1"
proof -
  assume "legal i" "l < length (pairings (gen i)) - 1"
  then have "length (filter (\<lambda>e. source_local_id e = l \<and> source_position e = 1) (advancement_edges (gen i))) = 1"
    using sound_winner_advances [OF sound] by simp
  from ex1_filter [OF this] show ?thesis by simp
qed

lemma open_seat_fed_once:
  "legal i \<Longrightarrow> p \<in> set (pairings (gen i)) \<Longrightarrow> k < length (team_ids p) \<Longrightarrow> team_ids p ! k = None \<Longrightarrow>
    \<exists>!e. e \<in> set (advancement_edges (gen i)) \<and> target_local_id e = local_id p \<and> target_slot e = Suc k"
proof -
  assume legal: "legal i" and p: "p \<in> set (pairings (gen i))" "k < length (team_ids p)" "team_ids p ! k = None"
  have "length (filter (\<lambda>e. (target_local_id e, target_slot e) = (local_id p, Suc k)) (advancement_edges (gen i))) = 1"
    by (rule sound_seat_fed [OF sound [OF legal] p])
  from ex1_filter [OF this] show ?thesis by simp
qed

lemma edges_lead_forward:
  "legal i \<Longrightarrow> e \<in> set (advancement_edges (gen i)) \<Longrightarrow>
    source_local_id e < target_local_id e \<and> target_local_id e < length (pairings (gen i))"
  using sound [of i] by (auto simp: sound_bracket_def Let_def bracket_inv_def)

end

end
