(* ===== verification/Bracket_Elimination.thy ===== *)
theory Bracket_Elimination
  imports Bracket_Types
begin

text \<open>
  The knockout generators \<open>single_elimination.py\<close> and \<open>double_elimination.py\<close> of
  \<open>tournament-service/src/domain/bracket\<close>, loop by loop, and the proof that both meet the
  contract of theory \<open>Bracket_Types\<close>. The bracket size comes from \<open>math.log2\<close>
  and \<open>math.ceil\<close>, exact for every field that fits in memory; it is computed here on natural
  numbers. \<open>next_local_id\<close> is part of the state.
\<close>

text \<open>\<open>math.ceil(math.log2(n))\<close> for \<open>n \<ge> 1\<close>.\<close>

fun ceil_log2 :: "nat \<Rightarrow> nat" where
  "ceil_log2 n = (if n \<le> 1 then 0 else Suc (ceil_log2 ((n + 1) div 2)))"

declare ceil_log2.simps [simp del]

lemma ceil_log2_upper: "n \<le> 2 ^ ceil_log2 n"
proof (induction n rule: ceil_log2.induct)
  case (1 n)
  show ?case
  proof (cases "n \<le> 1")
    case False
    then have "(n + 1) div 2 \<le> 2 ^ ceil_log2 ((n + 1) div 2)" using 1 by simp
    then show ?thesis using False by (subst ceil_log2.simps) simp
  qed (simp add: ceil_log2.simps)
qed

lemma ceil_log2_least: "1 \<le> n \<Longrightarrow> 2 ^ ceil_log2 n < 2 * n"
proof (induction n rule: ceil_log2.induct)
  case (1 n)
  consider "n = 1" | "n = 2" | "3 \<le> n" using 1 by linarith
  then show ?case
  proof cases
    case 3
    let ?m = "(n + 1) div 2"
    have "2 ^ ceil_log2 ?m < 2 * ?m" using 1 3 by simp
    moreover have "even ((2 :: nat) ^ ceil_log2 ?m)"
      using 3 by (subst ceil_log2.simps) simp
    ultimately have "2 ^ ceil_log2 ?m < n" by presburger
    then show ?thesis using 3 by (subst ceil_log2.simps) simp
  qed (simp_all add: ceil_log2.simps)
qed

fun adjacent_pairs :: "'a list \<Rightarrow> ('a \<times> 'a) list" where
  "adjacent_pairs (x # y # rest) = (x, y) # adjacent_pairs rest"
| "adjacent_pairs _ = []"

section \<open>Single elimination\<close>

text \<open>A slot between rounds: \<open>(match_local_id, autoadvance_team)\<close>.\<close>

type_synonym se_slot = "nat option \<times> int option"

definition se_label :: "nat \<Rightarrow> nat \<Rightarrow> nat \<Rightarrow> string" where
  "se_label rounds round_num match_idx =
     (if rounds = round_num then ''Grand Final''
      else if rounds = round_num + 1 then ''Semifinal '' @ show_nat match_idx
      else if rounds = round_num + 2 then ''Quarterfinal '' @ show_nat match_idx
      else ''R'' @ show_nat round_num @ '' Match '' @ show_nat match_idx)"

text \<open>One position of round 1; the state holds pairings, \<open>next_local_id\<close>, the match counter
  of the round and the slots it passes on.\<close>

definition se_first_step ::
  "nat \<Rightarrow> pairing list \<times> nat \<times> nat \<times> se_slot list \<Rightarrow> int option \<times> int option \<Rightarrow>
    pairing list \<times> nat \<times> nat \<times> se_slot list" where
  "se_first_step rounds st pos =
     (case st of (ps, n, c, out) \<Rightarrow>
      case pos of
        (Some t, Some u) \<Rightarrow>
          (ps @ [mk_pairing [Some t, Some u] 1 (se_label rounds 1 (c + 1)) n], n + 1, c + 1, out @ [(Some n, None)])
      | (Some t, None) \<Rightarrow> (ps, n, c, out @ [(None, Some t)])
      | (None, Some u) \<Rightarrow> (ps, n, c, out @ [(None, Some u)])
      | (None, None) \<Rightarrow> (ps, n, c, out @ [(None, None)]))"

definition se_edge :: "nat option \<Rightarrow> nat \<Rightarrow> nat \<Rightarrow> advancement_edge list" where
  "se_edge source target slot =
     (case source of
        None \<Rightarrow> []
      | Some l \<Rightarrow> [\<lparr>source_local_id = l, source_position = 1, target_local_id = target, target_slot = slot\<rparr>])"

definition se_next_step ::
  "nat \<Rightarrow> nat \<Rightarrow> pairing list \<times> advancement_edge list \<times> nat \<times> nat \<times> se_slot list \<Rightarrow> se_slot \<times> se_slot \<Rightarrow>
    pairing list \<times> advancement_edge list \<times> nat \<times> nat \<times> se_slot list" where
  "se_next_step rounds round_num st pos =
     (case (st, pos) of ((ps, es, n, c, out), ((a_local, a_team), (b_local, b_team))) \<Rightarrow>
       let a_present = (a_local \<noteq> None \<or> a_team \<noteq> None);
           b_present = (b_local \<noteq> None \<or> b_team \<noteq> None)
       in if a_present \<and> b_present then
            (ps @ [mk_pairing [a_team, b_team] (int round_num) (se_label rounds round_num (c + 1)) n],
             es @ se_edge a_local n 1 @ se_edge b_local n 2, n + 1, c + 1, out @ [(Some n, None)])
          else if a_present then (ps, es, n, c, out @ [(a_local, a_team)])
          else if b_present then (ps, es, n, c, out @ [(b_local, b_team)])
          else (ps, es, n, c, out @ [(None, None)]))"

definition se_round ::
  "nat \<Rightarrow> pairing list \<times> advancement_edge list \<times> nat \<times> se_slot list \<Rightarrow> nat \<Rightarrow>
    pairing list \<times> advancement_edge list \<times> nat \<times> se_slot list" where
  "se_round rounds st round_num =
     (case st of (ps, es, n, prev) \<Rightarrow>
      case foldl (se_next_step rounds round_num) (ps, es, n, 0, []) (adjacent_pairs prev) of
        (ps', es', n', c, out) \<Rightarrow> (ps', es', n', out))"

definition seed_to_team :: "int list \<Rightarrow> nat \<Rightarrow> int option" where
  "seed_to_team ids seed = (if seed < length ids then Some (ids ! seed) else None)"

definition se_generate :: "int list \<Rightarrow> bracket_skeleton" where
  "se_generate ids =
     (if length ids < 2 then mk_skeleton [] 0 []
      else
        let rounds = ceil_log2 (length ids);
            positions = map (seed_to_team ids) (seeding_order (2 ^ rounds));
            (ps, n, c, slots) = foldl (se_first_step rounds) ([], 0, 0, []) (adjacent_pairs positions);
            (ps', es, n', slots') = foldl (se_round rounds) (ps, [], n, slots) [2..<rounds + 1]
        in mk_skeleton ps' (int rounds) es)"

section \<open>Double elimination\<close>

text \<open>\<open>origin\<close> stands for the pairs \<open>(source, value)\<close> with the tags
  \<open>_TEAM\<close>, \<open>_WINNER\<close> and \<open>_LOSER\<close>. The state of the closures
  is \<open>(pairings, edges, next_local_id)\<close>.\<close>

type_synonym de_state = "pairing list \<times> advancement_edge list \<times> nat"

definition seat_team :: "origin option \<Rightarrow> int option" where
  "seat_team x = Option.bind x origin_team"

definition seat_edges :: "origin option \<Rightarrow> nat \<Rightarrow> nat \<Rightarrow> advancement_edge list" where
  "seat_edges x target slot = (case x of None \<Rightarrow> [] | Some y \<Rightarrow> origin_edges y target slot)"

definition de_play ::
  "origin option \<Rightarrow> origin option \<Rightarrow> int \<Rightarrow> string \<Rightarrow> bool \<Rightarrow> de_state \<Rightarrow>
    (origin option \<times> origin option) \<times> de_state" where
  "de_play first second rnd label force st =
     (case st of (ps, es, n) \<Rightarrow>
       if (first = None \<or> second = None) \<and> \<not> force
       then ((case first of None \<Rightarrow> second | Some x \<Rightarrow> Some x, None), st)
       else ((Some (WINNER n), Some (LOSER n)),
             (ps @ [mk_pairing [seat_team first, seat_team second] rnd label n],
              es @ seat_edges first n 1 @ seat_edges second n 2, n + 1)))"

text \<open>\<open>pair_up\<close>: every adjacent pair, a last one without a partner meets nobody.\<close>

fun de_pair_up ::
  "origin option list \<Rightarrow> int \<Rightarrow> (nat \<Rightarrow> string) \<Rightarrow> nat \<Rightarrow> de_state \<Rightarrow>
    (origin option list \<times> origin option list) \<times> de_state" where
  "de_pair_up [] rnd label idx st = (([], []), st)"
| "de_pair_up [first] rnd label idx st =
     (case de_play first None rnd (label idx) False st of ((w, l), st') \<Rightarrow> (([w], [l]), st'))"
| "de_pair_up (first # second # rest) rnd label idx st =
     (let idx' = (if first \<noteq> None \<and> second \<noteq> None then idx + 1 else idx) in
      case de_play first second rnd (label idx') False st of
        ((w, l), st') \<Rightarrow>
          (case de_pair_up rest rnd label idx' st' of ((ws, ls), st'') \<Rightarrow> ((w # ws, l # ls), st'')))"

definition ub_round_label :: "nat \<Rightarrow> nat \<Rightarrow> nat \<Rightarrow> string" where
  "ub_round_label round_num upper_rounds idx =
     (if round_num = upper_rounds then ''UB Final''
      else if round_num + 1 = upper_rounds then ''UB Semifinal '' @ show_nat idx
      else ''UB R'' @ show_nat round_num @ '' Match '' @ show_nat idx)"

definition ub_label :: "nat \<Rightarrow> nat \<Rightarrow> nat \<Rightarrow> string" where
  "ub_label round_num upper_rounds idx =
     (if round_num = 1 then ''UB R1 Match '' @ show_nat idx else ub_round_label round_num upper_rounds idx)"

definition lb_label :: "nat \<Rightarrow> nat \<Rightarrow> string" where
  "lb_label round_num idx = ''LB R'' @ show_nat round_num @ '' Match '' @ show_nat idx"

definition de_upper_round ::
  "nat \<Rightarrow> (origin option list \<times> origin option list list) \<times> de_state \<Rightarrow> nat \<Rightarrow>
    (origin option list \<times> origin option list list) \<times> de_state" where
  "de_upper_round upper_rounds acc round_num =
     (case acc of ((slots, ub_losers), st) \<Rightarrow>
      case de_pair_up slots (int round_num) (ub_label round_num upper_rounds) 0 st of
        ((ws, ls), st') \<Rightarrow> ((ws, ub_losers @ [ls]), st'))"

text \<open>The \<open>while len(carry) > len(dropouts)\<close> loop; the fuel is the length of
  \<open>carry\<close>, which every turn halves.\<close>

fun de_reduce ::
  "nat \<Rightarrow> nat \<Rightarrow> origin option list \<Rightarrow> nat \<Rightarrow> de_state \<Rightarrow> origin option list \<times> nat \<times> de_state" where
  "de_reduce 0 d carry lb_round st = (carry, lb_round, st)"
| "de_reduce (Suc fuel) d carry lb_round st =
     (if length carry > d
      then (case de_pair_up carry (- int lb_round) (lb_label lb_round) 0 st of
              ((ws, ls), st') \<Rightarrow> de_reduce fuel d ws (lb_round + 1) st')
      else (carry, lb_round, st))"

text \<open>The dropout round: dropout \<open>k\<close> meets the \<open>k\<close>-th survivor.\<close>

fun de_dropouts ::
  "origin option list \<Rightarrow> origin option list \<Rightarrow> int \<Rightarrow> (nat \<Rightarrow> string) \<Rightarrow> nat \<Rightarrow> de_state \<Rightarrow>
    origin option list \<times> de_state" where
  "de_dropouts carry [] rnd label idx st = ([], st)"
| "de_dropouts carry (dropout # dropouts) rnd label idx st =
     (let home = (case carry of [] \<Rightarrow> None | h # _ \<Rightarrow> h);
          idx' = (if home \<noteq> None \<and> dropout \<noteq> None then idx + 1 else idx)
      in case de_play home dropout rnd (label idx') False st of
           ((w, l), st') \<Rightarrow>
             (case de_dropouts (tl carry) dropouts rnd label idx' st' of (ws, st'') \<Rightarrow> (w # ws, st'')))"

definition de_lower_round ::
  "origin option list \<times> nat \<times> de_state \<Rightarrow> origin option list \<Rightarrow> origin option list \<times> nat \<times> de_state" where
  "de_lower_round acc losers =
     (case acc of (carry, lb_round, st) \<Rightarrow>
       let dropouts = rev losers in
       case de_reduce (length carry) (length dropouts) carry lb_round st of
         (carry1, lb1, st1) \<Rightarrow>
           (case de_dropouts carry1 dropouts (- int lb1) (lb_label lb1) 0 st1 of
              (carry2, st2) \<Rightarrow>
                if length carry2 > 1
                then (case de_pair_up carry2 (- int (lb1 + 1)) (lb_label (lb1 + 1)) 0 st2 of
                        ((carry3, ls), st3) \<Rightarrow> (carry3, lb1 + 2, st3))
                else (carry2, lb1 + 1, st2)))"

definition de_entrants :: "int list \<Rightarrow> nat \<Rightarrow> origin option list" where
  "de_entrants ids k = map (\<lambda>s. map_option TEAM (seed_to_team ids s)) (seeding_order (2 ^ k))"

datatype value_error = Value_error

definition de_generate :: "int list \<Rightarrow> int list \<Rightarrow> value_error + bracket_skeleton" where
  "de_generate ids lb_seeds =
     (if length ids < 2 then Inr (mk_skeleton [] 0 [])
      else
        let upper_rounds = ceil_log2 (length ids);
            ((slots, ub_losers), st) = foldl (de_upper_round upper_rounds)
              ((de_entrants ids upper_rounds, []), ([], [], 0)) [1..<upper_rounds + 1];
            (((carry, ls), st1), rest) =
              (if lb_seeds \<noteq> []
               then (de_pair_up (de_entrants lb_seeds (ceil_log2 (length lb_seeds))) (- 1) (lb_label 1) 0 st, ub_losers)
               else (de_pair_up (hd ub_losers) (- 1) (lb_label 1) 0 st, tl ub_losers));
            (carry', lb_round, st2) = foldl de_lower_round (carry, 2, st1) rest;
            (outcome, (ps, es, n)) = de_play (if slots = [] then None else hd slots)
              (if carry' = [] then None else last carry') (int (upper_rounds + 1)) ''Grand Final'' True st2;
            dropped = filter (\<lambda>t. Some t \<notin> set (concat (map team_ids ps))) (ids @ lb_seeds)
        in if dropped \<noteq> [] then Inl Value_error else Inr (mk_skeleton ps (int (upper_rounds + 1)) es))"

section \<open>Single elimination meets the contract\<close>

lemma last_match_unused:
  assumes "bracket_inv teams ps es n pending d"
  shows "WINNER (n - 1) \<notin># used_origins ps es" and "LOSER (n - 1) \<notin># used_origins ps es"
proof -
  have below: "source_local_id e < n - 1" if "e \<in> set es" for e
    using assms that by (fastforce simp: bracket_inv_def)
  show "WINNER (n - 1) \<notin># used_origins ps es" and "LOSER (n - 1) \<notin># used_origins ps es"
    by (auto simp: used_origins_def edge_origin_def split: if_splits dest!: below)
qed

lemma all_origins_count:
  "0 < n \<Longrightarrow> count (all_origins teams n) (WINNER (n - 1)) = 1"
  "0 < n \<Longrightarrow> count (all_origins teams n) (LOSER (n - 1)) = 1"
  by (simp_all add: all_origins_def count_map_inj count_upt del: mset_map mset_upt)

lemma one_pending_is_sound:
  assumes inv: "bracket_inv teams (pairings sk) (advancement_edges sk) n {#x#} d"
    and n: "0 < n"
  shows "sound_bracket teams sk"
proof -
  let ?ps = "pairings sk" and ?es = "advancement_edges sk"
  obtain out where out: "size out = d" "\<forall>x \<in># out. \<exists>l. x = LOSER l"
    and eq: "used_origins ?ps ?es + {#x#} + out = all_origins teams n"
    using inv by (auto simp: bracket_inv_def)
  have cw: "count (used_origins ?ps ?es) (WINNER (n - 1)) = 0" "count (used_origins ?ps ?es) (LOSER (n - 1)) = 0"
    using last_match_unused [OF inv] by (simp_all add: not_in_iff)
  have "count out (WINNER (n - 1)) = 0" using out(2) by (metis not_in_iff origin.distinct(5))
  then have x: "x = WINNER (n - 1)"
    using arg_cong [OF eq, of "\<lambda>M. count M (WINNER (n - 1))"] cw all_origins_count(1) [OF n]
    by (auto split: if_splits)
  then have "0 < count out (LOSER (n - 1))"
    using arg_cong [OF eq, of "\<lambda>M. count M (LOSER (n - 1))"] cw all_origins_count(2) [OF n] by simp
  then obtain out' where out': "out = add_mset (LOSER (n - 1)) out'"
    by (metis count_greater_zero_iff multi_member_split)
  have "bracket_inv teams ?ps ?es n {#WINNER (n - 1), LOSER (n - 1)#} (size out')"
  proof -
    have "used_origins ?ps ?es + {#WINNER (n - 1), LOSER (n - 1)#} + out' = all_origins teams n"
      unfolding eq [symmetric] x out' by simp
    moreover have "\<forall>x \<in># out'. \<exists>l. x = LOSER l" using out(2) by (simp add: out')
    ultimately show ?thesis using inv unfolding bracket_inv_def by blast
  qed
  moreover have "length ?ps = n" by (rule bracket_inv_count(1) [OF inv])
  ultimately show ?thesis using n by (auto simp: sound_bracket_def Let_def)
qed

definition se_tokens :: "se_slot \<Rightarrow> origin multiset" where
  "se_tokens s = (case s of (Some l, _) \<Rightarrow> {#WINNER l#} | (None, Some t) \<Rightarrow> {#TEAM t#} | (None, None) \<Rightarrow> {#})"

definition se_slot_ok :: "se_slot \<Rightarrow> bool" where
  "se_slot_ok s \<longleftrightarrow> fst s = None \<or> snd s = None"

abbreviation se_pending :: "se_slot list \<Rightarrow> origin multiset" where
  "se_pending slots \<equiv> sum_list (map se_tokens slots)"

definition opt_team :: "int option \<Rightarrow> origin multiset" where
  "opt_team t = (case t of None \<Rightarrow> {#} | Some t \<Rightarrow> {#TEAM t#})"

lemma se_slot_cases:
  assumes "se_slot_ok s"
  obtains "s = (None, None)"
  | x where "se_tokens s = {#x#}" "origin_team x = snd s" "\<And>t k. origin_edges x t k = se_edge (fst s) t k"
      "fst s \<noteq> None \<or> snd s \<noteq> None"
  using assms
  by (cases s; cases "fst s"; cases "snd s")
    (auto simp: se_slot_ok_def se_tokens_def origin_team_def origin_edges_def se_edge_def)

lemma se_first_inv:
  assumes "bracket_inv teams ps [] n (se_pending out + sum_list (map (\<lambda>(a, b). opt_team a + opt_team b) poss)) n"
    and "list_all se_slot_ok out"
    and "foldl (se_first_step rounds) (ps, n, c, out) poss = (ps', n', c', out')"
  shows "bracket_inv teams ps' [] n' (se_pending out') n' \<and> list_all se_slot_ok out' \<and>
    length out' = length out + length poss \<and>
    (se_pending out + sum_list (map (\<lambda>(a, b). opt_team a + opt_team b) poss) \<noteq> {#} \<longrightarrow> se_pending out' \<noteq> {#})"
  using assms
proof (induction poss arbitrary: ps n c out)
  case (Cons pos poss)
  let ?rest = "sum_list (map (\<lambda>(a, b). opt_team a + opt_team b) poss)"
  obtain a b where pos: "pos = (a, b)" by (cases pos)
  show ?case
  proof (cases "a \<noteq> None \<and> b \<noteq> None")
    case True
    then obtain t u where tu: "a = Some t" "b = Some u" by blast
    have "bracket_inv teams ps [] n ((se_pending out + ?rest) + {#TEAM t#} + {#TEAM u#}) n"
      using Cons.prems(1) by (simp add: pos tu opt_team_def ac_simps)
    from bracket_inv_drop [OF bracket_inv_match [OF this, of 1 "se_label rounds 1 (c + 1)"]]
    have "bracket_inv teams (ps @ [mk_pairing [Some t, Some u] 1 (se_label rounds 1 (c + 1)) n]) [] (n + 1)
        (se_pending (out @ [(Some n, None)]) + ?rest) (n + 1)"
      by (simp add: origin_team_def origin_edges_def se_tokens_def ac_simps)
    from Cons.IH [OF this, of "c + 1"] show ?thesis
      using Cons.prems(2,3) by (simp add: pos tu se_first_step_def se_slot_ok_def se_tokens_def)
  next
    case False
    then obtain s where step: "se_first_step rounds (ps, n, c, out) pos = (ps, n, c, out @ [s])"
      and s: "se_tokens s = opt_team a + opt_team b" "se_slot_ok s"
      by (cases a; cases b) (auto simp: pos se_first_step_def se_tokens_def opt_team_def se_slot_ok_def)
    have "bracket_inv teams ps [] n (se_pending (out @ [s]) + ?rest) n"
      using Cons.prems(1) by (simp add: pos s ac_simps)
    from Cons.IH [OF this, of c] show ?thesis
      using Cons.prems(2,3) s step by (simp add: pos ac_simps)
  qed
qed simp

lemma se_next_inv:
  assumes "bracket_inv teams ps es n (se_pending out + sum_list (map (\<lambda>(a, b). se_tokens a + se_tokens b) poss)) n"
    and "list_all se_slot_ok out" and "list_all (\<lambda>(a, b). se_slot_ok a \<and> se_slot_ok b) poss"
    and "foldl (se_next_step rounds r) (ps, es, n, c, out) poss = (ps', es', n', c', out')"
  shows "bracket_inv teams ps' es' n' (se_pending out') n' \<and> list_all se_slot_ok out' \<and>
    length out' = length out + length poss \<and>
    (se_pending out + sum_list (map (\<lambda>(a, b). se_tokens a + se_tokens b) poss) \<noteq> {#} \<longrightarrow> se_pending out' \<noteq> {#})"
  using assms
proof (induction poss arbitrary: ps es n c out)
  case (Cons pos poss)
  let ?rest = "sum_list (map (\<lambda>(a, b). se_tokens a + se_tokens b) poss)"
  obtain al at bl bt where pos: "pos = ((al, at), (bl, bt))" by (metis prod.exhaust)
  have ok: "se_slot_ok (al, at)" "se_slot_ok (bl, bt)" using Cons.prems(3) by (simp_all add: pos)
  show ?case
  proof (cases "(al \<noteq> None \<or> at \<noteq> None) \<and> (bl \<noteq> None \<or> bt \<noteq> None)")
    case True
    obtain x where x: "se_tokens (al, at) = {#x#}" "origin_team x = at" "\<And>t k. origin_edges x t k = se_edge al t k"
      using ok(1) True by (cases rule: se_slot_cases) auto
    obtain y where y: "se_tokens (bl, bt) = {#y#}" "origin_team y = bt" "\<And>t k. origin_edges y t k = se_edge bl t k"
      using ok(2) True by (cases rule: se_slot_cases) auto
    have "bracket_inv teams ps es n ((se_pending out + ?rest) + {#x#} + {#y#}) n"
      using Cons.prems(1) by (simp add: pos x y ac_simps)
    from bracket_inv_drop [OF bracket_inv_match [OF this, of "int r" "se_label rounds r (c + 1)"]]
    have "bracket_inv teams (ps @ [mk_pairing [at, bt] (int r) (se_label rounds r (c + 1)) n])
        (es @ se_edge al n 1 @ se_edge bl n 2) (n + 1) (se_pending (out @ [(Some n, None)]) + ?rest) (n + 1)"
      by (simp add: x y se_tokens_def ac_simps)
    from Cons.IH [OF this, of "c + 1"] show ?thesis
      using Cons.prems(2-) True by (simp add: pos se_next_step_def Let_def se_slot_ok_def se_tokens_def)
  next
    case False
    then obtain s where step: "se_next_step rounds r (ps, es, n, c, out) pos = (ps, es, n, c, out @ [s])"
      and s: "se_tokens s = se_tokens (al, at) + se_tokens (bl, bt)" "se_slot_ok s"
      using ok by (cases "al \<noteq> None \<or> at \<noteq> None"; cases "bl \<noteq> None \<or> bt \<noteq> None")
        (auto simp: pos se_next_step_def Let_def se_tokens_def se_slot_ok_def)
    have "bracket_inv teams ps es n (se_pending (out @ [s]) + ?rest) n"
      using Cons.prems(1) by (simp add: pos s ac_simps)
    from Cons.IH [OF this, of c] show ?thesis
      using Cons.prems(2-) s step by (simp add: pos ac_simps)
  qed
qed simp

lemma sum_adjacent_pairs:
  "even (length xs) \<Longrightarrow> sum_list (map (\<lambda>(a, b). f a + f b) (adjacent_pairs xs)) = (sum_list (map f xs) :: 'm::comm_monoid_add)"
  by (induction xs rule: adjacent_pairs.induct) (auto simp: ac_simps)

lemma length_adjacent_pairs: "length (adjacent_pairs xs) = length xs div 2"
  by (induction xs rule: adjacent_pairs.induct) auto

lemma all_adjacent_pairs: "list_all P xs \<Longrightarrow> list_all (\<lambda>(a, b). P a \<and> P b) (adjacent_pairs xs)"
  by (induction xs rule: adjacent_pairs.induct) auto

lemma se_rounds_inv:
  assumes "bracket_inv teams ps es n (se_pending slots) n" and "list_all se_slot_ok slots"
    and "length slots = 2 ^ length rs" and "se_pending slots \<noteq> {#}"
    and "foldl (se_round rounds) (ps, es, n, slots) rs = (ps', es', n', slots')"
  shows "bracket_inv teams ps' es' n' (se_pending slots') n' \<and> length slots' = 1 \<and> se_pending slots' \<noteq> {#}"
  using assms
proof (induction rs arbitrary: ps es n slots)
  case (Cons r rs)
  obtain ps1 es1 n1 c1 out1 where run: "foldl (se_next_step rounds r) (ps, es, n, 0, []) (adjacent_pairs slots) =
      (ps1, es1, n1, c1, out1)" by (metis prod_cases5)
  have even: "even (length slots)" using Cons.prems(3) by simp
  have inv0: "bracket_inv teams ps es n
      (se_pending [] + sum_list (map (\<lambda>(a, b). se_tokens a + se_tokens b) (adjacent_pairs slots))) n"
    using Cons.prems(1) by (simp add: sum_adjacent_pairs [OF even])
  note step = se_next_inv [OF inv0 _ all_adjacent_pairs [OF Cons.prems(2)] run]
  have "length out1 = 2 ^ length rs" using step Cons.prems(3) by (simp add: length_adjacent_pairs)
  moreover have "se_pending out1 \<noteq> {#}" using step Cons.prems(4) by (simp add: sum_adjacent_pairs [OF even])
  ultimately show ?case
    using Cons.IH [of ps1 es1 n1 out1] step Cons.prems(5) by (simp add: se_round_def run)
qed simp

lemma pending_entrants:
  assumes "length ids \<le> 2 ^ k"
  shows "sum_list (map opt_team (map (seed_to_team ids) (seeding_order (2 ^ k)))) = mset (map TEAM ids)"
proof -
  have "sum_list (map opt_team (map (seed_to_team ids) ss)) = sum_mset (image_mset (opt_team \<circ> seed_to_team ids) (mset ss))"
    for ss by (simp add: sum_mset_sum_list flip: mset_map)
  moreover have "sum_mset (image_mset (opt_team \<circ> seed_to_team ids) (mset [0..<n])) =
      mset (map TEAM (take n ids))" for n
  proof (induction n)
    case (Suc n)
    then show ?case
      by (cases "n < length ids") (simp_all add: take_Suc_conv_app_nth opt_team_def seed_to_team_def)
  qed simp
  ultimately show ?thesis using assms by (simp add: mset_seeding_order)
qed

lemma se_generate_parts:
  assumes "2 \<le> length ids"
  defines "k \<equiv> ceil_log2 (length ids)"
  obtains n d x where "total_rounds (se_generate ids) = int k" and "0 < n"
    and "bracket_inv ids (pairings (se_generate ids)) (advancement_edges (se_generate ids)) n {#x#} n"
proof -
  let ?pos = "map (seed_to_team ids) (seeding_order (2 ^ k))"
  obtain ps n c slots where first: "foldl (se_first_step k) ([], 0, 0, []) (adjacent_pairs ?pos) = (ps, n, c, slots)"
    by (metis prod_cases4)
  obtain ps' es n' slots' where rest: "foldl (se_round k) (ps, [], n, slots) [2..<k + 1] = (ps', es, n', slots')"
    by (metis prod_cases4)
  have gen: "se_generate ids = mk_skeleton ps' (int k) es"
    using assms first rest by (simp add: se_generate_def Let_def del: upt_Suc)
  have k: "1 \<le> k" using assms by (subst k_def, subst ceil_log2.simps) simp
  then have even: "even (length ?pos)" by simp
  have start: "se_pending [] + sum_list (map (\<lambda>(a, b). opt_team a + opt_team b) (adjacent_pairs ?pos)) =
      mset (map TEAM ids)"
    using sum_adjacent_pairs [OF even, of opt_team] pending_entrants [of ids k]
      ceil_log2_upper [of "length ids", folded k_def] by simp
  have "bracket_inv ids [] [] 0 (se_pending [] +
      sum_list (map (\<lambda>(a, b). opt_team a + opt_team b) (adjacent_pairs ?pos))) 0"
    unfolding start by (rule bracket_inv_start)
  from se_first_inv [OF this _ first] have inv1: "bracket_inv ids ps [] n (se_pending slots) n"
    and ok: "list_all se_slot_ok slots" and len: "length slots = 2 ^ k div 2" and ne: "se_pending slots \<noteq> {#}"
    using start assms by (auto simp: length_adjacent_pairs)
  have "length slots = 2 ^ length [2..<k + 1]" using len k by (cases k) (simp_all del: upt_Suc)
  from se_rounds_inv [OF inv1 ok this ne rest]
  have inv: "bracket_inv ids ps' es n' (se_pending slots') n'" and one: "length slots' = 1" "se_pending slots' \<noteq> {#}"
    by auto
  obtain s where s: "slots' = [s]" using one(1) by (auto simp: length_Suc_conv)
  then obtain x where x: "se_pending slots' = {#x#}"
    using one(2) by (auto simp: se_tokens_def split: prod.splits option.splits)
  have "n' = length ids - 1" using bracket_inv_count(2) [OF inv] assms by (simp add: x)
  then show thesis using that [of n' x] inv assms(1) by (simp add: gen mk_skeleton_def x)
qed

lemma se_sound:
  assumes "2 \<le> length ids"
  shows "sound_bracket ids (se_generate ids)" and "length (pairings (se_generate ids)) = length ids - 1"
proof -
  obtain n x where n: "0 < n" and inv: "bracket_inv ids (pairings (se_generate ids))
      (advancement_edges (se_generate ids)) n {#x#} n"
    by (rule se_generate_parts [OF assms])
  show "sound_bracket ids (se_generate ids)" by (rule one_pending_is_sound [OF inv n])
  show "length (pairings (se_generate ids)) = length ids - 1"
    using bracket_inv_count [OF inv] by simp
qed

section \<open>Double elimination meets the contract\<close>

definition otok :: "origin option \<Rightarrow> origin multiset" where
  "otok x = (case x of None \<Rightarrow> {#} | Some y \<Rightarrow> {#y#})"

abbreviation otoks :: "origin option list \<Rightarrow> origin multiset" where
  "otoks xs \<equiv> sum_list (map otok xs)"

lemma otok_simps [simp]: "otok None = {#}" "otok (Some x) = {#x#}"
  by (simp_all add: otok_def)

definition only_losers :: "origin option list \<Rightarrow> bool" where
  "only_losers ls \<longleftrightarrow> (\<forall>l \<in> set ls. l = None \<or> (\<exists>m. l = Some (LOSER m)))"

lemma otoks_rev [simp]: "otoks (rev xs) = otoks xs"
  by (induction xs) (simp_all add: ac_simps)

lemma seat_Some [simp]: "seat_team (Some x) = origin_team x" "seat_edges (Some x) t k = origin_edges x t k"
  by (simp_all add: seat_team_def seat_edges_def)

lemma de_play_inv:
  assumes inv: "bracket_inv teams ps es n (rest + otok a + otok b) d"
    and run: "de_play a b r lab False (ps, es, n) = ((w, l), (ps', es', n'))"
  shows "bracket_inv teams ps' es' n' (rest + otok w + otok l) d"
    and "otok w = {#} \<longleftrightarrow> otok a + otok b = {#}" and "only_losers [l]" and "n' = n + size (otok l)"
proof -
  have "bracket_inv teams ps' es' n' (rest + otok w + otok l) d \<and> (otok w = {#} \<longleftrightarrow> otok a + otok b = {#}) \<and>
      only_losers [l] \<and> n' = n + size (otok l)"
  proof (cases "a = None \<or> b = None")
    case True
    then show ?thesis using assms by (cases a; cases b) (auto simp: de_play_def only_losers_def)
  next
    case False
    then obtain x y where xy: "a = Some x" "b = Some y" by auto
    then have "bracket_inv teams ps es n (rest + {#x#} + {#y#}) d" using inv by simp
    from bracket_inv_match [OF this, of r lab] show ?thesis
      using run by (auto simp: de_play_def xy only_losers_def)
  qed
  then show "bracket_inv teams ps' es' n' (rest + otok w + otok l) d"
    and "otok w = {#} \<longleftrightarrow> otok a + otok b = {#}" and "only_losers [l]" and "n' = n + size (otok l)" by blast+
qed

lemma de_pair_up_inv:
  assumes "bracket_inv teams ps es n (rest + otoks xs) d"
    and "de_pair_up xs r lab idx (ps, es, n) = ((ws, ls), (ps', es', n'))"
  shows "bracket_inv teams ps' es' n' (rest + otoks ws + otoks ls) d \<and> (otoks ws = {#} \<longleftrightarrow> otoks xs = {#}) \<and>
    only_losers ls \<and> n' = n + size (otoks ls) \<and> length ws = (length xs + 1) div 2 \<and> length ls = (length xs + 1) div 2"
  using assms
proof (induction xs r lab idx "(ps, es, n)" arbitrary: ps es n rest ws ls ps' es' n' rule: de_pair_up.induct)
  case (1 r lab idx)
  then show ?case by (simp add: only_losers_def)
next
  case (2 first r lab idx)
  obtain w l ps1 es1 n1 where run: "de_play first None r (lab idx) False (ps, es, n) = ((w, l), (ps1, es1, n1))"
    by (metis prod.exhaust)
  have "bracket_inv teams ps es n (rest + otok first + otok None) d" using 2 by simp
  from de_play_inv [OF this run] show ?case using 2 run by auto
next
  case (3 first second xs r lab idx)
  let ?idx = "if first \<noteq> None \<and> second \<noteq> None then idx + 1 else idx"
  obtain w l ps1 es1 n1 where run: "de_play first second r (lab ?idx) False (ps, es, n) = ((w, l), (ps1, es1, n1))"
    by (metis prod.exhaust)
  obtain ws1 ls1 ps2 es2 n2 where rec: "de_pair_up xs r lab ?idx (ps1, es1, n1) = ((ws1, ls1), (ps2, es2, n2))"
    by (metis prod.exhaust)
  have res: "ws = w # ws1" "ls = l # ls1" "ps' = ps2" "es' = es2" "n' = n2"
    using "3.prems"(2) unfolding de_pair_up.simps Let_def run prod.case rec by simp_all
  have "bracket_inv teams ps es n ((rest + otoks xs) + otok first + otok second) d"
    using "3.prems"(1) by (simp add: ac_simps)
  note play = de_play_inv [OF this run]
  have "bracket_inv teams ps1 es1 n1 ((rest + otok w + otok l) + otoks xs) d"
    using play(1) by (simp add: ac_simps)
  from "3.hyps" [OF refl run [symmetric] refl this rec]
  show ?case using play by (auto simp: res only_losers_def ac_simps)
qed

lemma drop_losers:
  "bracket_inv teams ps es n (rest + otoks ls) d \<Longrightarrow> only_losers ls \<Longrightarrow>
    bracket_inv teams ps es n rest (d + size (otoks ls))"
proof (induction ls arbitrary: d)
  case (Cons l ls)
  have ls: "only_losers ls" using Cons.prems(2) by (simp add: only_losers_def)
  show ?case
  proof (cases l)
    case None
    then show ?thesis using Cons ls by simp
  next
    case (Some x)
    then obtain m where "l = Some (LOSER m)" using Cons.prems(2) by (auto simp: only_losers_def)
    then show ?thesis
      using Cons.IH [OF bracket_inv_drop ls, of "Suc d"] bracket_inv_drop [of teams ps es n "rest + otoks ls" m d]
        Cons.prems(1) Cons.IH [OF _ ls, of "Suc d"] by (simp add: ac_simps)
  qed
qed simp

lemma de_pair_up_drop:
  assumes "bracket_inv teams ps es n (rest + otoks xs) d"
    and "de_pair_up xs r lab idx (ps, es, n) = ((ws, ls), (ps', es', n'))"
  shows "\<exists>d'. bracket_inv teams ps' es' n' (rest + otoks ws) d' \<and> n' + d = n + d' \<and>
    (otoks ws = {#} \<longleftrightarrow> otoks xs = {#}) \<and> length ws = (length xs + 1) div 2"
  using de_pair_up_inv [OF assms] drop_losers [of teams ps' es' n' "rest + otoks ws" ls d]
  by (intro exI [of _ "d + size (otoks ls)"]) auto

lemma de_reduce_inv:
  assumes "bracket_inv teams ps es n (rest + otoks carry) d" and "length carry \<le> fuel" and "1 \<le> k"
    and "de_reduce fuel k carry lb (ps, es, n) = (carry', lb', (ps', es', n'))"
  shows "\<exists>d'. bracket_inv teams ps' es' n' (rest + otoks carry') d' \<and> n' + d = n + d' \<and>
    (otoks carry' = {#} \<longleftrightarrow> otoks carry = {#}) \<and> length carry' \<le> k"
  using assms
proof (induction fuel k carry lb "(ps, es, n)" arbitrary: ps es n d rule: de_reduce.induct)
  case (2 fuel k carry lb)
  show ?case
  proof (cases "length carry > k")
    case True
    obtain ws ls ps1 es1 n1 where run: "de_pair_up carry (- int lb) (lb_label lb) 0 (ps, es, n) =
        ((ws, ls), (ps1, es1, n1))" by (metis prod.exhaust)
    obtain d1 where d1: "bracket_inv teams ps1 es1 n1 (rest + otoks ws) d1" "n1 + d = n + d1"
        "otoks ws = {#} \<longleftrightarrow> otoks carry = {#}" "length ws = (length carry + 1) div 2"
      using de_pair_up_drop [OF "2.prems"(1) run] by blast
    have "length ws \<le> fuel" using d1(4) "2.prems"(2,3) True by simp
    from "2.hyps" [OF True run [symmetric] refl d1(1) this "2.prems"(3)] show ?thesis
      using "2.prems"(4) True d1(2,3) by (fastforce simp: run)
  next
    case False
    then show ?thesis using 2 by auto
  qed
qed auto

lemma de_dropouts_inv:
  assumes "bracket_inv teams ps es n (rest + otoks carry + otoks dropouts) d" and "length carry \<le> length dropouts"
    and "de_dropouts carry dropouts r lab idx (ps, es, n) = (ws, (ps', es', n'))"
  shows "\<exists>d'. bracket_inv teams ps' es' n' (rest + otoks ws) d' \<and> n' + d = n + d' \<and>
    (otoks ws = {#} \<longleftrightarrow> otoks carry + otoks dropouts = {#}) \<and> length ws = length dropouts"
  using assms
proof (induction dropouts arbitrary: carry idx ps es n d rest ws)
  case (Cons dropout dropouts)
  let ?home = "case carry of [] \<Rightarrow> None | h # _ \<Rightarrow> h"
  let ?idx = "if ?home \<noteq> None \<and> dropout \<noteq> None then idx + 1 else idx"
  obtain w l ps1 es1 n1 where run: "de_play ?home dropout r (lab ?idx) False (ps, es, n) = ((w, l), (ps1, es1, n1))"
    by (metis prod.exhaust)
  obtain ws1 where rec: "de_dropouts (tl carry) dropouts r lab ?idx (ps1, es1, n1) = (ws1, (ps', es', n'))"
    and ws: "ws = w # ws1"
    using Cons.prems(3) unfolding de_dropouts.simps Let_def run prod.case
    by (auto split: prod.splits)
  have carry: "otoks carry = otok ?home + otoks (tl carry)" by (cases carry) auto
  have "bracket_inv teams ps es n ((rest + otoks (tl carry) + otoks dropouts) + otok ?home + otok dropout) d"
    using Cons.prems(1) unfolding carry by (simp add: ac_simps)
  note play = de_play_inv [OF this run]
  have "bracket_inv teams ps1 es1 n1 ((rest + otok w + otoks (tl carry) + otoks dropouts) + otoks [l]) d"
    using play(1) by (simp add: ac_simps)
  from drop_losers [OF this play(3)]
  have drop: "bracket_inv teams ps1 es1 n1 ((rest + otok w) + otoks (tl carry) + otoks dropouts) (d + size (otok l))"
    by (simp add: ac_simps)
  have "length (tl carry) \<le> length dropouts" using Cons.prems(2) by simp
  from Cons.IH [OF drop this rec] play(2,4) show ?case by (auto simp: ws carry ac_simps)
qed auto

lemma de_lower_round_inv:
  assumes "bracket_inv teams ps es n (rest + otoks carry + otoks losers) d" and "1 \<le> length losers"
    and "de_lower_round (carry, lb, (ps, es, n)) losers = (carry', lb', (ps', es', n'))"
  shows "\<exists>d'. bracket_inv teams ps' es' n' (rest + otoks carry') d' \<and> n' + d = n + d' \<and>
    (otoks carry' = {#} \<longleftrightarrow> otoks carry + otoks losers = {#}) \<and> (length losers = 1 \<longrightarrow> length carry' = 1)"
proof -
  obtain carry1 lb1 ps1 es1 n1 where red: "de_reduce (length carry) (length (rev losers)) carry lb (ps, es, n) =
      (carry1, lb1, (ps1, es1, n1))" by (metis prod.exhaust)
  obtain carry2 ps2 es2 n2 where drp: "de_dropouts carry1 (rev losers) (- int lb1) (lb_label lb1) 0 (ps1, es1, n1) =
      (carry2, (ps2, es2, n2))" by (metis prod.exhaust)
  have "bracket_inv teams ps es n ((rest + otoks losers) + otoks carry) d" using assms(1) by (simp add: ac_simps)
  from de_reduce_inv [OF this order_refl _ red] assms(2) obtain d1 where
    d1: "bracket_inv teams ps1 es1 n1 ((rest + otoks losers) + otoks carry1) d1" "n1 + d = n + d1"
      "otoks carry1 = {#} \<longleftrightarrow> otoks carry = {#}" "length carry1 \<le> length (rev losers)" by auto
  have "bracket_inv teams ps1 es1 n1 (rest + otoks carry1 + otoks (rev losers)) d1" using d1(1) by (simp add: ac_simps)
  from de_dropouts_inv [OF this d1(4) drp] obtain d2 where
    d2: "bracket_inv teams ps2 es2 n2 (rest + otoks carry2) d2" "n2 + d1 = n1 + d2"
      "otoks carry2 = {#} \<longleftrightarrow> otoks carry1 + otoks losers = {#}" "length carry2 = length losers" by auto
  show ?thesis
  proof (cases "length carry2 > 1")
    case True
    obtain ws ls ps3 es3 n3 where up: "de_pair_up carry2 (- int (lb1 + 1)) (lb_label (lb1 + 1)) 0 (ps2, es2, n2) =
        ((ws, ls), (ps3, es3, n3))" by (metis prod.exhaust)
    have "carry' = ws" "ps' = ps3" "es' = es3" "n' = n3"
      using assms(3) True red drp up by (simp_all add: de_lower_round_def)
    then show ?thesis using de_pair_up_drop [OF d2(1) up] d1 d2 True by fastforce
  next
    case False
    have "carry' = carry2" "ps' = ps2" "es' = es2" "n' = n2"
      using assms(3) False red drp by (simp_all add: de_lower_round_def)
    then show ?thesis using d1 d2 by (intro exI [of _ d2]) auto
  qed
qed

lemma de_lower_rounds_inv:
  assumes "bracket_inv teams ps es n (rest + otoks carry + sum_list (map otoks rounds)) d"
    and "\<forall>ls \<in> set rounds. 1 \<le> length ls"
    and "rounds = [] \<longrightarrow> length carry = 1" and "rounds \<noteq> [] \<longrightarrow> length (last rounds) = 1"
    and "foldl de_lower_round (carry, lb, (ps, es, n)) rounds = (carry', lb', (ps', es', n'))"
  shows "\<exists>d'. bracket_inv teams ps' es' n' (rest + otoks carry') d' \<and> n' + d = n + d' \<and>
    (otoks carry' = {#} \<longleftrightarrow> otoks carry + sum_list (map otoks rounds) = {#}) \<and> length carry' = 1"
  using assms
proof (induction rounds arbitrary: carry lb ps es n d)
  case (Cons ls rounds)
  obtain carry1 lb1 ps1 es1 n1 where step: "de_lower_round (carry, lb, (ps, es, n)) ls = (carry1, lb1, (ps1, es1, n1))"
    by (metis prod.exhaust)
  have "bracket_inv teams ps es n ((rest + sum_list (map otoks rounds)) + otoks carry + otoks ls) d"
    using Cons.prems(1) by (simp add: ac_simps)
  from de_lower_round_inv [OF this _ step] Cons.prems(2) obtain d1 where
    d1: "bracket_inv teams ps1 es1 n1 ((rest + sum_list (map otoks rounds)) + otoks carry1) d1" "n1 + d = n + d1"
      "otoks carry1 = {#} \<longleftrightarrow> otoks carry + otoks ls = {#}" "length ls = 1 \<longrightarrow> length carry1 = 1" by auto
  have inv1: "bracket_inv teams ps1 es1 n1 (rest + otoks carry1 + sum_list (map otoks rounds)) d1"
    using d1(1) by (simp add: ac_simps)
  have one: "rounds = [] \<longrightarrow> length carry1 = 1" using d1(4) Cons.prems(4) by auto
  have "\<exists>d'. bracket_inv teams ps' es' n' (rest + otoks carry') d' \<and> n' + d1 = n1 + d' \<and>
      (otoks carry' = {#} \<longleftrightarrow> otoks carry1 + sum_list (map otoks rounds) = {#}) \<and> length carry' = 1"
    by (rule Cons.IH [OF inv1 _ one]) (use Cons.prems step in auto)
  then obtain d' where "bracket_inv teams ps' es' n' (rest + otoks carry') d'" "n' + d1 = n1 + d'"
    "otoks carry' = {#} \<longleftrightarrow> otoks carry1 + sum_list (map otoks rounds) = {#}" "length carry' = 1" by blast
  then show ?case using d1(2,3) by (intro exI [of _ d']) auto
qed auto

lemma de_upper_inv:
  assumes "bracket_inv teams ps es n (rest + otoks slots + sum_list (map otoks ub)) 0"
    and "n = size (sum_list (map otoks ub))" and "length slots = 2 ^ length rs"
    and "foldl (de_upper_round k) ((slots, ub), (ps, es, n)) rs = ((slots', ub'), (ps', es', n'))"
  shows "bracket_inv teams ps' es' n' (rest + otoks slots' + sum_list (map otoks ub')) 0 \<and>
    n' = size (sum_list (map otoks ub')) \<and> length slots' = 1 \<and> (otoks slots' = {#} \<longleftrightarrow> otoks slots = {#}) \<and>
    (\<exists>ub2. ub' = ub @ ub2 \<and> length ub2 = length rs \<and> (\<forall>ls \<in> set ub2. 1 \<le> length ls) \<and>
       (rs \<noteq> [] \<longrightarrow> length (last ub2) = 1))"
  using assms
proof (induction rs arbitrary: slots ub ps es n)
  case (Cons r rs)
  obtain ws ls ps1 es1 n1 where run: "de_pair_up slots (int r) (ub_label r k) 0 (ps, es, n) = ((ws, ls), (ps1, es1, n1))"
    by (metis prod.exhaust)
  have "bracket_inv teams ps es n ((rest + sum_list (map otoks ub)) + otoks slots) 0"
    using Cons.prems(1) by (simp add: ac_simps)
  from de_pair_up_inv [OF this run]
  have up: "bracket_inv teams ps1 es1 n1 (rest + sum_list (map otoks ub) + otoks ws + otoks ls) 0"
    "otoks ws = {#} \<longleftrightarrow> otoks slots = {#}" "n1 = n + size (otoks ls)" "length ws = 2 ^ length rs"
    "length ls = 2 ^ length rs"
    using Cons.prems(3) by auto
  have "bracket_inv teams ps1 es1 n1 (rest + otoks ws + sum_list (map otoks (ub @ [ls]))) 0"
    using up(1) by (simp add: ac_simps)
  moreover have "n1 = size (sum_list (map otoks (ub @ [ls])))" using up(3) Cons.prems(2) by simp
  moreover have "foldl (de_upper_round k) ((ws, ub @ [ls]), (ps1, es1, n1)) rs = ((slots', ub'), (ps', es', n'))"
  proof -
    have "de_upper_round k ((slots, ub), (ps, es, n)) r = ((ws, ub @ [ls]), (ps1, es1, n1))"
      by (simp add: de_upper_round_def run)
    then show ?thesis using Cons.prems(4) by simp
  qed
  ultimately have IH: "bracket_inv teams ps' es' n' (rest + otoks slots' + sum_list (map otoks ub')) 0"
    "n' = size (sum_list (map otoks ub'))" "length slots' = 1" "otoks slots' = {#} \<longleftrightarrow> otoks ws = {#}"
    "\<exists>ub2. ub' = (ub @ [ls]) @ ub2 \<and> length ub2 = length rs \<and> (\<forall>ls \<in> set ub2. 1 \<le> length ls) \<and>
       (rs \<noteq> [] \<longrightarrow> length (last ub2) = 1)"
    using Cons.IH [of ps1 es1 n1 ws "ub @ [ls]"] up(4) by blast+
  then obtain ub2 where ub2: "ub' = ub @ (ls # ub2)" "length ub2 = length rs" "\<forall>ls \<in> set ub2. 1 \<le> length ls"
    "rs \<noteq> [] \<longrightarrow> length (last ub2) = 1" by auto
  have "length (last (ls # ub2)) = 1"
    using ub2 up(5) by (cases "rs = []") auto
  moreover have "\<forall>xs \<in> set (ls # ub2). 1 \<le> length xs" using ub2(3) up(5) by simp
  ultimately have "\<exists>ub2. ub' = ub @ ub2 \<and> length ub2 = length (r # rs) \<and> (\<forall>ls \<in> set ub2. 1 \<le> length ls) \<and>
       (r # rs \<noteq> [] \<longrightarrow> length (last ub2) = 1)"
    using ub2(1,2) by (intro exI [of _ "ls # ub2"]) simp
  then show ?case using IH(1-4) up(2) by blast
qed simp

lemma otoks_entrants:
  assumes "length ids \<le> 2 ^ k"
  shows "otoks (de_entrants ids k) = mset (map TEAM ids)"
proof -
  have "otok (map_option TEAM t) = opt_team t" for t by (cases t) (auto simp: opt_team_def)
  then have "otoks (de_entrants ids k) = sum_list (map opt_team (map (seed_to_team ids) (seeding_order (2 ^ k))))"
    by (simp add: de_entrants_def o_def)
  then show ?thesis using pending_entrants [OF assms] by simp
qed

lemma length_de_entrants [simp]: "length (de_entrants ids k) = 2 ^ k"
  by (simp add: de_entrants_def)

lemma de_generate_sound:
  assumes "2 \<le> length ids"
  shows "\<exists>sk. de_generate ids lbs = Inr sk \<and> sound_bracket (ids @ lbs) sk \<and>
    length (pairings sk) + 2 = 2 * length ids + length lbs \<and> total_rounds sk = int (ceil_log2 (length ids)) + 1"
proof -
  define k where "k = ceil_log2 (length ids)"
  have k: "1 \<le> k" using assms by (subst k_def, subst ceil_log2.simps) simp
  let ?teams = "ids @ lbs" and ?LB = "mset (map TEAM lbs)"
  obtain slots ub ps es n where upper: "foldl (de_upper_round k) ((de_entrants ids k, []), ([], [], 0)) [1..<k + 1] =
      ((slots, ub), (ps, es, n))" by (metis prod.exhaust)
  have start: "?LB + otoks (de_entrants ids k) = mset (map TEAM ?teams)"
    using otoks_entrants [of ids k] ceil_log2_upper [of "length ids"] by (simp add: k_def ac_simps)
  have "bracket_inv ?teams [] [] 0 (?LB + otoks (de_entrants ids k) + sum_list (map otoks [])) 0"
    using bracket_inv_start [of ?teams] by (simp only: start list.map sum_list.Nil add_0_right)
  from de_upper_inv [OF this _ _ upper] obtain ub2 where
    inv: "bracket_inv ?teams ps es n (?LB + otoks slots + sum_list (map otoks ub)) 0"
    and n: "n = size (sum_list (map otoks ub))" and slots: "length slots = 1" "otoks slots \<noteq> {#}"
    and ub: "length ub = k" "\<forall>ls \<in> set ub. 1 \<le> length ls" "length (last ub) = 1"
    using k otoks_entrants [of ids k] ceil_log2_upper [of "length ids"] assms by (auto simp: k_def)
  obtain x where x: "slots = [Some x]"
    using slots by (cases slots; cases "hd slots") auto
  have "size (sum_list (map otoks ub)) + 1 + length lbs = length ?teams"
    using bracket_inv_count(2) [OF inv] by (simp add: x)
  then have n_eq: "n + 1 = length ids" using n by simp
  have ub_split: "ub = hd ub # tl ub" using ub(1) k by (cases ub) auto
  define entrants where "entrants = (if lbs \<noteq> [] then de_entrants lbs (ceil_log2 (length lbs)) else hd ub)"
  define rounds where "rounds = (if lbs \<noteq> [] then ub else tl ub)"
  obtain carry ls ps1 es1 n1 where first: "de_pair_up entrants (- 1) (lb_label 1) 0 (ps, es, n) = ((carry, ls), (ps1, es1, n1))"
    by (metis prod.exhaust)
  have entr: "otoks entrants + sum_list (map otoks rounds) = ?LB + sum_list (map otoks ub)"
  proof (cases "lbs = []")
    case True
    moreover have "sum_list (map otoks ub) = otoks (hd ub) + sum_list (map otoks (tl ub))"
      using ub_split by (cases ub) auto
    ultimately show ?thesis by (simp add: entrants_def rounds_def)
  next
    case False
    then show ?thesis
      using otoks_entrants [OF ceil_log2_upper, of lbs] by (simp add: entrants_def rounds_def)
  qed
  have "bracket_inv ?teams ps es n ({#x#} + sum_list (map otoks rounds) + otoks entrants) 0"
    using inv arg_cong [OF entr, of "\<lambda>M. {#x#} + M"] by (simp add: x ac_simps)
  from de_pair_up_drop [OF this first] obtain d1 where
    d1: "bracket_inv ?teams ps1 es1 n1 ({#x#} + sum_list (map otoks rounds) + otoks carry) d1" "n1 = n + d1"
      "otoks carry = {#} \<longleftrightarrow> otoks entrants = {#}" "length carry = (length entrants + 1) div 2" by auto
  obtain carry' lb ps2 es2 n2 where lower: "foldl de_lower_round (carry, 2, (ps1, es1, n1)) rounds =
      (carry', lb, (ps2, es2, n2))" by (metis prod.exhaust)
  have inv1: "bracket_inv ?teams ps1 es1 n1 ({#x#} + otoks carry + sum_list (map otoks rounds)) d1"
    using d1(1) by (simp add: ac_simps)
  have "tl ub = [] \<Longrightarrow> last ub = hd ub" using ub_split by (cases ub) auto
  then have "rounds = [] \<longrightarrow> length carry = 1"
    using d1(4) ub ub_split by (cases "lbs = []") (auto simp: rounds_def entrants_def)
  moreover have "rounds \<noteq> [] \<longrightarrow> length (last rounds) = 1"
    using ub(3) ub_split by (cases "lbs = []") (auto simp: rounds_def last_tl)
  moreover have "\<forall>ls \<in> set rounds. 1 \<le> length ls"
    using ub(2) ub_split by (cases ub; cases "lbs = []") (auto simp: rounds_def)
  ultimately obtain d2 where d2: "bracket_inv ?teams ps2 es2 n2 ({#x#} + otoks carry') d2" "n2 + d1 = n1 + d2"
      "otoks carry' = {#} \<longleftrightarrow> otoks carry + sum_list (map otoks rounds) = {#}" "length carry' = 1"
    using de_lower_rounds_inv [OF inv1 _ _ _ lower] by auto
  have "sum_list (map otoks ub) \<noteq> {#}" using n n_eq assms by auto
  then have "otoks entrants + sum_list (map otoks rounds) \<noteq> {#}" unfolding entr by simp
  then have "otoks carry' \<noteq> {#}" using d2(3) d1(3) by auto
  then obtain y where y: "carry' = [Some y]" using d2(4) by (cases carry'; cases "hd carry'") auto
  define sk where "sk = mk_skeleton (ps2 @ [mk_pairing [origin_team x, origin_team y] (int (k + 1)) ''Grand Final'' n2])
      (int (k + 1)) (es2 @ origin_edges x n2 1 @ origin_edges y n2 2)"
  have "bracket_inv ?teams ps2 es2 n2 ({#} + {#x#} + {#y#}) d2" using d2(1) by (simp add: y)
  from bracket_inv_match [OF this, of "int (k + 1)" "''Grand Final''"]
  have final: "bracket_inv ?teams (pairings sk) (advancement_edges sk) (Suc n2) {#WINNER n2, LOSER n2#} d2"
    by (simp add: sk_def mk_skeleton_def add_mset_commute)
  have len: "length (pairings sk) = Suc n2" by (rule bracket_inv_count(1) [OF final])
  then have sound: "sound_bracket ?teams sk" using final by (auto simp: sound_bracket_def Let_def)
  have "set (seeded_teams (pairings sk)) = set ?teams"
    using sound_seeded_once [OF sound] by (metis set_mset_mset)
  moreover have "t \<in> set (seeded_teams qs) \<longleftrightarrow> Some t \<in> set (concat (map team_ids qs))" for t qs
    by (induction qs) (auto simp: seeded_teams_def set_map_filter_iff)
  ultimately have none: "filter (\<lambda>t. Some t \<notin> set (concat (map team_ids (pairings sk)))) ?teams = []"
    by (auto simp: filter_empty_conv)
  have "de_generate ids lbs = Inr sk"
  proof -
    have "(if lbs \<noteq> [] then (de_pair_up (de_entrants lbs (ceil_log2 (length lbs))) (- 1) (lb_label 1) 0 (ps, es, n), ub)
        else (de_pair_up (hd ub) (- 1) (lb_label 1) 0 (ps, es, n), tl ub)) = (((carry, ls), (ps1, es1, n1)), rounds)"
      using first by (auto simp: entrants_def rounds_def)
    moreover have "de_play (if slots = [] then None else hd slots) (if carry' = [] then None else last carry')
        (int (k + 1)) ''Grand Final'' True (ps2, es2, n2) =
        ((Some (WINNER n2), Some (LOSER n2)), (pairings sk, advancement_edges sk, n2 + 1))"
      by (simp add: x y de_play_def sk_def mk_skeleton_def)
    ultimately show ?thesis
      using assms none unfolding de_generate_def Let_def k_def [symmetric] upper prod.case
      by (simp add: lower sk_def mk_skeleton_def del: filter_append set_concat upt_Suc)
  qed
  moreover have "length (pairings sk) + 2 = 2 * length ids + length lbs"
    using bracket_inv_count(2) [OF final] len d2(2) d1(2) n_eq by simp
  ultimately show ?thesis using sound by (auto simp: sk_def mk_skeleton_def k_def)
qed

section \<open>Properties\<close>

interpretation se: bracket_generator se_generate "\<lambda>ids. ids" "\<lambda>ids. 2 \<le> length ids \<and> distinct ids"
  by unfold_locales (auto intro: se_sound)

definition de_skeleton :: "int list \<times> int list \<Rightarrow> bracket_skeleton" where
  "de_skeleton i = (case de_generate (fst i) (snd i) of Inl e \<Rightarrow> mk_skeleton [] 0 [] | Inr sk \<Rightarrow> sk)"

interpretation de: bracket_generator de_skeleton "\<lambda>i. fst i @ snd i"
  "\<lambda>i. 2 \<le> length (fst i) \<and> distinct (fst i @ snd i)"
proof (unfold_locales, goal_cases)
  case (2 i)
  then show ?case using de_generate_sound [of "fst i" "snd i"] by (auto simp: de_skeleton_def)
qed simp

text \<open>C9: single elimination of n distinct teams has exactly n - 1 matches; every team is seeded into
  exactly one seat; the winner of every match but the final advances along exactly one edge; and every
  seat without a team is fed by exactly one edge.\<close>

theorem single_elimination_correct:
  assumes "2 \<le> length ids" and "distinct ids"
  shows "length (pairings (se_generate ids)) = length ids - 1 \<and>
    distinct (seeded_teams (pairings (se_generate ids))) \<and>
    set (seeded_teams (pairings (se_generate ids))) = set ids \<and>
    (\<forall>l < length ids - 2. \<exists>!e. e \<in> set (advancement_edges (se_generate ids)) \<and>
       source_local_id e = l \<and> source_position e = 1) \<and>
    (\<forall>p \<in> set (pairings (se_generate ids)). \<forall>k < length (team_ids p). team_ids p ! k = None \<longrightarrow>
       (\<exists>!e. e \<in> set (advancement_edges (se_generate ids)) \<and> target_local_id e = local_id p \<and>
          target_slot e = Suc k))"
  using se.everyone_seeded_once [of ids] se.winner_advances_once [of ids] se.open_seat_fed_once [of ids]
    se_sound(2) [OF assms(1)] assms by auto

theorem single_elimination_correct_witness:
  "length (pairings (se_generate [10, 20, 30, 40, 50])) = 4 \<and>
    set (seeded_teams (pairings (se_generate [10, 20, 30, 40, 50]))) = {10, 20, 30, 40, 50}"
  using single_elimination_correct [of "[10, 20, 30, 40, 50]"] by simp

text \<open>C8: double elimination of n upper and m lower seeds never drops a team, so its consistency check
  never fires; it has 2n + m - 2 matches, every team is seeded exactly once, every winner but the
  grand final's advances exactly once and every open seat is fed by exactly one edge.\<close>

theorem double_elimination_correct:
  assumes "2 \<le> length ids" and "distinct (ids @ lbs)"
  shows "\<exists>sk. de_generate ids lbs = Inr sk \<and> length (pairings sk) + 2 = 2 * length ids + length lbs \<and>
    distinct (seeded_teams (pairings sk)) \<and> set (seeded_teams (pairings sk)) = set (ids @ lbs) \<and>
    (\<forall>l < length (pairings sk) - 1. \<exists>!e. e \<in> set (advancement_edges sk) \<and>
       source_local_id e = l \<and> source_position e = 1) \<and>
    (\<forall>p \<in> set (pairings sk). \<forall>k < length (team_ids p). team_ids p ! k = None \<longrightarrow>
       (\<exists>!e. e \<in> set (advancement_edges sk) \<and> target_local_id e = local_id p \<and> target_slot e = Suc k))"
proof -
  obtain sk where sk: "de_generate ids lbs = Inr sk" "length (pairings sk) + 2 = 2 * length ids + length lbs"
    using de_generate_sound [OF assms(1), of lbs] by blast
  then have "de_skeleton (ids, lbs) = sk" by (simp add: de_skeleton_def)
  then show ?thesis
    using sk de.everyone_seeded_once [of "(ids, lbs)"] de.winner_advances_once [of "(ids, lbs)"]
      de.open_seat_fed_once [of "(ids, lbs)"] assms
    by (intro exI [of _ sk]) auto
qed

theorem double_elimination_correct_witness:
  "\<exists>sk. de_generate [1, 2, 3] [4, 5] = Inr sk \<and> length (pairings sk) + 2 = 8 \<and>
    set (seeded_teams (pairings sk)) = {1, 2, 3, 4, 5}"
  using double_elimination_correct [of "[1, 2, 3]" "[4, 5]"] by auto

end
