(* ===== verification/Bracket_Round_Robin.thy ===== *)
theory Bracket_Round_Robin
  imports Bracket_Types
begin

text \<open>
  The round-robin generator \<open>round_robin.py\<close>: the circle method on a list that is rotated
  around its first team after every round, with -1 as the sentinel of the bye. The lemmas follow the
  position of every team through the rotations and show that each pair of positions meets exactly once.
\<close>

definition BYE :: int where "BYE = - 1"

text \<open>\<open>teams.insert(1, teams.pop())\<close>\<close>

definition rr_rotate :: "int list \<Rightarrow> int list" where
  "rr_rotate teams = take 1 (butlast teams) @ [last teams] @ drop 1 (butlast teams)"

definition rr_pair :: "int list \<Rightarrow> nat \<Rightarrow> pairing list \<times> nat \<Rightarrow> nat \<Rightarrow> pairing list \<times> nat" where
  "rr_pair teams round_num st i =
     (case st of (ps, next_id) \<Rightarrow>
       let first = teams ! i; second = teams ! (length teams - 1 - i)
       in if first = BYE \<or> second = BYE then (ps, next_id)
          else (ps @ [mk_pairing [Some first, Some second] (int round_num + 1)
                 (''Round '' @ show_nat (round_num + 1)) next_id], next_id + 1))"

definition rr_round :: "int list \<times> pairing list \<times> nat \<Rightarrow> nat \<Rightarrow> int list \<times> pairing list \<times> nat" where
  "rr_round st round_num =
     (case st of (teams, ps, next_id) \<Rightarrow>
      case foldl (rr_pair teams round_num) (ps, next_id) [0..<length teams div 2] of
        (ps', next_id') \<Rightarrow> (rr_rotate teams, ps', next_id'))"

definition rr_generate :: "int list \<Rightarrow> bracket_skeleton" where
  "rr_generate ids =
     (let teams = (if length ids mod 2 \<noteq> 0 then ids @ [BYE] else ids);
          n = length teams;
          (teams', ps, next_id) = foldl rr_round (teams, [], 0) [0..<n - 1]
      in mk_skeleton ps (int n - 1) [])"

section \<open>Where a team stands after r rotations\<close>

text \<open>\<open>seat_index m r q\<close>: the original index of the team at position \<open>q\<close> in
  round \<open>r\<close>, in a circle of \<open>m + 1\<close> teams.\<close>

definition seat_index :: "nat \<Rightarrow> nat \<Rightarrow> nat \<Rightarrow> nat" where
  "seat_index m r q = (if q = 0 then 0 else Suc ((q - 1 + r * (m - 1)) mod m))"

lemma length_rr_rotate: "length teams = Suc m \<Longrightarrow> length (rr_rotate teams) = Suc m"
  by (cases m) (simp_all add: rr_rotate_def)

lemma rr_rotate_Cons: "ts \<noteq> [] \<Longrightarrow> rr_rotate (t # ts) = t # last ts # butlast ts"
  by (simp add: rr_rotate_def)

lemma rr_rotate_nth:
  assumes "length teams = Suc m" and "0 < m" and "q \<le> m"
  shows "rr_rotate teams ! q = teams ! seat_index m 1 q"
proof -
  obtain t ts where teams: "teams = t # ts" and ts: "length ts = m" using assms(1) by (cases teams) auto
  have "ts \<noteq> []" using ts assms(2) by auto
  note rot = rr_rotate_Cons [OF this, of t]
  consider "q = 0" | "q = 1" | p where "q = Suc (Suc p)" "Suc p < m"
    using assms(3) by (cases q; cases "q - 1") auto
  then show ?thesis
  proof cases
    case 1
    then show ?thesis unfolding teams rot by (simp add: seat_index_def)
  next
    case 2
    have "seat_index m 1 1 = m" using assms(2) by (simp add: seat_index_def)
    then show ?thesis using 2 \<open>ts \<noteq> []\<close> ts assms(2) unfolding teams rot by (simp add: last_conv_nth)
  next
    case 3
    have "(Suc p + (m - 1)) mod m = p" using 3(2) assms(2) by (simp add: mod_if)
    then have "seat_index m 1 q = Suc p" using 3(1) by (simp add: seat_index_def)
    then show ?thesis using 3 ts unfolding teams rot by (simp add: nth_butlast)
  qed
qed

lemma seat_index_step:
  "0 < m \<Longrightarrow> q \<le> m \<Longrightarrow> seat_index m r (seat_index m 1 q) = seat_index m (Suc r) q"
  by (cases q) (simp_all add: seat_index_def mod_add_left_eq add.assoc)

lemma seat_index_le: "0 < m \<Longrightarrow> seat_index m r q \<le> m"
  by (simp add: seat_index_def) (meson Suc_leI mod_less_divisor)

lemma rotations_nth:
  assumes "length teams = Suc m" and "0 < m" and "q \<le> m"
  shows "(rr_rotate ^^ r) teams ! q = teams ! seat_index m r q \<and> length ((rr_rotate ^^ r) teams) = Suc m"
  using assms(3)
proof (induction r arbitrary: q)
  case 0
  then show ?case using assms(1) by (cases q) (simp_all add: seat_index_def)
next
  case (Suc r)
  have len: "length ((rr_rotate ^^ r) teams) = Suc m" using Suc.IH by blast
  then have "(rr_rotate ^^ Suc r) teams ! q = (rr_rotate ^^ r) teams ! seat_index m 1 q"
    using rr_rotate_nth [OF _ assms(2) Suc.prems] by simp
  also have "\<dots> = teams ! seat_index m r (seat_index m 1 q)"
    using Suc.IH [OF seat_index_le [OF assms(2)]] by blast
  finally show ?case
    using seat_index_step [OF assms(2) Suc.prems] length_rr_rotate [OF len] by simp
qed

section \<open>Every two positions meet\<close>

text \<open>In round \<open>r\<close> the team of index \<open>x + 1\<close> sits at position \<open>(x + r) mod m + 1\<close>.\<close>

lemma seat_index_position:
  assumes "x < m"
  shows "seat_index m r (Suc ((x + r) mod m)) = Suc x"
proof -
  have "((x + r) mod m + r * (m - 1)) mod m = (x + r + r * (m - 1)) mod m" by (rule mod_add_left_eq)
  also have "x + r + r * (m - 1) = x + r * m" using assms by (cases m) simp_all
  finally show ?thesis using assms by (simp add: seat_index_def)
qed

lemma circle_meets_first:
  assumes "y < m"
  shows "seat_index m (m - 1 - y) m = Suc y"
  using seat_index_position [OF assms, of "m - 1 - y"] assms by simp

text \<open>Two other teams meet in the round that turns their indices into mirrored positions.\<close>

lemma circle_meets:
  assumes "odd m" and "x < m" and "y < m" and "x \<noteq> y"
  shows "\<exists>r < m. \<exists>q. 0 < q \<and> q < m \<and> seat_index m r q = Suc x \<and> seat_index m r (m - q) = Suc y"
proof -
  obtain h where h: "m = 2 * h + 1" using assms(1) by (rule oddE)
  define r where "r = (h * (x + y + 2)) mod m"
  define p where "p = (x + r) mod m"
  define q where "q = (y + r) mod m"
  have pq: "p < m" "q < m" "r < m" using h by (simp_all add: p_def q_def r_def)
  have "(p + q + 2) mod m = (x + y + 2 + 2 * r) mod m"
  proof -
    have "(p + q + 2) mod m = (x + r + (y + r) + 2) mod m"
      unfolding p_def q_def by (intro mod_add_cong mod_mod_trivial refl)
    moreover have "x + r + (y + r) + 2 = x + y + 2 + 2 * r" by simp
    ultimately show ?thesis by (simp only:)
  qed
  also have "\<dots> = (x + y + 2 + 2 * (h * (x + y + 2))) mod m"
    unfolding r_def by (metis mod_add_right_eq mod_mult_right_eq)
  also have "x + y + 2 + 2 * (h * (x + y + 2)) = (x + y + 2) * m" by (simp add: h algebra_simps)
  finally have "m dvd p + q + 2" by (simp add: mod_eq_0_iff_dvd)
  then obtain c where c: "p + q + 2 = m * c" by (auto elim: dvdE)
  have "m * c \<le> m * 2" using pq c by linarith
  then have "c \<le> 2" using assms(2) by simp
  moreover have "c \<noteq> 2"
  proof
    assume "c = 2"
    then have "p + q + 2 = m * 2" using c by (simp only:)
    then have "p = q" using pq by linarith
    then have "(x + r) mod m = (y + r) mod m" by (simp add: p_def q_def)
    then have "(int x + int r) mod int m = (int y + int r) mod int m" by (metis of_nat_add zmod_int)
    then have "int x mod int m = int y mod int m"
      by (metis add_diff_cancel_right' mod_diff_left_eq)
    then show False using assms by (simp flip: zmod_int)
  qed
  moreover have "c \<noteq> 0" using c by (cases c) simp_all
  ultimately have "c = 1" by linarith
  then have "p + q + 2 = m" using c by simp
  then have sum: "m - Suc p = Suc q" "Suc p < m" by linarith+
  have "seat_index m r (Suc p) = Suc x" "seat_index m r (Suc q) = Suc y"
    using seat_index_position assms by (simp_all add: p_def q_def)
  then show ?thesis using sum pq by (intro exI [of _ r] conjI exI [of _ "Suc p"]) simp_all
qed

definition circle_pairs :: "nat \<Rightarrow> nat set list" where
  "circle_pairs m = concat (map (\<lambda>r. map (\<lambda>i. {seat_index m r i, seat_index m r (m - i)}) [0..<Suc m div 2]) [0..<m])"

lemma cover_exact: "finite A \<Longrightarrow> A \<subseteq> set xs \<Longrightarrow> length xs \<le> card A \<Longrightarrow> distinct xs \<and> set xs = A"
  by (metis List.finite_set card_distinct card_length card_mono card_seteq le_antisym order_trans)

lemma length_concat_const: "(\<And>r. r \<in> set rs \<Longrightarrow> length (f r) = c) \<Longrightarrow> length (concat (map f rs)) = length rs * c"
  by (induction rs) simp_all

lemma circle_pairs_cover:
  assumes "odd m" and "a \<le> m" and "b \<le> m" and "a < b"
  shows "{a, b} \<in> set (circle_pairs m)"
proof -
  have base: "{seat_index m r i, seat_index m r (m - i)} \<in> set (circle_pairs m)" if "r < m" "i < Suc m div 2" for r i
  proof -
    have "{seat_index m r i, seat_index m r (m - i)} \<in>
        set (map (\<lambda>i. {seat_index m r i, seat_index m r (m - i)}) [0..<Suc m div 2])" using that(2) by force
    then show ?thesis unfolding circle_pairs_def using that(1) by fastforce
  qed
  have mem: "{seat_index m r q, seat_index m r (m - q)} \<in> set (circle_pairs m)" if "r < m" "q \<le> m" for r q
  proof (cases "q < Suc m div 2")
    case False
    then have "m - q < Suc m div 2" "m - (m - q) = q" using that(2) assms(1) by (auto elim!: oddE)
    then show ?thesis using base [OF that(1), of "m - q"] by (simp add: insert_commute)
  qed (use that(1) base in blast)
  obtain y where y: "b = Suc y" using assms(4) by (cases b) auto
  show ?thesis
  proof (cases a)
    case 0
    have "{seat_index m (m - 1 - y) 0, seat_index m (m - 1 - y) (m - 0)} \<in> set (circle_pairs m)"
      by (rule mem) (use assms y in auto)
    then show ?thesis using circle_meets_first [of y m] assms y 0 by (simp add: seat_index_def [of m _ 0])
  next
    case (Suc x)
    then obtain r q where "r < m" "q < m" "seat_index m r q = a" "seat_index m r (m - q) = b"
      using circle_meets [OF assms(1), of x y] assms y by auto
    then show ?thesis using mem [of r q] by simp
  qed
qed

lemma circle_pairs_exact:
  assumes "odd m"
  shows "distinct (circle_pairs m) \<and> set (circle_pairs m) = {P. P \<subseteq> {0..m} \<and> card P = 2}"
proof (rule cover_exact)
  show "{P. P \<subseteq> {0..m} \<and> card P = 2} \<subseteq> set (circle_pairs m)"
  proof clarify
    fix P assume P: "P \<subseteq> {0..m}" "card P = 2"
    then obtain a b where "P = {a, b}" "a \<noteq> b" by (auto simp: card_2_iff)
    then have "P = {min a b, max a b}" "min a b < max a b" "min a b \<le> m" "max a b \<le> m"
      using P(1) by (auto simp: min_def max_def)
    then show "P \<in> set (circle_pairs m)" using circle_pairs_cover [OF assms, of "min a b" "max a b"] by simp
  qed
  have "length (circle_pairs m) = m * (Suc m div 2)"
    unfolding circle_pairs_def by (subst length_concat_const [where c = "Suc m div 2"]) simp_all
  also have "\<dots> = Suc m choose 2" using assms by (auto simp: choose_two elim!: oddE)
  finally show "length (circle_pairs m) \<le> card {P. P \<subseteq> {0..m} \<and> card P = 2}"
    by (simp add: n_subsets)
qed simp

section \<open>The generated rounds\<close>

definition pairing_view :: "pairing \<Rightarrow> int option list \<times> int" where
  "pairing_view p = (team_ids p, round_number p)"

definition round_view :: "int list \<Rightarrow> nat \<Rightarrow> nat list \<Rightarrow> (int option list \<times> int) list" where
  "round_view teams r is = List.map_filter (\<lambda>i.
     if teams ! i = BYE \<or> teams ! (length teams - 1 - i) = BYE then None
     else Some ([Some (teams ! i), Some (teams ! (length teams - 1 - i))], int r + 1)) is"

lemma rr_pair_fold:
  "map local_id ps = [0..<k] \<Longrightarrow> case foldl (rr_pair teams r) (ps, k) is of (ps', k') \<Rightarrow>
     map local_id ps' = [0..<k'] \<and> map pairing_view ps' = map pairing_view ps @ round_view teams r is"
proof (induction "is" arbitrary: ps k)
  case (Cons i "is")
  show ?case
  proof (cases "teams ! i = BYE \<or> teams ! (length teams - 1 - i) = BYE")
    case True
    then show ?thesis using Cons.IH [OF Cons.prems] by (simp add: rr_pair_def round_view_def map_filter_Cons Let_def)
  next
    case False
    let ?p = "mk_pairing [Some (teams ! i), Some (teams ! (length teams - 1 - i))] (int r + 1)
      (''Round '' @ show_nat (r + 1)) k"
    have "map local_id (ps @ [?p]) = [0..<k + 1]" using Cons.prems by (simp add: mk_pairing_def)
    from Cons.IH [OF this] show ?thesis using False
      by (simp add: rr_pair_def round_view_def map_filter_Cons Let_def pairing_view_def mk_pairing_def split: prod.splits)
  qed
qed (simp add: round_view_def map_filter_simps)

lemma rr_round_fold:
  assumes "length T = Suc m"
  shows "case foldl rr_round (T, [], 0) [0..<R] of (teams, ps, k) \<Rightarrow>
     teams = (rr_rotate ^^ R) T \<and> length teams = Suc m \<and> map local_id ps = [0..<k] \<and>
     map pairing_view ps = concat (map (\<lambda>r. round_view ((rr_rotate ^^ r) T) r [0..<Suc m div 2]) [0..<R])"
proof (induction R)
  case (Suc R)
  obtain teams ps k where st: "foldl rr_round (T, [], 0) [0..<R] = (teams, ps, k)" by (metis prod_cases3)
  have inv: "teams = (rr_rotate ^^ R) T" "length teams = Suc m" "map local_id ps = [0..<k]"
    "map pairing_view ps = concat (map (\<lambda>r. round_view ((rr_rotate ^^ r) T) r [0..<Suc m div 2]) [0..<R])"
    using Suc unfolding st prod.case by blast+
  obtain ps' k' where st': "foldl (rr_pair teams R) (ps, k) [0..<Suc m div 2] = (ps', k')" by (metis prod.exhaust)
  have "foldl rr_round (T, [], 0) [0..<Suc R] = (rr_rotate teams, ps', k')"
    using st st' inv(2) by (simp add: rr_round_def)
  moreover have "map local_id ps' = [0..<k'] \<and>
      map pairing_view ps' = map pairing_view ps @ round_view teams R [0..<Suc m div 2]"
    using rr_pair_fold [OF inv(3), of teams R "[0..<Suc m div 2]"] st' by simp
  ultimately show ?case using inv length_rr_rotate [OF inv(2)] by simp
qed (simp add: assms)

definition meeting :: "pairing \<Rightarrow> int option set" where
  "meeting p = set (team_ids p)"

definition all_meetings :: "int list \<Rightarrow> int option set set" where
  "all_meetings ids = {{Some a, Some b} |a b. a \<in> set ids \<and> b \<in> set ids \<and> a \<noteq> b}"

text \<open>The bye stands in the circle like a team; its pairs are the ones the generator skips.\<close>

lemma round_view_meetings:
  assumes "length T = Suc m" and "0 < m" and "\<And>i. i \<in> set is \<Longrightarrow> i \<le> m"
  shows "map (set \<circ> fst) (round_view ((rr_rotate ^^ r) T) r is) =
    map (\<lambda>P. Some ` (!) T ` P) (filter (\<lambda>P. BYE \<notin> (!) T ` P)
      (map (\<lambda>i. {seat_index m r i, seat_index m r (m - i)}) is))"
  using assms(3)
proof (induction "is")
  case (Cons i "is")
  have len: "length ((rr_rotate ^^ r) T) = Suc m" using rotations_nth [OF assms(1,2)] by blast
  have "(rr_rotate ^^ r) T ! i = T ! seat_index m r i" "(rr_rotate ^^ r) T ! (m - i) = T ! seat_index m r (m - i)"
    using rotations_nth [OF assms(1,2), of i r] rotations_nth [OF assms(1,2), of "m - i" r] Cons.prems by auto
  then show ?case using Cons len by (auto simp: round_view_def map_filter_Cons)
qed (simp add: round_view_def map_filter_simps)

lemma circle_meetings:
  assumes "distinct T" and "length T = Suc m" and "odd m"
  shows "distinct (map (\<lambda>P. Some ` (!) T ` P) (filter (\<lambda>P. BYE \<notin> (!) T ` P) (circle_pairs m))) \<and>
    set (map (\<lambda>P. Some ` (!) T ` P) (filter (\<lambda>P. BYE \<notin> (!) T ` P) (circle_pairs m))) =
      {{Some a, Some b} |a b. a \<in> set T - {BYE} \<and> b \<in> set T - {BYE} \<and> a \<noteq> b}" (is "?D \<and> ?L = ?R")
proof
  have idx: "{0..m} = {..<length T}" using assms(2) by auto
  have inj: "inj_on ((!) T) {0..m}" unfolding idx by (rule inj_on_nth) (use assms(1) in auto)
  have "inj_on (\<lambda>P. Some ` (!) T ` P) (Pow {0..m})"
  proof (rule inj_onI)
    fix P Q assume PQ: "P \<in> Pow {0..m}" "Q \<in> Pow {0..m}" "Some ` (!) T ` P = Some ` (!) T ` Q"
    then have "(!) T ` P = (!) T ` Q" by (simp add: inj_image_eq_iff)
    then show "P = Q" using inj PQ(1,2) by (simp add: inj_on_image_eq_iff)
  qed
  then show ?D using circle_pairs_exact [OF assms(3)]
    by (auto simp: distinct_map elim!: inj_on_subset)
  show "?L = ?R"
  proof (intro equalityI subsetI)
    fix X assume "X \<in> ?L"
    then obtain i j where ij: "i \<le> m" "j \<le> m" "i \<noteq> j" "T ! i \<noteq> BYE" "T ! j \<noteq> BYE" "X = {Some (T ! i), Some (T ! j)}"
      using circle_pairs_exact [OF assms(3)] by (auto simp: card_2_iff)
    then have "T ! i \<noteq> T ! j" using assms(1,2) by (simp add: nth_eq_iff_index_eq)
    moreover have "T ! i \<in> set T" "T ! j \<in> set T" using ij(1,2) assms(2) by simp_all
    ultimately show "X \<in> ?R" using ij(4-6) by blast
  next
    fix X assume "X \<in> ?R"
    then obtain a b where ab: "X = {Some a, Some b}" "a \<in> set T - {BYE}" "b \<in> set T - {BYE}" "a \<noteq> b" by blast
    have "\<exists>i \<le> m. T ! i = c" if "c \<in> set T" for c
      using that assms(2) by (metis in_set_conv_nth less_Suc_eq_le)
    then obtain i j where ij: "i \<le> m" "j \<le> m" "T ! i = a" "T ! j = b" using ab(2,3) by blast
    then have "{i, j} \<in> set (circle_pairs m)" using ab circle_pairs_exact [OF assms(3)] by (cases "i = j") auto
    then show "X \<in> ?L" using ab ij by (auto intro!: image_eqI [of _ _ "{i, j}"])
  qed
qed

lemma distinct_concat_map:
  "distinct xs \<Longrightarrow> (\<And>x. x \<in> set xs \<Longrightarrow> distinct (F x)) \<Longrightarrow>
    (\<And>x y. x \<in> set xs \<Longrightarrow> y \<in> set xs \<Longrightarrow> x \<noteq> y \<Longrightarrow> set (F x) \<inter> set (F y) = {}) \<Longrightarrow>
    distinct (concat (map F xs))"
proof (induction xs)
  case (Cons x xs)
  have "set (F x) \<inter> set (concat (map F xs)) = {}" using Cons.prems by force
  then show ?case using Cons by simp
qed simp

lemma round_view_no_clash:
  assumes "distinct T" and "length T = Suc m" and "odd m"
  shows "distinct (concat (map fst (round_view T r [0..<Suc m div 2])))"
proof -
  let ?F = "\<lambda>i. if T ! i = BYE \<or> T ! (m - i) = BYE then [] else [Some (T ! i), Some (T ! (m - i))]"
  have "concat (map fst (round_view T r is)) = concat (map ?F is)" for "is"
    using assms(2) by (induction "is") (auto simp: round_view_def map_filter_Cons map_filter_simps)
  moreover have "distinct (concat (map ?F [0..<Suc m div 2]))"
    by (rule distinct_concat_map) (use assms in \<open>auto simp: nth_eq_iff_index_eq elim!: oddE\<close>)
  ultimately show ?thesis by simp
qed

lemma mset_rr_rotate:
  assumes "teams \<noteq> []"
  shows "mset (rr_rotate teams) = mset teams"
proof -
  have "mset (take 1 xs) + mset (drop 1 xs) = mset xs" for xs :: "int list"
    by (metis append_take_drop_id mset_append)
  then have "mset (rr_rotate teams) = mset (butlast teams @ [last teams])" by (simp add: rr_rotate_def)
  then show ?thesis using assms by simp
qed

lemma distinct_rotation: "distinct T \<Longrightarrow> length T = Suc m \<Longrightarrow> 0 < m \<Longrightarrow> distinct ((rr_rotate ^^ r) T)"
proof (induction r)
  case (Suc r)
  let ?T = "(rr_rotate ^^ r) T"
  have "length ?T = Suc m" using rotations_nth [OF Suc.prems(2,3)] by blast
  then have "mset (rr_rotate ?T) = mset ?T" by (intro mset_rr_rotate) auto
  then show ?case using Suc by (metis funpow.simps(2) mset_eq_imp_distinct_iff o_apply)
qed simp

section \<open>The whole tournament\<close>

lemma rr_generate_views:
  assumes "distinct ids" and "BYE \<notin> set ids"
  obtains T m where "distinct T" and "length T = Suc m" and "odd m" and "set T - {BYE} = set ids"
    and "map local_id (pairings (rr_generate ids)) = [0..<length (pairings (rr_generate ids))]"
    and "map pairing_view (pairings (rr_generate ids)) =
      concat (map (\<lambda>r. round_view ((rr_rotate ^^ r) T) r [0..<Suc m div 2]) [0..<m])"
    and "total_rounds (rr_generate ids) = int m"
    and "m = (if even (length ids) then length ids - 1 else length ids)"
  | "ids = []"
proof (cases "ids = []")
  case False
  define T where "T = (if length ids mod 2 \<noteq> 0 then ids @ [BYE] else ids)"
  define m where "m = length T - 1"
  have "0 < length ids" using False by simp
  then have T: "distinct T" "length T = Suc m" "odd m" "set T - {BYE} = set ids"
    using assms by (auto simp: T_def m_def elim!: oddE evenE)
  obtain teams ps k where st: "foldl rr_round (T, [], 0) [0..<m] = (teams, ps, k)" by (metis prod_cases3)
  have ps: "map local_id ps = [0..<k]"
    "map pairing_view ps = concat (map (\<lambda>r. round_view ((rr_rotate ^^ r) T) r [0..<Suc m div 2]) [0..<m])"
    using rr_round_fold [OF T(2), of m] unfolding st prod.case by blast+
  then have "k = length ps" by (metis length_map length_upt minus_nat.diff_0)
  moreover have "rr_generate ids = mk_skeleton ps (int (length T) - 1) []"
    unfolding rr_generate_def Let_def T_def [symmetric] m_def [symmetric] st by simp
  moreover have "m = (if even (length ids) then length ids - 1 else length ids)" by (simp add: m_def T_def even_iff_mod_2_eq_zero)
  ultimately show ?thesis using that(1) [OF T] ps T(2) by (simp add: mk_skeleton_def)
qed (use that(2) in blast)

lemma views_meetings:
  assumes "length T = Suc m" and "0 < m"
    and "map pairing_view ps = concat (map (\<lambda>r. round_view ((rr_rotate ^^ r) T) r [0..<Suc m div 2]) [0..<m])"
  shows "map meeting ps = map (\<lambda>P. Some ` (!) T ` P) (filter (\<lambda>P. BYE \<notin> (!) T ` P) (circle_pairs m))"
proof -
  have "map meeting ps = map (set \<circ> fst) (map pairing_view ps)" by (simp add: meeting_def pairing_view_def)
  also have "\<dots> = concat (map (\<lambda>r. map (set \<circ> fst) (round_view ((rr_rotate ^^ r) T) r [0..<Suc m div 2])) [0..<m])"
    unfolding assms(3) by (simp add: map_concat o_def)
  also have "\<dots> = concat (map (\<lambda>r. map (\<lambda>P. Some ` (!) T ` P) (filter (\<lambda>P. BYE \<notin> (!) T ` P)
      (map (\<lambda>i. {seat_index m r i, seat_index m r (m - i)}) [0..<Suc m div 2]))) [0..<m])"
    by (intro arg_cong [of _ _ concat] map_cong refl round_view_meetings [OF assms(1,2)]) auto
  finally show ?thesis by (simp add: circle_pairs_def map_concat filter_concat o_def)
qed

lemma views_of_round:
  assumes "map pairing_view ps = concat (map (\<lambda>r. round_view (T r) r is) [0..<m])"
  shows "map team_ids (filter (\<lambda>p. round_number p = r) ps) =
    (if 1 \<le> r \<and> r \<le> int m then map fst (round_view (T (nat r - 1)) (nat r - 1) is) else [])"
proof -
  have "map team_ids (filter (\<lambda>p. round_number p = r) ps) = map fst (filter (\<lambda>v. snd v = r) (map pairing_view ps))"
    by (simp add: filter_map pairing_view_def o_def)
  also have "filter (\<lambda>v. snd v = r) (map pairing_view ps) =
      concat (map (\<lambda>k. if int k + 1 = r then round_view (T k) k is else []) [0..<m])"
  proof -
    have "filter (\<lambda>v. snd v = r) (round_view teams k is) = (if int k + 1 = r then round_view teams k is else [])"
      for teams k by (induction "is") (auto simp: round_view_def map_filter_Cons map_filter_simps)
    then show ?thesis unfolding assms by (simp add: filter_concat o_def)
  qed
  also have "\<dots> = (if 1 \<le> r \<and> r \<le> int m then round_view (T (nat r - 1)) (nat r - 1) is else [])"
    by (induction m) (auto simp: nat_add_distrib)
  finally show ?thesis by simp
qed

lemma views_no_clash:
  assumes "distinct T" and "length T = Suc m" and "odd m"
    and "map pairing_view ps = concat (map (\<lambda>r. round_view ((rr_rotate ^^ r) T) r [0..<Suc m div 2]) [0..<m])"
  shows "distinct (concat (map team_ids (filter (\<lambda>p. round_number p = r) ps)))"
proof -
  have m: "0 < m" using assms(3) by (cases m) auto
  have "distinct (concat (map fst (round_view ((rr_rotate ^^ k) T) k' [0..<Suc m div 2])))" for k k'
    by (rule round_view_no_clash [OF distinct_rotation [OF assms(1,2) m] _ assms(3)])
      (use rotations_nth [OF assms(2) m] in blast)
  then show ?thesis unfolding views_of_round [OF assms(4)] by simp
qed

lemma views_in_range:
  assumes "map pairing_view ps = concat (map (\<lambda>r. round_view (T r) r is) [0..<m])" and "p \<in> set ps"
  shows "1 \<le> round_number p \<and> round_number p \<le> int m"
proof -
  have "team_ids p \<in> set (map team_ids (filter (\<lambda>q. round_number q = round_number p) ps))" using assms(2) by simp
  then show ?thesis unfolding views_of_round [OF assms(1)] by (simp split: if_splits)
qed

text \<open>C13: every two teams of a round robin meet exactly once, no team is scheduled twice in one
  round, rounds are numbered from 1 to \<open>total_rounds\<close> and matches from 0 on; an odd team
  count costs nothing but the skipped bye matches.\<close>

theorem round_robin_complete:
  assumes "distinct ids" and "BYE \<notin> set ids"
  shows "distinct (map meeting (pairings (rr_generate ids))) \<and>
    set (map meeting (pairings (rr_generate ids))) = all_meetings ids \<and>
    (\<forall>r. distinct (concat (map team_ids (filter (\<lambda>p. round_number p = r) (pairings (rr_generate ids)))))) \<and>
    (\<forall>p \<in> set (pairings (rr_generate ids)). 1 \<le> round_number p \<and> round_number p \<le> total_rounds (rr_generate ids)) \<and>
    map local_id (pairings (rr_generate ids)) = [0..<length (pairings (rr_generate ids))] \<and>
    (ids = [] \<or> total_rounds (rr_generate ids) = (if even (length ids) then int (length ids) - 1 else int (length ids)))"
  using assms
proof (cases rule: rr_generate_views)
  case (1 T m)
  note views = 1
  let ?ps = "pairings (rr_generate ids)"
  have m: "0 < m" using views(3) by (cases m) auto
  have "map meeting ?ps = map (\<lambda>P. Some ` (!) T ` P) (filter (\<lambda>P. BYE \<notin> (!) T ` P) (circle_pairs m))"
    using views_meetings [OF views(2) m views(6)] .
  then have "distinct (map meeting ?ps) \<and> set (map meeting ?ps) = all_meetings ids"
    using circle_meetings [OF views(1-3)] views(4) by (simp add: all_meetings_def)
  moreover have "distinct (concat (map team_ids (filter (\<lambda>p. round_number p = r) ?ps)))" for r
    by (rule views_no_clash [OF views(1-3,6)])
  moreover have "1 \<le> round_number p \<and> round_number p \<le> int m" if "p \<in> set ?ps" for p
    by (rule views_in_range [OF views(6) that])
  moreover have "ids = [] \<or> int m = (if even (length ids) then int (length ids) - 1 else int (length ids))"
    using views(8) by (cases ids) auto
  ultimately show ?thesis using views(5) unfolding views(7) by blast
qed (simp add: rr_generate_def mk_skeleton_def all_meetings_def)

theorem round_robin_complete_witness:
  "set (map meeting (pairings (rr_generate [7, 3, 9]))) = all_meetings [7, 3, 9] \<and>
   map team_ids (pairings (rr_generate [7, 3, 9])) = [[Some 3, Some 9], [Some 7, Some 9], [Some 7, Some 3]] \<and>
   total_rounds (rr_generate [7, 3, 9]) = 3"
proof -
  have "map team_ids (pairings (rr_generate [7, 3, 9])) = [[Some 3, Some 9], [Some 7, Some 9], [Some 7, Some 3]]"
    by code_simp
  then show ?thesis using round_robin_complete [of "[7, 3, 9]"] by (simp add: BYE_def)
qed

end
