(* ===== verification/Bracket_Swiss.thy ===== *)
theory Bracket_Swiss
  imports Bracket_Types
begin

text \<open>
  The Swiss round generator \<open>swiss.py\<close>. Points and tie-breaks are values of any linear order
  (floats without NaN). The two generators \<open>_iter_pairings\<close> and \<open>_has_perfect_matching\<close> are
  depth-first searches that thread the node budget; the consumer of the lazily yielded rounds
  (\<open>islice\<close>, look-ahead, early return) sits at the leaves. The wall clock is the parameter
  \<open>late\<close>: what the comparison with the deadline says when it is read with \<open>r\<close> nodes left.
\<close>

section \<open>Standings, thresholds\<close>

record 'f swiss_standing =
  swiss_team :: int
  points :: 'f
  buchholz :: 'f
  swiss_wins :: int
  swiss_losses :: int

datatype swiss_status = QUALIFIED | ELIMINATED

record swiss_thresholds =
  qualify_wins :: "int option"
  eliminate_losses :: "int option"

definition thresholds_bool :: "swiss_thresholds \<Rightarrow> bool" where
  "thresholds_bool t \<longleftrightarrow> qualify_wins t \<noteq> None \<or> eliminate_losses t \<noteq> None"

definition threshold_status :: "swiss_thresholds \<Rightarrow> int \<Rightarrow> int \<Rightarrow> swiss_status option" where
  "threshold_status t wins losses =
     (if (case qualify_wins t of None \<Rightarrow> False | Some q \<Rightarrow> q \<le> wins) then Some QUALIFIED
      else if (case eliminate_losses t of None \<Rightarrow> False | Some e \<Rightarrow> e \<le> losses) then Some ELIMINATED
      else None)"

definition stakes :: "swiss_thresholds \<Rightarrow> (int \<times> int) list \<Rightarrow> bool \<times> bool" where
  "stakes t records =
     ((case qualify_wins t of None \<Rightarrow> False | Some q \<Rightarrow> list_ex (\<lambda>(wins, losses). q \<le> wins + 1) records),
      (case eliminate_losses t of None \<Rightarrow> False | Some e \<Rightarrow> list_ex (\<lambda>(wins, losses). e \<le> losses + 1) records))"

section \<open>Score groups and the Monrad order\<close>

record team_meta =
  rank_index :: int
  group_index :: int
  pos_in_group :: int
  group_size :: int

definition half_size :: "team_meta \<Rightarrow> int" where
  "half_size m = group_size m div 2"

definition is_top_half :: "team_meta \<Rightarrow> bool" where
  "is_top_half m \<longleftrightarrow> pos_in_group m < half_size m"

definition is_bottom_half :: "team_meta \<Rightarrow> bool" where
  "is_bottom_half m \<longleftrightarrow> half_size m \<le> pos_in_group m \<and> pos_in_group m < half_size m * 2"

definition bye_candidates :: "int list \<Rightarrow> int set \<Rightarrow> int option list" where
  "bye_candidates ids bye_history =
     (if length ids mod 2 = 0 then [None]
      else let lowest_first = rev ids;
               without_bye = filter (\<lambda>t. t \<notin> bye_history) lowest_first
           in map Some (if without_bye \<noteq> [] then without_bye else lowest_first))"

definition group_step ::
  "'f swiss_standing list list \<times> 'f swiss_standing list \<times> 'f option \<Rightarrow> 'f swiss_standing \<Rightarrow>
   'f swiss_standing list list \<times> 'f swiss_standing list \<times> 'f option" where
  "group_step st standing =
     (case st of (groups, current, group_key) \<Rightarrow>
       let key = points standing;
           (groups, current) = (if Some key \<noteq> group_key \<and> current \<noteq> [] then (groups @ [current], []) else (groups, current))
       in (groups, current @ [standing], Some key))"

definition score_groups :: "'f swiss_standing list \<Rightarrow> 'f swiss_standing list list" where
  "score_groups teams =
     (case foldl group_step ([], [], None) teams of
        (groups, current, group_key) \<Rightarrow> if current \<noteq> [] then groups @ [current] else groups)"

definition build_team_meta :: "'f swiss_standing list \<Rightarrow> (int, team_meta) dict" where
  "build_team_meta teams = fst (foldl (\<lambda>st (gi, group).
     foldl (\<lambda>(metadata, rank) (pos, standing).
       (dict_set (swiss_team standing)
          \<lparr>rank_index = rank, group_index = int gi, pos_in_group = int pos, group_size = int (length group)\<rparr> metadata,
        rank + 1))
       st (zip [0..<length group] group))
     ([], 0) (zip [0..<length (score_groups teams)] (score_groups teams)))"

definition pair_bucket :: "team_meta \<Rightarrow> team_meta \<Rightarrow> int" where
  "pair_bucket anchor candidate =
     (if group_index anchor = group_index candidate then
        if is_top_half anchor \<and> is_bottom_half candidate \<or> is_bottom_half anchor \<and> is_top_half candidate then 0 else 1
      else 2)"

definition NON_CANONICAL_DISTANCE :: int where "NON_CANONICAL_DISTANCE = 10000"

definition canonical_distance :: "team_meta \<Rightarrow> team_meta \<Rightarrow> int" where
  "canonical_distance anchor candidate =
     (if group_index anchor \<noteq> group_index candidate then NON_CANONICAL_DISTANCE
      else if is_top_half anchor \<and> is_bottom_half candidate then
        \<bar>pos_in_group candidate - (half_size anchor + pos_in_group anchor)\<bar>
      else if is_bottom_half anchor \<and> is_top_half candidate then
        \<bar>pos_in_group candidate - (pos_in_group anchor - half_size anchor)\<bar>
      else NON_CANONICAL_DISTANCE)"

definition meta_of :: "(int, team_meta) dict \<Rightarrow> int \<Rightarrow> team_meta" where
  "meta_of metadata t = the (map_of metadata t)"

definition pair_priority :: "(int, team_meta) dict \<Rightarrow> int \<Rightarrow> int \<Rightarrow> int \<times> int \<times> int \<times> int \<times> int" where
  "pair_priority metadata a c =
     (let anchor = meta_of metadata a; candidate = meta_of metadata c
      in (pair_bucket anchor candidate, \<bar>group_index anchor - group_index candidate\<bar>,
          canonical_distance anchor candidate, \<bar>rank_index candidate - rank_index anchor\<bar>, rank_index candidate))"

section \<open>The searches and their budget\<close>

definition SEARCH_NODE_BUDGET :: int where "SEARCH_NODE_BUDGET = 50000"
definition LOOKAHEAD_BUDGET :: nat where "LOOKAHEAD_BUDGET = 200"

text \<open>\<open>None\<close> is the exception \<open>_BudgetExhausted\<close>.\<close>

definition spend :: "(int \<Rightarrow> bool) \<Rightarrow> int \<Rightarrow> int option" where
  "spend late remaining =
     (let remaining = remaining - 1
      in if remaining < 0 \<or> remaining mod 256 = 0 \<and> late remaining then None else Some remaining)"

function pm_search :: "(int \<Rightarrow> bool) \<Rightarrow> int set set \<Rightarrow> int list \<Rightarrow> int \<Rightarrow> (bool \<times> int) option"
  and pm_candidates :: "(int \<Rightarrow> bool) \<Rightarrow> int set set \<Rightarrow> int \<Rightarrow> int list \<Rightarrow> int list \<Rightarrow> int \<Rightarrow> (bool \<times> int) option"
where
  "pm_search late played remaining b =
     (case spend late b of
        None \<Rightarrow> None
      | Some b \<Rightarrow> (case remaining of
          [] \<Rightarrow> Some (True, b)
        | anchor # rest \<Rightarrow> pm_candidates late played anchor rest rest b))"
| "pm_candidates late played anchor rest [] b = Some (False, b)"
| "pm_candidates late played anchor rest (c # cs) b =
     (if {anchor, c} \<in> played then pm_candidates late played anchor rest cs b
      else (case pm_search late played (filter (\<lambda>t. t \<noteq> c) rest) b of
          None \<Rightarrow> None
        | Some (found, b) \<Rightarrow> if found then Some (True, b) else pm_candidates late played anchor rest cs b))"
  by pat_completeness auto

termination
  by (relation "inv_image (less_than <*lex*> less_than)
        (\<lambda>x. case x of Inl (late, played, remaining, b) \<Rightarrow> (length remaining, 0)
          | Inr (late, played, anchor, rest, cs, b) \<Rightarrow> (length rest, Suc (length cs)))")
    (auto simp: le_imp_less_or_eq [OF length_filter_le])

definition has_perfect_matching :: "(int \<Rightarrow> bool) \<Rightarrow> int list \<Rightarrow> int set set \<Rightarrow> int \<Rightarrow> (bool \<times> int) option" where
  "has_perfect_matching late ids played b = pm_search late played ids b"

definition keeps_next_round_pairable ::
  "(int \<Rightarrow> bool) \<Rightarrow> int list \<Rightarrow> int set set \<Rightarrow> (int \<times> int) list \<Rightarrow> int \<Rightarrow> (bool \<times> int) option" where
  "keeps_next_round_pairable late ids played pair_order b =
     (if length ids mod 2 \<noteq> 0 then Some (True, b)
      else let after = played \<union> set (map (\<lambda>(a, c). {a, c}) pair_order)
           in if length ids * (length ids - 1) div 2 \<le> card after then Some (True, b)
              else has_perfect_matching late ids after b)"

type_synonym choice = "int option \<times> (int \<times> int) list"

datatype search_step =
    Going "choice option" nat int
  | Halted "choice option" int
  | Chosen choice
  | Exhausted "choice option"

definition take_option ::
  "(int \<Rightarrow> bool) \<Rightarrow> int list \<Rightarrow> int set set \<Rightarrow> int option \<Rightarrow> (int \<times> int) list \<Rightarrow> choice option \<Rightarrow> nat \<Rightarrow> int \<Rightarrow> search_step" where
  "take_option late ids played bye option first seen b =
     (let first = (case first of None \<Rightarrow> Some (bye, option) | Some x \<Rightarrow> Some x)
      in case keeps_next_round_pairable late ids played option b of
           None \<Rightarrow> Exhausted first
         | Some (keeps, b) \<Rightarrow>
             if keeps then Chosen (bye, option)
             else if LOOKAHEAD_BUDGET \<le> seen + 1 then Halted first b
             else Going first (seen + 1) b)"

definition iter_priority ::
  "int set set \<Rightarrow> (int, team_meta) dict \<Rightarrow> int \<Rightarrow> int \<Rightarrow> int \<times> int \<times> int \<times> int \<times> int \<times> int" where
  "iter_priority played metadata anchor candidate =
     ((if {anchor, candidate} \<in> played then 1 else 0), pair_priority metadata anchor candidate)"

function iter_search ::
  "bool \<Rightarrow> int set set \<Rightarrow> (int, team_meta) dict \<Rightarrow> (int \<Rightarrow> bool) \<Rightarrow>
   ((int \<times> int) list \<Rightarrow> choice option \<Rightarrow> nat \<Rightarrow> int \<Rightarrow> search_step) \<Rightarrow>
   (int \<times> int) list \<Rightarrow> int list \<Rightarrow> choice option \<Rightarrow> nat \<Rightarrow> int \<Rightarrow> search_step"
  and iter_candidates ::
  "bool \<Rightarrow> int set set \<Rightarrow> (int, team_meta) dict \<Rightarrow> (int \<Rightarrow> bool) \<Rightarrow>
   ((int \<times> int) list \<Rightarrow> choice option \<Rightarrow> nat \<Rightarrow> int \<Rightarrow> search_step) \<Rightarrow>
   (int \<times> int) list \<Rightarrow> int \<Rightarrow> int list \<Rightarrow> int list \<Rightarrow> choice option \<Rightarrow> nat \<Rightarrow> int \<Rightarrow> search_step"
where
  "iter_search rematches played metadata late consume prefix remaining first seen b =
     (case spend late b of
        None \<Rightarrow> Exhausted first
      | Some b \<Rightarrow> (case remaining of
          [] \<Rightarrow> consume prefix first seen b
        | anchor # rest \<Rightarrow>
            iter_candidates rematches played metadata late consume prefix anchor rest
              (sort_key (iter_priority played metadata anchor) rest) first seen b))"
| "iter_candidates rematches played metadata late consume prefix anchor rest [] first seen b = Going first seen b"
| "iter_candidates rematches played metadata late consume prefix anchor rest (c # cs) first seen b =
     (if \<not> rematches \<and> {anchor, c} \<in> played then
        iter_candidates rematches played metadata late consume prefix anchor rest cs first seen b
      else (case iter_search rematches played metadata late consume (prefix @ [(anchor, c)])
                   (filter (\<lambda>t. t \<noteq> c) rest) first seen b of
          Going first seen b \<Rightarrow> iter_candidates rematches played metadata late consume prefix anchor rest cs first seen b
        | Halted first b \<Rightarrow> Halted first b
        | Chosen x \<Rightarrow> Chosen x
        | Exhausted first \<Rightarrow> Exhausted first))"
  by pat_completeness auto

termination
  by (relation "inv_image (less_than <*lex*> less_than)
        (\<lambda>x. case x of Inl (rem, played, md, late, k, prefix, remaining, f, s, b) \<Rightarrow> (length remaining, 0)
          | Inr (rem, played, md, late, k, prefix, anchor, rest, cs, f, s, b) \<Rightarrow> (length rest, Suc (length cs)))")
    (auto simp: le_imp_less_or_eq [OF length_filter_le])

declare pm_search.simps [simp del] iter_search.simps [simp del]

section \<open>One round\<close>

fun pick_loop ::
  "bool \<Rightarrow> int set set \<Rightarrow> (int \<Rightarrow> bool) \<Rightarrow> 'f swiss_standing list \<Rightarrow> int option list \<Rightarrow> choice option \<Rightarrow> int \<Rightarrow> search_step" where
  "pick_loop rematches played late teams [] first b = Going first 0 b"
| "pick_loop rematches played late teams (candidate # cs) first b =
     (let pairing_standings = filter (\<lambda>s. Some (swiss_team s) \<noteq> candidate) teams;
          metadata = build_team_meta pairing_standings
      in case iter_search rematches played metadata late (take_option late (map swiss_team teams) played candidate)
                [] (map swiss_team pairing_standings) first 0 b of
           Chosen x \<Rightarrow> Chosen x
         | Exhausted first \<Rightarrow> Exhausted first
         | Going first seen b \<Rightarrow> pick_loop rematches played late teams cs first b
         | Halted first b \<Rightarrow> pick_loop rematches played late teams cs first b)"

fun step_choice :: "search_step \<Rightarrow> choice option" where
  "step_choice (Going first seen b) = first"
| "step_choice (Halted first b) = first"
| "step_choice (Chosen x) = Some x"
| "step_choice (Exhausted first) = first"

definition pick :: "int set set \<Rightarrow> 'f swiss_standing list \<Rightarrow> int set \<Rightarrow> bool \<Rightarrow> (int \<Rightarrow> bool) \<Rightarrow> search_step" where
  "pick played teams bye_history rematches late =
     pick_loop rematches played late teams (bye_candidates (map swiss_team teams) bye_history) None SEARCH_NODE_BUDGET"

datatype swiss_error = Swiss_pairing_impossible

text \<open>\<open>late\<close> takes the search (with or without rematches) as well: each has a deadline of its own.\<close>

definition swiss_round ::
  "('f::linorder) swiss_standing list \<Rightarrow> int set set \<Rightarrow> int \<Rightarrow> int set option \<Rightarrow> (bool \<Rightarrow> int \<Rightarrow> bool) \<Rightarrow>
   swiss_error + bracket_skeleton" where
  "swiss_round standings played rnd bye_history late =
     (let teams = sort_key_desc (\<lambda>s. (points s, buchholz s)) standings;
          history = (case bye_history of None \<Rightarrow> {} | Some h \<Rightarrow> h);
          chosen = (case step_choice (pick played teams history False (late False)) of
                      Some x \<Rightarrow> Some x
                    | None \<Rightarrow> step_choice (pick played teams history True (late True)))
      in case chosen of
           None \<Rightarrow> Inl Swiss_pairing_impossible
         | Some (bye, pair_order) \<Rightarrow>
             Inr \<lparr>pairings = map (\<lambda>(index, (a, c)). mk_pairing [Some a, Some c] rnd
                    (''Swiss R'' @ show_int rnd @ '' Match '' @ show_nat index) (index - 1))
                    (zip [1..<Suc (length pair_order)] pair_order),
                  total_rounds = 1, advancement_edges = [], bye_team_id = bye\<rparr>)"

section \<open>Rounds as pairings of the whole field\<close>

definition round_of :: "int list \<Rightarrow> (int \<times> int) list \<Rightarrow> bool" where
  "round_of ids pairs \<longleftrightarrow> mset (concat (map (\<lambda>(a, c). [a, c]) pairs)) = mset ids"

definition fresh_round :: "int set set \<Rightarrow> (int \<times> int) list \<Rightarrow> bool" where
  "fresh_round played pairs \<longleftrightarrow> (\<forall>(a, c) \<in> set pairs. {a, c} \<notin> played)"

definition pairable :: "int set set \<Rightarrow> int list \<Rightarrow> bool" where
  "pairable played ids \<longleftrightarrow> (\<exists>pairs. round_of ids pairs \<and> fresh_round played pairs)"

lemma round_of_Nil [simp]: "round_of [] pairs \<longleftrightarrow> pairs = []"
  by (cases pairs) (auto simp: round_of_def split: prod.splits)

lemma fresh_round_simps [simp]:
  "fresh_round played []"
  "fresh_round played ((a, c) # pairs) \<longleftrightarrow> {a, c} \<notin> played \<and> fresh_round played pairs"
  by (auto simp: fresh_round_def)

lemma filter_absent: "c \<notin> set xs \<Longrightarrow> filter (\<lambda>t. t \<noteq> c) xs = xs"
  by (induction xs) auto

lemma mset_remove_distinct:
  "distinct xs \<Longrightarrow> c \<in> set xs \<Longrightarrow> mset xs = add_mset c (mset (filter (\<lambda>t. t \<noteq> c) xs))"
proof (induction xs)
  case (Cons x xs)
  then show ?case by (cases "x = c") (auto simp: filter_absent simp del: mset_filter)
qed simp

lemma round_of_Cons:
  assumes "distinct rest" and "c \<in> set rest" and "round_of (filter (\<lambda>t. t \<noteq> c) rest) pairs"
  shows "round_of (a # rest) ((a, c) # pairs)"
proof -
  have "mset (concat (map (\<lambda>(a, c). [a, c]) ((a, c) # pairs))) = add_mset a (add_mset c (mset (filter (\<lambda>t. t \<noteq> c) rest)))"
    using assms(3) by (simp add: round_of_def)
  then show ?thesis unfolding round_of_def mset.simps(2) [of a rest] mset_remove_distinct [OF assms(1,2), symmetric] .
qed

lemma round_of_anchor:
  assumes "round_of (a # rest) pairs" and "distinct (a # rest)"
  obtains c pairs' where "c \<in> set rest" and "round_of (filter (\<lambda>t. t \<noteq> c) rest) pairs'"
    and "fresh_round played pairs \<Longrightarrow> {a, c} \<notin> played \<and> fresh_round played pairs'"
proof -
  have "a \<in># mset (concat (map (\<lambda>(a, c). [a, c]) pairs))" using assms(1) by (simp add: round_of_def)
  then obtain x y where xy: "(x, y) \<in> set pairs" "a = x \<or> a = y" by auto
  then obtain us vs where split: "pairs = us @ (x, y) # vs" by (meson split_list)
  define c where "c = (if a = x then y else x)"
  have m: "add_mset a (add_mset c (mset (concat (map (\<lambda>(a, c). [a, c]) (us @ vs))))) = add_mset a (mset rest)"
    using assms(1) xy(2) by (auto simp: round_of_def split c_def)
  then have "c \<in># mset rest" by (metis add_mset_add_single add_mset_remove_trivial union_single_eq_member)
  then have c: "c \<in> set rest" by simp
  moreover have "round_of (filter (\<lambda>t. t \<noteq> c) rest) (us @ vs)"
  proof -
    have "add_mset c (mset (concat (map (\<lambda>(a, c). [a, c]) (us @ vs)))) = add_mset c (mset (filter (\<lambda>t. t \<noteq> c) rest))"
      using m mset_remove_distinct [of rest c] c assms(2) by (metis add_mset_remove_trivial distinct.simps(2))
    then show ?thesis unfolding round_of_def by (simp del: mset_filter)
  qed
  moreover have "{a, c} = {x, y}" using xy(2) by (auto simp: c_def)
  then have "fresh_round played pairs \<Longrightarrow> {a, c} \<notin> played \<and> fresh_round played (us @ vs)"
    by (auto simp: fresh_round_def split)
  ultimately show thesis by (rule that)
qed

lemma pairable_Nil [simp]: "pairable played []"
  by (auto simp: pairable_def)

lemma pairable_Cons:
  assumes "distinct (a # rest)"
  shows "pairable played (a # rest) \<longleftrightarrow>
    (\<exists>c \<in> set rest. {a, c} \<notin> played \<and> pairable played (filter (\<lambda>t. t \<noteq> c) rest))"
proof
  assume "pairable played (a # rest)"
  then obtain pairs where "round_of (a # rest) pairs" "fresh_round played pairs" by (auto simp: pairable_def)
  then show "\<exists>c \<in> set rest. {a, c} \<notin> played \<and> pairable played (filter (\<lambda>t. t \<noteq> c) rest)"
    by (elim round_of_anchor [OF _ assms, where played = played]) (auto simp: pairable_def)
next
  assume "\<exists>c \<in> set rest. {a, c} \<notin> played \<and> pairable played (filter (\<lambda>t. t \<noteq> c) rest)"
  then show "pairable played (a # rest)"
    unfolding pairable_def using round_of_Cons assms by (metis distinct.simps(2) fresh_round_simps(2))
qed

section \<open>The perfect-matching probe\<close>

lemma spend_Some: "spend late b = Some b' \<Longrightarrow> b' = b - 1 \<and> 0 \<le> b'"
  by (auto simp: spend_def Let_def split: if_splits)

lemma pm_exact:
  "pm_search late played remaining b = Some (r, b') \<Longrightarrow> distinct remaining \<Longrightarrow>
     (r \<longleftrightarrow> pairable played remaining) \<and> 0 \<le> b' \<and> b' < b"
  "pm_candidates late played anchor rest cs b = Some (r, b') \<Longrightarrow> distinct rest \<Longrightarrow>
     (r \<longleftrightarrow> (\<exists>c \<in> set cs. {anchor, c} \<notin> played \<and> pairable played (filter (\<lambda>t. t \<noteq> c) rest))) \<and> (b' = b \<or> 0 \<le> b' \<and> b' < b)"
proof (induction late played remaining b and late played anchor rest cs b
    arbitrary: r b' and r b' rule: pm_search_pm_candidates.induct)
  case (1 late played remaining b)
  from 1(2) obtain b1 where b1: "spend late b = Some b1"
    by (subst (asm) pm_search.simps) (auto split: option.splits)
  note sp = spend_Some [OF b1]
  show ?case
  proof (cases remaining)
    case Nil
    then show ?thesis using 1(2) sp b1 by (subst (asm) pm_search.simps) auto
  next
    case (Cons anchor rest)
    then have "pm_candidates late played anchor rest rest b1 = Some (r, b')"
      using 1(2) b1 by (subst (asm) pm_search.simps) auto
    from "1.IH" [OF b1 Cons this] show ?thesis using 1(3) Cons sp pairable_Cons [of anchor rest played] by auto
  qed
next
  case (3 late played anchor rest c cs b)
  show ?case
  proof (cases "{anchor, c} \<in> played")
    case True
    then show ?thesis using 3 by auto
  next
    case False
    then obtain found b1 where pm: "pm_search late played (filter (\<lambda>t. t \<noteq> c) rest) b = Some (found, b1)"
      using 3(4) by (auto split: option.splits)
    from "3.IH"(2) [OF False pm] have IH: "(found \<longleftrightarrow> pairable played (filter (\<lambda>t. t \<noteq> c) rest)) \<and> 0 \<le> b1 \<and> b1 < b"
      using 3(5) by simp
    show ?thesis
    proof (cases found)
      case True
      then show ?thesis using False pm IH 3(4) by auto
    next
      case nf: False
      then have "pm_candidates late played anchor rest cs b1 = Some (r, b')" using False pm 3(4) by simp
      from "3.IH"(3) [OF False pm refl nf this 3(5)] show ?thesis using IH nf by auto
    qed
  qed
qed simp

section \<open>The enumeration of rounds\<close>

text \<open>\<open>sound_step G H s\<close>: a round recorded in a search step satisfies \<open>G\<close>, one that
  was chosen after the look-ahead \<open>H\<close>.\<close>

definition sound_step :: "(choice \<Rightarrow> bool) \<Rightarrow> (choice \<Rightarrow> bool) \<Rightarrow> search_step \<Rightarrow> bool" where
  "sound_step G H s \<longleftrightarrow> (case s of
       Going first seen b \<Rightarrow> pred_option G first
     | Halted first b \<Rightarrow> pred_option G first
     | Chosen x \<Rightarrow> H x
     | Exhausted first \<Rightarrow> pred_option G first)"

definition legal_option :: "bool \<Rightarrow> int set set \<Rightarrow> int list \<Rightarrow> (int \<times> int) list \<Rightarrow> bool" where
  "legal_option rematches played ids pairs \<longleftrightarrow> round_of ids pairs \<and> (rematches \<or> fresh_round played pairs)"

lemma legal_option_Cons:
  "distinct rest \<Longrightarrow> c \<in> set rest \<Longrightarrow> rematches \<or> {a, c} \<notin> played \<Longrightarrow>
    legal_option rematches played (filter (\<lambda>t. t \<noteq> c) rest) pairs \<Longrightarrow>
    legal_option rematches played (a # rest) ((a, c) # pairs)"
  by (auto simp: legal_option_def round_of_Cons)

lemma iter_sound:
  "distinct remaining \<Longrightarrow> sound_step G H (Going first seen b) \<Longrightarrow>
    (\<And>pairs first seen b. legal_option rematches played remaining pairs \<Longrightarrow> sound_step G H (Going first seen b) \<Longrightarrow>
       sound_step G H (consume (prefix @ pairs) first seen b)) \<Longrightarrow>
    sound_step G H (iter_search rematches played metadata late consume prefix remaining first seen b)"
  "distinct rest \<Longrightarrow> set cs \<subseteq> set rest \<Longrightarrow> sound_step G H (Going first seen b) \<Longrightarrow>
    (\<And>c pairs first seen b. c \<in> set rest \<Longrightarrow> rematches \<or> {anchor, c} \<notin> played \<Longrightarrow>
       legal_option rematches played (filter (\<lambda>t. t \<noteq> c) rest) pairs \<Longrightarrow> sound_step G H (Going first seen b) \<Longrightarrow>
       sound_step G H (consume (prefix @ (anchor, c) # pairs) first seen b)) \<Longrightarrow>
    sound_step G H (iter_candidates rematches played metadata late consume prefix anchor rest cs first seen b)"
proof (induction rematches played metadata late consume prefix remaining first seen b
    and rematches played metadata late consume prefix anchor rest cs first seen b
    rule: iter_search_iter_candidates.induct)
  case (1 rematches played metadata late consume prefix remaining first seen b)
  show ?case
  proof (cases "spend late b")
    case None
    then show ?thesis using 1(3) by (subst iter_search.simps) (simp add: sound_step_def)
  next
    case (Some b1)
    show ?thesis
    proof (cases remaining)
      case Nil
      then show ?thesis using Some 1(4) [of "[]"] 1(3)
        by (subst iter_search.simps) (simp add: legal_option_def sound_step_def)
    next
      case (Cons anchor rest)
      have "sound_step G H (iter_candidates rematches played metadata late consume prefix anchor rest
          (sort_key (iter_priority played metadata anchor) rest) first seen b1)"
      proof (rule "1.IH" [OF Some Cons])
        show "sound_step G H (consume (prefix @ (anchor, c) # pairs) f n b')"
          if "c \<in> set rest" "rematches \<or> {anchor, c} \<notin> played"
            "legal_option rematches played (filter (\<lambda>t. t \<noteq> c) rest) pairs" "sound_step G H (Going f n b')" for c pairs f n b'
          using 1(4) legal_option_Cons [OF _ that(1-3)] that(4) 1(2) Cons by simp
      qed (use 1(2,3) Cons in \<open>simp_all add: sound_step_def\<close>)
      then show ?thesis using Some Cons by (subst iter_search.simps) simp
    qed
  qed
next
  case (2 rematches played metadata late consume prefix anchor rest first seen b)
  then show ?case by simp
next
  case (3 rematches played metadata late consume prefix anchor rest c cs first seen b)
  show ?case
  proof (cases "\<not> rematches \<and> {anchor, c} \<in> played")
    case True
    then show ?thesis using "3.IH"(1) [OF True] 3(4-7) by simp
  next
    case False
    let ?s = "iter_search rematches played metadata late consume (prefix @ [(anchor, c)]) (filter (\<lambda>t. t \<noteq> c) rest) first seen b"
    have s: "sound_step G H ?s"
    proof (rule "3.IH"(2) [OF False])
      show "sound_step G H (consume ((prefix @ [(anchor, c)]) @ pairs) f n b')"
        if "legal_option rematches played (filter (\<lambda>t. t \<noteq> c) rest) pairs" "sound_step G H (Going f n b')" for pairs f n b'
        using 3(7) [of c pairs f n b'] 3(5) that False by simp
    qed (use 3(4,6) in simp_all)
    show ?thesis
    proof (cases ?s)
      case (Going f n b')
      have "iter_candidates rematches played metadata late consume prefix anchor rest (c # cs) first seen b =
          iter_candidates rematches played metadata late consume prefix anchor rest cs f n b'"
        unfolding iter_candidates.simps(2) Going using False by auto
      moreover have "sound_step G H (Going f n b')" using s Going by simp
      ultimately show ?thesis using "3.IH"(3) [OF False Going] 3(4,5,7) by simp
    qed (use s False in auto)
  qed
qed

text \<open>Once a round has been recorded, it is never lost.\<close>

lemma iter_keeps_first:
  "first \<noteq> None \<Longrightarrow> (\<And>pairs first seen b. first \<noteq> None \<Longrightarrow> step_choice (consume pairs first seen b) \<noteq> None) \<Longrightarrow>
    step_choice (iter_search rematches played metadata late consume prefix remaining first seen b) \<noteq> None"
  "first \<noteq> None \<Longrightarrow> (\<And>pairs first seen b. first \<noteq> None \<Longrightarrow> step_choice (consume pairs first seen b) \<noteq> None) \<Longrightarrow>
    step_choice (iter_candidates rematches played metadata late consume prefix anchor rest cs first seen b) \<noteq> None"
proof (induction rematches played metadata late consume prefix remaining first seen b
    and rematches played metadata late consume prefix anchor rest cs first seen b
    rule: iter_search_iter_candidates.induct)
  case (1 rematches played metadata late consume prefix remaining first seen b)
  then show ?case by (subst iter_search.simps) (auto split: option.splits list.splits)
next
  case (3 rematches played metadata late consume prefix anchor rest c cs first seen b)
  then show ?case by (auto split: search_step.splits)
qed simp

text \<open>A search that comes back without a round has looked at every one of them.\<close>

lemma iter_complete:
  "iter_search rematches played metadata late consume prefix remaining first seen b = Going None seen' b' \<Longrightarrow>
    distinct remaining \<Longrightarrow> (\<And>pairs first seen b. step_choice (consume pairs first seen b) \<noteq> None) \<Longrightarrow>
    \<not> pairable played remaining"
  "iter_candidates rematches played metadata late consume prefix anchor rest cs first seen b = Going None seen' b' \<Longrightarrow>
    distinct rest \<Longrightarrow> (\<And>pairs first seen b. step_choice (consume pairs first seen b) \<noteq> None) \<Longrightarrow>
    first = None \<and> (\<forall>c \<in> set cs. {anchor, c} \<in> played \<or> \<not> pairable played (filter (\<lambda>t. t \<noteq> c) rest))"
proof (induction rematches played metadata late consume prefix remaining first seen b
    and rematches played metadata late consume prefix anchor rest cs first seen b
    arbitrary: seen' b' and seen' b' rule: iter_search_iter_candidates.induct)
  case (1 rematches played metadata late consume prefix remaining first seen b)
  from 1(2) obtain b1 where b1: "spend late b = Some b1"
    by (subst (asm) iter_search.simps) (auto split: option.splits)
  show ?case
  proof (cases remaining)
    case Nil
    then have "consume prefix first seen b1 = Going None seen' b'"
      using 1(2) b1 by (subst (asm) iter_search.simps) simp
    then show ?thesis using 1(4) by (metis step_choice.simps(1))
  next
    case (Cons anchor rest)
    then have "iter_candidates rematches played metadata late consume prefix anchor rest
        (sort_key (iter_priority played metadata anchor) rest) first seen b1 = Going None seen' b'"
      using 1(2) b1 by (subst (asm) iter_search.simps) simp
    from "1.IH" [OF b1 Cons this] show ?thesis using 1(3,4) Cons pairable_Cons [of anchor rest played] by auto
  qed
next
  case (3 rematches played metadata late consume prefix anchor rest c cs first seen b)
  show ?case
  proof (cases "\<not> rematches \<and> {anchor, c} \<in> played")
    case True
    then show ?thesis using "3.IH"(1) [OF True] 3(4-6) by simp
  next
    case False
    let ?s = "iter_search rematches played metadata late consume (prefix @ [(anchor, c)]) (filter (\<lambda>t. t \<noteq> c) rest) first seen b"
    obtain f n b1 where s: "?s = Going f n b1" using 3(4) False by (cases ?s) auto
    have "iter_candidates rematches played metadata late consume prefix anchor rest cs f n b1 = Going None seen' b'"
      using 3(4) False s by simp
    note rest = "3.IH"(3) [OF False s this 3(5,6)]
    then have "\<not> pairable played (filter (\<lambda>t. t \<noteq> c) rest)" using "3.IH"(2) [OF False, of n b1] s 3(5,6) by simp
    moreover have "first = None"
    proof (rule ccontr)
      assume "first \<noteq> None"
      then have "step_choice ?s \<noteq> None" by (intro iter_keeps_first(1)) (use 3(6) in auto)
      then show False using s rest by simp
    qed
    ultimately show ?thesis using rest by simp
  qed
qed simp

text \<open>With rematches allowed the first branch always ends in a round, if the budget lasts for it.\<close>

lemma iter_reaches:
  assumes "length remaining = 2 * k" and "distinct remaining"
    and "\<And>j. j \<le> k \<Longrightarrow> spend late (b - int j) = Some (b - int j - 1)"
    and "\<And>pairs first seen b. step_choice (consume pairs first seen b) \<noteq> None"
  shows "step_choice (iter_search True played metadata late consume prefix remaining first seen b) \<noteq> None"
  using assms(1-3)
proof (induction k arbitrary: prefix remaining first seen b)
  case 0
  then show ?case using 0(3) [of 0] assms(4) by (subst iter_search.simps) simp
next
  case (Suc k)
  obtain anchor rest where rem: "remaining = anchor # rest" using Suc.prems(1) by (cases remaining) auto
  obtain c cs where cs: "sort_key (iter_priority played metadata anchor) rest = c # cs"
    using Suc.prems(1) rem by (cases "sort_key (iter_priority played metadata anchor) rest")
      (auto dest: arg_cong [of _ _ length])
  have c: "c \<in> set rest" using arg_cong [OF cs, of set] by auto
  let ?s = "iter_search True played metadata late consume (prefix @ [(anchor, c)]) (filter (\<lambda>t. t \<noteq> c) rest) first seen (b - 1)"
  have "length (filter (\<lambda>t. t \<noteq> c) rest) = 2 * k"
    using arg_cong [OF mset_remove_distinct [OF _ c], of size] Suc.prems(1,2) rem by (simp del: mset_filter)
  moreover have "spend late (b - 1 - int j) = Some (b - 1 - int j - 1)" if "j \<le> k" for j
    using Suc.prems(3) [of "Suc j"] that by (simp add: algebra_simps)
  ultimately have "step_choice ?s \<noteq> None" using Suc.IH [of "filter (\<lambda>t. t \<noteq> c) rest" "b - 1"] Suc.prems(2) rem by auto
  then show ?case
    using Suc.prems(3) [of 0] rem cs iter_keeps_first(2) [OF _ assms(4)]
    by (subst iter_search.simps) (auto split: search_step.splits)
qed

definition no_empty_halt :: "search_step \<Rightarrow> bool" where
  "no_empty_halt s \<longleftrightarrow> (case s of Halted first b \<Rightarrow> first \<noteq> None | _ \<Rightarrow> True)"

lemma iter_not_halted:
  "(\<And>pairs first seen b. no_empty_halt (consume pairs first seen b)) \<Longrightarrow>
    no_empty_halt (iter_search rematches played metadata late consume prefix remaining first seen b)"
  "(\<And>pairs first seen b. no_empty_halt (consume pairs first seen b)) \<Longrightarrow>
    no_empty_halt (iter_candidates rematches played metadata late consume prefix anchor rest cs first seen b)"
proof (induction rematches played metadata late consume prefix remaining first seen b
    and rematches played metadata late consume prefix anchor rest cs first seen b
    rule: iter_search_iter_candidates.induct)
  case (1 rematches played metadata late consume prefix remaining first seen b)
  then show ?case
    by (subst iter_search.simps) (auto simp: no_empty_halt_def [of "Exhausted _"] split: option.splits list.splits)
next
  case (3 rematches played metadata late consume prefix anchor rest c cs first seen b)
  show ?case
  proof (cases "\<not> rematches \<and> {anchor, c} \<in> played")
    case True
    then show ?thesis using "3.IH"(1) 3(4) by simp
  next
    case False
    note IH = "3.IH"(2) [OF False 3(4)]
    then show ?thesis using "3.IH"(3) [OF False _ 3(4)] unfolding iter_candidates.simps(2) if_not_P [OF False]
      by (auto simp: no_empty_halt_def [of "Halted _ _"] no_empty_halt_def [of "Chosen _"]
          no_empty_halt_def [of "Exhausted _"] split: search_step.split)
  qed
qed (simp add: no_empty_halt_def)

lemma take_option_choice: "step_choice (take_option late ids played bye option first seen b) \<noteq> None"
  by (auto simp: take_option_def Let_def split: option.splits)

lemma take_option_not_halted: "no_empty_halt (take_option late ids played bye option first seen b)"
  using take_option_choice [of late ids played bye option first seen b]
  by (auto simp: no_empty_halt_def split: search_step.splits)

section \<open>Choosing the bye and the round\<close>

definition field_without :: "'f swiss_standing list \<Rightarrow> int option \<Rightarrow> int list" where
  "field_without teams bye = map swiss_team (filter (\<lambda>s. Some (swiss_team s) \<noteq> bye) teams)"

definition legal_choice :: "bool \<Rightarrow> int set set \<Rightarrow> 'f swiss_standing list \<Rightarrow> int option set \<Rightarrow> choice \<Rightarrow> bool" where
  "legal_choice rematches played teams byes x \<longleftrightarrow>
     fst x \<in> byes \<and> legal_option rematches played (field_without teams (fst x)) (snd x)"

definition vetted :: "int set set \<Rightarrow> 'f swiss_standing list \<Rightarrow> choice \<Rightarrow> bool" where
  "vetted played teams x \<longleftrightarrow>
     (let after = played \<union> (\<lambda>(a, c). {a, c}) ` set (snd x); n = length teams
      in odd n \<or> n * (n - 1) div 2 \<le> card after \<or> pairable after (map swiss_team teams))"

lemma keeps_exact:
  "keeps_next_round_pairable late ids played option b = Some (True, b') \<Longrightarrow> distinct ids \<Longrightarrow>
    odd (length ids) \<or> length ids * (length ids - 1) div 2 \<le> card (played \<union> (\<lambda>(a, c). {a, c}) ` set option) \<or>
    pairable (played \<union> (\<lambda>(a, c). {a, c}) ` set option) ids"
  unfolding keeps_next_round_pairable_def has_perfect_matching_def Let_def set_map
  by (auto dest: pm_exact(1) simp: even_iff_mod_2_eq_zero split: if_splits)

lemma distinct_field: "distinct (map swiss_team teams) \<Longrightarrow> distinct (field_without teams bye)"
  by (simp add: field_without_def distinct_map_filter)

lemma pick_loop_sound:
  assumes "distinct (map swiss_team teams)" and "set cs \<subseteq> byes"
    and "pred_option (legal_choice rematches played teams byes) first"
  shows "sound_step (legal_choice rematches played teams byes)
    (\<lambda>x. legal_choice rematches played teams byes x \<and> vetted played teams x)
    (pick_loop rematches played late teams cs first b)"
  using assms(2,3)
proof (induction cs arbitrary: first b)
  case (Cons bye cs)
  let ?G = "legal_choice rematches played teams byes"
  let ?H = "\<lambda>x. ?G x \<and> vetted played teams x"
  let ?field = "filter (\<lambda>s. Some (swiss_team s) \<noteq> bye) teams"
  let ?s = "iter_search rematches played (build_team_meta ?field) late
    (take_option late (map swiss_team teams) played bye) [] (map swiss_team ?field) first 0 b"
  have "sound_step ?G ?H ?s"
  proof (rule iter_sound(1))
    show "distinct (map swiss_team ?field)" using distinct_field [OF assms(1), of bye] by (simp add: field_without_def)
    show "sound_step ?G ?H (Going first 0 b)" using Cons.prems by (simp add: sound_step_def)
  next
    fix pairs f n b'
    assume "legal_option rematches played (map swiss_team ?field) pairs" and f: "sound_step ?G ?H (Going f n b')"
    then have G: "?G (bye, pairs)" using Cons.prems by (simp add: legal_choice_def field_without_def)
    show "sound_step ?G ?H (take_option late (map swiss_team teams) played bye ([] @ pairs) f n b')"
      using G f keeps_exact [of late "map swiss_team teams" played pairs] assms(1)
      by (auto simp: take_option_def Let_def sound_step_def vetted_def split: option.splits)
  qed
  then show ?case using Cons by (cases ?s) (simp_all add: Let_def sound_step_def)
qed (simp add: sound_step_def)

lemma pick_loop_keeps: "first \<noteq> None \<Longrightarrow> step_choice (pick_loop rematches played late teams cs first b) \<noteq> None"
proof (induction cs arbitrary: first b)
  case (Cons bye cs)
  let ?field = "filter (\<lambda>s. Some (swiss_team s) \<noteq> bye) teams"
  have "step_choice (iter_search rematches played (build_team_meta ?field) late
      (take_option late (map swiss_team teams) played bye) [] (map swiss_team ?field) first 0 b) \<noteq> None"
    by (rule iter_keeps_first(1) [OF Cons.prems take_option_choice])
  then show ?case using Cons.IH by (auto simp: Let_def split: search_step.splits)
qed simp

lemma pick_loop_complete:
  "pick_loop rematches played late teams cs None b = Going None seen b' \<Longrightarrow> distinct (map swiss_team teams) \<Longrightarrow>
    bye \<in> set cs \<Longrightarrow> \<not> pairable played (field_without teams bye)"
proof (induction cs arbitrary: b)
  case (Cons c cs)
  let ?field = "filter (\<lambda>s. Some (swiss_team s) \<noteq> c) teams"
  let ?s = "iter_search rematches played (build_team_meta ?field) late
    (take_option late (map swiss_team teams) played c) [] (map swiss_team ?field) None 0 b"
  have going: "f = None" if "pick_loop rematches played late teams cs f b1 = Going None seen b'" for f b1
    using pick_loop_keeps [of f rematches played late teams cs b1] that by (metis step_choice.simps(1))
  obtain n b1 where s: "?s = Going None n b1"
  proof (cases ?s)
    case (Halted f b1)
    moreover have "no_empty_halt ?s" by (rule iter_not_halted(1) [OF take_option_not_halted])
    ultimately have "f \<noteq> None" by (simp add: no_empty_halt_def)
    then show ?thesis using Cons.prems(1) Halted going [of f b1] by (auto simp: Let_def)
  qed (use Cons.prems(1) going that in \<open>auto simp: Let_def\<close>)
  have "\<not> pairable played (map swiss_team ?field)"
    by (rule iter_complete(1) [OF s _ take_option_choice])
      (use distinct_field [OF Cons.prems(2), of c] in \<open>simp add: field_without_def\<close>)
  then show ?case using Cons s by (auto simp: Let_def field_without_def)
qed simp

lemma bye_candidates_legal:
  assumes "bye \<in> set (bye_candidates ids history)"
  shows "bye = None \<longleftrightarrow> even (length ids)"
    and "\<And>t. bye = Some t \<Longrightarrow> t \<in> set ids \<and> (t \<in> history \<longrightarrow> set ids \<subseteq> history)"
  using assms by (auto simp: bye_candidates_def Let_def even_iff_mod_2_eq_zero filter_empty_conv split: if_splits)

lemma bye_candidates_nonempty: "bye_candidates ids history \<noteq> []"
  by (auto simp: bye_candidates_def Let_def)

lemma field_plus_bye:
  assumes "distinct (map swiss_team teams)" and "bye \<in> set (bye_candidates (map swiss_team teams) history)"
  shows "mset (field_without teams bye) + (case bye of None \<Rightarrow> {#} | Some t \<Rightarrow> {#t#}) = mset (map swiss_team teams)"
proof (cases bye)
  case (Some t)
  have "field_without teams bye = filter (\<lambda>x. x \<noteq> t) (map swiss_team teams)"
    by (simp add: field_without_def Some filter_map o_def)
  moreover have "t \<in> set (map swiss_team teams)" using bye_candidates_legal(2) [OF assms(2) Some] by blast
  ultimately show ?thesis using mset_remove_distinct [OF assms(1), of t] Some by (simp del: mset_filter mset_map)
qed (simp add: field_without_def)

lemma even_field:
  assumes "distinct (map swiss_team teams)" and "bye \<in> set (bye_candidates (map swiss_team teams) history)"
  shows "length (field_without teams bye) = 2 * (length teams div 2)"
proof -
  have "length (field_without teams bye) + (if bye = None then 0 else 1) = length teams"
    using arg_cong [OF field_plus_bye [OF assms], of size] by (auto split: option.splits)
  then show ?thesis using bye_candidates_legal(1) [OF assms(2)] by (auto split: if_splits elim: oddE)
qed

lemma pick_reaches:
  assumes "distinct (map swiss_team teams)"
    and "\<And>j. j \<le> length teams div 2 \<Longrightarrow> spend late (SEARCH_NODE_BUDGET - int j) = Some (SEARCH_NODE_BUDGET - int j - 1)"
  shows "step_choice (pick played teams history True late) \<noteq> None"
proof -
  obtain bye cs where byes: "bye_candidates (map swiss_team teams) history = bye # cs"
    using bye_candidates_nonempty by (cases "bye_candidates (map swiss_team teams) history") auto
  let ?field = "filter (\<lambda>s. Some (swiss_team s) \<noteq> bye) teams"
  have "step_choice (iter_search True played (build_team_meta ?field) late
      (take_option late (map swiss_team teams) played bye) [] (map swiss_team ?field) None 0 SEARCH_NODE_BUDGET) \<noteq> None"
  proof (rule iter_reaches [OF _ _ assms(2) take_option_choice])
    show "length (map swiss_team ?field) = 2 * (length teams div 2)" "distinct (map swiss_team ?field)"
      using even_field [OF assms(1), of bye history] distinct_field [OF assms(1), of bye] byes
      by (simp_all add: field_without_def)
  qed
  then show ?thesis unfolding pick_def byes pick_loop.simps Let_def
    by (split search_step.split) (intro conjI allI impI pick_loop_keeps; simp only: step_choice.simps not_False_eq_True option.distinct)
qed

text \<open>The clock is read for the first time at the 80th node.\<close>

lemma spend_early:
  assumes "j < 79"
  shows "spend late (SEARCH_NODE_BUDGET - int j) = Some (SEARCH_NODE_BUDGET - int j - 1)"
proof -
  have "(SEARCH_NODE_BUDGET - int j - 1) mod 256 = 79 - int j"
  proof -
    have "SEARCH_NODE_BUDGET - int j - 1 = (79 - int j) + 256 * 195" by (simp add: SEARCH_NODE_BUDGET_def)
    also have "\<dots> mod 256 = 79 - int j" using assms by (subst mod_mult_self2) simp
    finally show ?thesis .
  qed
  then show ?thesis using assms by (simp add: spend_def Let_def SEARCH_NODE_BUDGET_def)
qed

section \<open>Properties\<close>

definition the_round :: "bracket_skeleton \<Rightarrow> (int \<times> int) list" where
  "the_round sk = map (\<lambda>p. (the (team_ids p ! 0), the (team_ids p ! 1))) (pairings sk)"

lemma map_zip_upt: "map (\<lambda>(i, x). f x) (zip [k..<k + length xs] xs) = map f xs"
proof (induction xs arbitrary: k)
  case (Cons x xs)
  then show ?case using Cons.IH [of "Suc k"] by (simp add: upt_conv_Cons del: upt_Suc)
qed simp

lemma swiss_round_cases:
  assumes "swiss_round standings played rnd bye_history late = Inr sk"
  defines "teams \<equiv> sort_key_desc (\<lambda>s. (points s, buchholz s)) standings"
    and "history \<equiv> (case bye_history of None \<Rightarrow> {} | Some h \<Rightarrow> h)"
  obtains rematches where "step_choice (pick played teams history rematches (late rematches)) =
      Some (bye_team_id sk, the_round sk)"
    and "rematches \<longrightarrow> step_choice (pick played teams history False (late False)) = None"
    and "seeded_teams (pairings sk) = concat (map (\<lambda>(a, c). [a, c]) (the_round sk))"
    and "map local_id (pairings sk) = [0..<length (pairings sk)]" and "advancement_edges sk = []"
    and "map round_number (pairings sk) = replicate (length (pairings sk)) rnd"
proof -
  obtain rematches bye ps where
    ch: "step_choice (pick played teams history rematches (late rematches)) = Some (bye, ps)"
    and re: "rematches \<longrightarrow> step_choice (pick played teams history False (late False)) = None"
    and sk: "sk = \<lparr>pairings = map (\<lambda>(index, (a, c)). mk_pairing [Some a, Some c] rnd
                    (''Swiss R'' @ show_int rnd @ '' Match '' @ show_nat index) (index - 1))
                    (zip [1..<Suc (length ps)] ps),
                  total_rounds = 1, advancement_edges = [], bye_team_id = bye\<rparr>"
    using assms(1) unfolding swiss_round_def Let_def teams_def [symmetric] history_def [symmetric]
    by (cases "step_choice (pick played teams history False (late False))")
      (auto split: option.splits prod.splits)
  have ps: "the_round sk = ps"
    using map_zip_upt [of "\<lambda>x. x" 1 ps] by (simp add: the_round_def sk mk_pairing_def case_prod_unfold o_def)
  have "seeded_teams (pairings sk) = concat (map (\<lambda>(a, c). [a, c]) ps)"
    using map_zip_upt [of "\<lambda>(a, c). [a, c]" 1 ps]
    by (simp add: seeded_teams_def sk mk_pairing_def case_prod_unfold o_def map_filter_simps)
  moreover have "map local_id (pairings sk) = [0..<length (pairings sk)]"
    by (rule nth_equalityI) (simp_all add: sk mk_pairing_def case_prod_unfold del: upt_Suc)
  moreover have "map round_number (pairings sk) = replicate (length (pairings sk)) rnd"
    by (rule nth_equalityI) (simp_all add: sk mk_pairing_def case_prod_unfold del: upt_Suc)
  ultimately show thesis using that [of rematches] ch re ps sk by simp
qed

lemma pick_loop_not_halted: "pick_loop rematches played late teams cs first b \<noteq> Halted f b'"
  by (induction cs arbitrary: first b) (auto simp: Let_def split: search_step.split)

lemma pick_sound:
  assumes "distinct (map swiss_team teams)"
  shows "sound_step (legal_choice rematches played teams (set (bye_candidates (map swiss_team teams) history)))
    (\<lambda>x. legal_choice rematches played teams (set (bye_candidates (map swiss_team teams) history)) x \<and> vetted played teams x)
    (pick played teams history rematches late)"
  unfolding pick_def by (rule pick_loop_sound [OF assms]) simp_all

lemma pick_legal:
  assumes "distinct (map swiss_team teams)"
    and "step_choice (pick played teams history rematches late) = Some x"
  shows "legal_choice rematches played teams (set (bye_candidates (map swiss_team teams) history)) x"
  using pick_sound [OF assms(1), of rematches played history late] assms(2)
  by (cases "pick played teams history rematches late") (auto simp: sound_step_def)

lemma distinct_sorted_teams:
  "distinct (map swiss_team standings) \<Longrightarrow> distinct (map swiss_team (sort_key_desc k standings))"
  by (metis mset_eq_imp_distinct_iff mset_map mset_sort_key_desc)

text \<open>C14: a Swiss round seats every team exactly once, in one match or as the bye; the bye exists
  exactly for an odd field and goes to a team that already had one only when all have; matches are
  numbered from 0 and carry the requested round.\<close>

theorem swiss_round_complete:
  assumes "distinct (map swiss_team standings)"
    and "swiss_round standings played rnd bye_history late = Inr sk"
  shows "mset (seeded_teams (pairings sk)) + (case bye_team_id sk of None \<Rightarrow> {#} | Some t \<Rightarrow> {#t#}) =
      mset (map swiss_team standings) \<and>
    (bye_team_id sk = None \<longleftrightarrow> even (length standings)) \<and>
    (\<forall>t h. bye_team_id sk = Some t \<longrightarrow> bye_history = Some h \<longrightarrow> t \<in> h \<longrightarrow> swiss_team ` set standings \<subseteq> h) \<and>
    map local_id (pairings sk) = [0..<length (pairings sk)] \<and>
    map round_number (pairings sk) = replicate (length (pairings sk)) rnd \<and> advancement_edges sk = []"
proof (rule swiss_round_cases [OF assms(2)])
  let ?teams = "sort_key_desc (\<lambda>s. (points s, buchholz s)) standings"
  let ?history = "case bye_history of None \<Rightarrow> {} | Some h \<Rightarrow> h"
  fix rematches
  assume ch: "step_choice (pick played ?teams ?history rematches (late rematches)) = Some (bye_team_id sk, the_round sk)"
    and sk: "seeded_teams (pairings sk) = concat (map (\<lambda>(a, c). [a, c]) (the_round sk))"
      "map local_id (pairings sk) = [0..<length (pairings sk)]" "advancement_edges sk = []"
      "map round_number (pairings sk) = replicate (length (pairings sk)) rnd"
  note d = distinct_sorted_teams [OF assms(1), of "\<lambda>s. (points s, buchholz s)"]
  have bye: "bye_team_id sk \<in> set (bye_candidates (map swiss_team ?teams) ?history)"
    and "round_of (field_without ?teams (bye_team_id sk)) (the_round sk)"
    using pick_legal [OF d ch] by (simp_all add: legal_choice_def legal_option_def)
  then have "mset (seeded_teams (pairings sk)) = mset (field_without ?teams (bye_team_id sk))"
    by (simp add: round_of_def sk)
  moreover have "\<forall>t h. bye_team_id sk = Some t \<longrightarrow> bye_history = Some h \<longrightarrow> t \<in> h \<longrightarrow> swiss_team ` set standings \<subseteq> h"
    using bye_candidates_legal(2) [OF bye] by fastforce
  ultimately show ?thesis
    using field_plus_bye [OF d bye] bye_candidates_legal(1) [OF bye] sk(2-4) by simp
qed

definition standing_of :: "int \<Rightarrow> int \<Rightarrow> int swiss_standing" where
  "standing_of t p = \<lparr>swiss_team = t, points = p, buchholz = 0, swiss_wins = p, swiss_losses = 0\<rparr>"

definition three_teams :: "int swiss_standing list" where
  "three_teams = [standing_of 1 0, standing_of 2 1, standing_of 3 0]"

lemma three_teams_round:
  "swiss_round three_teams {{2, 1}} 2 (Some {3}) (\<lambda>_ _. True) =
     Inr \<lparr>pairings = [mk_pairing [Some 2, Some 3] 2 ''Swiss R2 Match 1'' 0], total_rounds = 1,
       advancement_edges = [], bye_team_id = Some 1\<rparr>"
  by code_simp

theorem swiss_round_complete_witness:
  "case swiss_round three_teams {{2, 1}} 2 (Some {3}) (\<lambda>_ _. True) of
     Inl e \<Rightarrow> False
   | Inr sk \<Rightarrow> add_mset 1 (mset (seeded_teams (pairings sk))) = {#1, 2, 3#} \<and> bye_team_id sk = Some 1"
  using swiss_round_complete [OF _ three_teams_round] unfolding three_teams_round
  by (simp add: three_teams_def standing_of_def)

text \<open>C15: a round repeats a meeting only when the search for a round without one ran out of its budget
  of nodes or time, or no such round exists for any team that may take the bye.\<close>

theorem swiss_rematch_only_if_forced:
  assumes "distinct (map swiss_team standings)"
    and "swiss_round standings played rnd bye_history late = Inr sk"
    and "\<not> fresh_round played (the_round sk)"
  defines "teams \<equiv> sort_key_desc (\<lambda>s. (points s, buchholz s)) standings"
    and "history \<equiv> (case bye_history of None \<Rightarrow> {} | Some h \<Rightarrow> h)"
  shows "pick played teams history False (late False) = Exhausted None \<or>
    (\<forall>bye \<in> set (bye_candidates (map swiss_team teams) history). \<not> pairable played (field_without teams bye))"
proof (rule swiss_round_cases [OF assms(2), folded teams_def history_def])
  fix rematches
  assume ch: "step_choice (pick played teams history rematches (late rematches)) = Some (bye_team_id sk, the_round sk)"
    and re: "rematches \<longrightarrow> step_choice (pick played teams history False (late False)) = None"
  have d: "distinct (map swiss_team teams)" unfolding teams_def by (rule distinct_sorted_teams [OF assms(1)])
  have rematches
    using pick_legal [OF d ch] assms(3) by (auto simp: legal_choice_def legal_option_def)
  then have none: "step_choice (pick played teams history False (late False)) = None" using re by simp
  show ?thesis
  proof (cases "pick played teams history False (late False)")
    case (Going f n b)
    then have "pick played teams history False (late False) = Going None n b" using none by simp
    then show ?thesis using pick_loop_complete [OF _ d] unfolding pick_def by blast
  next
    case (Halted f b)
    then show ?thesis by (simp add: pick_def pick_loop_not_halted)
  qed (use none in simp_all)
qed

lemma three_teams_rematch:
  "swiss_round three_teams {{1, 2}, {2, 3}, {1, 3}} 4 None (\<lambda>_ _. False) =
     Inr \<lparr>pairings = [mk_pairing [Some 2, Some 1] 4 ''Swiss R4 Match 1'' 0], total_rounds = 1,
       advancement_edges = [], bye_team_id = Some 3\<rparr>"
  by code_simp

lemma three_teams_not_exhausted:
  "pick {{1, 2}, {2, 3}, {1, 3}} (sort_key_desc (\<lambda>s. (points s, buchholz s)) three_teams) {} False (\<lambda>_. False) \<noteq> Exhausted None"
  by code_simp

theorem swiss_rematch_only_if_forced_witness:
  "\<not> pairable {{1, 2}, {2, 3}, {1, 3}} (field_without (sort_key_desc (\<lambda>s. (points s, buchholz s)) three_teams) (Some 1))"
proof -
  have "distinct (map swiss_team three_teams)" by (simp add: three_teams_def standing_of_def)
  moreover have "Some 1 \<in> set (bye_candidates (map swiss_team (sort_key_desc (\<lambda>s. (points s, buchholz s)) three_teams)) {})"
    by code_simp
  ultimately show ?thesis
    using swiss_rematch_only_if_forced [OF _ three_teams_rematch] three_teams_not_exhausted
    by (auto simp: fresh_round_def the_round_def mk_pairing_def insert_commute)
qed

lemma swiss_available:
  assumes "distinct (map swiss_team standings)" and "length standings \<le> 157"
  shows "\<exists>sk. swiss_round standings played rnd bye_history late = Inr sk"
proof -
  let ?teams = "sort_key_desc (\<lambda>s. (points s, buchholz s)) standings"
  have "step_choice (pick played ?teams (case bye_history of None \<Rightarrow> {} | Some h \<Rightarrow> h) True (late True)) \<noteq> None"
    by (rule pick_reaches [OF distinct_sorted_teams [OF assms(1)]], rule spend_early) (use assms(2) in simp)
  then show ?thesis by (auto simp: swiss_round_def Let_def split: option.splits)
qed

text \<open>C16: a Swiss round for up to 157 teams is never refused, whatever has been played and whatever the
  clock says: the fallback reaches its first complete round before the clock is read at all.\<close>

theorem swiss_never_refused:
  assumes "distinct (map swiss_team standings)" and "length standings \<le> 157"
  shows "\<exists>sk. swiss_round standings played rnd bye_history late = Inr sk"
  using assms by (rule swiss_available)

theorem swiss_never_refused_witness:
  "\<exists>sk. swiss_round three_teams {{1, 2}, {2, 3}, {1, 3}} 4 None (\<lambda>_ _. True) = Inr sk"
  by (rule swiss_never_refused) (simp_all add: three_teams_def standing_of_def)

text \<open>The probe for the next round, when it answers within its budget, answers exactly whether
  every team can still be given an unplayed opponent, and it only ever spends.\<close>

theorem perfect_matching_probe_exact:
  assumes "has_perfect_matching late ids played b = Some (found, b')" and "distinct ids"
  shows "(found \<longleftrightarrow> pairable played ids) \<and> 0 \<le> b' \<and> b' < b"
  using pm_exact(1) [of late played ids b found b'] assms by (simp add: has_perfect_matching_def)

theorem perfect_matching_probe_exact_witness:
  "\<not> pairable {{1, 2}, {1, 3}, {1, 4}} [1, 2, 3, 4]"
proof -
  have "has_perfect_matching (\<lambda>_. False) [1, 2, 3, 4] {{1, 2}, {1, 3}, {1, 4}} 10 = Some (False, 9)" by code_simp
  from perfect_matching_probe_exact [OF this] show ?thesis by simp
qed

text \<open>The meetings a field can have.\<close>

definition meetings :: "int set \<Rightarrow> int set set" where
  "meetings F = {{a, c} |a c. a \<in> F \<and> c \<in> F \<and> a \<noteq> c}"

lemma card_meetings:
  assumes "finite F"
  shows "finite (meetings F)" and "card (meetings F) = card F * (card F - 1) div 2"
proof -
  have "meetings F = {B. B \<subseteq> F \<and> card B = 2}" by (auto simp: meetings_def card_2_iff)
  then show "finite (meetings F)" "card (meetings F) = card F * (card F - 1) div 2"
    using n_subsets [OF assms, of 2] assms by (simp_all add: choose_two)
qed

text \<open>C17: a round accepted by the look-ahead leaves a next round without a rematch for an even field, as long as
  fewer meetings are on record than the field can have; so when the record holds only meetings of the
  field, it does unless every one of them has been played.\<close>

theorem swiss_lookahead_sound:
  assumes "distinct (map swiss_team teams)" and "even (length teams)"
    and "pick played teams history rematches late = Chosen (bye, round)"
  defines "after \<equiv> played \<union> (\<lambda>(a, c). {a, c}) ` set round" and "field \<equiv> set (map swiss_team teams)"
  shows "(card after < length teams * (length teams - 1) div 2 \<longrightarrow> pairable after (map swiss_team teams)) \<and>
    (after \<subseteq> meetings field \<and> after \<noteq> meetings field \<longrightarrow> pairable after (map swiss_team teams))"
proof -
  have few: "pairable after (map swiss_team teams)" if "card after < length teams * (length teams - 1) div 2"
    using pick_sound [OF assms(1), of rematches played history late] assms(2,3) that
    by (auto simp: sound_step_def vetted_def Let_def after_def)
  have "card field = length teams" using distinct_card [OF assms(1)] by (simp add: field_def)
  then have "card after < length teams * (length teams - 1) div 2" if "after \<subseteq> meetings field" "after \<noteq> meetings field"
    using psubset_card_mono [OF card_meetings(1), of field after] that card_meetings(2) [of field] by (auto simp: field_def)
  then show ?thesis using few by blast
qed

definition six_teams :: "int swiss_standing list" where
  "six_teams = map (\<lambda>t. standing_of t 0) [1, 2, 3, 4, 5, 6]"

text \<open>Six teams, third round: the best-ranked round would strand the field.\<close>

definition six_played :: "int set set" where
  "six_played = {{1, 4}, {2, 5}, {3, 6}, {1, 5}, {2, 6}, {3, 4}}"

theorem swiss_lookahead_sound_witness:
  "pick six_played six_teams {} False (\<lambda>_. False) = Chosen (None, [(1, 6), (2, 3), (4, 5)]) \<and>
   pairable (six_played \<union> {{1, 6}, {2, 3}, {4, 5}}) [1, 2, 3, 4, 5, 6]"
proof -
  have ch: "pick six_played six_teams {} False (\<lambda>_. False) = Chosen (None, [(1, 6), (2, 3), (4, 5)])" by code_simp
  have c: "card (six_played \<union> (\<lambda>(a, c). {a, c}) ` set [(1, 6), (2, 3), (4, 5)]) < length six_teams * (length six_teams - 1) div 2"
    by code_simp
  have d: "distinct (map swiss_team six_teams)" "even (length six_teams)" "map swiss_team six_teams = [1, 2, 3, 4, 5, 6]"
    by code_simp+
  from swiss_lookahead_sound [OF d(1,2) ch] c have "pairable (six_played \<union> (\<lambda>(a, c). {a, c}) ` set [(1, 6), (2, 3), (4, 5)]) (map swiss_team six_teams)" by blast
  then show ?thesis using ch d(3) by simp
qed

text \<open>A record with meetings of teams that have left reaches the count early, and the look-ahead is off: with a
  seventh team that met everybody and left, the round chosen strands the field, which another would not.\<close>

definition departed :: "int set set" where
  "departed = {{1, 7}, {2, 7}, {3, 7}, {4, 7}, {5, 7}, {6, 7}}"

theorem departed_meetings_blind_the_lookahead:
  "pick (six_played \<union> departed) six_teams {} False (\<lambda>_. False) = Chosen (None, [(1, 6), (2, 4), (3, 5)]) \<and>
   \<not> pairable (six_played \<union> departed \<union> {{1, 6}, {2, 4}, {3, 5}}) [1, 2, 3, 4, 5, 6] \<and>
   pairable (six_played \<union> departed \<union> {{1, 6}, {2, 3}, {4, 5}}) [1, 2, 3, 4, 5, 6]"
proof -
  let ?ids = "[1, 2, 3, 4, 5, 6] :: int list"
  have ch: "pick (six_played \<union> departed) six_teams {} False (\<lambda>_. False) = Chosen (None, [(1, 6), (2, 4), (3, 5)])" by code_simp
  have "map_option fst (has_perfect_matching (\<lambda>_. False) ?ids (six_played \<union> departed \<union> {{1, 6}, {2, 4}, {3, 5}}) 100) = Some False"
    "map_option fst (has_perfect_matching (\<lambda>_. False) ?ids (six_played \<union> departed \<union> {{1, 6}, {2, 3}, {4, 5}}) 100) = Some True" by code_simp+
  then obtain b c where "has_perfect_matching (\<lambda>_. False) ?ids (six_played \<union> departed \<union> {{1, 6}, {2, 4}, {3, 5}}) 100 = Some (False, b)"
    "has_perfect_matching (\<lambda>_. False) ?ids (six_played \<union> departed \<union> {{1, 6}, {2, 3}, {4, 5}}) 100 = Some (True, c)" by auto
  from this [THEN perfect_matching_probe_exact] show ?thesis using ch by simp
qed

text \<open>For teams that are still in, a match has qualification at stake exactly when one more win puts
  one of them through, and elimination exactly when one more loss puts one of them out.\<close>

theorem swiss_stakes_exact:
  assumes "\<forall>(wins, losses) \<in> set records. threshold_status t wins losses = None"
  shows "fst (stakes t records) = (\<exists>(wins, losses) \<in> set records. threshold_status t (wins + 1) losses = Some QUALIFIED) \<and>
    snd (stakes t records) = (\<exists>(wins, losses) \<in> set records. threshold_status t wins (losses + 1) = Some ELIMINATED) \<and>
    thresholds_bool t = (\<exists>wins losses. threshold_status t wins losses \<noteq> None)"
proof (intro conjI)
  show "fst (stakes t records) = (\<exists>(wins, losses) \<in> set records. threshold_status t (wins + 1) losses = Some QUALIFIED)"
    by (auto simp: stakes_def threshold_status_def list_ex_iff split: option.splits if_splits)
  show "snd (stakes t records) = (\<exists>(wins, losses) \<in> set records. threshold_status t wins (losses + 1) = Some ELIMINATED)"
    using assms by (fastforce simp: stakes_def threshold_status_def list_ex_iff split: option.splits if_splits)
  have "threshold_status t q e \<noteq> None" if "qualify_wins t = Some q \<or> eliminate_losses t = Some e" for q e
    using that by (auto simp: threshold_status_def)
  then show "thresholds_bool t = (\<exists>wins losses. threshold_status t wins losses \<noteq> None)"
    by (auto simp: thresholds_bool_def) (auto simp: threshold_status_def split: option.splits if_splits)
qed

theorem swiss_stakes_exact_witness:
  "fst (stakes \<lparr>qualify_wins = Some 3, eliminate_losses = Some 3\<rparr> [(2, 1), (1, 2)]) \<and>
   snd (stakes \<lparr>qualify_wins = Some 3, eliminate_losses = Some 3\<rparr> [(2, 1), (1, 2)])"
  using swiss_stakes_exact [of "[(2, 1), (1, 2)]" "\<lparr>qualify_wins = Some 3, eliminate_losses = Some 3\<rparr>"]
  by (simp add: threshold_status_def)

end
