(* ===== verification/Bracket_Engine.thy ===== *)
theory Bracket_Engine
  imports Bracket_Elimination Bracket_Round_Robin Bracket_Swiss
begin

text \<open>
  The dispatcher \<open>engine.py\<close> and its placeholder brackets. A knockout generator treats team
  ids as opaque values, so renaming the teams renames the bracket; from that follows what callers of
  \<open>placeholder_bracket\<close> rely on: the bracket predicted before the teams are known is the one
  the resolved teams get.
\<close>

datatype stage_type = ROUND_ROBIN | SINGLE_ELIMINATION | DOUBLE_ELIMINATION | SWISS | FFA_LEAGUE | INDIVIDUAL_SWISS

datatype engine_error = Empty_team_ids | Duplicate_team_ids | Unsupported_stage_type stage_type
  | Dropped_teams | Swiss_impossible

definition default_standings :: "int list \<Rightarrow> ('f::zero) swiss_standing list" where
  "default_standings ids =
     map (\<lambda>t. \<lparr>swiss_team = t, points = 0, buchholz = 0, swiss_wins = 0, swiss_losses = 0\<rparr>) ids"

text \<open>\<open>list(lower_bracket_team_ids or [])\<close>\<close>

definition lower_ids :: "int list option \<Rightarrow> int list" where
  "lower_ids lower = (case lower of None \<Rightarrow> [] | Some l \<Rightarrow> l)"

definition generate_bracket ::
  "stage_type \<Rightarrow> int list \<Rightarrow> ('f::{linorder,zero}) swiss_standing list option \<Rightarrow> int set set option \<Rightarrow> int \<Rightarrow>
   int set option \<Rightarrow> int list option \<Rightarrow> (bool \<Rightarrow> int \<Rightarrow> bool) \<Rightarrow> engine_error + bracket_skeleton" where
  "generate_bracket st ids standings played rnd bye_history lower late =
     (if ids = [] then Inl Empty_team_ids
      else let combined = ids @ lower_ids lower
           in if card (set combined) \<noteq> length combined then Inl Duplicate_team_ids
      else case st of
          ROUND_ROBIN \<Rightarrow> Inr (rr_generate ids)
        | SINGLE_ELIMINATION \<Rightarrow> Inr (se_generate ids)
        | DOUBLE_ELIMINATION \<Rightarrow>
            (case de_generate ids (lower_ids lower) of
               Inl e \<Rightarrow> Inl Dropped_teams | Inr sk \<Rightarrow> Inr sk)
        | SWISS \<Rightarrow>
            (case swiss_round (case standings of None \<Rightarrow> default_standings ids | Some s \<Rightarrow> s)
                    (case played of None \<Rightarrow> {} | Some p \<Rightarrow> p) rnd bye_history late of
               Inl e \<Rightarrow> Inl Swiss_impossible | Inr sk \<Rightarrow> Inr sk)
        | FFA_LEAGUE \<Rightarrow> Inl (Unsupported_stage_type st)
        | INDIVIDUAL_SWISS \<Rightarrow> Inl (Unsupported_stage_type st))"

definition placeholder_seeds :: "nat \<Rightarrow> int \<Rightarrow> int list" where
  "placeholder_seeds n offset = map (\<lambda>index. - (offset + int index + 1)) [0..<n]"

definition placeholder_bracket :: "stage_type \<Rightarrow> nat \<Rightarrow> nat \<Rightarrow> engine_error + bracket_skeleton" where
  "placeholder_bracket st upper lower =
     (if upper < 2 then Inr (mk_skeleton [] 0 [])
      else if st \<noteq> SINGLE_ELIMINATION \<and> st \<noteq> DOUBLE_ELIMINATION then Inl (Unsupported_stage_type st)
      else generate_bracket st (placeholder_seeds upper 0) (None :: int swiss_standing list option) None 1 None
             (Some (placeholder_seeds lower (int upper))) (\<lambda>_ _. False))"

section \<open>Renaming the teams of a bracket\<close>

definition map_pairing :: "(int \<Rightarrow> int) \<Rightarrow> pairing \<Rightarrow> pairing" where
  "map_pairing f p = p\<lparr>team_ids := map (map_option f) (team_ids p)\<rparr>"

definition map_skeleton :: "(int \<Rightarrow> int) \<Rightarrow> bracket_skeleton \<Rightarrow> bracket_skeleton" where
  "map_skeleton f sk = sk\<lparr>pairings := map (map_pairing f) (pairings sk), bye_team_id := map_option f (bye_team_id sk)\<rparr>"

lemma map_pairing_mk [simp]: "map_pairing f (mk_pairing ids r nm n) = mk_pairing (map (map_option f) ids) r nm n"
  by (simp add: map_pairing_def mk_pairing_def)

lemma map_skeleton_mk [simp]: "map_skeleton f (mk_skeleton ps r es) = mk_skeleton (map (map_pairing f) ps) r es"
  by (simp add: map_skeleton_def mk_skeleton_def)

lemma foldl_commute:
  "(\<And>a b. h (g a b) = g' (h a) (k b)) \<Longrightarrow> h (foldl g a xs) = foldl g' (h a) (map k xs)"
  by (induction xs arbitrary: a) auto

lemma adjacent_pairs_map: "adjacent_pairs (map f xs) = map (map_prod f f) (adjacent_pairs xs)"
  by (induction xs rule: adjacent_pairs.induct) auto

lemma seed_to_team_map: "seed_to_team (map f ids) s = map_option f (seed_to_team ids s)"
  by (simp add: seed_to_team_def)

subsection \<open>Single elimination\<close>

definition map_slot :: "(int \<Rightarrow> int) \<Rightarrow> se_slot \<Rightarrow> se_slot" where
  "map_slot f = map_prod id (map_option f)"

definition map_first :: "(int \<Rightarrow> int) \<Rightarrow> pairing list \<times> nat \<times> nat \<times> se_slot list \<Rightarrow> pairing list \<times> nat \<times> nat \<times> se_slot list" where
  "map_first f = (\<lambda>(ps, n, c, out). (map (map_pairing f) ps, n, c, map (map_slot f) out))"

definition map_next :: "(int \<Rightarrow> int) \<Rightarrow> pairing list \<times> advancement_edge list \<times> nat \<times> nat \<times> se_slot list \<Rightarrow>
    pairing list \<times> advancement_edge list \<times> nat \<times> nat \<times> se_slot list" where
  "map_next f = (\<lambda>(ps, es, n, c, out). (map (map_pairing f) ps, es, n, c, map (map_slot f) out))"

definition map_rounds :: "(int \<Rightarrow> int) \<Rightarrow> pairing list \<times> advancement_edge list \<times> nat \<times> se_slot list \<Rightarrow>
    pairing list \<times> advancement_edge list \<times> nat \<times> se_slot list" where
  "map_rounds f = (\<lambda>(ps, es, n, out). (map (map_pairing f) ps, es, n, map (map_slot f) out))"

lemma se_first_step_map:
  "map_first f (se_first_step rounds st pos) =
    se_first_step rounds (map_first f st) (map_prod (map_option f) (map_option f) pos)"
  by (cases st; cases pos) (auto simp: se_first_step_def map_first_def map_slot_def split: option.splits)

lemma se_next_step_map:
  "map_next f (se_next_step rounds r st pos) =
    se_next_step rounds r (map_next f st) (map_prod (map_slot f) (map_slot f) pos)"
  by (cases st; cases pos) (auto simp: se_next_step_def map_next_def map_slot_def Let_def)

lemma se_round_map: "map_rounds f (se_round rounds st r) = se_round rounds (map_rounds f st) r"
proof -
  obtain ps es n prev where st: "st = (ps, es, n, prev)" by (metis prod_cases4)
  have "map_next f (foldl (se_next_step rounds r) (ps, es, n, 0, []) (adjacent_pairs prev)) =
      foldl (se_next_step rounds r) (map_next f (ps, es, n, 0, [])) (adjacent_pairs (map (map_slot f) prev))"
    unfolding adjacent_pairs_map by (rule foldl_commute) (rule se_next_step_map)
  then show ?thesis unfolding st se_round_def map_rounds_def map_next_def
    by (auto split: prod.splits)
qed

lemma se_generate_map: "se_generate (map f ids) = map_skeleton f (se_generate ids)"
proof (cases "length ids < 2")
  case False
  let ?r = "ceil_log2 (length ids)"
  let ?positions = "map (seed_to_team ids) (seeding_order (2 ^ ?r))"
  obtain ps n c slots where first: "foldl (se_first_step ?r) ([], 0, 0, []) (adjacent_pairs ?positions) = (ps, n, c, slots)"
    by (metis prod_cases4)
  obtain ps' es n' slots' where rest: "foldl (se_round ?r) (ps, [], n, slots) [2..<?r + 1] = (ps', es, n', slots')"
    by (metis prod_cases4)
  have A: "foldl (se_first_step ?r) ([], 0, 0, []) (adjacent_pairs (map (seed_to_team (map f ids)) (seeding_order (2 ^ ?r)))) =
      map_first f (foldl (se_first_step ?r) ([], 0, 0, []) (adjacent_pairs ?positions))"
  proof -
    have "seed_to_team (map f ids) = map_option f \<circ> seed_to_team ids" by (simp add: fun_eq_iff seed_to_team_map)
    then have "adjacent_pairs (map (seed_to_team (map f ids)) (seeding_order (2 ^ ?r))) =
        map (map_prod (map_option f) (map_option f)) (adjacent_pairs ?positions)"
      by (simp only: flip: adjacent_pairs_map map_map)
    moreover have "map_first f (foldl (se_first_step ?r) st xs) =
        foldl (se_first_step ?r) (map_first f st) (map (map_prod (map_option f) (map_option f)) xs)" for st xs
      by (rule foldl_commute) (rule se_first_step_map)
    moreover have "map_first f ([], 0, 0, []) = ([], 0, 0, [])" by (simp add: map_first_def)
    ultimately show ?thesis by (simp only:)
  qed
  have B: "foldl (se_round ?r) (map_rounds f (ps, [], n, slots)) [2..<?r + 1] = map_rounds f (ps', es, n', slots')"
  proof -
    have "map_rounds f (foldl (se_round ?r) (ps, [], n, slots) rs) = foldl (se_round ?r) (map_rounds f (ps, [], n, slots)) (map (\<lambda>r. r) rs)" for rs
      by (rule foldl_commute) (rule se_round_map)
    then show ?thesis unfolding list.map_ident rest [symmetric] ..
  qed
  show ?thesis
    unfolding se_generate_def Let_def length_map if_not_P [OF False] A first map_first_def prod.case
      B [unfolded map_rounds_def prod.case list.map] rest by simp
qed (simp add: se_generate_def)

subsection \<open>Double elimination\<close>

fun map_origin :: "(int \<Rightarrow> int) \<Rightarrow> origin \<Rightarrow> origin" where
  "map_origin f (TEAM t) = TEAM (f t)"
| "map_origin f (WINNER l) = WINNER l"
| "map_origin f (LOSER l) = LOSER l"

definition map_seat :: "(int \<Rightarrow> int) \<Rightarrow> origin option \<Rightarrow> origin option" where
  "map_seat f = map_option (map_origin f)"

definition map_de :: "(int \<Rightarrow> int) \<Rightarrow> de_state \<Rightarrow> de_state" where
  "map_de f = (\<lambda>(ps, es, n). (map (map_pairing f) ps, es, n))"

lemma map_seat_simps [simp]:
  "map_seat f None = None" "map_seat f (Some x) = Some (map_origin f x)"
  "map_seat f y = None \<longleftrightarrow> y = None" "None = map_seat f y \<longleftrightarrow> y = None"
  by (auto simp: map_seat_def)

lemma origin_map [simp]:
  "origin_team (map_origin f x) = map_option f (origin_team x)" "origin_edges (map_origin f x) = origin_edges x"
  by (cases x; simp add: origin_team_def origin_edges_def fun_eq_iff)+

lemma seat_map [simp]:
  "seat_team (map_seat f x) = map_option f (seat_team x)" "seat_edges (map_seat f x) n k = seat_edges x n k"
  by (cases x; simp add: seat_team_def seat_edges_def)+

lemma seat_team_None [simp]: "seat_team None = None"
  by (simp add: seat_team_def)

lemma de_play_map:
  "de_play (map_seat f a) (map_seat f b) r l force (map_de f st) =
    map_prod (map_prod (map_seat f) (map_seat f)) (map_de f) (de_play a b r l force st)"
  by (cases st; cases a; cases b) (auto simp: de_play_def map_de_def)

lemma de_pair_up_map:
  "de_pair_up (map (map_seat f) xs) r label idx (map_de f st) =
    map_prod (map_prod (map (map_seat f)) (map (map_seat f))) (map_de f) (de_pair_up xs r label idx st)"
proof (induction xs r label idx st rule: de_pair_up.induct)
  case (2 first r label idx st)
  then show ?case using de_play_map [of f first None] by (auto split: prod.splits)
next
  case (3 first second rest r label idx st)
  let ?idx = "if first \<noteq> None \<and> second \<noteq> None then idx + 1 else idx"
  obtain w l st' where p: "de_play first second r (label ?idx) False st = ((w, l), st')" by (metis prod_cases3 surj_pair)
  then have "de_play (map_seat f first) (map_seat f second) r (label ?idx) False (map_de f st) =
      ((map_seat f w, map_seat f l), map_de f st')" by (simp add: de_play_map)
  then show ?case using 3 [OF refl p [symmetric] refl] p by (auto simp: Let_def split: prod.splits)
qed simp

lemma de_reduce_map:
  "de_reduce fuel d (map (map_seat f) carry) lb (map_de f st) =
    map_prod (map (map_seat f)) (map_prod id (map_de f)) (de_reduce fuel d carry lb st)"
  by (induction fuel d carry lb st rule: de_reduce.induct) (auto simp: de_pair_up_map split: prod.splits)

lemma de_dropouts_map:
  "de_dropouts (map (map_seat f) carry) (map (map_seat f) ds) r label idx (map_de f st) =
    map_prod (map (map_seat f)) (map_de f) (de_dropouts carry ds r label idx st)"
proof (induction carry ds r label idx st rule: de_dropouts.induct)
  case (2 carry dropout ds r label idx st)
  let ?home = "case carry of [] \<Rightarrow> None | h # _ \<Rightarrow> h"
  let ?idx = "if ?home \<noteq> None \<and> dropout \<noteq> None then idx + 1 else idx"
  obtain w l st' where p: "de_play ?home dropout r (label ?idx) False st = ((w, l), st')" by (metis prod_cases3 surj_pair)
  have home: "(case map (map_seat f) carry of [] \<Rightarrow> None | h # _ \<Rightarrow> h) = map_seat f ?home" by (cases carry) simp_all
  have "de_play (map_seat f ?home) (map_seat f dropout) r (label ?idx) False (map_de f st) =
      ((map_seat f w, map_seat f l), map_de f st')" using p by (simp add: de_play_map)
  then show ?case using 2 [OF refl refl p [symmetric] refl] p by (auto simp: Let_def home map_tl split: prod.splits)
qed simp

lemma de_lower_round_map:
  "de_lower_round (map_prod (map (map_seat f)) (map_prod id (map_de f)) acc) (map (map_seat f) losers) =
    map_prod (map (map_seat f)) (map_prod id (map_de f)) (de_lower_round acc losers)"
proof -
  obtain carry lb st where acc: "acc = (carry, lb, st)" by (metis prod_cases3)
  obtain carry1 lb1 st1 where r: "de_reduce (length carry) (length losers) carry lb st = (carry1, lb1, st1)" by (metis prod_cases3)
  have r': "de_reduce (length carry) (length losers) (map (map_seat f) carry) lb (map_de f st) =
      (map (map_seat f) carry1, lb1, map_de f st1)" using r by (simp add: de_reduce_map)
  obtain carry2 st2 where d: "de_dropouts carry1 (rev losers) (- int lb1) (lb_label lb1) 0 st1 = (carry2, st2)"
    by (metis prod.exhaust)
  have d': "de_dropouts (map (map_seat f) carry1) (map (map_seat f) (rev losers)) (- int lb1) (lb_label lb1) 0 (map_de f st1) =
      (map (map_seat f) carry2, map_de f st2)" using d by (simp only: de_dropouts_map map_prod_simp)
  show ?thesis
    unfolding acc de_lower_round_def using r r' d d'
    by (simp add: Let_def rev_map de_pair_up_map split: prod.splits)
qed

lemma de_upper_round_map:
  "de_upper_round k (map_prod (map_prod (map (map_seat f)) (map (map (map_seat f)))) (map_de f) acc) r =
    map_prod (map_prod (map (map_seat f)) (map (map (map_seat f)))) (map_de f) (de_upper_round k acc r)"
proof -
  obtain slots ls st where acc: "acc = ((slots, ls), st)" by (metis prod_cases3 surj_pair)
  show ?thesis unfolding acc de_upper_round_def by (simp add: de_pair_up_map split: prod.splits)
qed

lemma de_entrants_map: "de_entrants (map f ids) k = map (map_seat f) (de_entrants ids k)"
  by (simp add: de_entrants_def seed_to_team_map option.map_comp o_def map_seat_def)

text \<open>The bracket before the check for dropped teams.\<close>

definition de_matches :: "int list \<Rightarrow> int list \<Rightarrow> de_state" where
  "de_matches ids lbs =
     (let upper_rounds = ceil_log2 (length ids);
          ((slots, ub_losers), st) = foldl (de_upper_round upper_rounds)
            ((de_entrants ids upper_rounds, []), ([], [], 0)) [1..<upper_rounds + 1];
          (((carry, ls), st1), rest) =
            (if lbs \<noteq> []
             then (de_pair_up (de_entrants lbs (ceil_log2 (length lbs))) (- 1) (lb_label 1) 0 st, ub_losers)
             else (de_pair_up (hd ub_losers) (- 1) (lb_label 1) 0 st, tl ub_losers));
          (carry', lb_round, st2) = foldl de_lower_round (carry, 2, st1) rest
      in snd (de_play (if slots = [] then None else hd slots)
            (if carry' = [] then None else last carry') (int (upper_rounds + 1)) ''Grand Final'' True st2))"

lemma de_generate_matches:
  "2 \<le> length ids \<Longrightarrow> de_generate ids lbs = Inr sk \<Longrightarrow>
    sk = (case de_matches ids lbs of (ps, es, n) \<Rightarrow> mk_skeleton ps (int (ceil_log2 (length ids) + 1)) es)"
proof -
  assume n: "2 \<le> length ids" and gen: "de_generate ids lbs = Inr sk"
  define k where "k = ceil_log2 (length ids)"
  obtain slots ubl st where U: "foldl (de_upper_round k) ((de_entrants ids k, []), ([], [], 0)) [1..<k + 1] = ((slots, ubl), st)"
    by (metis prod_cases3 surj_pair)
  obtain carry ls st1 rest where C: "(if lbs \<noteq> []
      then (de_pair_up (de_entrants lbs (ceil_log2 (length lbs))) (- 1) (lb_label 1) 0 st, ubl)
      else (de_pair_up (hd ubl) (- 1) (lb_label 1) 0 st, tl ubl)) = (((carry, ls), st1), rest)"
    by (metis prod_cases3 surj_pair)
  obtain carry' lb st2 where L: "foldl de_lower_round (carry, 2, st1) rest = (carry', lb, st2)" by (metis prod_cases3)
  obtain oc ps es m where P: "de_play (if slots = [] then None else hd slots)
      (if carry' = [] then None else last carry') (int (k + 1)) ''Grand Final'' True st2 = (oc, (ps, es, m))"
    by (metis prod_cases4)
  have "de_matches ids lbs = (ps, es, m)"
    unfolding de_matches_def Let_def k_def [symmetric] U prod.case C L P by simp
  moreover have "sk = mk_skeleton ps (int (k + 1)) es"
    using gen n unfolding de_generate_def Let_def k_def [symmetric] U prod.case C L P by (simp split: if_splits)
  ultimately show ?thesis by (simp add: k_def)
qed

lemma de_matches_map:
  assumes "2 \<le> length ids"
  shows "de_matches (map f ids) (map f lbs) = map_de f (de_matches ids lbs)"
proof -
  define k where "k = ceil_log2 (length ids)"
  let ?U = "\<lambda>ids. foldl (de_upper_round k) ((de_entrants ids k, []), ([], [], 0)) [1..<k + 1]"
  let ?mu = "map_prod (map_prod (map (map_seat f)) (map (map (map_seat f)))) (map_de f)"
  let ?ml = "map_prod (map (map_seat f)) (map_prod id (map_de f))"
  obtain slots ubl st where U: "?U ids = ((slots, ubl), st)" by (metis prod_cases3 surj_pair)
  have "?mu (foldl (de_upper_round k) acc rs) = foldl (de_upper_round k) (?mu acc) (map (\<lambda>r. r) rs)" for acc rs
    by (rule foldl_commute) (rule de_upper_round_map [symmetric])
  from this [of "((de_entrants ids k, []), ([], [], 0))" "[1..<k + 1]"]
  have U': "?U (map f ids) = ((map (map_seat f) slots, map (map (map_seat f)) ubl), map_de f st)"
    unfolding list.map_ident U by (simp add: de_entrants_map map_de_def)
  have ubl: "ubl \<noteq> []"
  proof -
    have "length (snd (fst (foldl (de_upper_round k) acc rs))) = length (snd (fst acc)) + length rs" for acc rs
      by (induction rs arbitrary: acc) (auto simp: de_upper_round_def split: prod.splits)
    from this [of "((de_entrants ids k, []), ([], [], 0))" "[1..<k + 1]"] have "length ubl = k"
      unfolding U by simp
    moreover have "0 < k" unfolding k_def using assms by (subst ceil_log2.simps) simp
    ultimately show ?thesis by auto
  qed
  let ?C = "\<lambda>lbs ubl st. if lbs \<noteq> []
      then (de_pair_up (de_entrants lbs (ceil_log2 (length lbs))) (- 1) (lb_label 1) 0 st, ubl)
      else (de_pair_up (hd ubl) (- 1) (lb_label 1) 0 st, tl ubl)"
  obtain carry ls st1 rest where C: "?C lbs ubl st = (((carry, ls), st1), rest)"
    by (metis prod_cases3 surj_pair)
  have C': "?C (map f lbs) (map (map (map_seat f)) ubl) (map_de f st) =
      (((map (map_seat f) carry, map (map_seat f) ls), map_de f st1), map (map (map_seat f)) rest)"
    using C ubl by (auto simp: de_entrants_map de_pair_up_map hd_map map_tl split: if_splits)
  obtain carry' lb st2 where L: "foldl de_lower_round (carry, 2, st1) rest = (carry', lb, st2)" by (metis prod_cases3)
  have "?ml (foldl de_lower_round acc rs) = foldl de_lower_round (?ml acc) (map (map (map_seat f)) rs)" for acc rs
    by (rule foldl_commute) (rule de_lower_round_map [symmetric])
  from this [of "(carry, 2, st1)" rest]
  have L': "foldl de_lower_round (map (map_seat f) carry, 2, map_de f st1) (map (map (map_seat f)) rest) =
      (map (map_seat f) carry', lb, map_de f st2)" unfolding L by simp
  have P: "de_play (if map (map_seat f) slots = [] then None else hd (map (map_seat f) slots))
      (if map (map_seat f) carry' = [] then None else last (map (map_seat f) carry')) r l True (map_de f st2) =
    map_prod (map_prod (map_seat f) (map_seat f)) (map_de f)
      (de_play (if slots = [] then None else hd slots) (if carry' = [] then None else last carry') r l True st2)" for r l
    by (subst de_play_map [symmetric]) (auto simp: hd_map last_map)
  show ?thesis
    unfolding de_matches_def Let_def length_map k_def [symmetric] U U' prod.case C C' [unfolded length_map] L L' P by simp
qed

lemma de_generate_map:
  assumes "2 \<le> length ids" and "de_generate ids lbs = Inr sk"
  shows "de_generate (map f ids) (map f lbs) = Inr (map_skeleton f sk)"
proof -
  obtain sk' where sk': "de_generate (map f ids) (map f lbs) = Inr sk'"
    using de_generate_sound [of "map f ids" "map f lbs"] assms(1) by auto
  then show ?thesis
    using de_generate_matches [OF _ sk'] de_generate_matches [OF assms] de_matches_map [OF assms(1)] assms(1)
    by (simp add: map_de_def split: prod.splits)
qed

section \<open>Placeholder brackets\<close>

definition resolve_seed :: "int list \<Rightarrow> int \<Rightarrow> int" where
  "resolve_seed seeds k = seeds ! (nat (- k) - 1)"

lemma map_resolve_seeds:
  "map (resolve_seed (ids @ lbs)) (placeholder_seeds (length ids) 0) = ids"
  "map (resolve_seed (ids @ lbs)) (placeholder_seeds (length lbs) (int (length ids))) = lbs"
proof -
  have "nat (int n + int i + 1) = Suc (n + i)" for n i by simp
  then have nth: "resolve_seed s (- (int n + int i + 1)) = s ! (n + i)" for s n i
    unfolding resolve_seed_def minus_minus by simp
  have "map (resolve_seed s) (placeholder_seeds k (int n)) = map (\<lambda>i. s ! (n + i)) [0..<k]" for s k n
    unfolding placeholder_seeds_def map_map o_def nth ..
  from this [of "ids @ lbs" "length ids" 0] this [of "ids @ lbs" "length lbs" "length ids"]
  show "map (resolve_seed (ids @ lbs)) (placeholder_seeds (length ids) 0) = ids"
    "map (resolve_seed (ids @ lbs)) (placeholder_seeds (length lbs) (int (length ids))) = lbs"
    by (auto intro!: nth_equalityI simp: nth_append)
qed

lemma distinct_placeholders:
  "distinct (placeholder_seeds n 0 @ placeholder_seeds m (int n))"
  by (auto simp: placeholder_seeds_def distinct_map inj_on_def)

text \<open>C10: a knockout bracket drawn with placeholder seeds is, seed by seed, the bracket the resolved
  teams get: same matches, rounds, names and edges, with every placeholder replaced by its team.\<close>

theorem placeholder_never_drifts:
  assumes "st = SINGLE_ELIMINATION \<or> st = DOUBLE_ELIMINATION" and "2 \<le> length ids" and "distinct (ids @ lbs)"
  shows "\<exists>sk. placeholder_bracket st (length ids) (length lbs) = Inr sk \<and>
    generate_bracket st ids standings played rnd history (Some lbs) late = Inr (map_skeleton (resolve_seed (ids @ lbs)) sk)"
proof -
  let ?u = "placeholder_seeds (length ids) 0" and ?l = "placeholder_seeds (length lbs) (int (length ids))"
  note card = distinct_card [OF assms(3)] distinct_card [OF distinct_placeholders [of "length ids" "length lbs"]]
  have len: "length ?u = length ids" "?u \<noteq> []" "ids \<noteq> []"
    using assms(2) by (auto simp: placeholder_seeds_def)
  show ?thesis
  proof (cases "st = SINGLE_ELIMINATION")
    case True
    then show ?thesis
      using se_generate_map [of "resolve_seed (ids @ lbs)" ?u] assms(2) card len
      by (auto simp: placeholder_bracket_def generate_bracket_def Let_def map_resolve_seeds lower_ids_def)
  next
    case False
    obtain sk where sk: "de_generate ?u ?l = Inr sk" using de_generate_sound [of ?u ?l] assms(2) len by auto
    then have "de_generate ids lbs = Inr (map_skeleton (resolve_seed (ids @ lbs)) sk)"
      using de_generate_map [OF _ sk, of "resolve_seed (ids @ lbs)"] assms(2) len by (simp add: map_resolve_seeds)
    then show ?thesis using False assms(1,2) sk card len
      by (auto simp: placeholder_bracket_def generate_bracket_def Let_def lower_ids_def)
  qed
qed

theorem placeholder_never_drifts_witness:
  "\<exists>sk. placeholder_bracket DOUBLE_ELIMINATION 3 1 = Inr sk \<and>
    generate_bracket DOUBLE_ELIMINATION [70, 50, 90] (None :: int swiss_standing list option) None 1 None (Some [20]) (\<lambda>_ _. False) =
      Inr (map_skeleton (resolve_seed [70, 50, 90, 20]) sk)"
  using placeholder_never_drifts [of DOUBLE_ELIMINATION "[70, 50, 90]" "[20]"] by (simp add: eval_nat_numeral)

text \<open>What the dispatcher refuses: no teams, a team seeded twice, a stage that is not drawn as a
  bracket; for two or more distinct teams every other stage but Swiss gets its bracket, and Swiss does
  up to 157 teams.\<close>

lemma distinct_card_iff: "card (set xs) = length xs \<longleftrightarrow> distinct xs"
  by (metis card_distinct distinct_card)

theorem engine_errors_exact:
  fixes standings :: "('f::{linorder,zero}) swiss_standing list option"
  shows "generate_bracket st [] standings played rnd history lower late = Inl Empty_team_ids \<and>
    (ids \<noteq> [] \<longrightarrow> (generate_bracket st ids standings played rnd history lower late = Inl Duplicate_team_ids \<longleftrightarrow>
       \<not> distinct (ids @ lower_ids lower))) \<and>
    (2 \<le> length ids \<longrightarrow> distinct (ids @ lower_ids lower) \<longrightarrow>
       (generate_bracket st ids standings played rnd history lower late = Inl (Unsupported_stage_type st) \<longleftrightarrow>
         st = FFA_LEAGUE \<or> st = INDIVIDUAL_SWISS) \<and>
       (length ids \<le> 157 \<longrightarrow> standings = None \<longrightarrow> st \<noteq> FFA_LEAGUE \<longrightarrow> st \<noteq> INDIVIDUAL_SWISS \<longrightarrow>
         (\<exists>sk. generate_bracket st ids standings played rnd history lower late = Inr sk)))"
proof (intro conjI impI)
  show "generate_bracket st [] standings played rnd history lower late = Inl Empty_team_ids"
    by (simp add: generate_bracket_def)
next
  assume "ids \<noteq> []"
  then show "generate_bracket st ids standings played rnd history lower late = Inl Duplicate_team_ids \<longleftrightarrow>
       \<not> distinct (ids @ lower_ids lower)"
    unfolding generate_bracket_def Let_def distinct_card_iff by (cases st) (simp_all split: sum.split)
next
  assume d: "2 \<le> length ids" "distinct (ids @ lower_ids lower)"
  then have "ids \<noteq> []" by auto
  then show "generate_bracket st ids standings played rnd history lower late = Inl (Unsupported_stage_type st) \<longleftrightarrow>
         st = FFA_LEAGUE \<or> st = INDIVIDUAL_SWISS"
    using d(2) unfolding generate_bracket_def Let_def distinct_card_iff by (cases st) (simp_all split: sum.split)
next
  assume d: "2 \<le> length ids" "distinct (ids @ lower_ids lower)" "length ids \<le> 157" "standings = None"
    "st \<noteq> FFA_LEAGUE" "st \<noteq> INDIVIDUAL_SWISS"
  have "ids \<noteq> []" using d(1) by auto
  have "\<exists>sk. swiss_round (default_standings ids :: 'f swiss_standing list) p rnd history late = Inr sk" for p
  proof -
    have "map swiss_team (default_standings ids :: 'f swiss_standing list) = ids"
      "length (default_standings ids :: 'f swiss_standing list) = length ids"
      by (simp_all add: default_standings_def o_def)
    then show ?thesis using d(2,3) by (intro swiss_available) simp_all
  qed
  then obtain sk where "swiss_round (default_standings ids :: 'f swiss_standing list)
      (case played of None \<Rightarrow> {} | Some p \<Rightarrow> p) rnd history late = Inr sk" by blast
  moreover obtain sk' where "de_generate ids (lower_ids lower) = Inr sk'"
    using de_generate_sound [OF d(1), of "lower_ids lower"] by blast
  ultimately show "\<exists>sk. generate_bracket st ids standings played rnd history lower late = Inr sk"
    using d(2,4-6) \<open>ids \<noteq> []\<close> unfolding generate_bracket_def Let_def distinct_card_iff by (cases st) simp_all
qed

theorem engine_errors_exact_witness:
  "generate_bracket DOUBLE_ELIMINATION [1, 2] (None :: int swiss_standing list option) None 1 None (Some [2]) (\<lambda>_ _. False)
     = Inl Duplicate_team_ids \<and>
   generate_bracket FFA_LEAGUE [1, 2] (None :: int swiss_standing list option) None 1 None None (\<lambda>_ _. False)
     = Inl (Unsupported_stage_type FFA_LEAGUE)"
  using engine_errors_exact [of DOUBLE_ELIMINATION "None :: int swiss_standing list option" None 1 None "Some [2]" _ "[1, 2]"]
    engine_errors_exact [of FFA_LEAGUE "None :: int swiss_standing list option" None 1 None None _ "[1, 2]"]
  by (simp add: lower_ids_def)

end
