(* ===== verification/Bracket_Template.thy ===== *)
theory Bracket_Template
  imports Bracket_Engine
begin

text \<open>
  Organizer-drawn brackets, \<open>template.py\<close>: the validated template models, the two conversions
  between templates and skeletons, and the rules \<open>validate_template\<close> enforces. Pydantic models are
  records with a constructor that checks the declared constraints; a problem keeps its code, match and
  slot, not the English message. Seeds stay the strings the editor stores.
\<close>

section \<open>Seed references\<close>

text \<open>The pattern \<open>[UL][1-9][0-9]*\<close> of at most five characters.\<close>

definition seed_ref :: "string \<Rightarrow> bool" where
  "seed_ref s \<longleftrightarrow> (case s of
       p # d # ds \<Rightarrow> (p = CHR ''U'' \<or> p = CHR ''L'') \<and> is_digit d \<and> d \<noteq> CHR ''0'' \<and> list_all is_digit ds \<and> length s \<le> 5
     | _ \<Rightarrow> False)"

section \<open>Templates\<close>

definition MAX_SLOTS :: int where "MAX_SLOTS = 100"

record template_slot =
  slot_no :: int
  seed :: "string option"
  source_match :: "int option"
  place :: "int option"

record template_match =
  match_id :: int
  match_round :: int
  match_slots :: "template_slot list"

record bracket_template =
  upper_seeds :: int
  lower_seeds :: int
  template_matches :: "template_match list"

datatype template_error = Validation_error | Key_error

definition mk_slot :: "int \<Rightarrow> string option \<Rightarrow> int option \<Rightarrow> int option \<Rightarrow> template_error + template_slot" where
  "mk_slot k sd src pos =
     (if \<not> (1 \<le> k \<and> k \<le> MAX_SLOTS) then Inl Validation_error
      else if (case sd of None \<Rightarrow> False | Some s \<Rightarrow> \<not> seed_ref s) then Inl Validation_error
      else if (case pos of None \<Rightarrow> False | Some p \<Rightarrow> \<not> (1 \<le> p \<and> p \<le> MAX_SLOTS)) then Inl Validation_error
      else if (sd = None) = (src = None) then Inl Validation_error
      else if (src = None) \<noteq> (pos = None) then Inl Validation_error
      else Inr \<lparr>slot_no = k, seed = sd, source_match = src, place = pos\<rparr>)"

definition mk_match :: "int \<Rightarrow> int \<Rightarrow> template_slot list \<Rightarrow> template_error + template_match" where
  "mk_match i r ss =
     (if \<not> (0 \<le> i \<and> i \<le> 10000) then Inl Validation_error
      else if \<not> (- 256 \<le> r \<and> r \<le> 256) then Inl Validation_error
      else if \<not> (2 \<le> length ss \<and> int (length ss) \<le> MAX_SLOTS) then Inl Validation_error
      else if map slot_no ss \<noteq> map int [1..<length ss + 1] then Inl Validation_error
      else Inr \<lparr>match_id = i, match_round = r, match_slots = ss\<rparr>)"

definition mk_template :: "int \<Rightarrow> int \<Rightarrow> template_match list \<Rightarrow> template_error + bracket_template" where
  "mk_template u l ms =
     (if \<not> (2 \<le> u \<and> u \<le> 512) then Inl Validation_error
      else if \<not> (0 \<le> l \<and> l \<le> 512) then Inl Validation_error
      else if \<not> (1 \<le> length ms \<and> length ms \<le> 256) then Inl Validation_error
      else Inr \<lparr>upper_seeds = u, lower_seeds = l, template_matches = ms\<rparr>)"

section \<open>Conversions\<close>

definition seed_id :: "string \<Rightarrow> int \<Rightarrow> int" where
  "seed_id s upper =
     (let number = int (parse_nat (tl s)) in if hd s = CHR ''U'' then - number else - (upper + number))"

definition position_of :: "bracket_template \<Rightarrow> (int, nat) dict" where
  "position_of t = foldl (\<lambda>d (position, match). dict_set (match_id match) position d) []
     (zip [0..<length (template_matches t)] (template_matches t))"

definition slot_edges :: "(int, nat) dict \<Rightarrow> nat \<Rightarrow> template_slot \<Rightarrow> template_error + advancement_edge list" where
  "slot_edges positions position s =
     (case source_match s of
        None \<Rightarrow> Inr []
      | Some src \<Rightarrow> (case map_of positions src of
            None \<Rightarrow> Inl Key_error
          | Some l \<Rightarrow> Inr [\<lparr>source_local_id = l, source_position = nat (the (place s)),
                           target_local_id = position, target_slot = nat (slot_no s)\<rparr>]))"

fun match_edges :: "(int, nat) dict \<Rightarrow> nat \<Rightarrow> template_slot list \<Rightarrow> template_error + advancement_edge list" where
  "match_edges positions position [] = Inr []"
| "match_edges positions position (s # ss) =
     (case slot_edges positions position s of
        Inl e \<Rightarrow> Inl e
      | Inr es \<Rightarrow> (case match_edges positions position ss of Inl e \<Rightarrow> Inl e | Inr es' \<Rightarrow> Inr (es @ es')))"

fun template_edges :: "(int, nat) dict \<Rightarrow> (nat \<times> template_match) list \<Rightarrow> template_error + advancement_edge list" where
  "template_edges positions [] = Inr []"
| "template_edges positions ((position, match) # ms) =
     (case match_edges positions position (match_slots match) of
        Inl e \<Rightarrow> Inl e
      | Inr es \<Rightarrow> (case template_edges positions ms of Inl e \<Rightarrow> Inl e | Inr es' \<Rightarrow> Inr (es @ es')))"

definition max_round :: "int list \<Rightarrow> int" where
  "max_round rounds = foldr max (filter (\<lambda>r. 0 < r) rounds) 0"

definition template_to_skeleton :: "bracket_template \<Rightarrow> template_error + bracket_skeleton" where
  "template_to_skeleton t =
     (let numbered = zip [0..<length (template_matches t)] (template_matches t)
      in case template_edges (position_of t) numbered of
           Inl e \<Rightarrow> Inl e
         | Inr es \<Rightarrow> Inr (mk_skeleton
             (map (\<lambda>(position, match). mk_pairing
                (map (\<lambda>s. map_option (\<lambda>sd. seed_id sd (upper_seeds t)) (seed s)) (match_slots match))
                (match_round match) '''' position) numbered)
             (max_round (map match_round (template_matches t))) es))"

definition incoming :: "bracket_skeleton \<Rightarrow> (nat \<times> nat, advancement_edge) dict" where
  "incoming sk = foldl (\<lambda>d e. dict_set (target_local_id e, target_slot e) e d) [] (advancement_edges sk)"

definition skeleton_slot :: "(nat \<times> nat, advancement_edge) dict \<Rightarrow> int \<Rightarrow> pairing \<Rightarrow> nat \<Rightarrow> template_error + template_slot" where
  "skeleton_slot inc upper p index =
     (case team_ids p ! index of
        Some team \<Rightarrow>
          (let number = - team
           in mk_slot (int index + 1)
                (Some (if number \<le> upper then ''U'' @ show_int number else ''L'' @ show_int (number - upper))) None None)
      | None \<Rightarrow> (case map_of inc (local_id p, index + 1) of
            None \<Rightarrow> Inl Key_error
          | Some e \<Rightarrow> mk_slot (int index + 1) None (Some (int (source_local_id e))) (Some (int (source_position e)))))"

fun collect :: "('a \<Rightarrow> template_error + 'b) \<Rightarrow> 'a list \<Rightarrow> template_error + 'b list" where
  "collect f [] = Inr []"
| "collect f (x # xs) =
     (case f x of Inl e \<Rightarrow> Inl e | Inr y \<Rightarrow> (case collect f xs of Inl e \<Rightarrow> Inl e | Inr ys \<Rightarrow> Inr (y # ys)))"

definition skeleton_match :: "(nat \<times> nat, advancement_edge) dict \<Rightarrow> int \<Rightarrow> pairing \<Rightarrow> template_error + template_match" where
  "skeleton_match inc upper p =
     (case collect (skeleton_slot inc upper p) [0..<slot_count p] of
        Inl e \<Rightarrow> Inl e
      | Inr ss \<Rightarrow> mk_match (int (local_id p)) (round_number p) ss)"

definition skeleton_to_template :: "bracket_skeleton \<Rightarrow> int \<Rightarrow> int \<Rightarrow> template_error + bracket_template" where
  "skeleton_to_template sk upper lower =
     (case collect (skeleton_match (incoming sk) upper) (pairings sk) of
        Inl e \<Rightarrow> Inl e
      | Inr ms \<Rightarrow> mk_template upper lower ms)"

section \<open>Rendered seeds\<close>

lemma seed_ref_show:
  assumes "p = CHR ''U'' \<or> p = CHR ''L''" and "0 < n" and "n < 10000"
  shows "seed_ref (p # show_nat n)"
proof -
  obtain d ds where d: "show_nat n = d # ds" by (cases "show_nat n") auto
  have "d \<noteq> CHR ''0''" using hd_show_nat [OF assms(2)] d by simp
  moreover have "list_all is_digit (d # ds)" using show_nat_digits [of n] d by simp
  moreover have "length (d # ds) \<le> 4" using length_show_nat [of n 4] assms(3) d by simp
  ultimately show ?thesis using assms(1) by (simp add: seed_ref_def d)
qed

section \<open>A skeleton survives the trip through a template\<close>

text \<open>Skeletons an editor can draw: the limits of the template model, and the numbering of matches
  and edges every generator keeps.\<close>

definition drawable :: "int \<Rightarrow> int \<Rightarrow> bracket_skeleton \<Rightarrow> bool" where
  "drawable u l sk \<longleftrightarrow>
     2 \<le> u \<and> u \<le> 512 \<and> 0 \<le> l \<and> l \<le> 512 \<and> 1 \<le> length (pairings sk) \<and> length (pairings sk) \<le> 256 \<and>
     map local_id (pairings sk) = [0..<length (pairings sk)] \<and> bye_team_id sk = None \<and>
     total_rounds sk = max_round (map round_number (pairings sk)) \<and>
     list_all (\<lambda>p. 2 \<le> length (team_ids p) \<and> length (team_ids p) \<le> 100 \<and> - 256 \<le> round_number p \<and> round_number p \<le> 256 \<and>
       best_of p = None \<and> list_all (\<lambda>x. case x of None \<Rightarrow> True | Some t \<Rightarrow> 1 \<le> - t \<and> - t \<le> u + l) (team_ids p)) (pairings sk) \<and>
     map (\<lambda>e. (target_local_id e, target_slot e)) (advancement_edges sk) = open_seats (pairings sk) \<and>
     list_all (\<lambda>e. source_local_id e < length (pairings sk) \<and> 1 \<le> source_position e \<and> source_position e \<le> 100) (advancement_edges sk)"

definition erase_names :: "bracket_skeleton \<Rightarrow> bracket_skeleton" where
  "erase_names sk = sk\<lparr>pairings := map (\<lambda>p. p\<lparr>pairing_name := ''''\<rparr>) (pairings sk)\<rparr>"

definition slot_for :: "(nat \<times> nat, advancement_edge) dict \<Rightarrow> int \<Rightarrow> pairing \<Rightarrow> nat \<Rightarrow> template_slot" where
  "slot_for inc upper p i =
     (case team_ids p ! i of
        Some team \<Rightarrow> \<lparr>slot_no = int i + 1,
          seed = Some (if - team \<le> upper then CHR ''U'' # show_nat (nat (- team)) else CHR ''L'' # show_nat (nat (- team - upper))),
          source_match = None, place = None\<rparr>
      | None \<Rightarrow> (let e = the (map_of inc (local_id p, i + 1)) in
          \<lparr>slot_no = int i + 1, seed = None, source_match = Some (int (source_local_id e)), place = Some (int (source_position e))\<rparr>))"

lemma collect_map: "(\<And>x. x \<in> set xs \<Longrightarrow> f x = Inr (g x)) \<Longrightarrow> collect f xs = Inr (map g xs)"
  by (induction xs) auto

lemma incoming_edge:
  assumes "drawable u l sk" and "(k, s) \<in> set (open_seats (pairings sk))"
  obtains e where "map_of (incoming sk) (k, s) = Some e" and "e \<in> set (advancement_edges sk)"
    and "target_local_id e = k" and "target_slot e = s"
proof -
  let ?t = "\<lambda>e. (target_local_id e, target_slot e)"
  have seats: "map ?t (advancement_edges sk) = open_seats (pairings sk)" using assms(1) by (simp add: drawable_def)
  have "distinct (map local_id (pairings sk))" using assms(1) unfolding drawable_def by (metis distinct_upt)
  then have d: "distinct (map ?t (advancement_edges sk))" unfolding seats by (rule distinct_open_seats)
  have inc: "incoming sk = map (\<lambda>e. (?t e, e)) (advancement_edges sk)"
    unfolding incoming_def using dict_comprehension [OF d] .
  obtain e where e: "e \<in> set (advancement_edges sk)" "?t e = (k, s)" using assms(2) seats [symmetric] by auto
  have "map_of (incoming sk) (?t e) = Some e" unfolding inc by (rule map_of_comprehension [OF d e(1)])
  then show thesis using that e by simp
qed

lemma open_seat_mem:
  "p \<in> set ps \<Longrightarrow> i < length (team_ids p) \<Longrightarrow> team_ids p ! i = None \<Longrightarrow> (local_id p, i + 1) \<in> set (open_seats ps)"
  by (force simp: open_seats_def)

lemma skeleton_slot_for:
  assumes "drawable u l sk" and "p \<in> set (pairings sk)" and "i < length (team_ids p)"
  shows "skeleton_slot (incoming sk) u p i = Inr (slot_for (incoming sk) u p i)"
proof (cases "team_ids p ! i")
  case None
  note seat = open_seat_mem [OF assms(2,3) None]
  obtain e where e: "map_of (incoming sk) (local_id p, i + 1) = Some e" "e \<in> set (advancement_edges sk)"
    using incoming_edge [OF assms(1) seat] by metis
  have "1 \<le> source_position e" "source_position e \<le> 100" "length (team_ids p) \<le> 100"
    using assms(1,2) e(2) by (auto simp: drawable_def list_all_iff)
  then show ?thesis using None e assms(3)
    by (simp add: skeleton_slot_def slot_for_def mk_slot_def MAX_SLOTS_def)
next
  case (Some t)
  have "1 \<le> - t \<and> - t \<le> u + l"
    using assms Some nth_mem [OF assms(3)] by (fastforce simp: drawable_def list_all_iff)
  moreover have "length (team_ids p) \<le> 100" "u \<le> 512" "l \<le> 512" using assms(1,2) by (auto simp: drawable_def list_all_iff)
  ultimately show ?thesis using Some assms(3)
    by (auto simp: skeleton_slot_def slot_for_def mk_slot_def MAX_SLOTS_def show_int_def Let_def seed_ref_show)
qed

definition match_for :: "(nat \<times> nat, advancement_edge) dict \<Rightarrow> int \<Rightarrow> pairing \<Rightarrow> template_match" where
  "match_for inc upper p =
     \<lparr>match_id = int (local_id p), match_round = round_number p, match_slots = map (slot_for inc upper p) [0..<length (team_ids p)]\<rparr>"

definition template_for :: "bracket_skeleton \<Rightarrow> int \<Rightarrow> int \<Rightarrow> bracket_template" where
  "template_for sk u l =
     \<lparr>upper_seeds = u, lower_seeds = l, template_matches = map (match_for (incoming sk) u) (pairings sk)\<rparr>"

lemma slot_no_for [simp]: "slot_no (slot_for inc u p i) = int i + 1"
  by (simp add: slot_for_def Let_def split: option.splits)

lemma map_slot_no: "map (\<lambda>i. int i + 1) [0..<n] = map int [1..<n + 1]"
  by (rule nth_equalityI) (simp_all del: upt_Suc)

lemma skeleton_match_for:
  assumes "drawable u l sk" and "p \<in> set (pairings sk)"
  shows "skeleton_match (incoming sk) u p = Inr (match_for (incoming sk) u p)"
proof -
  have "collect (skeleton_slot (incoming sk) u p) [0..<slot_count p] =
      Inr (map (slot_for (incoming sk) u p) [0..<length (team_ids p)])"
    unfolding slot_count_def by (rule collect_map) (use skeleton_slot_for [OF assms] in simp)
  moreover have "local_id p \<le> 10000"
  proof -
    have "local_id p \<in> set (map local_id (pairings sk))" using assms(2) by simp
    also have "map local_id (pairings sk) = [0..<length (pairings sk)]" using assms(1) by (simp add: drawable_def)
    finally show ?thesis using assms(1) by (simp add: drawable_def)
  qed
  ultimately show ?thesis using assms
    by (auto simp: skeleton_match_def mk_match_def match_for_def MAX_SLOTS_def drawable_def list_all_iff o_def map_slot_no)
qed

lemma skeleton_to_template_for: "drawable u l sk \<Longrightarrow> skeleton_to_template sk u l = Inr (template_for sk u l)"
proof -
  assume d: "drawable u l sk"
  have "collect (skeleton_match (incoming sk) u) (pairings sk) = Inr (map (match_for (incoming sk) u) (pairings sk))"
    by (rule collect_map) (rule skeleton_match_for [OF d])
  then show ?thesis using d by (simp add: skeleton_to_template_def template_for_def mk_template_def drawable_def)
qed

lemma zip_numbered: "map local_id ps = [0..<length ps] \<Longrightarrow> zip [0..<length ps] (map f ps) = map (\<lambda>p. (local_id p, f p)) ps"
proof -
  assume ids: "map local_id ps = [0..<length ps]"
  have "zip (map local_id qs) (map f qs) = map (\<lambda>p. (local_id p, f p)) qs" for qs by (induction qs) auto
  then show ?thesis unfolding ids [symmetric] .
qed

lemma template_for_positions:
  assumes "drawable u l sk" and "k < length (pairings sk)"
  shows "map_of (position_of (template_for sk u l)) (int k) = Some k"
proof -
  let ?ps = "pairings sk"
  have ids: "map local_id ?ps = [0..<length ?ps]" using assms(1) by (simp add: drawable_def)
  have "position_of (template_for sk u l) =
      foldl (\<lambda>d p. dict_set (int (local_id p)) (local_id p) d) [] ?ps"
    by (simp add: position_of_def template_for_def zip_numbered [OF ids] foldl_map match_for_def)
  also have "\<dots> = map (\<lambda>p. (int (local_id p), local_id p)) ?ps"
  proof (rule dict_comprehension)
    have "distinct (map int (map local_id ?ps))" unfolding ids by (simp add: distinct_map)
    then show "distinct (map (\<lambda>p. int (local_id p)) ?ps)" by (simp add: o_def)
  qed
  also have "\<dots> = map (\<lambda>k. (int k, k)) [0..<length ?ps]" unfolding ids [symmetric] by simp
  finally show ?thesis using map_of_comprehension [of int "[0..<length ?ps]" k "\<lambda>k. k"] assms(2)
    by (simp add: distinct_map)
qed

lemma nat_seed: "1 \<le> - t \<Longrightarrow> - t \<le> u + l \<Longrightarrow> 0 \<le> u \<Longrightarrow>
    seed_id (if - t \<le> u then CHR ''U'' # show_nat (nat (- t)) else CHR ''L'' # show_nat (nat (- t - u))) u = t"
  by (simp add: seed_id_def)

lemma slot_team_back:
  assumes "drawable u l sk" and "p \<in> set (pairings sk)" and "i < length (team_ids p)"
  shows "map_option (\<lambda>sd. seed_id sd u) (seed (slot_for (incoming sk) u p i)) = team_ids p ! i"
proof (cases "team_ids p ! i")
  case (Some t)
  then have "1 \<le> - t \<and> - t \<le> u + l"
    using assms nth_mem [OF assms(3)] by (fastforce simp: drawable_def list_all_iff)
  then show ?thesis using Some assms(1) nat_seed [of t u l] by (simp add: slot_for_def drawable_def)
qed (simp add: slot_for_def Let_def)

definition feeder :: "bracket_skeleton \<Rightarrow> nat \<times> nat \<Rightarrow> advancement_edge" where
  "feeder sk k = the (map_of (incoming sk) k)"

lemma slot_edges_back:
  assumes "drawable u l sk" and "p \<in> set (pairings sk)" and "i < length (team_ids p)"
  shows "slot_edges (position_of (template_for sk u l)) (local_id p) (slot_for (incoming sk) u p i) =
    Inr (if team_ids p ! i = None then [feeder sk (local_id p, i + 1)] else [])"
proof (cases "team_ids p ! i")
  case None
  obtain e where e: "map_of (incoming sk) (local_id p, i + 1) = Some e" "e \<in> set (advancement_edges sk)"
    "target_local_id e = local_id p" "target_slot e = i + 1"
    using incoming_edge [OF assms(1) open_seat_mem [OF assms(2,3) None]] by metis
  have "source_local_id e < length (pairings sk)" using assms(1) e(2) by (simp add: drawable_def list_all_iff)
  from template_for_positions [OF assms(1) this] show ?thesis using None e
    by (simp add: slot_edges_def slot_for_def feeder_def Let_def nat_add_distrib)
qed (simp add: slot_edges_def slot_for_def Let_def)

lemma match_edges_concat:
  "(\<And>s. s \<in> set ss \<Longrightarrow> slot_edges positions k s = Inr (E s)) \<Longrightarrow> match_edges positions k ss = Inr (concat (map E ss))"
  by (induction ss) auto

lemma template_edges_concat:
  "(\<And>k m. (k, m) \<in> set ms \<Longrightarrow> match_edges positions k (match_slots m) = Inr (E k m)) \<Longrightarrow>
    template_edges positions ms = Inr (concat (map (\<lambda>(k, m). E k m) ms))"
  by (induction ms) auto

lemma concat_if_filter: "concat (map (\<lambda>i. if P i then [f i] else []) xs) = map f (filter P xs)"
  by (induction xs) auto

lemma match_edges_back:
  assumes "drawable u l sk" and "p \<in> set (pairings sk)"
  shows "match_edges (position_of (template_for sk u l)) (local_id p) (match_slots (match_for (incoming sk) u p)) =
    Inr (map (feeder sk) (map (\<lambda>i. (local_id p, Suc i)) (filter (\<lambda>i. team_ids p ! i = None) [0..<length (team_ids p)])))"
proof -
  have "match_edges pos k (map g is) = Inr (concat (map h is))"
    if "\<And>i. i \<in> set is \<Longrightarrow> slot_edges pos k (g i) = Inr (h i)" for pos k g h "is"
    using that by (induction "is") auto
  from this [of "[0..<length (team_ids p)]", OF slot_edges_back [OF assms]]
  show ?thesis by (simp add: match_for_def concat_if_filter o_def)
qed

lemma feeders_are_edges:
  assumes "drawable u l sk"
  shows "map (feeder sk) (open_seats (pairings sk)) = advancement_edges sk"
proof -
  let ?t = "\<lambda>e. (target_local_id e, target_slot e)"
  have seats: "map ?t (advancement_edges sk) = open_seats (pairings sk)" using assms by (simp add: drawable_def)
  have "distinct (map local_id (pairings sk))" using assms unfolding drawable_def by (metis distinct_upt)
  then have d: "distinct (map ?t (advancement_edges sk))" unfolding seats by (rule distinct_open_seats)
  have inc: "incoming sk = map (\<lambda>e. (?t e, e)) (advancement_edges sk)"
    unfolding incoming_def using dict_comprehension [OF d] .
  have "feeder sk (?t e) = e" if "e \<in> set (advancement_edges sk)" for e
    unfolding feeder_def inc using map_of_comprehension [OF d that, of "\<lambda>e. e"] by simp
  then show ?thesis unfolding seats [symmetric] by (simp add: map_idI)
qed

lemma template_for_back:
  assumes "drawable u l sk"
  shows "template_to_skeleton (template_for sk u l) = Inr (erase_names sk)"
proof -
  let ?ps = "pairings sk"
  let ?t = "template_for sk u l"
  have ids: "map local_id ?ps = [0..<length ?ps]" using assms by (simp add: drawable_def)
  have numbered: "zip [0..<length (template_matches ?t)] (template_matches ?t) =
      map (\<lambda>p. (local_id p, match_for (incoming sk) u p)) ?ps"
    by (simp add: template_for_def zip_numbered [OF ids])
  let ?seats = "\<lambda>p. map (\<lambda>i. (local_id p, Suc i)) (filter (\<lambda>i. team_ids p ! i = None) [0..<length (team_ids p)])"
  have "template_edges pos (map (\<lambda>p. (local_id p, g p)) qs) = Inr (concat (map h qs))"
    if "\<And>p. p \<in> set qs \<Longrightarrow> match_edges pos (local_id p) (match_slots (g p)) = Inr (h p)" for pos g h qs
    using that by (induction qs) auto
  from this [OF match_edges_back [OF assms]]
  have "template_edges (position_of ?t) (map (\<lambda>p. (local_id p, match_for (incoming sk) u p)) ?ps) =
      Inr (concat (map (\<lambda>p. map (feeder sk) (?seats p)) ?ps))" by simp
  also have "concat (map (\<lambda>p. map (feeder sk) (?seats p)) ?ps) = map (feeder sk) (open_seats ?ps)"
    by (simp add: open_seats_def map_concat o_def)
  finally have edges: "template_edges (position_of ?t) (map (\<lambda>p. (local_id p, match_for (incoming sk) u p)) ?ps) =
      Inr (advancement_edges sk)" unfolding feeders_are_edges [OF assms] .
  have "mk_pairing (map (\<lambda>s. map_option (\<lambda>sd. seed_id sd u) (seed s)) (match_slots (match_for (incoming sk) u p)))
      (match_round (match_for (incoming sk) u p)) '''' (local_id p) = p\<lparr>pairing_name := ''''\<rparr>" if "p \<in> set ?ps" for p
  proof -
    have "map (\<lambda>i. map_option (\<lambda>sd. seed_id sd u) (seed (slot_for (incoming sk) u p i))) [0..<length (team_ids p)] = team_ids p"
      by (rule nth_equalityI) (simp_all add: slot_team_back [OF assms that])
    then show ?thesis using that assms
      by (cases p) (auto simp: mk_pairing_def match_for_def o_def drawable_def list_all_iff)
  qed
  then show ?thesis
    using assms unfolding template_to_skeleton_def Let_def numbered edges
    by (cases sk) (simp add: mk_skeleton_def erase_names_def template_for_def drawable_def o_def match_for_def [of _ _ ] cong: map_cong)
qed

text \<open>C12: a skeleton over placeholder seeds that fits the limits of the editor becomes a template that the
  template models accept when they are built (the rules of \<open>validate_template\<close> are a check of their own and not
  claimed here), and reading that template back gives the same skeleton, match names apart: same seats,
  rounds, local ids, and edges in the same order.\<close>

theorem template_roundtrip:
  assumes "drawable u l sk"
  shows "\<exists>t. skeleton_to_template sk u l = Inr t \<and> upper_seeds t = u \<and> lower_seeds t = l \<and>
    template_to_skeleton t = Inr (erase_names sk)"
  using skeleton_to_template_for [OF assms] template_for_back [OF assms]
  by (intro exI [of _ "template_for sk u l"]) (simp add: template_for_def)

definition four_team_double :: bracket_skeleton where
  "four_team_double = (case placeholder_bracket DOUBLE_ELIMINATION 4 1 of Inl e \<Rightarrow> mk_skeleton [] 0 [] | Inr sk \<Rightarrow> sk)"

theorem template_roundtrip_witness:
  "\<exists>t. skeleton_to_template four_team_double 4 1 = Inr t \<and> template_to_skeleton t = Inr (erase_names four_team_double) \<and>
    length (pairings four_team_double) = 7"
proof -
  have "drawable 4 1 four_team_double" "length (pairings four_team_double) = 7" by code_simp+
  then show ?thesis using template_roundtrip by blast
qed

section \<open>The rules of a template\<close>

record template_problem =
  problem_match :: "int option"
  problem_slot :: "int option"
  code :: string

definition prob :: "string \<Rightarrow> int option \<Rightarrow> int option \<Rightarrow> template_problem" where
  "prob c m s = \<lparr>problem_match = m, problem_slot = s, code = c\<rparr>"

definition id_step :: "(int, template_match) dict \<times> template_problem list \<Rightarrow> template_match \<Rightarrow>
    (int, template_match) dict \<times> template_problem list" where
  "id_step st m =
     (case st of (by_id, ps) \<Rightarrow>
       (dict_set (match_id m) m by_id,
        ps @ (if dict_has by_id (match_id m) then [prob ''duplicate_id'' (Some (match_id m)) None] else [])
           @ (if match_round m = 0 then [prob ''zero_round'' (Some (match_id m)) None] else [])))"

type_synonym feeds = "(int \<times> int, int \<times> int) dict"

definition seed_problems :: "bracket_template \<Rightarrow> (string, int) dict \<Rightarrow> template_match \<Rightarrow> template_slot \<Rightarrow> string \<Rightarrow> template_problem list" where
  "seed_problems t seeded m s sd =
     (let pool = hd sd; number = int (parse_nat (tl sd));
          limit = (if pool = CHR ''U'' then upper_seeds t else lower_seeds t)
      in (if number > limit then [prob ''seed_out_of_range'' (Some (match_id m)) (Some (slot_no s))]
          else if dict_get seeded sd 0 > 1 then [prob ''seed_duplicate'' (Some (match_id m)) (Some (slot_no s))] else []) @
         (if (pool = CHR ''U'') \<noteq> (match_round m > 0) then [prob ''seed_bracket'' (Some (match_id m)) (Some (slot_no s))] else []))"

definition direction_problems :: "template_match \<Rightarrow> template_slot \<Rightarrow> template_match \<Rightarrow> int \<Rightarrow> template_problem list \<times> (int \<times> int) list" where
  "direction_problems m s src pos =
     (let source_upper = match_round src > 0; target_upper = match_round m > 0;
          wrong = [prob ''edge_direction'' (Some (match_id m)) (Some (slot_no s))]
      in if source_upper \<and> target_upper \<and> match_round m \<le> match_round src then (wrong, [])
         else if \<not> source_upper \<and> \<not> target_upper \<and> - match_round m \<le> - match_round src then (wrong, [])
         else if source_upper \<and> \<not> target_upper \<and> pos = 1 then (wrong, [])
         else if \<not> source_upper \<and> target_upper then
           (if pos \<noteq> 1 then (wrong, []) else ([], [(match_id m, slot_no s)]))
         else ([], []))"

definition slot_step ::
  "bracket_template \<Rightarrow> (int, template_match) dict \<Rightarrow> (string, int) dict \<Rightarrow>
   template_problem list \<times> feeds \<times> (int \<times> int) list \<Rightarrow> template_match \<times> template_slot \<Rightarrow>
   template_problem list \<times> feeds \<times> (int \<times> int) list" where
  "slot_step t by_id seeded st ms =
     (case (st, ms) of ((ps, feeds, to_upper), (m, s)) \<Rightarrow>
       let here = \<lambda>c. prob c (Some (match_id m)) (Some (slot_no s)) in
       case seed s of
         Some sd \<Rightarrow> (ps @ seed_problems t seeded m s sd, feeds, to_upper)
       | None \<Rightarrow>
           (case Option.bind (source_match s) (map_of by_id) of
              None \<Rightarrow> (ps @ [here ''unknown_match''], feeds, to_upper)
            | Some src \<Rightarrow>
                if source_match s = Some (match_id m) then (ps @ [here ''unknown_match''], feeds, to_upper)
                else let pos = the (place s); key = (the (source_match s), pos) in
                  if pos > int (length (match_slots src)) then (ps @ [here ''position_out_of_range''], feeds, to_upper)
                  else if dict_has feeds key then (ps @ [here ''result_reused''], feeds, to_upper)
                  else (case direction_problems m s src pos of
                      (dp, up) \<Rightarrow> (ps @ dp, dict_set key (match_id m, slot_no s) feeds, to_upper @ up))))"

definition unused_seeds :: "char \<Rightarrow> int \<Rightarrow> (string, int) dict \<Rightarrow> template_problem list" where
  "unused_seeds pool limit seeded =
     map (\<lambda>n. prob ''seed_unused'' None None)
       (filter (\<lambda>n. \<not> dict_has seeded (pool # show_nat n)) [1..<nat limit + 1])"

definition final_problems :: "template_match list \<Rightarrow> feeds \<Rightarrow> int list \<Rightarrow> template_problem list \<times> template_match option" where
  "final_problems ms feeds upper_rounds =
     (let terminals = filter (\<lambda>m. \<not> dict_has feeds (match_id m, 1)) ms
      in case terminals of
           [] \<Rightarrow> ([prob ''final'' None None], None)
         | [final] \<Rightarrow>
             (let top_round = (if upper_rounds \<noteq> [] then Some (last upper_rounds) else None)
              in (if Some (match_round final) \<noteq> top_round \<or>
                     length (filter (\<lambda>m. Some (match_round m) = top_round) ms) \<noteq> 1
                  then [prob ''final'' (Some (match_id final)) None] else [], Some final))
         | _ \<Rightarrow> (map (\<lambda>m. prob ''final'' (Some (match_id m)) None) terminals, None))"

definition drops_of :: "feeds \<Rightarrow> (int, template_match) dict \<Rightarrow> (int, template_match) dict" where
  "drops_of feeds by_id =
     foldl (\<lambda>d ((source, pos), (target, slot)). if pos > 1 then dict_set source (the (map_of by_id target)) d else d) [] feeds"

definition double_problems ::
  "template_match list \<Rightarrow> (int, template_match) dict \<Rightarrow> (int, template_match) dict \<Rightarrow> template_match \<Rightarrow> template_problem list" where
  "double_problems ms by_id drops final =
     (if list_ex (\<lambda>s. case source_match s of None \<Rightarrow> False | Some src \<Rightarrow>
            match_round (case map_of by_id src of None \<Rightarrow> final | Some m \<Rightarrow> m) < 0) (match_slots final)
      then [] else [prob ''de_final_needs_lower'' (Some (match_id final)) None]) @
     concat (map (\<lambda>m.
       let is_final = (match_id m = match_id final); drop = map_of drops (match_id m) in
       (if match_round m > 0 \<and> \<not> is_final \<and> (case drop of None \<Rightarrow> True | Some d \<Rightarrow> match_round d > 0)
        then [prob ''de_upper_loser'' (Some (match_id m)) None] else []) @
       (if match_round m < 0 \<or> is_final
        then (case drop of None \<Rightarrow> [] | Some d \<Rightarrow> [prob ''de_lower_loser'' (Some (match_id d)) None]) else [])) ms)"

definition validate_template :: "bracket_template \<Rightarrow> stage_type \<Rightarrow> template_problem list" where
  "validate_template t st =
     (let ms = template_matches t;
          (by_id, id_problems) = foldl id_step ([], []) ms
      in if id_problems \<noteq> [] then id_problems
         else let
           seeded = foldl (\<lambda>d sd. counter_add sd 1 d) [] (concat (map (\<lambda>m. List.map_filter seed (match_slots m)) ms));
           (ps, feeds, to_upper) = foldl (slot_step t by_id seeded) ([], [], [])
             (concat (map (\<lambda>m. map (\<lambda>s. (m, s)) (match_slots m)) ms));
           unused = unused_seeds (CHR ''U'') (upper_seeds t) seeded @ unused_seeds (CHR ''L'') (lower_seeds t) seeded;
           upper_rounds = sort (dedup (filter (\<lambda>r. 0 < r) (map match_round ms)));
           gap = (if upper_rounds \<noteq> map int [1..<length upper_rounds + 1] then [prob ''round_gap'' None None] else []);
           (finals, final) = final_problems ms feeds upper_rounds;
           crossing = map (\<lambda>(target, slot). prob ''edge_direction'' (Some target) (Some slot))
             (filter (\<lambda>(target, slot). case final of None \<Rightarrow> True | Some f \<Rightarrow> target \<noteq> match_id f) to_upper);
           drops = drops_of feeds by_id;
           double = (case (st, final) of (DOUBLE_ELIMINATION, Some f) \<Rightarrow> double_problems ms by_id drops f | _ \<Rightarrow> []);
           single = (if st = SINGLE_ELIMINATION \<and>
               (lower_seeds t \<noteq> 0 \<or> drops \<noteq> [] \<or> list_ex (\<lambda>m. match_round m < 0) ms) then [prob ''se_shape'' None None] else [])
         in ps @ unused @ gap @ finals @ crossing @ double @ single)"

section \<open>What an accepted template guarantees\<close>

lemma seed_ref_parse:
  assumes "seed_ref sd"
  shows "sd = hd sd # show_nat (parse_nat (tl sd))" and "hd sd = CHR ''U'' \<or> hd sd = CHR ''L''" and "0 < parse_nat (tl sd)"
proof -
  obtain p d ds where sd: "sd = p # d # ds" using assms by (auto simp: seed_ref_def split: list.splits)
  then have "list_all is_digit (d # ds)" "d \<noteq> CHR ''0''" using assms by (simp_all add: seed_ref_def)
  then show "sd = hd sd # show_nat (parse_nat (tl sd))" and "hd sd = CHR ''U'' \<or> hd sd = CHR ''L''" and "0 < parse_nat (tl sd)"
    using show_parse_nat [of "d # ds"] parse_nat_pos [of "d # ds"] assms by (simp_all add: sd seed_ref_def)
qed

definition checked_template :: "bracket_template \<Rightarrow> bool" where
  "checked_template t \<longleftrightarrow>
     mk_template (upper_seeds t) (lower_seeds t) (template_matches t) = Inr t \<and>
     list_all (\<lambda>m. mk_match (match_id m) (match_round m) (match_slots m) = Inr m \<and>
       list_all (\<lambda>s. mk_slot (slot_no s) (seed s) (source_match s) (place s) = Inr s) (match_slots m)) (template_matches t)"

definition all_slots :: "bracket_template \<Rightarrow> (template_match \<times> template_slot) list" where
  "all_slots t = concat (map (\<lambda>m. map (\<lambda>s. (m, s)) (match_slots m)) (template_matches t))"

definition fed_slots :: "bracket_template \<Rightarrow> (template_match \<times> template_slot) list" where
  "fed_slots t = filter (\<lambda>(m, s). seed s = None) (all_slots t)"

definition used_seeds :: "bracket_template \<Rightarrow> string list" where
  "used_seeds t = concat (map (\<lambda>m. List.map_filter seed (match_slots m)) (template_matches t))"

definition feed_key :: "template_match \<times> template_slot \<Rightarrow> int \<times> int" where
  "feed_key x = (the (source_match (snd x)), the (place (snd x)))"

lemma checked_slot:
  assumes "checked_template t" and "(m, s) \<in> set (all_slots t)"
  shows "m \<in> set (template_matches t)" and "s \<in> set (match_slots m)" and "- 256 \<le> match_round m" and "match_round m \<le> 256"
    and "\<And>sd. seed s = Some sd \<Longrightarrow> seed_ref sd"
    and "seed s = None \<Longrightarrow> \<exists>src pos. source_match s = Some src \<and> place s = Some pos \<and> 1 \<le> pos"
proof -
  show m: "m \<in> set (template_matches t)" "s \<in> set (match_slots m)" using assms(2) by (auto simp: all_slots_def)
  have "mk_match (match_id m) (match_round m) (match_slots m) = Inr m"
    and s: "mk_slot (slot_no s) (seed s) (source_match s) (place s) = Inr s"
    using assms(1) m by (auto simp: checked_template_def list_all_iff)
  then show "- 256 \<le> match_round m" "match_round m \<le> 256" by (auto simp: mk_match_def split: if_splits)
  show "\<And>sd. seed s = Some sd \<Longrightarrow> seed_ref sd" using s by (auto simp: mk_slot_def split: if_splits)
  show "seed s = None \<Longrightarrow> \<exists>src pos. source_match s = Some src \<and> place s = Some pos \<and> 1 \<le> pos"
    using s by (auto simp: mk_slot_def split: if_splits option.splits)
qed

lemma id_fold:
  "snd (foldl id_step (d, ps) ms) = [] \<Longrightarrow>
    ps = [] \<and> distinct (map match_id ms) \<and> match_id ` set ms \<inter> fst ` set d = {} \<and> (\<forall>m \<in> set ms. match_round m \<noteq> 0) \<and>
    fst (foldl id_step (d, ps) ms) = foldl (\<lambda>d m. dict_set (match_id m) m d) d ms"
proof (induction ms arbitrary: d ps)
  case (Cons m ms)
  let ?d = "dict_set (match_id m) m d"
  have step: "id_step (d, ps) m = (?d, ps @ (if dict_has d (match_id m) then [prob ''duplicate_id'' (Some (match_id m)) None] else [])
      @ (if match_round m = 0 then [prob ''zero_round'' (Some (match_id m)) None] else []))"
    by (simp add: id_step_def)
  let ?ps = "ps @ (if dict_has d (match_id m) then [prob ''duplicate_id'' (Some (match_id m)) None] else [])
      @ (if match_round m = 0 then [prob ''zero_round'' (Some (match_id m)) None] else [])"
  have IH: "?ps = [] \<and> distinct (map match_id ms) \<and> match_id ` set ms \<inter> fst ` set ?d = {} \<and> (\<forall>m \<in> set ms. match_round m \<noteq> 0) \<and>
      fst (foldl id_step (?d, ?ps) ms) = foldl (\<lambda>d m. dict_set (match_id m) m d) ?d ms"
    by (rule Cons.IH) (use Cons.prems in \<open>simp only: foldl_Cons step\<close>)
  have here: "ps = []" "\<not> dict_has d (match_id m)" "match_round m \<noteq> 0" using IH by (auto split: if_splits)
  have "match_id ` set ms \<inter> insert (match_id m) (fst ` set d) = {}" using IH by (simp add: keys_dict_set)
  moreover have "id_step (d, ps) m = (?d, ?ps)" "?ps = []" using step IH by simp_all
  ultimately show ?case using IH here by (simp add: dict_has_iff)
qed simp

lemma by_id_lookup:
  assumes "distinct (map match_id ms)"
  shows "map_of (foldl (\<lambda>d m. dict_set (match_id m) m d) [] ms) i = Some m \<longleftrightarrow> m \<in> set ms \<and> match_id m = i"
proof -
  have "foldl (\<lambda>d m. dict_set (match_id m) m d) [] ms = map (\<lambda>m. (match_id m, m)) ms"
    by (rule dict_comprehension [OF assms])
  moreover have "distinct (map fst (map (\<lambda>m. (match_id m, m)) ms))" using assms by (simp add: o_def)
  ultimately show ?thesis by (auto dest: map_of_SomeD intro: map_of_is_SomeI)
qed

text \<open>A run of \<open>slot_step\<close> that reports nothing: every slot is in order, and the feeds are
  exactly the fed slots, each result used once.\<close>

definition slot_ok :: "bracket_template \<Rightarrow> (int, template_match) dict \<Rightarrow> (string, int) dict \<Rightarrow> template_match \<times> template_slot \<Rightarrow> bool" where
  "slot_ok t by_id seeded x = (case x of (m, s) \<Rightarrow>
     case seed s of
       Some sd \<Rightarrow> seed_problems t seeded m s sd = []
     | None \<Rightarrow> (\<exists>src id. source_match s = Some id \<and> map_of by_id id = Some src \<and> id \<noteq> match_id m \<and>
         the (place s) \<le> int (length (match_slots src)) \<and> fst (direction_problems m s src (the (place s))) = []))"

definition feed_entry :: "template_match \<times> template_slot \<Rightarrow> (int \<times> int) \<times> (int \<times> int)" where
  "feed_entry x = (feed_key x, (match_id (fst x), slot_no (snd x)))"

definition crossings :: "(int, template_match) dict \<Rightarrow> template_match \<times> template_slot \<Rightarrow> (int \<times> int) list" where
  "crossings by_id x = (case x of (m, s) \<Rightarrow>
     snd (direction_problems m s (the (map_of by_id (the (source_match s)))) (the (place s))))"

lemma slot_fold:
  "foldl (slot_step t by_id seeded) (ps, fs, up) xs = ([], fs', up') \<Longrightarrow> distinct (map fst fs) \<Longrightarrow>
    ps = [] \<and> list_all (slot_ok t by_id seeded) xs \<and>
    fs' = fs @ map feed_entry (filter (\<lambda>(m, s). seed s = None) xs) \<and> distinct (map fst fs') \<and>
    up' = up @ concat (map (crossings by_id) (filter (\<lambda>(m, s). seed s = None) xs))"
proof (induction xs arbitrary: ps fs up)
  case (Cons x xs)
  obtain m s where x: "x = (m, s)" by (cases x)
  obtain ps1 fs1 up1 where st: "slot_step t by_id seeded (ps, fs, up) (m, s) = (ps1, fs1, up1)" by (metis prod_cases3)
  have dd: "distinct (map fst fs1)" using st Cons.prems(2)
    by (auto simp: slot_step_def Let_def split: option.splits if_splits prod.splits)
  have IH: "ps1 = []" "list_all (slot_ok t by_id seeded) xs"
    "fs' = fs1 @ map feed_entry (filter (\<lambda>(m, s). seed s = None) xs)" "distinct (map fst fs')"
    "up' = up1 @ concat (map (crossings by_id) (filter (\<lambda>(m, s). seed s = None) xs))"
    using Cons.IH [OF _ dd, of ps1 up1] Cons.prems(1) unfolding x foldl_Cons st by blast+
  have "ps = [] \<and> slot_ok t by_id seeded x \<and> fs1 = fs @ (if seed s = None then [feed_entry x] else []) \<and>
      up1 = up @ (if seed s = None then crossings by_id x else [])"
    using st unfolding IH(1)
    by (auto simp: slot_step_def slot_ok_def x Let_def feed_entry_def feed_key_def crossings_def bind_eq_Some_conv
        dict_has_iff dict_set_new split: option.splits if_splits prod.splits)
  then show ?case using IH x by simp
qed simp

definition by_id_of :: "bracket_template \<Rightarrow> (int, template_match) dict" where
  "by_id_of t = foldl (\<lambda>d m. dict_set (match_id m) m d) [] (template_matches t)"

definition seeded_of :: "bracket_template \<Rightarrow> (string, int) dict" where
  "seeded_of t = foldl (\<lambda>d sd. counter_add sd 1 d) [] (used_seeds t)"

definition feeds_of :: "bracket_template \<Rightarrow> feeds" where
  "feeds_of t = map feed_entry (fed_slots t)"

lemma final_problems_none:
  assumes "final_problems ms feeds rounds = ([], final)"
  obtains f where "final = Some f" and "filter (\<lambda>m. \<not> dict_has feeds (match_id m, 1)) ms = [f]"
  using assms by (auto simp: final_problems_def Let_def split: list.splits if_splits)

lemma validated_parts:
  assumes "validate_template t st = []"
  obtains f where "distinct (map match_id (template_matches t))" and "\<forall>m \<in> set (template_matches t). match_round m \<noteq> 0"
    and "list_all (slot_ok t (by_id_of t) (seeded_of t)) (all_slots t)"
    and "distinct (map feed_key (fed_slots t))"
    and "unused_seeds (CHR ''U'') (upper_seeds t) (seeded_of t) = []"
    and "unused_seeds (CHR ''L'') (lower_seeds t) (seeded_of t) = []"
    and "filter (\<lambda>m. \<not> dict_has (feeds_of t) (match_id m, 1)) (template_matches t) = [f]"
    and "\<forall>x \<in> set (fed_slots t). \<forall>(target, slot) \<in> set (crossings (by_id_of t) x). target = match_id f"
    and "st = DOUBLE_ELIMINATION \<longrightarrow> double_problems (template_matches t) (by_id_of t) (drops_of (feeds_of t) (by_id_of t)) f = []"
    and "st = SINGLE_ELIMINATION \<longrightarrow> drops_of (feeds_of t) (by_id_of t) = []"
proof -
  let ?ms = "template_matches t"
  obtain by_id ids where id: "foldl id_step ([], []) ?ms = (by_id, ids)" by (metis prod.exhaust)
  have ids: "ids = []"
  proof (rule ccontr)
    assume "ids \<noteq> []"
    then show False using assms unfolding validate_template_def Let_def id prod.case by simp
  qed
  have idf: "distinct (map match_id ?ms)" "\<forall>m \<in> set ?ms. match_round m \<noteq> 0" "by_id = by_id_of t"
    using id_fold [of "[]" "[]" ?ms] id ids by (simp_all add: by_id_of_def)
  obtain ps feeds up where sl: "foldl (slot_step t by_id (seeded_of t)) ([], [], []) (all_slots t) = (ps, feeds, up)"
    by (metis prod_cases3)
  obtain finals final where fi: "final_problems ?ms feeds (sort (dedup (filter (\<lambda>r. 0 < r) (map match_round ?ms)))) = (finals, final)"
    by (metis prod.exhaust)
  note v = assms [unfolded validate_template_def Let_def id prod.case ids seeded_of_def [symmetric, unfolded used_seeds_def]
      sl [unfolded all_slots_def] fi]
  have ps: "ps = []" using v by simp
  note sf = slot_fold [OF sl [unfolded ps]]
  have feeds: "feeds = feeds_of t" using sf by (simp add: feeds_of_def fed_slots_def)
  have up: "up = concat (map (crossings by_id) (fed_slots t))" using sf by (simp add: fed_slots_def)
  have d: "distinct (map feed_key (fed_slots t))"
    using sf unfolding feeds feeds_of_def by (simp add: feed_entry_def o_def)
  have "finals = []" using v by simp
  then obtain f where f: "final = Some f" "filter (\<lambda>m. \<not> dict_has feeds (match_id m, 1)) ?ms = [f]"
    using final_problems_none fi by metis
  have cross: "\<forall>x \<in> set (fed_slots t). \<forall>(target, slot) \<in> set (crossings by_id x). target = match_id f"
    using v unfolding up f(1) by (auto simp: filter_empty_conv)
  show thesis
    by (rule that [of f]) (use idf sf d v f cross feeds in \<open>auto split: if_splits\<close>)
qed

lemma seeded_keys: "dict_has (seeded_of t) sd \<longleftrightarrow> sd \<in> set (used_seeds t)"
proof -
  have "fst ` set (foldl (\<lambda>d sd. counter_add sd 1 d) d xs) = fst ` set d \<union> set xs" for d :: "(string, int) dict" and xs
    by (induction xs arbitrary: d) (auto simp: counter_add_def keys_dict_set)
  then show ?thesis by (simp add: dict_has_iff seeded_of_def)
qed

lemma seeded_count: "dict_get (seeded_of t) sd 0 = int (length (filter (\<lambda>x. x = sd) (used_seeds t)))"
proof -
  have "sum_list (map (\<lambda>x. 1 :: int) xs) = int (length xs)" for xs :: "string list" by (induction xs) simp_all
  then show ?thesis
    using total_where_counter [of "[]" "\<lambda>k. k = sd" "\<lambda>x. x" "\<lambda>x. 1" "used_seeds t"]
      dict_get_total [of "seeded_of t" sd]
    by (simp add: seeded_of_def o_def)
qed

lemma used_seed_slot: "sd \<in> set (used_seeds t) \<longleftrightarrow> (\<exists>m s. (m, s) \<in> set (all_slots t) \<and> seed s = Some sd)"
  by (auto simp: used_seeds_def all_slots_def set_map_filter_iff)

lemma distinct_by_count: "(\<And>x. x \<in> set xs \<Longrightarrow> length (filter (\<lambda>y. y = x) xs) \<le> 1) \<Longrightarrow> distinct xs"
proof (induction xs)
  case (Cons x xs)
  have "filter (\<lambda>y. y = x) xs = []" using Cons.prems [of x] by simp
  then have "x \<notin> set xs" by (simp add: filter_empty_conv) blast
  moreover have "length (filter (\<lambda>z. z = y) xs) \<le> 1" if "y \<in> set xs" for y
    using Cons.prems [of y] that by (simp split: if_splits)
  ultimately show ?case using Cons.IH by simp
qed simp

lemma accepted_seeds:
  assumes "checked_template t" and "list_all (slot_ok t (by_id_of t) (seeded_of t)) (all_slots t)"
    and "unused_seeds (CHR ''U'') (upper_seeds t) (seeded_of t) = []"
    and "unused_seeds (CHR ''L'') (lower_seeds t) (seeded_of t) = []"
  shows "distinct (used_seeds t)" and "set (used_seeds t) =
    (\<lambda>n. CHR ''U'' # show_nat n) ` {1..nat (upper_seeds t)} \<union> (\<lambda>n. CHR ''L'' # show_nat n) ` {1..nat (lower_seeds t)}"
proof -
  have ok: "seed_ref sd \<and> int (parse_nat (tl sd)) \<le> (if hd sd = CHR ''U'' then upper_seeds t else lower_seeds t) \<and>
      dict_get (seeded_of t) sd 0 \<le> 1" if used: "sd \<in> set (used_seeds t)" for sd
  proof -
    obtain m s where ms: "(m, s) \<in> set (all_slots t)" "seed s = Some sd" using used by (auto simp: used_seed_slot)
    then have "seed_problems t (seeded_of t) m s sd = []"
      using assms(2) by (fastforce simp: list_all_iff slot_ok_def)
    then show ?thesis using checked_slot(5) [OF assms(1) ms] by (auto simp: seed_problems_def Let_def split: if_splits)
  qed
  show "distinct (used_seeds t)"
    by (rule distinct_by_count) (use ok seeded_count in fastforce)
  show "set (used_seeds t) =
    (\<lambda>n. CHR ''U'' # show_nat n) ` {1..nat (upper_seeds t)} \<union> (\<lambda>n. CHR ''L'' # show_nat n) ` {1..nat (lower_seeds t)}"
  proof (intro equalityI subsetI)
    fix sd assume sd: "sd \<in> set (used_seeds t)"
    let ?n = "parse_nat (tl sd)"
    have p: "sd = hd sd # show_nat ?n" "hd sd = CHR ''U'' \<or> hd sd = CHR ''L''" "0 < ?n"
      using seed_ref_parse ok [OF sd] by blast+
    have "?n \<in> {1..nat (if hd sd = CHR ''U'' then upper_seeds t else lower_seeds t)}" using ok [OF sd] p(3) by auto
    then have "sd \<in> (\<lambda>n. hd sd # show_nat n) ` {1..nat (if hd sd = CHR ''U'' then upper_seeds t else lower_seeds t)}"
      using p(1) by (rule rev_image_eqI)
    then show "sd \<in> (\<lambda>n. CHR ''U'' # show_nat n) ` {1..nat (upper_seeds t)} \<union> (\<lambda>n. CHR ''L'' # show_nat n) ` {1..nat (lower_seeds t)}"
      using p(2) by (elim disjE) simp_all
  next
    have all: "pool # show_nat n \<in> set (used_seeds t)" if "unused_seeds pool l (seeded_of t) = []" "n \<in> {1..nat l}" for pool l n
      using that by (auto simp: unused_seeds_def filter_empty_conv seeded_keys simp del: upt_Suc)
    fix sd assume "sd \<in> (\<lambda>n. CHR ''U'' # show_nat n) ` {1..nat (upper_seeds t)} \<union> (\<lambda>n. CHR ''L'' # show_nat n) ` {1..nat (lower_seeds t)}"
    then show "sd \<in> set (used_seeds t)" using all [OF assms(3)] all [OF assms(4)] by blast
  qed
qed

text \<open>A potential that every edge of an accepted template increases: upper rounds, then lower rounds,
  then the final.\<close>

definition match_rank :: "template_match \<Rightarrow> template_match \<Rightarrow> int" where
  "match_rank final m =
     (if match_id m = match_id final then 1000 else if match_round m > 0 then match_round m else 300 - match_round m)"

lemma drops_none:
  assumes "map_of (drops_of feeds by_id) source = None"
  shows "\<forall>((src, pos), target) \<in> set feeds. src = source \<longrightarrow> pos \<le> 1"
proof -
  have "map_of (foldl (\<lambda>d ((src, pos), (target, slot)). if pos > 1 then dict_set src (the (map_of by_id target)) d else d) d fs) source
      = None \<Longrightarrow> map_of d source = None \<and> (\<forall>((src, pos), target) \<in> set fs. src = source \<longrightarrow> pos \<le> 1)"
    for d :: "(int, template_match) dict" and fs :: feeds
  proof (induction fs arbitrary: d)
    case (Cons x fs)
    obtain src pos target slot where x: "x = ((src, pos), (target, slot))" by (metis surj_pair)
    show ?case using Cons.IH [of "if pos > 1 then dict_set src (the (map_of by_id target)) d else d"] Cons.prems
      by (auto simp: x split: if_splits)
  qed simp
  from this [of "[]" feeds] assms show ?thesis by (simp add: drops_of_def)
qed

lemma by_id_of_lookup:
  "distinct (map match_id (template_matches t)) \<Longrightarrow>
    map_of (by_id_of t) i = Some m \<longleftrightarrow> m \<in> set (template_matches t) \<and> match_id m = i"
  unfolding by_id_of_def by (rule by_id_lookup)

text \<open>The final feeds nothing: its first place is free by the terminal rule, the others by the rule
  that no loser leaves it.\<close>

lemma final_feeds_nothing:
  assumes "filter (\<lambda>m. \<not> dict_has (feeds_of t) (match_id m, 1)) (template_matches t) = [f]"
    and "st = DOUBLE_ELIMINATION \<longrightarrow> double_problems (template_matches t) (by_id_of t) (drops_of (feeds_of t) (by_id_of t)) f = []"
    and "st = SINGLE_ELIMINATION \<longrightarrow> drops_of (feeds_of t) (by_id_of t) = []"
    and "st = SINGLE_ELIMINATION \<or> st = DOUBLE_ELIMINATION" and "(match_id f, pos) \<in> fst ` set (feeds_of t)"
  shows "pos < 1"
proof -
  have f: "f \<in> set (template_matches t)" "\<not> dict_has (feeds_of t) (match_id f, 1)"
    using arg_cong [OF assms(1), of set] by auto
  have "map_of (drops_of (feeds_of t) (by_id_of t)) (match_id f) = None"
  proof (cases "st = DOUBLE_ELIMINATION")
    case True
    then have "double_problems (template_matches t) (by_id_of t) (drops_of (feeds_of t) (by_id_of t)) f = []"
      using assms(2) by simp
    note parts = conjunct2 [OF this [unfolded double_problems_def Let_def append_is_Nil_conv concat_eq_Nil_conv set_map ball_simps(9)]]
    show ?thesis using bspec [OF parts f(1)] by (simp split: option.splits)
  qed (use assms(3,4) in simp)
  from drops_none [OF this] have "pos \<le> 1" using assms(5) by force
  moreover have "pos \<noteq> 1" using f(2) assms(5) by (auto simp: dict_has_iff)
  ultimately show ?thesis by simp
qed

lemma accepted_feed_climbs:
  assumes "checked_template t" and "distinct (map match_id (template_matches t))"
    and "\<forall>m \<in> set (template_matches t). match_round m \<noteq> 0"
    and "list_all (slot_ok t (by_id_of t) (seeded_of t)) (all_slots t)"
    and "\<forall>x \<in> set (fed_slots t). \<forall>(target, slot) \<in> set (crossings (by_id_of t) x). target = match_id f"
    and "\<And>pos. (match_id f, pos) \<in> fst ` set (feeds_of t) \<Longrightarrow> pos < 1"
    and "(m, s) \<in> set (fed_slots t)"
  obtains src where "src \<in> set (template_matches t)" and "source_match s = Some (match_id src)"
    and "match_rank f src < match_rank f m"
proof -
  have ms: "(m, s) \<in> set (all_slots t)" "seed s = None" using assms(7) by (auto simp: fed_slots_def)
  obtain i pos where s: "source_match s = Some i" "place s = Some pos" "1 \<le> pos" using checked_slot(6) [OF assms(1) ms] by blast
  obtain src where src: "map_of (by_id_of t) i = Some src" "i \<noteq> match_id m" "fst (direction_problems m s src pos) = []"
    using assms(4) ms s by (fastforce simp: list_all_iff slot_ok_def)
  have sr: "src \<in> set (template_matches t)" "match_id src = i" using src(1) by_id_of_lookup [OF assms(2)] by blast+
  have rounds: "match_round m \<noteq> 0" "match_round src \<noteq> 0" "- 256 \<le> match_round m" "match_round m \<le> 256"
    "- 256 \<le> match_round src" "match_round src \<le> 256"
    using assms(1,3) sr(1) checked_slot(1,3,4) [OF assms(1) ms(1)]
    by (auto simp: checked_template_def list_all_iff mk_match_def split: if_splits)
  have "i \<noteq> match_id f"
  proof
    assume "i = match_id f"
    moreover have "(i, pos) \<in> fst ` set (feeds_of t)"
      using assms(7) s by (force simp: feeds_of_def feed_entry_def feed_key_def)
    ultimately show False using assms(6) [of pos] s(3) by simp
  qed
  moreover have "match_id m = match_id f" if "match_round src < 0" "match_round m > 0"
  proof -
    have "crossings (by_id_of t) (m, s) = [(match_id m, slot_no s)]"
      using src that s by (simp add: crossings_def direction_problems_def Let_def split: if_splits)
    then show ?thesis using assms(5,7) by fastforce
  qed
  ultimately have "match_rank f src < match_rank f m"
    using src(3) sr(2) rounds
    by (auto simp: match_rank_def direction_problems_def Let_def split: if_splits)
  then show thesis using that sr s(1) by simp
qed

lemma match_edges_total:
  "(\<And>s. s \<in> set ss \<Longrightarrow> \<exists>es. slot_edges positions k s = Inr es) \<Longrightarrow> \<exists>es. match_edges positions k ss = Inr es"
proof (induction ss)
  case (Cons s ss)
  then show ?case by (metis (no_types, lifting) list.set_intros match_edges.simps(2) sum.case(2))
qed simp

lemma template_edges_total:
  "(\<And>k m s. (k, m) \<in> set ms \<Longrightarrow> s \<in> set (match_slots m) \<Longrightarrow> \<exists>es. slot_edges positions k s = Inr es) \<Longrightarrow>
    \<exists>es. template_edges positions ms = Inr es"
proof (induction ms)
  case (Cons x ms)
  obtain k m where x: "x = (k, m)" by (cases x)
  obtain es where "match_edges positions k (match_slots m) = Inr es" using match_edges_total Cons.prems x by (metis list.set_intros(1))
  moreover obtain es' where "template_edges positions ms = Inr es'" using Cons.IH Cons.prems by (meson list.set_intros(2))
  ultimately show ?case by (simp add: x)
qed simp

lemma position_of_keys: "fst ` set (position_of t) = match_id ` set (template_matches t)"
proof -
  have "fst ` set (foldl (\<lambda>d (k, m). dict_set (match_id m) k d) d xs) = fst ` set d \<union> (match_id \<circ> snd) ` set xs"
    for d :: "(int, nat) dict" and xs :: "(nat \<times> template_match) list"
  proof (induction xs arbitrary: d)
    case (Cons x xs)
    then show ?case by (cases x) (simp add: keys_dict_set)
  qed simp
  moreover have "snd ` set (zip [0..<length ms] ms) = set ms" for ms :: "template_match list"
    by (simp flip: set_map)
  ultimately show ?thesis unfolding position_of_def image_comp [symmetric] by simp
qed

lemma references_resolve:
  assumes "checked_template t"
    and "\<And>m s. (m, s) \<in> set (fed_slots t) \<Longrightarrow> \<exists>src \<in> set (template_matches t). source_match s = Some (match_id src)"
  shows "\<exists>sk. template_to_skeleton t = Inr sk"
proof -
  have "\<exists>es. slot_edges (position_of t) k s = Inr es" if slot: "(m, s) \<in> set (all_slots t)" for k m s
  proof (cases "seed s = None")
    case True
    then obtain src where src: "src \<in> set (template_matches t)" "source_match s = Some (match_id src)"
      using assms(2) [of m s] slot by (auto simp: fed_slots_def)
    then have "map_of (position_of t) (match_id src) \<noteq> None"
      using position_of_keys [of t] by (auto simp: map_of_eq_None_iff)
    then show ?thesis using src(2) by (auto simp: slot_edges_def)
  next
    case False
    have "mk_slot (slot_no s) (seed s) (source_match s) (place s) = Inr s"
      using assms(1) checked_slot(1,2) [OF assms(1) slot] by (auto simp: checked_template_def list_all_iff)
    then have "source_match s = None" using False by (auto simp: mk_slot_def split: if_splits)
    then show ?thesis by (simp add: slot_edges_def)
  qed
  moreover have "(m, s) \<in> set (all_slots t)"
    if "(k, m) \<in> set (zip [0..<length (template_matches t)] (template_matches t))" "s \<in> set (match_slots m)" for k m s
    using that by (auto simp: all_slots_def dest: set_zip_rightD)
  ultimately obtain es where "template_edges (position_of t) (zip [0..<length (template_matches t)] (template_matches t)) = Inr es"
    using template_edges_total [of "zip [0..<length (template_matches t)] (template_matches t)" "position_of t"] by blast
  then show ?thesis by (simp add: template_to_skeleton_def Let_def)
qed

text \<open>C11: a template the editor accepts for a knockout stage can be generated: every reference
  resolves, the seeds U1..Un and L1..Lm are each seated exactly once, every place of a match is used at
  most once, exactly one match (the final) keeps its winner, and a potential rises along every edge, so
  no chain of results ever comes back to its own match.\<close>

theorem validated_template_sound:
  assumes "checked_template t" and "validate_template t st = []"
    and "st = SINGLE_ELIMINATION \<or> st = DOUBLE_ELIMINATION"
  shows "(\<exists>sk. template_to_skeleton t = Inr sk) \<and> distinct (used_seeds t) \<and>
    set (used_seeds t) = (\<lambda>n. CHR ''U'' # show_nat n) ` {1..nat (upper_seeds t)} \<union>
      (\<lambda>n. CHR ''L'' # show_nat n) ` {1..nat (lower_seeds t)} \<and>
    distinct (map feed_key (fed_slots t)) \<and>
    (\<exists>!f. f \<in> set (template_matches t) \<and> (match_id f, 1) \<notin> feed_key ` set (fed_slots t)) \<and>
    (\<exists>rank :: int \<Rightarrow> int. \<forall>x \<in> set (fed_slots t). rank (the (source_match (snd x))) < rank (match_id (fst x)))"
proof (rule validated_parts [OF assms(2)])
  fix f
  assume d: "distinct (map match_id (template_matches t))" and nz: "\<forall>m \<in> set (template_matches t). match_round m \<noteq> 0"
    and ok: "list_all (slot_ok t (by_id_of t) (seeded_of t)) (all_slots t)" and keys: "distinct (map feed_key (fed_slots t))"
    and unused: "unused_seeds (CHR ''U'') (upper_seeds t) (seeded_of t) = []"
      "unused_seeds (CHR ''L'') (lower_seeds t) (seeded_of t) = []"
    and final: "filter (\<lambda>m. \<not> dict_has (feeds_of t) (match_id m, 1)) (template_matches t) = [f]"
    and cross: "\<forall>x \<in> set (fed_slots t). \<forall>(target, slot) \<in> set (crossings (by_id_of t) x). target = match_id f"
    and dbl: "st = DOUBLE_ELIMINATION \<longrightarrow> double_problems (template_matches t) (by_id_of t) (drops_of (feeds_of t) (by_id_of t)) f = []"
    and sgl: "st = SINGLE_ELIMINATION \<longrightarrow> drops_of (feeds_of t) (by_id_of t) = []"
  note climbs = accepted_feed_climbs [OF assms(1) d nz ok cross final_feeds_nothing [OF final dbl sgl assms(3)]]
  have "fst ` set (feeds_of t) = feed_key ` set (fed_slots t)" by (force simp: feeds_of_def feed_entry_def)
  then have "\<exists>!f. f \<in> set (template_matches t) \<and> (match_id f, 1) \<notin> feed_key ` set (fed_slots t)"
    using ex1_filter [of "\<lambda>m. \<not> dict_has (feeds_of t) (match_id m, 1)" "template_matches t"] final by (simp add: dict_has_iff)
  moreover have "\<exists>rank :: int \<Rightarrow> int. \<forall>x \<in> set (fed_slots t). rank (the (source_match (snd x))) < rank (match_id (fst x))"
  proof (intro exI ballI)
    let ?rank = "\<lambda>i. match_rank f (the (map_of (by_id_of t) i))"
    fix x assume x: "x \<in> set (fed_slots t)"
    obtain m s where ms: "x = (m, s)" by (cases x)
    obtain src where "src \<in> set (template_matches t)" "source_match s = Some (match_id src)" "match_rank f src < match_rank f m"
      using climbs x ms by blast
    moreover have "map_of (by_id_of t) (match_id m') = Some m'" if "m' \<in> set (template_matches t)" for m'
      using that by_id_of_lookup [OF d] by blast
    moreover have "m \<in> set (template_matches t)" using x ms checked_slot(1) [OF assms(1)] by (auto simp: fed_slots_def)
    ultimately show "?rank (the (source_match (snd x))) < ?rank (match_id (fst x))" by (simp add: ms)
  qed
  moreover have "\<exists>sk. template_to_skeleton t = Inr sk"
    by (rule references_resolve [OF assms(1)]) (use climbs in metis)
  ultimately show ?thesis using accepted_seeds [OF assms(1) ok unused] keys by blast
qed

definition three_team_template :: bracket_template where
  "three_team_template =
     (let slot = \<lambda>k sd src pos. \<lparr>slot_no = k, seed = sd, source_match = src, place = pos\<rparr>
      in \<lparr>upper_seeds = 3, lower_seeds = 0, template_matches =
        [\<lparr>match_id = 7, match_round = 1, match_slots = [slot 1 (Some ''U2'') None None, slot 2 (Some ''U3'') None None]\<rparr>,
         \<lparr>match_id = 4, match_round = 2, match_slots = [slot 1 (Some ''U1'') None None, slot 2 None (Some 7) (Some 1)]\<rparr>]\<rparr>)"

theorem validated_template_sound_witness:
  "validate_template three_team_template SINGLE_ELIMINATION = [] \<and>
   (\<exists>sk. template_to_skeleton three_team_template = Inr sk) \<and> distinct (used_seeds three_team_template)"
proof -
  have "checked_template three_team_template" "validate_template three_team_template SINGLE_ELIMINATION = []" by code_simp+
  then show ?thesis using validated_template_sound [of three_team_template SINGLE_ELIMINATION] by simp
qed

text \<open>Three upper seeds play one match; its winner and its runner-up meet the winner of the lower
  bracket in the final, its third place drops.\<close>

definition drop_template :: "bool \<Rightarrow> bracket_template" where
  "drop_template final_first =
     (let slot = \<lambda>k sd src pos. \<lparr>slot_no = k, seed = sd, source_match = src, place = pos\<rparr>;
          opener = \<lparr>match_id = 1, match_round = 1, match_slots = [slot 1 (Some ''U1'') None None,
            slot 2 (Some ''U2'') None None, slot 3 (Some ''U3'') None None]\<rparr>;
          lower = \<lparr>match_id = 2, match_round = - 1, match_slots = [slot 1 (Some ''L1'') None None, slot 2 None (Some 1) (Some 3)]\<rparr>;
          final = \<lparr>match_id = 3, match_round = 2, match_slots = [slot 1 None (Some 1) (Some 1), slot 2 None (Some 1) (Some 2),
            slot 3 None (Some 2) (Some 1)]\<rparr>
      in \<lparr>upper_seeds = 3, lower_seeds = 1,
          template_matches = (if final_first then [opener, final, lower] else [opener, lower, final])\<rparr>)"

text \<open>Where a match with more than two seats sends its losers is judged by the place that happens
  to be read last: the same bracket is accepted or refused depending on the order of its matches.\<close>

theorem drop_check_reads_one_place:
  "checked_template (drop_template True) \<and> checked_template (drop_template False) \<and>
   mset (template_matches (drop_template True)) = mset (template_matches (drop_template False)) \<and>
   validate_template (drop_template True) DOUBLE_ELIMINATION = [] \<and>
   validate_template (drop_template False) DOUBLE_ELIMINATION = [prob ''de_upper_loser'' (Some 1) None]"
proof (intro conjI)
  show "checked_template (drop_template True)" by code_simp
  show "checked_template (drop_template False)" by code_simp
  show "mset (template_matches (drop_template True)) = mset (template_matches (drop_template False))"
    by (simp add: drop_template_def Let_def)
  show "validate_template (drop_template True) DOUBLE_ELIMINATION = []" by code_simp
  show "validate_template (drop_template False) DOUBLE_ELIMINATION = [prob ''de_upper_loser'' (Some 1) None]" by code_simp
qed

end
