(* ===== verification/Pickban_Conditions.thy ===== *)
theory Pickban_Conditions
  imports Prelude
begin

text \<open>
  Condition trees of the pick-ban rules engine: JSON documents and the Python readings the engine
  applies to them, the registry of condition leaves and constraint contracts with their evaluators
  (\<open>shared/domain/pick_ban_rules/registry.py\<close>), and the checker of condition trees
  (\<open>_validate_condition\<close>, \<open>_validate_params\<close> and their helpers in \<open>validate.py\<close>). The lemmas
  show that the checker is a sound type system for the evaluator: an accepted tree never raises in
  a context of its own kind, and it respects the depth and size limits.

  Strings hold the characters below 256. JSON numbers with a fraction are not represented; the
  checker refuses them wherever it looks at a number. Of an exception only its class is kept:
  \<open>ValueError\<close>, its subclass \<open>UnassignedSide\<close>, or one of the classes Python raises for a value of
  the wrong shape.
\<close>

section \<open>JSON values as Python reads them\<close>

datatype json =
    JNull
  | JBool bool
  | JInt int
  | JStr string
  | JList "json list"
  | JObj "(string \<times> json) list"

datatype py_error = Value_Error | Unassigned_Side | Other_Error

fun truthy :: "json \<Rightarrow> bool" where
  "truthy JNull = False"
| "truthy (JBool b) = b"
| "truthy (JInt i) = (i \<noteq> 0)"
| "truthy (JStr s) = (s \<noteq> [])"
| "truthy (JList xs) = (xs \<noteq> [])"
| "truthy (JObj d) = (d \<noteq> [])"

text \<open>\<open>repr\<close> and \<open>str\<close>.\<close>

definition hex_char :: "nat \<Rightarrow> char" where
  "hex_char n = (if n < 10 then char_of (48 + n) else char_of (87 + n))"

definition repr_char :: "char \<Rightarrow> char \<Rightarrow> string" where
  "repr_char quote c =
    (let n = (of_char c :: nat) in
     if c = quote \<or> n = 92 then [CHR 0x5C, c]
     else if n = 9 then [CHR 0x5C, CHR ''t'']
     else if n = 10 then [CHR 0x5C, CHR ''n'']
     else if n = 13 then [CHR 0x5C, CHR ''r'']
     else if n < 32 \<or> (127 \<le> n \<and> n \<le> 160) \<or> n = 173
     then [CHR 0x5C, CHR ''x'', hex_char (n div 16), hex_char (n mod 16)]
     else [c])"

definition repr_str :: "string \<Rightarrow> string" where
  "repr_str s =
    (let quote = if CHR 0x27 \<in> set s \<and> CHR 0x22 \<notin> set s then CHR 0x22 else CHR 0x27
     in quote # concat (map (repr_char quote) s) @ [quote])"

fun join :: "string \<Rightarrow> string list \<Rightarrow> string" where
  "join sep [] = []"
| "join sep [s] = s"
| "join sep (s # ss) = s @ sep @ join sep ss"

lemma size_json_list: "x \<in> set xs \<Longrightarrow> size x < size (JList xs)"
  by (induction xs) auto

lemma size_json_member: "p \<in> set d \<Longrightarrow> size (snd p) < size (JObj d)"
  by (induction d) (auto simp: less_Suc_eq_le)

lemma size_json_lookup: "map_of d k = Some v \<Longrightarrow> size v < size (JObj d)"
  using size_json_member [OF map_of_SomeD] by fastforce

function (sequential) py_repr :: "json \<Rightarrow> string" where
  "py_repr JNull = ''None''"
| "py_repr (JBool b) = (if b then ''True'' else ''False'')"
| "py_repr (JInt i) = show_int i"
| "py_repr (JStr s) = repr_str s"
| "py_repr (JList xs) = ''['' @ join '', '' (map py_repr xs) @ '']''"
| "py_repr (JObj d) = ''{'' @ join '', '' (map (\<lambda>p. repr_str (fst p) @ '': '' @ py_repr (snd p)) d) @ ''}''"
  by pat_completeness auto
termination
  by (relation "measure size") (auto dest: size_json_list size_json_member simp del: json.size)

fun py_str :: "json \<Rightarrow> string" where
  "py_str (JStr s) = s"
| "py_str j = py_repr j"

text \<open>\<open>int(value)\<close>: surrounding white space, a sign, digits with single underscores between. The interpreter's
  limit on the number of digits (4300 unless configured otherwise) is not modelled.\<close>

fun underscored :: "string \<Rightarrow> bool" where
  "underscored [] = False"
| "underscored [c] = is_digit c"
| "underscored (c # d # cs) =
    (is_digit c \<and> (if d = CHR ''_'' then underscored cs else underscored (d # cs)))"

definition int_of_str :: "string \<Rightarrow> int option" where
  "int_of_str s =
    (let t = strip s;
         neg = (t \<noteq> [] \<and> hd t = CHR ''-'');
         u = (if t \<noteq> [] \<and> hd t \<in> {CHR ''-'', CHR ''+''} then tl t else t);
         n = int (parse_nat (filter is_digit u))
     in if underscored u then Some (if neg then - n else n) else None)"

fun py_int :: "json \<Rightarrow> py_error + int" where
  "py_int (JInt i) = Inr i"
| "py_int (JBool b) = Inr (if b then 1 else 0)"
| "py_int (JStr s) = (case int_of_str s of None \<Rightarrow> Inl Value_Error | Some i \<Rightarrow> Inr i)"
| "py_int _ = Inl Other_Error"

text \<open>Iteration, \<open>d[k]\<close>, \<open>d.get(k)\<close>, and \<open>i in set(values)\<close> for an integer: booleans are
  integers, and a list or an object cannot be put into a set.\<close>

fun py_iter :: "json \<Rightarrow> py_error + json list" where
  "py_iter (JList xs) = Inr xs"
| "py_iter (JStr s) = Inr (map (\<lambda>c. JStr [c]) s)"
| "py_iter (JObj d) = Inr (map (JStr \<circ> fst) d)"
| "py_iter _ = Inl Other_Error"

fun py_item :: "json \<Rightarrow> string \<Rightarrow> py_error + json" where
  "py_item (JObj d) k = (case map_of d k of None \<Rightarrow> Inl Other_Error | Some v \<Rightarrow> Inr v)"
| "py_item _ k = Inl Other_Error"

fun py_get :: "json \<Rightarrow> string \<Rightarrow> py_error + json" where
  "py_get (JObj d) k = Inr (case map_of d k of None \<Rightarrow> JNull | Some v \<Rightarrow> v)"
| "py_get _ k = Inl Other_Error"

fun hashable :: "json \<Rightarrow> bool" where
  "hashable (JList xs) = False"
| "hashable (JObj d) = False"
| "hashable _ = True"

fun int_eq :: "int \<Rightarrow> json \<Rightarrow> bool" where
  "int_eq i (JInt j) = (i = j)"
| "int_eq i (JBool b) = (i = (if b then 1 else 0))"
| "int_eq i _ = False"

text \<open>\<open>x or dflt\<close>.\<close>

definition or_else :: "json \<Rightarrow> json \<Rightarrow> json" where
  "or_else j dflt = (if truthy j then j else dflt)"

section \<open>Groups\<close>

text \<open>\<open>str.lower\<close> on the characters below 256.\<close>

definition lower_char :: "char \<Rightarrow> char" where
  "lower_char c =
    (let n = (of_char c :: nat) in
     if (65 \<le> n \<and> n \<le> 90) \<or> (192 \<le> n \<and> n \<le> 222 \<and> n \<noteq> 215) then char_of (n + 32) else c)"

definition lower :: "string \<Rightarrow> string" where
  "lower = map lower_char"

definition normalize_text :: "string \<Rightarrow> string option" where
  "normalize_text s = (let t = lower (strip s) in if t = [] then None else Some t)"

fun normalize_group :: "json \<Rightarrow> string option" where
  "normalize_group JNull = None"
| "normalize_group j = normalize_text (py_str j)"

text \<open>The same on the \<open>str | None\<close> the contexts hold.\<close>

definition norm_group :: "string option \<Rightarrow> string option" where
  "norm_group g = (case g of None \<Rightarrow> None | Some s \<Rightarrow> normalize_text s)"

section \<open>Contexts\<close>

record applied_item =
  step_index :: int
  ai_round :: "int option"
  ai_actor :: "int option"
  ai_action :: string
  item_id :: int
  ai_member :: "int option"

record history =
  hist_items :: "applied_item list"
  current_step_index :: "int option"

definition no_history :: history where
  "no_history = \<lparr>hist_items = [], current_step_index = None\<rparr>"

definition hist_contains ::
  "history \<Rightarrow> int \<Rightarrow> string list \<Rightarrow> string \<Rightarrow> int option \<Rightarrow> string \<Rightarrow> int option \<Rightarrow> bool" where
  "hist_contains h item actions who actor scope rnd = list_ex (\<lambda>a.
     item_id a = item \<and> ai_action a \<in> set actions \<and>
     \<not> (current_step_index h \<noteq> None \<and> Some (step_index a) = current_step_index h) \<and>
     \<not> (who = ''self'' \<and> ai_actor a \<noteq> actor) \<and>
     \<not> (who = ''opponent'' \<and> (ai_actor a = None \<or> ai_actor a = actor \<or> actor = None)) \<and>
     \<not> (scope = ''round'' \<and> ai_round a \<noteq> rnd) \<and>
     \<not> (scope = ''previous_round'' \<and> (rnd = None \<or> ai_round a \<noteq> map_option (\<lambda>r. r - 1) rnd))) (hist_items h)"

record round_ctx =
  rc_round :: int
  rc_best_of :: int
  rc_kind :: string

record item_ctx =
  ic_item_id :: int
  ic_group :: "string option"
  ic_kind :: string
  ic_actor :: "int option"
  ic_target_role :: "string option"
  ic_round :: "int option"
  ic_history :: history

datatype cond_ctx = Round_Ctx round_ctx | Item_Ctx item_ctx

section \<open>The registry\<close>

datatype param_kind = PEnum | PInt | PBool | PItem_List | PGroup_List | PGroup

record param_spec =
  p_name :: string
  p_kind :: param_kind
  p_required :: bool
  p_values :: "string list option"
  p_min :: "int option"
  p_max :: "int option"
  p_nullable :: bool

definition param :: "string \<Rightarrow> param_kind \<Rightarrow> param_spec" where
  "param n k = \<lparr>p_name = n, p_kind = k, p_required = True, p_values = None, p_min = None, p_max = None,
     p_nullable = False\<rparr>"

record leaf_spec =
  l_type :: string
  l_contexts :: "string list"
  l_kinds :: "string list"
  l_params :: "param_spec list"
  l_requires_target :: bool
  l_relative :: bool
  l_evaluator :: "json \<Rightarrow> cond_ctx \<Rightarrow> py_error + bool"

definition leaf ::
  "string \<Rightarrow> string list \<Rightarrow> param_spec list \<Rightarrow> (json \<Rightarrow> cond_ctx \<Rightarrow> py_error + bool) \<Rightarrow> leaf_spec" where
  "leaf t cs ps f = \<lparr>l_type = t, l_contexts = cs, l_kinds = [''map'', ''hero''], l_params = ps,
     l_requires_target = False, l_relative = False, l_evaluator = f\<rparr>"

definition P_OP :: param_spec where
  "P_OP = (param ''op'' PEnum)\<lparr>p_values := Some [''=='', ''!='', ''>='', ''>'', ''<='', ''<'']\<rparr>"

definition P_VALUE :: param_spec where
  "P_VALUE = (param ''value'' PInt)\<lparr>p_min := Some 1\<rparr>"

definition P_BY :: param_spec where
  "P_BY = (param ''by'' PEnum)\<lparr>p_values := Some [''self'', ''opponent'', ''any'']\<rparr>"

definition P_SCOPE :: param_spec where
  "P_SCOPE = (param ''scope'' PEnum)\<lparr>p_values := Some [''series'', ''round'', ''previous_round'']\<rparr>"

definition COMPARATORS :: "(string, int \<Rightarrow> int \<Rightarrow> bool) dict" where
  "COMPARATORS = [(''=='', \<lambda>a b. a = b), (''!='', \<lambda>a b. a \<noteq> b), (''>='', \<lambda>a b. a \<ge> b),
     (''>'', \<lambda>a b. a > b), (''<='', \<lambda>a b. a \<le> b), (''<'', \<lambda>a b. a < b)]"

definition compare :: "int option \<Rightarrow> json \<Rightarrow> json \<Rightarrow> py_error + bool" where
  "compare left op right =
    (case map_of COMPARATORS (py_str op) of
       None \<Rightarrow> Inl Value_Error
     | Some f \<Rightarrow> (case left of
         None \<Rightarrow> Inl Other_Error
       | Some l \<Rightarrow> (case py_int right of Inl e \<Rightarrow> Inl e | Inr r \<Rightarrow> Inr (f l r))))"

text \<open>Both context classes have a \<open>round\<close>; only \<open>RoundCtx\<close> has a \<open>best_of\<close>, only \<open>ItemCtx\<close> the rest.\<close>

fun ctx_round :: "cond_ctx \<Rightarrow> int option" where
  "ctx_round (Round_Ctx r) = Some (rc_round r)"
| "ctx_round (Item_Ctx c) = ic_round c"

definition eval_map_index :: "json \<Rightarrow> cond_ctx \<Rightarrow> py_error + bool" where
  "eval_map_index ps ctx =
    (case (py_item ps ''op'', py_item ps ''value'') of
       (Inr op, Inr v) \<Rightarrow> compare (ctx_round ctx) op v | _ \<Rightarrow> Inl Other_Error)"

definition eval_best_of :: "json \<Rightarrow> cond_ctx \<Rightarrow> py_error + bool" where
  "eval_best_of ps ctx =
    (case ctx of
       Round_Ctx r \<Rightarrow> (case (py_item ps ''op'', py_item ps ''value'') of
         (Inr op, Inr v) \<Rightarrow> compare (Some (rc_best_of r)) op v | _ \<Rightarrow> Inl Other_Error)
     | Item_Ctx c \<Rightarrow> Inl Other_Error)"

definition eval_is_last_map :: "json \<Rightarrow> cond_ctx \<Rightarrow> py_error + bool" where
  "eval_is_last_map ps ctx =
    (case ctx of Round_Ctx r \<Rightarrow> Inr (rc_round r = rc_best_of r) | Item_Ctx c \<Rightarrow> Inl Other_Error)"

definition eval_item_in :: "json \<Rightarrow> cond_ctx \<Rightarrow> py_error + bool" where
  "eval_item_in ps ctx =
    (case ctx of
       Round_Ctx r \<Rightarrow> Inl Other_Error
     | Item_Ctx c \<Rightarrow> (case py_get ps ''item_ids'' of
         Inl e \<Rightarrow> Inl e
       | Inr ids \<Rightarrow> (case py_iter (or_else ids (JList [])) of
           Inl e \<Rightarrow> Inl e
         | Inr xs \<Rightarrow> if list_all hashable xs then Inr (list_ex (int_eq (ic_item_id c)) xs) else Inl Other_Error)))"

definition eval_item_group :: "json \<Rightarrow> cond_ctx \<Rightarrow> py_error + bool" where
  "eval_item_group ps ctx =
    (case ctx of
       Round_Ctx r \<Rightarrow> Inl Other_Error
     | Item_Ctx c \<Rightarrow> if ic_group c = None then Inr False
         else (case py_get ps ''groups'' of
           Inl e \<Rightarrow> Inl e
         | Inr gs \<Rightarrow> (case py_iter (or_else gs (JList [])) of
             Inl e \<Rightarrow> Inl e
           | Inr xs \<Rightarrow> Inr (norm_group (ic_group c) \<in> set (map normalize_group xs)))))"

definition eval_target_role_match :: "json \<Rightarrow> cond_ctx \<Rightarrow> py_error + bool" where
  "eval_target_role_match ps ctx =
    (case ctx of
       Round_Ctx r \<Rightarrow> Inl Other_Error
     | Item_Ctx c \<Rightarrow>
         (let target_role = norm_group (ic_target_role c)
          in if target_role = None \<or> target_role = Some ''flex'' then Inr True
             else Inr (norm_group (ic_group c) = target_role)))"

definition eval_done_by :: "string list \<Rightarrow> json \<Rightarrow> cond_ctx \<Rightarrow> py_error + bool" where
  "eval_done_by actions ps ctx =
    (case ctx of
       Round_Ctx r \<Rightarrow> Inl Other_Error
     | Item_Ctx c \<Rightarrow> (case (py_item ps ''by'', py_item ps ''scope'') of
         (Inr who, Inr scope) \<Rightarrow>
           Inr (hist_contains (ic_history c) (ic_item_id c) actions (py_str who) (ic_actor c) (py_str scope) (ic_round c))
       | _ \<Rightarrow> Inl Other_Error))"

definition LEAVES :: "(string, leaf_spec) dict" where
  "LEAVES = map (\<lambda>l. (l_type l, l))
    [leaf ''map_index'' [''round''] [P_OP, P_VALUE] eval_map_index,
     leaf ''best_of'' [''round''] [P_OP, P_VALUE] eval_best_of,
     leaf ''is_last_map'' [''round''] [] eval_is_last_map,
     leaf ''item_in'' [''item'', ''pool''] [param ''item_ids'' PItem_List] eval_item_in,
     leaf ''item_group'' [''item'', ''pool''] [param ''groups'' PGroup_List] eval_item_group,
     (leaf ''target_role_match'' [''item''] [] eval_target_role_match)
       \<lparr>l_kinds := [''hero''], l_requires_target := True\<rparr>,
     (leaf ''banned_by'' [''item'', ''pool''] [P_BY, P_SCOPE] (eval_done_by [''ban'']))\<lparr>l_relative := True\<rparr>,
     (leaf ''picked_by'' [''item'', ''pool''] [P_BY, P_SCOPE] (eval_done_by [''pick'', ''decider'']))
       \<lparr>l_relative := True\<rparr>]"

record constraint_spec =
  c_type :: string
  c_params :: "param_spec list"
  c_requires_target :: bool

definition CONSTRAINTS :: "(string, constraint_spec) dict" where
  "CONSTRAINTS = map (\<lambda>c. (c_type c, c))
    [\<lparr>c_type = ''one_per_target'', c_params = [], c_requires_target = True\<rparr>,
     \<lparr>c_type = ''max_per_group'', c_params =
        [(param ''max'' PInt)\<lparr>p_min := Some 1\<rparr>,
         (param ''scope'' PEnum)\<lparr>p_values := Some [''step'', ''round'']\<rparr>,
         (param ''group'' PGroup)\<lparr>p_required := False, p_nullable := True\<rparr>], c_requires_target = False\<rparr>,
     \<lparr>c_type = ''min_per_group'', c_params =
        [(param ''min'' PInt)\<lparr>p_min := Some 1\<rparr>, param ''group'' PGroup], c_requires_target = False\<rparr>]"

section \<open>The evaluator\<close>

text \<open>\<open>all(...)\<close> and \<open>any(...)\<close> over results that may be exceptions, left to right.\<close>

fun all_results :: "(py_error + bool) list \<Rightarrow> py_error + bool" where
  "all_results [] = Inr True"
| "all_results (Inl e # rs) = Inl e"
| "all_results (Inr b # rs) = (if b then all_results rs else Inr False)"

fun any_results :: "(py_error + bool) list \<Rightarrow> py_error + bool" where
  "any_results [] = Inr False"
| "any_results (Inl e # rs) = Inl e"
| "any_results (Inr b # rs) = (if b then Inr True else any_results rs)"

definition not_result :: "py_error + bool \<Rightarrow> py_error + bool" where
  "not_result r = (case r of Inl e \<Rightarrow> Inl e | Inr b \<Rightarrow> Inr (\<not> b))"

definition eval_leaf :: "(string \<times> json) list \<Rightarrow> cond_ctx \<Rightarrow> py_error + bool" where
  "eval_leaf d ctx =
    (case map_of LEAVES (py_str (case map_of d ''type'' of None \<Rightarrow> JNull | Some t \<Rightarrow> t)) of
       None \<Rightarrow> Inl Value_Error
     | Some spec \<Rightarrow>
         l_evaluator spec (or_else (case map_of d ''params'' of None \<Rightarrow> JNull | Some p \<Rightarrow> p) (JObj [])) ctx)"

text \<open>A node that is neither falsy nor an object raises on its first reading. Children given as a
  string or an object are iterated as well: characters are such nodes, and of the keys only the
  empty one is falsy.\<close>

definition eval_key :: "string \<Rightarrow> py_error + bool" where
  "eval_key k = (if k = [] then Inr True else Inl Other_Error)"

function (sequential) evaluate :: "json \<Rightarrow> cond_ctx \<Rightarrow> py_error + bool" where
  "evaluate (JObj d) ctx =
    (if d = [] then Inr True
     else case map_of d ''AND'' of
       Some (JList xs) \<Rightarrow> all_results (map (\<lambda>x. evaluate x ctx) xs)
     | Some (JStr s) \<Rightarrow> all_results (map (\<lambda>c. eval_key [c]) s)
     | Some (JObj e) \<Rightarrow> all_results (map (eval_key \<circ> fst) e)
     | Some _ \<Rightarrow> Inl Other_Error
     | None \<Rightarrow> (case map_of d ''OR'' of
         Some (JList xs) \<Rightarrow> any_results (map (\<lambda>x. evaluate x ctx) xs)
       | Some (JStr s) \<Rightarrow> any_results (map (\<lambda>c. eval_key [c]) s)
       | Some (JObj e) \<Rightarrow> any_results (map (eval_key \<circ> fst) e)
       | Some _ \<Rightarrow> Inl Other_Error
       | None \<Rightarrow> (case map_of d ''NOT'' of
           Some c \<Rightarrow> not_result (evaluate c ctx)
         | None \<Rightarrow> eval_leaf d ctx)))"
| "evaluate j ctx = (if truthy j then Inl Other_Error else Inr True)"
  by pat_completeness auto
termination
  by (relation "measure (size \<circ> fst)")
     (auto dest!: size_json_lookup size_json_list simp del: json.size)

section \<open>Checking a condition tree\<close>

datatype severity = Sev_Error | Sev_Warning

record issue =
  i_path :: string
  i_code :: string
  i_severity :: severity

definition err_issue :: "string \<Rightarrow> string \<Rightarrow> issue" where
  "err_issue p c = \<lparr>i_path = p, i_code = c, i_severity = Sev_Error\<rparr>"

definition warn_issue :: "string \<Rightarrow> string \<Rightarrow> issue" where
  "warn_issue p c = \<lparr>i_path = p, i_code = c, i_severity = Sev_Warning\<rparr>"

definition MAX_TREE_DEPTH :: int where "MAX_TREE_DEPTH = 20"

definition MAX_TREE_NODES :: int where "MAX_TREE_NODES = 200"

definition validate_group :: "string list option \<Rightarrow> json \<Rightarrow> string \<Rightarrow> issue list" where
  "validate_group known v path =
    (case v of
       JStr s \<Rightarrow>
         if strip s = [] then [err_issue path ''invalid_param'']
         else (case known of
             None \<Rightarrow> []
           | Some gs \<Rightarrow> if normalize_group v \<in> Some ` set gs then [] else [err_issue path ''unknown_group''])
     | _ \<Rightarrow> [err_issue path ''invalid_param''])"

fun is_int :: "json \<Rightarrow> bool" where
  "is_int (JInt i) = True"
| "is_int _ = False"

definition validate_param_value :: "string list option \<Rightarrow> param_spec \<Rightarrow> json \<Rightarrow> string \<Rightarrow> issue list" where
  "validate_param_value known spec v path =
    (case p_kind spec of
       PEnum \<Rightarrow> (case p_values spec of
         None \<Rightarrow> []
       | Some vs \<Rightarrow> if py_str v \<in> set vs then [] else [err_issue path ''invalid_param''])
     | PInt \<Rightarrow> (case v of
         JInt i \<Rightarrow>
           (case p_min spec of None \<Rightarrow> [] | Some a \<Rightarrow> if i < a then [err_issue path ''param_range''] else []) @
           (case p_max spec of None \<Rightarrow> [] | Some b \<Rightarrow> if i > b then [err_issue path ''param_range''] else [])
       | _ \<Rightarrow> [err_issue path ''invalid_param''])
     | PBool \<Rightarrow> (case v of JBool b \<Rightarrow> [] | _ \<Rightarrow> [err_issue path ''invalid_param''])
     | PItem_List \<Rightarrow> (case v of
         JList xs \<Rightarrow>
           if xs = [] then [err_issue path ''invalid_param'']
           else if list_ex (\<lambda>x. \<not> is_int x) xs then [err_issue path ''invalid_param''] else []
       | _ \<Rightarrow> [err_issue path ''invalid_param''])
     | PGroup_List \<Rightarrow> (case v of
         JList xs \<Rightarrow>
           if xs = [] then [err_issue path ''invalid_param'']
           else concat (map (\<lambda>g. validate_group known g path) xs)
       | _ \<Rightarrow> [err_issue path ''invalid_param''])
     | PGroup \<Rightarrow> validate_group known v path)"

definition validate_param :: "string list option \<Rightarrow> (string \<times> json) list \<Rightarrow> string \<Rightarrow> param_spec \<Rightarrow> issue list" where
  "validate_param known ps path spec =
    (let param_path = path @ ''.params.'' @ p_name spec
     in case map_of ps (p_name spec) of
          None \<Rightarrow> if p_required spec then [err_issue param_path ''missing_param''] else []
        | Some v \<Rightarrow>
            if v = JNull then (if p_nullable spec then [] else [err_issue param_path ''invalid_param''])
            else validate_param_value known spec v param_path)"

definition validate_params ::
  "string list option \<Rightarrow> param_spec list \<Rightarrow> (string \<times> json) list \<Rightarrow> string \<Rightarrow> issue list" where
  "validate_params known specs ps path =
    concat (map (\<lambda>n. if n \<in> set (map p_name specs) then []
                      else [err_issue (path @ ''.params.'' @ n) ''unknown_param'']) (map fst ps)) @
    concat (map (validate_param known ps path) specs)"

text \<open>What the recursion passes down unchanged.\<close>

record cond_env =
  ce_context :: string
  ce_kind :: string
  ce_known_groups :: "string list option"
  ce_has_target :: bool

definition validate_leaf :: "cond_env \<Rightarrow> (string \<times> json) list \<Rightarrow> string \<Rightarrow> issue list" where
  "validate_leaf env d path =
    (if \<not> set (map fst d) \<subseteq> {''type'', ''params''} then [err_issue path ''condition_invalid'']
     else case map_of LEAVES (py_str (case map_of d ''type'' of None \<Rightarrow> JNull | Some t \<Rightarrow> t)) of
       None \<Rightarrow> [err_issue (path @ ''.type'') ''unknown_leaf'']
     | Some spec \<Rightarrow>
         if ce_context env \<notin> set (l_contexts spec) then [err_issue path ''leaf_context'']
         else
           (if ce_kind env \<in> set (l_kinds spec) then [] else [err_issue path ''leaf_kind'']) @
           (if l_requires_target spec \<and> (ce_context env = ''pool'' \<or> \<not> ce_has_target env)
            then [err_issue path ''leaf_requires_target''] else []) @
           (case or_else (case map_of d ''params'' of None \<Rightarrow> JNull | Some p \<Rightarrow> p) (JObj []) of
              JObj ps \<Rightarrow>
                (if ce_context env = ''pool'' \<and> l_relative spec \<and>
                    py_str (case map_of ps ''by'' of None \<Rightarrow> JNull | Some b \<Rightarrow> b) \<noteq> ''any''
                 then [err_issue (path @ ''.params.by'') ''leaf_relative_in_pool''] else []) @
                validate_params (ce_known_groups env) (l_params spec) ps path
            | _ \<Rightarrow> [err_issue (path @ ''.params'') ''condition_invalid'']))"

text \<open>
  The issues a node adds and the node budget it leaves: \<open>validate_condition env node path depth
  budget\<close>. \<open>validate_children\<close> is the loop over the children of \<open>AND\<close> and \<open>OR\<close>.
\<close>

definition group_keys :: "(string \<times> json) list \<Rightarrow> string list" where
  "group_keys d = filter (\<lambda>k. k \<in> set (map fst d)) [''AND'', ''OR'', ''NOT'']"

function (sequential)
  validate_condition :: "cond_env \<Rightarrow> json \<Rightarrow> string \<Rightarrow> int \<Rightarrow> int \<Rightarrow> issue list \<times> int" and
  validate_children :: "cond_env \<Rightarrow> json list \<Rightarrow> string \<Rightarrow> nat \<Rightarrow> int \<Rightarrow> int \<Rightarrow> issue list \<times> int" where
  "validate_condition env node path depth budget =
    (if depth > MAX_TREE_DEPTH then ([err_issue path ''condition_too_deep''], budget)
     else if budget - 1 < 0 then ([err_issue path ''condition_too_large''], budget - 1)
     else case node of
       JObj d \<Rightarrow>
         if d = [] then ([], budget - 1)
         else if group_keys d \<noteq> [] then
           (if length (dedup (map fst d)) \<noteq> 1 then ([err_issue path ''condition_invalid''], budget - 1)
            else let operator = fst (hd d); children = snd (hd d)
              in if operator = ''NOT''
                 then validate_condition env children (path @ ''.NOT'') (depth + 1) (budget - 1)
                 else case children of
                   JList xs \<Rightarrow>
                     if xs = [] then ([err_issue (path @ CHR ''.'' # operator) ''condition_invalid''], budget - 1)
                     else validate_children env xs (path @ CHR ''.'' # operator) 0 (depth + 1) (budget - 1)
                 | _ \<Rightarrow> ([err_issue (path @ CHR ''.'' # operator) ''condition_invalid''], budget - 1))
         else (validate_leaf env d path, budget - 1)
     | _ \<Rightarrow> ([err_issue path ''condition_invalid''], budget - 1))"
| "validate_children env [] path index depth budget = ([], budget)"
| "validate_children env (x # xs) path index depth budget =
    (let (is1, b1) = validate_condition env x (path @ CHR ''['' # show_nat index @ '']'') depth budget;
         (is2, b2) = validate_children env xs path (Suc index) depth b1
     in (is1 @ is2, b2))"
  by pat_completeness auto
termination
proof (relation "measure (\<lambda>s. case s of Inl (env, node, _) \<Rightarrow> size node | Inr (env, xs, _) \<Rightarrow> Suc (size_list size xs))", goal_cases)
  case (2 env node path depth budget d operator children)
  then show ?case by (cases d) (auto simp: less_Suc_eq_le)
next
  case (3 env node path depth budget d operator children xs)
  then show ?case by (cases d) (auto simp: less_Suc_eq_le)
qed auto

text \<open>The call sites start at depth 1 with the full budget.\<close>

definition check_condition :: "cond_env \<Rightarrow> json \<Rightarrow> string \<Rightarrow> issue list" where
  "check_condition env node path = fst (validate_condition env node path 1 MAX_TREE_NODES)"

section \<open>Accepted trees never raise\<close>

text \<open>Which contexts a condition written for \<open>round\<close>, \<open>item\<close> or \<open>pool\<close> is evaluated in.\<close>

fun ctx_fits :: "string \<Rightarrow> cond_ctx \<Rightarrow> bool" where
  "ctx_fits c (Round_Ctx r) = (c = ''round'')"
| "ctx_fits c (Item_Ctx i) = (c = ''item'' \<or> c = ''pool'')"

named_theorems leaf_evals

lemmas [leaf_evals] = eval_map_index_def eval_best_of_def eval_is_last_map_def eval_item_in_def
  eval_item_group_def eval_target_role_match_def eval_done_by_def

lemmas param_specs = P_OP_def P_VALUE_def P_BY_def P_SCOPE_def param_def

lemma accepted_param:
  assumes "validate_params known specs ps path = []" and "spec \<in> set specs"
    and "p_required spec" and "\<not> p_nullable spec"
  shows "\<exists>v p. map_of ps (p_name spec) = Some v \<and> v \<noteq> JNull \<and> validate_param_value known spec v p = []"
proof -
  have "validate_param known ps path spec = []" using assms(1,2) by (simp add: validate_params_def)
  then show ?thesis using assms(3,4)
    by (auto simp: validate_param_def Let_def split: option.splits if_splits)
qed

lemma accepted_enum:
  assumes "validate_params known specs ps path = []" and "spec \<in> set specs"
    and "p_required spec" and "\<not> p_nullable spec" and "p_kind spec = PEnum" and "p_values spec = Some vs"
  shows "\<exists>v. map_of ps (p_name spec) = Some v \<and> py_str v \<in> set vs"
  using accepted_param [OF assms(1-4)] assms(5,6) by (auto simp: validate_param_value_def split: if_splits)

lemma accepted_int:
  assumes "validate_params known specs ps path = []" and "spec \<in> set specs"
    and "p_required spec" and "\<not> p_nullable spec" and "p_kind spec = PInt"
  shows "\<exists>i. map_of ps (p_name spec) = Some (JInt i)"
proof -
  obtain v p where "map_of ps (p_name spec) = Some v" "validate_param_value known spec v p = []"
    using accepted_param [OF assms(1-4)] by blast
  then show ?thesis using assms(5) by (cases v) (simp_all add: validate_param_value_def)
qed

lemma compare_known: "op \<in> {''=='', ''!='', ''>='', ''>'', ''<='', ''<''} \<Longrightarrow> py_str j = op \<Longrightarrow>
    \<exists>b. compare (Some l) j (JInt r) = Inr b"
  by (auto simp: compare_def COMPARATORS_def)

lemma accepted_comparison:
  assumes "validate_params known [P_OP, P_VALUE] ps path = []"
  shows "\<exists>op v. py_item (JObj ps) ''op'' = Inr op \<and> py_item (JObj ps) ''value'' = Inr v \<and>
      (\<forall>l. \<exists>b. compare (Some l) op v = Inr b)"
proof -
  obtain op where "map_of ps ''op'' = Some op" "py_str op \<in> {''=='', ''!='', ''>='', ''>'', ''<='', ''<''}"
    using accepted_enum [OF assms, of P_OP] by (auto simp: param_specs)
  moreover obtain i where "map_of ps ''value'' = Some (JInt i)"
    using accepted_int [OF assms, of P_VALUE] by (auto simp: param_specs)
  ultimately show ?thesis using compare_known by fastforce
qed

lemma accepted_by_scope:
  assumes "validate_params known [P_BY, P_SCOPE] ps path = []"
  shows "\<exists>who sc. py_item (JObj ps) ''by'' = Inr who \<and> py_item (JObj ps) ''scope'' = Inr sc"
proof -
  obtain who where "map_of ps ''by'' = Some who" using accepted_enum [OF assms, of P_BY] by (auto simp: param_specs)
  moreover obtain sc where "map_of ps ''scope'' = Some sc"
    using accepted_enum [OF assms, of P_SCOPE] by (auto simp: param_specs)
  ultimately show ?thesis by simp
qed

lemma accepted_items:
  assumes "validate_params known [param ''item_ids'' PItem_List] ps path = []"
  shows "\<exists>xs. py_get (JObj ps) ''item_ids'' = Inr (JList xs) \<and> xs \<noteq> [] \<and> list_all is_int xs"
proof -
  obtain v p where "map_of ps ''item_ids'' = Some v"
    "validate_param_value known (param ''item_ids'' PItem_List) v p = []"
    using accepted_param [OF assms, of "param ''item_ids'' PItem_List"] by (auto simp: param_def)
  then show ?thesis
    by (cases v) (auto simp: validate_param_value_def param_def list_all_iff list_ex_iff split: if_splits)
qed

lemma accepted_groups:
  assumes "validate_params known [param ''groups'' PGroup_List] ps path = []"
  shows "\<exists>xs. py_get (JObj ps) ''groups'' = Inr (JList xs) \<and> xs \<noteq> []"
proof -
  obtain v p where "map_of ps ''groups'' = Some v"
    "validate_param_value known (param ''groups'' PGroup_List) v p = []"
    using accepted_param [OF assms, of "param ''groups'' PGroup_List"] by (auto simp: param_def)
  then show ?thesis by (cases v) (auto simp: validate_param_value_def param_def split: if_splits)
qed

lemma is_int_hashable: "is_int x \<Longrightarrow> hashable x"
  by (cases x) auto

lemma leaf_cases:
  assumes "map_of LEAVES t = Some spec"
  shows "spec \<in> snd ` set LEAVES"
  using map_of_SomeD [OF assms] by force

lemma accepted_leaf_evaluates:
  assumes "map_of LEAVES t = Some spec" and "c \<in> set (l_contexts spec)" and "ctx_fits c ctx"
    and "validate_params known (l_params spec) ps path = []"
  shows "\<exists>b. l_evaluator spec (JObj ps) ctx = Inr b"
proof -
  have "spec \<in> set (map snd LEAVES)" using leaf_cases [OF assms(1)] by simp
  then consider
      (map_index) "l_params spec = [P_OP, P_VALUE]" "l_evaluator spec = eval_map_index" "l_contexts spec = [''round'']"
    | (best_of) "l_params spec = [P_OP, P_VALUE]" "l_evaluator spec = eval_best_of" "l_contexts spec = [''round'']"
    | (last_map) "l_evaluator spec = eval_is_last_map" "l_contexts spec = [''round'']"
    | (item_in) "l_params spec = [param ''item_ids'' PItem_List]" "l_evaluator spec = eval_item_in"
        "l_contexts spec = [''item'', ''pool'']"
    | (item_group) "l_params spec = [param ''groups'' PGroup_List]" "l_evaluator spec = eval_item_group"
        "l_contexts spec = [''item'', ''pool'']"
    | (role) "l_evaluator spec = eval_target_role_match" "l_contexts spec = [''item'']"
    | (done_by) acts where "l_params spec = [P_BY, P_SCOPE]" "l_evaluator spec = eval_done_by acts"
        "l_contexts spec = [''item'', ''pool'']"
    by (auto simp: LEAVES_def leaf_def)
  then show ?thesis
  proof cases
    case map_index
    then obtain r where "ctx = Round_Ctx r" using assms(2,3) by (cases ctx) auto
    then show ?thesis using map_index accepted_comparison assms(4) by (fastforce simp: leaf_evals)
  next
    case best_of
    then obtain r where "ctx = Round_Ctx r" using assms(2,3) by (cases ctx) auto
    then show ?thesis using best_of accepted_comparison assms(4) by (fastforce simp: leaf_evals)
  next
    case last_map
    then obtain r where "ctx = Round_Ctx r" using assms(2,3) by (cases ctx) auto
    then show ?thesis using last_map by (simp add: leaf_evals)
  next
    case item_in
    then obtain i where "ctx = Item_Ctx i" using assms(2,3) by (cases ctx) auto
    moreover obtain xs where "py_get (JObj ps) ''item_ids'' = Inr (JList xs)" "xs \<noteq> []" "list_all is_int xs"
      using accepted_items assms(4) item_in by metis
    ultimately show ?thesis using item_in
      by (auto simp: leaf_evals or_else_def list_all_iff dest: is_int_hashable)
  next
    case item_group
    then obtain i where "ctx = Item_Ctx i" using assms(2,3) by (cases ctx) auto
    moreover obtain xs where "py_get (JObj ps) ''groups'' = Inr (JList xs)" "xs \<noteq> []"
      using accepted_groups assms(4) item_group by metis
    ultimately show ?thesis using item_group by (auto simp: leaf_evals or_else_def)
  next
    case role
    then obtain i where "ctx = Item_Ctx i" using assms(2,3) by (cases ctx) auto
    then show ?thesis using role by (auto simp: leaf_evals Let_def)
  next
    case done_by
    then obtain i where "ctx = Item_Ctx i" using assms(2,3) by (cases ctx) auto
    then show ?thesis using done_by accepted_by_scope assms(4) by (fastforce simp: leaf_evals)
  qed
qed

lemma validate_leaf_accepts:
  assumes "validate_leaf env d path = []" and "ctx_fits (ce_context env) ctx"
  shows "\<exists>b. eval_leaf d ctx = Inr b"
proof -
  obtain spec where spec: "map_of LEAVES (py_str (case map_of d ''type'' of None \<Rightarrow> JNull | Some t \<Rightarrow> t)) = Some spec"
    and c: "ce_context env \<in> set (l_contexts spec)"
    using assms(1) by (auto simp: validate_leaf_def split: if_splits option.splits)
  define p where "p = or_else (case map_of d ''params'' of None \<Rightarrow> JNull | Some p \<Rightarrow> p) (JObj [])"
  obtain ps where ps: "p = JObj ps" "validate_params (ce_known_groups env) (l_params spec) ps path = []"
    using assms(1) spec c unfolding p_def [symmetric] validate_leaf_def
    by (cases p) (auto simp: p_def [symmetric] split: if_splits)
  show ?thesis
    using accepted_leaf_evaluates [OF spec c assms(2) ps(2)] spec ps(1) by (simp add: eval_leaf_def p_def)
qed
text \<open>The children the evaluator and the checker descend into, and the size and depth they span.\<close>

lemma size_json_grandchild:
  assumes "Some (JList xs) = map_of d k" and "x \<in> set xs"
  shows "size x < size (JObj d)"
  using size_json_lookup [OF assms(1) [symmetric]] size_json_list [OF assms(2)] by simp

function (sequential) cond_nodes :: "json \<Rightarrow> int" where
  "cond_nodes (JObj d) =
     1 + (case map_of d ''NOT'' of
            Some c \<Rightarrow> cond_nodes c
          | None \<Rightarrow> (case (map_of d ''AND'', map_of d ''OR'') of
              (Some (JList xs), _) \<Rightarrow> sum_list (map cond_nodes xs)
            | (None, Some (JList xs)) \<Rightarrow> sum_list (map cond_nodes xs)
            | _ \<Rightarrow> 0))"
| "cond_nodes _ = 1"
  by pat_completeness auto
termination
  by (relation "measure size") (auto intro: size_json_grandchild size_json_lookup simp del: json.size)

function (sequential) cond_depth :: "json \<Rightarrow> int" where
  "cond_depth (JObj d) =
     1 + (case map_of d ''NOT'' of
            Some c \<Rightarrow> cond_depth c
          | None \<Rightarrow> (case (map_of d ''AND'', map_of d ''OR'') of
              (Some (JList xs), _) \<Rightarrow> foldr max (map cond_depth xs) 0
            | (None, Some (JList xs)) \<Rightarrow> foldr max (map cond_depth xs) 0
            | _ \<Rightarrow> 0))"
| "cond_depth _ = 1"
  by pat_completeness auto
termination
  by (relation "measure size") (auto intro: size_json_grandchild size_json_lookup simp del: json.size)

lemma only_key:
  assumes "group_keys d \<noteq> []" and "length (dedup (map fst d)) = 1"
  shows "fst (hd d) \<in> {''AND'', ''OR'', ''NOT''} \<and>
    map_of d = [fst (hd d) \<mapsto> snd (hd d)]"
proof -
  obtain k where k: "dedup (map fst d) = [k]" using assms(2) by (auto simp: length_Suc_conv)
  then have keys: "fst ` set d = {k}" using set_dedup [of "map fst d"] by simp
  then obtain e d' where d: "d = e # d'" by (cases d) auto
  then have "fst e = k" using keys by auto
  moreover have "k \<in> {''AND'', ''OR'', ''NOT''}" using assms(1) keys by (auto simp: group_keys_def filter_empty_conv)
  moreover have "map_of d = [k \<mapsto> snd e]"
  proof
    fix x
    show "map_of d x = [k \<mapsto> snd e] x"
    proof (cases "x = k")
      case False
      then have "x \<notin> fst ` set d" using keys by simp
      then show ?thesis using False by (simp add: map_of_eq_None_iff [symmetric])
    qed (use d \<open>fst e = k\<close> in \<open>cases e; simp\<close>)
  qed
  ultimately show ?thesis using d by simp
qed

lemma no_group_keys:
  "group_keys d = [] \<Longrightarrow> map_of d ''AND'' = None \<and> map_of d ''OR'' = None \<and> map_of d ''NOT'' = None"
  by (auto simp: group_keys_def map_of_eq_None_iff split: if_splits)

lemma all_results_Inr: "(\<And>r. r \<in> set rs \<Longrightarrow> \<exists>b. r = Inr b) \<Longrightarrow> \<exists>b. all_results rs = Inr b"
proof (induction rs)
  case (Cons r rs)
  obtain b where "r = Inr b" using Cons.prems [of r] by auto
  then show ?case using Cons by (cases b) auto
qed auto

lemma any_results_Inr: "(\<And>r. r \<in> set rs \<Longrightarrow> \<exists>b. r = Inr b) \<Longrightarrow> \<exists>b. any_results rs = Inr b"
proof (induction rs)
  case (Cons r rs)
  obtain b where "r = Inr b" using Cons.prems [of r] by auto
  then show ?case using Cons by (cases b) auto
qed auto

text \<open>What the checker has established about a node it finds nothing wrong with.\<close>

definition node_ok :: "cond_env \<Rightarrow> json \<Rightarrow> bool" where
  "node_ok env j \<longleftrightarrow> (\<forall>ctx. ctx_fits (ce_context env) ctx \<longrightarrow> (\<exists>b. evaluate j ctx = Inr b))"

lemma node_ok_leaf:
  assumes "group_keys d = []" and "validate_leaf env d path = []"
  shows "node_ok env (JObj d)"
  using no_group_keys [OF assms(1)] validate_leaf_accepts [OF assms(2)] by (auto simp: node_ok_def)

lemma node_ok_not: "map_of d = [''NOT'' \<mapsto> c] \<Longrightarrow> node_ok env c \<Longrightarrow> node_ok env (JObj d)"
  by (fastforce simp: node_ok_def not_result_def)

lemma node_ok_list:
  assumes "k \<in> {''AND'', ''OR''}" and "map_of d = [k \<mapsto> JList xs]" and "\<And>x. x \<in> set xs \<Longrightarrow> node_ok env x"
  shows "node_ok env (JObj d)"
  unfolding node_ok_def
proof (intro allI impI)
  fix ctx assume "ctx_fits (ce_context env) ctx"
  then have "\<exists>b. r = Inr b" if "r \<in> set (map (\<lambda>x. evaluate x ctx) xs)" for r
    using that assms(3) by (auto simp: node_ok_def)
  then obtain a b where "all_results (map (\<lambda>x. evaluate x ctx) xs) = Inr a"
      "any_results (map (\<lambda>x. evaluate x ctx) xs) = Inr b"
    using all_results_Inr any_results_Inr by meson
  then show "\<exists>b. evaluate (JObj d) ctx = Inr b" using assms(1,2) by auto
qed

lemma foldr_max_le: "(\<And>x. x \<in> set xs \<Longrightarrow> x \<le> (m :: int)) \<Longrightarrow> 0 \<le> m \<Longrightarrow> foldr max xs 0 \<le> m"
  by (induction xs) auto

lemma cond_group_simps:
  "map_of d = [''NOT'' \<mapsto> c] \<Longrightarrow> cond_nodes (JObj d) = 1 + cond_nodes c"
  "map_of d = [''NOT'' \<mapsto> c] \<Longrightarrow> cond_depth (JObj d) = 1 + cond_depth c"
  "k \<in> {''AND'', ''OR''} \<Longrightarrow> map_of d = [k \<mapsto> JList xs] \<Longrightarrow> cond_nodes (JObj d) = 1 + sum_list (map cond_nodes xs)"
  "k \<in> {''AND'', ''OR''} \<Longrightarrow> map_of d = [k \<mapsto> JList xs] \<Longrightarrow> cond_depth (JObj d) = 1 + foldr max (map cond_depth xs) 0"
  by auto

lemma cond_leaf_simps:
  "group_keys d = [] \<Longrightarrow> cond_nodes (JObj d) = 1"
  "group_keys d = [] \<Longrightarrow> cond_depth (JObj d) = 1"
  using no_group_keys [of d] by simp_all

declare validate_condition.simps [simp del]

lemma validate_condition_sound:
  "validate_condition env node path depth budget = ([], b) \<Longrightarrow>
     node_ok env node \<and> b = budget - cond_nodes node \<and> 0 \<le> b \<and> depth + cond_depth node - 1 \<le> MAX_TREE_DEPTH"
  "validate_children env xs path i depth budget = ([], b) \<Longrightarrow>
     (\<forall>x \<in> set xs. node_ok env x \<and> depth + cond_depth x - 1 \<le> MAX_TREE_DEPTH) \<and>
     b = budget - sum_list (map cond_nodes xs) \<and> (xs \<noteq> [] \<longrightarrow> 0 \<le> b)"
proof (induction env node path depth budget and env xs path i depth budget arbitrary: b and b
    rule: validate_condition_validate_children.induct)
  case (1 env node path depth budget)
  note prem = "1.prems" [unfolded validate_condition.simps [of env node path depth budget]]
  from prem obtain d where node: "node = JObj d"
    and deep: "\<not> depth > MAX_TREE_DEPTH" and big: "\<not> budget - 1 < 0"
    by (cases node) (auto split: if_splits)
  consider (empty) "d = []" | (leaf) "d \<noteq> []" "group_keys d = []" | (grp) "d \<noteq> []" "group_keys d \<noteq> []" by blast
  then show ?case
  proof cases
    case empty
    then show ?thesis using prem node deep big by (auto simp: node_ok_def)
  next
    case leaf
    then have "validate_leaf env d path = []" "b = budget - 1" using prem node deep big by auto
    then show ?thesis using leaf node deep big node_ok_leaf cond_leaf_simps [OF leaf(2)] by auto
  next
    case grp
    define k c where "k = fst (hd d)" and "c = snd (hd d)"
    have one: "length (dedup (map fst d)) = 1" using prem node deep big grp by (auto split: if_splits)
    have k: "k \<in> {''AND'', ''OR'', ''NOT''}" and d: "map_of d = [k \<mapsto> c]"
      using only_key [OF grp(2) one] by (simp_all add: k_def c_def)
    show ?thesis
    proof (cases "k = ''NOT''")
      case True
      then have "validate_condition env c (path @ ''.NOT'') (depth + 1) (budget - 1) = ([], b)"
        using prem node deep big grp one by (simp add: k_def c_def)
      then have "node_ok env c \<and> b = budget - 1 - cond_nodes c \<and> 0 \<le> b \<and> depth + 1 + cond_depth c - 1 \<le> MAX_TREE_DEPTH"
        using "1.IH"(1) [OF deep big node grp(1,2) _ k_def c_def True] one by blast
      then show ?thesis using node d True node_ok_not cond_group_simps(1,2) by auto
    next
      case False
      then obtain xs where c: "c = JList xs" and xs: "xs \<noteq> []"
        and rec: "validate_children env xs (path @ CHR ''.'' # k) 0 (depth + 1) (budget - 1) = ([], b)"
        using prem node deep big grp one by (cases c) (auto simp: k_def c_def Let_def split: if_splits)
      have k': "k \<in> {''AND'', ''OR''}" using k False by simp
      have d': "map_of d = [k \<mapsto> JList xs]" using d c by simp
      have ih: "(\<forall>x \<in> set xs. node_ok env x \<and> depth + 1 + cond_depth x - 1 \<le> MAX_TREE_DEPTH) \<and>
          b = budget - 1 - sum_list (map cond_nodes xs) \<and> (xs \<noteq> [] \<longrightarrow> 0 \<le> b)"
        using "1.IH"(2) [OF deep big node grp(1,2) _ k_def c_def False c xs rec] one by blast
      then have "foldr max (map cond_depth xs) 0 \<le> MAX_TREE_DEPTH - depth"
        using deep by (intro foldr_max_le) fastforce+
      then show ?thesis
        using ih node xs node_ok_list [OF k' d'] cond_group_simps(3,4) [OF k' d'] by simp
    qed
  qed
next
  case (3 env x xs path index depth budget)
  obtain is1 b1 where r1: "validate_condition env x (path @ CHR ''['' # show_nat index @ '']'') depth budget = (is1, b1)"
    by (cases "validate_condition env x (path @ CHR ''['' # show_nat index @ '']'') depth budget")
  obtain is2 b2 where r2: "validate_children env xs path (Suc index) depth b1 = (is2, b2)"
    by (cases "validate_children env xs path (Suc index) depth b1")
  have [simp]: "is1 = []" "is2 = []" "b2 = b" using "3.prems" r1 r2 by simp_all
  have "validate_condition env x (path @ CHR ''['' # show_nat index @ '']'') depth budget = ([], b1)"
    "validate_children env xs path (Suc index) depth b1 = ([], b)" using r1 r2 by simp_all
  then show ?case using "3.IH"(1) "3.IH"(2) [OF r1 [symmetric] refl] by (cases "xs = []") auto
qed (auto)

lemma checked_condition_evaluates:
  assumes "check_condition env node path = []" and "ctx_fits (ce_context env) ctx"
  shows "\<exists>b. evaluate node ctx = Inr b"
proof -
  obtain b where "validate_condition env node path 1 MAX_TREE_NODES = ([], b)"
    using assms(1) by (metis check_condition_def prod.collapse)
  then show ?thesis using validate_condition_sound(1) assms(2) by (auto simp: node_ok_def)
qed

text \<open>C23: A condition tree the checker finds nothing wrong with never raises when it is evaluated, in
  any context of the kind it was checked for: the checker is a sound type system for the evaluator.\<close>

theorem checked_condition_never_raises:
  assumes "check_condition env node path = []" and "ctx_fits (ce_context env) ctx"
  shows "\<exists>b. evaluate node ctx = Inr b"
  by (rule checked_condition_evaluates [OF assms])

definition sample_condition :: json where
  "sample_condition = JObj [(''AND'', JList
     [JObj [(''type'', JStr ''item_group''), (''params'', JObj [(''groups'', JList [JStr '' Tank ''])])],
      JObj [(''NOT'', JObj [(''type'', JStr ''banned_by''),
        (''params'', JObj [(''by'', JStr ''opponent''), (''scope'', JStr ''previous_round'')])])]])]"

theorem checked_condition_never_raises_witness:
  "\<exists>b. evaluate sample_condition (Item_Ctx \<lparr>ic_item_id = 7, ic_group = Some ''tank'', ic_kind = ''hero'',
     ic_actor = Some 1, ic_target_role = None, ic_round = Some 2, ic_history = no_history\<rparr>) = Inr b"
  by (rule checked_condition_never_raises
      [of "\<lparr>ce_context = ''item'', ce_kind = ''hero'', ce_known_groups = Some [''tank''], ce_has_target = False\<rparr>"
         _ "''phases[0]''"]) code_simp+

text \<open>An accepted condition tree has at most 200 nodes and is at most 20 levels deep.\<close>

theorem checked_condition_bounded:
  assumes "check_condition env node path = []"
  shows "cond_nodes node \<le> 200 \<and> cond_depth node \<le> 20"
proof -
  obtain b where "validate_condition env node path 1 MAX_TREE_NODES = ([], b)"
    using assms by (metis check_condition_def prod.collapse)
  from validate_condition_sound(1) [OF this] show ?thesis by (simp add: MAX_TREE_NODES_def MAX_TREE_DEPTH_def)
qed

theorem checked_condition_bounded_witness: "cond_nodes sample_condition \<le> 200 \<and> cond_depth sample_condition \<le> 20"
  by (rule checked_condition_bounded
      [of "\<lparr>ce_context = ''item'', ce_kind = ''hero'', ce_known_groups = Some [''tank''], ce_has_target = False\<rparr>"
         _ "''phases[0]''"]) code_simp

end
