(* ===== verification/Pickban_Rules.thy ===== *)
theory Pickban_Rules
  imports Pickban_Conditions
begin

text \<open>
  The ruleset document of the pick-ban engine and its resolution against a concrete round:
  \<open>shared/domain/pick_ban_rules/schema.py\<close> (steps, phases, rulesets, resolved steps) and
  \<open>compile.py\<close> (generated sequences, the conversion of a version 1 config, phase selection, actor
  resolution, round resolution, and the binding of member steps to members).

  Enumerated fields are datatypes; an actor token stays the string the document holds, with the
  pattern the schema checks it against. What pydantic does with the JSON document before a
  \<open>Ruleset\<close> exists is third-party code: the theory starts from the typed document.
\<close>

section \<open>The document\<close>

datatype step_action = Ban | Pick | Protect | Decider | Side_Pick | Assign

datatype member_mode = Next_Member | Each_Member | Any_Member

datatype timeout_policy = Random_Fill | Lock_Draft | Wait

datatype step_target = Opponent_Player

datatype generator = Bracket_Generator | Slot_Veto

fun action_name :: "step_action \<Rightarrow> string" where
  "action_name Ban = ''ban''"
| "action_name Pick = ''pick''"
| "action_name Protect = ''protect''"
| "action_name Decider = ''decider''"
| "action_name Side_Pick = ''side_pick''"
| "action_name Assign = ''assign''"

lemma action_name_inj [simp]: "action_name a = action_name b \<longleftrightarrow> a = b"
  by (cases a; cases b) simp_all

record dispute_rule =
  d_enabled :: bool
  d_max :: int

record rule_constraint =
  con_type :: string
  con_params :: "(string \<times> json) list"

record step =
  st_id :: string
  st_action :: step_action
  st_actors :: string
  st_count :: int
  st_min :: "int option"
  st_blind :: bool
  st_target :: "step_target option"
  st_lifetime :: "int option"
  st_timer :: "int option"
  st_on_timeout :: "timeout_policy option"
  st_dispute :: dispute_rule
  st_eligible :: "(string \<times> json) list"
  st_constraints :: "rule_constraint list"
  st_member :: "member_mode option"
  st_captains_only :: bool

record phase =
  ph_id :: string
  ph_name :: "string option"
  ph_when :: "(string \<times> json) list"
  ph_pool_filter :: "(string \<times> json) list"
  ph_generator :: "generator option"
  ph_steps :: "step list"

record ruleset =
  rs_timer :: "int option"
  rs_on_timeout :: timeout_policy
  rs_phases :: "phase list"

text \<open>The pattern of the actor tokens. Python's \<open>$\<close> also matches before one trailing line break.\<close>

definition fixed_tokens :: "string list" where
  "fixed_tokens = [''first'', ''second'', ''both'', ''system'', ''winner_prev'', ''loser_prev'', ''home'', ''away'']"

definition starts_with :: "string \<Rightarrow> string \<Rightarrow> bool" where
  "starts_with p s \<longleftrightarrow> take (length p) s = p"

definition side_char :: "char \<Rightarrow> bool" where
  "side_char c \<longleftrightarrow> is_digit c \<or> c \<in> {CHR ''_'', CHR ''-''} \<or> (97 \<le> (of_char c :: nat) \<and> (of_char c :: nat) \<le> 122)"

definition token_ok :: "string \<Rightarrow> bool" where
  "token_ok t \<longleftrightarrow> t \<in> set fixed_tokens \<or>
     (starts_with ''slot:'' t \<and> (let ds = drop 5 t in ds \<noteq> [] \<and> hd ds \<noteq> CHR ''0'' \<and> list_all is_digit ds)) \<or>
     (starts_with ''side:'' t \<and> (let cs = drop 5 t in 1 \<le> length cs \<and> length cs \<le> 16 \<and> list_all side_char cs))"

definition newline :: char where
  "newline = CHR 0x0A"

definition known_actors :: "string \<Rightarrow> bool" where
  "known_actors s \<longleftrightarrow> token_ok s \<or> (s \<noteq> [] \<and> last s = newline \<and> token_ok (butlast s))"

definition LEGACY_ACTOR_SLOTS :: "(string, int) dict" where
  "LEGACY_ACTOR_SLOTS = [(''home'', 1), (''away'', 2)]"

section \<open>Resolved steps\<close>

record resolved_step =
  index :: int
  rs_round :: "int option"
  phase_id :: string
  step_id :: string
  action :: step_action
  actors :: "int option list"
  actors_token :: "string option"
  cnt :: int
  min_items :: int
  blind :: bool
  target :: "step_target option"
  lifetime :: "int option"
  timer_seconds :: "int option"
  on_timeout :: timeout_policy
  dispute :: dispute_rule
  eligible :: "(string \<times> json) list"
  constraints :: "rule_constraint list"
  member :: "member_mode option"
  member_seats :: "(int \<times> int) list"
  captains_only :: bool

definition acting_actors :: "resolved_step \<Rightarrow> int list" where
  "acting_actors s = List.map_filter id (actors s)"

definition answers :: "resolved_step \<Rightarrow> (int option \<times> int option) list" where
  "answers s =
    (if member s \<noteq> None then map (\<lambda>(a, m). (Some a, Some m)) (member_seats s)
     else map (\<lambda>a. (a, None)) (actors s))"

definition is_system :: "resolved_step \<Rightarrow> bool" where
  "is_system s \<longleftrightarrow> actors s = [None]"

definition is_unbound :: "resolved_step \<Rightarrow> bool" where
  "is_unbound s \<longleftrightarrow> actors s = [] \<and> actors_token s \<noteq> None"

definition is_bound_to_side :: "resolved_step \<Rightarrow> bool" where
  "is_bound_to_side s \<longleftrightarrow> actors s \<noteq> [] \<and>
     starts_with ''side:'' (case actors_token s of None \<Rightarrow> [] | Some t \<Rightarrow> t)"

definition unbound :: "resolved_step \<Rightarrow> resolved_step" where
  "unbound s = s\<lparr>actors := [], member_seats := []\<rparr>"

text \<open>Stored rows that still hold \<open>sides\<close>: \<open>_actors\<close> of one row, with \<open>slot \<rightarrow> participation\<close>.\<close>

definition legacy_actor :: "(int, int) dict \<Rightarrow> string \<Rightarrow> py_error + int option" where
  "legacy_actor seats side =
    (if side = ''system'' then Inr None
     else case Option.bind (map_of LEGACY_ACTOR_SLOTS side) (map_of seats) of
       None \<Rightarrow> Inl Value_Error
     | Some a \<Rightarrow> Inr (Some a))"

fun sum_map :: "('a \<Rightarrow> 'e + 'b) \<Rightarrow> 'a list \<Rightarrow> 'e + 'b list" where
  "sum_map f [] = Inr []"
| "sum_map f (x # xs) = (case f x of Inl e \<Rightarrow> Inl e | Inr y \<Rightarrow>
     (case sum_map f xs of Inl e \<Rightarrow> Inl e | Inr ys \<Rightarrow> Inr (y # ys)))"

definition legacy_actors :: "(int, int) dict \<Rightarrow> string list \<Rightarrow> py_error + int option list" where
  "legacy_actors seats sides = sum_map (legacy_actor seats) sides"

text \<open>\<open>format_path\<close>: integers index, names follow a dot.\<close>

fun format_path_from :: "string \<Rightarrow> (int + string) list \<Rightarrow> string" where
  "format_path_from path [] = path"
| "format_path_from path (Inl i # loc) = format_path_from (path @ ''['' @ show_int i @ '']'') loc"
| "format_path_from path (Inr s # loc) = format_path_from (if path = [] then s else path @ ''.'' @ s) loc"

definition format_path :: "(int + string) list \<Rightarrow> string" where
  "format_path loc = format_path_from [] loc"

section \<open>Generated sequences\<close>

definition LEAD_BANS :: int where "LEAD_BANS = 2"

definition alternating :: "string \<Rightarrow> string \<Rightarrow> int \<Rightarrow> string list" where
  "alternating a b n = map (\<lambda>i. if i mod 2 = 0 then a else b) [0..<nat n]"

definition build_sequence_for_best_of :: "int \<Rightarrow> int \<Rightarrow> string list" where
  "build_sequence_for_best_of best_of pool_size =
    (if pool_size < 1 then []
     else if best_of \<le> 1 then alternating ''ban_first'' ''ban_second'' (pool_size - 1) @ [''decider'']
     else let played = min best_of pool_size;
              picks = (if played mod 2 \<noteq> 0 then played - 1 else played);
              bans = max 0 (min LEAD_BANS (pool_size - played))
       in alternating ''ban_first'' ''ban_second'' bans @ alternating ''pick_first'' ''pick_second'' picks @
          (if played mod 2 \<noteq> 0 then [''decider''] else []))"

datatype first_ban_rotation =
  Rot_Fixed | Rot_Alternate | Rot_Winner_First | Rot_Loser_First | Rot_Loser_Choice

definition slot_tokens :: "first_ban_rotation \<Rightarrow> nat \<Rightarrow> int \<Rightarrow> string list" where
  "slot_tokens rotation slot_index candidate_count =
    (if rotation \<noteq> Rot_Alternate \<or> slot_index mod 2 = 0
     then alternating ''ban_first'' ''ban_second'' (candidate_count - 1)
     else alternating ''ban_second'' ''ban_first'' (candidate_count - 1)) @ [''decider'']"

definition build_slot_sequence :: "int list \<Rightarrow> first_ban_rotation \<Rightarrow> string list" where
  "build_slot_sequence counts rotation =
    concat (map (\<lambda>(i, c). slot_tokens rotation i c) (enumerate 0 counts))"

section \<open>Version 1 configs\<close>

text \<open>\<open>token.rpartition("_")\<close>, without the separator.\<close>

definition rpartition :: "string \<Rightarrow> string \<times> string" where
  "rpartition t =
    (if CHR ''_'' \<in> set t
     then (rev (tl (dropWhile (\<lambda>c. c \<noteq> CHR ''_'') (rev t))), rev (takeWhile (\<lambda>c. c \<noteq> CHR ''_'') (rev t)))
     else ([], t))"

definition V1_ACTIONS :: "(string, step_action) dict" where
  "V1_ACTIONS = [(''ban'', Ban), (''pick'', Pick), (''protect'', Protect)]"

definition v1_step :: "string \<Rightarrow> step_action \<Rightarrow> string \<Rightarrow> step" where
  "v1_step i a act = \<lparr>st_id = i, st_action = a, st_actors = act, st_count = 1, st_min = None, st_blind = False,
     st_target = None, st_lifetime = (if a = Ban then Some 1 else None), st_timer = None, st_on_timeout = None,
     st_dispute = \<lparr>d_enabled = False, d_max = 0\<rparr>, st_eligible = [], st_constraints = [], st_member = None,
     st_captains_only = False\<rparr>"

fun v1_steps_from :: "string \<Rightarrow> nat \<Rightarrow> string list \<Rightarrow> py_error + step list" where
  "v1_steps_from kind i [] = Inr []"
| "v1_steps_from kind i (t # ts) =
    (if t = ''decider'' then
       (if kind = ''hero'' then v1_steps_from kind (Suc i) ts
        else case v1_steps_from kind (Suc i) ts of
          Inl e \<Rightarrow> Inl e
        | Inr ss \<Rightarrow> Inr (v1_step (CHR ''s'' # show_nat (Suc i)) Decider ''system'' # ss))
     else let (a, act) = rpartition t
       in case map_of V1_ACTIONS a of
            None \<Rightarrow> Inl Value_Error
          | Some b \<Rightarrow>
              if act \<notin> {''first'', ''second''} then Inl Value_Error
              else case v1_steps_from kind (Suc i) ts of
                Inl e \<Rightarrow> Inl e
              | Inr ss \<Rightarrow> Inr (v1_step (CHR ''s'' # show_nat (Suc i)) b act # ss))"

definition steps_from_v1_tokens :: "string \<Rightarrow> string list \<Rightarrow> py_error + step list" where
  "steps_from_v1_tokens kind tokens = v1_steps_from kind 0 tokens"

definition never_banned :: "string \<Rightarrow> (string \<times> json) list" where
  "never_banned who = [(''NOT'', JObj [(''type'', JStr ''banned_by''),
     (''params'', JObj [(''by'', JStr who), (''scope'', JStr ''series'')])])]"

definition one_per_role :: rule_constraint where
  "one_per_role = \<lparr>con_type = ''max_per_group'',
     con_params = [(''max'', JInt 1), (''scope'', JStr ''round''), (''group'', JNull)]\<rparr>"

definition v1_generator :: "string \<Rightarrow> string \<Rightarrow> string option \<Rightarrow> generator option" where
  "v1_generator kind mode preset =
    (if kind = ''map'' then
       (if mode = ''slots'' then Some Slot_Veto
        else if preset \<notin> {None, Some ''custom''} then Some Bracket_Generator else None)
     else None)"

definition v1_same_side :: "string option \<Rightarrow> step \<Rightarrow> step" where
  "v1_same_side scope s =
    (if scope = Some ''encounter_same_side'' \<and> st_action s = Ban
     then s\<lparr>st_eligible := never_banned ''self''\<rparr> else s)"

definition v1_unique :: "string option \<Rightarrow> step \<Rightarrow> step" where
  "v1_unique attr s =
    (if attr = Some ''role'' \<and> st_action s \<in> {Ban, Protect}
     then s\<lparr>st_constraints := st_constraints s @ [one_per_role]\<rparr> else s)"

definition ruleset_from_v1 ::
  "string \<Rightarrow> string \<Rightarrow> string option \<Rightarrow> string list \<Rightarrow> string option \<Rightarrow> string option \<Rightarrow> int option \<Rightarrow>
    py_error + ruleset" where
  "ruleset_from_v1 kind mode preset sequence no_repeat_scope unique_attribute timer =
    (let gen = v1_generator kind mode preset
     in case (if gen \<noteq> None then Inr [] else steps_from_v1_tokens kind sequence) of
          Inl e \<Rightarrow> Inl e
        | Inr steps \<Rightarrow> Inr \<lparr>rs_timer = timer, rs_on_timeout = Random_Fill, rs_phases =
            [\<lparr>ph_id = ''main'', ph_name = None, ph_when = [],
              ph_pool_filter = (if no_repeat_scope = Some ''encounter'' then never_banned ''any'' else []),
              ph_generator = gen,
              ph_steps = map (v1_unique unique_attribute \<circ> v1_same_side no_repeat_scope) steps\<rparr>]\<rparr>)"

section \<open>Phases and actors\<close>

definition phase_matches :: "phase \<Rightarrow> round_ctx \<Rightarrow> py_error + bool" where
  "phase_matches p ctx = evaluate (JObj (ph_when p)) (Round_Ctx ctx)"

fun first_phase :: "phase list \<Rightarrow> round_ctx \<Rightarrow> py_error + phase option" where
  "first_phase [] ctx = Inr None"
| "first_phase (p # ps) ctx =
    (case phase_matches p ctx of Inl e \<Rightarrow> Inl e | Inr b \<Rightarrow> if b then Inr (Some p) else first_phase ps ctx)"

definition select_phase :: "ruleset \<Rightarrow> round_ctx \<Rightarrow> py_error + phase option" where
  "select_phase r ctx = first_phase (rs_phases r) ctx"

text \<open>\<open>xs.index(x)\<close> for an \<open>x\<close> that occurs.\<close>

definition index_of :: "'a \<Rightarrow> 'a list \<Rightarrow> nat" where
  "index_of x xs = length (takeWhile (\<lambda>y. y \<noteq> x) xs)"

definition rotate_to :: "int \<Rightarrow> int list \<Rightarrow> int list" where
  "rotate_to opener seats =
    (if opener \<in> set seats then drop (index_of opener seats) seats @ take (index_of opener seats) seats else seats)"

text \<open>The slot a token names: \<open>home\<close> and \<open>away\<close>, or the number after \<open>slot:\<close>. \<open>int()\<close> strips the
  line break the pattern lets through; where it would raise, so does the fall-through below.\<close>

definition token_slot :: "string \<Rightarrow> int option" where
  "token_slot t =
    (case map_of LEGACY_ACTOR_SLOTS t of
       Some n \<Rightarrow> Some n
     | None \<Rightarrow> if starts_with ''slot:'' t then int_of_str (drop 5 t) else None)"

definition resolve_actors ::
  "string \<Rightarrow> int list \<Rightarrow> int \<Rightarrow> int option \<Rightarrow> (string, int) dict \<Rightarrow> py_error + int option list" where
  "resolve_actors token participants opener prev_winner sides =
    (if participants = [] then Inl Value_Error
     else let rotated = rotate_to opener participants;
              other = (if length rotated > 1 then rotated ! 1 else rotated ! 0);
              won = (case prev_winner of None \<Rightarrow> False | Some w \<Rightarrow> w \<in> set participants)
       in if token = ''first'' then Inr [Some (rotated ! 0)]
          else if token = ''second'' then Inr [Some other]
          else if token = ''both'' then Inr (map Some rotated)
          else if token = ''system'' then Inr [None]
          else if token = ''winner_prev'' then (if won then Inr [prev_winner] else Inr [Some (rotated ! 0)])
          else if token = ''loser_prev'' then
            (if won then (case filter (\<lambda>s. Some s \<noteq> prev_winner) rotated of
                 [] \<Rightarrow> Inl Other_Error | l # _ \<Rightarrow> Inr [Some l])
             else Inr [Some other])
          else case token_slot token of
            Some slot \<Rightarrow>
              if 1 \<le> slot \<and> slot \<le> int (length participants) then Inr [Some (participants ! nat (slot - 1))]
              else Inl Value_Error
          | None \<Rightarrow>
              if starts_with ''side:'' token then
                (case map_of sides (drop 5 token) of None \<Rightarrow> Inl Unassigned_Side | Some a \<Rightarrow> Inr [Some a])
              else Inl Value_Error)"

section \<open>Binding members\<close>

text \<open>
  \<open>named\<close> holds \<open>(round, participation, member)\<close> for every member a \<open>next\<close> or \<open>any\<close> step names;
  the code keeps the same triples as a dictionary of sets.
\<close>

type_synonym named = "(int option \<times> int \<times> int) set"

definition first_left :: "int option \<Rightarrow> int \<Rightarrow> int list \<Rightarrow> named \<Rightarrow> int option" where
  "first_left rnd actor roster named = find (\<lambda>m. (rnd, actor, m) \<notin> named) roster"

fun seat_actors ::
  "member_mode \<Rightarrow> int option \<Rightarrow> (int, int list) dict \<Rightarrow> int list \<Rightarrow> named \<Rightarrow> (int \<times> int) list \<times> named" where
  "seat_actors mode rnd members [] named = ([], named)"
| "seat_actors mode rnd members (a # as) named =
    (let roster = dict_get members a []
     in if mode = Each_Member then
          (let (seats, named') = seat_actors mode rnd members as named in (map (Pair a) roster @ seats, named'))
        else case first_left rnd a roster named of
          None \<Rightarrow> seat_actors mode rnd members as named
        | Some m \<Rightarrow>
            (let (seats, named') = seat_actors mode rnd members as (insert (rnd, a, m) named)
             in ((a, m) # seats, named')))"

definition names_of :: "resolved_step \<Rightarrow> named" where
  "names_of s = (if member s \<in> {Some Next_Member, Some Any_Member}
     then (\<lambda>(a, m). (rs_round s, a, m)) ` set (member_seats s) else {})"

fun bind_from :: "(int, int list) dict \<Rightarrow> named \<Rightarrow> resolved_step list \<Rightarrow> resolved_step list" where
  "bind_from members named [] = []"
| "bind_from members named (s # ss) =
    (case member s of
       None \<Rightarrow> s # bind_from members named ss
     | Some mode \<Rightarrow>
         if member_seats s \<noteq> [] \<or> is_unbound s then s # bind_from members (named \<union> names_of s) ss
         else let (seats, named') = seat_actors mode (rs_round s) members (acting_actors s) named
           in s\<lparr>member_seats := seats\<rparr> # bind_from members named' ss)"

definition bind_members :: "resolved_step list \<Rightarrow> (int, int list) dict \<Rightarrow> resolved_step list" where
  "bind_members steps members = bind_from members {} steps"

section \<open>Round resolution\<close>

definition resolved_actors ::
  "step \<Rightarrow> int list \<Rightarrow> int \<Rightarrow> int option \<Rightarrow> (string, int) dict \<Rightarrow> py_error + int option list \<times> string option" where
  "resolved_actors s participants opener prev_winner sides =
    (case resolve_actors (st_actors s) participants opener prev_winner sides of
       Inr as \<Rightarrow> Inr (as, None)
     | Inl Unassigned_Side \<Rightarrow> Inr ([], Some (st_actors s))
     | Inl e \<Rightarrow> Inl e)"

definition resolve_step ::
  "ruleset \<Rightarrow> phase \<Rightarrow> int option \<Rightarrow> int \<Rightarrow> step \<Rightarrow> int option list \<times> string option \<Rightarrow> resolved_step" where
  "resolve_step r p rnd i s at =
    (let n = (if st_action s \<in> {Decider, Side_Pick} then 1 else st_count s)
     in \<lparr>index = i, rs_round = rnd, phase_id = ph_id p, step_id = st_id s, action = st_action s,
         actors = fst at, actors_token = snd at, cnt = n,
         min_items = (case st_min s of None \<Rightarrow> n | Some m \<Rightarrow> min m n),
         blind = st_blind s, target = st_target s,
         lifetime = (if st_action s = Ban then st_lifetime s else None),
         timer_seconds = (if st_timer s \<noteq> None then st_timer s else rs_timer r),
         on_timeout = (case st_on_timeout s of None \<Rightarrow> rs_on_timeout r | Some t \<Rightarrow> t),
         dispute = st_dispute s, eligible = st_eligible s, constraints = st_constraints s,
         member = st_member s, member_seats = [], captains_only = st_captains_only s\<rparr>)"

fun resolve_steps ::
  "(step \<Rightarrow> py_error + int option list \<times> string option) \<Rightarrow> (int \<Rightarrow> step \<Rightarrow> int option list \<times> string option \<Rightarrow> resolved_step) \<Rightarrow>
    string \<Rightarrow> int \<Rightarrow> step list \<Rightarrow> py_error + resolved_step list" where
  "resolve_steps ra mk kind i [] = Inr []"
| "resolve_steps ra mk kind i (s # ss) =
    (if st_action s = Decider \<and> kind \<noteq> ''map'' then resolve_steps ra mk kind i ss
     else case ra s of
       Inl e \<Rightarrow> Inl e
     | Inr at \<Rightarrow> (case resolve_steps ra mk kind (i + 1) ss of
         Inl e \<Rightarrow> Inl e | Inr rs \<Rightarrow> Inr (mk i s at # rs)))"

definition phase_steps :: "phase \<Rightarrow> string \<Rightarrow> int \<Rightarrow> int \<Rightarrow> int \<Rightarrow> py_error + step list" where
  "phase_steps p kind best_of pool_size candidate_count =
    (case ph_generator p of
       Some Bracket_Generator \<Rightarrow> steps_from_v1_tokens kind (build_sequence_for_best_of best_of pool_size)
     | Some Slot_Veto \<Rightarrow> steps_from_v1_tokens kind (build_slot_sequence [candidate_count] Rot_Fixed)
     | None \<Rightarrow> Inr (ph_steps p))"

text \<open>The arguments of \<open>resolve_round\<close> that describe the encounter.\<close>

record round_args =
  ra_kind :: string
  ra_round :: "int option"
  ra_start_index :: int
  ra_participants :: "int list"
  ra_opener :: int
  ra_prev_winner :: "int option"
  ra_sides :: "(string, int) dict"
  ra_best_of :: int
  ra_pool_size :: int
  ra_candidate_count :: int
  ra_members :: "(int, int list) dict"

definition round_ctx_of :: "round_args \<Rightarrow> round_ctx" where
  "round_ctx_of a = \<lparr>rc_round = (case ra_round a of None \<Rightarrow> 1 | Some r \<Rightarrow> r), rc_best_of = max (ra_best_of a) 1,
     rc_kind = ra_kind a\<rparr>"

definition resolve_round :: "ruleset \<Rightarrow> round_args \<Rightarrow> py_error + resolved_step list" where
  "resolve_round r a =
    (case select_phase r (round_ctx_of a) of
       Inl e \<Rightarrow> Inl e
     | Inr None \<Rightarrow> Inr []
     | Inr (Some p) \<Rightarrow>
         (case phase_steps p (ra_kind a) (rc_best_of (round_ctx_of a)) (ra_pool_size a) (ra_candidate_count a) of
            Inl e \<Rightarrow> Inl e
          | Inr steps \<Rightarrow>
              (case resolve_steps
                  (\<lambda>s. resolved_actors s (ra_participants a) (ra_opener a) (ra_prev_winner a) (ra_sides a))
                  (resolve_step r p (ra_round a)) (ra_kind a) (ra_start_index a) steps of
                 Inl e \<Rightarrow> Inl e
               | Inr rs \<Rightarrow> Inr (bind_members rs (ra_members a)))))"

section \<open>Free-order picks\<close>

definition free_pick_choices ::
  "resolved_step list \<Rightarrow> resolved_step \<Rightarrow> int \<Rightarrow> (int, int list) dict \<Rightarrow> int list" where
  "free_pick_choices steps s actor members =
    (if member s \<noteq> Some Any_Member \<or> list_all (\<lambda>(a, m). a \<noteq> actor) (member_seats s) then []
     else let named = concat (map (\<lambda>t. map snd (filter (\<lambda>(a, m). a = actor) (member_seats t)))
            (filter (\<lambda>t. rs_round t = rs_round s \<and> index t < index s \<and>
               member t \<in> {Some Next_Member, Some Any_Member}) steps))
       in filter (\<lambda>m. m \<notin> set named) (dict_get members actor []))"

text \<open>One step of \<open>rebind_free_pick\<close>: \<open>rest\<close> are the choices still to be handed to later steps.\<close>

definition reseat :: "resolved_step \<Rightarrow> int \<Rightarrow> int option \<Rightarrow> py_error + resolved_step" where
  "reseat t actor mine =
    (let seats = filter (\<lambda>(a, m). a \<noteq> actor) (member_seats t) @ (case mine of None \<Rightarrow> [] | Some m \<Rightarrow> [(actor, m)])
     in if list_all (\<lambda>(a, m). a \<in> set (acting_actors t)) seats
        then Inr (t\<lparr>member_seats := sort_key (\<lambda>(a, m). index_of a (acting_actors t)) seats\<rparr>)
        else Inl Value_Error)"

fun rebind_steps ::
  "resolved_step \<Rightarrow> int \<Rightarrow> int \<Rightarrow> int list \<Rightarrow> resolved_step list \<Rightarrow> py_error + resolved_step list" where
  "rebind_steps s actor chosen rest [] = Inr []"
| "rebind_steps s actor chosen rest (t # ts) =
    (if rs_round t \<noteq> rs_round s \<or> member t \<noteq> Some Any_Member \<or> index t < index s \<or> actor \<notin> set (acting_actors t)
     then (case rebind_steps s actor chosen rest ts of Inl e \<Rightarrow> Inl e | Inr ts' \<Rightarrow> Inr (t # ts'))
     else let (mine, rest') =
            (if index t = index s then (Some chosen, rest)
             else case rest of [] \<Rightarrow> (None, []) | m # ms \<Rightarrow> (Some m, ms))
       in case reseat t actor mine of
            Inl e \<Rightarrow> Inl e
          | Inr t' \<Rightarrow> (case rebind_steps s actor chosen rest' ts of Inl e \<Rightarrow> Inl e | Inr ts' \<Rightarrow> Inr (t' # ts')))"

definition rebind_free_pick ::
  "resolved_step list \<Rightarrow> resolved_step \<Rightarrow> int \<Rightarrow> int \<Rightarrow> (int, int list) dict \<Rightarrow> py_error + resolved_step list" where
  "rebind_free_pick steps s actor chosen members =
    (let choices = free_pick_choices steps s actor members
     in if chosen \<notin> set choices then Inl Value_Error
        else rebind_steps s actor chosen (filter (\<lambda>m. m \<noteq> chosen) choices) steps)"

section \<open>Generated sequences play the series\<close>

definition settling :: "string \<Rightarrow> bool" where
  "settling t \<longleftrightarrow> t \<in> {''pick_first'', ''pick_second'', ''decider''}"

definition v1_tokens :: "string list" where
  "v1_tokens = [''decider'', ''ban_first'', ''ban_second'', ''pick_first'', ''pick_second'',
     ''protect_first'', ''protect_second'']"

definition v1_token :: "string \<Rightarrow> bool" where
  "v1_token t \<longleftrightarrow> t \<in> set v1_tokens"

lemma length_alternating [simp]: "length (alternating a b n) = nat n"
  by (simp add: alternating_def)

lemma set_alternating: "set (alternating a b n) \<subseteq> {a, b}"
  by (auto simp: alternating_def)

lemma filter_alternating: "\<not> P a \<Longrightarrow> \<not> P b \<Longrightarrow> filter P (alternating a b n) = []"
  using set_alternating [of a b n] by (auto simp: filter_empty_conv)

lemma filter_alternating_all: "P a \<Longrightarrow> P b \<Longrightarrow> filter P (alternating a b n) = alternating a b n"
  using set_alternating [of a b n] by (auto intro: filter_True)

text \<open>Of an alternating stretch the first takes half, rounded up, and the second half, rounded down.\<close>

lemma alternating_Suc: "alternating a b (int (Suc n)) = alternating a b (int n) @ [if n mod 2 = 0 then a else b]"
  unfolding alternating_def nat_int by simp

lemma alternating_shares:
  assumes "a \<noteq> b"
  shows "length (filter (\<lambda>t. t = a) (alternating a b (int n))) = (n + 1) div 2 \<and>
    length (filter (\<lambda>t. t = b) (alternating a b (int n))) = n div 2"
proof (induction n)
  case (Suc n)
  then show ?case using assms unfolding alternating_Suc by (cases "n mod 2 = 0") (simp_all, presburger+)
qed (simp add: alternating_def)

lemma v1_tokens_parse:
  "list_all (\<lambda>t. t = ''decider'' \<or>
     (map_of V1_ACTIONS (fst (rpartition t)) \<noteq> None \<and> snd (rpartition t) \<in> {''first'', ''second''})) v1_tokens"
  by code_simp

lemma token_parses: "v1_token t \<Longrightarrow> t \<noteq> ''decider'' \<Longrightarrow>
    \<exists>a act b. rpartition t = (a, act) \<and> map_of V1_ACTIONS a = Some b \<and> act \<in> {''first'', ''second''}"
  using v1_tokens_parse unfolding list_all_iff v1_token_def
  by (metis not_None_eq prod.collapse)

lemma v1_steps_from_ok:
  "list_all v1_token ts \<Longrightarrow> \<exists>ss. v1_steps_from kind i ts = Inr ss \<and>
     length ss = length (filter (\<lambda>t. kind \<noteq> ''hero'' \<or> t \<noteq> ''decider'') ts)"
proof (induction ts arbitrary: i)
  case (Cons t ts)
  then obtain ss where ss: "v1_steps_from kind (Suc i) ts = Inr ss"
    "length ss = length (filter (\<lambda>t. kind \<noteq> ''hero'' \<or> t \<noteq> ''decider'') ts)" by fastforce
  show ?case
  proof (cases "t = ''decider''")
    case False
    then obtain a act b where "rpartition t = (a, act)" "map_of V1_ACTIONS a = Some b" "act \<in> {''first'', ''second''}"
      using token_parses [of t] Cons.prems by fastforce
    then show ?thesis using False ss by auto
  qed (use ss in auto)
qed simp

lemma v1_token_simps [simp]:
  "v1_token ''ban_first''" "v1_token ''ban_second''" "v1_token ''pick_first''" "v1_token ''pick_second''"
  "v1_token ''decider''"
  by (simp_all add: v1_token_def v1_tokens_def)

lemma list_all_alternating: "P a \<Longrightarrow> P b \<Longrightarrow> list_all P (alternating a b n)"
  using set_alternating [of a b n] by (auto simp: list_all_iff)

lemma bracket_tokens: "list_all v1_token (build_sequence_for_best_of best_of pool_size)"
  by (simp add: build_sequence_for_best_of_def Let_def list_all_alternating)

lemma slot_sequence_tokens: "list_all v1_token (build_slot_sequence counts rotation)"
  by (auto simp: build_slot_sequence_def slot_tokens_def list_all_iff
      dest: set_alternating [THEN subsetD])

lemma settling_simps [simp]:
  "\<not> settling ''ban_first''" "\<not> settling ''ban_second''" "settling ''pick_first''" "settling ''pick_second''"
  "settling ''decider''"
  by (simp_all add: settling_def)

lemma bracket_settles:
  "length (filter settling (build_sequence_for_best_of b p)) = (if p < 1 then 0 else nat (min (max b 1) p))"
proof (cases "p < 1 \<or> b \<le> 1")
  case False
  define q where "q = min b p"
  have q: "0 < q" "min (max b 1) p = q" using False by (auto simp: q_def)
  have "length (filter settling (build_sequence_for_best_of b p)) =
      nat (if q mod 2 \<noteq> 0 then q - 1 else q) + (if q mod 2 \<noteq> 0 then 1 else 0)"
    using False unfolding build_sequence_for_best_of_def Let_def q_def [symmetric]
    by (simp add: filter_alternating filter_alternating_all)
  then show ?thesis using False q by (simp split: if_splits)
qed (auto simp: build_sequence_for_best_of_def filter_alternating)

lemma bracket_length: "int (length (build_sequence_for_best_of b p)) \<le> max 0 p"
  by (auto simp: build_sequence_for_best_of_def Let_def LEAD_BANS_def)

lemma slot_settles: "length (filter settling (build_slot_sequence cs rotation)) = length cs"
proof -
  have "length (filter settling (concat (map (\<lambda>(i, c). slot_tokens rotation i c) (enumerate n cs)))) = length cs" for n
    by (induction cs arbitrary: n) (auto simp: slot_tokens_def filter_alternating)
  then show ?thesis by (simp add: build_slot_sequence_def)
qed

lemma slot_length: "int (length (build_slot_sequence cs rotation)) = sum_list (map (max 1) cs)"
proof -
  have "int (length (concat (map (\<lambda>(i, c). slot_tokens rotation i c) (enumerate n cs)))) = sum_list (map (max 1) cs)" for n
    by (induction cs arbitrary: n) (auto simp: slot_tokens_def)
  then show ?thesis by (simp add: build_slot_sequence_def)
qed

definition tokens_of :: "string \<Rightarrow> string list \<Rightarrow> nat" where
  "tokens_of t ts = length (filter (\<lambda>u. u = t) ts)"

lemma tokens_of_append [simp]: "tokens_of t (xs @ ys) = tokens_of t xs + tokens_of t ys"
  by (simp add: tokens_of_def)

lemma tokens_of_alternating:
  "a \<noteq> b \<Longrightarrow> tokens_of a (alternating a b n) = (nat n + 1) div 2"
  "a \<noteq> b \<Longrightarrow> tokens_of b (alternating a b n) = nat n div 2"
  "c \<noteq> a \<Longrightarrow> c \<noteq> b \<Longrightarrow> tokens_of c (alternating a b n) = 0"
proof -
  have n: "alternating a b n = alternating a b (int (nat n))" by (simp add: alternating_def)
  show "a \<noteq> b \<Longrightarrow> tokens_of a (alternating a b n) = (nat n + 1) div 2"
    "a \<noteq> b \<Longrightarrow> tokens_of b (alternating a b n) = nat n div 2"
    using alternating_shares [of a b "nat n"] unfolding n [symmetric] by (simp_all add: tokens_of_def)
  show "c \<noteq> a \<Longrightarrow> c \<noteq> b \<Longrightarrow> tokens_of c (alternating a b n) = 0"
    using filter_alternating [of "\<lambda>u. u = c" a b n] by (auto simp: tokens_of_def)
qed

lemma tokens_of_one [simp]: "tokens_of t [u] = (if u = t then 1 else 0)" "tokens_of t [] = 0"
  by (simp_all add: tokens_of_def)

lemma bracket_fair:
  "tokens_of ''pick_first'' (build_sequence_for_best_of b p) = tokens_of ''pick_second'' (build_sequence_for_best_of b p)"
proof (cases "p < 1 \<or> b \<le> 1")
  case False
  define q where "q = min b p"
  define k where "k = nat (q div 2)"
  have q: "0 < q" using False by (auto simp: q_def)
  have "(if q mod 2 \<noteq> 0 then q - 1 else q) = 2 * (q div 2)"
    using mult_div_mod_eq [of 2 q] by (simp, arith)
  then have k: "nat (if q mod 2 \<noteq> 0 then q - 1 else q) = 2 * k" using q by (simp add: k_def nat_mult_distrib)
  have "tokens_of t (build_sequence_for_best_of b p) = k" if "t \<in> {''pick_first'', ''pick_second''}" for t
    using that False k unfolding build_sequence_for_best_of_def Let_def q_def [symmetric]
    by (auto simp: tokens_of_alternating if_distrib [of "tokens_of _"] split del: if_split cong: if_cong)
  then show ?thesis by simp
qed (auto simp: build_sequence_for_best_of_def tokens_of_alternating)

text \<open>A generated bracket veto settles exactly the maps the series plays, never names more items
  than the pool holds, and gives both sides the same number of picks; a slot veto settles exactly
  one map per slot and spends exactly the candidates of every slot. Every generated token is one
  the step conversion accepts, so resolving a generated phase never fails on it.\<close>

theorem generated_sequences_play_the_series:
  "length (filter settling (build_sequence_for_best_of best_of pool)) =
      (if pool < 1 then 0 else nat (min (max best_of 1) pool)) \<and>
   int (length (build_sequence_for_best_of best_of pool)) \<le> max 0 pool \<and>
   tokens_of ''pick_first'' (build_sequence_for_best_of best_of pool) =
      tokens_of ''pick_second'' (build_sequence_for_best_of best_of pool) \<and>
   length (filter settling (build_slot_sequence counts rotation)) = length counts \<and>
   int (length (build_slot_sequence counts rotation)) = sum_list (map (max 1) counts) \<and>
   (\<exists>ss. steps_from_v1_tokens ''map'' (build_sequence_for_best_of best_of pool) = Inr ss \<and>
      length ss = length (build_sequence_for_best_of best_of pool)) \<and>
   (\<exists>ss. steps_from_v1_tokens ''map'' (build_slot_sequence counts rotation) = Inr ss \<and>
      length ss = length (build_slot_sequence counts rotation))"
  using bracket_settles bracket_length bracket_fair slot_settles slot_length
    v1_steps_from_ok [OF bracket_tokens, of "''map''" 0] v1_steps_from_ok [OF slot_sequence_tokens, of "''map''" 0]
  by (simp add: steps_from_v1_tokens_def)

section \<open>Resolution step by step\<close>

definition kept_steps :: "string \<Rightarrow> step list \<Rightarrow> step list" where
  "kept_steps kind ss = filter (\<lambda>s. st_action s = Decider \<longrightarrow> kind = ''map'') ss"

lemma resolve_steps_from:
  assumes "\<And>s. s \<in> set (kept_steps kind ss) \<Longrightarrow> ra s = Inr (f s)"
  shows "resolve_steps ra mk kind (i + int n) ss =
    Inr (map (\<lambda>(k, s). mk (i + int k) s (f s)) (enumerate n (kept_steps kind ss)))"
  using assms
proof (induction ss arbitrary: n)
  case (Cons s ss)
  have "ra s' = Inr (f s')" if "s' \<in> set (kept_steps kind ss)" for s'
    using that Cons.prems [of s'] by (auto simp: kept_steps_def split: if_splits)
  then have IH: "resolve_steps ra mk kind (i + int n) ss =
      Inr (map (\<lambda>(k, s). mk (i + int k) s (f s)) (enumerate n (kept_steps kind ss)))" for n
    by (rule Cons.IH)
  have [simp]: "i + int n + 1 = i + int (Suc n)" by simp
  show ?case
  proof (cases "st_action s = Decider \<and> kind \<noteq> ''map''")
    case True
    then show ?thesis using IH [of n] by (simp add: kept_steps_def)
  next
    case False
    then have "kept_steps kind (s # ss) = s # kept_steps kind ss" "ra s = Inr (f s)"
      using Cons.prems [of s] by (auto simp: kept_steps_def)
    then show ?thesis using IH [of "Suc n"] False by (auto simp: add.assoc [symmetric] simp del: of_nat_Suc)
  qed
qed (simp add: kept_steps_def)

lemma resolve_steps_ok:
  assumes "\<And>s. s \<in> set (kept_steps kind ss) \<Longrightarrow> ra s = Inr (f s)"
  shows "resolve_steps ra mk kind i ss =
    Inr (map (\<lambda>(k, s). mk (i + int k) s (f s)) (enumerate 0 (kept_steps kind ss)))"
  using resolve_steps_from [OF assms, where n = 0 and i = i] by simp

lemma bind_from_frame:
  "map (\<lambda>s. s\<lparr>member_seats := []\<rparr>) (bind_from M named ss) = map (\<lambda>s. s\<lparr>member_seats := []\<rparr>) ss"
  by (induction M named ss rule: bind_from.induct) (auto split: option.splits prod.splits)

lemma bind_members_frame:
  assumes "\<And>s. f (s\<lparr>member_seats := []\<rparr>) = f s"
  shows "map f (bind_members ss M) = map f ss"
proof -
  have "map f xs = map f (map (\<lambda>s. s\<lparr>member_seats := []\<rparr>) xs)" for xs
    by (simp add: o_def assms)
  then show ?thesis by (metis bind_from_frame bind_members_def)
qed

lemma length_bind_members [simp]: "length (bind_members ss M) = length ss"
  using bind_members_frame [of "\<lambda>_. ()" ss M] by (metis length_map)

lemma bind_from_teams: "\<forall>s \<in> set ss. member s = None \<Longrightarrow> bind_from M named ss = ss"
  by (induction ss) auto

lemma bind_members_teams: "\<forall>s \<in> set ss. member s = None \<Longrightarrow> bind_members ss M = ss"
  by (simp add: bind_members_def bind_from_teams)

text \<open>Which of the actors a token names, for the tokens that do not depend on the past.\<close>

definition opening_seat :: "int \<Rightarrow> int list \<Rightarrow> int" where
  "opening_seat opener seats = rotate_to opener seats ! 0"

definition answering_seat :: "int \<Rightarrow> int list \<Rightarrow> int" where
  "answering_seat opener seats =
    (if length (rotate_to opener seats) > 1 then rotate_to opener seats ! 1 else rotate_to opener seats ! 0)"

lemma resolve_actors_fixed:
  assumes "seats \<noteq> []"
  shows "resolve_actors ''first'' seats opener pw sides = Inr [Some (opening_seat opener seats)]"
    and "resolve_actors ''second'' seats opener pw sides = Inr [Some (answering_seat opener seats)]"
    and "resolve_actors ''both'' seats opener pw sides = Inr (map Some (rotate_to opener seats))"
    and "resolve_actors ''system'' seats opener pw sides = Inr [None]"
  using assms by (simp_all add: resolve_actors_def Let_def opening_seat_def answering_seat_def)

lemma index_of_less: "x \<in> set xs \<Longrightarrow> index_of x xs < length xs \<and> xs ! index_of x xs = x"
proof (induction xs)
  case (Cons y xs)
  then show ?case by (auto simp: index_of_def)
qed simp

lemma mset_rotate_to [simp]: "mset (rotate_to opener seats) = mset seats"
proof -
  have "mset (drop k seats @ take k seats) = mset seats" for k
    by (metis append_take_drop_id mset_append union_commute)
  then show ?thesis by (simp add: rotate_to_def)
qed

lemma set_rotate_to [simp]: "set (rotate_to opener seats) = set seats"
  by (metis mset_rotate_to set_mset_mset)

lemma length_rotate_to [simp]: "length (rotate_to opener seats) = length seats"
  by (metis mset_rotate_to size_mset)

lemma distinct_rotate_to [simp]: "distinct (rotate_to opener seats) = distinct seats"
  by (metis mset_eq_imp_distinct_iff mset_rotate_to)

lemma opening_seat_in: "seats \<noteq> [] \<Longrightarrow> opening_seat opener seats \<in> set seats"
  by (metis length_0_conv length_greater_0_conv length_rotate_to nth_mem opening_seat_def set_rotate_to)

lemma answering_seat_in: "seats \<noteq> [] \<Longrightarrow> answering_seat opener seats \<in> set seats"
  unfolding answering_seat_def
  by (metis length_0_conv length_greater_0_conv length_rotate_to nth_mem set_rotate_to)

section \<open>The conversion keeps the sequence\<close>

definition v1_actors :: "string \<Rightarrow> int \<Rightarrow> int list \<Rightarrow> int option list" where
  "v1_actors t opener seats =
    (if t = ''decider'' then [None]
     else if snd (rpartition t) = ''first'' then [Some (opening_seat opener seats)]
     else [Some (answering_seat opener seats)])"

definition v1_action :: "string \<Rightarrow> step_action" where
  "v1_action t = (if t = ''decider'' then Decider else the (map_of V1_ACTIONS (fst (rpartition t))))"

definition v1_kept :: "string \<Rightarrow> string list \<Rightarrow> string list" where
  "v1_kept kind ts = filter (\<lambda>t. t = ''decider'' \<longrightarrow> kind = ''map'') ts"

text \<open>What a converted step says, whatever the conversion adds to its conditions.\<close>

definition step_says :: "step \<Rightarrow> step_action \<times> string \<times> int \<times> int option \<times> member_mode option" where
  "step_says s = (st_action s, st_actors s, st_count s, st_min s, st_member s)"

definition token_says :: "string \<Rightarrow> step_action \<times> string \<times> int \<times> int option \<times> member_mode option" where
  "token_says t = (v1_action t, (if t = ''decider'' then ''system'' else snd (rpartition t)), 1, None, None)"

lemma v1_decider_says: "step_says (v1_step i Decider ''system'') = token_says ''decider''"
  by (simp add: step_says_def token_says_def v1_step_def v1_action_def)

lemma v1_step_says: "t \<noteq> ''decider'' \<Longrightarrow> rpartition t = (a, act) \<Longrightarrow> map_of V1_ACTIONS a = Some b \<Longrightarrow>
    step_says (v1_step i b act) = token_says t"
  by (simp add: step_says_def token_says_def v1_step_def v1_action_def)

lemma v1_steps_says:
  assumes "list_all v1_token ts"
  shows "\<exists>ss. v1_steps_from kind i ts = Inr ss \<and>
     map step_says ss = map token_says (filter (\<lambda>t. kind \<noteq> ''hero'' \<or> t \<noteq> ''decider'') ts)"
  using assms
proof (induction ts arbitrary: i)
  case (Cons t ts)
  then obtain ss where ss: "v1_steps_from kind (Suc i) ts = Inr ss"
    "map step_says ss = map token_says (filter (\<lambda>t. kind \<noteq> ''hero'' \<or> t \<noteq> ''decider'') ts)" by fastforce
  show ?case
  proof (cases "t = ''decider''")
    case True
    then show ?thesis using ss by (auto simp: v1_decider_says)
  next
    case False
    then obtain a act b where "rpartition t = (a, act)" "map_of V1_ACTIONS a = Some b" "act \<in> {''first'', ''second''}"
      using token_parses [of t] Cons.prems by fastforce
    then show ?thesis using False ss by (auto simp: v1_step_says)
  qed
qed simp

lemma step_says_hooks [simp]: "step_says (v1_unique attr (v1_same_side scope s)) = step_says s"
  by (simp add: step_says_def v1_unique_def v1_same_side_def)

lemma v1_actors_resolve:
  assumes "seats \<noteq> []" and "v1_token t" and "step_says s = token_says t"
  shows "resolved_actors s seats opener pw sides = Inr (v1_actors t opener seats, None)"
proof (cases "t = ''decider''")
  case True
  then show ?thesis using assms by (auto simp: step_says_def token_says_def resolved_actors_def v1_actors_def resolve_actors_fixed)
next
  case False
  then obtain a act b where "rpartition t = (a, act)" "map_of V1_ACTIONS a = Some b" "act \<in> {''first'', ''second''}"
    using token_parses [of t] assms(2) by fastforce
  then show ?thesis using assms False
    by (auto simp: step_says_def token_says_def resolved_actors_def v1_actors_def resolve_actors_fixed)
qed

lemma enumerate_snd_in: "(k, x) \<in> set (enumerate n xs) \<Longrightarrow> x \<in> set xs"
  by (auto simp: in_set_enumerate_eq)

lemma map_enumerate_snd: "map (\<lambda>(k, x). f x) (enumerate n xs) = map f xs"
  by (induction xs arbitrary: n) auto

lemma map_enumerate_fst: "map (\<lambda>p. i + int (fst p)) (enumerate n xs) = map (\<lambda>k. i + int k) [n..<n + length xs]"
  by (induction xs arbitrary: n) (auto simp: upt_conv_Cons simp del: upt_Suc)

lemma resolve_step_reads [simp]:
  "index (resolve_step r p rnd i s at) = i" "action (resolve_step r p rnd i s at) = st_action s"
  "actors (resolve_step r p rnd i s at) = fst at" "actors_token (resolve_step r p rnd i s at) = snd at"
  "rs_round (resolve_step r p rnd i s at) = rnd" "member (resolve_step r p rnd i s at) = st_member s"
  "member_seats (resolve_step r p rnd i s at) = []"
  "cnt (resolve_step r p rnd i s at) = (if st_action s \<in> {Decider, Side_Pick} then 1 else st_count s)"
  "eligible (resolve_step r p rnd i s at) = st_eligible s" "blind (resolve_step r p rnd i s at) = st_blind s"
  by (simp_all add: resolve_step_def Let_def)

lemma resolve_step_min: "min_items (resolve_step r p rnd i s at) \<le> cnt (resolve_step r p rnd i s at)"
  by (simp add: resolve_step_def Let_def split: option.splits)

lemma resolve_step_min_default:
  "st_min s = None \<Longrightarrow> min_items (resolve_step r p rnd i s at) = cnt (resolve_step r p rnd i s at)"
  by (simp add: resolve_step_def Let_def)

text \<open>\<open>resolve_round\<close> once the phase and its steps are known and every actor resolves.\<close>

lemma resolve_round_ok:
  assumes "select_phase r (round_ctx_of a) = Inr (Some p)"
    and "phase_steps p (ra_kind a) (rc_best_of (round_ctx_of a)) (ra_pool_size a) (ra_candidate_count a) = Inr ss"
    and "\<And>s. s \<in> set (kept_steps (ra_kind a) ss) \<Longrightarrow>
      resolved_actors s (ra_participants a) (ra_opener a) (ra_prev_winner a) (ra_sides a) = Inr (f s)"
  shows "resolve_round r a = Inr (bind_members
    (map (\<lambda>(k, s). resolve_step r p (ra_round a) (ra_start_index a + int k) s (f s))
      (enumerate 0 (kept_steps (ra_kind a) ss))) (ra_members a))"
  by (simp add: resolve_round_def assms(1,2) resolve_steps_ok [OF assms(3)])

lemma list_all2_map_filter:
  assumes "map g xs = map h ys" and "\<And>x y. x \<in> set xs \<Longrightarrow> y \<in> set ys \<Longrightarrow> g x = h y \<Longrightarrow> P x = Q y"
  shows "map g (filter P xs) = map h (filter Q ys)"
  using assms
proof (induction xs arbitrary: ys)
  case (Cons x xs)
  then obtain y ys' where ys: "ys = y # ys'" by (cases ys) auto
  then have "P x = Q y" "map g (filter P xs) = map h (filter Q ys')" using Cons by auto
  then show ?case using Cons.prems(1) ys by simp
qed simp

lemma map_transfer:
  assumes "map g xs = map h ys" and "\<And>x y. x \<in> set xs \<Longrightarrow> y \<in> set ys \<Longrightarrow> g x = h y \<Longrightarrow> g' x = h' y"
  shows "map g' xs = map h' ys"
  using assms
proof (induction xs arbitrary: ys)
  case (Cons x xs)
  then obtain y ys' where "ys = y # ys'" by (cases ys) auto
  then show ?case using Cons by auto
qed simp

text \<open>Converting a hand-written version 1 sequence and resolving the round against a card gives
  back the sequence: the same actions by the same seats in the same order, one item each, indices
  without a gap, the decider kept exactly for maps. Neither the conversion nor the resolution can
  fail on tokens of the version 1 vocabulary.\<close>

theorem v1_conversion_keeps_the_sequence:
  assumes tokens: "list_all v1_token tokens" and "v1_generator (ra_kind a) mode preset = None"
    and seats: "ra_participants a \<noteq> []"
  shows "\<exists>r steps. ruleset_from_v1 (ra_kind a) mode preset tokens scope attr timer = Inr r \<and>
    resolve_round r a = Inr steps \<and>
    map (\<lambda>s. (action s, actors s, cnt s, min_items s)) steps =
      map (\<lambda>t. (v1_action t, v1_actors t (ra_opener a) (ra_participants a), 1, 1)) (v1_kept (ra_kind a) tokens) \<and>
    map index steps = map (\<lambda>k. ra_start_index a + int k) [0..<length (v1_kept (ra_kind a) tokens)]"
proof -
  let ?kind = "ra_kind a"
  obtain ss0 where ss0: "steps_from_v1_tokens ?kind tokens = Inr ss0"
    and says0: "map step_says ss0 = map token_says (filter (\<lambda>t. ?kind \<noteq> ''hero'' \<or> t \<noteq> ''decider'') tokens)"
    using v1_steps_says [OF tokens, of ?kind 0] by (auto simp: steps_from_v1_tokens_def)
  define ss where "ss = map (v1_unique attr \<circ> v1_same_side scope) ss0"
  have "map step_says (kept_steps ?kind ss) =
      map token_says (filter (\<lambda>t. t = ''decider'' \<longrightarrow> ?kind = ''map'')
        (filter (\<lambda>t. ?kind \<noteq> ''hero'' \<or> t \<noteq> ''decider'') tokens))"
    unfolding kept_steps_def
  proof (rule list_all2_map_filter)
    show "map step_says ss = map token_says (filter (\<lambda>t. ?kind \<noteq> ''hero'' \<or> t \<noteq> ''decider'') tokens)"
      using says0 by (simp add: ss_def o_def)
    fix s t assume t: "t \<in> set (filter (\<lambda>t. ?kind \<noteq> ''hero'' \<or> t \<noteq> ''decider'') tokens)" and "step_says s = token_says t"
    then have "st_action s = v1_action t" by (simp add: step_says_def token_says_def)
    moreover have "v1_action t = Decider \<longleftrightarrow> t = ''decider''"
      using t tokens token_parses [of t] by (auto simp: v1_action_def list_all_iff V1_ACTIONS_def split: if_splits)
    ultimately show "(st_action s = Decider \<longrightarrow> ?kind = ''map'') = (t = ''decider'' \<longrightarrow> ?kind = ''map'')" by simp
  qed
  also have "filter (\<lambda>t. t = ''decider'' \<longrightarrow> ?kind = ''map'') (filter (\<lambda>t. ?kind \<noteq> ''hero'' \<or> t \<noteq> ''decider'') tokens) =
      v1_kept ?kind tokens"
    by (auto simp: v1_kept_def intro: filter_cong)
  finally have says: "map step_says (kept_steps ?kind ss) = map token_says (v1_kept ?kind tokens)" .
  define f where "f s = (case resolved_actors s (ra_participants a) (ra_opener a) (ra_prev_winner a) (ra_sides a) of
      Inr at \<Rightarrow> at | Inl e \<Rightarrow> ([], None))" for s
  have read: "st_action s = v1_action t \<and> st_count s = 1 \<and> st_min s = None \<and> st_member s = None \<and>
      resolved_actors s (ra_participants a) (ra_opener a) (ra_prev_winner a) (ra_sides a) = Inr (f s) \<and>
      f s = (v1_actors t (ra_opener a) (ra_participants a), None)"
    if "t \<in> set (v1_kept ?kind tokens)" "step_says s = token_says t" for s t
    using that tokens v1_actors_resolve [OF seats, of t s] by (auto simp: f_def step_says_def token_says_def v1_kept_def list_all_iff)
  have found: "\<exists>t \<in> set (v1_kept ?kind tokens). step_says s = token_says t" if "s \<in> set (kept_steps ?kind ss)" for s
    using that says by (metis imageE image_eqI set_map)
  have plain: "st_count s = 1 \<and> st_min s = None \<and> st_member s = None" if "s \<in> set (kept_steps ?kind ss)" for s
    using found [OF that] read by blast
  define r where "r = \<lparr>rs_timer = timer, rs_on_timeout = Random_Fill, rs_phases =
      [\<lparr>ph_id = ''main'', ph_name = None, ph_when = [],
        ph_pool_filter = (if scope = Some ''encounter'' then never_banned ''any'' else []),
        ph_generator = None, ph_steps = ss\<rparr>]\<rparr>"
  have conv: "ruleset_from_v1 ?kind mode preset tokens scope attr timer = Inr r"
    by (simp add: ruleset_from_v1_def assms(2) ss0 r_def ss_def)
  define steps where "steps = map (\<lambda>(k, s). resolve_step r (hd (rs_phases r)) (ra_round a) (ra_start_index a + int k) s (f s))
      (enumerate 0 (kept_steps ?kind ss))"
  have phase: "select_phase r (round_ctx_of a) = Inr (Some (hd (rs_phases r)))"
    by (simp add: select_phase_def phase_matches_def r_def)
  have gen: "phase_steps (hd (rs_phases r)) ?kind (rc_best_of (round_ctx_of a)) (ra_pool_size a) (ra_candidate_count a) = Inr ss"
    by (simp add: phase_steps_def r_def)
  have "resolved_actors s (ra_participants a) (ra_opener a) (ra_prev_winner a) (ra_sides a) = Inr (f s)"
    if "s \<in> set (kept_steps ?kind ss)" for s
    using found [OF that] read by blast
  then have round: "resolve_round r a = Inr (bind_members steps (ra_members a))"
    unfolding steps_def by (rule resolve_round_ok [OF phase gen])
  have "\<forall>s \<in> set steps. member s = None"
    using plain by (auto simp: steps_def dest: enumerate_snd_in)
  then have resolved: "resolve_round r a = Inr steps" using round by (simp add: bind_members_teams)
  have "map (\<lambda>s. (action s, actors s, cnt s, min_items s)) steps =
      map (\<lambda>s. (st_action s, fst (f s), 1, 1)) (kept_steps ?kind ss)"
    unfolding steps_def map_map
    by (rule trans [OF _ map_enumerate_snd], rule map_cong)
       (use plain in \<open>auto simp: resolve_step_min_default dest: enumerate_snd_in\<close>)
  also have "\<dots> = map (\<lambda>t. (v1_action t, v1_actors t (ra_opener a) (ra_participants a), 1, 1)) (v1_kept ?kind tokens)"
    by (rule map_transfer [OF says]) (use read in auto)
  finally have contents: "map (\<lambda>s. (action s, actors s, cnt s, min_items s)) steps =
    map (\<lambda>t. (v1_action t, v1_actors t (ra_opener a) (ra_participants a), 1, 1)) (v1_kept ?kind tokens)" .
  have "map index steps = map (\<lambda>k. ra_start_index a + int k) [0..<length (v1_kept ?kind tokens)]"
    using map_enumerate_fst [of "ra_start_index a" 0 "kept_steps ?kind ss"] arg_cong [OF says, of length]
    by (simp add: steps_def o_def case_prod_beta)
  then show ?thesis using conv resolved contents by blast
qed

definition sample_round :: "string \<Rightarrow> round_args" where
  "sample_round kind = \<lparr>ra_kind = kind, ra_round = Some 2, ra_start_index = 4, ra_participants = [11, 22], ra_opener = 22,
     ra_prev_winner = Some 11, ra_sides = [], ra_best_of = 3, ra_pool_size = 5, ra_candidate_count = 0,
     ra_members = [(11, [101, 102]), (22, [201, 202])]\<rparr>"

theorem v1_conversion_keeps_the_sequence_witness:
  "\<exists>r steps. ruleset_from_v1 ''map'' ''pool'' (Some ''custom'')
      [''ban_first'', ''ban_second'', ''pick_second'', ''decider''] (Some ''encounter'') None (Some 30) = Inr r \<and>
    resolve_round r (sample_round ''map'') = Inr steps \<and>
    map (\<lambda>s. (action s, actors s, cnt s, min_items s)) steps =
      [(Ban, [Some 22], 1, 1), (Ban, [Some 11], 1, 1), (Pick, [Some 11], 1, 1), (Decider, [None], 1, 1)] \<and>
    map index steps = [4, 5, 6, 7]"
  using v1_conversion_keeps_the_sequence [of "[''ban_first'', ''ban_second'', ''pick_second'', ''decider'']"
      "sample_round ''map''" "''pool''" "Some ''custom''" "Some ''encounter''" None "Some 30"]
  by (simp add: v1_token_def v1_tokens_def v1_generator_def sample_round_def v1_kept_def v1_action_def v1_actors_def
      rpartition_def V1_ACTIONS_def opening_seat_def answering_seat_def rotate_to_def index_of_def upt_rec)

end
