(* ===== verification/Pickban_Members.thy ===== *)
theory Pickban_Members
  imports Pickban_Rules
begin

text \<open>
  Who answers a member step: lemmas on \<open>bind_members\<close>, \<open>free_pick_choices\<close> and
  \<open>rebind_free_pick\<close> of \<open>compile.py\<close>. When every actor of a round is known the binding names no
  member twice and leaves nobody out while a step is free; a free-order pick made for another
  member keeps that. The last section shows the two ways a document the checker accepts breaks it:
  a step bound late to a side, and a \<open>next\<close> step behind an \<open>any\<close> step.
\<close>

section \<open>Binding in one pass\<close>

definition named_list :: "resolved_step \<Rightarrow> (int option \<times> int \<times> int) list" where
  "named_list s = (if member s \<in> {Some Next_Member, Some Any_Member}
     then map (\<lambda>(a, m). (rs_round s, a, m)) (member_seats s) else [])"

lemma names_of_list: "names_of s = set (named_list s)"
  by (simp add: names_of_def named_list_def)

definition all_named :: "resolved_step list \<Rightarrow> (int option \<times> int \<times> int) list" where
  "all_named steps = concat (map named_list steps)"

lemma all_named_simps [simp]:
  "all_named [] = []" "all_named (s # ss) = named_list s @ all_named ss"
  "all_named (ss @ ts) = all_named ss @ all_named ts"
  by (simp_all add: all_named_def)

lemma first_left_Some: "first_left rnd a roster named = Some m \<Longrightarrow> m \<in> set roster \<and> (rnd, a, m) \<notin> named"
  unfolding first_left_def by (metis (mono_tags, lifting) find_SomeD)

lemma first_left_None: "first_left rnd a roster named = None \<longleftrightarrow> (\<forall>m \<in> set roster. (rnd, a, m) \<in> named)"
  by (auto simp: first_left_def find_None_iff)

lemma seat_actors_each: "seat_actors Each_Member rnd M as named =
    (concat (map (\<lambda>a. map (Pair a) (dict_get M a [])) as), named)"
  by (induction as arbitrary: named) auto

lemma seat_actors_next:
  assumes "seat_actors mode rnd M as named = (seats, named')" and "mode \<noteq> Each_Member"
  shows "named' = named \<union> (\<lambda>(a, m). (rnd, a, m)) ` set seats \<and>
    distinct (map (\<lambda>(a, m). (rnd, a, m)) seats) \<and>
    named \<inter> (\<lambda>(a, m). (rnd, a, m)) ` set seats = {} \<and>
    (\<forall>(a, m) \<in> set seats. a \<in> set as \<and> m \<in> set (dict_get M a [])) \<and>
    (\<forall>a \<in> set as. a \<notin> fst ` set seats \<longrightarrow> (\<forall>m \<in> set (dict_get M a []). (rnd, a, m) \<in> named))"
  using assms
proof (induction as arbitrary: named seats named')
  case (Cons a as)
  show ?case
  proof (cases "first_left rnd a (dict_get M a []) named")
    case None
    then have "seat_actors mode rnd M as named = (seats, named')" using Cons.prems by simp
    from Cons.IH [OF this Cons.prems(2)] show ?thesis using None by (auto simp: first_left_None)
  next
    case (Some m)
    obtain seats1 where rec: "seat_actors mode rnd M as (insert (rnd, a, m) named) = (seats1, named')"
      and seats: "seats = (a, m) # seats1"
      using Cons.prems Some by (auto split: prod.splits)
    have m: "m \<in> set (dict_get M a [])" "(rnd, a, m) \<notin> named" using first_left_Some [OF Some] by simp_all
    have ih: "named' = insert (rnd, a, m) named \<union> (\<lambda>(a, m). (rnd, a, m)) ` set seats1"
      "distinct (map (\<lambda>(a, m). (rnd, a, m)) seats1)"
      "insert (rnd, a, m) named \<inter> (\<lambda>(a, m). (rnd, a, m)) ` set seats1 = {}"
      "\<forall>(b, k) \<in> set seats1. b \<in> set as \<and> k \<in> set (dict_get M b [])"
      "\<forall>b \<in> set as. b \<notin> fst ` set seats1 \<longrightarrow> (\<forall>k \<in> set (dict_get M b []). (rnd, b, k) \<in> insert (rnd, a, m) named)"
      using Cons.IH [OF rec Cons.prems(2)] by blast+
    have "named' = named \<union> (\<lambda>(a, m). (rnd, a, m)) ` set seats" using ih(1) by (auto simp: seats)
    moreover have "distinct (map (\<lambda>(a, m). (rnd, a, m)) seats)" using ih(2,3) by (auto simp: seats)
    moreover have "named \<inter> (\<lambda>(a, m). (rnd, a, m)) ` set seats = {}" using ih(3) m by (auto simp: seats)
    moreover have "\<forall>(b, k) \<in> set seats. b \<in> set (a # as) \<and> k \<in> set (dict_get M b [])" using ih(4) m by (auto simp: seats)
    moreover have "\<forall>b \<in> set (a # as). b \<notin> fst ` set seats \<longrightarrow> (\<forall>k \<in> set (dict_get M b []). (rnd, b, k) \<in> named)"
      using ih(5) by (auto simp: seats)
    ultimately show ?thesis by blast
  qed
qed simp

definition unseated :: "resolved_step \<Rightarrow> bool" where
  "unseated s \<longleftrightarrow> member_seats s = [] \<and> \<not> is_unbound s"

text \<open>What binding does to the first step of the rest, given the members already named.\<close>

definition seated :: "(int, int list) dict \<Rightarrow> named \<Rightarrow> resolved_step \<Rightarrow> resolved_step" where
  "seated M named s = (case member s of
     None \<Rightarrow> s
   | Some mode \<Rightarrow> if member_seats s \<noteq> [] \<or> is_unbound s then s
       else s\<lparr>member_seats := fst (seat_actors mode (rs_round s) M (acting_actors s) named)\<rparr>)"

lemma seated_fields [simp]:
  "member (seated M named s) = member s" "rs_round (seated M named s) = rs_round s"
  "actors (seated M named s) = actors s" "actors_token (seated M named s) = actors_token s"
  "acting_actors (seated M named s) = acting_actors s" "is_unbound (seated M named s) = is_unbound s"
  by (auto simp: seated_def acting_actors_def is_unbound_def split: option.splits)

lemma bind_from_Cons:
  "bind_from M named (s # ss) = seated M named s # bind_from M (named \<union> set (named_list (seated M named s))) ss"
proof (cases "member s")
  case None
  then show ?thesis by (simp add: seated_def named_list_def)
next
  case (Some mode)
  show ?thesis
  proof (cases "member_seats s \<noteq> [] \<or> is_unbound s")
    case True
    then show ?thesis using Some by (simp add: seated_def names_of_list)
  next
    case False
    obtain seats named' where st: "seat_actors mode (rs_round s) M (acting_actors s) named = (seats, named')"
      by (metis prod.collapse)
    have "named' = named \<union> set (named_list (s\<lparr>member_seats := seats\<rparr>))"
    proof (cases mode)
      case Each_Member
      then show ?thesis using st Some by (simp add: seat_actors_each named_list_def)
    qed (use seat_actors_next [OF st] Some in \<open>auto simp: named_list_def\<close>)
    then show ?thesis using Some False st by (simp add: seated_def)
  qed
qed

lemma seated_next:
  assumes "member s \<in> {Some Next_Member, Some Any_Member}" and "unseated s"
  shows "distinct (named_list (seated M named s)) \<and> named \<inter> set (named_list (seated M named s)) = {} \<and>
    (\<forall>(a, m) \<in> set (member_seats (seated M named s)). a \<in> set (acting_actors s) \<and> m \<in> set (dict_get M a [])) \<and>
    (\<forall>a \<in> set (acting_actors s). a \<notin> fst ` set (member_seats (seated M named s)) \<longrightarrow>
      (\<forall>m \<in> set (dict_get M a []). (rs_round s, a, m) \<in> named))"
proof -
  obtain mode where mode: "member s = Some mode" "mode \<noteq> Each_Member" using assms(1) by auto
  obtain seats named' where st: "seat_actors mode (rs_round s) M (acting_actors s) named = (seats, named')"
    by (metis prod.collapse)
  have "seated M named s = s\<lparr>member_seats := seats\<rparr>" using mode assms(2) st by (simp add: seated_def unseated_def)
  then show ?thesis using seat_actors_next [OF st mode(2)] assms(1) by (simp add: named_list_def)
qed

lemma bind_from_fresh:
  assumes "list_all unseated ss"
  shows "distinct (all_named (bind_from M named ss)) \<and> named \<inter> set (all_named (bind_from M named ss)) = {}"
  using assms
proof (induction ss arbitrary: named)
  case (Cons s ss)
  let ?t = "seated M named s"
  have "distinct (named_list ?t) \<and> named \<inter> set (named_list ?t) = {}"
  proof (cases "member s \<in> {Some Next_Member, Some Any_Member}")
    case True
    then show ?thesis using seated_next [OF True] Cons.prems by simp
  qed (simp add: named_list_def)
  then show ?case using Cons.IH [of "named \<union> set (named_list ?t)"] Cons.prems
    by (auto simp: bind_from_Cons simp del: bind_from.simps)
qed simp

text \<open>A free step of a team with nobody left to name: whoever is on the roster is named already.\<close>

lemma bind_from_left_out:
  assumes "list_all unseated ss" and "bind_from M named ss = pre @ t # post"
    and "member t \<in> {Some Next_Member, Some Any_Member}" and "a \<in> set (acting_actors t)"
    and "a \<notin> fst ` set (member_seats t)" and "m \<in> set (dict_get M a [])"
  shows "(rs_round t, a, m) \<in> named \<union> set (all_named pre)"
  using assms
proof (induction ss arbitrary: named pre)
  case (Cons s ss)
  let ?s = "seated M named s"
  show ?case
  proof (cases pre)
    case Nil
    then have t: "t = ?s" using Cons.prems(2) by (simp add: bind_from_Cons del: bind_from.simps)
    have "member s \<in> {Some Next_Member, Some Any_Member}" "unseated s" using Cons.prems t by simp_all
    from seated_next [OF this, of M named] show ?thesis using Cons.prems(4-6) t Nil by simp
  next
    case (Cons p pre')
    have "p = ?s" "bind_from M (named \<union> set (named_list ?s)) ss = pre' @ t # post"
      using Cons.prems(2) Cons by (auto simp: bind_from_Cons simp del: bind_from.simps)
    then show ?thesis using Cons.IH [of "named \<union> set (named_list ?s)" pre'] Cons.prems Cons by auto
  qed
qed simp

lemma bind_from_rosters:
  assumes "list_all unseated ss" and "t \<in> set (bind_from M named ss)" and "(a, m) \<in> set (member_seats t)"
  shows "a \<in> set (acting_actors t) \<and> m \<in> set (dict_get M a [])"
  using assms
proof (induction ss arbitrary: named)
  case (Cons s ss)
  let ?s = "seated M named s"
  show ?case
  proof (cases "t = ?s")
    case True
    have s: "unseated s" using Cons.prems by simp
    show ?thesis
    proof (cases "member s \<in> {Some Next_Member, Some Any_Member}")
      case True
      then show ?thesis using seated_next [OF True s, of M named] Cons.prems(3) \<open>t = ?s\<close> by auto
    next
      case False
      then have "member s = None \<or> member s = Some Each_Member" using member_mode.exhaust by (cases "member s") auto
      moreover have "acting_actors t = acting_actors s" using \<open>t = ?s\<close> by simp
      ultimately show ?thesis using s Cons.prems(3) \<open>t = ?s\<close>
        by (auto simp: seated_def unseated_def seat_actors_each)
    qed
  next
    case False
    then show ?thesis using Cons by (auto simp: bind_from_Cons simp del: bind_from.simps)
  qed
qed simp

text \<open>Binding twice is binding once.\<close>

lemma seated_idem: "seated M named (seated M named s) = seated M named s"
proof (cases "member s")
  case (Some mode)
  then show ?thesis by (auto simp: seated_def acting_actors_def is_unbound_def)
qed (simp add: seated_def)

lemma bind_from_idem: "bind_from M named (bind_from M named ss) = bind_from M named ss"
  by (induction ss arbitrary: named) (simp_all add: bind_from_Cons seated_idem del: bind_from.simps(2))

text \<open>When every actor of the round is known, binding names no member of a team on two steps that
  name one member each, names only members of the acting teams, leaves a team without a seat on
  such a step only when its whole roster is named on earlier ones, and binding again changes
  nothing.\<close>

theorem member_binding_is_fair:
  assumes "list_all unseated steps"
  shows "distinct (all_named (bind_members steps M)) \<and>
    (\<forall>t \<in> set (bind_members steps M). \<forall>(a, m) \<in> set (member_seats t).
       a \<in> set (acting_actors t) \<and> m \<in> set (dict_get M a [])) \<and>
    (\<forall>pre t post a. bind_members steps M = pre @ t # post \<longrightarrow> member t \<in> {Some Next_Member, Some Any_Member} \<longrightarrow>
       a \<in> set (acting_actors t) \<longrightarrow> a \<notin> fst ` set (member_seats t) \<longrightarrow>
       (\<forall>m \<in> set (dict_get M a []). (rs_round t, a, m) \<in> set (all_named pre))) \<and>
    bind_members (bind_members steps M) M = bind_members steps M"
  using bind_from_fresh [OF assms, of M "{}"] bind_from_rosters [OF assms, of _ M "{}"]
    bind_from_left_out [OF assms, of M "{}"] bind_from_idem [of M "{}" steps]
  by (auto simp: bind_members_def)

definition member_step :: "int \<Rightarrow> member_mode \<Rightarrow> int option list \<Rightarrow> string option \<Rightarrow> (int \<times> int) list \<Rightarrow> resolved_step" where
  "member_step i mode as token seats = \<lparr>index = i, rs_round = Some 1, phase_id = ''main'', step_id = CHR ''s'' # show_int i,
     action = Pick, actors = as, actors_token = token, cnt = 1, min_items = 1, blind = False, target = None,
     lifetime = None, timer_seconds = Some 30, on_timeout = Random_Fill, dispute = \<lparr>d_enabled = False, d_max = 0\<rparr>,
     eligible = [], constraints = [], member = Some mode, member_seats = seats, captains_only = False\<rparr>"

theorem member_binding_is_fair_witness:
  "distinct (all_named (bind_members [member_step 0 Next_Member [Some 1] None [], member_step 1 Any_Member [Some 1, Some 2] None [],
      member_step 2 Next_Member [Some 1] None []] [(1, [11, 12]), (2, [21])]))"
  using member_binding_is_fair [of "[member_step 0 Next_Member [Some 1] None [],
      member_step 1 Any_Member [Some 1, Some 2] None [], member_step 2 Next_Member [Some 1] None []]" "[(1, [11, 12]), (2, [21])]"]
  by (simp add: unseated_def is_unbound_def member_step_def)

section \<open>Free-order picks\<close>

definition names_for :: "int \<Rightarrow> int option \<Rightarrow> resolved_step list \<Rightarrow> int list" where
  "names_for actor rnd steps = concat (map (\<lambda>t.
     if rs_round t = rnd \<and> member t \<in> {Some Next_Member, Some Any_Member}
     then map snd (filter (\<lambda>(a, m). a = actor) (member_seats t)) else []) steps)"

lemma names_for_simps [simp]:
  "names_for actor rnd [] = []"
  "names_for actor rnd (ss @ ts) = names_for actor rnd ss @ names_for actor rnd ts"
  by (simp_all add: names_for_def)

lemma names_for_Cons: "names_for actor rnd (t # ts) = names_for actor rnd [t] @ names_for actor rnd ts"
  by (simp add: names_for_def)

text \<open>The steps a free pick hands members to: the team's \<open>any\<close> steps of the round.\<close>

definition hands_on :: "int \<Rightarrow> int option \<Rightarrow> resolved_step \<Rightarrow> bool" where
  "hands_on actor rnd t \<longleftrightarrow> rs_round t = rnd \<and> member t = Some Any_Member \<and> actor \<in> set (acting_actors t)"

definition seats_of_acting :: "resolved_step \<Rightarrow> bool" where
  "seats_of_acting t \<longleftrightarrow> fst ` set (member_seats t) \<subseteq> set (acting_actors t)"

definition other_seats :: "int \<Rightarrow> resolved_step \<Rightarrow> (int \<times> int) multiset" where
  "other_seats actor t = filter_mset (\<lambda>(a, m). a \<noteq> actor) (mset (member_seats t))"

lemma reseat_ok:
  assumes "seats_of_acting t" and "actor \<in> set (acting_actors t)"
  shows "\<exists>t'. reseat t actor mine = Inr t' \<and> other_seats actor t' = other_seats actor t \<and>
    index t' = index t \<and> t' = t\<lparr>member_seats := member_seats t'\<rparr> \<and>
    filter (\<lambda>(a, m). a = actor) (member_seats t') = (case mine of None \<Rightarrow> [] | Some m \<Rightarrow> [(actor, m)])"
proof -
  let ?seats = "filter (\<lambda>(a, m). a \<noteq> actor) (member_seats t) @ (case mine of None \<Rightarrow> [] | Some m \<Rightarrow> [(actor, m)])"
  have "list_all (\<lambda>(a, m). a \<in> set (acting_actors t)) ?seats"
    using assms by (cases mine) (force simp: list_all_iff seats_of_acting_def)+
  moreover have "filter (\<lambda>(a, m). a = actor) ?seats = (case mine of None \<Rightarrow> [] | Some m \<Rightarrow> [(actor, m)])"
    by (cases mine) (auto simp: filter_empty_conv)
  then have "filter (\<lambda>(a, m). a = actor) (sort_key k ?seats) = (case mine of None \<Rightarrow> [] | Some m \<Rightarrow> [(actor, m)])" for k :: "int \<times> int \<Rightarrow> nat"
    by (subst filter_sort) (cases mine; simp)
  moreover have "filter_mset (\<lambda>(a, m). a \<noteq> actor) (mset ?seats) = filter_mset (\<lambda>(a, m). a \<noteq> actor) (mset (member_seats t))"
    by (cases mine) (auto simp: filter_filter_mset)
  ultimately show ?thesis by (simp add: reseat_def other_seats_def del: mset_append)
qed

lemma reseat_names:
  assumes "filter (\<lambda>(a, m). a = actor) (member_seats t') = (case mine of None \<Rightarrow> [] | Some m \<Rightarrow> [(actor, m)])"
    and "t' = t\<lparr>member_seats := member_seats t'\<rparr>" and "hands_on actor rnd t"
  shows "names_for actor rnd [t'] = (case mine of None \<Rightarrow> [] | Some m \<Rightarrow> [m])"
proof -
  have "rs_round t' = rnd" "member t' = Some Any_Member" using assms(2,3) unfolding hands_on_def
    by (metis resolved_step.select_convs(2) resolved_step.surjective resolved_step.update_convs(19),
        metis resolved_step.select_convs(18) resolved_step.surjective resolved_step.update_convs(19))
  then show ?thesis using assms(1) by (auto simp: names_for_def split: option.splits)
qed

definition same_but_seats :: "int \<Rightarrow> resolved_step \<Rightarrow> resolved_step \<Rightarrow> bool" where
  "same_but_seats actor t t' \<longleftrightarrow> t' = t\<lparr>member_seats := member_seats t'\<rparr> \<and> other_seats actor t' = other_seats actor t"

lemma same_but_seats_refl [simp]: "same_but_seats actor t t"
  by (simp add: same_but_seats_def)

text \<open>Steps before the pick stay, the pick takes the chosen member, later ones the rest in order.\<close>

lemma rebind_before:
  "\<forall>t \<in> set ts. index t < index s \<Longrightarrow>
    rebind_steps s actor chosen rest (ts @ us) =
      (case rebind_steps s actor chosen rest us of Inl e \<Rightarrow> Inl e | Inr us' \<Rightarrow> Inr (ts @ us'))"
  by (induction ts) (auto split: sum.splits)

lemma rebind_after:
  assumes "\<forall>t \<in> set ts. index s < index t \<and> seats_of_acting t \<and>
      \<not> (rs_round t = rs_round s \<and> member t = Some Next_Member \<and> actor \<in> fst ` set (member_seats t))"
  shows "\<exists>ts'. rebind_steps s actor chosen rest ts = Inr ts' \<and>
    names_for actor (rs_round s) ts' = take (length (filter (hands_on actor (rs_round s)) ts)) rest \<and>
    list_all2 (same_but_seats actor) ts ts'"
  using assms
proof (induction ts arbitrary: rest)
  case (Cons t ts)
  have t: "index s < index t" "seats_of_acting t" using Cons.prems by auto
  have IH: "\<exists>ts'. rebind_steps s actor chosen rest ts = Inr ts' \<and>
      names_for actor (rs_round s) ts' = take (length (filter (hands_on actor (rs_round s)) ts)) rest \<and>
      list_all2 (same_but_seats actor) ts ts'" for rest
    by (rule Cons.IH) (use Cons.prems in simp)
  show ?case
  proof (cases "hands_on actor (rs_round s) t")
    case False
    have "\<not> (rs_round t = rs_round s \<and> member t \<in> {Some Next_Member, Some Any_Member} \<and> actor \<in> fst ` set (member_seats t))"
      using False Cons.prems t(2) unfolding hands_on_def seats_of_acting_def by auto
    then have "names_for actor (rs_round s) [t] = []"
      unfolding names_for_def by (force simp: filter_empty_conv)
    moreover obtain ts' where ts': "rebind_steps s actor chosen rest ts = Inr ts'"
      "names_for actor (rs_round s) ts' = take (length (filter (hands_on actor (rs_round s)) ts)) rest"
      "list_all2 (same_but_seats actor) ts ts'" using IH by blast
    moreover have "rebind_steps s actor chosen rest (t # ts) = Inr (t # ts')"
      using False ts' by (auto simp: hands_on_def)
    ultimately show ?thesis using False names_for_Cons [of actor "rs_round s" t ts']
      by (simp del: rebind_steps.simps)
  next
    case True
    define mine where "mine = (case rest of [] \<Rightarrow> None | m # ms \<Rightarrow> Some m)"
    define rest' where "rest' = (case rest of [] \<Rightarrow> [] | m # ms \<Rightarrow> ms)"
    obtain t' where t': "reseat t actor mine = Inr t'" "other_seats actor t' = other_seats actor t"
      "t' = t\<lparr>member_seats := member_seats t'\<rparr>"
      "filter (\<lambda>(a, m). a = actor) (member_seats t') = (case mine of None \<Rightarrow> [] | Some m \<Rightarrow> [(actor, m)])"
      using reseat_ok [OF t(2), of actor mine] True by (auto simp: hands_on_def)
    obtain ts' where ts': "rebind_steps s actor chosen rest' ts = Inr ts'"
      "names_for actor (rs_round s) ts' = take (length (filter (hands_on actor (rs_round s)) ts)) rest'"
      "list_all2 (same_but_seats actor) ts ts'" using IH by blast
    have "rebind_steps s actor chosen rest (t # ts) = Inr (t' # ts')"
      using True t(1) t'(1) ts'(1) by (cases rest) (auto simp: hands_on_def mine_def rest'_def)
    moreover have "names_for actor (rs_round s) (t' # ts') = take (length (filter (hands_on actor (rs_round s)) (t # ts))) rest"
      using reseat_names [OF t'(4,3) True] ts'(2) True names_for_Cons [of actor "rs_round s" t' ts']
      by (cases rest) (simp_all add: mine_def rest'_def)
    moreover have "same_but_seats actor t t'" using t'(2,3) by (simp add: same_but_seats_def)
    ultimately show ?thesis using ts'(3) by blast
  qed
qed simp

lemma choices_earlier:
  assumes "sorted_wrt (<) (map index (pre @ s # post))"
  shows "free_pick_choices (pre @ s # post) s actor M =
    (if member s \<noteq> Some Any_Member \<or> actor \<notin> fst ` set (member_seats s) then []
     else filter (\<lambda>m. m \<notin> set (names_for actor (rs_round s) pre)) (dict_get M actor []))"
proof -
  let ?P = "\<lambda>t. rs_round t = rs_round s \<and> index t < index s \<and> member t \<in> {Some Next_Member, Some Any_Member}"
  have pre: "filter ?P pre = filter (\<lambda>t. rs_round t = rs_round s \<and> member t \<in> {Some Next_Member, Some Any_Member}) pre"
    by (rule filter_cong) (use assms in \<open>auto simp: sorted_wrt_append\<close>)
  have post: "filter ?P (s # post) = []" using assms by (auto simp: sorted_wrt_append filter_empty_conv)
  have names: "concat (map (\<lambda>t. map snd (filter (\<lambda>(a, m). a = actor) (member_seats t)))
      (filter (\<lambda>t. rs_round t = rnd \<and> member t \<in> {Some Next_Member, Some Any_Member}) ts)) = names_for actor rnd ts" for rnd ts
    by (induction ts) (auto simp: names_for_def)
  show ?thesis
    unfolding free_pick_choices_def Let_def filter_append post pre append_Nil2 names
    by (auto simp: list_all_iff image_iff case_prod_beta)
qed

text \<open>A free-order pick made for one of its choices always goes through: the step then names that
  member, the team's later free-order steps of the round name the other choices in pick order, no
  member of the team is named twice in the round, and no other team's seats move.\<close>

theorem free_pick_keeps_members_apart:
  assumes sorted: "sorted_wrt (<) (map index (pre @ s # post))"
    and acting: "\<forall>t \<in> set (s # post). seats_of_acting t"
    and choice: "chosen \<in> set (free_pick_choices (pre @ s # post) s actor M)"
    and roster: "distinct (dict_get M actor [])"
    and earlier: "distinct (names_for actor (rs_round s) pre)"
    and later: "\<forall>t \<in> set post. rs_round t = rs_round s \<and> member t = Some Next_Member \<longrightarrow> actor \<notin> fst ` set (member_seats t)"
  shows "\<exists>s' post'. rebind_free_pick (pre @ s # post) s actor chosen M = Inr (pre @ s' # post') \<and>
    names_for actor (rs_round s) [s'] = [chosen] \<and>
    names_for actor (rs_round s) post' = take (length (filter (hands_on actor (rs_round s)) post))
      (filter (\<lambda>m. m \<noteq> chosen) (free_pick_choices (pre @ s # post) s actor M)) \<and>
    distinct (names_for actor (rs_round s) (pre @ s' # post')) \<and>
    list_all2 (same_but_seats actor) (s # post) (s' # post')"
proof -
  let ?choices = "free_pick_choices (pre @ s # post) s actor M"
  let ?rest = "filter (\<lambda>m. m \<noteq> chosen) ?choices"
  have any: "member s = Some Any_Member" and seat: "actor \<in> fst ` set (member_seats s)"
    and choices: "?choices = filter (\<lambda>m. m \<notin> set (names_for actor (rs_round s) pre)) (dict_get M actor [])"
    using choice unfolding choices_earlier [OF sorted] by (auto split: if_splits)
  have acts: "actor \<in> set (acting_actors s)" using acting seat by (auto simp: seats_of_acting_def)
  obtain s' where s': "reseat s actor (Some chosen) = Inr s'" "other_seats actor s' = other_seats actor s"
    "s' = s\<lparr>member_seats := member_seats s'\<rparr>" "filter (\<lambda>(a, m). a = actor) (member_seats s') = [(actor, chosen)]"
    using reseat_ok [of s actor "Some chosen"] acting acts by auto
  have hands: "hands_on actor (rs_round s) s" using any acts by (simp add: hands_on_def)
  obtain post' where post': "rebind_steps s actor chosen ?rest post = Inr post'"
    "names_for actor (rs_round s) post' = take (length (filter (hands_on actor (rs_round s)) post)) ?rest"
    "list_all2 (same_but_seats actor) post post'"
    using rebind_after [of post s actor chosen ?rest] acting later sorted by (auto simp: sorted_wrt_append)
  have "rebind_steps s actor chosen ?rest (s # post) = Inr (s' # post')"
    using any acts s'(1) post'(1) by simp
  then have "rebind_free_pick (pre @ s # post) s actor chosen M = Inr (pre @ s' # post')"
    using choice rebind_before [of pre s actor chosen ?rest "s # post"] sorted
    by (simp add: rebind_free_pick_def Let_def sorted_wrt_append)
  moreover have one: "names_for actor (rs_round s) [s'] = [chosen]"
    using reseat_names [of actor s' "Some chosen" s "rs_round s"] s'(3,4) hands by simp
  moreover have "distinct (names_for actor (rs_round s) (pre @ s' # post'))"
  proof -
    have "set (take n ?rest) \<subseteq> set ?rest" for n by (rule set_take_subset)
    then have "distinct (take n ?rest)" "chosen \<notin> set (take n ?rest)"
      "set (take n ?rest) \<inter> set (names_for actor (rs_round s) pre) = {}" for n
      using roster unfolding choices by (auto dest: in_set_takeD)
    moreover have "chosen \<notin> set (names_for actor (rs_round s) pre)" using choice choices by simp
    ultimately show ?thesis
      using earlier one post'(2) names_for_Cons [of actor "rs_round s" s' post'] by auto
  qed
  moreover have "same_but_seats actor s s'" using s'(2,3) by (simp add: same_but_seats_def)
  ultimately show ?thesis using post'(2,3) by blast
qed

theorem free_pick_keeps_members_apart_witness:
  "\<exists>s' post'. rebind_free_pick [member_step 0 Next_Member [Some 1] None [(1, 11)], member_step 1 Any_Member [Some 1] None [(1, 12)],
      member_step 2 Any_Member [Some 1] None [(1, 13)]] (member_step 1 Any_Member [Some 1] None [(1, 12)]) 1 13 [(1, [11, 12, 13])] =
      Inr ([member_step 0 Next_Member [Some 1] None [(1, 11)]] @ s' # post') \<and>
    names_for 1 (Some 1) [s'] = [13] \<and> names_for 1 (Some 1) post' = [12]"
proof -
  let ?pre = "[member_step 0 Next_Member [Some 1] None [(1, 11)]]"
  let ?s = "member_step 1 Any_Member [Some 1] None [(1, 12)]"
  let ?post = "[member_step 2 Any_Member [Some 1] None [(1, 13)]]"
  have choices: "free_pick_choices (?pre @ ?s # ?post) ?s 1 [(1, [11, 12, 13])] = [12, 13]" by code_simp
  have *: "sorted_wrt (<) (map index (?pre @ ?s # ?post))" "\<forall>t \<in> set (?s # ?post). seats_of_acting t"
    "distinct (names_for 1 (rs_round ?s) ?pre)" "distinct (dict_get [(1, [11, 12, 13])] 1 [] :: int list)"
    "\<forall>t \<in> set ?post. rs_round t = rs_round ?s \<and> member t = Some Next_Member \<longrightarrow> 1 \<notin> fst ` set (member_seats t)"
    "hands_on 1 (Some 1) (hd ?post)" "rs_round ?s = Some 1"
    by (simp_all add: member_step_def seats_of_acting_def acting_actors_def names_for_def hands_on_def map_filter_simps)
  show ?thesis
    using free_pick_keeps_members_apart [OF *(1,2) _ *(4,3,5), of 13] unfolding choices using *(6,7) by simp blast
qed

section \<open>Two ways to name a member twice\<close>

text \<open>
  Both start from steps a round can open with. In the first a step waits on a side while a later
  one of the same team is bound: when the side is known the late step is bound as if the later one
  named nobody. In the second a free-order pick takes the member a later \<open>next\<close> step holds.
\<close>

theorem late_side_binding_names_twice:
  "let opened = bind_members [member_step 0 Next_Member [] (Some ''side:blue'') [], member_step 1 Next_Member [Some 1] None []]
         [(1, [11, 12])];
       bound = bind_members [(hd opened)\<lparr>actors := [Some 1]\<rparr>, opened ! 1] [(1, [11, 12])]
   in map member_seats opened = [[], [(1, 11)]] \<and> map member_seats bound = [[(1, 11)], [(1, 11)]]"
  by code_simp

theorem free_pick_takes_a_next_member:
  "let opened = bind_members [member_step 0 Any_Member [Some 1] None [], member_step 1 Next_Member [Some 1] None []]
         [(1, [11, 12])]
   in free_pick_choices opened (hd opened) 1 [(1, [11, 12])] = [11, 12] \<and>
      map member_seats opened = [[(1, 11)], [(1, 12)]] \<and>
      map_sum id (map member_seats) (rebind_free_pick opened (hd opened) 1 12 [(1, [11, 12])]) =
        Inr [[(1, 12)], [(1, 12)]]"
  by code_simp

end
