(* ===== verification/Pickban_Validation.thy ===== *)
theory Pickban_Validation
  imports Pickban_Rules
begin

text \<open>
  \<open>validate_ruleset\<close> of \<open>shared/domain/pick_ban_rules/validate.py\<close>: every rule on phases, steps,
  actor tokens, hero picks and constraints in the order of the code, and the coverage warnings,
  which run the rules. An issue keeps its path, code and severity; the English message is left out.
  The theorems show that the checker itself never raises, and that a ruleset it finds no error in
  can be played: no condition raises, and every round resolves to well-formed steps. The one hole,
  a trailing line break in an actor token, is shown at the end.
\<close>

section \<open>Limits and the discipline\<close>

definition MAX_COUNT :: int where "MAX_COUNT = 20"

definition MAX_DISPUTE :: int where "MAX_DISPUTE = 5"

definition MIN_TIMER_SECONDS :: int where "MIN_TIMER_SECONDS = 5"

definition PREVIEW_MAPS :: "int list" where "PREVIEW_MAPS = [1, 2, 3, 4, 5]"

text \<open>What the checker reads of a \<open>DisciplineSpec\<close>.\<close>

record discipline =
  ds_sides :: "string list"
  ds_character_classes :: "string list"
  ds_character_uniqueness :: string

record val_env =
  ve_kind :: string
  ve_mode :: string
  ve_spec :: discipline
  ve_slot_count :: int
  ve_groups :: "string list option"
  ve_owner :: string

definition known_groups :: "val_env \<Rightarrow> string list option" where
  "known_groups env =
    (case ve_groups env of
       None \<Rightarrow> if ve_kind env \<noteq> ''hero'' then None
         else Some (List.map_filter normalize_text (ds_character_classes (ve_spec env)))
     | Some gs \<Rightarrow> Some (List.map_filter normalize_text gs))"

definition id_char :: "char \<Rightarrow> bool" where
  "id_char c \<longleftrightarrow> is_digit c \<or> c \<in> {CHR ''_'', CHR ''-''} \<or> (97 \<le> (of_char c :: nat) \<and> (of_char c :: nat) \<le> 122)"

definition validate_id :: "string \<Rightarrow> string \<Rightarrow> issue list" where
  "validate_id v path =
    (if v = [] \<or> length v > 32 \<or> \<not> list_all id_char v then [err_issue path ''invalid_id''] else [])"

text \<open>One rule: an issue when its guard holds.\<close>

definition rule :: "bool \<Rightarrow> string \<Rightarrow> string \<Rightarrow> issue list" where
  "rule b path c = (if b then [err_issue path c] else [])"

lemma rule_Nil [simp]: "rule b p c = [] \<longleftrightarrow> \<not> b"
  by (simp add: rule_def)

definition indexed :: "string \<Rightarrow> nat \<Rightarrow> string" where
  "indexed s i = s @ CHR ''['' # show_nat i @ '']''"

section \<open>Phases\<close>

definition cond_env_of :: "val_env \<Rightarrow> string \<Rightarrow> bool \<Rightarrow> cond_env" where
  "cond_env_of env context has_target = \<lparr>ce_context = context, ce_kind = ve_kind env,
     ce_known_groups = known_groups env, ce_has_target = has_target\<rparr>"

definition decider_indices :: "step list \<Rightarrow> nat list" where
  "decider_indices ss = map fst (filter (\<lambda>(i, s). st_action s = Decider) (enumerate 0 ss))"

definition validate_phase :: "val_env \<Rightarrow> phase \<Rightarrow> string \<Rightarrow> issue list" where
  "validate_phase env p path =
    rule (case ph_name p of None \<Rightarrow> False | Some n \<Rightarrow> length n > 64) (path @ ''.name'') ''name_too_long'' @
    check_condition (cond_env_of env ''round'' False) (JObj (ph_when p)) (path @ ''.when'') @
    check_condition (cond_env_of env ''pool'' False) (JObj (ph_pool_filter p)) (path @ ''.pool_filter'') @
    (case ph_generator p of
       Some g \<Rightarrow>
         (if ve_kind env \<noteq> ''map'' then [err_issue (path @ ''.generator'') ''generator_map_only'']
          else if g = Bracket_Generator \<and> ve_mode env \<noteq> ''pool''
          then [err_issue (path @ ''.generator'') ''generator_requires_pool_mode'']
          else if g = Slot_Veto \<and> ve_mode env \<noteq> ''slots''
          then [err_issue (path @ ''.generator'') ''generator_requires_slots_mode'']
          else []) @
         rule (ph_steps p \<noteq> []) (path @ ''.steps'') ''generator_with_steps''
     | None \<Rightarrow>
         (if ph_steps p = [] then [err_issue (path @ ''.steps'') ''phase_without_steps'']
          else rule (ve_kind env = ''map'' \<and> \<not> list_ex (\<lambda>s. st_action s \<in> {Pick, Decider}) (ph_steps p))
            (path @ ''.steps'') ''map_phase_without_pick'') @
         (let ds = decider_indices (ph_steps p)
          in (if length ds > 1 then [err_issue (indexed (path @ ''.steps'') (ds ! 1)) ''decider_duplicate''] else []) @
             (if ds \<noteq> [] \<and> ds ! 0 \<noteq> length (ph_steps p) - 1
              then [err_issue (indexed (path @ ''.steps'') (ds ! 0)) ''decider_not_last''] else [])))"

section \<open>Steps\<close>

definition validate_constraint :: "val_env \<Rightarrow> step \<Rightarrow> string \<Rightarrow> rule_constraint \<Rightarrow> issue list" where
  "validate_constraint env s path c =
    (case map_of CONSTRAINTS (con_type c) of
       None \<Rightarrow> [err_issue (path @ ''.type'') ''unknown_constraint'']
     | Some spec \<Rightarrow>
         rule (c_requires_target spec \<and> st_target s = None) path ''constraint_requires_target'' @
         validate_params (known_groups env) (c_params spec) (con_params c) path)"

definition validate_step :: "val_env \<Rightarrow> step \<Rightarrow> string \<Rightarrow> issue list" where
  "validate_step env s path =
    (if st_action s = Decider then
       rule (ve_kind env \<noteq> ''map'') (path @ ''.action'') ''decider_map_only'' @
       rule (st_actors s \<noteq> ''system'') (path @ ''.actors'') ''decider_actors'' @
       rule (st_count s \<noteq> 1) (path @ ''.count'') ''decider_count''
     else []) @
    (if st_action s = Side_Pick then
       rule (st_count s \<noteq> 1) (path @ ''.count'') ''side_pick_count'' @
       rule (st_actors s = ''system'') (path @ ''.actors'') ''side_pick_actors'' @
       rule (st_blind s) (path @ ''.blind'') ''side_pick_blind'' @
       rule (st_target s \<noteq> None) (path @ ''.target'') ''side_pick_target''
     else []) @
    rule (\<not> (1 \<le> st_count s \<and> st_count s \<le> MAX_COUNT)) (path @ ''.count'') ''count_range'' @
    rule (case st_min s of None \<Rightarrow> False | Some m \<Rightarrow> \<not> (0 \<le> m \<and> m \<le> st_count s)) (path @ ''.min'') ''min_range'' @
    rule (st_blind s \<and> st_actors s = ''system'') (path @ ''.blind'') ''blind_system'' @
    (if st_target s \<noteq> None then
       rule (ve_kind env \<noteq> ''hero'') (path @ ''.target'') ''target_hero_only'' @
       rule (st_actors s = ''system'') (path @ ''.target'') ''target_system'' @
       rule (st_action s \<notin> {Ban, Pick, Protect}) (path @ ''.target'') ''target_action''
     else []) @
    (case st_lifetime s of
       None \<Rightarrow> []
     | Some l \<Rightarrow> if st_action s \<noteq> Ban then [err_issue (path @ ''.lifetime'') ''lifetime_ban_only'']
         else rule (l < 1) (path @ ''.lifetime'') ''lifetime_range'') @
    rule (case st_timer s of None \<Rightarrow> False | Some t \<Rightarrow> t < MIN_TIMER_SECONDS) (path @ ''.timer_seconds'') ''timer_range'' @
    rule (\<not> (0 \<le> d_max (st_dispute s) \<and> d_max (st_dispute s) \<le> MAX_DISPUTE)) (path @ ''.dispute.max'') ''dispute_range'' @
    check_condition (cond_env_of env ''item'' (st_target s \<noteq> None)) (JObj (st_eligible s)) (path @ ''.eligible'') @
    concat (map (\<lambda>(i, c). validate_constraint env s (indexed (path @ ''.constraints'') i) c)
      (enumerate 0 (st_constraints s)))"

definition validate_actors :: "val_env \<Rightarrow> step \<Rightarrow> string \<Rightarrow> string set \<Rightarrow> issue list" where
  "validate_actors env s path assigned =
    rule (st_action s = Side_Pick \<and> int (length (ds_sides (ve_spec env))) \<noteq> ve_slot_count env)
      (path @ ''.action'') ''side_pick_unsupported'' @
    rule (case token_slot (st_actors s) of None \<Rightarrow> False | Some n \<Rightarrow> \<not> (1 \<le> n \<and> n \<le> ve_slot_count env))
      (path @ ''.actors'') ''actors_slot_unseated'' @
    (if starts_with ''side:'' (st_actors s) then
       (if drop 5 (st_actors s) \<notin> set (ds_sides (ve_spec env)) then [err_issue (path @ ''.actors'') ''actors_unknown_side'']
        else rule (drop 5 (st_actors s) \<notin> assigned) (path @ ''.actors'') ''actors_side_unassigned'')
     else [])"

definition validate_picks :: "val_env \<Rightarrow> step \<Rightarrow> string \<Rightarrow> issue list" where
  "validate_picks env s path =
    (if st_member s \<noteq> None then
       rule (st_action s \<noteq> Pick \<or> ve_kind env \<noteq> ''hero'') (path @ ''.member'') ''member_pick_only'' @
       rule (st_count s \<noteq> 1) (path @ ''.count'') ''member_count'' @
       rule (st_actors s = ''system'') (path @ ''.member'') ''member_system''
     else rule (st_captains_only s) (path @ ''.captains_only'') ''captains_only_member'') @
    (if st_action s = Assign then
       rule (ve_kind env \<noteq> ''hero'') (path @ ''.action'') ''assign_hero_only'' @
       rule (st_actors s \<noteq> ''both'') (path @ ''.actors'') ''assign_actors'' @
       rule (st_blind s \<or> st_target s \<noteq> None) (path @ ''.action'') ''assign_open''
     else []) @
    (if ve_kind env \<noteq> ''hero'' \<or> st_action s \<notin> {Pick, Assign} then []
     else
       rule (st_action s = Pick \<and> st_blind s) (path @ ''.blind'') ''pick_blind'' @
       rule (ds_character_uniqueness (ve_spec env) \<noteq> ''match'') (path @ ''.action'') ''pick_uniqueness_unsupported'' @
       rule (ve_owner env \<noteq> ''mix'' \<and> (st_member s \<noteq> None \<or> st_action s = Assign)) path ''mix_only'')"

section \<open>The ruleset\<close>

text \<open>The loop over the steps of a phase carries the step ids seen so far and the sides handed out.\<close>

fun validate_steps ::
  "val_env \<Rightarrow> string \<Rightarrow> nat \<Rightarrow> string list \<Rightarrow> string set \<Rightarrow> step list \<Rightarrow> issue list \<times> string list" where
  "validate_steps env path i seen assigned [] = ([], seen)"
| "validate_steps env path i seen assigned (s # ss) =
    (let p = indexed (path @ ''.steps'') i;
         here = validate_id (st_id s) (p @ ''.id'') @ rule (st_id s \<in> set seen) (p @ ''.id'') ''duplicate_step_id'' @
           validate_step env s p @ validate_actors env s p assigned @ validate_picks env s p;
         assigned' = (if st_action s = Side_Pick then assigned \<union> set (ds_sides (ve_spec env)) else assigned);
         (later, seen') = validate_steps env path (Suc i) (st_id s # seen) assigned' ss
     in (here @ later, seen'))"

fun validate_phases :: "val_env \<Rightarrow> nat \<Rightarrow> string list \<Rightarrow> string list \<Rightarrow> phase list \<Rightarrow> issue list" where
  "validate_phases env i seen seen_steps [] = []"
| "validate_phases env i seen seen_steps (p # ps) =
    (let path = indexed ''phases'' i;
         (steps, seen_steps') = validate_steps env path 0 seen_steps {} (ph_steps p)
     in validate_id (ph_id p) (path @ ''.id'') @ rule (ph_id p \<in> set seen) (path @ ''.id'') ''duplicate_phase_id'' @
        validate_phase env p path @ steps @ validate_phases env (Suc i) (ph_id p # seen) seen_steps' ps)"

text \<open>The warnings, which run the phase selection and so could raise.\<close>

definition is_covered :: "ruleset \<Rightarrow> string \<Rightarrow> int \<Rightarrow> py_error + bool" where
  "is_covered r kind m = any_results (map (\<lambda>b. map_sum id (\<lambda>p. p \<noteq> None)
     (select_phase r \<lparr>rc_round = m, rc_best_of = b, rc_kind = kind\<rparr>)) [5, m])"

definition matches_round_one_only :: "phase \<Rightarrow> string \<Rightarrow> py_error + bool" where
  "matches_round_one_only p kind =
    (case phase_matches p \<lparr>rc_round = 1, rc_best_of = 5, rc_kind = kind\<rparr> of
       Inl e \<Rightarrow> Inl e
     | Inr b \<Rightarrow> if \<not> b then Inr False
         else not_result (any_results (map (\<lambda>m. phase_matches p \<lparr>rc_round = m, rc_best_of = 5, rc_kind = kind\<rparr>) [2, 3, 4, 5])))"

definition fallback_warnings :: "nat \<Rightarrow> phase \<Rightarrow> issue list" where
  "fallback_warnings i p = concat (map (\<lambda>(j, s).
     if st_actors s \<in> {''winner_prev'', ''loser_prev''}
     then [warn_issue (indexed (indexed ''phases'' i @ ''.steps'') j @ ''.actors'') ''previous_round_on_first_map'']
     else []) (enumerate 0 (ph_steps p)))"

definition coverage_warnings :: "ruleset \<Rightarrow> string \<Rightarrow> py_error + issue list" where
  "coverage_warnings r kind =
    (case sum_map (is_covered r kind) PREVIEW_MAPS of
       Inl e \<Rightarrow> Inl e
     | Inr covered \<Rightarrow>
         (case sum_map (\<lambda>(i, p). map_sum id (\<lambda>b. if b then fallback_warnings i p else [])
             (matches_round_one_only p kind)) (enumerate 0 (rs_phases r)) of
            Inl e \<Rightarrow> Inl e
          | Inr ws \<Rightarrow> Inr ((if list_all id covered then [] else [warn_issue ''phases'' ''map_not_covered'']) @ concat ws)))"

definition is_error :: "issue \<Rightarrow> bool" where
  "is_error i \<longleftrightarrow> i_severity i = Sev_Error"

definition rule_issues :: "val_env \<Rightarrow> ruleset \<Rightarrow> issue list" where
  "rule_issues env r =
    rule (rs_phases r = []) ''phases'' ''phases_empty'' @
    validate_phases env 0 [] [] (rs_phases r) @
    rule (case rs_timer r of None \<Rightarrow> False | Some t \<Rightarrow> t < MIN_TIMER_SECONDS) ''timer_seconds'' ''timer_range''"

definition validate_ruleset :: "val_env \<Rightarrow> ruleset \<Rightarrow> py_error + issue list" where
  "validate_ruleset env r =
    (let issues = rule_issues env r
     in if list_ex is_error issues then Inr issues
        else map_sum id (\<lambda>ws. issues @ ws) (coverage_warnings r (ve_kind env)))"

section \<open>Everything the rules find is an error\<close>

definition all_errors :: "issue list \<Rightarrow> bool" where
  "all_errors is \<longleftrightarrow> list_all is_error is"

named_theorems error_only

lemma all_errors_simps [simp]:
  "all_errors []" "all_errors (i # is) \<longleftrightarrow> is_error i \<and> all_errors is"
  "all_errors (is @ js) \<longleftrightarrow> all_errors is \<and> all_errors js"
  "is_error (err_issue p c)" "all_errors (concat iss) \<longleftrightarrow> (\<forall>is \<in> set iss. all_errors is)"
  by (auto simp: all_errors_def is_error_def err_issue_def list_all_iff)

lemma rule_errors [error_only]: "all_errors (rule b p c)"
  by (simp add: rule_def)

lemma validate_group_errors [error_only]: "all_errors (validate_group known v p)"
  by (simp add: validate_group_def split: json.split option.split)

lemma validate_param_value_errors [error_only]: "all_errors (validate_param_value known spec v p)"
  by (auto simp: validate_param_value_def error_only split: json.split option.split param_kind.split)

lemma validate_params_errors [error_only]: "all_errors (validate_params known specs ps p)"
  by (auto simp: validate_params_def validate_param_def Let_def error_only split: option.split)

lemma validate_leaf_errors [error_only]: "all_errors (validate_leaf env d p)"
  by (auto simp: validate_leaf_def error_only split: json.split option.split)

lemma validate_condition_errors:
  "all_errors (fst (validate_condition env node path depth budget))"
  "all_errors (fst (validate_children env xs path i depth budget))"
proof (induction env node path depth budget and env xs path i depth budget
    rule: validate_condition_validate_children.induct)
  case (1 env node path depth budget)
  note unfold = validate_condition.simps [of env node path depth budget]
  show ?case
  proof (cases "depth > MAX_TREE_DEPTH \<or> budget - 1 < 0 \<or> (\<forall>d. node \<noteq> JObj d)")
    case True
    then show ?thesis by (subst unfold) (cases node; auto)
  next
    case False
    then obtain d where base: "\<not> depth > MAX_TREE_DEPTH" "\<not> budget - 1 < 0" "node = JObj d" by auto
    show ?thesis
    proof (cases "d = [] \<or> group_keys d = [] \<or> length (dedup (map fst d)) \<noteq> 1")
      case True
      then show ?thesis using base by (subst unfold) (auto simp: error_only)
    next
      case False
      then have d: "d \<noteq> []" "group_keys d \<noteq> []" "\<not> length (dedup (map fst d)) \<noteq> 1" by auto
      show ?thesis
      proof (cases "fst (hd d) = ''NOT''")
        case True
        then show ?thesis using base d "1.IH"(1) [OF base d refl refl True]
          by (subst unfold) (simp add: Let_def)
      next
        case False
        show ?thesis
        proof (cases "\<exists>xs. snd (hd d) = JList xs \<and> xs \<noteq> []")
          case True
          then obtain xs where xs: "snd (hd d) = JList xs" "xs \<noteq> []" by blast
          then show ?thesis using base d False "1.IH"(2) [OF base d refl refl False xs]
            by (subst unfold) (simp add: Let_def)
        next
          case no: False
          then show ?thesis using base d False by (subst unfold) (cases "snd (hd d)"; simp add: Let_def)
        qed
      qed
    qed
  qed
next
  case (3 env x xs path index depth budget)
  then show ?case using "3.IH"(2) [OF refl prod.collapse] by (simp add: case_prod_beta Let_def)
qed simp

lemma check_condition_errors [error_only]: "all_errors (check_condition env node path)"
  by (simp add: check_condition_def validate_condition_errors)

lemma validate_id_errors [error_only]: "all_errors (validate_id v p)"
  by (simp add: validate_id_def)

lemma validate_phase_errors [error_only]: "all_errors (validate_phase env p path)"
  by (simp add: validate_phase_def Let_def error_only split: option.split)

lemma validate_step_errors [error_only]: "all_errors (validate_step env s path)"
  by (auto simp: validate_step_def validate_constraint_def Let_def error_only split: option.split)

lemma validate_actors_errors [error_only]: "all_errors (validate_actors env s path assigned)"
  by (simp add: validate_actors_def error_only split: option.split)

lemma validate_picks_errors [error_only]: "all_errors (validate_picks env s path)"
  by (simp add: validate_picks_def error_only)

lemma validate_steps_errors [error_only]: "all_errors (fst (validate_steps env path i seen assigned ss))"
  by (induction env path i seen assigned ss rule: validate_steps.induct)
     (simp_all add: Let_def case_prod_beta error_only)

lemma validate_phases_errors [error_only]: "all_errors (validate_phases env i seen seen_steps ps)"
proof (induction env i seen seen_steps ps rule: validate_phases.induct)
  case (2 env i seen seen_steps p ps)
  then show ?case using 2 [OF refl refl prod.collapse] by (simp add: Let_def case_prod_beta error_only)
qed simp

lemma rule_issues_errors: "list_ex is_error (rule_issues env r) \<longleftrightarrow> rule_issues env r \<noteq> []"
proof -
  have "all_errors (rule_issues env r)" by (simp add: rule_issues_def error_only)
  then show ?thesis by (cases "rule_issues env r") (auto simp: all_errors_def)
qed

section \<open>What no finding means\<close>

lemma steps_checked:
  assumes "fst (validate_steps env path i seen assigned ss) = []" and "s \<in> set ss"
  shows "\<exists>p as. validate_step env s p = [] \<and> validate_actors env s p as = [] \<and> validate_picks env s p = [] \<and>
    validate_id (st_id s) (p @ ''.id'') = []"
  using assms
proof (induction env path i seen assigned ss rule: validate_steps.induct)
  case (2 env path i seen assigned t ss)
  then show ?case by (cases "s = t") (auto simp: Let_def case_prod_beta)
qed simp

lemma phases_checked:
  assumes "validate_phases env i seen seen_steps ps = []" and "p \<in> set ps"
  shows "\<exists>path i seen as. validate_phase env p path = [] \<and> fst (validate_steps env path i seen as (ph_steps p)) = []"
  using assms
proof (induction env i seen seen_steps ps rule: validate_phases.induct)
  case (2 env i seen seen_steps q ps)
  let ?r = "validate_steps env (indexed ''phases'' i) 0 seen_steps {} (ph_steps q)"
  have q: "validate_phase env q (indexed ''phases'' i) = []" "fst ?r = []"
    and rest: "validate_phases env (Suc i) (ph_id q # seen) (snd ?r) ps = []"
    using 2(2) by (auto simp: Let_def case_prod_beta)
  show ?case
  proof (cases "p = q")
    case False
    then show ?thesis using 2(1) [OF refl refl prod.collapse rest] 2(3) by simp
  qed (use q in blast)
qed simp

text \<open>The phase and its step ids, collected over the whole document, occur once.\<close>

lemma step_ids_distinct:
  assumes "fst (validate_steps env path i seen assigned ss) = []"
  shows "distinct (map st_id ss) \<and> set (map st_id ss) \<inter> set seen = {} \<and>
    snd (validate_steps env path i seen assigned ss) = rev (map st_id ss) @ seen"
  using assms
  by (induction env path i seen assigned ss rule: validate_steps.induct) (auto simp: Let_def case_prod_beta)

lemma phase_ids_distinct:
  assumes "validate_phases env i seen seen_steps ps = []"
  shows "distinct (map ph_id ps) \<and> set (map ph_id ps) \<inter> set seen = {} \<and>
    distinct (concat (map (map st_id \<circ> ph_steps) ps)) \<and>
    set (concat (map (map st_id \<circ> ph_steps) ps)) \<inter> set seen_steps = {}"
  using assms
proof (induction env i seen seen_steps ps rule: validate_phases.induct)
  case (2 env i seen seen_steps p ps)
  let ?r = "validate_steps env (indexed ''phases'' i) 0 seen_steps {} (ph_steps p)"
  have steps: "fst ?r = []" and rest: "validate_phases env (Suc i) (ph_id p # seen) (snd ?r) ps = []"
    using 2(2) by (auto simp: Let_def case_prod_beta)
  define ids where "ids = concat (map (map st_id \<circ> ph_steps) ps)"
  have mine: "distinct (map st_id (ph_steps p))" "set (map st_id (ph_steps p)) \<inter> set seen_steps = {}"
    and seen: "snd ?r = rev (map st_id (ph_steps p)) @ seen_steps"
    using step_ids_distinct [OF steps] by auto
  have theirs: "distinct (map ph_id ps)" "set (map ph_id ps) \<inter> set (ph_id p # seen) = {}" "distinct ids"
      "set ids \<inter> set (snd ?r) = {}"
    using 2(1) [OF refl refl prod.collapse rest] by (simp_all add: ids_def o_def)
  have "ph_id p \<notin> set seen" using 2(2) by (auto simp: Let_def case_prod_beta)
  moreover have "set ids \<inter> set (map st_id (ph_steps p)) = {}" "set ids \<inter> set seen_steps = {}"
    using theirs(4) unfolding seen by (simp_all, blast+)
  moreover have "concat (map (map st_id \<circ> ph_steps) (p # ps)) = map st_id (ph_steps p) @ ids" by (simp add: ids_def)
  ultimately show ?case using mine theirs(1-3) by (simp only: distinct_append set_append list.map distinct.simps set_simps) blast
qed simp

definition accepted :: "val_env \<Rightarrow> ruleset \<Rightarrow> bool" where
  "accepted env r \<longleftrightarrow> (case validate_ruleset env r of Inl e \<Rightarrow> False | Inr is \<Rightarrow> \<not> list_ex is_error is)"

lemma accepted_rules: "accepted env r \<Longrightarrow> rule_issues env r = []"
  by (auto simp: accepted_def validate_ruleset_def Let_def rule_issues_errors split: if_splits)

lemma phase_evaluates:
  assumes "rule_issues env r = []" and "p \<in> set (rs_phases r)"
  shows "\<exists>b. phase_matches p ctx = Inr b"
proof -
  obtain path where "validate_phase env p path = []"
    using assms phases_checked by (fastforce simp: rule_issues_def)
  then have ok: "check_condition (cond_env_of env ''round'' False) (JObj (ph_when p)) (path @ ''.when'') = []"
    by (simp add: validate_phase_def)
  show ?thesis unfolding phase_matches_def
    by (rule checked_condition_evaluates [OF ok]) (simp add: cond_env_of_def)
qed

section \<open>The checker never raises\<close>

lemma sum_map_Inr: "(\<And>x. x \<in> set xs \<Longrightarrow> \<exists>y. f x = Inr y) \<Longrightarrow> \<exists>ys. sum_map f xs = Inr ys"
proof (induction xs)
  case (Cons x xs)
  then obtain y ys where "f x = Inr y" "sum_map f xs = Inr ys" by fastforce
  then show ?case by simp
qed simp

lemma first_phase_ok: "(\<And>p. p \<in> set ps \<Longrightarrow> \<exists>b. phase_matches p ctx = Inr b) \<Longrightarrow>
    \<exists>q. first_phase ps ctx = Inr q \<and> (\<forall>p. q = Some p \<longrightarrow> p \<in> set ps)"
proof (induction ps)
  case (Cons p ps)
  obtain b where "phase_matches p ctx = Inr b" using Cons.prems [of p] by auto
  then show ?case using Cons by (cases b) auto
qed simp

lemma select_phase_ok:
  assumes "rule_issues env r = []"
  shows "\<exists>q. select_phase r ctx = Inr q \<and> (\<forall>p. q = Some p \<longrightarrow> p \<in> set (rs_phases r))"
  using first_phase_ok phase_evaluates [OF assms] by (simp add: select_phase_def)

lemma coverage_ok:
  assumes "rule_issues env r = []"
  shows "\<exists>ws. coverage_warnings r kind = Inr ws"
proof -
  have "\<exists>b. is_covered r kind m = Inr b" for m
    unfolding is_covered_def
  proof (rule any_results_Inr)
    fix x assume "x \<in> set (map (\<lambda>b. map_sum id (\<lambda>p. p \<noteq> None)
      (select_phase r \<lparr>rc_round = m, rc_best_of = b, rc_kind = kind\<rparr>)) [5, m])"
    then obtain b where "x = map_sum id (\<lambda>p. p \<noteq> None) (select_phase r \<lparr>rc_round = m, rc_best_of = b, rc_kind = kind\<rparr>)"
      by auto
    then show "\<exists>b. x = Inr b" using select_phase_ok [OF assms, of "\<lparr>rc_round = m, rc_best_of = b, rc_kind = kind\<rparr>"] by auto
  qed
  then obtain cs where cs: "sum_map (is_covered r kind) PREVIEW_MAPS = Inr cs" using sum_map_Inr by metis
  have "\<exists>b. matches_round_one_only p kind = Inr b" if "p \<in> set (rs_phases r)" for p
  proof -
    have ev: "\<exists>b. phase_matches p ctx = Inr b" for ctx using phase_evaluates [OF assms that] .
    obtain b where b: "phase_matches p \<lparr>rc_round = 1, rc_best_of = 5, rc_kind = kind\<rparr> = Inr b" using ev by blast
    have "\<exists>c. any_results (map (\<lambda>m. phase_matches p \<lparr>rc_round = m, rc_best_of = 5, rc_kind = kind\<rparr>) [2, 3, 4, 5]) = Inr c"
      by (rule any_results_Inr) (use ev in auto)
    then obtain c where "any_results (map (\<lambda>m. phase_matches p \<lparr>rc_round = m, rc_best_of = 5, rc_kind = kind\<rparr>) [2, 3, 4, 5]) = Inr c"
      by blast
    then show ?thesis using b by (auto simp: matches_round_one_only_def not_result_def)
  qed
  then obtain ws where "sum_map (\<lambda>(i, p). map_sum id (\<lambda>b. if b then fallback_warnings i p else [])
      (matches_round_one_only p kind)) (enumerate 0 (rs_phases r)) = Inr ws"
    using sum_map_Inr [of "enumerate 0 (rs_phases r)" "\<lambda>(i, p). map_sum id (\<lambda>b. if b then fallback_warnings i p else [])
      (matches_round_one_only p kind)"] by (fastforce dest: enumerate_snd_in)
  then show ?thesis using cs by (simp add: coverage_warnings_def)
qed

lemma validate_ruleset_total: "\<exists>is. validate_ruleset env r = Inr is"
  using coverage_ok [of env r "ve_kind env"]
  by (auto simp: validate_ruleset_def Let_def rule_issues_errors)

section \<open>Accepted rulesets can be played\<close>

text \<open>The arguments a caller resolves a round of an accepted ruleset with.\<close>

definition fits_card :: "val_env \<Rightarrow> round_args \<Rightarrow> bool" where
  "fits_card env a \<longleftrightarrow> ra_kind a = ve_kind env \<and> distinct (ra_participants a) \<and> 2 \<le> length (ra_participants a) \<and>
     int (length (ra_participants a)) = ve_slot_count env \<and> snd ` set (ra_sides a) \<subseteq> set (ra_participants a)"

lemma is_digit_not_space: "is_digit c \<Longrightarrow> \<not> is_space c"
  by (auto simp: is_digit_def is_space_def Let_def)

lemma strip_digits: "list_all is_digit ds \<Longrightarrow> strip ds = ds"
proof -
  assume ds: "list_all is_digit ds"
  have "dropWhile is_space xs = xs" if "list_all is_digit xs" for xs
    using that is_digit_not_space by (cases xs) auto
  then show ?thesis using ds by (simp add: strip_def)
qed

lemma underscored_digits: "ds \<noteq> [] \<Longrightarrow> list_all is_digit ds \<Longrightarrow> underscored ds"
proof (induction ds rule: underscored.induct)
  case (3 c d cs)
  then show ?case by (cases "d = CHR ''_''") (auto simp: is_digit_def)
qed simp_all

lemma int_of_digits:
  assumes "ds \<noteq> []" and "list_all is_digit ds"
  shows "int_of_str ds = Some (int (parse_nat ds))"
proof -
  have "hd ds \<notin> {CHR ''-'', CHR ''+''}" using assms by (cases ds) (auto simp: is_digit_def)
  moreover have "filter is_digit ds = ds" using assms(2) by (simp add: list_all_iff)
  ultimately show ?thesis using assms by (simp add: int_of_str_def strip_digits underscored_digits Let_def)
qed

lemma not_fixed: "starts_with ''slot:'' t \<or> starts_with ''side:'' t \<Longrightarrow> t \<notin> set fixed_tokens"
  by (auto simp: starts_with_def fixed_tokens_def)

lemma slot_not_side: "starts_with ''slot:'' t \<Longrightarrow> \<not> starts_with ''side:'' t"
  by (auto simp: starts_with_def)

lemma legacy_fixed: "t \<notin> set fixed_tokens \<Longrightarrow> map_of LEGACY_ACTOR_SLOTS t = None"
  by (auto simp: fixed_tokens_def LEGACY_ACTOR_SLOTS_def)

lemma two_seats: "distinct seats \<Longrightarrow> 2 \<le> length seats \<Longrightarrow> filter (\<lambda>s. Some s \<noteq> pw) seats \<noteq> []"
  by (cases seats; cases "tl seats"; cases pw) auto

lemma fixed_token_split:
  "t \<in> set fixed_tokens \<longleftrightarrow> t \<in> {''first'', ''second'', ''both'', ''system''} \<or> t = ''winner_prev'' \<or>
     t = ''loser_prev'' \<or> t = ''home'' \<or> t = ''away''"
  by (simp only: fixed_tokens_def set_simps insert_iff empty_iff simp_thms disj_assoc)

lemma resolve_fixed_total:
  assumes "t \<in> set fixed_tokens" and "distinct seats" and "2 \<le> length seats"
  shows "\<exists>as. resolve_actors t seats opener pw sides = Inr as \<and> as \<noteq> [] \<and> set as \<subseteq> insert None (Some ` set seats)"
proof -
  have ne: "seats \<noteq> []" and one: "seats ! 0 \<in> set seats" "seats ! 1 \<in> set seats" using assms(3) by (auto intro: nth_mem)
  note seats = opening_seat_in [OF ne, of opener, unfolded opening_seat_def]
    answering_seat_in [OF ne, of opener, unfolded answering_seat_def]
  have rest: "filter (\<lambda>s. Some s \<noteq> pw) (rotate_to opener seats) \<noteq> []"
    by (rule two_seats) (use assms in simp_all)
  from assms(1) [unfolded fixed_token_split] show ?thesis
  proof (elim disjE, goal_cases)
    case 1
    have "rotate_to opener seats \<noteq> []" using ne by (metis length_rotate_to length_0_conv)
    then show ?case using 1 resolve_actors_fixed [OF ne, of opener pw sides] opening_seat_in [OF ne, of opener]
        answering_seat_in [OF ne, of opener] by (elim insertE) auto
  next
    case 2
    then show ?case using ne seats by (cases pw) (auto simp: resolve_actors_def Let_def)
  next
    case 3
    have "set (filter (\<lambda>s. Some s \<noteq> pw) (rotate_to opener seats)) \<subseteq> set seats" by auto
    then show ?case using 3 ne seats rest
      by (cases "filter (\<lambda>s. Some s \<noteq> pw) (rotate_to opener seats)"; cases pw)
         (auto simp: resolve_actors_def Let_def)
  qed (use ne one assms(3) in \<open>auto simp: resolve_actors_def Let_def token_slot_def LEGACY_ACTOR_SLOTS_def\<close>)
qed

lemma resolve_actors_total:
  assumes "token_ok t" and "distinct seats" and "2 \<le> length seats" and "snd ` set sides \<subseteq> set seats"
    and slot: "case token_slot t of None \<Rightarrow> True | Some n \<Rightarrow> 1 \<le> n \<and> n \<le> int (length seats)"
  shows "(\<exists>as. resolve_actors t seats opener pw sides = Inr as \<and> as \<noteq> [] \<and> set as \<subseteq> insert None (Some ` set seats)) \<or>
    (starts_with ''side:'' t \<and> resolve_actors t seats opener pw sides = Inl Unassigned_Side)"
proof -
  have ne: "seats \<noteq> []" using assms(3) by auto
  consider (fixed) "t \<in> set fixed_tokens" | (slot) "starts_with ''slot:'' t" | (side) "starts_with ''side:'' t"
    using assms(1) by (auto simp: token_ok_def)
  then show ?thesis
  proof cases
    case fixed
    then show ?thesis using resolve_fixed_total assms(2,3) by blast
  next
    case slot
    then have "t \<notin> set fixed_tokens" using not_fixed by blast
    then have "token_slot t = Some (int (parse_nat (drop 5 t)))"
      using assms(1) slot slot_not_side [OF slot]
      by (auto simp: token_slot_def legacy_fixed token_ok_def Let_def int_of_digits)
    moreover from this have "1 \<le> int (parse_nat (drop 5 t)) \<and> int (parse_nat (drop 5 t)) \<le> int (length seats)"
      using assms(5) by simp
    moreover have "resolve_actors t seats opener pw sides =
        (case token_slot t of Some n \<Rightarrow> if 1 \<le> n \<and> n \<le> int (length seats) then Inr [Some (seats ! nat (n - 1))] else Inl Value_Error
         | None \<Rightarrow> if starts_with ''side:'' t then (case map_of sides (drop 5 t) of None \<Rightarrow> Inl Unassigned_Side | Some a \<Rightarrow> Inr [Some a])
             else Inl Value_Error)"
      using \<open>t \<notin> set fixed_tokens\<close> ne by (auto simp: resolve_actors_def Let_def fixed_tokens_def)
    ultimately show ?thesis by (auto simp: nth_mem)
  next
    case side
    then have out: "t \<notin> set fixed_tokens" "\<not> starts_with ''slot:'' t" using not_fixed slot_not_side by blast+
    then have "token_slot t = None" by (simp add: token_slot_def legacy_fixed)
    then have "resolve_actors t seats opener pw sides =
        (case map_of sides (drop 5 t) of None \<Rightarrow> Inl Unassigned_Side | Some a \<Rightarrow> Inr [Some a])"
      using out side ne by (auto simp: resolve_actors_def Let_def fixed_tokens_def)
    then show ?thesis using side assms(4) by (cases "map_of sides (drop 5 t)") (force dest: map_of_SomeD)+
  qed
qed

text \<open>What the checks leave of one step, whoever wrote it.\<close>

definition playable_step :: "val_env \<Rightarrow> step \<Rightarrow> bool" where
  "playable_step env s \<longleftrightarrow> 1 \<le> st_count s \<and> (\<forall>m. st_min s = Some m \<longrightarrow> 0 \<le> m) \<and>
     (case token_slot (st_actors s) of None \<Rightarrow> True | Some n \<Rightarrow> 1 \<le> n \<and> n \<le> ve_slot_count env) \<and>
     (\<forall>c. \<exists>b. evaluate (JObj (st_eligible s)) (Item_Ctx c) = Inr b)"

lemma checked_step_playable:
  assumes "validate_step env s p = []" and "validate_actors env s p as = []"
  shows "playable_step env s"
proof -
  have "check_condition (cond_env_of env ''item'' (st_target s \<noteq> None)) (JObj (st_eligible s)) (p @ ''.eligible'') = []"
    using assms(1) by (simp add: validate_step_def)
  then have "\<exists>b. evaluate (JObj (st_eligible s)) (Item_Ctx c) = Inr b" for c
    by (rule checked_condition_evaluates) (simp add: cond_env_of_def)
  moreover have "1 \<le> st_count s" "case st_min s of None \<Rightarrow> True | Some m \<Rightarrow> 0 \<le> m"
    using assms(1) by (simp_all add: validate_step_def split: option.splits)
  moreover have "case token_slot (st_actors s) of None \<Rightarrow> True | Some n \<Rightarrow> 1 \<le> n \<and> n \<le> ve_slot_count env"
    using assms(2) by (auto simp: validate_actors_def split: option.splits)
  ultimately show ?thesis by (auto simp: playable_step_def)
qed

lemma accepted_steps_playable:
  assumes "rule_issues env r = []" and "p \<in> set (rs_phases r)" and "s \<in> set (ph_steps p)"
  shows "playable_step env s"
proof -
  obtain path i seen as where "fst (validate_steps env path i seen as (ph_steps p)) = []"
    using assms(1,2) phases_checked by (fastforce simp: rule_issues_def)
  then obtain q as' where "validate_step env s q = []" "validate_actors env s q as' = []"
    using steps_checked assms(3) by blast
  then show ?thesis by (rule checked_step_playable)
qed

lemma generated_step_playable:
  assumes "v1_token t" and "step_says s = token_says t" and "st_eligible s = []"
  shows "playable_step env s \<and> token_ok (st_actors s)"
proof -
  have "st_count s = 1" "st_min s = None" using assms(2) by (auto simp: step_says_def token_says_def)
  moreover have "st_actors s \<in> {''system'', ''first'', ''second''}"
    using assms(1,2) token_parses [of t] by (auto simp: step_says_def token_says_def)
  then have "token_ok (st_actors s) \<and> token_slot (st_actors s) = None"
    by (elim insertE) (simp_all add: token_ok_def fixed_tokens_def token_slot_def LEGACY_ACTOR_SLOTS_def starts_with_def)
  ultimately show ?thesis using assms(3) by (auto simp: playable_step_def)
qed

lemma v1_steps_eligible: "v1_steps_from kind i ts = Inr ss \<Longrightarrow> s \<in> set ss \<Longrightarrow> st_eligible s = []"
  by (induction ts arbitrary: i ss) (auto simp: v1_step_def split: if_splits sum.splits option.splits prod.splits)

lemma generated_steps_playable:
  assumes "list_all v1_token ts"
  shows "\<exists>ss. steps_from_v1_tokens kind ts = Inr ss \<and> (\<forall>s \<in> set ss. playable_step env s \<and> token_ok (st_actors s))"
proof -
  obtain ss where ss: "v1_steps_from kind 0 ts = Inr ss"
    and says: "map step_says ss = map token_says (filter (\<lambda>t. kind \<noteq> ''hero'' \<or> t \<noteq> ''decider'') ts)"
    using v1_steps_says [OF assms] by blast
  have "playable_step env s \<and> token_ok (st_actors s)" if s: "s \<in> set ss" for s
  proof -
    have "step_says s \<in> token_says ` set (filter (\<lambda>t. kind \<noteq> ''hero'' \<or> t \<noteq> ''decider'') ts)"
      using s arg_cong [OF says, of set] by (simp only: set_map) blast
    then obtain t where "t \<in> set ts" "step_says s = token_says t" by auto
    then show ?thesis using generated_step_playable v1_steps_eligible [OF ss s] assms by (auto simp: list_all_iff)
  qed
  then show ?thesis using ss by (simp add: steps_from_v1_tokens_def)
qed

lemma phase_steps_playable:
  assumes "rule_issues env r = []" and "p \<in> set (rs_phases r)" and "\<forall>s \<in> set (ph_steps p). token_ok (st_actors s)"
  shows "\<exists>ss. phase_steps p kind b n c = Inr ss \<and> (\<forall>s \<in> set ss. playable_step env s \<and> token_ok (st_actors s))"
proof (cases "ph_generator p")
  case None
  then show ?thesis using accepted_steps_playable [OF assms(1,2)] assms(3) by (simp add: phase_steps_def)
next
  case (Some g)
  then show ?thesis
    using generated_steps_playable [OF bracket_tokens] generated_steps_playable [OF slot_sequence_tokens]
    by (cases g) (auto simp: phase_steps_def)
qed

text \<open>What a resolved step is known to satisfy.\<close>

definition resolved_well :: "round_args \<Rightarrow> resolved_step \<Rightarrow> bool" where
  "resolved_well a s \<longleftrightarrow> 0 \<le> min_items s \<and> min_items s \<le> cnt s \<and> 1 \<le> cnt s \<and>
     (if is_unbound s then starts_with ''side:'' (the (actors_token s))
      else actors s \<noteq> [] \<and> set (actors s) \<subseteq> insert None (Some ` set (ra_participants a))) \<and>
     (\<forall>c. \<exists>b. evaluate (JObj (eligible s)) (Item_Ctx c) = Inr b)"

lemma resolved_actors_total:
  assumes "playable_step env s" and "token_ok (st_actors s)" and "fits_card env a"
  shows "\<exists>at. resolved_actors s (ra_participants a) (ra_opener a) (ra_prev_winner a) (ra_sides a) = Inr at \<and>
    (if fst at = [] then snd at = Some (st_actors s) \<and> starts_with ''side:'' (st_actors s)
     else set (fst at) \<subseteq> insert None (Some ` set (ra_participants a)))"
proof -
  let ?r = "resolve_actors (st_actors s) (ra_participants a) (ra_opener a) (ra_prev_winner a) (ra_sides a)"
  have "case token_slot (st_actors s) of None \<Rightarrow> True | Some n \<Rightarrow> 1 \<le> n \<and> n \<le> int (length (ra_participants a))"
    using assms(1,3) by (auto simp: playable_step_def fits_card_def split: option.splits)
  then consider as where "?r = Inr as" "as \<noteq> []" "set as \<subseteq> insert None (Some ` set (ra_participants a))"
    | "starts_with ''side:'' (st_actors s)" "?r = Inl Unassigned_Side"
    using resolve_actors_total [OF assms(2), of "ra_participants a" "ra_sides a" "ra_opener a" "ra_prev_winner a"] assms(3)
    by (auto simp: fits_card_def)
  then show ?thesis by cases (auto simp: resolved_actors_def)
qed

lemma resolve_step_well:
  assumes "playable_step env s"
    and "if fst at = [] then snd at = Some (st_actors s) \<and> starts_with ''side:'' (st_actors s)
     else set (fst at) \<subseteq> insert None (Some ` set (ra_participants a))"
  shows "resolved_well a (resolve_step r p rnd i s at)"
  using assms resolve_step_min [of r p rnd i s at]
  by (auto simp: resolved_well_def playable_step_def is_unbound_def resolve_step_def Let_def min_def split: option.splits if_splits)

lemma list_all_map_id: "list_all P xs = list_all id (map P xs)"
  by (simp add: list.pred_map)

lemma resolve_round_well:
  assumes rules: "rule_issues env r = []" and tokens: "\<forall>p \<in> set (rs_phases r). \<forall>s \<in> set (ph_steps p). token_ok (st_actors s)"
    and card: "fits_card env a"
  shows "\<exists>steps. resolve_round r a = Inr steps \<and> list_all (resolved_well a) steps \<and>
    map index steps = map (\<lambda>k. ra_start_index a + int k) [0..<length steps]"
proof -
  obtain q where q: "select_phase r (round_ctx_of a) = Inr q" "\<And>p. q = Some p \<Longrightarrow> p \<in> set (rs_phases r)"
    using select_phase_ok [OF rules] by blast
  show ?thesis
  proof (cases q)
    case None
    then show ?thesis using q by (simp add: resolve_round_def)
  next
    case (Some p)
    then have p: "p \<in> set (rs_phases r)" using q by blast
    obtain ss where ss: "phase_steps p (ra_kind a) (rc_best_of (round_ctx_of a)) (ra_pool_size a) (ra_candidate_count a) = Inr ss"
      and good: "\<And>s. s \<in> set ss \<Longrightarrow> playable_step env s \<and> token_ok (st_actors s)"
      using phase_steps_playable [OF rules p] tokens p by metis
    define f where "f s = (case resolved_actors s (ra_participants a) (ra_opener a) (ra_prev_winner a) (ra_sides a) of
      Inr at \<Rightarrow> at | Inl e \<Rightarrow> ([], None))" for s
    have f: "resolved_actors s (ra_participants a) (ra_opener a) (ra_prev_winner a) (ra_sides a) = Inr (f s) \<and>
        (if fst (f s) = [] then snd (f s) = Some (st_actors s) \<and> starts_with ''side:'' (st_actors s)
         else set (fst (f s)) \<subseteq> insert None (Some ` set (ra_participants a)))" if "s \<in> set ss" for s
      using resolved_actors_total [of env s a] good [OF that] card by (auto simp: f_def)
    define rs where "rs = map (\<lambda>(k, s). resolve_step r p (ra_round a) (ra_start_index a + int k) s (f s))
      (enumerate 0 (kept_steps (ra_kind a) ss))"
    have "resolve_round r a = Inr (bind_members rs (ra_members a))"
      unfolding rs_def
      by (rule resolve_round_ok [OF _ ss]) (use q(1) Some f in \<open>auto simp: kept_steps_def\<close>)
    moreover have "list_all (resolved_well a) rs"
      unfolding rs_def list_all_iff
      using f good by (auto simp: kept_steps_def intro!: resolve_step_well [where env = env] dest!: enumerate_snd_in)
    moreover have "map (resolved_well a) (bind_members rs (ra_members a)) = map (resolved_well a) rs"
      by (rule bind_members_frame) (auto simp: resolved_well_def is_unbound_def simp del: evaluate.simps)
    then have "list_all (resolved_well a) (bind_members rs (ra_members a)) = list_all (resolved_well a) rs"
      using list_all_map_id by metis
    moreover have "map index (bind_members rs (ra_members a)) = map index rs"
      by (rule bind_members_frame) simp
    moreover have "map index rs = map (\<lambda>k. ra_start_index a + int k) [0..<length rs]"
      using map_enumerate_fst [of "ra_start_index a" 0 "kept_steps (ra_kind a) ss"]
      by (simp add: rs_def o_def case_prod_beta)
    ultimately show ?thesis by auto
  qed
qed

text \<open>C24: Checking a ruleset never raises, whatever the document: it always answers with a list of
  issues. The rule checks alone report errors only, so warnings appear exactly in the answers that
  accept the ruleset, and in an accepted one every phase id and every step id occurs once.\<close>

theorem ruleset_checker_total:
  "(\<exists>is. validate_ruleset env r = Inr is) \<and> list_all is_error (rule_issues env r) \<and>
   (accepted env r = (rule_issues env r = [])) \<and>
   (accepted env r \<longrightarrow> distinct (map ph_id (rs_phases r)) \<and>
      distinct (concat (map (map st_id \<circ> ph_steps) (rs_phases r))))"
proof -
  have errors: "all_errors (rule_issues env r)" by (simp add: rule_issues_def error_only)
  have warn: "\<not> list_ex is_error ws" if "coverage_warnings r kind = Inr ws" for kind ws
  proof -
    have w: "\<not> is_error (warn_issue p c)" for p c by (simp add: is_error_def warn_issue_def)
    have "\<forall>ws' \<in> set yss. \<not> list_ex is_error ws'"
      if "sum_map (\<lambda>(i, p). map_sum id (\<lambda>b. if b then fallback_warnings i p else []) (matches_round_one_only p kind)) ips = Inr yss" for ips yss
      using that
    proof (induction ips arbitrary: yss)
      case (Cons ip ips)
      obtain i p where ip: "ip = (i, p)" by (cases ip)
      have "\<not> list_ex is_error (fallback_warnings i p)" by (auto simp: fallback_warnings_def list_ex_iff w)
      then show ?case using Cons ip by (cases "matches_round_one_only p kind") (auto split: sum.splits if_splits)
    qed simp
    then show ?thesis using that by (auto simp: coverage_warnings_def w list_ex_iff split: sum.splits if_splits)
  qed
  have "accepted env r = (rule_issues env r = [])"
    using coverage_ok [of env r "ve_kind env"] warn
    by (auto simp: accepted_def validate_ruleset_def Let_def rule_issues_errors)
  moreover have "accepted env r \<longrightarrow> distinct (map ph_id (rs_phases r)) \<and> distinct (concat (map (map st_id \<circ> ph_steps) (rs_phases r)))"
    using accepted_rules [of env r] phase_ids_distinct by (fastforce simp: rule_issues_def)
  ultimately show ?thesis using validate_ruleset_total errors by (simp add: all_errors_def)
qed

text \<open>C22: A parsed ruleset (every actor token matches the pattern of the schema) that the checker accepts, and none
  of whose actor tokens ends in a line break, can be played on every card of the size it was checked for:
  whatever the round, the length of the series, the previous winner, the sides and the pool, resolving the
  round succeeds, the steps are numbered without a gap, each asks for at least one item and for no fewer
  than zero and no more than its count, is taken by seats of the card or the engine or waits for a side, and
  its item condition never raises. The line break has to be excluded: see \<open>line_break_token_accepted\<close>.\<close>

theorem accepted_ruleset_resolves:
  assumes "accepted env r" and "fits_card env a"
    and "\<forall>p \<in> set (rs_phases r). \<forall>s \<in> set (ph_steps p). known_actors (st_actors s) \<and> last (st_actors s) \<noteq> newline"
  shows "\<exists>steps. resolve_round r a = Inr steps \<and> list_all (resolved_well a) steps \<and>
    map index steps = map (\<lambda>k. ra_start_index a + int k) [0..<length steps]"
proof (rule resolve_round_well [OF accepted_rules [OF assms(1)] _ assms(2)])
  show "\<forall>p \<in> set (rs_phases r). \<forall>s \<in> set (ph_steps p). token_ok (st_actors s)" using assms(3) unfolding known_actors_def by blast
qed

definition sample_step :: "string \<Rightarrow> step_action \<Rightarrow> string \<Rightarrow> step" where
  "sample_step i a act = (v1_step i a act)\<lparr>st_lifetime := None\<rparr>"

definition sample_ruleset :: "string \<Rightarrow> ruleset" where
  "sample_ruleset act = \<lparr>rs_timer = Some 30, rs_on_timeout = Random_Fill, rs_phases =
     [\<lparr>ph_id = ''main'', ph_name = None, ph_when = [], ph_pool_filter = never_banned ''any'', ph_generator = None,
       ph_steps = [sample_step ''side'' Side_Pick ''first'', sample_step ''b1'' Ban act,
         sample_step ''p1'' Pick ''slot:2'', sample_step ''last'' Decider ''system'']\<rparr>]\<rparr>"

definition sample_env :: val_env where
  "sample_env = \<lparr>ve_kind = ''map'', ve_mode = ''pool'',
     ve_spec = \<lparr>ds_sides = [''attack'', ''defense''], ds_character_classes = [], ds_character_uniqueness = ''team''\<rparr>,
     ve_slot_count = 2, ve_groups = None, ve_owner = ''tournament''\<rparr>"

theorem accepted_ruleset_resolves_witness:
  "\<exists>steps. resolve_round (sample_ruleset ''side:attack'') (sample_round ''map'') = Inr steps \<and>
    list_all (resolved_well (sample_round ''map'')) steps \<and> map index steps = map (\<lambda>k. 4 + int k) [0..<length steps]"
proof -
  have "accepted sample_env (sample_ruleset ''side:attack'')" by code_simp
  moreover have "\<forall>p \<in> set (rs_phases (sample_ruleset ''side:attack'')). \<forall>s \<in> set (ph_steps p).
      known_actors (st_actors s) \<and> last (st_actors s) \<noteq> newline"
    by code_simp
  moreover have "fits_card sample_env (sample_round ''map'')" by code_simp
  ultimately show ?thesis
    using accepted_ruleset_resolves [of sample_env "sample_ruleset ''side:attack''" "sample_round ''map''"]
    by (simp add: sample_round_def)
qed

theorem ruleset_checker_total_witness:
  "rule_issues sample_env (sample_ruleset ''side:attack'') = [] \<and>
   distinct (concat (map (map st_id \<circ> ph_steps) (rs_phases (sample_ruleset ''side:attack''))))"
proof -
  have "accepted sample_env (sample_ruleset ''side:attack'')" by code_simp
  then show ?thesis using ruleset_checker_total [of sample_env "sample_ruleset ''side:attack''"] by blast
qed

section \<open>The line break the pattern lets through\<close>

text \<open>
  \<open>ACTORS_PATTERN.match\<close> accepts \<open>first\<close> followed by one line break, the checker finds nothing
  wrong with it, and the round cannot be resolved.
\<close>

theorem line_break_token_accepted:
  "known_actors (''first'' @ [newline]) \<and> accepted sample_env (sample_ruleset (''first'' @ [newline])) \<and>
   resolve_round (sample_ruleset (''first'' @ [newline])) (sample_round ''map'') = Inl Value_Error"
  by code_simp

end
