(* ===== verification/Pickban_Board.thy ===== *)
theory Pickban_Board
  imports Pickban_Rules
begin

text \<open>
  The action log of a pick-ban room and what is read off it, after the first half of
  \<open>shared/domain/pick_ban_rules/runtime.py\<close> (and \<open>pick_ban_engine.py\<close> for the rounds): the live
  submission of an actor, the cursor, the sides a side pick hands out, the items the board shows,
  blind privacy, progress, the projection of the log onto the board, carried bans, undo and
  dispute. The projection updates its entries in place; here it returns the updated list.

  The theorems show that a blind draft cannot influence anything another participation is shown,
  that the projection is a function of the log (idempotent, carried bans untouched, every entry
  settled by the first action that reaches it), and where the cursor stands.
\<close>

section \<open>The log and the board\<close>

datatype sub_state = Draft | Locked | Revealed | Voided

record draft_item =
  di_item :: int
  di_target :: "int option"
  di_member :: "int option"

record submission =
  sb_step :: int
  sb_team :: "int option"
  sb_member :: "int option"
  sb_attempt :: int
  sb_state :: sub_state
  sb_items :: "draft_item list option"

datatype entry_status = Available | Picked | Banned | Protected

record entry =
  en_item :: int
  en_round :: "int option"
  en_order :: int
  en_action_index :: "int option"
  en_by_kind :: "string option"
  en_by_team :: "int option"
  en_for_member :: "int option"
  en_protected_kind :: "string option"
  en_protected_team :: "int option"
  en_status :: entry_status
  en_carried :: "int option"

definition actor_columns :: "int option \<Rightarrow> string \<times> int option" where
  "actor_columns actor = (if actor \<noteq> None then (''team'', actor) else (''decider'', None))"

definition items_of :: "submission \<Rightarrow> draft_item list" where
  "items_of r = (case sb_items r of None \<Rightarrow> [] | Some is \<Rightarrow> is)"

definition current_attempt :: "submission list \<Rightarrow> int \<Rightarrow> int" where
  "current_attempt rows i =
    (let attempts = map sb_attempt (filter (\<lambda>r. sb_step r = i) rows)
     in if attempts = [] then 1 else Max (set attempts))"

definition actor_submission :: "submission list \<Rightarrow> int \<Rightarrow> int option \<Rightarrow> int option \<Rightarrow> submission option" where
  "actor_submission rows i actor mem =
    find (\<lambda>r. sb_step r = i \<and> sb_team r = actor \<and> sb_member r = mem \<and>
      sb_attempt r = current_attempt rows i \<and> sb_state r \<noteq> Voided) rows"

definition answered_in :: "sub_state set \<Rightarrow> submission list \<Rightarrow> resolved_step \<Rightarrow> int option \<times> int option \<Rightarrow> bool" where
  "answered_in states rows s am =
    (case actor_submission rows (index s) (fst am) (snd am) of None \<Rightarrow> False | Some r \<Rightarrow> sb_state r \<in> states)"

definition current_step :: "resolved_step list \<Rightarrow> submission list \<Rightarrow> resolved_step option" where
  "current_step steps rows =
    find (\<lambda>s. is_unbound s \<or> list_ex (\<lambda>am. \<not> answered_in {Revealed} rows s am) (answers s)) steps"

definition ready_to_reveal :: "resolved_step \<Rightarrow> submission list \<Rightarrow> bool" where
  "ready_to_reveal s rows = list_all (answered_in {Locked, Revealed} rows s) (answers s)"

text \<open>\<open>{participation: {locked, filled}}\<close>.\<close>

definition step_progress :: "resolved_step \<Rightarrow> submission list \<Rightarrow> (int, bool \<times> nat) dict" where
  "step_progress s rows =
    foldl (\<lambda>d am. case fst am of
        None \<Rightarrow> d
      | Some a \<Rightarrow>
          let (locked, filled) = dict_get d a (True, 0);
              n = (case actor_submission rows (index s) (fst am) (snd am) of None \<Rightarrow> 0 | Some r \<Rightarrow> length (items_of r))
          in dict_set a (locked \<and> answered_in {Locked, Revealed} rows s am, filled + n) d)
      (foldl (\<lambda>d a. dict_set a (True, 0) d) [] (acting_actors s)) (answers s)"

section \<open>What the board shows\<close>

definition shown_items :: "resolved_step \<Rightarrow> submission list \<Rightarrow> int option \<times> int option \<Rightarrow> applied_item list" where
  "shown_items s rows am =
    (case actor_submission rows (index s) (fst am) (snd am) of
       None \<Rightarrow> []
     | Some r \<Rightarrow>
         if sb_state r \<noteq> Revealed \<and> (blind s \<or> sb_state r \<notin> {Draft, Locked}) then []
         else map (\<lambda>i. \<lparr>step_index = index s, ai_round = rs_round s, ai_actor = fst am,
             ai_action = action_name (action s), item_id = di_item i,
             ai_member = (if member s \<noteq> None then snd am else di_member i)\<rparr>) (items_of r))"

definition applied_items :: "resolved_step list \<Rightarrow> submission list \<Rightarrow> applied_item list" where
  "applied_items steps rows = concat (map (\<lambda>s. concat (map (shown_items s rows) (answers s))) steps)"

definition history_of :: "resolved_step list \<Rightarrow> submission list \<Rightarrow> history" where
  "history_of steps rows = \<lparr>hist_items = applied_items steps rows, current_step_index = None\<rparr>"

text \<open>\<open>{step.index: step for step in steps}\<close>: the last step of an index.\<close>

definition step_at :: "resolved_step list \<Rightarrow> int \<Rightarrow> resolved_step option" where
  "step_at steps i = find (\<lambda>s. index s = i) (rev steps)"

definition visible_row :: "resolved_step list \<Rightarrow> submission list \<Rightarrow> int option \<Rightarrow> submission \<Rightarrow> bool" where
  "visible_row steps rows viewer r \<longleftrightarrow>
     \<not> (sb_state r = Voided \<or> sb_attempt r \<noteq> current_attempt rows (sb_step r)) \<and>
     (sb_state r = Revealed \<or> (case step_at steps (sb_step r) of None \<Rightarrow> False | Some s \<Rightarrow> \<not> blind s) \<or>
      (viewer \<noteq> None \<and> sb_team r = viewer))"

definition visible_submissions :: "resolved_step list \<Rightarrow> submission list \<Rightarrow> int option \<Rightarrow> submission list" where
  "visible_submissions steps rows viewer = filter (visible_row steps rows viewer) rows"

text \<open>The sides the played side picks of a round hand out; an item of a side pick is an index into
  the discipline's sides. Python's \<open>%\<close> by a positive number is the mathematical remainder.\<close>

definition chosen_side :: "submission list \<Rightarrow> string list \<Rightarrow> resolved_step \<Rightarrow> int \<Rightarrow> (string \<times> int) option" where
  "chosen_side rows sides s a =
    (case actor_submission rows (index s) (Some a) None of
       None \<Rightarrow> None
     | Some r \<Rightarrow> if sb_state r \<noteq> Revealed \<or> items_of r = [] \<or> sides = [] then None
         else Some (sides ! nat (di_item (hd (items_of r)) mod int (length sides)), a))"

definition side_chosen :: "resolved_step list \<Rightarrow> submission list \<Rightarrow> string list \<Rightarrow> int option \<Rightarrow> (string \<times> int) list" where
  "side_chosen steps rows sides rnd =
    concat (map (\<lambda>s. if action s \<noteq> Side_Pick \<or> rs_round s \<noteq> rnd then []
      else List.map_filter (chosen_side rows sides s) (acting_actors s)) steps)"

definition set_default :: "('k, 'v) dict \<Rightarrow> 'k \<times> 'v \<Rightarrow> ('k, 'v) dict" where
  "set_default d kv = (if dict_has d (fst kv) then d else d @ [kv])"

definition assigned_sides ::
  "resolved_step list \<Rightarrow> submission list \<Rightarrow> string list \<Rightarrow> int list \<Rightarrow> int option \<Rightarrow> (string, int) dict" where
  "assigned_sides steps rows sides participants rnd =
    (let assigned = foldl set_default [] (side_chosen steps rows sides rnd)
     in if assigned = [] then []
        else foldl (\<lambda>d (c, a). dict_set c a d) assigned
          (zip (filter (\<lambda>c. \<not> dict_has assigned c) sides)
               (filter (\<lambda>a. a \<notin> snd ` set assigned) participants)))"

section \<open>Projection onto the board\<close>

definition reset_entry :: "entry \<Rightarrow> entry" where
  "reset_entry e = (if en_carried e = None
     then e\<lparr>en_status := Available, en_by_kind := None, en_by_team := None, en_for_member := None,
            en_protected_kind := None, en_protected_team := None, en_action_index := None\<rparr>
     else e)"

fun first_index :: "('a \<Rightarrow> bool) \<Rightarrow> 'a list \<Rightarrow> nat option" where
  "first_index P [] = None"
| "first_index P (x # xs) = (if P x then Some 0 else map_option Suc (first_index P xs))"

text \<open>The entry an applied item reaches: the first of its round, else the first without a round.\<close>

definition entry_for :: "entry list \<Rightarrow> applied_item \<Rightarrow> nat option" where
  "entry_for es a =
    (case first_index (\<lambda>e. en_carried e = None \<and> en_item e = item_id a \<and> en_round e = ai_round a) es of
       Some i \<Rightarrow> Some i
     | None \<Rightarrow> first_index (\<lambda>e. en_carried e = None \<and> en_item e = item_id a \<and> en_round e = None) es)"

text \<open>What an applied item makes of the entry it reaches, with the next action index \<open>n\<close> and the
  picks so far; an item that applies nothing leaves all three.\<close>

definition item_effect :: "applied_item \<Rightarrow> int \<Rightarrow> int \<Rightarrow> entry \<Rightarrow> entry \<times> int \<times> int" where
  "item_effect a n picked e =
    (let (kind, team) = actor_columns (ai_actor a)
     in if ai_action a = ''ban'' then
          (if en_status e \<noteq> Available then (e, n, picked)
           else (e\<lparr>en_status := Banned, en_by_kind := Some kind, en_by_team := team, en_action_index := Some n\<rparr>,
                 n + 1, picked))
        else if ai_action a = ''protect'' then
          (if en_status e \<noteq> Available then (e, n, picked)
           else (e\<lparr>en_status := Protected, en_protected_kind := Some kind, en_protected_team := team,
                  en_action_index := Some n\<rparr>, n + 1, picked))
        else if ai_action a = ''pick'' \<or> ai_action a = ''decider'' then
          (if en_status e \<noteq> Available then (e, n, picked)
           else (e\<lparr>en_status := Picked,
                  en_by_kind := Some (if ai_action a = ''decider'' then ''decider'' else kind),
                  en_by_team := (if ai_action a = ''decider'' then None else team),
                  en_order := picked + 1, en_for_member := ai_member a, en_action_index := Some n\<rparr>,
                 n + 1, picked + 1))
        else if ai_action a = ''assign'' then
          (if en_status e = Picked \<and> en_by_team e = ai_actor a then e\<lparr>en_for_member := ai_member a\<rparr> else e, n, picked)
        else (e, n, picked))"

type_synonym replay = "entry list \<times> int \<times> int"

definition apply_item :: "replay \<Rightarrow> applied_item \<Rightarrow> replay" where
  "apply_item st a =
    (case st of (es, n, picked) \<Rightarrow>
       (case entry_for es a of
          None \<Rightarrow> st
        | Some i \<Rightarrow> (case item_effect a n picked (es ! i) of (e, n', picked') \<Rightarrow> (es[i := e], n', picked'))))"

definition project_entries :: "entry list \<Rightarrow> resolved_step list \<Rightarrow> submission list \<Rightarrow> entry list" where
  "project_entries es steps rows = fst (foldl apply_item (map reset_entry es, 0, 0) (applied_items steps rows))"

record carried_ban =
  cb_item :: int
  cb_actor :: "int option"
  cb_from_round :: int

definition step_bans :: "submission list \<Rightarrow> int \<Rightarrow> resolved_step \<Rightarrow> carried_ban list" where
  "step_bans rows rnd s =
    (case rs_round s of
       None \<Rightarrow> []
     | Some r \<Rightarrow>
         if action s \<noteq> Ban \<or> r \<ge> rnd then []
         else if (case lifetime s of None \<Rightarrow> False | Some l \<Rightarrow> r + l \<le> rnd) then []
         else concat (map (\<lambda>a. case actor_submission rows (index s) a None of
             None \<Rightarrow> []
           | Some row \<Rightarrow> if sb_state row \<noteq> Revealed then []
               else map (\<lambda>i. \<lparr>cb_item = di_item i, cb_actor = a, cb_from_round = r\<rparr>) (items_of row)) (actors s)))"

definition carried_bans :: "resolved_step list \<Rightarrow> submission list \<Rightarrow> int \<Rightarrow> carried_ban list" where
  "carried_bans steps rows rnd =
    map snd (foldl (\<lambda>d b. set_default d (cb_item b, b)) [] (concat (map (step_bans rows rnd) steps)))"

section \<open>Undo and dispute\<close>

definition undo_step :: "submission list \<Rightarrow> resolved_step \<Rightarrow> bool" where
  "undo_step rows s \<longleftrightarrow> \<not> is_system s \<and> list_ex (\<lambda>am.
     case actor_submission rows (index s) (fst am) (snd am) of None \<Rightarrow> False | Some r \<Rightarrow> items_of r \<noteq> []) (answers s)"

definition undo_target :: "resolved_step list \<Rightarrow> submission list \<Rightarrow> int option" where
  "undo_target steps rows = map_option index (find (undo_step rows) (rev steps))"

record dispute_state =
  dp_available :: bool
  dp_step_index :: "int option"
  dp_attempts_used :: int
  dp_max :: int

definition fully_revealed :: "submission list \<Rightarrow> resolved_step \<Rightarrow> bool" where
  "fully_revealed rows s = list_all (answered_in {Revealed} rows s) (answers s)"

definition dispute_target ::
  "resolved_step list \<Rightarrow> submission list \<Rightarrow> int option \<Rightarrow> int set \<Rightarrow> dispute_state" where
  "dispute_target steps rows actor blocked =
    (case filter (fully_revealed rows) steps of
       [] \<Rightarrow> \<lparr>dp_available = False, dp_step_index = None, dp_attempts_used = 0, dp_max = 0\<rparr>
     | revealed \<Rightarrow>
         (let latest = last revealed;
              used = current_attempt rows (index latest) - 1
          in if list_ex (\<lambda>s. index s > index latest \<and>
                 list_ex (\<lambda>am. actor_submission rows (index s) (fst am) (snd am) \<noteq> None) (answers s)) steps
             then \<lparr>dp_available = False, dp_step_index = None, dp_attempts_used = used, dp_max = d_max (dispute latest)\<rparr>
             else let available = blind latest \<and> d_enabled (dispute latest) \<and> used < d_max (dispute latest) \<and>
                   (case actor of None \<Rightarrow> True | Some a \<Rightarrow> a \<in> set (acting_actors latest)) \<and>
                   (case rs_round latest of None \<Rightarrow> True | Some r \<Rightarrow> r \<notin> blocked)
               in \<lparr>dp_available = available, dp_step_index = (if available then Some (index latest) else None),
                   dp_attempts_used = used, dp_max = d_max (dispute latest)\<rparr>))"

section \<open>Rounds of the series\<close>

definition current_round :: "entry list \<Rightarrow> int option" where
  "current_round pool =
    (let rounds = List.map_filter en_round (filter (\<lambda>e. en_status e = Available) pool)
     in if rounds = [] then None else Some (Min (set rounds)))"

definition settled_in_order :: "entry list \<Rightarrow> entry list" where
  "settled_in_order pool = sort_key (\<lambda>e. case en_action_index e of Some n \<Rightarrow> n | None \<Rightarrow> en_order e)
     (filter (\<lambda>e. en_status e = Picked) pool)"

datatype opener_error = Opener_Absent | Needs_Choice

definition resolve_round_opener ::
  "first_ban_rotation \<Rightarrow> int \<Rightarrow> int list \<Rightarrow> int \<Rightarrow> int option \<Rightarrow> int option \<Rightarrow> opener_error + int" where
  "resolve_round_opener rotation n seats opener winner choice =
    (if opener \<notin> set seats then Inl Opener_Absent
     else if n \<le> 1 \<or> rotation = Rot_Fixed then Inr opener
     else if rotation = Rot_Alternate
     then Inr (seats ! nat ((int (index_of opener seats) + n - 1) mod int (length seats)))
     else case winner of
       None \<Rightarrow> Inr opener
     | Some w \<Rightarrow>
         if w \<notin> set seats then Inr opener
         else if rotation = Rot_Winner_First then Inr w
         else if rotation = Rot_Loser_First
         then Inr (seats ! ((index_of w seats + 1) mod length seats))
         else (case choice of None \<Rightarrow> Inl Needs_Choice | Some c \<Rightarrow> Inr c))"

section \<open>Blind privacy\<close>

text \<open>Two logs one participation cannot tell apart: the same rows in the same states, with the same
  items wherever the row is visible to it.\<close>

definition indistinguishable ::
  "resolved_step list \<Rightarrow> submission list \<Rightarrow> int option \<Rightarrow> submission \<Rightarrow> submission \<Rightarrow> bool" where
  "indistinguishable steps rows viewer r r' \<longleftrightarrow>
     r' = r\<lparr>sb_items := sb_items r'\<rparr> \<and> (visible_row steps rows viewer r \<longrightarrow> r' = r)"

lemma indistinguishable_fields:
  "indistinguishable steps rows viewer r r' \<Longrightarrow> sb_step r' = sb_step r \<and> sb_team r' = sb_team r \<and>
     sb_member r' = sb_member r \<and> sb_attempt r' = sb_attempt r \<and> sb_state r' = sb_state r"
  unfolding indistinguishable_def
  by (metis submission.select_convs(1-5) submission.surjective submission.update_convs(6))

lemma list_all2_map_eq: "list_all2 R xs ys \<Longrightarrow> (\<And>x y. R x y \<Longrightarrow> f x = g y) \<Longrightarrow> map f xs = map g ys"
  by (induction rule: list_all2_induct) auto

lemma list_all2_filter: "list_all2 R xs ys \<Longrightarrow> (\<And>x y. R x y \<Longrightarrow> P x = Q y) \<Longrightarrow>
    list_all2 R (filter P xs) (filter Q ys)"
  by (induction rule: list_all2_induct) auto

lemma list_all2_find: "list_all2 R xs ys \<Longrightarrow> (\<And>x y. R x y \<Longrightarrow> P x = Q y) \<Longrightarrow>
    rel_option R (find P xs) (find Q ys)"
  by (induction rule: list_all2_induct) auto

definition blind_twins ::
  "resolved_step list \<Rightarrow> int option \<Rightarrow> submission list \<Rightarrow> submission list \<Rightarrow> bool" where
  "blind_twins steps viewer rows rows' \<longleftrightarrow>
     distinct (map index steps) \<and> list_all2 (indistinguishable steps rows viewer) rows rows'"

lemma twins_rows: "blind_twins steps viewer rows rows' \<Longrightarrow> list_all2 (indistinguishable steps rows viewer) rows rows'"
  by (simp add: blind_twins_def)

lemma same_attempt: "blind_twins steps viewer rows rows' \<Longrightarrow> current_attempt rows' i = current_attempt rows i"
proof -
  assume same: "blind_twins steps viewer rows rows'"
  have "map sb_attempt (filter (\<lambda>r. sb_step r = i) rows) = map sb_attempt (filter (\<lambda>r. sb_step r = i) rows')"
    by (rule list_all2_map_eq [OF list_all2_filter [OF twins_rows [OF same]]]) (auto dest: indistinguishable_fields)
  then show ?thesis by (simp add: current_attempt_def)
qed

lemma same_submission:
  assumes same: "blind_twins steps viewer rows rows'"
  shows "rel_option (indistinguishable steps rows viewer) (actor_submission rows i a m) (actor_submission rows' i a m)"
  unfolding actor_submission_def
  by (rule list_all2_find [OF twins_rows [OF same]]) (auto dest: indistinguishable_fields simp: same_attempt [OF same])

lemma twin_submission:
  assumes "blind_twins steps viewer rows rows'" and "actor_submission rows i a m = Some r"
  obtains r' where "actor_submission rows' i a m = Some r'" "indistinguishable steps rows viewer r r'"
  using same_submission [OF assms(1), of i a m] assms(2) by (auto simp: option_rel_Some1)

lemma twin_none: "blind_twins steps viewer rows rows' \<Longrightarrow> actor_submission rows i a m = None \<Longrightarrow>
    actor_submission rows' i a m = None"
  using same_submission [of steps viewer rows rows' i a m] by simp

lemma same_answered:
  assumes "blind_twins steps viewer rows rows'"
  shows "answered_in states rows' s am = answered_in states rows s am"
proof (cases "actor_submission rows (index s) (fst am) (snd am)")
  case None
  then show ?thesis using twin_none [OF assms None] by (simp add: answered_in_def)
next
  case (Some r)
  obtain r' where "actor_submission rows' (index s) (fst am) (snd am) = Some r'" "indistinguishable steps rows viewer r r'"
    by (rule twin_submission [OF assms Some])
  then show ?thesis using Some indistinguishable_fields by (simp add: answered_in_def)
qed

lemma find_key: "distinct (map k xs) \<Longrightarrow> x \<in> set xs \<Longrightarrow> find (\<lambda>y. k y = k x) xs = Some x"
  by (induction xs) (auto simp: rev_image_eqI)

lemma step_at_in: "distinct (map index steps) \<Longrightarrow> s \<in> set steps \<Longrightarrow> step_at steps (index s) = Some s"
  unfolding step_at_def by (rule find_key) (simp_all add: rev_map [symmetric])

lemma live_submission:
  assumes "actor_submission rows i a m = Some r"
  shows "r \<in> set rows \<and> sb_step r = i \<and> sb_team r = a \<and> sb_member r = m \<and>
    sb_attempt r = current_attempt rows i \<and> sb_state r \<noteq> Voided"
  using find_SomeD [OF assms [unfolded actor_submission_def]] by simp

text \<open>A row that reaches the board is visible to everyone.\<close>

lemma shown_visible:
  assumes "distinct (map index steps)" and "s \<in> set steps" and "actor_submission rows (index s) a m = Some r"
    and "sb_state r = Revealed \<or> \<not> blind s"
  shows "visible_row steps rows viewer r"
  using live_submission [OF assms(3)] assms(4) step_at_in [OF assms(1,2)] by (auto simp: visible_row_def)

lemma same_shown:
  assumes same: "blind_twins steps viewer rows rows'" and s: "s \<in> set steps"
  shows "shown_items s rows' am = shown_items s rows am"
proof (cases "actor_submission rows (index s) (fst am) (snd am)")
  case None
  then show ?thesis using twin_none [OF same None] by (simp add: shown_items_def)
next
  case (Some r)
  have indices: "distinct (map index steps)" using same by (simp add: blind_twins_def)
  obtain r' where r': "actor_submission rows' (index s) (fst am) (snd am) = Some r'" "indistinguishable steps rows viewer r r'"
    by (rule twin_submission [OF same Some])
  show ?thesis
  proof (cases "sb_state r = Revealed \<or> \<not> blind s")
    case True
    then have "r' = r" using shown_visible [OF indices s Some] r'(2) by (simp add: indistinguishable_def)
    then show ?thesis using Some r'(1) by (simp add: shown_items_def)
  next
    case False
    then show ?thesis using Some r' indistinguishable_fields [OF r'(2)] by (simp add: shown_items_def)
  qed
qed

lemma same_applied: "blind_twins steps viewer rows rows' \<Longrightarrow> applied_items steps rows' = applied_items steps rows"
proof -
  assume same: "blind_twins steps viewer rows rows'"
  have "shown_items s rows' = shown_items s rows" if "s \<in> set steps" for s
    by (rule ext) (rule same_shown [OF same that])
  then show ?thesis by (simp add: applied_items_def cong: map_cong)
qed

lemma same_visible:
  assumes same: "blind_twins steps viewer rows rows'"
  shows "visible_submissions steps rows' viewer = visible_submissions steps rows viewer"
proof -
  have row: "visible_row steps rows' viewer r' = visible_row steps rows viewer r"
    if "indistinguishable steps rows viewer r r'" for r r'
    using indistinguishable_fields [OF that] by (simp add: visible_row_def same_attempt [OF same])
  have "list_all2 (indistinguishable steps rows viewer) (filter (visible_row steps rows viewer) rows)
      (filter (visible_row steps rows' viewer) rows')"
    by (rule list_all2_filter [OF twins_rows [OF same]]) (simp add: row)
  then have "list_all2 (=) (filter (visible_row steps rows viewer) rows) (filter (visible_row steps rows' viewer) rows')"
    by (rule list.rel_mono_strong) (simp add: indistinguishable_def)
  then show ?thesis by (simp add: visible_submissions_def list.rel_eq)
qed

lemma same_side_choice:
  assumes same: "blind_twins steps viewer rows rows'"
  shows "side_chosen steps rows' sides rnd = side_chosen steps rows sides rnd"
proof -
  have "chosen_side rows' sides s a = chosen_side rows sides s a" if s: "s \<in> set steps" for s a
  proof (cases "actor_submission rows (index s) (Some a) None")
    case None
    then show ?thesis using twin_none [OF same None] by (simp add: chosen_side_def)
  next
    case (Some r)
    have indices: "distinct (map index steps)" using same by (simp add: blind_twins_def)
    obtain r' where r': "actor_submission rows' (index s) (Some a) None = Some r'" "indistinguishable steps rows viewer r r'"
      by (rule twin_submission [OF same Some])
    then show ?thesis
      using Some shown_visible [OF indices s Some] indistinguishable_fields [OF r'(2)]
      by (cases "sb_state r = Revealed") (auto simp: indistinguishable_def chosen_side_def)
  qed
  then show ?thesis unfolding side_chosen_def
    by (intro arg_cong [where f = concat] map_cong refl) (simp add: map_filter_def cong: map_cong filter_cong)
qed

text \<open>What a viewer must not be served, said without the code's own test: a withdrawn answer, the answer of
  an attempt that has been replaced by a later one, and another participation's answer that is not revealed,
  unless its step is an open one.\<close>

definition withheld :: "resolved_step list \<Rightarrow> submission list \<Rightarrow> int option \<Rightarrow> submission \<Rightarrow> bool" where
  "withheld steps rows viewer r \<longleftrightarrow>
     sb_state r = Voided \<or> (\<exists>q\<in>set rows. sb_step q = sb_step r \<and> sb_attempt r < sb_attempt q) \<or>
     (sb_state r \<noteq> Revealed \<and> (viewer = None \<or> sb_team r \<noteq> viewer) \<and>
      (\<forall>s\<in>set steps. index s = sb_step r \<longrightarrow> blind s))"

text \<open>Two rows that differ at most in items that are withheld.\<close>

definition same_unless_withheld :: "resolved_step list \<Rightarrow> submission list \<Rightarrow> int option \<Rightarrow> submission \<Rightarrow> submission \<Rightarrow> bool" where
  "same_unless_withheld steps rows viewer r r' \<longleftrightarrow>
     r' = r\<lparr>sb_items := sb_items r'\<rparr> \<and> (withheld steps rows viewer r \<or> r' = r)"

lemma current_attempt_latest:
  assumes "r \<in> set rows"
  shows "sb_attempt r \<noteq> current_attempt rows (sb_step r) \<longleftrightarrow> (\<exists>q\<in>set rows. sb_step q = sb_step r \<and> sb_attempt r < sb_attempt q)"
proof -
  let ?a = "map sb_attempt (filter (\<lambda>q. sb_step q = sb_step r) rows)"
  have "sb_attempt r \<in> set ?a" using assms by auto
  then have "?a \<noteq> []" by (metis empty_iff empty_set)
  then have latest: "current_attempt rows (sb_step r) = Max (set ?a)" unfolding current_attempt_def Let_def by (rule if_not_P)
  have "sb_attempt r \<noteq> Max (set ?a) \<longleftrightarrow> (\<exists>a\<in>set ?a. sb_attempt r < a)"
    using \<open>sb_attempt r \<in> set ?a\<close> by (metis List.finite_set Max_ge Max_in empty_iff le_less_linear less_le_not_le order.strict_iff_order)
  then show ?thesis unfolding latest by auto
qed

lemma withheld_exact:
  assumes "distinct (map index steps)" and "r \<in> set rows"
  shows "withheld steps rows viewer r \<longleftrightarrow> \<not> visible_row steps rows viewer r"
proof -
  have open_step: "(case step_at steps (sb_step r) of None \<Rightarrow> False | Some s \<Rightarrow> \<not> blind s) \<longleftrightarrow> (\<exists>s\<in>set steps. index s = sb_step r \<and> \<not> blind s)"
  proof (cases "step_at steps (sb_step r)")
    case None
    then have "\<forall>s\<in>set steps. index s \<noteq> sb_step r" by (auto simp: step_at_def find_None_iff)
    then show ?thesis using None by simp
  next
    case (Some s)
    have "s \<in> set steps" "index s = sb_step r" using find_SomeD [OF Some [unfolded step_at_def]] by simp_all
    moreover have "t = s" if "t \<in> set steps" "index t = sb_step r" for t using step_at_in [OF assms(1) that(1)] that(2) Some by simp
    ultimately show ?thesis unfolding Some option.case by blast
  qed
  show ?thesis unfolding withheld_def visible_row_def open_step current_attempt_latest [OF assms(2)] by blast
qed


definition ban_step :: "int \<Rightarrow> bool \<Rightarrow> int option list \<Rightarrow> resolved_step" where
  "ban_step i hidden as = \<lparr>index = i, rs_round = Some 1, phase_id = ''main'', step_id = CHR ''s'' # show_int i,
     action = Ban, actors = as, actors_token = None, cnt = 2, min_items = 1, blind = hidden, target = None,
     lifetime = Some 1, timer_seconds = None, on_timeout = Wait, dispute = \<lparr>d_enabled = True, d_max = 1\<rparr>,
     eligible = [], constraints = [], member = None, member_seats = [], captains_only = False\<rparr>"

definition row :: "int \<Rightarrow> int \<Rightarrow> sub_state \<Rightarrow> int list \<Rightarrow> submission" where
  "row i team st items = \<lparr>sb_step = i, sb_team = Some team, sb_member = None, sb_attempt = 1, sb_state = st,
     sb_items = Some (map (\<lambda>n. \<lparr>di_item = n, di_target = None, di_member = None\<rparr>) items)\<rparr>"


section \<open>The projection is a function of the log\<close>

text \<open>What a replay never changes about an entry.\<close>

definition place_of :: "entry \<Rightarrow> int \<times> int option \<times> int option" where
  "place_of e = (en_item e, en_round e, en_carried e)"

lemma first_index_map:
  assumes "list_all2 (\<lambda>x y. P x = P y) xs ys"
  shows "first_index P xs = first_index P ys"
  using assms by (induction rule: list_all2_induct) auto

lemma first_index_Some: "first_index P xs = Some i \<Longrightarrow> i < length xs \<and> P (xs ! i)"
  by (induction xs arbitrary: i) (auto split: if_splits)

lemma entry_for_places: "map place_of es = map place_of fs \<Longrightarrow> entry_for es a = entry_for fs a"
proof -
  assume es: "map place_of es = map place_of fs"
  have F: "first_index (\<lambda>e. en_carried e = None \<and> en_item e = item_id a \<and> en_round e = r) es =
      first_index (\<lambda>e. en_carried e = None \<and> en_item e = item_id a \<and> en_round e = r) fs" for r
    using es by (intro first_index_map) (auto simp: list_all2_conv_all_nth place_of_def list_eq_iff_nth_eq)
  show ?thesis by (simp only: entry_for_def F)
qed

lemma entry_for_Some:
  "entry_for es a = Some i \<Longrightarrow> i < length es \<and> en_carried (es ! i) = None"
  by (auto simp: entry_for_def dest: first_index_Some split: option.splits)

lemma places_update: "place_of e = place_of (es ! i) \<Longrightarrow> map place_of (es[i := e]) = map place_of es"
  by (metis list_update_beyond list_update_id map_update not_le nth_map)

text \<open>The actions that settle an entry, and what one settles it as.\<close>

fun settled_as :: "string \<Rightarrow> entry_status option" where
  "settled_as a = (if a = ''ban'' then Some Banned else if a = ''protect'' then Some Protected
     else if a = ''pick'' \<or> a = ''decider'' then Some Picked else None)"

text \<open>What an item does to the entry it reaches.\<close>

lemma item_effect_entry:
  assumes "item_effect a n p e = (e', n', p')"
  shows "place_of e' = place_of e \<and> (en_status e' \<noteq> Picked \<longrightarrow> en_order e' = en_order e) \<and>
    en_status e' = (if en_status e = Available
      then (case settled_as (ai_action a) of None \<Rightarrow> Available | Some s \<Rightarrow> s) else en_status e)"
  using assms by (auto simp: item_effect_def place_of_def actor_columns_def split: if_splits)

text \<open>It is blind to the order an entry that is not picked carries.\<close>

definition up_to_order :: "entry \<Rightarrow> entry \<Rightarrow> bool" where
  "up_to_order e f \<longleftrightarrow> f = e\<lparr>en_order := en_order f\<rparr> \<and> (en_status e = Picked \<longrightarrow> f = e)"

lemma up_to_order_refl [simp]: "up_to_order e e"
  by (simp add: up_to_order_def)

lemma item_effect_order:
  assumes "up_to_order e f"
  shows "up_to_order (fst (item_effect a n p e)) (fst (item_effect a n p f)) \<and>
    snd (item_effect a n p e) = snd (item_effect a n p f)"
proof -
  define k where "k = en_order f"
  have f: "f = e\<lparr>en_order := k\<rparr>" "en_status e = Picked \<longrightarrow> f = e" using assms by (simp_all add: up_to_order_def k_def)
  show ?thesis
  proof (cases "en_status e = Picked")
    case True
    then show ?thesis using f by simp
  next
    case False
    then show ?thesis unfolding f(1)
      by (simp add: item_effect_def actor_columns_def up_to_order_def Let_def)
  qed
qed

lemma apply_item_entries:
  assumes "apply_item (es, n, p) a = (es', n', p')"
  shows "map place_of es' = map place_of es \<and> length es' = length es \<and>
    (\<forall>i < length es. (en_status (es' ! i) \<noteq> Picked \<longrightarrow> en_order (es' ! i) = en_order (es ! i)) \<and>
      (if entry_for es a \<noteq> Some i then es' ! i = es ! i
       else en_status (es' ! i) = (if en_status (es ! i) = Available
         then (case settled_as (ai_action a) of None \<Rightarrow> Available | Some s \<Rightarrow> s) else en_status (es ! i))))"
proof (cases "entry_for es a")
  case None
  then show ?thesis using assms by (simp add: apply_item_def)
next
  case (Some j)
  obtain e' where e': "item_effect a n p (es ! j) = (e', n', p')" "es' = es[j := e']"
    using assms Some by (auto simp: apply_item_def split: prod.splits)
  show ?thesis using item_effect_entry [OF e'(1)] places_update [of e' es j] entry_for_Some [OF Some] Some
    by (auto simp: e'(2) nth_list_update)
qed

text \<open>The status of an entry after the replay: what the first settling item that reaches it says.\<close>

definition first_settler :: "entry list \<Rightarrow> applied_item list \<Rightarrow> nat \<Rightarrow> applied_item option" where
  "first_settler es as i = find (\<lambda>a. entry_for es a = Some i \<and> settled_as (ai_action a) \<noteq> None) as"

lemma first_settler_places: "map place_of es = map place_of fs \<Longrightarrow> first_settler es as i = first_settler fs as i"
  by (simp add: first_settler_def entry_for_places [of es fs])

lemma replay_entries:
  assumes "foldl apply_item (es, n, p) as = (es', n', p')"
  shows "map place_of es' = map place_of es \<and> length es' = length es \<and>
    (\<forall>i < length es. (en_status (es' ! i) \<noteq> Picked \<longrightarrow> en_order (es' ! i) = en_order (es ! i)) \<and>
      (en_carried (es ! i) \<noteq> None \<longrightarrow> es' ! i = es ! i) \<and>
      en_status (es' ! i) = (if en_status (es ! i) = Available
        then (case first_settler es as i of None \<Rightarrow> Available | Some a \<Rightarrow> the (settled_as (ai_action a)))
        else en_status (es ! i)))"
  using assms
proof (induction as arbitrary: es n p)
  case Nil
  then show ?case by (simp add: first_settler_def)
next
  case (Cons a as)
  obtain fs m q where one: "apply_item (es, n, p) a = (fs, m, q)" by (metis prod_cases3)
  then have rest: "foldl apply_item (fs, m, q) as = (es', n', p')" using Cons.prems by simp
  note step = apply_item_entries [OF one] and ih = Cons.IH [OF rest]
  have places: "map place_of es = map place_of fs" "length fs = length es" using step by simp_all
  have carried: "en_carried (fs ! i) = en_carried (es ! i)" if "i < length es" for i
    using places that by (metis nth_map place_of_def prod.inject)
  show ?case
  proof (intro conjI allI impI)
    show "map place_of es' = map place_of es" "length es' = length es" using ih places by simp_all
  next
    fix i assume i: "i < length es"
    let ?s = "en_status (es ! i)" and ?t = "en_status (fs ! i)"
    have st: "if entry_for es a \<noteq> Some i then fs ! i = es ! i
       else ?t = (if ?s = Available then (case settled_as (ai_action a) of None \<Rightarrow> Available | Some s \<Rightarrow> s) else ?s)"
      and "?t \<noteq> Picked \<longrightarrow> en_order (fs ! i) = en_order (es ! i)" using step i by blast+
    have ih': "en_status (es' ! i) \<noteq> Picked \<longrightarrow> en_order (es' ! i) = en_order (fs ! i)"
      "en_carried (fs ! i) \<noteq> None \<longrightarrow> es' ! i = fs ! i"
      "en_status (es' ! i) = (if ?t = Available
        then (case first_settler es as i of None \<Rightarrow> Available | Some a \<Rightarrow> the (settled_as (ai_action a))) else ?t)"
      using ih i places first_settler_places [OF places(1)] by simp_all
    have kept: "?t = Picked \<longrightarrow> en_status (es' ! i) = Picked" using ih'(3) by simp
    show "en_order (es' ! i) = en_order (es ! i)" if "en_status (es' ! i) \<noteq> Picked"
      using that ih'(1) kept \<open>?t \<noteq> Picked \<longrightarrow> _\<close> by simp
    show "es' ! i = es ! i" if "en_carried (es ! i) \<noteq> None"
    proof -
      have "entry_for es a \<noteq> Some i" using entry_for_Some [of es a i] that by auto
      then show ?thesis using st ih'(2) carried [OF i] that by simp
    qed
    show "en_status (es' ! i) = (if ?s = Available
        then (case first_settler es (a # as) i of None \<Rightarrow> Available | Some a \<Rightarrow> the (settled_as (ai_action a))) else ?s)"
    proof (cases "entry_for es a = Some i \<and> settled_as (ai_action a) \<noteq> None")
      case True
      then have "settled_as (ai_action a) \<noteq> Some Available" by (auto split: if_splits)
      then show ?thesis using True st ih'(3) by (auto simp: first_settler_def simp del: settled_as.simps)
    next
      case False
      then have "?t = ?s" using st by (auto simp del: settled_as.simps split: if_splits)
      moreover have "first_settler es (a # as) i = first_settler es as i" using False by (auto simp: first_settler_def simp del: settled_as.simps)
      ultimately show ?thesis using ih'(3) by simp
    qed
  qed
qed

lemma replay_lockstep:
  assumes "list_all2 up_to_order es fs" and "foldl apply_item (es, n, p) as = (es', n1, p1)"
    and "foldl apply_item (fs, n, p) as = (fs', n2, p2)"
  shows "list_all2 up_to_order es' fs'"
  using assms
proof (induction as arbitrary: es fs n p)
  case (Cons a as)
  have places: "map place_of es = map place_of fs"
    by (rule list_all2_map_eq [OF Cons.prems(1)]) (metis entry.select_convs(1,2,11) entry.surjective entry.update_convs(3) place_of_def up_to_order_def)
  obtain es1 m1 q1 fs1 m2 q2 where one: "apply_item (es, n, p) a = (es1, m1, q1)" "apply_item (fs, n, p) a = (fs1, m2, q2)"
    by (metis prod_cases3)
  have "list_all2 up_to_order es1 fs1 \<and> (m1, q1) = (m2, q2)"
  proof (cases "entry_for es a")
    case None
    then show ?thesis using one Cons.prems(1) entry_for_places [OF places, of a] by (simp add: apply_item_def)
  next
    case (Some j)
    have j: "j < length es" using entry_for_Some [OF Some] by simp
    then have "up_to_order (es ! j) (fs ! j)" using Cons.prems(1) by (simp add: list_all2_nthD)
    from item_effect_order [OF this, of a n p] show ?thesis
      using one Some entry_for_places [OF places, of a] Cons.prems(1)
      by (auto simp: apply_item_def split: prod.splits intro: list_all2_update_cong)
  qed
  then show ?case using Cons.IH [of es1 fs1 m1 q1] Cons.prems one by auto
qed simp

lemma place_of_reset [simp]: "place_of (reset_entry e) = place_of e"
  by (simp add: reset_entry_def place_of_def)

lemma reset_status: "en_carried e = None \<Longrightarrow> en_status (reset_entry e) = Available"
  by (simp add: reset_entry_def)

text \<open>Two entries at the same place reset to the same, orders apart.\<close>

lemma reset_up_to_order:
  assumes "place_of f = place_of e" and "en_carried e = None"
  shows "up_to_order (reset_entry e) (reset_entry f)"
  using assms by (cases e; cases f) (simp add: up_to_order_def reset_entry_def place_of_def)

lemma projection_facts:
  assumes "es' = project_entries es steps rows"
  shows "map place_of es' = map place_of es \<and> length es' = length es \<and>
    (\<forall>i < length es. en_carried (es ! i) \<noteq> None \<longrightarrow> es' ! i = es ! i) \<and>
    (\<forall>i < length es. en_carried (es ! i) = None \<longrightarrow>
       en_status (es' ! i) = (case first_settler es (applied_items steps rows) i of
         None \<Rightarrow> Available | Some a \<Rightarrow> the (settled_as (ai_action a))) \<and>
       (en_status (es' ! i) \<noteq> Picked \<longrightarrow> en_order (es' ! i) = en_order (es ! i)))"
proof -
  obtain n p where run: "foldl apply_item (map reset_entry es, 0, 0) (applied_items steps rows) = (es', n, p)"
    using assms unfolding project_entries_def by (metis prod.collapse)
  have places: "map place_of (map reset_entry es) = map place_of es" by (simp add: o_def)
  note facts = replay_entries [OF run] and settler = first_settler_places [OF places]
  have carried: "reset_entry e = e" if "en_carried e \<noteq> None" for e using that by (auto simp: reset_entry_def)
  have carried': "en_carried (reset_entry e) = en_carried e" "en_order (reset_entry e) = en_order e" for e
    by (simp_all add: reset_entry_def)
  show ?thesis
  proof (intro conjI allI impI)
    show "map place_of es' = map place_of es" "length es' = length es" using facts places by simp_all
  next
    fix i assume i: "i < length es" and c: "en_carried (es ! i) \<noteq> None"
    then have "es' ! i = map reset_entry es ! i" using facts carried' by simp
    then show "es' ! i = es ! i" using carried [OF c] i by simp
  next
    fix i assume i: "i < length es" and c: "en_carried (es ! i) = None"
    show "en_status (es' ! i) = (case first_settler es (applied_items steps rows) i of
         None \<Rightarrow> Available | Some a \<Rightarrow> the (settled_as (ai_action a)))"
      using facts i reset_status [OF c] settler by simp
    assume "en_status (es' ! i) \<noteq> Picked"
    then show "en_order (es' ! i) = en_order (es ! i)" using facts i carried' by simp
  qed
qed

lemma projection_idempotent:
  "project_entries (project_entries es steps rows) steps rows = project_entries es steps rows"
proof -
  define es1 where "es1 = project_entries es steps rows"
  define es2 where "es2 = project_entries es1 steps rows"
  note f1 = projection_facts [OF es1_def] and f2 = projection_facts [OF es2_def]
  obtain n p m q where run1: "foldl apply_item (map reset_entry es, 0, 0) (applied_items steps rows) = (es1, n, p)"
    and run2: "foldl apply_item (map reset_entry es1, 0, 0) (applied_items steps rows) = (es2, m, q)"
    unfolding es1_def es2_def project_entries_def by (metis prod.collapse)
  have place: "place_of (es1 ! i) = place_of (es ! i)" if "i < length es" for i
    using f1 that by (metis nth_map)
  have "list_all2 up_to_order (map reset_entry es) (map reset_entry es1)"
    unfolding list_all2_conv_all_nth
  proof (intro conjI allI impI)
    fix i assume "i < length (map reset_entry es)"
    then have i: "i < length es" by simp
    show "up_to_order (map reset_entry es ! i) (map reset_entry es1 ! i)"
    proof (cases "en_carried (es ! i)")
      case None
      then show ?thesis using reset_up_to_order [OF place [OF i] None] i f1 by simp
    next
      case (Some c)
      then show ?thesis using f1 i by simp
    qed
  qed (use f1 in simp)
  from replay_lockstep [OF this run1 run2] have lock: "list_all2 up_to_order es1 es2" .
  have "es2 = es1"
  proof (rule nth_equalityI)
    show "length es2 = length es1" using f2 by simp
    fix i assume "i < length es2"
    then have i: "i < length es" "i < length es1" using f1 f2 by simp_all
    have up: "up_to_order (es1 ! i) (es2 ! i)" using lock i(2) by (simp add: list_all2_nthD)
    show "es2 ! i = es1 ! i"
    proof (cases "en_status (es1 ! i) = Picked \<or> en_carried (es1 ! i) \<noteq> None")
      case True
      then show ?thesis using up f2 i(2) by (auto simp: up_to_order_def)
    next
      case False
      have eq: "es2 ! i = (es1 ! i)\<lparr>en_order := en_order (es2 ! i)\<rparr>" using up by (simp add: up_to_order_def)
      then have "en_status (es2 ! i) = en_status (es1 ! i)"
        by (metis entry.select_convs(10) entry.surjective entry.update_convs(3))
      then have "en_order (es2 ! i) = en_order (es1 ! i)" using f2 i(2) False by simp
      then show ?thesis using eq by simp
    qed
  qed
  then show ?thesis by (simp add: es1_def es2_def)
qed

text \<open>C21: The board is a function of the action log: projecting again changes nothing, carried bans are
  never touched, and every other entry has the status the first settling item that reaches it gives
  it, or is available when none does; nothing settled is settled again.\<close>

theorem board_is_a_function_of_the_log:
  "project_entries (project_entries es steps rows) steps rows = project_entries es steps rows \<and>
   length (project_entries es steps rows) = length es \<and>
   (\<forall>i < length es. en_carried (es ! i) \<noteq> None \<longrightarrow> project_entries es steps rows ! i = es ! i) \<and>
   (\<forall>i < length es. en_carried (es ! i) = None \<longrightarrow> en_status (project_entries es steps rows ! i) =
      (case first_settler es (applied_items steps rows) i of
         None \<Rightarrow> Available | Some a \<Rightarrow> the (settled_as (ai_action a))))"
  using projection_facts [OF refl, of es steps rows] projection_idempotent [of es steps rows] by simp

definition open_entry :: "int \<Rightarrow> int option \<Rightarrow> entry" where
  "open_entry item carried = \<lparr>en_item = item, en_round = Some 1, en_order = 1000 + item, en_action_index = None,
     en_by_kind = None, en_by_team = None, en_for_member = None, en_protected_kind = None, en_protected_team = None,
     en_status = (if carried = None then Available else Banned), en_carried = carried\<rparr>"

theorem board_is_a_function_of_the_log_witness:
  "map en_status (project_entries [open_entry 7 None, open_entry 8 (Some 0), open_entry 9 None]
      [ban_step 0 False [Some 1]] [row 0 1 Draft [8, 7]]) = [Banned, Banned, Available]"
proof -
  let ?es = "[open_entry 7 None, open_entry 8 (Some 0), open_entry 9 None]"
  let ?steps = "[ban_step 0 False [Some 1]]" and ?rows = "[row 0 1 Draft [8, 7]]"
  let ?es' = "project_entries ?es ?steps ?rows"
  have all: "length ?es' = 3" "?es' ! 1 = ?es ! 1"
    "en_status (?es' ! 0) = (case first_settler ?es (applied_items ?steps ?rows) 0 of
         None \<Rightarrow> Available | Some a \<Rightarrow> the (settled_as (ai_action a)))"
    "en_status (?es' ! 2) = (case first_settler ?es (applied_items ?steps ?rows) 2 of
         None \<Rightarrow> Available | Some a \<Rightarrow> the (settled_as (ai_action a)))"
    using board_is_a_function_of_the_log [of ?es ?steps ?rows] by (simp_all add: open_entry_def)
  have settlers: "(case first_settler ?es (applied_items ?steps ?rows) 0 of None \<Rightarrow> Available | Some a \<Rightarrow> the (settled_as (ai_action a))) = Banned"
    "(case first_settler ?es (applied_items ?steps ?rows) 2 of None \<Rightarrow> Available | Some a \<Rightarrow> the (settled_as (ai_action a))) = Available"
    "en_status (?es ! 1) = Banned" by code_simp+
  have "?es' = [?es' ! 0, ?es' ! 1, ?es' ! 2]"
    by (rule nth_equalityI) (use all(1) in \<open>auto simp: less_Suc_eq numeral_3_eq_3 numeral_2_eq_2\<close>)
  then have "map en_status ?es' = map en_status [?es' ! 0, ?es' ! 1, ?es' ! 2]" by (rule arg_cong)
  then show ?thesis using all(2-4) settlers by simp
qed

section \<open>Sides and openers\<close>

lemma foldl_dict_set_fresh:
  "distinct (map fst (acc @ ps)) \<Longrightarrow> foldl (\<lambda>d (k, v). dict_set k v d) acc ps = acc @ ps"
proof (induction ps arbitrary: acc)
  case (Cons p ps)
  obtain k v where p: "p = (k, v)" by (cases p)
  have "dict_set k v acc = acc @ [p]" using Cons.prems p by (auto intro: dict_set_new)
  then show ?case using Cons.IH [of "acc @ [p]"] Cons.prems p by simp
qed simp

lemma side_chosen_side: "(c, a) \<in> set (side_chosen steps rows sides rnd) \<Longrightarrow> c \<in> set sides"
  by (auto simp: side_chosen_def set_map_filter_iff chosen_side_def split: option.splits if_splits intro!: nth_mem)
     (metis (no_types, lifting) length_greater_0_conv nat_less_iff nth_mem of_nat_0_less_iff pos_mod_bound pos_mod_sign)

lemma filter_out_one: "distinct xs \<Longrightarrow> x \<in> set xs \<Longrightarrow> length (filter (\<lambda>y. y \<noteq> x) xs) = length xs - 1"
proof -
  assume d: "distinct xs" and x: "x \<in> set xs"
  have "length (filter (\<lambda>y. y = x) xs) + length (filter (\<lambda>y. y \<noteq> x) xs) = length xs"
    by (rule sum_length_filter_compl)
  then show ?thesis using distinct_filter_eq [OF d, of x] x by simp
qed

text \<open>One played side pick settles every side: the chooser has the side they named, the others get
  the remaining ones, and on a card with as many seats as the game has sides every side goes to
  exactly one seat and every seat to exactly one side.\<close>

theorem side_pick_hands_out_every_side:
  assumes chosen: "side_chosen steps rows sides rnd = [(c, a)]" and "a \<in> set participants"
    and "distinct sides" and "distinct participants" and "length sides = length participants"
  shows "map_of (assigned_sides steps rows sides participants rnd) c = Some a \<and>
    distinct (map fst (assigned_sides steps rows sides participants rnd)) \<and>
    set (map fst (assigned_sides steps rows sides participants rnd)) = set sides \<and>
    distinct (map snd (assigned_sides steps rows sides participants rnd)) \<and>
    set (map snd (assigned_sides steps rows sides participants rnd)) = set participants"
proof -
  define cs as where "cs = filter (\<lambda>x. x \<noteq> c) sides" and "as = filter (\<lambda>x. x \<noteq> a) participants"
  have c: "c \<in> set sides" using side_chosen_side [of c a steps rows sides rnd] chosen by simp
  have len: "length cs = length as" using filter_out_one [OF assms(3) c] filter_out_one [OF assms(4,2)] assms(5)
    by (simp add: cs_def as_def)
  have filters: "filter (\<lambda>x. \<not> dict_has [(c, a)] x) sides = cs" "filter (\<lambda>x. x \<notin> snd ` set [(c, a)]) participants = as"
    by (auto simp: cs_def as_def dict_has_def intro: filter_cong)
  have "c \<notin> fst ` set (zip cs as)" by (auto simp: cs_def dest: set_zip_leftD)
  then have fresh: "foldl (\<lambda>d (k, v). dict_set k v d) [(c, a)] (zip cs as) = [(c, a)] @ zip cs as"
    using len assms(3) by (intro foldl_dict_set_fresh) (simp add: cs_def)
  have d: "assigned_sides steps rows sides participants rnd = [(c, a)] @ zip cs as"
    using fresh filters by (simp add: assigned_sides_def chosen set_default_def dict_has_def)
  show ?thesis unfolding d using len assms(2-4) c by (auto simp: cs_def as_def)
qed

definition side_step :: resolved_step where
  "side_step = (ban_step 3 False [Some 22])\<lparr>action := Side_Pick, cnt := 1\<rparr>"

theorem side_pick_hands_out_every_side_witness:
  "map_of (assigned_sides [side_step] [row 3 22 Revealed [5]] [''blue'', ''red''] [11, 22] (Some 1)) ''red'' = Some 22"
proof -
  have "side_chosen [side_step] [row 3 22 Revealed [5]] [''blue'', ''red''] (Some 1) = [(''red'', 22)]" by code_simp
  from side_pick_hands_out_every_side [OF this, of "[11, 22]"] show ?thesis by simp
qed

lemma mset_rotate_seats: "mset (rotate m xs) = mset xs"
  by (metis append_take_drop_id mset_append rotate_drop_take union_commute)

text \<open>The opener of a round is always a seat of the card, except that a losing side still to choose
  is reported as such, exactly when a previous map had a winner; and under alternation every seat
  opens exactly once in as many consecutive rounds as the card has seats.\<close>

theorem opener_rotation_fair:
  assumes "opener \<in> set seats" and "1 \<le> n"
  shows "(\<forall>rot. rot \<noteq> Rot_Loser_Choice \<longrightarrow>
      (\<exists>s \<in> set seats. resolve_round_opener rot n seats opener winner choice = Inr s)) \<and>
    (resolve_round_opener Rot_Loser_Choice n seats opener winner choice = Inl Needs_Choice) =
      (1 < n \<and> (\<exists>w \<in> set seats. winner = Some w) \<and> choice = None) \<and>
    mset (map (\<lambda>k. resolve_round_opener Rot_Alternate (n + int k) seats opener winner choice) [0..<length seats]) =
      mset (map Inr seats)"
proof -
  have pos: "0 < length seats" using assms(1) by (cases seats) auto
  define m where "m = nat (int (index_of opener seats) + n - 1)"
  have at: "resolve_round_opener Rot_Alternate (n + int k) seats opener winner choice = Inr (seats ! ((m + k) mod length seats))" for k
  proof (cases "n + int k \<le> 1")
    case True
    then have "m + k = index_of opener seats" using assms(2) by (simp add: m_def)
    then show ?thesis using True assms(1) index_of_less [OF assms(1)] by (simp add: resolve_round_opener_def)
  next
    case False
    have "(int (index_of opener seats) + (n + int k) - 1) mod int (length seats) = int ((m + k) mod length seats)"
      using assms(2) by (simp add: m_def of_nat_mod algebra_simps)
    then show ?thesis using False assms(1) by (simp add: resolve_round_opener_def)
  qed
  have "map (\<lambda>k. resolve_round_opener Rot_Alternate (n + int k) seats opener winner choice) [0..<length seats] =
      map Inr (rotate m seats)"
    by (rule nth_equalityI) (simp_all add: at nth_rotate)
  then have "mset (map (\<lambda>k. resolve_round_opener Rot_Alternate (n + int k) seats opener winner choice) [0..<length seats]) =
      mset (map Inr seats)" by (metis mset_map mset_rotate_seats)
  moreover have "\<exists>s \<in> set seats. resolve_round_opener rot n seats opener winner choice = Inr s" if "rot \<noteq> Rot_Loser_Choice" for rot
  proof (cases "rot = Rot_Alternate")
    case True
    then show ?thesis using at [of 0] pos by simp
  next
    case False
    then show ?thesis using that assms(1) pos
      by (cases rot) (auto simp: resolve_round_opener_def split: option.split)
  qed
  moreover have "(resolve_round_opener Rot_Loser_Choice n seats opener winner choice = Inl Needs_Choice) =
      (1 < n \<and> (\<exists>w \<in> set seats. winner = Some w) \<and> choice = None)"
    using assms by (auto simp: resolve_round_opener_def split: option.split)
  ultimately show ?thesis by blast
qed

theorem opener_rotation_fair_witness:
  "mset (map (\<lambda>k. resolve_round_opener Rot_Alternate (2 + int k) [11, 22, 33] 22 None None) [0..<3]) = {#Inr 11, Inr 22, Inr 33#}"
  using opener_rotation_fair [of 22 "[11, 22, 33]" 2 None None] by (simp add: numeral_3_eq_3)

end
