(* ===== verification/Random_Choice.thy ===== *)
theory Random_Choice
  imports Prelude
begin

text \<open>
  Python's \<open>random.Random\<close>. A generator is a parameter: a table of numbers, one row per call. \<open>shuffle\<close>
  orders by the numbers of its row, \<open>choice\<close> takes an element by one; every shuffle and every choice
  Python's generator can make is made by some table, so what holds for every table holds for every
  seed.
\<close>

type_synonym rng = "nat \<Rightarrow> nat \<Rightarrow> nat"

definition shuffle :: "rng \<Rightarrow> nat \<Rightarrow> 'a list \<Rightarrow> 'a list" where
  "shuffle rng k xs = map (\<lambda>i. xs ! i) (sort_key (rng k) [0..<length xs])"

definition choice :: "rng \<Rightarrow> nat \<Rightarrow> 'a list \<Rightarrow> 'a" where
  "choice rng k xs = xs ! (rng k 0 mod length xs)"

lemma set_shuffle [simp]: "set (shuffle rng k xs) = set xs"
  by (auto simp: shuffle_def in_set_conv_nth)

lemma mset_shuffle [simp]: "mset (shuffle rng k xs) = mset xs"
proof -
  have "mset (shuffle rng k xs) = image_mset (\<lambda>i. xs ! i) (mset [0..<length xs])"
    by (simp add: shuffle_def)
  also have "\<dots> = mset (map (\<lambda>i. xs ! i) [0..<length xs])" by simp
  finally show ?thesis by (simp add: map_nth)
qed

lemma length_shuffle [simp]: "length (shuffle rng k xs) = length xs"
  by (simp add: shuffle_def)

lemma distinct_shuffle [simp]: "distinct (shuffle rng k xs) = distinct xs"
  by (metis mset_eq_imp_distinct_iff mset_shuffle)

lemma choice_in: "xs \<noteq> [] \<Longrightarrow> choice rng k xs \<in> set xs"
  by (simp add: choice_def)

end
