(* ===== verification/Pickban_Fill.thy ===== *)
theory Pickban_Fill
  imports Pickban_Board Matching Random_Choice
begin

text \<open>
  What an actor may choose on a step, why a draft is refused, and how the clock completes one: the
  second half of \<open>shared/domain/pick_ban_rules/runtime.py\<close>. The matching it uses is the search of
  theory \<open>Matching\<close> with a loop that does not stop early, so the locale \<open>bipartite_matcher\<close> is
  interpreted a second time.
\<close>

section \<open>The matching\<close>

text \<open>\<open>_matching\<close>: one search per key of the dictionary, in its order; the answer is \<open>{item: target}\<close>.\<close>

definition kuhn :: "('t, 'i) edges \<Rightarrow> ('i, 't) dict" where
  "kuhn E = foldl (\<lambda>M t. snd (snd (try_match E t (adj E t) {} M))) [] (dedup (map fst E))"

section \<open>Contexts\<close>

record target_player =
  tp_id :: int
  tp_role :: "string option"

record runtime_ctx =
  cx_kind :: string
  cx_round :: "int option"
  cx_available :: "int list"
  cx_groups :: "(int, string option) dict"
  cx_history :: history
  cx_targets :: "(int, target_player list) dict"
  cx_members :: "(int, int list) dict"
  cx_exclusions :: "(int, int list) dict"

definition group_of :: "runtime_ctx \<Rightarrow> int \<Rightarrow> string option" where
  "group_of cx i = norm_group (dict_get (cx_groups cx) i None)"

definition targets_for :: "runtime_ctx \<Rightarrow> int option \<Rightarrow> target_player list" where
  "targets_for cx actor = (case actor of None \<Rightarrow> [] | Some a \<Rightarrow> dict_get (cx_targets cx) a [])"

definition members_of :: "runtime_ctx \<Rightarrow> int option \<Rightarrow> int list" where
  "members_of cx actor = (case actor of None \<Rightarrow> [] | Some a \<Rightarrow> dict_get (cx_members cx) a [])"

definition excluded :: "runtime_ctx \<Rightarrow> int option \<Rightarrow> int list" where
  "excluded cx mem = (case mem of None \<Rightarrow> [] | Some m \<Rightarrow> dict_get (cx_exclusions cx) m [])"

record eligible_set =
  el_items :: "int list"
  el_by_target :: "(int, int list) dict option"

definition item_ctx_of :: "resolved_step \<Rightarrow> int option \<Rightarrow> runtime_ctx \<Rightarrow> int \<Rightarrow> string option \<Rightarrow> item_ctx" where
  "item_ctx_of s actor cx i role = \<lparr>ic_item_id = i, ic_group = group_of cx i, ic_kind = cx_kind cx, ic_actor = actor,
     ic_target_role = role, ic_round = cx_round cx, ic_history = (cx_history cx)\<lparr>current_step_index := Some (index s)\<rparr>\<rparr>"

fun filter_sum :: "('a \<Rightarrow> 'e + bool) \<Rightarrow> 'a list \<Rightarrow> 'e + 'a list" where
  "filter_sum f [] = Inr []"
| "filter_sum f (x # xs) = (case f x of Inl e \<Rightarrow> Inl e | Inr b \<Rightarrow>
     (case filter_sum f xs of Inl e \<Rightarrow> Inl e | Inr ys \<Rightarrow> Inr (if b then x # ys else ys)))"

definition filter_pool :: "(string \<times> json) list \<Rightarrow> int list \<Rightarrow> runtime_ctx \<Rightarrow> py_error + int list" where
  "filter_pool tree items cx = filter_sum (\<lambda>i. evaluate (JObj tree) (Item_Ctx
     \<lparr>ic_item_id = i, ic_group = group_of cx i, ic_kind = cx_kind cx, ic_actor = None, ic_target_role = None,
      ic_round = cx_round cx, ic_history = cx_history cx\<rparr>)) items"

definition team_picks :: "resolved_step \<Rightarrow> int option \<Rightarrow> runtime_ctx \<Rightarrow> int list" where
  "team_picks s actor cx = map item_id (filter (\<lambda>a. ai_action a = ''pick'' \<and> ai_actor a = actor \<and>
     ai_round a = cx_round cx \<and> step_index a < index s) (hist_items (cx_history cx)))"

definition assignable :: "int list \<Rightarrow> int list \<Rightarrow> runtime_ctx \<Rightarrow> (int, int) edges" where
  "assignable heroes members cx =
     map (\<lambda>m. (m, filter (\<lambda>h. h \<notin> set (excluded cx (Some m))) heroes)) (dedup members)"

section \<open>Eligibility\<close>

definition may_take :: "resolved_step \<Rightarrow> int option \<Rightarrow> runtime_ctx \<Rightarrow> string option \<Rightarrow> int \<Rightarrow> py_error + bool" where
  "may_take s actor cx role i = evaluate (JObj (eligible s)) (Item_Ctx (item_ctx_of s actor cx i role))"

definition keeps_assignable :: "resolved_step \<Rightarrow> int option \<Rightarrow> runtime_ctx \<Rightarrow> int list \<Rightarrow> int list" where
  "keeps_assignable s actor cx items =
    (let roster = members_of cx actor; picked = team_picks s actor cx
     in if action s = Pick \<and> member s = None \<and> roster \<noteq> []
        then filter (\<lambda>i. length (kuhn (assignable (picked @ [i]) roster cx)) = length picked + 1) items
        else items)"

definition eligible_per_target :: "resolved_step \<Rightarrow> int option \<Rightarrow> runtime_ctx \<Rightarrow> py_error + (int \<times> int list) list" where
  "eligible_per_target s actor cx =
    sum_map (\<lambda>t. map_sum id (Pair (tp_id t)) (filter_sum (may_take s actor cx (tp_role t)) (cx_available cx)))
      (targets_for cx actor)"

definition eligible_items :: "resolved_step \<Rightarrow> int option \<Rightarrow> runtime_ctx \<Rightarrow> int option \<Rightarrow> py_error + eligible_set" where
  "eligible_items s actor cx mem =
    (if action s = Assign then
       Inr \<lparr>el_items = filter (\<lambda>h. h \<notin> set (excluded cx mem)) (team_picks s actor cx), el_by_target = None\<rparr>
     else if target s = None then
       map_sum id (\<lambda>items. \<lparr>el_items = keeps_assignable s actor cx items, el_by_target = None\<rparr>)
         (filter_sum (may_take s actor cx None) (filter (\<lambda>i. i \<notin> set (excluded cx mem)) (cx_available cx)))
     else
       map_sum id (\<lambda>rows. \<lparr>el_items = dedup (concat (map snd rows)),
           el_by_target = Some (foldl (\<lambda>d (p, items). dict_set p items d) [] rows)\<rparr>)
         (eligible_per_target s actor cx))"

section \<open>Constraints\<close>

definition con_get :: "rule_constraint \<Rightarrow> string \<Rightarrow> json \<Rightarrow> json" where
  "con_get c k dflt = (case map_of (con_params c) k of None \<Rightarrow> dflt | Some v \<Rightarrow> v)"

definition max_rules :: "resolved_step \<Rightarrow> py_error + (int \<times> string \<times> string option) list" where
  "max_rules s = sum_map (\<lambda>c. map_sum id (\<lambda>n. (n, py_str (con_get c ''scope'' (JStr ''step'')), normalize_group (con_get c ''group'' JNull)))
       (py_int (con_get c ''max'' (JInt 1))))
     (filter (\<lambda>c. con_type c = ''max_per_group'') (constraints s))"

definition min_rules :: "resolved_step \<Rightarrow> py_error + (int \<times> string option) list" where
  "min_rules s = sum_map (\<lambda>c. map_sum id (\<lambda>n. (n, normalize_group (con_get c ''group'' JNull))) (py_int (con_get c ''min'' (JInt 1))))
     (filter (\<lambda>c. con_type c = ''min_per_group'') (constraints s))"

definition one_per_target :: "resolved_step \<Rightarrow> bool" where
  "one_per_target s \<longleftrightarrow> list_ex (\<lambda>c. con_type c = ''one_per_target'') (constraints s)"

definition round_group_counts :: "resolved_step \<Rightarrow> int option \<Rightarrow> runtime_ctx \<Rightarrow> (string option, int) dict" where
  "round_group_counts s actor cx = foldl (\<lambda>d a. counter_add (group_of cx (item_id a)) 1 d) []
     (filter (\<lambda>a. \<not> (ai_actor a \<noteq> actor \<or> ai_action a \<noteq> action_name (action s) \<or> ai_round a \<noteq> cx_round cx) \<and>
        \<not> step_index a \<ge> index s) (hist_items (cx_history cx)))"

definition effective_min :: "resolved_step \<Rightarrow> int option \<Rightarrow> runtime_ctx \<Rightarrow> eligible_set \<Rightarrow> int" where
  "effective_min s actor cx el =
    (if action s = Assign then
       min (min_items s) (int (length (kuhn (assignable (team_picks s actor cx) (members_of cx actor) cx))))
     else min (min_items s) (int (if target s \<noteq> None \<and> one_per_target s
       then length (kuhn (case el_by_target el of None \<Rightarrow> [] | Some d \<Rightarrow> d)) else length (el_items el))))"

section \<open>Why a draft is refused\<close>

datatype draft_issue =
    Too_Many_Items | Duplicate_Item | Item_Not_Available | Item_Not_Eligible | Target_Required | Target_Unknown
  | Target_Not_Allowed | One_Per_Target | Max_Per_Group | Not_Enough_Items | Min_Per_Group
  | Member_Unknown | Duplicate_Member | Item_Not_Picked

definition choice_issue :: "resolved_step \<Rightarrow> int option \<Rightarrow> runtime_ctx \<Rightarrow> eligible_set \<Rightarrow> draft_item \<Rightarrow> draft_issue list" where
  "choice_issue s actor cx el i =
    (if di_item i \<notin> set (cx_available cx) then [Item_Not_Available]
     else if target s = None then (if di_item i \<notin> set (el_items el) then [Item_Not_Eligible] else [])
     else case di_target i of
       None \<Rightarrow> [Target_Required]
     | Some p \<Rightarrow>
         if p \<notin> set (map tp_id (targets_for cx actor)) then [Target_Unknown]
         else if di_item i \<notin> set (dict_get (case el_by_target el of None \<Rightarrow> [] | Some d \<Rightarrow> d) p []) then [Item_Not_Eligible]
         else [])"

text \<open>The loop over the draft carries the items and targets seen and the group counter.\<close>

fun check_items ::
  "resolved_step \<Rightarrow> int option \<Rightarrow> runtime_ctx \<Rightarrow> eligible_set \<Rightarrow> int list \<Rightarrow> int list \<Rightarrow> (string option, int) dict \<Rightarrow>
    draft_item list \<Rightarrow> draft_issue list \<times> (string option, int) dict" where
  "check_items s actor cx el seen targets counts [] = ([], counts)"
| "check_items s actor cx el seen targets counts (i # ds) =
    (let here = (if di_item i \<in> set seen then [Duplicate_Item] else []) @ choice_issue s actor cx el i @
           (if target s = None \<and> di_target i \<noteq> None then [Target_Not_Allowed] else []) @
           (case di_target i of None \<Rightarrow> [] | Some p \<Rightarrow> if one_per_target s \<and> p \<in> set targets then [One_Per_Target] else []);
         targets' = (case di_target i of None \<Rightarrow> targets | Some p \<Rightarrow> if one_per_target s then p # targets else targets);
         (later, counts') = check_items s actor cx el (di_item i # seen) targets'
           (counter_add (group_of cx (di_item i)) 1 counts) ds
     in (here @ later, counts'))"

definition max_issues ::
  "(int \<times> string \<times> string option) list \<Rightarrow> (string option, int) dict \<Rightarrow> (string option, int) dict \<Rightarrow> draft_issue list" where
  "max_issues rules carried counts = concat (map (\<lambda>(most, scope, group).
     concat (map (\<lambda>(candidate, n).
       if group \<noteq> None \<and> candidate \<noteq> group then []
       else if n + (if scope = ''round'' then dict_get carried candidate 0 else 0) > most then [Max_Per_Group] else []) counts)) rules)"

definition draft_issues ::
  "resolved_step \<Rightarrow> int option \<Rightarrow> runtime_ctx \<Rightarrow> eligible_set \<Rightarrow> (int \<times> string \<times> string option) list \<Rightarrow>
    (int \<times> string option) list \<Rightarrow> bool \<Rightarrow> draft_item list \<Rightarrow> draft_issue list" where
  "draft_issues s actor cx el maxs mins final ds =
    (let (issues, counts) = check_items s actor cx el [] [] [] ds
     in dedup ((if int (length ds) > cnt s then [Too_Many_Items] else []) @ issues @
        max_issues maxs (round_group_counts s actor cx) counts @
        (if final then
           (if int (length ds) < effective_min s actor cx el then [Not_Enough_Items] else []) @
           concat (map (\<lambda>(n, group). if dict_get counts group 0 < n then [Min_Per_Group] else []) mins)
         else [])))"

fun check_assignment ::
  "int list \<Rightarrow> int list \<Rightarrow> runtime_ctx \<Rightarrow> int list \<Rightarrow> int list \<Rightarrow> draft_item list \<Rightarrow> draft_issue list" where
  "check_assignment picks roster cx seen mems [] = []"
| "check_assignment picks roster cx seen mems (i # ds) =
    (if di_item i \<in> set seen then [Duplicate_Item] else []) @
    (case di_member i of
       Some m \<Rightarrow>
         if m \<notin> set roster then Member_Unknown # check_assignment picks roster cx (di_item i # seen) mems ds
         else (if m \<in> set mems then [Duplicate_Member] else []) @
           (if di_item i \<notin> set picks then [Item_Not_Picked]
            else if di_item i \<in> set (excluded cx (Some m)) then [Item_Not_Eligible] else []) @
           check_assignment picks roster cx (di_item i # seen) (m # mems) ds
     | None \<Rightarrow> Member_Unknown # check_assignment picks roster cx (di_item i # seen) mems ds)"

definition assigned_members :: "int list \<Rightarrow> draft_item list \<Rightarrow> int list" where
  "assigned_members roster ds = filter (\<lambda>m. m \<in> set roster) (List.map_filter di_member ds)"

definition assignment_issues ::
  "resolved_step \<Rightarrow> int option \<Rightarrow> draft_item list \<Rightarrow> runtime_ctx \<Rightarrow> bool \<Rightarrow> draft_issue list" where
  "assignment_issues s actor ds cx final =
    (let picks = team_picks s actor cx; roster = members_of cx actor;
         issues = (if int (length ds) > cnt s then [Too_Many_Items] else []) @ check_assignment picks roster cx [] [] ds;
         rest = assignable (filter (\<lambda>h. h \<notin> set (map di_item ds)) picks)
           (filter (\<lambda>m. m \<notin> set (assigned_members roster ds)) roster) cx;
         stuck = (if issues = [] \<and> length ds + length (kuhn rest) < length (kuhn (assignable picks roster cx))
           then [Item_Not_Eligible] else [])
     in dedup (issues @ stuck @
        (if final \<and> int (length ds) < effective_min s actor cx \<lparr>el_items = [], el_by_target = None\<rparr> then [Not_Enough_Items] else [])))"

definition validate_items ::
  "resolved_step \<Rightarrow> int option \<Rightarrow> draft_item list \<Rightarrow> runtime_ctx \<Rightarrow> bool \<Rightarrow> int option \<Rightarrow> py_error + draft_issue list" where
  "validate_items s actor ds cx final mem =
    (if action s = Assign then Inr (assignment_issues s actor ds cx final)
     else case eligible_items s actor cx mem of
       Inl e \<Rightarrow> Inl e
     | Inr el \<Rightarrow> (case max_rules s of
         Inl e \<Rightarrow> Inl e
       | Inr maxs \<Rightarrow> (case (if final then min_rules s else Inr []) of
           Inl e \<Rightarrow> Inl e
         | Inr mins \<Rightarrow> Inr (draft_issues s actor cx el maxs mins final ds))))"

section \<open>Filling\<close>

definition fill_options :: "resolved_step \<Rightarrow> draft_item list \<Rightarrow> eligible_set \<Rightarrow> draft_item list" where
  "fill_options s filled el =
    (let used = map di_item filled
     in if target s = None then
          map (\<lambda>i. \<lparr>di_item = i, di_target = None, di_member = None\<rparr>) (filter (\<lambda>i. i \<notin> set used) (el_items el))
        else concat (map (\<lambda>(p, items). map (\<lambda>i. \<lparr>di_item = i, di_target = Some p, di_member = None\<rparr>)
            (filter (\<lambda>i. i \<notin> set used) items)) (case el_by_target el of None \<Rightarrow> [] | Some d \<Rightarrow> d)))"

definition fill_candidates ::
  "resolved_step \<Rightarrow> int option \<Rightarrow> runtime_ctx \<Rightarrow> draft_item list \<Rightarrow> eligible_set \<Rightarrow> rng \<Rightarrow> nat \<Rightarrow> int option \<Rightarrow>
    py_error + draft_item list" where
  "fill_candidates s actor cx filled el rng k mem =
    filter_sum (\<lambda>i. map_sum id (\<lambda>issues. issues = []) (validate_items s actor (filled @ [i]) cx False mem))
      (shuffle rng k (fill_options s filled el))"

function fill_loop ::
  "resolved_step \<Rightarrow> int option \<Rightarrow> runtime_ctx \<Rightarrow> eligible_set \<Rightarrow> rng \<Rightarrow> nat \<Rightarrow> int option \<Rightarrow> draft_item list \<Rightarrow>
    py_error + draft_item list" where
  "fill_loop s actor cx el rng k mem filled =
    (if \<not> int (length filled) < cnt s then Inr filled
     else case fill_candidates s actor cx filled el rng k mem of
       Inl e \<Rightarrow> Inl e
     | Inr cs \<Rightarrow> if cs = [] then Inr filled
         else fill_loop s actor cx el rng (k + 2) mem (filled @ [choice rng (k + 1) cs]))"
  by pat_completeness auto
termination
  by (relation "measure (\<lambda>(s, actor, cx, el, rng, k, mem, filled). nat (cnt s - int (length filled)))") auto

declare fill_loop.simps [simp del]

fun keep_extendable ::
  "resolved_step \<Rightarrow> int option \<Rightarrow> runtime_ctx \<Rightarrow> draft_item list \<Rightarrow> draft_item list \<Rightarrow> draft_item list" where
  "keep_extendable s actor cx kept [] = kept"
| "keep_extendable s actor cx kept (i # ds) =
    (if assignment_issues s actor (kept @ [i]) cx False = [] then keep_extendable s actor cx (kept @ [i]) ds
     else keep_extendable s actor cx kept ds)"

definition random_assignment ::
  "resolved_step \<Rightarrow> int option \<Rightarrow> draft_item list \<Rightarrow> runtime_ctx \<Rightarrow> rng \<Rightarrow> draft_item list" where
  "random_assignment s actor ds cx rng =
    (let kept = keep_extendable s actor cx [] ds;
         heroes = filter (\<lambda>h. h \<notin> set (map di_item kept)) (team_picks s actor cx);
         mems = filter (\<lambda>m. Some m \<notin> set (map di_member kept)) (members_of cx actor);
         matched = kuhn (assignable (shuffle rng 0 heroes) (shuffle rng 1 mems) cx)
     in take (nat (cnt s)) (kept @ map (\<lambda>(h, m). \<lparr>di_item = h, di_target = None, di_member = Some m\<rparr>) matched))"

definition random_fill ::
  "resolved_step \<Rightarrow> int option \<Rightarrow> draft_item list \<Rightarrow> runtime_ctx \<Rightarrow> rng \<Rightarrow> int option \<Rightarrow> py_error + draft_item list" where
  "random_fill s actor ds cx rng mem =
    (if action s = Assign then Inr (random_assignment s actor ds cx rng)
     else case eligible_items s actor cx mem of
       Inl e \<Rightarrow> Inl e
     | Inr el \<Rightarrow> fill_loop s actor cx el rng 0 mem ds)"

text \<open>The options of every owing seat, in the shuffled order; seat \<open>j\<close> shuffles with row \<open>j + 1\<close>.\<close>

definition seat_options ::
  "resolved_step \<Rightarrow> runtime_ctx \<Rightarrow> rng \<Rightarrow> (int \<times> int) list \<Rightarrow> py_error + (nat, int) edges" where
  "seat_options s cx rng seats = sum_map (\<lambda>(j, actor, mem).
     case eligible_items s (Some actor) cx (Some mem) of
       Inl e \<Rightarrow> Inl e
     | Inr el \<Rightarrow> map_sum id (\<lambda>cs. (j, map di_item cs)) (fill_candidates s (Some actor) cx [] el rng (j + 1) (Some mem)))
     (enumerate 0 seats)"

definition fill_member_answers ::
  "resolved_step \<Rightarrow> (int \<times> int) list \<Rightarrow> runtime_ctx \<Rightarrow> rng \<Rightarrow> py_error + ((int \<times> int), draft_item list) dict" where
  "fill_member_answers s owing cx rng =
    (let seats = shuffle rng 0 owing
     in case seat_options s cx rng seats of
       Inl e \<Rightarrow> Inl e
     | Inr options \<Rightarrow>
         (let heroes = foldl (\<lambda>d (hero, j). dict_set (seats ! j) hero d) [] (kuhn options)
          in Inr (map (\<lambda>seat. (seat, case map_of heroes seat of
                None \<Rightarrow> [] | Some h \<Rightarrow> [\<lparr>di_item = h, di_target = None, di_member = None\<rparr>])) owing)))"

definition resolve_system_step :: "resolved_step \<Rightarrow> runtime_ctx \<Rightarrow> rng \<Rightarrow> py_error + draft_item list" where
  "resolve_system_step s cx rng =
    (if action s = Decider then
       map_sum id (\<lambda>el. if el_items el = [] then []
         else [\<lparr>di_item = choice rng 0 (el_items el), di_target = None, di_member = None\<rparr>]) (eligible_items s None cx None)
     else random_fill s None [] cx rng None)"

section \<open>The matching meets the contract of a matcher\<close>

lemma kuhn_loop_certified:
  assumes "certified (\<lambda>t. set (adj E t)) P (map_of M)" and "distinct (map fst M)" and "distinct cs" and "set cs \<inter> P = {}"
  shows "certified (\<lambda>t. set (adj E t)) (P \<union> set cs) (map_of (foldl (\<lambda>M t. snd (snd (try_match E t (adj E t) {} M))) M cs)) \<and>
    distinct (map fst (foldl (\<lambda>M t. snd (snd (try_match E t (adj E t) {} M))) M cs))"
  using assms
proof (induction cs arbitrary: P M)
  case (Cons c cs)
  obtain ok V M' where run: "try_match E c (adj E c) {} M = (ok, V, M')" by (metis prod_cases3)
  have c: "c \<notin> P" using Cons.prems by auto
  note step = certified_step [OF Cons.prems(1) c run]
  have "distinct (map fst M')" using search_distinct_keys [OF try_match_search [OF run] Cons.prems(2)] .
  then show ?case using Cons.IH [OF step(1)] Cons.prems run by simp
qed simp

lemma kuhn_certified:
  "certified (\<lambda>t. set (adj E t)) (fst ` set E) (map_of (kuhn E)) \<and> distinct (map fst (kuhn E))"
  using kuhn_loop_certified [of E "{}" "[]" "dedup (map fst E)"] by (simp add: kuhn_def)

interpretation km: bipartite_matcher "\<lambda>E. fst ` set E" "\<lambda>E t. set (adj E t)" "\<lambda>E. map_of (kuhn E)"
  by unfold_locales (simp_all add: kuhn_certified)

lemma kuhn_distinct_items: "distinct (map fst (kuhn E))"
  using kuhn_certified by blast

lemma kuhn_matching: "matching_along (\<lambda>t. set (adj E t)) (fst ` set E) (map_of (kuhn E))"
  by (rule km.solve_matching)

lemma kuhn_pair: "(i, t) \<in> set (kuhn E) \<Longrightarrow> t \<in> fst ` set E \<and> i \<in> set (adj E t)"
  using matching_alongD [OF kuhn_matching] kuhn_distinct_items by (metis map_of_is_SomeI)

lemma kuhn_distinct_targets: "distinct (map snd (kuhn E))"
proof -
  have "inj_on snd (set (kuhn E))"
  proof (rule inj_onI)
    fix p q assume p: "p \<in> set (kuhn E)" "q \<in> set (kuhn E)" "snd p = snd q"
    obtain i t j where pq: "p = (i, t)" "q = (j, t)" using p(3) by (cases p; cases q) auto
    have m: "map_of (kuhn E) i = Some t" "map_of (kuhn E) j = Some t"
      using p pq kuhn_distinct_items [of E] by (auto intro: map_of_is_SomeI)
    then have "i = j" using kuhn_matching [of E] unfolding matching_along_def inj_on_def by (metis domI)
    then show "p = q" using pq by simp
  qed
  moreover have "distinct (kuhn E)" using kuhn_distinct_items by (metis distinct_map)
  ultimately show ?thesis by (simp add: distinct_map)
qed

lemma kuhn_size: "length (kuhn E) = card (dom (map_of (kuhn E)))"
  by (rule length_eq_card_dom [OF kuhn_distinct_items])

lemma kuhn_maximum:
  "matching_along (\<lambda>t. set (adj E t)) (fst ` set E) m \<Longrightarrow> card (dom m) \<le> length (kuhn E)"
  using km.maximum by (simp add: kuhn_size)

text \<open>The same for a matching given as a list of pairs.\<close>

lemma kuhn_maximum_list:
  assumes "distinct (map fst ps)" and "distinct (map snd ps)"
    and "\<And>i t. (i, t) \<in> set ps \<Longrightarrow> t \<in> fst ` set E \<and> i \<in> set (adj E t)"
  shows "length ps \<le> length (kuhn E)"
proof -
  have "inj_on (map_of ps) (dom (map_of ps))"
  proof (rule inj_onI)
    fix i j assume "i \<in> dom (map_of ps)" "j \<in> dom (map_of ps)" and eq: "map_of ps i = map_of ps j"
    then obtain t where "(i, t) \<in> set ps" "(j, t) \<in> set ps" using map_of_SomeD by (metis domD)
    then show "i = j" using assms(2) unfolding distinct_map inj_on_def by (metis fst_conv snd_conv)
  qed
  moreover have "t \<in> fst ` set E \<and> i \<in> set (adj E t)" if "map_of ps i = Some t" for i t
    using assms(3) [OF map_of_SomeD [OF that]] .
  ultimately have "matching_along (\<lambda>t. set (adj E t)) (fst ` set E) (map_of ps)"
    by (simp add: matching_along_def)
  from kuhn_maximum [OF this] show ?thesis by (simp add: length_eq_card_dom [OF assms(1)])
qed

text \<open>Graphs with the same edges have matchings of the same size.\<close>

lemma kuhn_size_cong:
  assumes "fst ` set E = fst ` set F" and "\<And>t. set (adj E t) = set (adj F t)"
  shows "length (kuhn E) = length (kuhn F)"
proof (rule antisym)
  show "length (kuhn E) \<le> length (kuhn F)"
    by (rule kuhn_maximum_list [OF kuhn_distinct_items kuhn_distinct_targets]) (use kuhn_pair assms in fastforce)
  show "length (kuhn F) \<le> length (kuhn E)"
    by (rule kuhn_maximum_list [OF kuhn_distinct_items kuhn_distinct_targets]) (use kuhn_pair assms in fastforce)
qed

section \<open>Drafts without an issue\<close>

lemma dedup_Nil [simp]: "dedup xs = [] \<longleftrightarrow> xs = []"
  by (cases xs) simp_all

definition targets_named :: "draft_item list \<Rightarrow> int list" where
  "targets_named ds = List.map_filter di_target ds"

lemma targets_named_simps [simp]:
  "targets_named [] = []" "targets_named (i # ds) = (case di_target i of None \<Rightarrow> [] | Some p \<Rightarrow> [p]) @ targets_named ds"
  by (simp_all add: targets_named_def map_filter_simps split: option.split)

lemma check_items_clean:
  "fst (check_items s actor cx el seen targets counts ds) = [] \<longleftrightarrow>
     distinct (map di_item ds) \<and> set (map di_item ds) \<inter> set seen = {} \<and>
     (\<forall>i \<in> set ds. choice_issue s actor cx el i = [] \<and> (target s = None \<longrightarrow> di_target i = None)) \<and>
     (one_per_target s \<longrightarrow> distinct (targets_named ds) \<and> set (targets_named ds) \<inter> set targets = {})"
proof (induction ds arbitrary: seen targets counts)
  case (Cons i ds)
  then show ?case
    by (cases "di_target i"; cases "one_per_target s") (auto simp: Let_def case_prod_beta split: if_splits)
qed simp

lemma min_issues_Nil:
  fixes counts :: "(string option, int) dict"
  shows "concat (map (\<lambda>(n, group). if dict_get counts group 0 < n then [Min_Per_Group] else []) mins) = [] \<longleftrightarrow>
    list_all (\<lambda>(n, group). n \<le> dict_get counts group 0) mins"
proof (induction mins)
  case (Cons m mins)
  then show ?case by (cases m) (auto simp: not_less simp del: concat_eq_Nil_conv)
qed simp

lemma draft_clean:
  "draft_issues s actor cx el maxs mins final ds = [] \<longleftrightarrow>
     int (length ds) \<le> cnt s \<and> fst (check_items s actor cx el [] [] [] ds) = [] \<and>
     max_issues maxs (round_group_counts s actor cx) (snd (check_items s actor cx el [] [] [] ds)) = [] \<and>
     (final \<longrightarrow> effective_min s actor cx el \<le> int (length ds) \<and>
       list_all (\<lambda>(n, group). n \<le> dict_get (snd (check_items s actor cx el [] [] [] ds)) group 0) mins)"
  unfolding draft_issues_def case_prod_beta [of _ "check_items s actor cx el [] [] [] ds"] Let_def dedup_Nil append_is_Nil_conv
  by (simp only: min_issues_Nil [symmetric] if_split) (auto simp: not_less)

definition no_group_rules :: "resolved_step \<Rightarrow> bool" where
  "no_group_rules s \<longleftrightarrow> list_all (\<lambda>c. con_type c \<noteq> ''max_per_group'' \<and> con_type c \<noteq> ''min_per_group'') (constraints s)"

lemma no_group_rules_read: "no_group_rules s \<Longrightarrow> max_rules s = Inr [] \<and> min_rules s = Inr []"
proof -
  assume "no_group_rules s"
  then have "filter (\<lambda>c. con_type c = ''max_per_group'') (constraints s) = []"
    "filter (\<lambda>c. con_type c = ''min_per_group'') (constraints s) = []"
    by (auto simp: no_group_rules_def list_all_iff filter_empty_conv)
  then show ?thesis by (simp add: max_rules_def min_rules_def)
qed

lemma filter_sum_Inr: "filter_sum f xs = Inr ys \<Longrightarrow> ys = filter (\<lambda>x. f x = Inr True) xs"
  by (induction xs arbitrary: ys) (auto split: sum.splits)

lemma sum_map_Inr_nth: "sum_map f xs = Inr ys \<Longrightarrow> length ys = length xs \<and> (\<forall>i < length xs. f (xs ! i) = Inr (ys ! i))"
proof (induction xs arbitrary: ys)
  case (Cons x xs)
  then obtain y ys' where "f x = Inr y" "sum_map f xs = Inr ys'" "ys = y # ys'" by (auto split: sum.splits)
  then show ?case using Cons.IH [of ys'] by (auto simp: nth_Cons split: nat.split)
qed simp

section \<open>A lock is always possible\<close>

lemma set_keeps_assignable: "set (keeps_assignable s actor cx items) \<subseteq> set items"
  by (auto simp: keeps_assignable_def Let_def)

lemma distinct_keeps_assignable: "distinct items \<Longrightarrow> distinct (keeps_assignable s actor cx items)"
  by (simp add: keeps_assignable_def Let_def)

lemma eligible_plain:
  assumes "action s \<noteq> Assign" and "target s = None" and "eligible_items s actor cx mem = Inr el"
    and "distinct (cx_available cx)"
  shows "distinct (el_items el) \<and> set (el_items el) \<subseteq> set (cx_available cx)"
proof -
  obtain items where "filter_sum (may_take s actor cx None) (filter (\<lambda>i. i \<notin> set (excluded cx mem)) (cx_available cx)) = Inr items"
    and el: "el_items el = keeps_assignable s actor cx items"
    using assms(1-3) by (auto simp: eligible_items_def map_sum_def split: sum.splits)
  then have "items = filter (\<lambda>i. may_take s actor cx None i = Inr True) (filter (\<lambda>i. i \<notin> set (excluded cx mem)) (cx_available cx))"
    using filter_sum_Inr by metis
  then have "distinct items" "set items \<subseteq> set (cx_available cx)" using assms(4) by auto
  then show ?thesis using distinct_keeps_assignable set_keeps_assignable unfolding el by blast
qed

lemma eligible_target:
  assumes "action s \<noteq> Assign" and "target s \<noteq> None" and "eligible_items s actor cx mem = Inr el"
    and "distinct (map tp_id (targets_for cx actor))"
  shows "\<exists>rows. el = \<lparr>el_items = dedup (concat (map snd rows)), el_by_target = Some rows\<rparr> \<and>
    map fst rows = map tp_id (targets_for cx actor) \<and> (\<forall>(p, items) \<in> set rows. set items \<subseteq> set (cx_available cx))"
proof -
  obtain rows where rows: "eligible_per_target s actor cx = Inr rows"
    and el: "el = \<lparr>el_items = dedup (concat (map snd rows)), el_by_target = Some (foldl (\<lambda>d (p, items). dict_set p items d) [] rows)\<rparr>"
    using assms(1-3) by (auto simp: eligible_items_def map_sum_def split: sum.splits)
  have nth: "length rows = length (targets_for cx actor)"
    "map_sum id (Pair (tp_id (targets_for cx actor ! k)))
      (filter_sum (may_take s actor cx (tp_role (targets_for cx actor ! k))) (cx_available cx)) = Inr (rows ! k)"
    if "k < length rows" for k
    using sum_map_Inr_nth [OF rows [unfolded eligible_per_target_def]] that by simp_all
  have len: "length rows = length (targets_for cx actor)"
    using sum_map_Inr_nth [OF rows [unfolded eligible_per_target_def]] by simp
  have row: "fst (rows ! k) = tp_id (targets_for cx actor ! k) \<and> set (snd (rows ! k)) \<subseteq> set (cx_available cx)"
    if k: "k < length rows" for k
  proof (cases "filter_sum (may_take s actor cx (tp_role (targets_for cx actor ! k))) (cx_available cx)")
    case (Inr ys)
    then have "rows ! k = (tp_id (targets_for cx actor ! k), ys)" using nth(2) [OF k] by simp
    then show ?thesis using filter_sum_Inr [OF Inr] by auto
  qed (use nth(2) [OF k] in simp)
  have keys: "map fst rows = map tp_id (targets_for cx actor)"
    by (rule nth_equalityI) (use len row in simp_all)
  then have "foldl (\<lambda>d (p, items). dict_set p items d) [] rows = rows"
    using foldl_dict_set_fresh [of "[]" rows] assms(4) by simp
  moreover have "\<forall>(p, items) \<in> set rows. set items \<subseteq> set (cx_available cx)"
    using row by (fastforce simp: in_set_conv_nth)
  ultimately show ?thesis using el keys by blast
qed

text \<open>A draft that names distinct eligible items, each for a target of its own where one is asked for.\<close>

lemma clean_choices:
  assumes "distinct (map di_item ds)" and "\<forall>i \<in> set ds. choice_issue s actor cx el i = [] \<and> (target s = None \<longrightarrow> di_target i = None)"
    and "one_per_target s \<longrightarrow> distinct (targets_named ds)"
    and "int (length ds) \<le> cnt s" and "effective_min s actor cx el \<le> int (length ds)"
  shows "draft_issues s actor cx el [] [] True ds = []"
  using assms by (simp add: draft_clean check_items_clean max_issues_def)

lemma plain_choice_ok:
  assumes "target s = None" and "i \<in> set (el_items el)" and "set (el_items el) \<subseteq> set (cx_available cx)"
  shows "choice_issue s actor cx el \<lparr>di_item = i, di_target = None, di_member = None\<rparr> = []"
  using assms by (auto simp: choice_issue_def)

lemma target_choice_ok:
  assumes "target s \<noteq> None" and "el_by_target el = Some rows" and "(p, items) \<in> set rows" and "i \<in> set items"
    and "distinct (map fst rows)" and "map fst rows = map tp_id (targets_for cx actor)"
    and "\<forall>(p, items) \<in> set rows. set items \<subseteq> set (cx_available cx)"
  shows "choice_issue s actor cx el \<lparr>di_item = i, di_target = Some p, di_member = None\<rparr> = []"
proof -
  have "dict_get rows p [] = items" using assms(3,5) by (simp add: dict_get_def map_of_is_SomeI)
  moreover have "p \<in> set (map tp_id (targets_for cx actor))" using assms(3,6) by (metis fst_conv image_eqI list.set_map)
  moreover have "i \<in> set (cx_available cx)" using assms(3,4,7) by auto
  ultimately show ?thesis using assms(1,2,4) by (auto simp: choice_issue_def)
qed

lemma draft_of_size:
  assumes "effective_min s actor cx el \<le> int n" and "min_items s \<le> cnt s" and "0 \<le> cnt s"
    and "\<And>m. m \<le> n \<Longrightarrow> effective_min s actor cx el \<le> int m \<Longrightarrow> int m \<le> cnt s \<Longrightarrow>
      \<exists>ds. draft_issues s actor cx el [] [] True ds = []"
  shows "\<exists>ds. draft_issues s actor cx el [] [] True ds = []"
proof (rule assms(4))
  have "effective_min s actor cx el \<le> min_items s" by (simp add: effective_min_def)
  then show "int (nat (effective_min s actor cx el)) \<le> cnt s" using assms(2,3) by linarith
qed (use assms(1) in linarith)+

lemma lock_possible_plain:
  assumes "action s \<noteq> Assign" and "target s = None" and "eligible_items s actor cx mem = Inr el"
    and "distinct (cx_available cx)" and "min_items s \<le> cnt s" and "0 \<le> cnt s"
  shows "\<exists>ds. draft_issues s actor cx el [] [] True ds = []"
proof (rule draft_of_size [OF _ assms(5,6)])
  show "effective_min s actor cx el \<le> int (length (el_items el))" using assms(1,2) by (simp add: effective_min_def)
  fix m assume m: "m \<le> length (el_items el)" "effective_min s actor cx el \<le> int m" "int m \<le> cnt s"
  let ?ds = "map (\<lambda>i. \<lparr>di_item = i, di_target = None, di_member = None\<rparr>) (take m (el_items el))"
  note el = eligible_plain [OF assms(1-4)]
  have "draft_issues s actor cx el [] [] True ?ds = []"
  proof (rule clean_choices)
    show "distinct (map di_item ?ds)" using el by (simp add: o_def)
    show "\<forall>i \<in> set ?ds. choice_issue s actor cx el i = [] \<and> (target s = None \<longrightarrow> di_target i = None)"
      using el plain_choice_ok [OF assms(2), of _ el cx actor] by (auto dest: in_set_takeD)
    have "targets_named ?ds = []" by (simp add: targets_named_def map_filter_def)
    then show "one_per_target s \<longrightarrow> distinct (targets_named ?ds)" by simp
  qed (use m in simp_all)
  then show "\<exists>ds. draft_issues s actor cx el [] [] True ds = []" by blast
qed

lemma targets_named_all: "targets_named (map (\<lambda>(i, t). \<lparr>di_item = i, di_target = Some t, di_member = mm\<rparr>) ps) = map snd ps"
  by (induction ps) auto

text \<open>\<open>ps\<close>: items with the targets they are named for.\<close>

lemma pairs_ok:
  assumes "target s \<noteq> None" and "el_by_target el = Some rows" and "distinct (map fst rows)"
    and "map fst rows = map tp_id (targets_for cx actor)" and "\<forall>(p, items) \<in> set rows. set items \<subseteq> set (cx_available cx)"
    and "distinct (map fst ps)" and "one_per_target s \<longrightarrow> distinct (map snd ps)"
    and "\<And>i t. (i, t) \<in> set ps \<Longrightarrow> \<exists>items. (t, items) \<in> set rows \<and> i \<in> set items"
    and "int (length ps) \<le> cnt s" and "effective_min s actor cx el \<le> int (length ps)"
  shows "draft_issues s actor cx el [] [] True (map (\<lambda>(i, t). \<lparr>di_item = i, di_target = Some t, di_member = None\<rparr>) ps) = []"
proof (rule clean_choices)
  show "distinct (map di_item (map (\<lambda>(i, t). \<lparr>di_item = i, di_target = Some t, di_member = None\<rparr>) ps))"
    using assms(6) by (simp add: o_def case_prod_beta)
  show "\<forall>i \<in> set (map (\<lambda>(i, t). \<lparr>di_item = i, di_target = Some t, di_member = None\<rparr>) ps).
      choice_issue s actor cx el i = [] \<and> (target s = None \<longrightarrow> di_target i = None)"
    using target_choice_ok [OF assms(1,2) _ _ assms(3,4,5)] assms(1,8) by fastforce
qed (use assms(7,9,10) in \<open>simp_all add: targets_named_all\<close>)

lemma adj_dict: "distinct (map fst rows) \<Longrightarrow> i \<in> set (adj rows t) \<Longrightarrow> \<exists>items. (t, items) \<in> set rows \<and> i \<in> set items"
  by (auto simp: adj_def dict_get_def dest: map_of_SomeD split: option.splits)

lemma lock_possible_target:
  assumes "action s \<noteq> Assign" and "target s \<noteq> None" and "eligible_items s actor cx mem = Inr el"
    and "distinct (map tp_id (targets_for cx actor))" and "min_items s \<le> cnt s" and "0 \<le> cnt s"
  shows "\<exists>ds. draft_issues s actor cx el [] [] True ds = []"
proof -
  obtain rows where el: "el = \<lparr>el_items = dedup (concat (map snd rows)), el_by_target = Some rows\<rparr>"
    and keys: "map fst rows = map tp_id (targets_for cx actor)"
    and avail: "\<forall>(p, items) \<in> set rows. set items \<subseteq> set (cx_available cx)"
    using eligible_target [OF assms(1-4)] by blast
  have by_target: "el_by_target el = Some rows" and dist: "distinct (map fst rows)" using el keys assms(4) by simp_all
  note ok = pairs_ok [OF assms(2) by_target dist keys avail]
  define ps where "ps = (if one_per_target s then kuhn rows
    else map (\<lambda>i. (i, fst (SOME r. r \<in> set rows \<and> i \<in> set (snd r)))) (el_items el))"
  have some: "(SOME r. r \<in> set rows \<and> i \<in> set (snd r)) \<in> set rows \<and> i \<in> set (snd (SOME r. r \<in> set rows \<and> i \<in> set (snd r)))"
    if "i \<in> set (el_items el)" for i
    by (rule someI_ex) (use that el in force)
  have pair: "\<exists>items. (t, items) \<in> set rows \<and> i \<in> set items" if "(i, t) \<in> set ps" for i t
  proof (cases "one_per_target s")
    case True
    then show ?thesis using that kuhn_pair [of i t rows] adj_dict [OF dist] by (auto simp: ps_def)
  next
    case False
    then have i: "i \<in> set (el_items el)" and t: "t = fst (SOME r. r \<in> set rows \<and> i \<in> set (snd r))"
      using that by (auto simp: ps_def)
    define row where "row = (SOME r. r \<in> set rows \<and> i \<in> set (snd r))"
    have "row \<in> set rows" "i \<in> set (snd row)" using some [OF i] by (simp_all add: row_def)
    then show ?thesis unfolding t row_def [symmetric] by (intro exI [of _ "snd row"]) simp
  qed
  have fsts: "distinct (map fst ps)" using el kuhn_distinct_items [of rows] by (simp add: ps_def o_def)
  have snds: "one_per_target s \<longrightarrow> distinct (map snd ps)" using kuhn_distinct_targets [of rows] by (simp add: ps_def)
  show ?thesis
  proof (rule draft_of_size [OF _ assms(5,6)])
    show "effective_min s actor cx el \<le> int (length ps)"
      using assms(1,2) by_target by (simp add: effective_min_def ps_def)
    fix m assume m: "m \<le> length ps" "effective_min s actor cx el \<le> int m" "int m \<le> cnt s"
    have "draft_issues s actor cx el [] [] True (map (\<lambda>(i, t). \<lparr>di_item = i, di_target = Some t, di_member = None\<rparr>) (take m ps)) = []"
    proof (rule ok)
      show "distinct (map fst (take m ps))" using fsts by (simp add: take_map [symmetric])
      show "one_per_target s \<longrightarrow> distinct (map snd (take m ps))" using snds by (simp add: take_map [symmetric])
      show "\<exists>items. (t, items) \<in> set rows \<and> i \<in> set items" if "(i, t) \<in> set (take m ps)" for i t
        using pair that by (meson in_set_takeD)
    qed (use m in simp_all)
    then show "\<exists>ds. draft_issues s actor cx el [] [] True ds = []" by blast
  qed
qed

text \<open>C25: However exhausted the pool is, a lock is never out of reach on a step without group
  constraints: whenever the rules can be read there is a draft the final check accepts, because the
  minimum is capped by what can really be chosen, one item per opponent player included.\<close>

theorem lock_never_out_of_reach:
  assumes "action s \<noteq> Assign" and "no_group_rules s" and "eligible_items s actor cx mem = Inr el"
    and "distinct (cx_available cx)" and "distinct (map tp_id (targets_for cx actor))"
    and "min_items s \<le> cnt s" and "0 \<le> cnt s"
  shows "\<exists>ds. validate_items s actor ds cx True mem = Inr []"
proof -
  have "\<exists>ds. draft_issues s actor cx el [] [] True ds = []"
    using lock_possible_plain [OF assms(1) _ assms(3,4,6,7)] lock_possible_target [OF assms(1) _ assms(3,5-7)]
    by (cases "target s = None") auto
  then show ?thesis using assms(1,3) no_group_rules_read [OF assms(2)] by (auto simp: validate_items_def)
qed

definition pick_step_for :: "int \<Rightarrow> step_target option \<Rightarrow> int \<Rightarrow> (string \<times> json) list \<Rightarrow> rule_constraint list \<Rightarrow> resolved_step" where
  "pick_step_for i tgt n tree cons = (ban_step i True [Some 1])\<lparr>target := tgt, cnt := n, min_items := n, eligible := tree,
     constraints := cons\<rparr>"

definition role_match :: "(string \<times> json) list" where
  "role_match = [(''type'', JStr ''target_role_match'')]"

definition one_each_target :: rule_constraint where
  "one_each_target = \<lparr>con_type = ''one_per_target'', con_params = []\<rparr>"

text \<open>Two opponents, a tank and a flex player; hero 1 is a tank, hero 2 is not; hero 5, a tank as
  well, was banned by the same team on an earlier step of the round.\<close>

definition small_cx :: "int list \<Rightarrow> runtime_ctx" where
  "small_cx avail = \<lparr>cx_kind = ''hero'', cx_round = Some 1, cx_available = avail,
     cx_groups = [(1, Some ''Tank''), (2, Some ''damage''), (5, Some ''tank'')],
     cx_history = \<lparr>hist_items = [\<lparr>step_index = 0, ai_round = Some 1, ai_actor = Some 1, ai_action = ''ban'',
        item_id = 5, ai_member = None\<rparr>], current_step_index = None\<rparr>,
     cx_targets = [(1, [\<lparr>tp_id = 10, tp_role = Some ''tank''\<rparr>, \<lparr>tp_id = 20, tp_role = Some ''flex''\<rparr>])],
     cx_members = [], cx_exclusions = []\<rparr>"

theorem lock_never_out_of_reach_witness:
  "\<exists>ds. validate_items (pick_step_for 3 (Some Opponent_Player) 2 role_match [one_each_target]) (Some 1) ds (small_cx [1, 2])
    True None = Inr []"
proof -
  let ?s = "pick_step_for 3 (Some Opponent_Player) 2 role_match [one_each_target]"
  have el: "eligible_items ?s (Some 1) (small_cx [1, 2]) None =
      Inr \<lparr>el_items = [1, 2], el_by_target = Some [(10, [1]), (20, [1, 2])]\<rparr>" by code_simp
  have "action ?s \<noteq> Assign" "no_group_rules ?s" "distinct (cx_available (small_cx [1, 2]))"
    "distinct (map tp_id (targets_for (small_cx [1, 2]) (Some 1)))" "min_items ?s \<le> cnt ?s" "0 \<le> cnt ?s" by code_simp+
  from lock_never_out_of_reach [OF this(1,2) el this(3-6)] show ?thesis .
qed

text \<open>
  With a group constraint the cap is not enough: a team that has banned its tank of the round owes
  one more ban, only a tank is left, and no draft at all passes the final check. This is the step a
  version 1 config with unique roles is converted to.
\<close>

theorem group_rule_blocks_every_lock:
  "effective_min (pick_step_for 3 None 1 [] [one_per_role]) (Some 1) (small_cx [1]) \<lparr>el_items = [1], el_by_target = None\<rparr> = 1 \<and>
   (\<forall>ds. validate_items (pick_step_for 3 None 1 [] [one_per_role]) (Some 1) ds (small_cx [1]) True None \<noteq> Inr [])"
proof (intro conjI allI)
  let ?s = "pick_step_for 3 None 1 [] [one_per_role]" and ?cx = "small_cx [1]"
  let ?el = "\<lparr>el_items = [1], el_by_target = None\<rparr> :: eligible_set"
  show min: "effective_min ?s (Some 1) ?cx ?el = 1" by code_simp
  have read: "eligible_items ?s (Some 1) ?cx None = Inr ?el" "max_rules ?s = Inr [(1, ''round'', None)]" "min_rules ?s = Inr []"
    "action ?s \<noteq> Assign" "cnt ?s = 1" "target ?s = None" "cx_available ?cx = [1]" by code_simp+
  have over: "max_issues [(1, ''round'', None)] (round_group_counts ?s (Some 1) ?cx) (counter_add (group_of ?cx 1) 1 []) = [Max_Per_Group]"
    by code_simp
  fix ds
  show "validate_items ?s (Some 1) ds ?cx True None \<noteq> Inr []"
  proof
    assume "validate_items ?s (Some 1) ds ?cx True None = Inr []"
    then have clean: "draft_issues ?s (Some 1) ?cx ?el [(1, ''round'', None)] [] True ds = []"
      using read by (simp add: validate_items_def)
    then have "length ds = 1" using read(5) min by (simp add: draft_clean)
    then obtain d where d: "ds = [d]" by (cases ds) auto
    have "di_item d = 1" using clean read(6,7) unfolding d draft_clean check_items_clean
      by (auto simp: choice_issue_def split: if_splits)
    then show False using clean over unfolding d draft_clean by (simp add: Let_def case_prod_beta)
  qed
qed

section \<open>Random completion\<close>

lemma fill_candidates_ok:
  assumes "fill_candidates s actor cx filled el rng k mem = Inr cs"
  shows "set cs = {i \<in> set (fill_options s filled el). validate_items s actor (filled @ [i]) cx False mem = Inr []}"
proof -
  have "map_sum id (\<lambda>issues. issues = []) r = Inr True \<longleftrightarrow> r = Inr []" for r :: "py_error + draft_issue list"
    by (cases r) auto
  then show ?thesis
    using filter_sum_Inr [OF assms [unfolded fill_candidates_def]] by auto
qed

lemma fill_loop_keeps:
  assumes "fill_loop s actor cx el rng k mem filled = Inr out"
    and "validate_items s actor filled cx False mem = Inr []"
  shows "validate_items s actor out cx False mem = Inr [] \<and> take (length filled) out = filled \<and>
    (cnt s \<le> int (length out) \<or>
      (\<forall>i \<in> set (fill_options s out el). validate_items s actor (out @ [i]) cx False mem \<noteq> Inr []))"
  using assms
proof (induction s actor cx el rng k mem filled rule: fill_loop.induct)
  case (1 s actor cx el rng k mem filled)
  note unfold = fill_loop.simps [of s actor cx el rng k mem filled]
  show ?case
  proof (cases "int (length filled) < cnt s")
    case False
    then show ?thesis using "1.prems" unfold by simp
  next
    case more: True
    show ?thesis
    proof (cases "fill_candidates s actor cx filled el rng k mem")
      case (Inl e)
      then show ?thesis using "1.prems" unfold more by simp
    next
      case (Inr cs)
      note cands = fill_candidates_ok [OF Inr]
      show ?thesis
      proof (cases "cs = []")
        case True
        then have "out = filled" using "1.prems"(1) unfold more Inr by simp
        then show ?thesis using "1.prems"(2) cands True by auto
      next
        case False
        let ?next = "filled @ [choice rng (k + 1) cs]"
        have out: "fill_loop s actor cx el rng (k + 2) mem ?next = Inr out"
          using "1.prems"(1) unfold more Inr False by simp
        have "validate_items s actor ?next cx False mem = Inr []" using choice_in [OF False] cands by blast
        from "1.IH" [OF _ Inr False out this] more
        have ih: "validate_items s actor out cx False mem = Inr []" "take (length ?next) out = ?next"
          "cnt s \<le> int (length out) \<or> (\<forall>i \<in> set (fill_options s out el). validate_items s actor (out @ [i]) cx False mem \<noteq> Inr [])"
          by auto
        have "take (length filled) out = take (length filled) (take (length ?next) out)" by simp
        then have "take (length filled) out = filled" unfolding ih(2) by simp
        then show ?thesis using ih by simp
      qed
    qed
  qed
qed

text \<open>Completing a draft at random keeps what the captain chose, in order, and keeps the draft
  acceptable: count, eligibility, targets and group limits all still hold; and it stops only at the
  step's count or when no single addition would be accepted any more.\<close>

theorem random_fill_keeps_draft_valid:
  assumes "action s \<noteq> Assign" and "validate_items s actor ds cx False mem = Inr []"
    and "random_fill s actor ds cx rng mem = Inr out"
  shows "validate_items s actor out cx False mem = Inr [] \<and> take (length ds) out = ds \<and> int (length out) \<le> cnt s \<and>
    (\<exists>el. eligible_items s actor cx mem = Inr el \<and> (int (length out) = cnt s \<or>
      (\<forall>i \<in> set (fill_options s out el). validate_items s actor (out @ [i]) cx False mem \<noteq> Inr [])))"
proof -
  obtain el where el: "eligible_items s actor cx mem = Inr el" and run: "fill_loop s actor cx el rng 0 mem ds = Inr out"
    using assms(1,3) by (auto simp: random_fill_def split: sum.splits)
  note facts = fill_loop_keeps [OF run assms(2)]
  have "int (length out) \<le> cnt s"
    using facts assms(1) el by (auto simp: validate_items_def draft_clean split: sum.splits)
  then show ?thesis using facts el by auto
qed

definition first_table :: rng where
  "first_table k i = i"

theorem random_fill_keeps_draft_valid_witness:
  "validate_items (pick_step_for 3 None 2 [] []) (Some 1) [\<lparr>di_item = 2, di_target = None, di_member = None\<rparr>,
     \<lparr>di_item = 1, di_target = None, di_member = None\<rparr>] (small_cx [1, 2]) False None = Inr []"
proof -
  let ?s = "pick_step_for 3 None 2 [] []" and ?d = "[\<lparr>di_item = 2, di_target = None, di_member = None\<rparr>] :: draft_item list"
  have "action ?s \<noteq> Assign" "validate_items ?s (Some 1) ?d (small_cx [1, 2]) False None = Inr []" by code_simp+
  moreover have "random_fill ?s (Some 1) ?d (small_cx [1, 2]) first_table None =
      Inr (?d @ [\<lparr>di_item = 1, di_target = None, di_member = None\<rparr>])" by code_simp
  ultimately show ?thesis using random_fill_keeps_draft_valid by force
qed

text \<open>
  Stopping there can be too early: when the flex player is given the only tank, the tank player is
  left without an item, although both could have had one; the minimum the same rules compute is then
  not reached.
\<close>

definition second_first :: rng where
  "second_first k i = (if k = 1 then 1 else i)"

theorem random_fill_stops_below_the_minimum:
  "let s = pick_step_for 3 (Some Opponent_Player) 2 role_match [one_each_target]
   in random_fill s (Some 1) [] (small_cx [1, 2]) second_first None = Inr [\<lparr>di_item = 1, di_target = Some 20, di_member = None\<rparr>] \<and>
      validate_items s (Some 1) [\<lparr>di_item = 1, di_target = Some 20, di_member = None\<rparr>] (small_cx [1, 2]) True None =
        Inr [Not_Enough_Items] \<and>
      validate_items s (Some 1) [\<lparr>di_item = 1, di_target = Some 10, di_member = None\<rparr>,
        \<lparr>di_item = 2, di_target = Some 20, di_member = None\<rparr>] (small_cx [1, 2]) True None = Inr []"
  by code_simp

end
