(* ===== verification/Pickban_Answers.thy ===== *)
theory Pickban_Answers
  imports Pickban_Fill
begin

text \<open>
  What completing a draft at random promises beyond its validity, from
  \<open>src/backend/shared/domain/pick_ban_rules/runtime.py\<close>: the joint answers the members of a step get
  when their time runs out (\<open>fill_member_answers\<close>), and the hero assignment of an expired step
  (\<open>_random_assignment\<close>), whose matching makes the kept draft always completable.
\<close>

section \<open>Joint answers of an expired member step\<close>

definition hero_item :: "int \<Rightarrow> draft_item" where
  "hero_item h = \<lparr>di_item = h, di_target = None, di_member = None\<rparr>"

text \<open>The heroes a member could be given alone.\<close>

definition takeable :: "resolved_step \<Rightarrow> runtime_ctx \<Rightarrow> int \<times> int \<Rightarrow> int set" where
  "takeable s cx seat = {h. validate_items s (Some (fst seat)) [hero_item h] cx False (Some (snd seat)) = Inr []}"

lemma seat_candidates:
  assumes "action s \<noteq> Assign" and "target s = None" and "eligible_items s (Some a) cx (Some m) = Inr el"
    and "fill_candidates s (Some a) cx [] el rng k (Some m) = Inr cs"
  shows "di_item ` set cs = takeable s cx (a, m)"
proof -
  have options: "set (fill_options s [] el) = hero_item ` set (el_items el)"
    using assms(2) by (auto simp: fill_options_def hero_item_def)
  have "h \<in> set (el_items el)" if "validate_items s (Some a) [hero_item h] cx False (Some m) = Inr []" for h
  proof -
    from that assms(1,3) have "choice_issue s (Some a) cx el (hero_item h) = []"
      unfolding validate_items_def
      by (auto simp: draft_clean check_items_clean simp del: check_items.simps split: sum.splits)
    then show ?thesis using assms(2) by (simp add: choice_issue_def hero_item_def split: if_splits)
  qed
  moreover have cs: "set cs = hero_item ` {h \<in> set (el_items el). validate_items s (Some a) [hero_item h] cx False (Some m) = Inr []}"
    unfolding fill_candidates_ok [OF assms(4)] append_Nil options by blast
  ultimately show ?thesis
    unfolding cs image_image takeable_def fst_conv snd_conv by (auto simp: hero_item_def)
qed

lemma seat_options_facts:
  assumes "action s \<noteq> Assign" and "target s = None" and "seat_options s cx rng seats = Inr options"
  shows "map fst options = [0..<length seats] \<and> (\<forall>j < length seats. set (adj options j) = takeable s cx (seats ! j))"
proof -
  note facts = sum_map_Inr_nth [OF assms(3) [unfolded seat_options_def]]
  have len: "length options = length seats" using facts by simp
  have at: "fst (options ! j) = j \<and> set (snd (options ! j)) = takeable s cx (seats ! j)" if j: "j < length seats" for j
  proof -
    obtain a m where seat: "seats ! j = (a, m)" by (cases "seats ! j")
    have "(case eligible_items s (Some a) cx (Some m) of Inl e \<Rightarrow> Inl e
        | Inr el \<Rightarrow> map_sum id (\<lambda>cs. (j, map di_item cs)) (fill_candidates s (Some a) cx [] el rng (j + 1) (Some m))) = Inr (options ! j)"
      using facts j seat by (force simp: nth_enumerate_eq)
    then obtain el cs where "eligible_items s (Some a) cx (Some m) = Inr el"
      "fill_candidates s (Some a) cx [] el rng (j + 1) (Some m) = Inr cs" "options ! j = (j, map di_item cs)"
      by (auto simp: map_sum_def split: sum.splits)
    then show ?thesis using seat_candidates [OF assms(1,2)] seat by auto
  qed
  have keys: "map fst options = [0..<length seats]" by (rule nth_equalityI) (use len at in simp_all)
  moreover have "adj options j = snd (options ! j)" if "j < length seats" for j
  proof -
    have "(j, snd (options ! j)) \<in> set options" using at [OF that] len that by (metis nth_mem prod.collapse)
    then show ?thesis using keys by (simp add: adj_def dict_get_def map_of_is_SomeI)
  qed
  ultimately show ?thesis using at by simp
qed

lemma foldl_dict_set_map:
  "distinct (map (\<lambda>(h, j). f j) ps) \<Longrightarrow> foldl (\<lambda>d (h, j). dict_set (f j) h d) [] ps = map (\<lambda>(h, j). (f j, h)) ps"
  using dict_comprehension [of "\<lambda>p. f (snd p)" ps fst] by (simp add: case_prod_unfold)

lemma length_filter_keys:
  assumes "distinct xs" and "distinct (map fst d)" and "fst ` set d \<subseteq> set xs"
  shows "length (filter (\<lambda>x. map_of d x \<noteq> None) xs) = length d"
proof -
  have "set (filter (\<lambda>x. map_of d x \<noteq> None) xs) = fst ` set d" using assms(3) by (auto simp: map_of_eq_None_iff)
  then have "length (filter (\<lambda>x. map_of d x \<noteq> None) xs) = card (fst ` set d)"
    using distinct_card [of "filter (\<lambda>x. map_of d x \<noteq> None) xs"] assms(1) by simp
  also have "\<dots> = length d" using distinct_card [OF assms(2)] by simp
  finally show ?thesis .
qed

lemma distinct_lookups:
  assumes "distinct xs" and "distinct (map snd d)"
  shows "distinct (List.map_filter (map_of d) xs)"
  using assms(1)
proof (induction xs)
  case (Cons x xs)
  have "h \<notin> set (List.map_filter (map_of d) xs)" if "map_of d x = Some h" for h
  proof
    assume "h \<in> set (List.map_filter (map_of d) xs)"
    then obtain y where y: "y \<in> set xs" "map_of d y = Some h" by (auto simp: set_map_filter_iff)
    then have "(x, h) \<in> set d" "(y, h) \<in> set d" using that map_of_SomeD by metis+
    then have "x = y" using assms(2) unfolding distinct_map inj_on_def by (metis fst_conv snd_conv)
    then show False using Cons.prems y(1) by simp
  qed
  then show ?case using Cons by (auto simp: map_filter_Cons split: option.split)
qed (simp add: map_filter_simps)

text \<open>When a member step runs out of time, the members who still owe it are answered together:
  each gets one hero they may take alone or none, no hero goes to two members on either team, and
  no other way of handing out takeable heroes, one each and all different, serves more members.\<close>

theorem member_answers_distinct_and_most:
  assumes "action s \<noteq> Assign" and "target s = None" and "distinct owing"
    and "fill_member_answers s owing cx rng = Inr res"
  shows "map fst res = owing \<and>
    (\<forall>(seat, ds) \<in> set res. ds = [] \<or> (\<exists>h \<in> takeable s cx seat. ds = [hero_item h])) \<and>
    distinct (concat (map (map di_item \<circ> snd) res)) \<and>
    (\<forall>ps. distinct (map fst ps) \<longrightarrow> distinct (map snd ps) \<longrightarrow>
      (\<forall>(h, seat) \<in> set ps. seat \<in> set owing \<and> h \<in> takeable s cx seat) \<longrightarrow>
      length ps \<le> length (filter (\<lambda>(seat, ds). ds \<noteq> []) res))"
proof -
  define seats where "seats = shuffle rng 0 owing"
  obtain options where options: "seat_options s cx rng seats = Inr options"
    and res: "res = map (\<lambda>seat. (seat, case map_of (foldl (\<lambda>d (hero, j). dict_set (seats ! j) hero d) [] (kuhn options)) seat of
        None \<Rightarrow> [] | Some h \<Rightarrow> [\<lparr>di_item = h, di_target = None, di_member = None\<rparr>])) owing"
    using assms(4) by (auto simp: fill_member_answers_def Let_def seats_def split: sum.splits)
  note opts = seat_options_facts [OF assms(1,2) options]
  have dist: "distinct seats" and set_seats: "set seats = set owing" using assms(3) by (simp_all add: seats_def)
  have pair: "j < length seats \<and> h \<in> takeable s cx (seats ! j)" if "(h, j) \<in> set (kuhn options)" for h j
  proof -
    have "j \<in> set (map fst options)" "h \<in> set (adj options j)" using kuhn_pair [OF that] by simp_all
    then show ?thesis using opts by simp
  qed
  define heroes where "heroes = map (\<lambda>(h, j). (seats ! j, h)) (kuhn options)"
  have inj: "inj_on (\<lambda>(h, j). seats ! j) (set (kuhn options))"
  proof (rule inj_onI)
    fix p q assume p: "p \<in> set (kuhn options)" "q \<in> set (kuhn options)" "(case p of (h, j) \<Rightarrow> seats ! j) = (case q of (h, j) \<Rightarrow> seats ! j)"
    obtain h j g k where pq: "p = (h, j)" "q = (g, k)" by (cases p; cases q)
    then have "j = k" using p dist pair by (simp add: nth_eq_iff_index_eq)
    then show "p = q" using p pq kuhn_distinct_targets [of options] unfolding distinct_map inj_on_def by (metis snd_conv)
  qed
  have keys: "distinct (map fst heroes)"
    using inj kuhn_distinct_items [of options] by (simp add: heroes_def o_def case_prod_unfold distinct_map)
  have fold: "foldl (\<lambda>d (hero, j). dict_set (seats ! j) hero d) [] (kuhn options) = heroes"
    using foldl_dict_set_map [of "\<lambda>j. seats ! j" "kuhn options"] keys by (simp add: heroes_def o_def case_prod_unfold)
  have vals: "distinct (map snd heroes)" using kuhn_distinct_items [of options] by (simp add: heroes_def o_def case_prod_unfold)
  have hero: "seat \<in> set owing \<and> h \<in> takeable s cx seat" if "(seat, h) \<in> set heroes" for seat h
    using that pair set_seats by (fastforce simp: heroes_def)
  have ans: "res = map (\<lambda>seat. (seat, case map_of heroes seat of None \<Rightarrow> [] | Some h \<Rightarrow> [hero_item h])) owing"
    using res unfolding fold hero_item_def .
  have served: "length (filter (\<lambda>(seat, ds). ds \<noteq> []) res) = length (kuhn options)"
  proof -
    have "filter (\<lambda>(seat, ds). ds \<noteq> []) res =
        map (\<lambda>seat. (seat, case map_of heroes seat of None \<Rightarrow> [] | Some h \<Rightarrow> [hero_item h])) (filter (\<lambda>seat. map_of heroes seat \<noteq> None) owing)"
      by (auto simp: ans filter_map o_def split: option.splits intro!: arg_cong [where f = "map _"] filter_cong)
    moreover have "fst ` set heroes \<subseteq> set owing" using hero by auto
    ultimately show ?thesis using length_filter_keys [OF assms(3) keys] by (simp add: heroes_def)
  qed
  have "map fst res = owing" by (simp add: ans o_def)
  moreover have "\<forall>(seat, ds) \<in> set res. ds = [] \<or> (\<exists>h \<in> takeable s cx seat. ds = [hero_item h])"
    using hero by (auto simp: ans dest!: map_of_SomeD split: option.splits)
  moreover have "concat (map (map di_item \<circ> snd) res) = List.map_filter (map_of heroes) owing"
    unfolding ans by (induction owing) (simp_all add: map_filter_Cons map_filter_simps hero_item_def split: option.split)
  then have "distinct (concat (map (map di_item \<circ> snd) res))" using distinct_lookups [OF assms(3) vals] by simp
  moreover have "length ps \<le> length (filter (\<lambda>(seat, ds). ds \<noteq> []) res)"
    if ps: "distinct (map fst ps)" "distinct (map snd ps)" "\<forall>(h, seat) \<in> set ps. seat \<in> set owing \<and> h \<in> takeable s cx seat" for ps
  proof -
    let ?qs = "map (\<lambda>(h, seat). (h, index_of seat seats)) ps"
    have at: "index_of seat seats < length seats \<and> seats ! index_of seat seats = seat" if "(h, seat) \<in> set ps" for h seat
      using ps(3) that set_seats index_of_less by fastforce
    have "length ?qs \<le> length (kuhn options)"
    proof (rule kuhn_maximum_list)
      show "distinct (map fst ?qs)" using ps(1) by (simp add: o_def case_prod_unfold)
      have "inj_on (\<lambda>seat. index_of seat seats) (set (map snd ps))"
        by (rule inj_onI) (use at in \<open>metis (no_types, lifting) imageE list.set_map prod.collapse\<close>)
      then show "distinct (map snd ?qs)"
        using ps(2) distinct_map [of "\<lambda>seat. index_of seat seats" "map snd ps"] by (simp add: o_def case_prod_unfold)
    next
      fix i t assume "(i, t) \<in> set ?qs"
      then obtain seat where seat: "(i, seat) \<in> set ps" "t = index_of seat seats" by auto
      have "t < length seats" "seats ! t = seat" using at [OF seat(1)] seat(2) by simp_all
      moreover have "i \<in> takeable s cx seat" using ps(3) seat(1) by auto
      moreover have "fst ` set options = {0..<length seats}" using opts by (metis list.set_map set_upt)
      ultimately show "t \<in> fst ` set options \<and> i \<in> set (adj options t)" using opts by auto
    qed
    then show ?thesis using served by simp
  qed
  ultimately show ?thesis by blast
qed

text \<open>Both members may take heroes 1 and 2, the first not hero 1: alone they could both be given 2.\<close>

definition owing_step :: resolved_step where
  "owing_step = (pick_step_for 3 None 1 [] [])\<lparr>action := Pick, actors := [Some 1, Some 2], member := Some Each_Member,
     member_seats := [(1, 11), (2, 21)]\<rparr>"

theorem member_answers_distinct_and_most_witness:
  "let res = [((1, 11), [hero_item 2]), ((2, 21), [hero_item 1])]
   in fill_member_answers owing_step [(1, 11), (2, 21)] ((small_cx [1, 2])\<lparr>cx_exclusions := [(11, [1])]\<rparr>) first_table = Inr res \<and>
      distinct (concat (map (map di_item \<circ> snd) res))"
proof -
  let ?res = "[((1, 11), [hero_item 2]), ((2, 21), [hero_item 1])]"
  let ?cx = "(small_cx [1, 2])\<lparr>cx_exclusions := [(11, [1])]\<rparr>"
  have run: "fill_member_answers owing_step [(1, 11), (2, 21)] ?cx first_table = Inr ?res" by code_simp
  have "action owing_step \<noteq> Assign" "target owing_step = None" "distinct [(1 :: int, 11 :: int), (2, 21)]" by code_simp+
  from member_answers_distinct_and_most [OF this run] run show ?thesis unfolding Let_def by blast
qed

section \<open>Assignments\<close>

text \<open>A draft of an assignment without an issue, read as a matching of picks to members.\<close>

definition clean_assignment :: "int list \<Rightarrow> int list \<Rightarrow> runtime_ctx \<Rightarrow> draft_item list \<Rightarrow> bool" where
  "clean_assignment picks roster cx ds \<longleftrightarrow> distinct (map di_item ds) \<and> distinct (map di_member ds) \<and>
    (\<forall>i \<in> set ds. \<exists>m \<in> set roster. di_member i = Some m \<and> di_item i \<in> set picks \<and> di_item i \<notin> set (excluded cx (Some m)))"

lemma check_assignment_clean:
  "check_assignment picks roster cx seen mems ds = [] \<longleftrightarrow> clean_assignment picks roster cx ds \<and>
     di_item ` set ds \<inter> set seen = {} \<and> di_member ` set ds \<inter> Some ` set mems = {}"
proof (induction ds arbitrary: seen mems)
  case (Cons i ds)
  then show ?case by (cases "di_member i") (auto simp: clean_assignment_def)
qed (simp add: clean_assignment_def)

lemma clean_assignment_append:
  "clean_assignment picks roster cx (ds @ es) \<longleftrightarrow> clean_assignment picks roster cx ds \<and> clean_assignment picks roster cx es \<and>
     di_item ` set ds \<inter> di_item ` set es = {} \<and> di_member ` set ds \<inter> di_member ` set es = {}"
  by (auto simp: clean_assignment_def)

text \<open>The graph of what a draft leaves open.\<close>

definition leaves_open :: "int list \<Rightarrow> int list \<Rightarrow> runtime_ctx \<Rightarrow> draft_item list \<Rightarrow> (int, int) edges \<Rightarrow> bool" where
  "leaves_open picks roster cx ds E \<longleftrightarrow> fst ` set E = {m \<in> set roster. Some m \<notin> di_member ` set ds} \<and>
    (\<forall>m \<in> fst ` set E. set (adj E m) = {h \<in> set picks. h \<notin> di_item ` set ds \<and> h \<notin> set (excluded cx (Some m))})"

lemma leaves_open_assignable:
  assumes "set heroes = {h \<in> set picks. h \<notin> di_item ` set ds}" and "set mems = {m \<in> set roster. Some m \<notin> di_member ` set ds}"
  shows "leaves_open picks roster cx ds (assignable heroes mems cx)"
proof -
  have "adj (assignable heroes mems cx) m = filter (\<lambda>h. h \<notin> set (excluded cx (Some m))) heroes" if "m \<in> set mems" for m
    using that by (simp add: assignable_def adj_def dict_get_def map_of_map_restrict)
  then show ?thesis using assms by (auto simp: leaves_open_def assignable_def image_iff)
qed

lemma completion_bound:
  assumes "leaves_open picks roster cx ds E" and "clean_assignment picks roster cx (ds @ es)"
  shows "length es \<le> length (kuhn E)"
proof -
  let ?ps = "map (\<lambda>i. (di_item i, the (di_member i))) es"
  have es: "clean_assignment picks roster cx es" "di_item ` set ds \<inter> di_item ` set es = {}" "di_member ` set ds \<inter> di_member ` set es = {}"
    using assms(2) by (simp_all add: clean_assignment_append)
  have mem: "\<exists>m. di_member i = Some m" if "i \<in> set es" for i using es(1) that by (auto simp: clean_assignment_def)
  have "length ?ps \<le> length (kuhn E)"
  proof (rule kuhn_maximum_list)
    show "distinct (map fst ?ps)" using es(1) by (simp add: clean_assignment_def o_def)
    have "inj_on the (set (map di_member es))"
    proof (rule inj_onI)
      fix x y assume xy: "x \<in> set (map di_member es)" "y \<in> set (map di_member es)" "the x = the y"
      have "z \<noteq> None" if "z \<in> set (map di_member es)" for z using that mem by fastforce
      then show "x = y" using xy by (meson option.expand)
    qed
    then show "distinct (map snd ?ps)"
      using es(1) distinct_map [of the "map di_member es"] by (simp add: clean_assignment_def o_def)
  next
    fix h m assume "(h, m) \<in> set ?ps"
    then obtain i where i: "i \<in> set es" "h = di_item i" "di_member i = Some m" using mem by fastforce
    then have "m \<in> set roster" "h \<in> set picks" "h \<notin> set (excluded cx (Some m))"
      using es(1) by (auto simp: clean_assignment_def)
    moreover have "h \<notin> di_item ` set ds" "Some m \<notin> di_member ` set ds"
      using es(2,3) i by (auto simp: disjoint_iff image_iff) metis+
    ultimately show "m \<in> fst ` set E \<and> h \<in> set (adj E m)" using assms(1) unfolding leaves_open_def by blast
  qed
  then show ?thesis by simp
qed

definition hand_out :: "(int, int) dict \<Rightarrow> draft_item list" where
  "hand_out M = map (\<lambda>(h, m). \<lparr>di_item = h, di_target = None, di_member = Some m\<rparr>) M"

lemma completion_exists:
  assumes "leaves_open picks roster cx ds E" and "clean_assignment picks roster cx ds"
  shows "clean_assignment picks roster cx (ds @ hand_out (kuhn E))"
proof -
  have names: "map di_item (hand_out (kuhn E)) = map fst (kuhn E)" "map di_member (hand_out (kuhn E)) = map Some (map snd (kuhn E))"
    by (simp_all add: hand_out_def case_prod_unfold o_def)
  have dist: "distinct (map di_item (hand_out (kuhn E)))" "distinct (map di_member (hand_out (kuhn E)))"
    unfolding names using kuhn_distinct_items [of E] kuhn_distinct_targets [of E] by (simp_all add: distinct_map [of Some] del: map_map)
  have edge: "m \<in> set roster \<and> Some m \<notin> di_member ` set ds \<and> h \<in> set picks \<and> h \<notin> di_item ` set ds \<and> h \<notin> set (excluded cx (Some m))"
    if "(h, m) \<in> set (kuhn E)" for h m
    using kuhn_pair [OF that] assms(1) unfolding leaves_open_def by blast
  then have "\<forall>i \<in> set (hand_out (kuhn E)). \<exists>m \<in> set roster. di_member i = Some m \<and> di_item i \<in> set picks \<and>
      di_item i \<notin> set (excluded cx (Some m))"
    by (auto simp: hand_out_def)
  then have clean: "clean_assignment picks roster cx (hand_out (kuhn E))" using dist by (simp only: clean_assignment_def simp_thms)
  have items: "di_item ` set ds \<inter> di_item ` set (hand_out (kuhn E)) = {}" using edge by (fastforce simp: hand_out_def)
  have "Some m \<noteq> di_member i" if "(h, m) \<in> set (kuhn E)" "i \<in> set ds" for h m i using edge [OF that(1)] that(2) by auto
  then have mems: "di_member ` set ds \<inter> di_member ` set (hand_out (kuhn E)) = {}" by (fastforce simp: hand_out_def)
  show ?thesis unfolding clean_assignment_append by (intro conjI assms(2) clean items mems)
qed

text \<open>A draft that still extends to an assignment of as many picks as can be assigned at all.\<close>

definition most_assigned :: "resolved_step \<Rightarrow> int option \<Rightarrow> runtime_ctx \<Rightarrow> nat" where
  "most_assigned s actor cx = length (kuhn (assignable (team_picks s actor cx) (members_of cx actor) cx))"

definition completable :: "resolved_step \<Rightarrow> int option \<Rightarrow> runtime_ctx \<Rightarrow> draft_item list \<Rightarrow> bool" where
  "completable s actor cx ds \<longleftrightarrow>
    (\<exists>es. clean_assignment (team_picks s actor cx) (members_of cx actor) cx (ds @ es) \<and> length (ds @ es) = most_assigned s actor cx)"

lemma completable_prefix: "completable s actor cx (ds @ es) \<Longrightarrow> completable s actor cx ds"
  unfolding completable_def by (metis append.assoc)

lemma completable_clean: "completable s actor cx ds \<Longrightarrow> clean_assignment (team_picks s actor cx) (members_of cx actor) cx ds"
  by (auto simp: completable_def clean_assignment_append)

lemma clean_assignment_size:
  assumes "clean_assignment (team_picks s actor cx) (members_of cx actor) cx ds"
  shows "length ds \<le> most_assigned s actor cx"
proof -
  have "leaves_open (team_picks s actor cx) (members_of cx actor) cx [] (assignable (team_picks s actor cx) (members_of cx actor) cx)"
    by (rule leaves_open_assignable) simp_all
  from completion_bound [OF this] assms show ?thesis by (simp add: most_assigned_def)
qed

lemma completable_matched:
  assumes "leaves_open (team_picks s actor cx) (members_of cx actor) cx ds E" and "completable s actor cx ds"
  shows "clean_assignment (team_picks s actor cx) (members_of cx actor) cx (ds @ hand_out (kuhn E)) \<and>
    length (ds @ hand_out (kuhn E)) = most_assigned s actor cx"
proof -
  note full = completion_exists [OF assms(1) completable_clean [OF assms(2)]]
  obtain es where "clean_assignment (team_picks s actor cx) (members_of cx actor) cx (ds @ es)" "length (ds @ es) = most_assigned s actor cx"
    using assms(2) by (auto simp: completable_def)
  then have "most_assigned s actor cx \<le> length (ds @ hand_out (kuhn E))"
    using completion_bound [OF assms(1)] by (fastforce simp: hand_out_def)
  then show ?thesis using full clean_assignment_size [OF full] by simp
qed

lemma assignment_issues_clean:
  "assignment_issues s actor ds cx final = [] \<longleftrightarrow> int (length ds) \<le> cnt s \<and> completable s actor cx ds \<and>
     (final \<longrightarrow> effective_min s actor cx \<lparr>el_items = [], el_by_target = None\<rparr> \<le> int (length ds))"
proof -
  let ?picks = "team_picks s actor cx" and ?roster = "members_of cx actor"
  let ?rest = "assignable (filter (\<lambda>h. h \<notin> set (map di_item ds)) ?picks)
    (filter (\<lambda>m. m \<notin> set (assigned_members ?roster ds)) ?roster) cx"
  have rest: "leaves_open ?picks ?roster cx ds ?rest"
    by (rule leaves_open_assignable) (auto simp: assigned_members_def set_map_filter_iff image_iff)
  have "clean_assignment ?picks ?roster cx ds \<and> \<not> length ds + length (kuhn ?rest) < most_assigned s actor cx \<longleftrightarrow>
      completable s actor cx ds"
  proof
    assume clean: "clean_assignment ?picks ?roster cx ds \<and> \<not> length ds + length (kuhn ?rest) < most_assigned s actor cx"
    then have full: "clean_assignment ?picks ?roster cx (ds @ hand_out (kuhn ?rest))" using completion_exists [OF rest] by blast
    then have "length (ds @ hand_out (kuhn ?rest)) = most_assigned s actor cx"
      using clean clean_assignment_size [OF full] by (simp add: hand_out_def)
    then show "completable s actor cx ds" using full by (auto simp: completable_def)
  next
    assume "completable s actor cx ds"
    then show "clean_assignment ?picks ?roster cx ds \<and> \<not> length ds + length (kuhn ?rest) < most_assigned s actor cx"
      using completable_matched [OF rest] completable_clean by (simp add: hand_out_def)
  qed
  then show ?thesis
    unfolding assignment_issues_def Let_def dedup_Nil append_is_Nil_conv
    by (auto simp: check_assignment_clean most_assigned_def not_less)
qed

lemma keep_extendable_completable:
  assumes "completable s actor cx kept" and "int (length kept) \<le> cnt s"
  shows "completable s actor cx (keep_extendable s actor cx kept ds) \<and> int (length (keep_extendable s actor cx kept ds)) \<le> cnt s"
  using assms by (induction ds arbitrary: kept) (simp_all add: assignment_issues_clean)

lemma keep_extendable_all:
  assumes "completable s actor cx (kept @ ds)" and "int (length (kept @ ds)) \<le> cnt s"
  shows "keep_extendable s actor cx kept ds = kept @ ds"
  using assms
proof (induction ds arbitrary: kept)
  case (Cons i ds)
  then have "assignment_issues s actor (kept @ [i]) cx False = []"
    using completable_prefix [of s actor cx "kept @ [i]" ds] by (simp add: assignment_issues_clean)
  then show ?case using Cons.IH [of "kept @ [i]"] Cons.prems by simp
qed simp

text \<open>C26: an expired hero assignment always ends well: whatever the captain's draft, the completed
  one passes the final check, assigns as many picks as the members and their exclusions allow (up
  to the step's count), and keeps the captain's draft in front whenever that draft was acceptable.\<close>

theorem assignment_always_completes:
  assumes "action s = Assign" and "min_items s \<le> cnt s" and "0 \<le> cnt s"
    and "random_fill s actor ds cx rng mem = Inr out"
  shows "validate_items s actor out cx True mem = Inr [] \<and>
    length out = min (nat (cnt s)) (most_assigned s actor cx) \<and>
    (validate_items s actor ds cx False mem = Inr [] \<longrightarrow> take (length ds) out = ds)"
proof -
  let ?picks = "team_picks s actor cx" and ?roster = "members_of cx actor"
  define kept where "kept = keep_extendable s actor cx [] ds"
  let ?E = "assignable (shuffle rng 0 (filter (\<lambda>h. h \<notin> set (map di_item kept)) ?picks))
    (shuffle rng 1 (filter (\<lambda>m. Some m \<notin> set (map di_member kept)) ?roster)) cx"
  have out: "out = take (nat (cnt s)) (kept @ hand_out (kuhn ?E))"
    using assms(1,4) by (simp add: random_fill_def random_assignment_def Let_def kept_def hand_out_def)
  have "completable s actor cx []"
  proof -
    have "leaves_open ?picks ?roster cx [] (assignable ?picks ?roster cx)" by (rule leaves_open_assignable) simp_all
    then have "clean_assignment ?picks ?roster cx (hand_out (kuhn (assignable ?picks ?roster cx)))"
      using completion_exists [of ?picks ?roster cx "[]"] by (simp add: clean_assignment_def)
    then show ?thesis by (auto simp: completable_def most_assigned_def hand_out_def)
  qed
  then have kept: "completable s actor cx kept" "int (length kept) \<le> cnt s"
    using keep_extendable_completable [of s actor cx "[]" ds] assms(3) by (simp_all add: kept_def)
  have "leaves_open ?picks ?roster cx kept ?E" by (rule leaves_open_assignable) auto
  note full = completable_matched [OF this kept(1)]
  then have "completable s actor cx (kept @ hand_out (kuhn ?E))" unfolding completable_def by (intro exI [of _ "[]"]) simp
  then have "completable s actor cx out" unfolding out by (metis append_take_drop_id completable_prefix)
  moreover have len: "length out = min (nat (cnt s)) (most_assigned s actor cx)" unfolding out length_take using full by (simp only: min.commute)
  ultimately have "validate_items s actor out cx True mem = Inr []"
    using assms(1-3) by (simp add: validate_items_def assignment_issues_clean effective_min_def most_assigned_def) linarith
  moreover have "take (length ds) out = ds" if "validate_items s actor ds cx False mem = Inr []"
  proof -
    have "kept = ds" using that assms(1) keep_extendable_all [of s actor cx "[]" ds]
      by (simp add: kept_def validate_items_def assignment_issues_clean)
    then show ?thesis using kept(2) by (simp add: out min_def)
  qed
  ultimately show ?thesis using len by blast
qed

definition assign_step :: "int \<Rightarrow> resolved_step" where
  "assign_step n = (pick_step_for 3 None n [] [])\<lparr>action := Assign, actors := [Some 1], min_items := n\<rparr>"

text \<open>Hero 5 was picked, as was 6, which the first member may not play; the captain gave 5 to the second.\<close>

definition picked_cx :: runtime_ctx where
  "picked_cx = (small_cx [1, 2])\<lparr>cx_history := \<lparr>hist_items = map (\<lambda>h. \<lparr>step_index = 0, ai_round = Some 1, ai_actor = Some 1,
     ai_action = ''pick'', item_id = h, ai_member = None\<rparr>) [5, 6], current_step_index = None\<rparr>,
     cx_members := [(1, [11, 12])], cx_exclusions := [(11, [6])]\<rparr>"

theorem assignment_always_completes_witness:
  "validate_items (assign_step 2) (Some 1) [\<lparr>di_item = 5, di_target = None, di_member = Some 11\<rparr>,
     \<lparr>di_item = 6, di_target = None, di_member = Some 12\<rparr>] picked_cx True None = Inr [] \<and>
   most_assigned (assign_step 2) (Some 1) picked_cx = 2"
proof -
  let ?draft = "[\<lparr>di_item = 5, di_target = None, di_member = Some 12\<rparr>] :: draft_item list"
  have "action (assign_step 2) = Assign" "min_items (assign_step 2) \<le> cnt (assign_step 2)" "0 \<le> cnt (assign_step 2)" by code_simp+
  moreover have "random_fill (assign_step 2) (Some 1) ?draft picked_cx first_table None =
      Inr [\<lparr>di_item = 5, di_target = None, di_member = Some 11\<rparr>, \<lparr>di_item = 6, di_target = None, di_member = Some 12\<rparr>]"
    by code_simp
  moreover have "most_assigned (assign_step 2) (Some 1) picked_cx = 2" by code_simp
  ultimately show ?thesis using assignment_always_completes [of "assign_step 2"] by blast
qed

end
