(* ===== verification/Pickban_Room.thy ===== *)
theory Pickban_Room
  imports Pickban_Answers
begin

text \<open>
  The room itself: \<open>tournament-service/src/services/encounter/pick_ban_action.py\<close> (loading, settling,
  acting, submitting, disputing, reopening), \<open>pick_ban_undo.py\<close> and \<open>room_control.py\<close>. One value of
  type \<open>room\<close> is what a request finds under the encounter lock: the session row, its steps, the log
  and the board. A request is a function to a refusal or the next room; a refused request raises, the
  transaction is rolled back, and the room stays as it was.

  What the request reads besides the session is its environment: the clock, the seats, the sides of
  the discipline, the rosters, the played and claimed positions of the series, whether hero bans of a
  round have been made, and the random tables. Journal rows, change notifications and the
  synchronisation of the games with the picks only write elsewhere and are left out.
\<close>

section \<open>The state of a room\<close>

datatype session_status = Active | Completed | Cancelled

record room =
  rm_status :: session_status
  rm_steps :: "resolved_step list"
  rm_rows :: "submission list"
  rm_board :: "entry list"
  rm_started :: "int option"
  rm_paused :: "int option"
  rm_undo_by :: "int option"
  rm_undo_index :: "int option"
  rm_sides :: "(int, (int, string option) dict) dict"

record member_seat =
  ms_id :: int
  ms_team :: int
  ms_captain :: bool

record room_env =
  re_kind :: string
  re_now :: int
  re_participants :: "int list"
  re_opener :: "int option"
  re_sides :: "string list"
  re_groups :: "(int, string option) dict"
  re_rosters :: "(int, target_player list) dict"
  re_seats :: "member_seat list"
  re_exclusions :: "(int, int list) dict"
  re_mix :: bool
  re_played :: "int set"
  re_claimed :: "int set"
  re_heroes_begun :: "int option \<Rightarrow> bool"
  re_rng :: "nat \<Rightarrow> nat \<Rightarrow> rng"

datatype refusal =
    Raised py_error | Session_Cancelled | Session_Paused | Session_Not_Active | Not_A_Mix | Sequence_Complete
  | Step_Blind | Step_Assigns | Step_Open | Wrong_Action | Not_Your_Turn | Name_A_Member | Step_Is_The_Teams
  | Already_Locked | Captain_Picks | No_Sides | No_Such_Side | Items_Refused "draft_issue list"
  | Cannot_Reopen | Nothing_To_Reopen | Side_Locked | Nothing_To_Undo | Heroes_First | Position_Claimed | No_Timed_Step

definition sum_bind :: "'e + 'a \<Rightarrow> ('a \<Rightarrow> 'e + 'b) \<Rightarrow> 'e + 'b" where
  "sum_bind m f = (case m of Inl e \<Rightarrow> Inl e | Inr x \<Rightarrow> f x)"

lemma sum_bind_simps [simp]: "sum_bind (Inl e) f = Inl e" "sum_bind (Inr x) f = f x"
  by (simp_all add: sum_bind_def)

lemma sum_bind_Inr: "sum_bind m f = Inr y \<longleftrightarrow> (\<exists>x. m = Inr x \<and> f x = Inr y)"
  by (cases m) simp_all

definition raised :: "py_error + 'a \<Rightarrow> refusal + 'a" where
  "raised m = map_sum Raised id m"

lemma raised_simps [simp]: "raised (Inl e) = Inl (Raised e)" "raised (Inr x) = Inr x"
  by (simp_all add: raised_def)

lemma raised_Inr: "raised m = Inr x \<longleftrightarrow> m = Inr x"
  by (cases m) simp_all

definition members_by_team :: "member_seat list \<Rightarrow> (int, int list) dict" where
  "members_by_team seats = foldl (\<lambda>d s. dict_set (ms_team s) (dict_get d (ms_team s) [] @ [ms_id s]) d) [] seats"

text \<open>\<open>_ctx\<close>: a participation may name the players of every roster but its own.\<close>

definition ctx_of :: "room_env \<Rightarrow> room \<Rightarrow> resolved_step \<Rightarrow> runtime_ctx" where
  "ctx_of env room s = \<lparr>cx_kind = re_kind env, cx_round = rs_round s,
     cx_available = map en_item (filter (\<lambda>e. en_carried e = None \<and> en_round e = rs_round s \<and> en_status e = Available) (rm_board room)),
     cx_groups = re_groups env, cx_history = history_of (rm_steps room) (rm_rows room),
     cx_targets = (if target s \<noteq> None \<and> re_rosters env \<noteq> []
       then map (\<lambda>t. (t, concat (map snd (filter (\<lambda>(opponent, ps). opponent \<noteq> t) (re_rosters env))))) (re_participants env) else []),
     cx_members = members_by_team (re_seats env), cx_exclusions = re_exclusions env\<rparr>"

section \<open>Sides\<close>

definition step_position :: "resolved_step \<Rightarrow> int" where
  "step_position s = (case rs_round s of None \<Rightarrow> 1 | Some r \<Rightarrow> if r = 0 then 1 else r)"

text \<open>The chooser's side and the remaining ones in seat order; a surplus seat gets none.\<close>

fun give_sides :: "int \<Rightarrow> string \<Rightarrow> string list \<Rightarrow> int list \<Rightarrow> (int, string option) dict \<Rightarrow> (int, string option) dict" where
  "give_sides actor side remaining [] d = d"
| "give_sides actor side remaining (t # ts) d =
    (if t = actor then give_sides actor side remaining ts (dict_set t (Some side) d)
     else case remaining of
       [] \<Rightarrow> give_sides actor side [] ts (dict_set t None d)
     | c # cs \<Rightarrow> give_sides actor side cs ts (dict_set t (Some c) d))"

definition apply_side_pick :: "room_env \<Rightarrow> resolved_step \<Rightarrow> int \<Rightarrow> string \<Rightarrow> room \<Rightarrow> room" where
  "apply_side_pick env s actor side room =
    (let pos = step_position s
     in if pos \<in> re_played env then room
        else room\<lparr>rm_sides := dict_set pos (give_sides actor side (filter (\<lambda>c. c \<noteq> side) (re_sides env)) (re_participants env)
          (map (\<lambda>(t, _). (t, None)) (dict_get (rm_sides room) pos []))) (rm_sides room)\<rparr>)"

definition settle_side_pick :: "room_env \<Rightarrow> resolved_step \<Rightarrow> room \<Rightarrow> room" where
  "settle_side_pick env s room = foldl (\<lambda>room a.
     case actor_submission (rm_rows room) (index s) (Some a) None of
       None \<Rightarrow> room
     | Some r \<Rightarrow> if items_of r = [] \<or> re_sides env = [] then room
         else apply_side_pick env s a (re_sides env ! nat (di_item (hd (items_of r)) mod int (length (re_sides env)))) room)
     room (acting_actors s)"

definition clear_sides :: "int set \<Rightarrow> room \<Rightarrow> room" where
  "clear_sides positions room =
    room\<lparr>rm_sides := map (\<lambda>(p, d). (p, if p \<in> positions then map (\<lambda>(t, _). (t, None)) d else d)) (rm_sides room)\<rparr>"

definition session_opener :: "room_env \<Rightarrow> py_error + int" where
  "session_opener env =
    (case re_opener env of
       Some o' \<Rightarrow> if o' \<noteq> 0 then Inr o' else (case re_participants env of [] \<Rightarrow> Inl Other_Error | p # _ \<Rightarrow> Inr p)
     | None \<Rightarrow> (case re_participants env of [] \<Rightarrow> Inl Other_Error | p # _ \<Rightarrow> Inr p))"

text \<open>The loop of \<open>_bind_side_actors\<close>; \<open>pre\<close> holds the steps already visited.\<close>

fun bind_sides ::
  "room_env \<Rightarrow> submission list \<Rightarrow> resolved_step list \<Rightarrow> resolved_step list \<Rightarrow> py_error + resolved_step list \<times> bool" where
  "bind_sides env rows pre [] = Inr (pre, False)"
| "bind_sides env rows pre (s # post) =
    (if \<not> is_unbound s then bind_sides env rows (pre @ [s]) post
     else sum_bind (session_opener env) (\<lambda>opener.
       case resolve_actors (case actors_token s of None \<Rightarrow> [] | Some t \<Rightarrow> t) (re_participants env) opener None
           (assigned_sides (pre @ s # post) rows (re_sides env) (re_participants env) (rs_round s)) of
         Inl e \<Rightarrow> if e = Unassigned_Side then bind_sides env rows (pre @ [s]) post else Inl e
       | Inr as \<Rightarrow> map_sum id (\<lambda>(ss, _). (ss, True)) (bind_sides env rows (pre @ [s\<lparr>actors := as\<rparr>]) post)))"

definition bind_side_actors :: "room_env \<Rightarrow> room \<Rightarrow> py_error + room" where
  "bind_side_actors env room =
    map_sum id (\<lambda>(ss, bound). if bound then room\<lparr>rm_steps := bind_members ss (members_by_team (re_seats env))\<rparr> else room)
      (bind_sides env (rm_rows room) [] (rm_steps room))"

definition side_pick_pending :: "room_env \<Rightarrow> room \<Rightarrow> int \<Rightarrow> bool" where
  "side_pick_pending env room pos \<longleftrightarrow> re_sides env \<noteq> [] \<and>
    list_ex (\<lambda>s. action s = Side_Pick \<and> step_position s = pos \<and>
      (is_unbound s \<or> \<not> ready_to_reveal s (rm_rows room))) (rm_steps room)"

definition blocked_positions :: "room_env \<Rightarrow> room \<Rightarrow> int set" where
  "blocked_positions env room =
    set (filter (side_pick_pending env room) (map step_position (filter (\<lambda>s. action s = Side_Pick) (rm_steps room))))"

section \<open>The clock\<close>

definition step_clock :: "room_env \<Rightarrow> room \<Rightarrow> int" where
  "step_clock env room = (case rm_paused room of None \<Rightarrow> re_now env | Some p \<Rightarrow> p)"

definition step_deadline :: "room \<Rightarrow> resolved_step \<Rightarrow> int option" where
  "step_deadline room s =
    (case (timer_seconds s, rm_started room, rm_paused room) of
       (Some t, Some started, None) \<Rightarrow> Some (started + t)
     | _ \<Rightarrow> None)"

definition expired :: "room_env \<Rightarrow> room \<Rightarrow> resolved_step \<Rightarrow> bool" where
  "expired env room s = (case step_deadline room s of None \<Rightarrow> False | Some d \<Rightarrow> d \<le> re_now env)"

definition session_pending :: "room_env \<Rightarrow> room \<Rightarrow> bool" where
  "session_pending env room =
    (if rm_status room = Cancelled then False
     else case current_step (rm_steps room) (rm_rows room) of
       None \<Rightarrow> rm_status room \<noteq> Completed
     | Some s \<Rightarrow>
         if rm_status room = Completed then True
         else is_system s \<or> ready_to_reveal s (rm_rows room) \<or> (on_timeout s \<noteq> Wait \<and> expired env room s))"

section \<open>Writing the log\<close>

definition writable_attempt :: "submission list \<Rightarrow> int \<Rightarrow> int" where
  "writable_attempt rows i =
    (let attempt = current_attempt rows i;
         here = filter (\<lambda>r. sb_step r = i \<and> sb_attempt r = attempt) rows
     in if here \<noteq> [] \<and> list_all (\<lambda>r. sb_state r = Voided) here then attempt + 1 else attempt)"

definition live_row :: "submission list \<Rightarrow> int \<Rightarrow> int option \<Rightarrow> int option \<Rightarrow> submission \<Rightarrow> bool" where
  "live_row rows i actor mem r \<longleftrightarrow> sb_step r = i \<and> sb_team r = actor \<and> sb_member r = mem \<and>
     sb_attempt r = current_attempt rows i \<and> sb_state r \<noteq> Voided"

definition update_live ::
  "int \<Rightarrow> int option \<Rightarrow> int option \<Rightarrow> (submission \<Rightarrow> submission) \<Rightarrow> submission list \<Rightarrow> submission list" where
  "update_live i actor mem f rows =
    (case first_index (live_row rows i actor mem) rows of None \<Rightarrow> rows | Some k \<Rightarrow> rows[k := f (rows ! k)])"

definition write_row ::
  "resolved_step \<Rightarrow> int option \<Rightarrow> int option \<Rightarrow> draft_item list \<Rightarrow> sub_state \<Rightarrow> submission list \<Rightarrow> submission list" where
  "write_row s actor mem ds st rows =
    (case actor_submission rows (index s) actor mem of
       None \<Rightarrow> rows @ [\<lparr>sb_step = index s, sb_team = actor, sb_member = mem, sb_attempt = writable_attempt rows (index s),
         sb_state = st, sb_items = Some ds\<rparr>]
     | Some r \<Rightarrow> update_live (index s) actor mem (\<lambda>r. r\<lparr>sb_items := Some ds, sb_state := st\<rparr>) rows)"

definition reveal :: "resolved_step \<Rightarrow> submission list \<Rightarrow> submission list" where
  "reveal s rows = foldl (\<lambda>rows am.
     case actor_submission rows (index s) (fst am) (snd am) of
       None \<Rightarrow> rows
     | Some r \<Rightarrow> if sb_state r = Revealed then rows
         else update_live (index s) (fst am) (snd am) (\<lambda>r. r\<lparr>sb_state := Revealed\<rparr>) rows) rows (answers s)"

definition project :: "room \<Rightarrow> room" where
  "project room = room\<lparr>rm_board := project_entries (rm_board room) (rm_steps room) (rm_rows room)\<rparr>"

section \<open>Settling\<close>

definition owing :: "resolved_step \<Rightarrow> submission list \<Rightarrow> (int \<times> int option) list" where
  "owing s rows = List.map_filter (\<lambda>(a, m). case a of None \<Rightarrow> None
     | Some t \<Rightarrow> if answered_in {Locked, Revealed} rows s (a, m) then None else Some (t, m)) (answers s)"

definition live_items :: "submission list \<Rightarrow> resolved_step \<Rightarrow> int option \<Rightarrow> int option \<Rightarrow> draft_item list" where
  "live_items rows s actor mem = (case actor_submission rows (index s) actor mem of None \<Rightarrow> [] | Some r \<Rightarrow> items_of r)"

definition plain_item :: "int \<Rightarrow> int option \<Rightarrow> draft_item" where
  "plain_item i tgt = \<lparr>di_item = i, di_target = tgt, di_member = None\<rparr>"

text \<open>The coin: \<open>randbelow (len sides or 1)\<close>.\<close>

definition coin_flip_side :: "room_env \<Rightarrow> rng \<Rightarrow> int" where
  "coin_flip_side env rng = int (rng 0 0 mod max 1 (length (re_sides env)))"

definition stand_in_items ::
  "room_env \<Rightarrow> rng \<Rightarrow> resolved_step \<Rightarrow> ((int \<times> int), draft_item list) dict \<Rightarrow> room \<Rightarrow> int \<Rightarrow> int option \<Rightarrow> py_error + draft_item list" where
  "stand_in_items env rng s joint room a mem =
    (if action s = Side_Pick then Inr [plain_item (coin_flip_side env rng) None]
     else if on_timeout s = Random_Fill then
       (case mem of
          Some m \<Rightarrow> (case map_of joint (a, m) of None \<Rightarrow> Inl Other_Error | Some ds \<Rightarrow> Inr ds)
        | None \<Rightarrow> random_fill s (Some a) (live_items (rm_rows room) s (Some a) mem) (ctx_of env room s) rng None)
     else Inr (live_items (rm_rows room) s (Some a) mem))"

fun stand_in ::
  "room_env \<Rightarrow> nat \<Rightarrow> nat \<Rightarrow> resolved_step \<Rightarrow> ((int \<times> int), draft_item list) dict \<Rightarrow> room \<Rightarrow> (int \<times> int option) list \<Rightarrow> py_error + room" where
  "stand_in env n k s joint room [] = Inr room"
| "stand_in env n k s joint room ((a, m) # ams) =
    sum_bind (stand_in_items env (re_rng env n k) s joint room a m) (\<lambda>ds.
      stand_in env n (Suc k) s joint (project (room\<lparr>rm_rows := write_row s (Some a) m ds Locked (rm_rows room)\<rparr>)) ams)"

definition expire :: "room_env \<Rightarrow> nat \<Rightarrow> resolved_step \<Rightarrow> room \<Rightarrow> py_error + room" where
  "expire env n s room =
    (let owe = owing s (rm_rows room)
     in sum_bind
       (if member s \<noteq> None \<and> on_timeout s = Random_Fill
        then fill_member_answers s (List.map_filter (\<lambda>(a, m). map_option (Pair a) m) owe) (ctx_of env room s) (re_rng env n 0)
        else Inr []) (\<lambda>joint. stand_in env n 1 s joint room owe))"

text \<open>One pass of the loop in \<open>_settle\<close>: whether it goes on, and the room it leaves.\<close>

definition settle_pass :: "room_env \<Rightarrow> nat \<Rightarrow> int option \<Rightarrow> room \<Rightarrow> py_error + bool \<times> room" where
  "settle_pass env n timed room0 =
    (let room = project room0; rows = rm_rows room
     in case current_step (rm_steps room) rows of
       None \<Rightarrow> Inr (False, room)
     | Some s \<Rightarrow>
         if is_unbound s then Inr (False, room)
         else if is_system s then
           map_sum id (\<lambda>ds. (True, room\<lparr>rm_rows := write_row s None None ds Revealed rows\<rparr>))
             (resolve_system_step s (ctx_of env room s) (re_rng env n 0))
         else if ready_to_reveal s rows then
           (let shown = room\<lparr>rm_rows := reveal s rows\<rparr>
            in map_sum id (Pair True)
              (if action s = Side_Pick then bind_side_actors env (settle_side_pick env s shown) else Inr shown))
         else if Some (index s) = timed \<and> on_timeout s \<noteq> Wait \<and> expired env room s then
           map_sum id (Pair True) (expire env n s room)
         else Inr (False, room))"

fun settle_loop :: "room_env \<Rightarrow> nat \<Rightarrow> int option \<Rightarrow> room \<Rightarrow> bool \<Rightarrow> py_error + bool \<times> room" where
  "settle_loop env 0 timed room changed = Inr (changed, room)"
| "settle_loop env (Suc n) timed room changed =
    sum_bind (settle_pass env n timed room) (\<lambda>(more, room').
      if more then settle_loop env n timed room' True else Inr (changed, room'))"

definition timed_index :: "room \<Rightarrow> int option" where
  "timed_index room = map_option index (current_step (rm_steps room) (rm_rows room))"

text \<open>After the loop: the board, the clock of a newly opened step, and the status.\<close>

definition finish :: "room_env \<Rightarrow> int option \<Rightarrow> bool \<times> room \<Rightarrow> bool \<times> room" where
  "finish env timed cr =
    (case cr of (changed, room0) \<Rightarrow>
      let room1 = project room0;
          room = (if timed_index room1 \<noteq> timed then room1\<lparr>rm_started := Some (step_clock env room1)\<rparr> else room1)
      in if timed_index room = None then
           (if rm_status room = Active then (True, room\<lparr>rm_status := Completed\<rparr>) else (changed, room))
         else if rm_status room = Completed then (True, room\<lparr>rm_status := Active\<rparr>)
         else (changed, room))"

definition settle :: "room_env \<Rightarrow> room \<Rightarrow> py_error + bool \<times> room" where
  "settle env room =
    (if rm_status room = Cancelled then Inr (False, room)
     else sum_bind (bind_side_actors env room) (\<lambda>room.
       map_sum id (finish env (timed_index room))
         (settle_loop env (length (rm_steps room) + 2) (timed_index room) room False)))"

section \<open>Reopening a step\<close>

definition clear_undo_request :: "room \<Rightarrow> room" where
  "clear_undo_request room = room\<lparr>rm_undo_by := None, rm_undo_index := None\<rparr>"

text \<open>The live rows of a step's current attempt; reopening and undoing void exactly these.\<close>

definition live_at :: "submission list \<Rightarrow> int \<Rightarrow> submission \<Rightarrow> bool" where
  "live_at rows i r \<longleftrightarrow> sb_step r = i \<and> sb_attempt r = current_attempt rows i \<and> sb_state r \<noteq> Voided"

definition void_where :: "(submission \<Rightarrow> bool) \<Rightarrow> submission list \<Rightarrow> submission list" where
  "void_where P rows = map (\<lambda>r. if P r then r\<lparr>sb_state := Voided\<rparr> else r) rows"

definition previous_items :: "submission list \<Rightarrow> int \<Rightarrow> ((int option \<times> int option), draft_item list) dict" where
  "previous_items rows i = foldl (\<lambda>d r. dict_set (sb_team r, sb_member r) (items_of r) d) []
     (filter (\<lambda>r. live_at rows i r \<and> sb_team r \<noteq> None) rows)"

definition fresh_drafts :: "resolved_step \<Rightarrow> submission list \<Rightarrow> submission list" where
  "fresh_drafts s rows = map (\<lambda>(a, m). \<lparr>sb_step = index s, sb_team = a, sb_member = m,
       sb_attempt = current_attempt rows (index s) + 1, sb_state = Draft,
       sb_items = Some (if blind s then dict_get (previous_items rows (index s)) (a, m) [] else [])\<rparr>)
     (filter (\<lambda>(a, m). a \<noteq> None) (answers s))"

definition take_back_sides :: "int option set \<Rightarrow> resolved_step list \<Rightarrow> resolved_step list" where
  "take_back_sides rounds steps = map (\<lambda>s. if rs_round s \<in> rounds \<and> is_bound_to_side s then unbound s else s) steps"

definition wake :: "room \<Rightarrow> room" where
  "wake room = (if rm_status room = Completed then room\<lparr>rm_status := Active\<rparr> else room)"

definition reopen :: "room_env \<Rightarrow> resolved_step \<Rightarrow> room \<Rightarrow> room" where
  "reopen env s room =
    (let rows = rm_rows room;
         room1 = room\<lparr>rm_rows := void_where (live_at rows (index s)) rows @ fresh_drafts s rows\<rparr>;
         room2 = (if action s = Side_Pick
           then clear_sides {step_position s} (room1\<lparr>rm_steps := take_back_sides {rs_round s} (rm_steps room1)\<rparr>) else room1)
     in clear_undo_request (wake ((project room2)\<lparr>rm_started := Some (step_clock env room2)\<rparr>)))"

definition touched :: "submission list \<Rightarrow> resolved_step \<Rightarrow> bool" where
  "touched rows s \<longleftrightarrow> list_ex (\<lambda>am. actor_submission rows (index s) (fst am) (snd am) \<noteq> None) (answers s)"

definition reopenable :: "room \<Rightarrow> resolved_step option" where
  "reopenable room =
    (case filter (touched (rm_rows room)) (rm_steps room) of
       [] \<Rightarrow> None
     | ss \<Rightarrow> if fully_revealed (rm_rows room) (last ss) then Some (last ss) else None)"

section \<open>Who may act\<close>

definition lock_room :: "bool \<Rightarrow> room \<Rightarrow> refusal + room" where
  "lock_room captain room =
    (if rm_status room = Cancelled then Inl Session_Cancelled
     else if captain \<and> rm_paused room \<noteq> None then Inl Session_Paused else Inr room)"

definition require_step :: "room \<Rightarrow> refusal + resolved_step" where
  "require_step room = (case current_step (rm_steps room) (rm_rows room) of None \<Rightarrow> Inl Sequence_Complete | Some s \<Rightarrow> Inr s)"

definition require_turn :: "room \<Rightarrow> resolved_step \<Rightarrow> int \<Rightarrow> int option \<Rightarrow> refusal + unit" where
  "require_turn room s actor mem =
    (if actor \<notin> set (acting_actors s) then Inl Not_Your_Turn
     else if member s \<noteq> None \<and> (Some actor, mem) \<notin> set (answers s) then Inl Name_A_Member
     else if member s = None \<and> mem \<noteq> None then Inl Step_Is_The_Teams
     else if answered_in {Locked, Revealed} (rm_rows room) s (Some actor, mem) then Inl Already_Locked
     else Inr ())"

definition bind_free_pick ::
  "room_env \<Rightarrow> room \<Rightarrow> resolved_step \<Rightarrow> int \<Rightarrow> int option \<Rightarrow> refusal + room \<times> resolved_step" where
  "bind_free_pick env room s actor mem =
    (let M = members_by_team (re_seats env)
     in case mem of
       None \<Rightarrow> Inr (room, s)
     | Some m \<Rightarrow>
         if member s \<noteq> Some Any_Member \<or> (Some actor, mem) \<in> set (answers s) \<or>
            m \<notin> set (free_pick_choices (rm_steps room) s actor M) then Inr (room, s)
         else if list_ex (\<lambda>(a, m'). a = Some actor \<and> actor_submission (rm_rows room) (index s) a m' \<noteq> None) (answers s)
         then Inl Already_Locked
         else sum_bind (raised (rebind_free_pick (rm_steps room) s actor m M)) (\<lambda>steps.
           case find (\<lambda>t. index t = index s) steps of
             None \<Rightarrow> Inl (Raised Other_Error)
           | Some t \<Rightarrow> Inr (room\<lparr>rm_steps := steps\<rparr>, t)))"

definition may_pick_for :: "room_env \<Rightarrow> resolved_step \<Rightarrow> int \<Rightarrow> int option \<Rightarrow> bool \<Rightarrow> int option \<Rightarrow> bool" where
  "may_pick_for env s actor mem captain viewer_member \<longleftrightarrow> \<not> captains_only s \<or> \<not> captain \<or>
    viewer_member \<noteq> None \<and> viewer_member =
      (case find (\<lambda>seat. ms_team seat = actor \<and> ms_captain seat) (re_seats env) of Some seat \<Rightarrow> Some (ms_id seat) | None \<Rightarrow> mem)"

definition assert_side_choice :: "room_env \<Rightarrow> int \<Rightarrow> refusal + unit" where
  "assert_side_choice env i =
    (if re_sides env = [] then Inl No_Sides
     else if 0 \<le> i \<and> i < int (length (re_sides env)) then Inr () else Inl No_Such_Side)"

definition accept_draft :: "room_env \<Rightarrow> room \<Rightarrow> resolved_step \<Rightarrow> int \<Rightarrow> draft_item list \<Rightarrow> bool \<Rightarrow> int option \<Rightarrow> refusal + unit" where
  "accept_draft env room s actor ds final mem =
    sum_bind (raised (validate_items s (Some actor) ds (ctx_of env room s) final mem)) (\<lambda>issues.
      if issues = [] then Inr () else Inl (Items_Refused issues))"

section \<open>Requests\<close>

text \<open>\<open>captain\<close> is \<open>viewer == ACTING_VIEWER\<close>: an organizer acts for a seat with it off.\<close>

record act_request =
  aq_captain :: bool
  aq_team :: int
  aq_member :: "int option"
  aq_viewer_member :: "int option"
  aq_action :: string
  aq_item :: int
  aq_target :: "int option"

definition commit :: "room_env \<Rightarrow> room \<Rightarrow> refusal + room" where
  "commit env room = map_sum id snd (raised (settle env room))"

definition perform_action :: "room_env \<Rightarrow> act_request \<Rightarrow> room \<Rightarrow> refusal + room" where
  "perform_action env q room =
    sum_bind (lock_room (aq_captain q) room) (\<lambda>room.
    if \<not> re_mix env \<and> aq_member q \<noteq> None then Inl Not_A_Mix else
    sum_bind (commit env room) (\<lambda>room.
    sum_bind (require_step room) (\<lambda>s.
    if blind s then Inl Step_Blind else
    if action s = Assign then Inl Step_Assigns else
    if aq_action q \<noteq> action_name (action s) then Inl Wrong_Action else
    sum_bind (bind_free_pick env room s (aq_team q) (aq_member q)) (\<lambda>(room, s).
    sum_bind (require_turn room s (aq_team q) (aq_member q)) (\<lambda>_.
    if \<not> may_pick_for env s (aq_team q) (aq_member q) (aq_captain q) (aq_viewer_member q) then Inl Captain_Picks else
    let ds = live_items (rm_rows room) s (Some (aq_team q)) (aq_member q) @ [plain_item (aq_item q) (aq_target q)]
    in sum_bind (if action s = Side_Pick then assert_side_choice env (aq_item q)
         else accept_draft env room s (aq_team q) ds False (aq_member q)) (\<lambda>_.
       commit env (clear_undo_request (room\<lparr>rm_rows :=
         write_row s (Some (aq_team q)) (aq_member q) ds (if cnt s \<le> int (length ds) then Locked else Draft) (rm_rows room)\<rparr>))))))))"

record submit_request =
  sq_captain :: bool
  sq_team :: int
  sq_items :: "draft_item list"
  sq_lock :: bool

definition submit_items :: "room_env \<Rightarrow> submit_request \<Rightarrow> room \<Rightarrow> refusal + room" where
  "submit_items env q room =
    sum_bind (lock_room (sq_captain q) room) (\<lambda>room.
    if \<not> re_mix env \<and> list_ex (\<lambda>i. di_member i \<noteq> None) (sq_items q) then Inl Not_A_Mix else
    sum_bind (commit env room) (\<lambda>room.
    sum_bind (require_step room) (\<lambda>s.
    if \<not> blind s \<and> action s \<noteq> Assign then Inl Step_Open else
    sum_bind (require_turn room s (sq_team q) None) (\<lambda>_.
    sum_bind (accept_draft env room s (sq_team q) (sq_items q) (sq_lock q) None) (\<lambda>_.
    commit env (clear_undo_request (room\<lparr>rm_rows :=
      write_row s (Some (sq_team q)) None (sq_items q) (if sq_lock q then Locked else Draft) (rm_rows room)\<rparr>)))))))"

definition dispute_step :: "room_env \<Rightarrow> int \<Rightarrow> room \<Rightarrow> refusal + room" where
  "dispute_step env team room =
    sum_bind (lock_room True room) (\<lambda>room.
    sum_bind (commit env room) (\<lambda>room.
    case dp_step_index (dispute_target (rm_steps room) (rm_rows room) (Some team) (re_played env)) of
      None \<Rightarrow> Inl Cannot_Reopen
    | Some i \<Rightarrow> (case find (\<lambda>s. index s = i) (rm_steps room) of
        None \<Rightarrow> Inl (Raised Other_Error)
      | Some s \<Rightarrow> commit env (reopen env s room))))"

definition admin_reopen_step :: "room_env \<Rightarrow> room \<Rightarrow> refusal + room" where
  "admin_reopen_step env room =
    sum_bind (lock_room False room) (\<lambda>room.
    sum_bind (commit env room) (\<lambda>room.
    case reopenable room of
      None \<Rightarrow> Inl Nothing_To_Reopen
    | Some s \<Rightarrow> if action s = Side_Pick \<and> step_position s \<in> re_played env then Inl Side_Locked
        else commit env (reopen env s room)))"

section \<open>Undo by agreement\<close>

definition undone_side_positions :: "resolved_step list \<Rightarrow> submission list \<Rightarrow> int \<Rightarrow> int set" where
  "undone_side_positions steps rows tgt = set (map step_position (filter (\<lambda>s. action s = Side_Pick \<and> index s \<ge> tgt \<and>
     list_ex (live_at rows (index s)) rows) steps))"

definition undone_side_rounds :: "resolved_step list \<Rightarrow> submission list \<Rightarrow> int \<Rightarrow> int option set" where
  "undone_side_rounds steps rows tgt = set (map rs_round (filter (\<lambda>s. index s \<ge> tgt \<and> action s = Side_Pick \<and>
     list_ex (live_at rows (index s)) rows) steps))"

definition apply_undo :: "room_env \<Rightarrow> int \<Rightarrow> room \<Rightarrow> room" where
  "apply_undo env tgt room =
    (let steps = rm_steps room; rows = rm_rows room;
         room1 = room\<lparr>rm_rows := void_where (\<lambda>r. list_ex (\<lambda>s. index s \<ge> tgt \<and> live_at rows (index s) r) steps) rows,
           rm_steps := take_back_sides (undone_side_rounds steps rows tgt) steps\<rparr>
     in (wake (clear_undo_request (project room1)))\<lparr>rm_started := Some (re_now env)\<rparr>)"

text \<open>The positions of the series whose map the undo takes back.\<close>

definition undone_positions :: "room \<Rightarrow> int \<Rightarrow> int set" where
  "undone_positions room tgt =
    (let undone = map (\<lambda>a. (ai_round a, item_id a)) (filter (\<lambda>a. step_index a \<ge> tgt \<and> ai_action a \<in> {''pick'', ''decider''})
           (applied_items (rm_steps room) (rm_rows room)))
     in set (map (\<lambda>(k, e). int k) (filter (\<lambda>(k, e). (en_round e, en_item e) \<in> set undone) (enumerate 1 (settled_in_order (rm_board room))))))"

definition undo_guard :: "room_env \<Rightarrow> room \<Rightarrow> int \<Rightarrow> resolved_step \<Rightarrow> bool \<Rightarrow> refusal + unit" where
  "undo_guard env room tgt s consent =
    (if re_kind env = ''map'' \<and> re_heroes_begun env (rs_round s) then Inl Heroes_First
     else if re_kind env = ''map'' \<and> undone_positions room tgt \<inter> re_claimed env \<noteq> {} then Inl Position_Claimed
     else if consent \<and> undone_side_positions (rm_steps room) (rm_rows room) tgt \<inter> re_played env \<noteq> {} then Inl Side_Locked
     else Inr ())"

definition perform_undo :: "room_env \<Rightarrow> int \<Rightarrow> bool \<Rightarrow> room \<Rightarrow> refusal + room" where
  "perform_undo env team consent room =
    sum_bind (lock_room True room) (\<lambda>room.
    case undo_target (rm_steps room) (rm_rows room) of
      None \<Rightarrow> Inl Nothing_To_Undo
    | Some tgt \<Rightarrow>
       (case find (\<lambda>s. index s = tgt) (rm_steps room) of
          None \<Rightarrow> Inl (Raised Other_Error)
        | Some s \<Rightarrow>
            sum_bind (undo_guard env room tgt s consent) (\<lambda>_.
            if \<not> consent then Inr (clear_undo_request room)
            else
              let pending = (if rm_undo_index room = Some tgt then rm_undo_by room else None)
              in if pending = None \<or> pending = Some team
                 then Inr (room\<lparr>rm_undo_by := Some team, rm_undo_index := Some tgt\<rparr>)
                 else Inr (clear_sides (undone_side_positions (rm_steps room) (rm_rows room) tgt) (apply_undo env tgt room)))))"

section \<open>The organizer's controls\<close>

definition load_active :: "room \<Rightarrow> refusal + room" where
  "load_active room = (if rm_status room = Active then Inr room else Inl Session_Not_Active)"

definition set_paused :: "room_env \<Rightarrow> bool \<Rightarrow> room \<Rightarrow> refusal + room" where
  "set_paused env paused room =
    sum_bind (load_active room) (\<lambda>room.
      if paused then Inr (if rm_paused room = None then room\<lparr>rm_paused := Some (re_now env)\<rparr> else room)
      else case rm_paused room of
        None \<Rightarrow> Inr room
      | Some p \<Rightarrow> Inr (room\<lparr>rm_started := map_option (\<lambda>t. t + (re_now env - p)) (rm_started room), rm_paused := None\<rparr>))"

definition extend_step_timer :: "int \<Rightarrow> room \<Rightarrow> refusal + room" where
  "extend_step_timer seconds room =
    sum_bind (load_active room) (\<lambda>room.
      case (current_step (rm_steps room) (rm_rows room), rm_started room) of
        (Some s, Some t) \<Rightarrow> if timer_seconds s = None then Inl No_Timed_Step else Inr (room\<lparr>rm_started := Some (t + seconds)\<rparr>)
      | _ \<Rightarrow> Inl No_Timed_Step)"

definition cancel_session :: "room \<Rightarrow> refusal + room" where
  "cancel_session room =
    (if rm_status room = Cancelled then Inl Session_Cancelled else Inr (room\<lparr>rm_status := Cancelled, rm_paused := None\<rparr>))"

end
