(* ===== verification/Pickban_Room_Log.thy ===== *)
theory Pickban_Room_Log
  imports Pickban_Room
begin

text \<open>
  What the requests of a room do to its log. The database keeps one row per step, participation,
  member and attempt; the code never checks that key, so every path that writes has to respect it.
  The invariant \<open>log_ok\<close> says that it does, that only the current attempt of a step is live, and that
  an attempt is voided as a whole. It only depends on the keys and on which rows are voided, so a
  write that changes neither keeps it for free.
\<close>

section \<open>The invariant of the log\<close>

type_synonym key = "int \<times> int option \<times> int option \<times> int"

definition row_key :: "submission \<Rightarrow> key" where
  "row_key r = (sb_step r, sb_team r, sb_member r, sb_attempt r)"

definition sigs :: "submission list \<Rightarrow> (key \<times> bool) list" where
  "sigs rows = map (\<lambda>r. (row_key r, sb_state r = Voided)) rows"

definition log_ok :: "submission list \<Rightarrow> bool" where
  "log_ok rows \<longleftrightarrow> distinct (map row_key rows) \<and>
    (\<forall>r \<in> set rows. sb_state r \<noteq> Voided \<longrightarrow> sb_attempt r = current_attempt rows (sb_step r)) \<and>
    (\<forall>r \<in> set rows. \<forall>r' \<in> set rows. sb_step r = sb_step r' \<and> sb_attempt r = sb_attempt r' \<longrightarrow>
       (sb_state r = Voided) = (sb_state r' = Voided))"

lemma log_ok_live: "log_ok rows \<Longrightarrow> r \<in> set rows \<Longrightarrow> sb_state r \<noteq> Voided \<Longrightarrow> sb_attempt r = current_attempt rows (sb_step r)"
  unfolding log_ok_def by blast

lemma log_ok_whole:
  "log_ok rows \<Longrightarrow> r \<in> set rows \<Longrightarrow> r' \<in> set rows \<Longrightarrow> sb_step r = sb_step r' \<Longrightarrow> sb_attempt r = sb_attempt r' \<Longrightarrow>
    (sb_state r = Voided) = (sb_state r' = Voided)"
  unfolding log_ok_def by blast

lemma log_ok_keys: "log_ok rows \<Longrightarrow> distinct (map row_key rows)"
  unfolding log_ok_def by blast

lemma log_okI:
  assumes "distinct (map row_key rows)"
    and "\<And>r. r \<in> set rows \<Longrightarrow> sb_state r \<noteq> Voided \<Longrightarrow> sb_attempt r = current_attempt rows (sb_step r)"
    and "\<And>r r'. r \<in> set rows \<Longrightarrow> r' \<in> set rows \<Longrightarrow> sb_step r = sb_step r' \<Longrightarrow> sb_attempt r = sb_attempt r' \<Longrightarrow>
      (sb_state r = Voided) = (sb_state r' = Voided)"
  shows "log_ok rows"
  unfolding log_ok_def using assms by blast

lemma sigs_append [simp]: "sigs (xs @ ys) = sigs xs @ sigs ys"
  by (simp add: sigs_def)

lemma keys_of_sigs: "map row_key rows = map fst (sigs rows)"
  by (simp add: sigs_def)

lemma attempts_of_sigs:
  "map sb_attempt (filter (\<lambda>r. sb_step r = i) rows) =
     map (\<lambda>(k, v). snd (snd (snd k))) (filter (\<lambda>(k, v). fst k = i) (sigs rows))"
  by (induction rows) (auto simp: sigs_def row_key_def)

lemma current_attempt_sigs: "sigs rows = sigs rows' \<Longrightarrow> current_attempt rows i = current_attempt rows' i"
  by (simp add: current_attempt_def attempts_of_sigs)

definition ok_sigs :: "(key \<times> bool) list \<Rightarrow> (int \<Rightarrow> int) \<Rightarrow> bool" where
  "ok_sigs ss current \<longleftrightarrow> distinct (map fst ss) \<and>
    (\<forall>(k, v) \<in> set ss. \<not> v \<longrightarrow> snd (snd (snd k)) = current (fst k)) \<and>
    (\<forall>(k, v) \<in> set ss. \<forall>(k', v') \<in> set ss. fst k = fst k' \<and> snd (snd (snd k)) = snd (snd (snd k')) \<longrightarrow> v = v')"

lemma log_ok_sigs: "log_ok rows \<longleftrightarrow> ok_sigs (sigs rows) (current_attempt rows)"
  by (simp add: log_ok_def ok_sigs_def sigs_def row_key_def [abs_def] o_def)

lemma log_ok_cong: "sigs rows = sigs rows' \<Longrightarrow> log_ok rows \<longleftrightarrow> log_ok rows'"
proof -
  assume eq: "sigs rows = sigs rows'"
  then have "current_attempt rows = current_attempt rows'" using current_attempt_sigs by blast
  then show ?thesis by (simp add: log_ok_sigs eq)
qed

lemma current_attempt_ge: "r \<in> set rows \<Longrightarrow> sb_attempt r \<le> current_attempt rows (sb_step r)"
  by (auto simp: current_attempt_def Let_def filter_empty_conv intro!: Max_ge)

lemma current_attempt_in:
  assumes "r \<in> set rows" and "sb_step r = i"
  shows "\<exists>r' \<in> set rows. sb_step r' = i \<and> sb_attempt r' = current_attempt rows i"
proof -
  let ?as = "map sb_attempt (filter (\<lambda>r. sb_step r = i) rows)"
  have "?as \<noteq> []" using assms by (auto simp: filter_empty_conv)
  then have "current_attempt rows i \<in> set ?as" 
    using Max_in [of "set ?as"] by (simp only: current_attempt_def Let_def if_False finite_set set_empty simp_thms)
  then show ?thesis by auto
qed

lemma current_attempt_other: "(\<And>r. r \<in> set new \<Longrightarrow> sb_step r \<noteq> i) \<Longrightarrow> current_attempt (rows @ new) i = current_attempt rows i"
proof -
  assume "\<And>r. r \<in> set new \<Longrightarrow> sb_step r \<noteq> i"
  then have "filter (\<lambda>r. sb_step r = i) new = []" by (auto simp: filter_empty_conv)
  then show ?thesis by (simp add: current_attempt_def)
qed

lemma current_attempt_new:
  assumes "new \<noteq> []" and "\<And>r. r \<in> set new \<Longrightarrow> sb_step r = i \<and> sb_attempt r = n"
    and "\<And>r. r \<in> set rows \<Longrightarrow> sb_step r = i \<Longrightarrow> sb_attempt r \<le> n"
  shows "current_attempt (rows @ new) i = n"
proof -
  let ?as = "map sb_attempt (filter (\<lambda>r. sb_step r = i) (rows @ new))"
  obtain r where r: "r \<in> set new" using assms(1) by (cases new) auto
  then have "n \<in> set ?as" using assms(2) by force
  moreover have "a \<le> n" if "a \<in> set ?as" for a using that assms(2,3) by auto
  ultimately have "Max (set ?as) = n" by (intro Max_eqI) auto
  moreover have "?as \<noteq> []" using \<open>n \<in> set ?as\<close> by (metis empty_iff empty_set)
  ultimately show ?thesis by (simp only: current_attempt_def Let_def if_False simp_thms)
qed

text \<open>Appending rows of one attempt of one step.\<close>

lemma log_ok_append:
  assumes ok: "log_ok rows"
    and new: "\<And>r. r \<in> set new \<Longrightarrow> sb_step r = i \<and> sb_attempt r = n \<and> sb_state r \<noteq> Voided"
    and keys: "distinct (map row_key new)" "set (map row_key new) \<inter> set (map row_key rows) = {}"
    and old: "\<And>r. r \<in> set rows \<Longrightarrow> sb_step r = i \<Longrightarrow> sb_attempt r \<le> n \<and> (sb_state r = Voided \<longleftrightarrow> sb_attempt r < n)"
  shows "log_ok (rows @ new)"
proof (cases "new = []")
  case False
  have at_i: "current_attempt (rows @ new) i = n" by (rule current_attempt_new [OF False]) (use new old in auto)
  have else: "current_attempt (rows @ new) j = current_attempt rows j" if "j \<noteq> i" for j
    by (rule current_attempt_other) (use new that in auto)
  have "sb_attempt r = current_attempt (rows @ new) (sb_step r)" if "r \<in> set (rows @ new)" "sb_state r \<noteq> Voided" for r
  proof (cases "sb_step r = i")
    case True
    then show ?thesis using that new old [of r] at_i by auto
  next
    case False
    then have "r \<in> set rows" using that(1) new by auto
    then show ?thesis using log_ok_live [OF ok _ that(2)] else [OF False] by simp
  qed
  moreover have "(sb_state r = Voided) = (sb_state r' = Voided)"
    if "r \<in> set (rows @ new)" "r' \<in> set (rows @ new)" "sb_step r = sb_step r'" "sb_attempt r = sb_attempt r'" for r r'
  proof (cases "sb_step r = i")
    case True
    have "sb_state x = Voided \<longleftrightarrow> sb_attempt x < n" if "x \<in> set (rows @ new)" "sb_step x = i" for x
      using that new [of x] old [of x] by auto
    then show ?thesis using that True by metis
  next
    case False
    then have "r \<in> set rows" "r' \<in> set rows" using that(1-3) new by auto
    then show ?thesis using log_ok_whole [OF ok] that(3,4) by blast
  qed
  moreover have "distinct (map row_key (rows @ new))" using keys log_ok_keys [OF ok] by (auto simp: Int_commute)
  ultimately show ?thesis by (intro log_okI)
qed (simp add: ok)

section \<open>Live rows\<close>

lemma find_Some_first: "find P xs = Some x \<Longrightarrow> x \<in> set xs \<and> P x"
  by (auto simp: find_Some_iff)

lemma first_index_hit: "first_index P xs = Some k \<Longrightarrow> k < length xs \<and> P (xs ! k) \<and> (\<forall>j < k. \<not> P (xs ! j))"
  by (induction xs arbitrary: k) (auto simp: less_Suc_eq_0_disj split: if_splits)

lemma first_index_find: "find P xs = (case first_index P xs of None \<Rightarrow> None | Some k \<Rightarrow> Some (xs ! k))"
  by (induction xs) (auto split: option.split)

lemma actor_submission_live: "actor_submission rows i a m = find (live_row rows i a m) rows"
  unfolding actor_submission_def live_row_def [abs_def] ..

lemma actor_submission_index:
  "actor_submission rows i a m = (case first_index (live_row rows i a m) rows of None \<Rightarrow> None | Some k \<Rightarrow> Some (rows ! k))"
  by (simp add: actor_submission_live first_index_find)

lemma live_row_unique:
  assumes "log_ok rows" and "live_row rows i a m r" and "live_row rows i a m r'" and "r \<in> set rows" and "r' \<in> set rows"
  shows "r = r'"
proof -
  have "row_key r = row_key r'" using assms(2,3) by (simp add: live_row_def row_key_def)
  then show ?thesis using log_ok_keys [OF assms(1)] assms(4,5) unfolding distinct_map inj_on_def by blast
qed

lemma sigs_update_live:
  assumes "\<And>r. row_key (f r) = row_key r" and "\<And>r. sb_state r \<noteq> Voided \<Longrightarrow> sb_state (f r) \<noteq> Voided"
  shows "sigs (update_live i a m f rows) = sigs rows"
proof (cases "first_index (live_row rows i a m) rows")
  case (Some k)
  then have "k < length rows" "sb_state (rows ! k) \<noteq> Voided" using first_index_hit [OF Some] by (auto simp: live_row_def)
  then have "(row_key (f (rows ! k)), sb_state (f (rows ! k)) = Voided) = sigs rows ! k" using assms by (simp add: sigs_def)
  then show ?thesis by (simp add: update_live_def Some sigs_def map_update)
qed (simp add: update_live_def)

lemma sigs_write_row_live:
  assumes "actor_submission rows (index s) a m \<noteq> None" and "st \<noteq> Voided"
  shows "sigs (write_row s a m ds st rows) = sigs rows"
  using assms by (auto simp: write_row_def row_key_def intro!: sigs_update_live)

lemma writable_attempt_cases:
  assumes "log_ok rows"
  shows "\<forall>r \<in> set rows. sb_step r = i \<longrightarrow> sb_attempt r \<le> writable_attempt rows i \<and>
    (sb_state r = Voided \<longleftrightarrow> sb_attempt r < writable_attempt rows i)"
proof (intro ballI impI)
  fix r assume r: "r \<in> set rows" "sb_step r = i"
  let ?c = "current_attempt rows i"
  let ?here = "filter (\<lambda>r. sb_step r = i \<and> sb_attempt r = ?c) rows"
  have le: "sb_attempt r \<le> ?c" using current_attempt_ge [OF r(1)] r(2) by simp
  have live: "sb_state r \<noteq> Voided \<Longrightarrow> sb_attempt r = ?c" using log_ok_live [OF assms r(1)] r(2) by simp
  obtain top where top: "top \<in> set rows" "sb_step top = i" "sb_attempt top = ?c" using current_attempt_in [OF r] by blast
  show "sb_attempt r \<le> writable_attempt rows i \<and> (sb_state r = Voided \<longleftrightarrow> sb_attempt r < writable_attempt rows i)"
  proof (cases "sb_state top = Voided")
    case True
    have "sb_state x = Voided" if "x \<in> set ?here" for x
    proof -
      have "(sb_state x = Voided) = (sb_state top = Voided)" using that by (intro log_ok_whole [OF assms _ top(1)]) (simp_all add: top)
      then show ?thesis using True by simp
    qed
    moreover have "?here \<noteq> []" using top by (auto simp: filter_empty_conv)
    ultimately have w: "writable_attempt rows i = ?c + 1" by (auto simp: writable_attempt_def Let_def list_all_iff)
    have "sb_state r = Voided"
    proof (rule ccontr)
      assume "sb_state r \<noteq> Voided"
      then have "r \<in> set ?here" using live r by simp
      then show False using \<open>\<And>x. x \<in> set ?here \<Longrightarrow> sb_state x = Voided\<close> \<open>sb_state r \<noteq> Voided\<close> by blast
    qed
    then show ?thesis using le w by simp
  next
    case False
    then have "\<not> list_all (\<lambda>r. sb_state r = Voided) ?here" using top by (auto simp: list_all_iff)
    then have w: "writable_attempt rows i = ?c" by (auto simp: writable_attempt_def Let_def)
    have "sb_attempt r = ?c \<Longrightarrow> sb_state r \<noteq> Voided"
    proof -
      assume "sb_attempt r = ?c"
      then have "(sb_state r = Voided) = (sb_state top = Voided)" using log_ok_whole [OF assms r(1) top(1)] top r by simp
      then show ?thesis using False by simp
    qed
    then show ?thesis using le live w by force
  qed
qed

lemma log_ok_write_row:
  assumes ok: "log_ok rows" and st: "st \<noteq> Voided"
  shows "log_ok (write_row s a m ds st rows)"
proof (cases "actor_submission rows (index s) a m")
  case (Some r)
  then show ?thesis using log_ok_cong [OF sigs_write_row_live [of rows s a m st ds]] ok st by simp
next
  case None
  note w = writable_attempt_cases [OF ok, of "index s"]
  have "(index s, a, m, writable_attempt rows (index s)) \<notin> set (map row_key rows)"
  proof
    assume "(index s, a, m, writable_attempt rows (index s)) \<in> set (map row_key rows)"
    then obtain r where r: "r \<in> set rows" "sb_step r = index s" "sb_team r = a" "sb_member r = m"
      "sb_attempt r = writable_attempt rows (index s)" by (auto simp: row_key_def)
    then have v: "sb_state r \<noteq> Voided" using w by auto
    then have "sb_attempt r = current_attempt rows (index s)" using log_ok_live [OF ok r(1)] r(2) by simp
    then have "live_row rows (index s) a m r" using r v by (simp add: live_row_def)
    then show False using None r(1) by (auto simp: actor_submission_live find_None_iff)
  qed
  then show ?thesis
    unfolding write_row_def None option.case
    by (intro log_ok_append [OF ok, of _ "index s" "writable_attempt rows (index s)"]) (use w st in \<open>auto simp: row_key_def\<close>)
qed

lemma sigs_reveal: "sigs (reveal s rows) = sigs rows"
proof -
  have "sigs (foldl (\<lambda>rows am. case actor_submission rows (index s) (fst am) (snd am) of None \<Rightarrow> rows
      | Some r \<Rightarrow> if sb_state r = Revealed then rows
          else update_live (index s) (fst am) (snd am) (\<lambda>r. r\<lparr>sb_state := Revealed\<rparr>) rows) rows ams) = sigs rows" for ams
  proof (induction ams arbitrary: rows)
    case (Cons am ams)
    then show ?case by (auto split: option.split simp: row_key_def intro!: sigs_update_live)
  qed simp
  then show ?thesis by (simp add: reveal_def)
qed

lemma log_ok_reveal: "log_ok rows \<Longrightarrow> log_ok (reveal s rows)"
  using log_ok_cong [OF sigs_reveal] by simp

section \<open>Voiding\<close>

lemma row_key_void: "map row_key (void_where P rows) = map row_key rows"
  by (simp add: void_where_def row_key_def)

lemma current_attempt_void [simp]: "current_attempt (void_where P rows) i = current_attempt rows i"
proof -
  have "map sb_attempt (filter (\<lambda>r. sb_step r = i) (void_where P rows)) = map sb_attempt (filter (\<lambda>r. sb_step r = i) rows)"
    by (induction rows) (auto simp: void_where_def)
  then show ?thesis by (simp add: current_attempt_def)
qed

lemma in_void_where:
  assumes "r \<in> set (void_where P rows)"
  obtains q where "q \<in> set rows" "r = (if P q then q\<lparr>sb_state := Voided\<rparr> else q)" "sb_step r = sb_step q" "sb_attempt r = sb_attempt q"
proof -
  obtain q where q: "q \<in> set rows" "r = (if P q then q\<lparr>sb_state := Voided\<rparr> else q)"
    using assms unfolding void_where_def set_map by (rule imageE)
  show ?thesis by (rule that [OF q]) (simp_all add: q(2))
qed

text \<open>Voiding every live row of some steps.\<close>

lemma log_ok_void:
  assumes ok: "log_ok rows"
  shows "log_ok (void_where (\<lambda>r. sb_step r \<in> I \<and> live_at rows (sb_step r) r) rows)"
proof -
  let ?P = "\<lambda>r. sb_step r \<in> I \<and> live_at rows (sb_step r) r"
  have P: "?P r \<longleftrightarrow> sb_step r \<in> I \<and> sb_state r \<noteq> Voided" if "r \<in> set rows" for r
    using log_ok_live [OF ok that] by (auto simp: live_at_def)
  have live: "sb_attempt r = current_attempt (void_where ?P rows) (sb_step r)"
    if rv: "r \<in> set (void_where ?P rows)" "sb_state r \<noteq> Voided" for r
  proof -
    obtain q where q: "q \<in> set rows" "r = (if ?P q then q\<lparr>sb_state := Voided\<rparr> else q)" "sb_step r = sb_step q" "sb_attempt r = sb_attempt q"
      using rv(1) by (rule in_void_where)
    then have "sb_state q \<noteq> Voided" using rv(2) by (auto split: if_splits)
    then show ?thesis using log_ok_live [OF ok q(1)] q(3,4) by simp
  qed
  have whole: "(sb_state r = Voided) = (sb_state r' = Voided)"
    if rr: "r \<in> set (void_where ?P rows)" "r' \<in> set (void_where ?P rows)" "sb_step r = sb_step r'" "sb_attempt r = sb_attempt r'" for r r'
  proof -
    obtain q q' where q: "q \<in> set rows" "r = (if ?P q then q\<lparr>sb_state := Voided\<rparr> else q)"
      "q' \<in> set rows" "r' = (if ?P q' then q'\<lparr>sb_state := Voided\<rparr> else q')"
      using rr(1,2) by (auto simp: void_where_def)
    then have same: "sb_step q = sb_step q'" "sb_attempt q = sb_attempt q'" using rr(3,4) by (auto split: if_splits)
    then have "(sb_state q = Voided) = (sb_state q' = Voided)" using log_ok_whole [OF ok q(1,3)] by simp
    then show ?thesis using P [OF q(1)] P [OF q(3)] same(1) q(2,4) by (auto split: if_splits)
  qed
  have "distinct (map row_key (void_where ?P rows))" using log_ok_keys [OF ok] by (simp only: row_key_void)
  then show ?thesis using live whole by (rule log_okI)
qed

lemma log_ok_reopen:
  assumes ok: "log_ok rows" and "distinct (answers s)"
  shows "log_ok (void_where (live_at rows (index s)) rows @ fresh_drafts s rows)"
proof -
  let ?void = "void_where (live_at rows (index s)) rows"
  have eq: "?void = void_where (\<lambda>r. sb_step r \<in> {index s} \<and> live_at rows (sb_step r) r) rows"
    by (auto simp: void_where_def live_at_def)
  have void: "sb_state r = Voided" if rv: "r \<in> set ?void" "sb_step r = index s" for r
  proof -
    obtain q where q: "q \<in> set rows" "r = (if live_at rows (index s) q then q\<lparr>sb_state := Voided\<rparr> else q)"
      "sb_step r = sb_step q" using rv(1) by (rule in_void_where)
    have "sb_step q = index s" using q(3) rv(2) by simp
    then have "sb_state q \<noteq> Voided \<Longrightarrow> live_at rows (index s) q" using log_ok_live [OF ok q(1)] by (simp add: live_at_def)
    then show ?thesis using q(2) by (auto split: if_splits)
  qed
  have le: "sb_attempt r \<le> current_attempt rows (index s)" if "r \<in> set ?void" "sb_step r = index s" for r
    using current_attempt_ge [OF that(1)] that(2) by simp
  have "distinct (map row_key (fresh_drafts s rows))"
    using assms(2) by (auto simp: fresh_drafts_def distinct_map inj_on_def row_key_def)
  moreover have "set (map row_key (fresh_drafts s rows)) \<inter> set (map row_key ?void) = {}"
    using le by (fastforce simp: fresh_drafts_def row_key_def)
  ultimately show ?thesis
    by (intro log_ok_append [of _ _ "index s" "current_attempt rows (index s) + 1"])
      (use log_ok_void [OF ok, of "{index s}"] void le eq in \<open>force simp: fresh_drafts_def\<close>)+
qed

end
