(* ===== verification/Pickban_Series.thy ===== *)
theory Pickban_Series
  imports Pickban_Room
begin

text \<open>
  The rounds of a series: opening a room and growing it one map at a time, after
  \<open>tournament-service/src/services/encounter/pick_ban_session.py\<close>, with the configuration cascade of
  \<open>shared/domain/pick_ban_config.py\<close> and the seeding of \<open>veto_session.py\<close>. A value of type
  \<open>series\<close> is a session row: the room of the theory Pickban_Room and the snapshots taken when it
  opened. What is read besides it - the live seats, the confirmed results, the map room a hero room
  waits for - is the environment. The ruleset is stored parsed.
\<close>

section \<open>Configurations and their pools\<close>

datatype veto_mode = Pool_Mode | Slots_Mode

record config_slot =
  cs_position :: int
  cs_items :: "int list"
  cs_reserve :: "int option"

record pool_config =
  pc_stage :: "int option"
  pc_round :: "int option"
  pc_mode :: veto_mode
  pc_rotation :: first_ban_rotation
  pc_rules :: ruleset
  pc_items :: "(int \<times> int) list"
  pc_slots :: "config_slot list"

text \<open>Items carry \<open>(item_id, sort_order)\<close>.\<close>

definition has_pool :: "pool_config \<Rightarrow> bool" where
  "has_pool c = (if pc_mode c = Slots_Mode then pc_slots c \<noteq> [] else pc_items c \<noteq> [])"

definition config_rank :: "int option \<Rightarrow> int option \<Rightarrow> pool_config \<Rightarrow> nat option" where
  "config_rank stage rnd c =
    (if pc_round c \<noteq> None \<and> pc_round c = rnd \<and> pc_stage c = stage then Some 2
     else if pc_stage c = stage \<and> pc_round c = None then Some 1
     else if pc_stage c = None \<and> pc_round c = None then Some 0
     else None)"

text \<open>Sorting by the negated rank, then \<open>max\<close>: the first of the highest rank either way.\<close>

definition pick_config :: "pool_config list \<Rightarrow> int option \<Rightarrow> int option \<Rightarrow> pool_config option" where
  "pick_config candidates stage rnd =
    (let matched = List.map_filter (\<lambda>c. map_option (\<lambda>k. (k, c)) (config_rank stage rnd c)) candidates;
         ranked = sort_key (\<lambda>(k, c). - int k) matched
     in if matched = [] then None
        else case filter has_pool (map snd ranked) of
          c # _ \<Rightarrow> Some c
        | [] \<Rightarrow> Some (snd (hd ranked)))"

definition pool_items :: "pool_config list \<Rightarrow> int option \<Rightarrow> int option \<Rightarrow> int set option" where
  "pool_items configs stage rnd =
    (case pick_config configs stage rnd of
       None \<Rightarrow> None
     | Some c \<Rightarrow>
         if \<not> has_pool c then None
         else if pc_mode c = Slots_Mode
         then Some (set (concat (map cs_items (pc_slots c))) \<union> set (List.map_filter cs_reserve (pc_slots c)))
         else Some (fst ` set (pc_items c)))"

definition rounds_are_progressive :: "veto_mode \<Rightarrow> string \<Rightarrow> bool" where
  "rounds_are_progressive mode kind \<longleftrightarrow> mode = Slots_Mode \<or> kind = ''hero''"

record pool =
  po_mode :: veto_mode
  po_rotation :: first_ban_rotation
  po_progressive :: bool
  po_items :: "int list"
  po_slots :: "int list list"

text \<open>\<open>xs[:n]\<close> with the negative end of Python.\<close>

definition slice_to :: "int \<Rightarrow> 'a list \<Rightarrow> 'a list" where
  "slice_to n xs = (if 0 \<le> n then take (nat n) xs else take (nat (int (length xs) + n)) xs)"

definition series_slots :: "pool_config \<Rightarrow> int \<Rightarrow> config_slot list" where
  "series_slots c best_of = slice_to best_of (sort_key cs_position (pc_slots c))"

definition pool_snapshot :: "pool_config \<Rightarrow> string \<Rightarrow> int \<Rightarrow> pool" where
  "pool_snapshot c kind best_of = \<lparr>po_mode = pc_mode c, po_rotation = pc_rotation c,
     po_progressive = rounds_are_progressive (pc_mode c) kind,
     po_items = map fst (sort_key snd (pc_items c)), po_slots = map cs_items (series_slots c best_of)\<rparr>"

definition round_candidates :: "pool \<Rightarrow> int option \<Rightarrow> int list option" where
  "round_candidates p rnd =
    (if po_mode p = Slots_Mode then
       (let i = (case rnd of None \<Rightarrow> 1 | Some r \<Rightarrow> if r = 0 then 1 else r) - 1
        in if 0 \<le> i \<and> i < int (length (po_slots p)) then Some (po_slots p ! nat i) else None)
     else Some (po_items p))"

definition ROOM_SLOT_COUNT :: int where "ROOM_SLOT_COUNT = 2"

definition SLOT_CANDIDATE_FLOOR :: nat where "SLOT_CANDIDATE_FLOOR = 2"

section \<open>Opening gates\<close>

text \<open>The facts both readers of the gates look up.\<close>

record gate_facts =
  gf_slot_count :: int
  gf_best_of :: int
  gf_seats :: int
  gf_live :: bool
  gf_config :: "pool_config option"
  gf_all_ready :: bool
  gf_map_settled :: bool

datatype reason = Teams_Unknown | Bracket_Preview | Not_Configured | Slot_Count_Mismatch | Slot_Underfilled | Not_Ready | Waiting_Map

definition unavailable_reason_for :: "string \<Rightarrow> gate_facts \<Rightarrow> reason" where
  "unavailable_reason_for kind f =
    (let rest = (if \<not> gf_all_ready f then Not_Ready
         else if kind = ''hero'' \<and> \<not> gf_map_settled f then Waiting_Map else Not_Ready)
     in if gf_seats f \<noteq> gf_slot_count f then Teams_Unknown
        else if \<not> gf_live f then Bracket_Preview
        else case gf_config f of
          None \<Rightarrow> Not_Configured
        | Some c \<Rightarrow>
            if \<not> has_pool c then Not_Configured
            else if pc_mode c = Slots_Mode \<and> (pc_slots c = [] \<or> int (length (pc_slots c)) < gf_best_of f) then Slot_Count_Mismatch
            else if pc_mode c = Slots_Mode \<and>
              list_ex (\<lambda>s. length (cs_items s) < SLOT_CANDIDATE_FLOOR) (series_slots c (gf_best_of f)) then Slot_Underfilled
            else rest)"

record creation_plan =
  cp_config :: pool_config
  cp_pool :: pool
  cp_reserves :: "(int, int) dict option"

definition creation_plan_for :: "string \<Rightarrow> gate_facts \<Rightarrow> creation_plan option" where
  "creation_plan_for kind f =
    (if gf_slot_count f \<noteq> ROOM_SLOT_COUNT \<or> gf_seats f \<noteq> gf_slot_count f \<or> \<not> gf_live f then None
     else case gf_config f of
       None \<Rightarrow> None
     | Some c \<Rightarrow>
         if \<not> has_pool c then None
         else if pc_mode c = Slots_Mode \<and> (pc_slots c = [] \<or> int (length (pc_slots c)) < gf_best_of f) then None
         else if pc_mode c = Slots_Mode \<and>
           list_ex (\<lambda>s. length (cs_items s) < SLOT_CANDIDATE_FLOOR) (series_slots c (gf_best_of f)) then None
         else if \<not> gf_all_ready f then None
         else if kind = ''hero'' \<and> \<not> gf_map_settled f then None
         else Some \<lparr>cp_config = c, cp_pool = pool_snapshot c kind (gf_best_of f),
           cp_reserves = (if pc_mode c = Slots_Mode
             then Some (foldl (\<lambda>d s. case cs_reserve s of None \<Rightarrow> d | Some r \<Rightarrow> dict_set (cs_position s) r d) []
               (series_slots c (gf_best_of f)))
             else None)\<rparr>)"

section \<open>Seeding\<close>

datatype seed_source = Bracket_Slot | Standings_Place | Fallback_First_Slot

text \<open>The live seats as \<open>(participation, slot)\<close> in slot order; \<open>min\<close> of the ranked triples.\<close>

definition decide_seeds :: "(int \<times> int) list \<Rightarrow> (int, int) dict \<Rightarrow> seed_source \<Rightarrow> py_error + int \<times> seed_source" where
  "decide_seeds ordered seeds source =
    (let ranked = List.map_filter (\<lambda>(t, slot). map_option (\<lambda>seed. (seed, slot, t)) (map_of seeds t)) ordered
     in if length ranked = length ordered \<and> distinct (map fst ranked)
        then (if ranked = [] then Inl Value_Error else Inr (snd (snd (Min (set ranked))), source))
        else Inr (fst (ordered ! 0), Fallback_First_Slot))"

section \<open>The session row\<close>

record series =
  se_room :: room
  se_kind :: string
  se_pool :: pool
  se_rules :: ruleset
  se_opener :: "int option"
  se_awaiting :: bool
  se_chooser :: "int option"

text \<open>
  \<open>sv_results\<close> holds the confirmed positions with their winner (\<open>None\<close> on a draw); \<open>sv_map_room\<close> the
  MAP session's status and board; \<open>sv_groups\<close> the groups of some items.
\<close>

record series_env =
  sv_room :: room_env
  sv_best_of :: int
  sv_groups :: "int list \<Rightarrow> (int, string option) dict"
  sv_ended :: bool
  sv_games :: int
  sv_results :: "(int, int option) dict"
  sv_map_pool :: bool
  sv_map_room :: "(session_status \<times> entry list) option"

datatype series_error =
    Py py_error | Needs_Loser_Choice | Opener_Missing | Too_Few_Candidates | Too_Few_Items
  | No_Choice_Pending | Not_A_Participant | Room_Paused | Not_The_Loser | Dependent_Round_Started

definition py :: "py_error + 'a \<Rightarrow> series_error + 'a" where
  "py m = map_sum Py id m"

lemma py_simps [simp]: "py (Inl e) = Inl (Py e)" "py (Inr x) = Inr x"
  by (simp_all add: py_def)

lemma py_Inr: "py m = Inr x \<longleftrightarrow> m = Inr x"
  by (cases m) simp_all

definition opener_result :: "opener_error + int \<Rightarrow> series_error + int" where
  "opener_result m = map_sum (\<lambda>e. if e = Needs_Choice then Needs_Loser_Choice else Opener_Missing) id m"

lemma opener_result_simps [simp]:
  "opener_result (Inr x) = Inr x" "opener_result (Inl Needs_Choice) = Inl Needs_Loser_Choice" "opener_result (Inl Opener_Absent) = Inl Opener_Missing"
  by (simp_all add: opener_result_def)

definition fresh_entry :: "int \<Rightarrow> int option \<Rightarrow> int \<Rightarrow> entry" where
  "fresh_entry ord rnd item = \<lparr>en_item = item, en_round = rnd, en_order = ord, en_action_index = None, en_by_kind = None,
     en_by_team = None, en_for_member = None, en_protected_kind = None, en_protected_team = None, en_status = Available, en_carried = None\<rparr>"

definition candidate_entries :: "int \<Rightarrow> int option \<Rightarrow> int list \<Rightarrow> entry list" where
  "candidate_entries base rnd items = map (\<lambda>(k, i). fresh_entry (base + int k) rnd i) (enumerate 0 items)"

text \<open>The context \<open>pool_filter\<close> is asked in.\<close>

definition pool_ctx :: "series_env \<Rightarrow> string \<Rightarrow> int option \<Rightarrow> int list \<Rightarrow> history \<Rightarrow> runtime_ctx" where
  "pool_ctx env kind rnd items hist = \<lparr>cx_kind = kind, cx_round = rnd, cx_available = [], cx_groups = sv_groups env items,
     cx_history = hist, cx_targets = [], cx_members = [], cx_exclusions = []\<rparr>"

definition filtered_pool :: "series_env \<Rightarrow> ruleset \<Rightarrow> string \<Rightarrow> int option \<Rightarrow> int list \<Rightarrow> history \<Rightarrow> py_error + int list" where
  "filtered_pool env r kind rnd items hist =
    sum_bind (select_phase r \<lparr>rc_round = (case rnd of None \<Rightarrow> 1 | Some n \<Rightarrow> if n = 0 then 1 else n),
        rc_best_of = max (sv_best_of env) 1, rc_kind = kind\<rparr>) (\<lambda>phase.
      case phase of None \<Rightarrow> Inr items | Some p \<Rightarrow> filter_pool (ph_pool_filter p) items (pool_ctx env kind rnd items hist))"

text \<open>\<open>_ensure_pick_ban_session\<close> once its gates are open; \<open>sides\<close> are those the games already have.\<close>

definition open_session ::
  "series_env \<Rightarrow> string \<Rightarrow> pool_config \<Rightarrow> pool \<Rightarrow> int \<Rightarrow> (int, (int, string option) dict) dict \<Rightarrow> py_error + series" where
  "open_session env kind c p opener sides =
    (let rnd = (if po_progressive p then Some 1 else None);
         items = (case round_candidates p rnd of None \<Rightarrow> [] | Some xs \<Rightarrow> xs);
         pool_size = (if po_slots p \<noteq> [] then sum_list (map (int \<circ> length) (po_slots p)) else int (length (po_items p)))
     in sum_bind (filtered_pool env (pc_rules c) kind rnd items \<lparr>hist_items = [], current_step_index = None\<rparr>) (\<lambda>candidates.
        map_sum id (\<lambda>steps.
          \<lparr>se_room = \<lparr>rm_status = (if steps = [] then Completed else Active), rm_steps = steps, rm_rows = [],
             rm_board = candidate_entries 0 rnd candidates, rm_started = Some (re_now (sv_room env)), rm_paused = None,
             rm_undo_by = None, rm_undo_index = None, rm_sides = sides\<rparr>,
           se_kind = kind, se_pool = p, se_rules = pc_rules c, se_opener = Some opener, se_awaiting = False, se_chooser = None\<rparr>)
        (resolve_round (pc_rules c) \<lparr>ra_kind = kind, ra_round = rnd, ra_start_index = 0,
          ra_participants = re_participants (sv_room env), ra_opener = opener, ra_prev_winner = None, ra_sides = [],
          ra_best_of = sv_best_of env, ra_pool_size = pool_size, ra_candidate_count = int (length candidates),
          ra_members = members_by_team (re_seats (sv_room env))\<rparr>)))"

section \<open>Appending a round\<close>

definition result_rotation :: "first_ban_rotation \<Rightarrow> bool" where
  "result_rotation r \<longleftrightarrow> r \<in> {Rot_Winner_First, Rot_Loser_First, Rot_Loser_Choice}"

text \<open>\<open>_assert_round_playable\<close>.\<close>

definition items_needed :: "resolved_step list \<Rightarrow> int" where
  "items_needed steps = sum_list (map (\<lambda>s. cnt s * max (int (length (actors s))) 1) (filter (\<lambda>s. action s \<noteq> Side_Pick) steps))"

definition assert_round_playable :: "pool \<Rightarrow> int list \<Rightarrow> resolved_step list \<Rightarrow> series_error + unit" where
  "assert_round_playable p candidates steps =
    (if po_mode p = Slots_Mode \<and> length candidates < SLOT_CANDIDATE_FLOOR then Inl Too_Few_Candidates
     else if int (length candidates) < items_needed steps then Inl Too_Few_Items
     else Inr ())"

definition carried_entry :: "int \<Rightarrow> int \<Rightarrow> carried_ban \<Rightarrow> entry" where
  "carried_entry ord rnd b = (case actor_columns (cb_actor b) of (kind, team) \<Rightarrow>
     (fresh_entry ord (Some rnd) (cb_item b))\<lparr>en_status := Banned, en_by_kind := Some kind, en_by_team := team,
       en_carried := Some (cb_from_round b)\<rparr>)"

definition carried_entries :: "int \<Rightarrow> int \<Rightarrow> carried_ban list \<Rightarrow> entry list" where
  "carried_entries base rnd bans = map (\<lambda>(k, b). carried_entry (base + int k) rnd b) (enumerate 0 bans)"

text \<open>The declines of \<open>advance_to_next_round\<close>: the round it would open, with its candidates, or none.\<close>

definition next_round_open :: "series_env \<Rightarrow> series \<Rightarrow> int \<Rightarrow> bool \<Rightarrow> (int \<times> int list) option" where
  "next_round_open env S completed decided =
    (let room = se_room S; n = completed + 1
     in if \<not> po_progressive (se_pool S) then None
        else if current_step (rm_steps room) (rm_rows room) \<noteq> None then None
        else if list_ex (\<lambda>e. en_round e = Some n) (rm_board room) then None
        else if sv_best_of env < n then None
        else case round_candidates (se_pool S) (Some n) of
          None \<Rightarrow> None
        | Some items \<Rightarrow> if \<not> decided \<and> n > 1 \<and> result_rotation (po_rotation (se_pool S)) then None else Some (n, items))"

definition round_opener :: "series_env \<Rightarrow> int \<Rightarrow> int option \<Rightarrow> int option \<Rightarrow> series \<Rightarrow> series_error + int" where
  "round_opener env n winner elected S =
    sum_bind (py (session_opener ((sv_room env)\<lparr>re_opener := se_opener S\<rparr>))) (\<lambda>opener.
      opener_result (resolve_round_opener (po_rotation (se_pool S)) n (re_participants (sv_room env)) opener winner elected))"

definition active_bans :: "int \<Rightarrow> series \<Rightarrow> carried_ban list" where
  "active_bans n S = carried_bans (rm_steps (se_room S)) (rm_rows (se_room S)) n"

definition round_pool :: "series_env \<Rightarrow> int \<Rightarrow> int list \<Rightarrow> series \<Rightarrow> py_error + int list" where
  "round_pool env n items S =
    map_sum id (filter (\<lambda>i. i \<notin> cb_item ` set (active_bans n S)))
      (filtered_pool env (se_rules S) (se_kind S) (Some n) items (history_of (rm_steps (se_room S)) (rm_rows (se_room S))))"

text \<open>The call leaves \<open>members\<close> out, so a later round of a mix would bind nobody; a mix plays one map.\<close>

definition round_steps :: "series_env \<Rightarrow> int \<Rightarrow> int list \<Rightarrow> int list \<Rightarrow> int \<Rightarrow> int option \<Rightarrow> series \<Rightarrow> py_error + resolved_step list" where
  "round_steps env n items candidates opener winner S =
    resolve_round (se_rules S) \<lparr>ra_kind = se_kind S, ra_round = Some n, ra_start_index = int (length (rm_steps (se_room S))),
      ra_participants = re_participants (sv_room env), ra_opener = opener, ra_prev_winner = winner, ra_sides = [], ra_best_of = sv_best_of env,
      ra_pool_size = int (length items), ra_candidate_count = int (length candidates), ra_members = []\<rparr>"

definition append_round :: "series_env \<Rightarrow> int \<Rightarrow> resolved_step list \<Rightarrow> int list \<Rightarrow> series \<Rightarrow> series" where
  "append_round env completed new candidates S =
    (let room = se_room S; n = completed + 1; base = n * 1000
     in S\<lparr>se_room := room\<lparr>
          rm_board := filter (\<lambda>e. \<not> (en_round e = Some completed \<and> en_status e = Available)) (rm_board room)
            @ candidate_entries base (Some n) candidates @ carried_entries (base + int (length candidates)) n (active_bans n S),
          rm_steps := rm_steps room @ new,
          rm_started := Some (step_clock (sv_room env) room),
          rm_status := (if rm_status room = Completed \<and> new \<noteq> [] then Active else rm_status room)\<rparr>,
        se_awaiting := False, se_chooser := None\<rparr>)"

definition advance_round :: "series_env \<Rightarrow> int \<Rightarrow> int option \<Rightarrow> bool \<Rightarrow> int option \<Rightarrow> series \<Rightarrow> series_error + series" where
  "advance_round env completed winner decided elected S =
    (case next_round_open env S completed decided of
       None \<Rightarrow> Inr S
     | Some (n, items) \<Rightarrow>
         sum_bind (round_opener env n winner elected S) (\<lambda>opener.
         sum_bind (py (round_pool env n items S)) (\<lambda>candidates.
         sum_bind (py (round_steps env n items candidates opener winner S)) (\<lambda>new.
         sum_bind (if se_kind S = ''map'' then assert_round_playable (se_pool S) candidates new else Inr ()) (\<lambda>_.
           Inr (append_round env completed new candidates S))))))"

section \<open>Rounds in lockstep with the series\<close>

definition highest_round :: "series \<Rightarrow> int option" where
  "highest_round S =
    (let rounds = List.map_filter en_round (rm_board (se_room S)) @ List.map_filter rs_round (rm_steps (se_room S))
     in if rounds = [] then None else Some (Max (set rounds)))"

definition highest_or_0 :: "series \<Rightarrow> int" where
  "highest_or_0 S = (case highest_round S of None \<Rightarrow> 0 | Some n \<Rightarrow> n)"

definition round_result :: "series_env \<Rightarrow> int \<Rightarrow> bool \<times> int option" where
  "round_result env n = (if n < 1 then (False, None) else case map_of (sv_results env) n of None \<Rightarrow> (False, None) | Some w \<Rightarrow> (True, w))"

definition settled_map_rounds :: "(session_status \<times> entry list) option \<Rightarrow> int" where
  "settled_map_rounds m = (case m of None \<Rightarrow> 0 | Some (_, board) \<Rightarrow> int (length (filter (\<lambda>e. en_status e = Picked) board)))"

definition map_round_settled :: "series_env \<Rightarrow> int \<Rightarrow> bool" where
  "map_round_settled env n \<longleftrightarrow> \<not> sv_map_pool env \<or> n \<le> settled_map_rounds (sv_map_room env)"

definition round_target :: "series_env \<Rightarrow> string \<Rightarrow> int" where
  "round_target env kind =
    (if sv_ended env then 0
     else let allowed = min (sv_games env + 1) (sv_best_of env)
       in if kind \<noteq> ''hero'' then allowed
          else if sv_map_pool env \<and> (case sv_map_room env of None \<Rightarrow> True | Some (st, _) \<Rightarrow> st \<noteq> Cancelled)
          then min (settled_map_rounds (sv_map_room env)) allowed
          else allowed)"

definition round_owed :: "series_env \<Rightarrow> series \<Rightarrow> bool" where
  "round_owed env S \<longleftrightarrow>
    (let room = se_room S; highest = highest_or_0 S; n = highest + 1
     in \<not> (rm_status room = Cancelled \<or> se_awaiting S) \<and> po_progressive (se_pool S) \<and>
        current_step (rm_steps room) (rm_rows room) = None \<and> highest < round_target env (se_kind S) \<and>
        n \<le> sv_best_of env \<and> round_candidates (se_pool S) (Some n) \<noteq> None \<and>
        \<not> (n > 1 \<and> result_rotation (po_rotation (se_pool S)) \<and> \<not> fst (round_result env highest)))"

text \<open>The loop of \<open>_sync_rounds\<close>. \<open>highest\<close> only grows, so the distance to the target falls.\<close>

function sync_loop :: "series_env \<Rightarrow> int \<Rightarrow> int \<Rightarrow> series \<Rightarrow> bool \<Rightarrow> series_error + bool \<times> series" where
  "sync_loop env tgt highest S changed =
    (if tgt \<le> highest then Inr (changed, S)
     else let (decided, winner) = round_result env highest
       in case advance_round env highest winner decided None S of
         Inl e \<Rightarrow>
           if e = Needs_Loser_Choice
           then Inr (True, S\<lparr>se_awaiting := True, se_chooser := find (\<lambda>t. Some t \<noteq> winner) (re_participants (sv_room env))\<rparr>)
           else Inl e
       | Inr S' \<Rightarrow>
           if highest_or_0 S' \<le> highest then Inr (changed, S')
           else sync_loop env tgt (highest_or_0 S') S' True)"
  by pat_completeness auto

termination
  by (relation "measure (\<lambda>(env, tgt, highest, S, changed). nat (tgt - highest))") auto

declare sync_loop.simps [simp del]

definition sync_rounds :: "series_env \<Rightarrow> series \<Rightarrow> series_error + bool \<times> series" where
  "sync_rounds env S =
    (if rm_status (se_room S) = Cancelled \<or> \<not> po_progressive (se_pool S) \<or> round_target env (se_kind S) \<le> highest_or_0 S
     then Inr (False, S)
     else sync_loop env (round_target env (se_kind S)) (highest_or_0 S) S False)"

section \<open>Electing an opener\<close>

definition elect_round_opener :: "series_env \<Rightarrow> int \<Rightarrow> int option \<Rightarrow> series \<Rightarrow> series_error + series" where
  "elect_round_opener env first acting S =
    (let participants = re_participants (sv_room env)
     in if \<not> se_awaiting S then Inl No_Choice_Pending
        else if first \<notin> set participants then Inl Not_A_Participant
        else if acting \<noteq> None \<and> rm_paused (se_room S) \<noteq> None then Inl Room_Paused
        else if acting \<noteq> None \<and> acting \<noteq> se_chooser S then Inl Not_The_Loser
        else advance_round env (highest_or_0 S) (find (\<lambda>t. Some t \<noteq> se_chooser S) participants) True (Some first) S)"

section \<open>A corrected result\<close>

text \<open>Whether the correction from one winner to another changes who opens the next round.\<close>

definition opener_changes :: "series_env \<Rightarrow> series \<Rightarrow> int \<Rightarrow> int option \<Rightarrow> int option \<Rightarrow> series_error + bool" where
  "opener_changes env S position old new =
    (let rotation = po_rotation (se_pool S); participants = re_participants (sv_room env)
     in if rotation = Rot_Loser_Choice then Inr (old \<noteq> new)
        else sum_bind (py (session_opener ((sv_room env)\<lparr>re_opener := se_opener S\<rparr>))) (\<lambda>o'.
          sum_bind (opener_result (resolve_round_opener rotation (position + 1) participants o' old None)) (\<lambda>a.
          sum_bind (opener_result (resolve_round_opener rotation (position + 1) participants o' new None)) (\<lambda>b. Inr (a \<noteq> b)))))"

definition round_touched :: "series_env \<Rightarrow> series \<Rightarrow> int \<Rightarrow> bool" where
  "round_touched env S n \<longleftrightarrow>
    (let room = se_room S; indices = map index (filter (\<lambda>s. rs_round s = Some n) (rm_steps room))
     in list_ex (\<lambda>r. sb_step r \<in> set indices \<and> sb_state r \<noteq> Voided) (rm_rows room) \<or> n \<in> re_played (sv_room env) \<or>
        list_ex (\<lambda>(_, side). side \<noteq> None) (dict_get (rm_sides room) n []))"

datatype correction = Keep | Drop_Round | Choose_Again

text \<open>What \<open>plan_dependent_rounds\<close> owes one room for the result of \<open>position\<close>.\<close>

definition plan_correction :: "series_env \<Rightarrow> series \<Rightarrow> int \<Rightarrow> int option \<Rightarrow> int option \<Rightarrow> series_error + correction" where
  "plan_correction env S position old new =
    (if rm_status (se_room S) = Cancelled \<or> \<not> po_progressive (se_pool S) \<or> \<not> result_rotation (po_rotation (se_pool S))
     then Inr Keep
     else sum_bind (opener_changes env S position old new) (\<lambda>changed.
       if \<not> changed then Inr Keep
       else if highest_or_0 S < position + 1 then
         Inr (if se_awaiting S \<and> highest_or_0 S = position then Choose_Again else Keep)
       else if round_touched env S (position + 1) then Inl Dependent_Round_Started
       else Inr Drop_Round))"

text \<open>\<open>step.get("round") or 0\<close>.\<close>

definition round_or_0 :: "resolved_step \<Rightarrow> int" where
  "round_or_0 s = (case rs_round s of None \<Rightarrow> 0 | Some r \<Rightarrow> r)"

definition drop_round :: "int \<Rightarrow> series \<Rightarrow> series" where
  "drop_round n S =
    (let room = se_room S; scrapped = map index (filter (\<lambda>s. n \<le> round_or_0 s) (rm_steps room))
     in S\<lparr>se_room := room\<lparr>
          rm_rows := (if scrapped = [] then rm_rows room else filter (\<lambda>r. sb_step r < Min (set scrapped)) (rm_rows room)),
          rm_board := filter (\<lambda>e. en_round e \<noteq> Some n) (rm_board room),
          rm_steps := filter (\<lambda>s. round_or_0 s < n) (rm_steps room),
          rm_status := Completed, rm_undo_by := None, rm_undo_index := None\<rparr>\<rparr>)"

definition apply_correction :: "int \<Rightarrow> correction \<Rightarrow> series \<Rightarrow> series" where
  "apply_correction position c S =
    (case c of Keep \<Rightarrow> S
     | Choose_Again \<Rightarrow> S\<lparr>se_awaiting := False, se_chooser := None\<rparr>
     | Drop_Round \<Rightarrow> drop_round (position + 1) S)"

section \<open>What a resolved round looks like\<close>

lemma resolve_steps_all:
  assumes "resolve_steps ra (resolve_step r p rnd) kind i ss = Inr rs"
  shows "map index rs = map (\<lambda>k. i + int k) [0..<length rs] \<and>
    (\<forall>s \<in> set rs. rs_round s = rnd \<and> member_seats s = [] \<and> (\<exists>st \<in> set ss. \<exists>at. ra st = Inr at \<and> actors s = fst at \<and> actors_token s = snd at))"
  using assms
proof (induction ss arbitrary: i rs)
  case (Cons st ss)
  show ?case
  proof (cases "st_action st = Decider \<and> kind \<noteq> ''map''")
    case True
    then show ?thesis using Cons.IH [of i rs] Cons.prems by auto
  next
    case False
    then obtain at rs' where at: "ra st = Inr at" "resolve_steps ra (resolve_step r p rnd) kind (i + 1) ss = Inr rs'"
      "rs = resolve_step r p rnd i st at # rs'" using Cons.prems by (auto split: sum.splits)
    note IH = Cons.IH [OF at(2)]
    have "map index rs = map (\<lambda>k. i + int k) [0..<length rs]"
      using IH unfolding at(3) length_Cons upt_conv_Cons [OF zero_less_Suc] map_Suc_upt [symmetric] by (simp add: ac_simps)
    then show ?thesis using IH at(1) at(3) by auto
  qed
qed simp

lemma resolve_round_frame:
  assumes "resolve_round r a = Inr rs"
  shows "map index rs = map (\<lambda>k. ra_start_index a + int k) [0..<length rs]" and "s \<in> set rs \<Longrightarrow> rs_round s = ra_round a"
proof -
  have "rs = [] \<or> (\<exists>p ss x. resolve_steps (\<lambda>s. resolved_actors s (ra_participants a) (ra_opener a) (ra_prev_winner a) (ra_sides a))
      (resolve_step r p (ra_round a)) (ra_kind a) (ra_start_index a) ss = Inr x \<and> rs = bind_members x (ra_members a))"
    using assms by (auto simp: resolve_round_def split: sum.splits option.splits)
  then obtain x :: "resolved_step list" where x: "map index rs = map index x" "map rs_round rs = map rs_round x" "length rs = length x"
    "map index x = map (\<lambda>k. ra_start_index a + int k) [0..<length x] \<and> (\<forall>s \<in> set x. rs_round s = ra_round a)"
  proof (elim disjE exE conjE)
    fix p ss and x :: "resolved_step list" assume thesis: "\<And>x :: resolved_step list. map index rs = map index x \<Longrightarrow> map rs_round rs = map rs_round x \<Longrightarrow> length rs = length x \<Longrightarrow>
        map index x = map (\<lambda>k. ra_start_index a + int k) [0..<length x] \<and> (\<forall>s \<in> set x. rs_round s = ra_round a) \<Longrightarrow> thesis"
      and x: "resolve_steps (\<lambda>s. resolved_actors s (ra_participants a) (ra_opener a) (ra_prev_winner a) (ra_sides a))
      (resolve_step r p (ra_round a)) (ra_kind a) (ra_start_index a) ss = Inr x" "rs = bind_members x (ra_members a)"
    show thesis by (rule thesis [of x]) (use resolve_steps_all [OF x(1)] x(2) in \<open>auto simp: bind_members_frame\<close>)
  qed auto
  show "map index rs = map (\<lambda>k. ra_start_index a + int k) [0..<length rs]" using x by simp
  show "s \<in> set rs \<Longrightarrow> rs_round s = ra_round a"
  proof -
    assume "s \<in> set rs"
    then have "rs_round s \<in> set (map rs_round x)" unfolding x(2) [symmetric] by simp
    then show ?thesis using x(4) by auto
  qed
qed

section \<open>What an append does\<close>

lemma sum_bind_InrE:
  assumes "sum_bind m f = Inr y"
  obtains x where "m = Inr x" "f x = Inr y"
  using assms sum_bind_Inr by metis

lemma carried_bans_once: "distinct (map cb_item (carried_bans steps rows n))"
proof -
  have "distinct (map fst (foldl (\<lambda>d b. set_default d (cb_item b, b)) d bs)) \<and>
      (\<forall>(k, b) \<in> set (foldl (\<lambda>d b. set_default d (cb_item b, b)) d bs). k = cb_item b)"
    if "distinct (map fst d)" "\<forall>(k, b) \<in> set d. k = cb_item b" for d bs
    using that
  proof (induction bs arbitrary: d)
    case (Cons b bs)
    show ?case unfolding foldl.simps
      by (rule Cons.IH) (use Cons.prems in \<open>auto simp: set_default_def dict_has_iff\<close>)
  qed simp
  from this [of "[]" "concat (map (step_bans rows n) steps)"]
  have "map cb_item (carried_bans steps rows n) = map fst (foldl (\<lambda>d b. set_default d (cb_item b, b)) [] (concat (map (step_bans rows n) steps)))"
    and "distinct (map fst (foldl (\<lambda>d b. set_default d (cb_item b, b)) [] (concat (map (step_bans rows n) steps))))"
    unfolding carried_bans_def by auto
  then show ?thesis by simp
qed

lemma fresh_entry_reads [simp]:
  "en_item (fresh_entry k rnd i) = i" "en_round (fresh_entry k rnd i) = rnd" "en_status (fresh_entry k rnd i) = Available"
  "en_carried (fresh_entry k rnd i) = None"
  by (simp_all add: fresh_entry_def)

lemma candidate_entries_reads:
  "map en_item (candidate_entries base rnd items) = items"
  "e \<in> set (candidate_entries base rnd items) \<Longrightarrow> en_round e = rnd \<and> en_status e = Available \<and> en_carried e = None"
  by (auto simp: candidate_entries_def case_prod_beta o_def)

lemma carried_entries_reads:
  "map en_item (carried_entries base n bans) = map cb_item bans"
  "e \<in> set (carried_entries base n bans) \<Longrightarrow> en_round e = Some n \<and> en_status e = Banned \<and> en_carried e \<noteq> None"
proof -
  have "map en_item (carried_entries base n bans) = map cb_item (map snd (enumerate 0 bans))"
    by (simp add: carried_entries_def carried_entry_def o_def case_prod_beta del: map_snd_enumerate)
  then show "map en_item (carried_entries base n bans) = map cb_item bans" by (simp only: map_snd_enumerate)
  show "e \<in> set (carried_entries base n bans) \<Longrightarrow> en_round e = Some n \<and> en_status e = Banned \<and> en_carried e \<noteq> None"
    by (auto simp: carried_entries_def carried_entry_def split: prod.split)
qed

lemma new_entry_items:
  "en_item ` set (candidate_entries base rnd items) = set items"
  "en_item ` set (carried_entries base n bans) = cb_item ` set bans"
  using arg_cong [OF candidate_entries_reads(1), of set] arg_cong [OF carried_entries_reads(1), of set] by simp_all

text \<open>Every append goes through \<open>append_round\<close>.\<close>

lemma next_round_open_number: "next_round_open env S completed decided = Some (n, items) \<Longrightarrow> n = completed + 1"
  by (auto simp: next_round_open_def Let_def split: if_splits option.splits)

lemma advance_round_cases:
  assumes "advance_round env completed winner decided elected S = Inr S'"
  obtains (declined) "next_round_open env S completed decided = None" "S' = S"
  | (appended) items opener candidates new where "next_round_open env S completed decided = Some (completed + 1, items)"
    "round_pool env (completed + 1) items S = Inr candidates"
    "round_steps env (completed + 1) items candidates opener winner S = Inr new"
    "S' = append_round env completed new candidates S"
proof (cases "next_round_open env S completed decided")
  case None
  then have "S' = S" using assms by (simp add: advance_round_def)
  with None show ?thesis by (rule declined)
next
  case (Some ni)
  obtain n items where ni: "ni = (n, items)" by fastforce
  have n: "n = completed + 1" using next_round_open_number Some ni by blast
  from assms [unfolded advance_round_def Some ni option.case prod.case] obtain opener where
    1: "sum_bind (py (round_pool env n items S)) (\<lambda>candidates.
         sum_bind (py (round_steps env n items candidates opener winner S)) (\<lambda>new.
         sum_bind (if se_kind S = ''map'' then assert_round_playable (se_pool S) candidates new else Inr ()) (\<lambda>_.
           Inr (append_round env completed new candidates S)))) = Inr S'" by (rule sum_bind_InrE)
  then obtain candidates where pool: "py (round_pool env n items S) = Inr candidates"
    and 2: "sum_bind (py (round_steps env n items candidates opener winner S)) (\<lambda>new.
         sum_bind (if se_kind S = ''map'' then assert_round_playable (se_pool S) candidates new else Inr ()) (\<lambda>_.
           Inr (append_round env completed new candidates S))) = Inr S'" by (rule sum_bind_InrE)
  from 2 obtain new where new: "py (round_steps env n items candidates opener winner S) = Inr new"
    and 3: "sum_bind (if se_kind S = ''map'' then assert_round_playable (se_pool S) candidates new else Inr ()) (\<lambda>_.
           Inr (append_round env completed new candidates S)) = Inr S'" by (rule sum_bind_InrE)
  from 3 have last: "S' = append_round env completed new candidates S" by (rule sum_bind_InrE) simp
  show ?thesis by (rule appended [of items candidates opener new]) (use Some ni n pool new in \<open>simp_all add: py_Inr last\<close>)
qed

section \<open>The gates\<close>

text \<open>The two readers of the opening gates agree: on an encounter of two seats a room may be
  created exactly when every captain is ready and the ranked reason names no other blocker, and
  the plan then snapshots the slots of this series only.\<close>

theorem opening_gates_agree:
  assumes "gf_slot_count f = ROOM_SLOT_COUNT"
  shows "(creation_plan_for kind f \<noteq> None \<longleftrightarrow> gf_all_ready f \<and> unavailable_reason_for kind f = Not_Ready) \<and>
    (\<forall>p. creation_plan_for kind f = Some p \<longrightarrow> gf_config f = Some (cp_config p) \<and>
      cp_pool p = pool_snapshot (cp_config p) kind (gf_best_of f) \<and>
      (po_mode (cp_pool p) = Slots_Mode \<longrightarrow> (\<forall>slot \<in> set (po_slots (cp_pool p)). SLOT_CANDIDATE_FLOOR \<le> length slot)))"
proof (rule conjI)
  show "creation_plan_for kind f \<noteq> None \<longleftrightarrow> gf_all_ready f \<and> unavailable_reason_for kind f = Not_Ready"
    using assms by (auto simp: creation_plan_for_def unavailable_reason_for_def Let_def split: option.splits)
  show "\<forall>p. creation_plan_for kind f = Some p \<longrightarrow> gf_config f = Some (cp_config p) \<and>
      cp_pool p = pool_snapshot (cp_config p) kind (gf_best_of f) \<and>
      (po_mode (cp_pool p) = Slots_Mode \<longrightarrow> (\<forall>slot \<in> set (po_slots (cp_pool p)). SLOT_CANDIDATE_FLOOR \<le> length slot))"
    by (auto simp: creation_plan_for_def pool_snapshot_def list_ex_iff not_less split: option.splits if_splits)
qed

section \<open>The next round\<close>

text \<open>What the entries of an appended round are.\<close>

definition round_entries :: "int \<Rightarrow> entry list \<Rightarrow> entry list" where
  "round_entries n board = filter (\<lambda>e. en_round e = Some n) board"

lemma round_pool_subset:
  assumes "round_pool env n items S = Inr candidates"
  shows "\<exists>P. candidates = filter P items" and "set candidates \<inter> cb_item ` set (active_bans n S) = {}"
proof -
  obtain kept where kept: "filtered_pool env (se_rules S) (se_kind S) (Some n) items (history_of (rm_steps (se_room S)) (rm_rows (se_room S))) = Inr kept"
    "candidates = filter (\<lambda>i. i \<notin> cb_item ` set (active_bans n S)) kept"
    using assms by (cases "filtered_pool env (se_rules S) (se_kind S) (Some n) items (history_of (rm_steps (se_room S)) (rm_rows (se_room S)))")
      (auto simp: round_pool_def)
  have "\<exists>P. kept = filter P items"
    using kept(1)
    by (auto simp: filtered_pool_def sum_bind_Inr filter_pool_def dest!: filter_sum_Inr split: option.splits
      intro: exI [of _ "\<lambda>_. True"])
  then show "\<exists>P. candidates = filter P items" using kept(2) by auto
  show "set candidates \<inter> cb_item ` set (active_bans n S) = {}" using kept(2) by auto
qed

text \<open>Whether the phase that applies to a round lets a configured item into its pool.\<close>

definition let_in :: "series_env \<Rightarrow> series \<Rightarrow> int \<Rightarrow> int list \<Rightarrow> int \<Rightarrow> bool" where
  "let_in env S n items i \<longleftrightarrow>
    (case select_phase (se_rules S) \<lparr>rc_round = (if n = 0 then 1 else n), rc_best_of = max (sv_best_of env) 1, rc_kind = se_kind S\<rparr> of
       Inl _ \<Rightarrow> False
     | Inr None \<Rightarrow> True
     | Inr (Some p) \<Rightarrow> evaluate (JObj (ph_pool_filter p)) (Item_Ctx
         \<lparr>ic_item_id = i, ic_group = group_of (pool_ctx env (se_kind S) (Some n) items (history_of (rm_steps (se_room S)) (rm_rows (se_room S)))) i,
          ic_kind = se_kind S, ic_actor = None, ic_target_role = None, ic_round = Some n,
          ic_history = history_of (rm_steps (se_room S)) (rm_rows (se_room S))\<rparr>) = Inr True)"

lemma round_pool_exact:
  assumes "round_pool env n items S = Inr candidates"
  shows "candidates = filter (\<lambda>i. let_in env S n items i \<and> i \<notin> cb_item ` set (active_bans n S)) items"
proof -
  obtain kept where kept: "filtered_pool env (se_rules S) (se_kind S) (Some n) items (history_of (rm_steps (se_room S)) (rm_rows (se_room S))) = Inr kept"
    "candidates = filter (\<lambda>i. i \<notin> cb_item ` set (active_bans n S)) kept"
    using assms by (cases "filtered_pool env (se_rules S) (se_kind S) (Some n) items (history_of (rm_steps (se_room S)) (rm_rows (se_room S)))")
      (auto simp: round_pool_def)
  have "kept = filter (let_in env S n items) items"
  proof -
    obtain phase where phase: "select_phase (se_rules S) \<lparr>rc_round = (if n = 0 then 1 else n), rc_best_of = max (sv_best_of env) 1, rc_kind = se_kind S\<rparr> = Inr phase"
      using kept(1) by (auto simp: filtered_pool_def sum_bind_Inr)
    show ?thesis
    proof (cases phase)
      case None
      then show ?thesis using kept(1) phase by (simp add: filtered_pool_def let_in_def)
    next
      case (Some p)
      then have "filter_pool (ph_pool_filter p) items (pool_ctx env (se_kind S) (Some n) items (history_of (rm_steps (se_room S)) (rm_rows (se_room S)))) = Inr kept"
        using kept(1) phase by (simp add: filtered_pool_def)
      from filter_sum_Inr [OF this [unfolded filter_pool_def]] show ?thesis
        unfolding let_in_def [abs_def] phase Some sum.case option.case by (simp only: pool_ctx_def runtime_ctx.select_convs)
    qed
  qed
  then show ?thesis using kept(2) by (simp add: conj_commute)
qed

lemma append_round_reads [simp]:
  "rm_rows (se_room (append_round env completed new candidates S)) = rm_rows (se_room S)"
  "rm_steps (se_room (append_round env completed new candidates S)) = rm_steps (se_room S) @ new"
  "rm_board (se_room (append_round env completed new candidates S)) =
     filter (\<lambda>e. \<not> (en_round e = Some completed \<and> en_status e = Available)) (rm_board (se_room S))
       @ candidate_entries ((completed + 1) * 1000) (Some (completed + 1)) candidates
       @ carried_entries ((completed + 1) * 1000 + int (length candidates)) (completed + 1) (active_bans (completed + 1) S)"
  "se_pool (append_round env completed new candidates S) = se_pool S"
  "se_rules (append_round env completed new candidates S) = se_rules S"
  "se_kind (append_round env completed new candidates S) = se_kind S"
  "se_opener (append_round env completed new candidates S) = se_opener S"
  by (simp_all add: append_round_def Let_def)

lemma next_round_unused:
  "next_round_open env S completed decided = Some (n, items) \<Longrightarrow> e \<in> set (rm_board (se_room S)) \<Longrightarrow> en_round e \<noteq> Some (completed + 1)"
  by (auto simp: next_round_open_def Let_def list_ex_iff split: if_splits)

lemma appended_board:
  assumes "next_round_open env S completed decided = Some (n, items)"
  shows "round_entries (completed + 1) (rm_board (se_room (append_round env completed new candidates S))) =
      candidate_entries ((completed + 1) * 1000) (Some (completed + 1)) candidates
       @ carried_entries ((completed + 1) * 1000 + int (length candidates)) (completed + 1) (active_bans (completed + 1) S)"
    and "filter (\<lambda>e. en_round e \<noteq> Some (completed + 1)) (rm_board (se_room (append_round env completed new candidates S))) =
      filter (\<lambda>e. \<not> (en_round e = Some completed \<and> en_status e = Available)) (rm_board (se_room S))"
proof -
  let ?new = "candidate_entries ((completed + 1) * 1000) (Some (completed + 1)) candidates
       @ carried_entries ((completed + 1) * 1000 + int (length candidates)) (completed + 1) (active_bans (completed + 1) S)"
  have new: "en_round e = Some (completed + 1)" if "e \<in> set ?new" for e
    using that candidate_entries_reads(2) carried_entries_reads(2) by fastforce
  note old = next_round_unused [OF assms]
  show "round_entries (completed + 1) (rm_board (se_room (append_round env completed new candidates S))) = ?new"
    using new old by (auto simp: round_entries_def filter_empty_conv intro!: filter_True)
  have "filter (\<lambda>e. en_round e \<noteq> Some (completed + 1)) ?new = []" using new by (auto simp: filter_empty_conv)
  moreover have "filter (\<lambda>e. en_round e \<noteq> Some (completed + 1)) (filter P (rm_board (se_room S))) = filter P (rm_board (se_room S))" for P
    using old by (auto intro!: filter_cong)
  ultimately show "filter (\<lambda>e. en_round e \<noteq> Some (completed + 1)) (rm_board (se_room (append_round env completed new candidates S))) =
      filter (\<lambda>e. \<not> (en_round e = Some completed \<and> en_status e = Available)) (rm_board (se_room S))"
    by simp
qed

text \<open>C28: an append leaves the log and the earlier steps alone, drops only the finished round's untouched
  candidates, numbers the new steps on without a gap, offers exactly those configured items of the round,
  in their order, that the pool filter of its phase lets in and no carried ban covers, shows every carried
  ban and nothing else as a fixed banned entry, and is not repeated.\<close>

theorem appended_round_exact:
  assumes run: "advance_round env completed winner decided elected S = Inr S'"
    and opens: "next_round_open env S completed decided = Some (n, items)"
    and items: "distinct items"
  shows "rm_rows (se_room S') = rm_rows (se_room S) \<and>
    (\<exists>new. rm_steps (se_room S') = rm_steps (se_room S) @ new \<and>
       map index new = map (\<lambda>k. int (length (rm_steps (se_room S))) + int k) [0..<length new] \<and> (\<forall>s \<in> set new. rs_round s = Some n)) \<and>
    filter (\<lambda>e. en_round e \<noteq> Some n) (rm_board (se_room S')) =
      filter (\<lambda>e. \<not> (en_round e = Some completed \<and> en_status e = Available)) (rm_board (se_room S)) \<and>
    distinct (map en_item (round_entries n (rm_board (se_room S')))) \<and>
    map en_item (filter (\<lambda>e. en_carried e = None) (round_entries n (rm_board (se_room S')))) =
      filter (\<lambda>i. let_in env S n items i \<and> i \<notin> cb_item ` set (active_bans n S)) items \<and>
    map en_item (filter (\<lambda>e. en_carried e \<noteq> None) (round_entries n (rm_board (se_room S')))) = map cb_item (active_bans n S) \<and>
    (\<forall>e \<in> set (round_entries n (rm_board (se_room S'))). en_status e = (if en_carried e = None then Available else Banned)) \<and>
    (round_entries n (rm_board (se_room S')) \<noteq> [] \<longrightarrow> advance_round env' completed winner' decided' elected' S' = Inr S')"
  using run
proof (cases rule: advance_round_cases)
  case declined
  then show ?thesis using opens by simp
next
  case (appended items' opener candidates new)
  have n: "n = completed + 1" "items' = items" using opens appended(1) by auto
  let ?entries = "round_entries n (rm_board (se_room S'))"
  note board = appended_board [OF opens, of new candidates, folded appended(4) n(1)]
  have new: "map index new = map (\<lambda>k. int (length (rm_steps (se_room S))) + int k) [0..<length new]" "\<forall>s \<in> set new. rs_round s = Some n"
    using resolve_round_frame [OF appended(3) [unfolded round_steps_def]] n by auto
  obtain P where P: "candidates = filter P items" using round_pool_subset(1) [OF appended(2)] n by auto
  have free: "set candidates \<inter> cb_item ` set (active_bans n S) = {}" using round_pool_subset(2) [OF appended(2)] n by simp
  have names: "map en_item ?entries = candidates @ map cb_item (active_bans n S)"
    unfolding board(1) by (simp add: candidate_entries_reads(1) carried_entries_reads(1))
  have one: "distinct (map en_item ?entries)"
    unfolding names using items free carried_bans_once [of "rm_steps (se_room S)" "rm_rows (se_room S)" n]
    by (auto simp: P active_bans_def)
  let ?cand = "candidate_entries (n * 1000) (Some n) candidates"
  let ?carr = "carried_entries (n * 1000 + int (length candidates)) n (active_bans n S)"
  have cand: "en_carried e = None \<and> en_status e = Available \<and> en_item e \<in> set candidates" if "e \<in> set ?cand" for e
    using candidate_entries_reads(2) [OF that] that new_entry_items(1) [of "n * 1000" "Some n" candidates] by blast
  have carr: "en_carried e \<noteq> None \<and> en_status e = Banned \<and> en_item e \<in> cb_item ` set (active_bans n S)" if "e \<in> set ?carr" for e
    using carried_entries_reads(2) [OF that] that new_entry_items(2) [of "n * 1000 + int (length candidates)" n "active_bans n S"] by blast
  have offered: "filter (\<lambda>e. en_carried e = None) ?entries = ?cand" "filter (\<lambda>e. en_carried e \<noteq> None) ?entries = ?carr"
    unfolding board(1) using cand carr by (simp_all add: filter_empty_conv filter_id_conv)
  have again: "advance_round env' completed winner' decided' elected' S' = Inr S'" if some: "?entries \<noteq> []"
  proof -
    have "list_ex (\<lambda>e. en_round e = Some (completed + 1)) (rm_board (se_room S'))"
      using some by (auto simp: round_entries_def list_ex_iff filter_empty_conv n(1))
    then have "next_round_open env' S' completed decided' = None" by (simp add: next_round_open_def Let_def)
    then show ?thesis by (simp add: advance_round_def)
  qed
  show ?thesis
  proof (intro conjI ballI impI exI [of _ new])
    show "map en_item (filter (\<lambda>e. en_carried e = None) ?entries) = filter (\<lambda>i. let_in env S n items i \<and> i \<notin> cb_item ` set (active_bans n S)) items"
      unfolding offered(1) using round_pool_exact [OF appended(2)] n by (simp add: new_entry_items candidate_entries_reads(1))
    show "map en_item (filter (\<lambda>e. en_carried e \<noteq> None) ?entries) = map cb_item (active_bans n S)"
      unfolding offered(2) by (simp add: carried_entries_reads(1))
    fix e assume e: "e \<in> set ?entries"
    then consider "e \<in> set ?cand" | "e \<in> set ?carr" unfolding board(1) by auto
    then show "en_status e = (if en_carried e = None then Available else Banned)" using cand carr by cases auto
  qed (use new one board(2) again in \<open>simp_all add: appended(4) n(1)\<close>)
qed

section \<open>A corrected result rebuilds the round\<close>

text \<open>An append only reads the session up to the candidates the finished round leaves behind.\<close>

definition same_history :: "int \<Rightarrow> series \<Rightarrow> series \<Rightarrow> bool" where
  "same_history completed S T \<longleftrightarrow>
     rm_steps (se_room T) = rm_steps (se_room S) \<and> rm_rows (se_room T) = rm_rows (se_room S) \<and>
     filter (\<lambda>e. \<not> (en_round e = Some completed \<and> en_status e = Available)) (rm_board (se_room T)) =
       filter (\<lambda>e. \<not> (en_round e = Some completed \<and> en_status e = Available)) (rm_board (se_room S)) \<and>
     rm_status (se_room T) = rm_status (se_room S) \<and> rm_paused (se_room T) = rm_paused (se_room S) \<and>
     rm_undo_by (se_room T) = rm_undo_by (se_room S) \<and> rm_undo_index (se_room T) = rm_undo_index (se_room S) \<and>
     rm_sides (se_room T) = rm_sides (se_room S) \<and>
     se_pool T = se_pool S \<and> se_rules T = se_rules S \<and> se_kind T = se_kind S \<and> se_opener T = se_opener S"

lemma advance_same_history:
  assumes same: "same_history completed S T" and open_S: "next_round_open env S completed decided \<noteq> None"
  shows "advance_round env completed winner decided elected T = advance_round env completed winner decided elected S"
proof -
  let ?P = "\<lambda>e. \<not> (en_round e = Some completed \<and> en_status e = Available)"
  have other: "list_ex (\<lambda>e. en_round e = Some (completed + 1)) es = list_ex (\<lambda>e. en_round e = Some (completed + 1)) (filter ?P es)" for es
    by (induction es) auto
  have "list_ex (\<lambda>e. en_round e = Some (completed + 1)) (rm_board (se_room T)) = list_ex (\<lambda>e. en_round e = Some (completed + 1)) (rm_board (se_room S))"
    using same by (subst (1 2) other) (simp only: same_history_def)
  then have opens: "next_round_open env T completed decided = next_round_open env S completed decided"
    using same by (simp add: next_round_open_def same_history_def Let_def cong: option.case_cong)
  have opener: "round_opener env n winner elected T = round_opener env n winner elected S" for n
    using same by (simp add: round_opener_def same_history_def)
  have bans: "active_bans n T = active_bans n S" for n
    using same by (simp add: active_bans_def same_history_def)
  have pool: "round_pool env n items T = round_pool env n items S" for n items
    using same by (simp add: round_pool_def bans same_history_def)
  have steps: "round_steps env n items candidates opener winner T = round_steps env n items candidates opener winner S" for n items candidates opener
    using same by (simp add: round_steps_def same_history_def)
  have append: "append_round env completed new candidates T = append_round env completed new candidates S" for new candidates
  proof -
    have "step_clock (sv_room env) (se_room T) = step_clock (sv_room env) (se_room S)"
      using same by (simp add: step_clock_def same_history_def)
    then show ?thesis using same bans [of "completed + 1"]
      by (intro series.equality room.equality; simp add: append_round_def same_history_def Let_def)
  qed
  have reads: "se_pool T = se_pool S" "se_kind T = se_kind S" using same by (simp_all add: same_history_def)
  show ?thesis unfolding advance_round_def opens opener pool steps append reads using open_S by (auto split: option.split)
qed

text \<open>C29: A correction rebuilds the next round as if the corrected result had been the first one: dropping
  an untouched round - at most voided rows and an undo request were left on it - and appending it
  again gives exactly what the append on the session before it gives.\<close>

theorem correction_rebuilds_the_round:
  assumes run: "advance_round env completed winner decided elected S = Inr S1"
    and opened: "next_round_open env S completed decided \<noteq> None"
    and idle: "rm_status (se_room S) = Completed" "rm_undo_by (se_room S) = None" "rm_undo_index (se_room S) = None"
    and numbered: "map index (rm_steps (se_room S)) = map int [0..<length (rm_steps (se_room S))]"
    and earlier: "\<forall>s \<in> set (rm_steps (se_room S)). round_or_0 s \<le> completed"
    and log: "\<forall>r \<in> set (rm_rows (se_room S)). sb_step r < int (length (rm_steps (se_room S)))"
    and left: "\<forall>r \<in> set extra. sb_step r \<in> index ` set (drop (length (rm_steps (se_room S))) (rm_steps (se_room S1)))"
    and S2: "S2 = S1\<lparr>se_room := (se_room S1)\<lparr>rm_rows := rm_rows (se_room S) @ extra, rm_status := st,
        rm_undo_by := by_team, rm_undo_index := target_index\<rparr>\<rparr>"
    and again: "next_round_open env' S completed decided' \<noteq> None"
  shows "advance_round env' completed winner' decided' elected' (drop_round (completed + 1) S2) =
    advance_round env' completed winner' decided' elected' S"
  using run
proof (cases rule: advance_round_cases)
  case declined
  then show ?thesis using opened by simp
next
  case (appended items opener candidates new)
  let ?n = "completed + 1" and ?len = "int (length (rm_steps (se_room S)))"
  have new: "map index new = map (\<lambda>k. ?len + int k) [0..<length new]" "\<And>s. s \<in> set new \<Longrightarrow> round_or_0 s = ?n"
    using resolve_round_frame [OF appended(3) [unfolded round_steps_def]] by (auto simp: round_or_0_def)
  have steps2: "rm_steps (se_room S2) = rm_steps (se_room S) @ new" by (simp add: S2 appended(4))
  have scrapped: "filter (\<lambda>s. ?n \<le> round_or_0 s) (rm_steps (se_room S2)) = new"
    unfolding steps2 using new(2) earlier by (force simp: filter_empty_conv intro: filter_True)
  have kept: "filter (\<lambda>s. round_or_0 s < ?n) (rm_steps (se_room S2)) = rm_steps (se_room S)"
    unfolding steps2 using new(2) earlier by (force simp: filter_empty_conv intro: filter_True)
  have late: "?len \<le> index s" if "s \<in> set new" for s
  proof -
    have "index s \<in> set (map index new)" using that by simp
    then show ?thesis unfolding new(1) by auto
  qed
  have rows: "(if map index new = [] then rm_rows (se_room S2) else filter (\<lambda>r. sb_step r < Min (set (map index new))) (rm_rows (se_room S2))) = rm_rows (se_room S)"
  proof (cases "new = []")
    case True
    then show ?thesis using left appended(4) by (simp add: S2)
  next
    case False
    then have "Min (set (map index new)) = ?len"
      unfolding new(1) by (intro Min_eqI) (auto intro!: image_eqI [of _ _ 0])
    moreover have "?len \<le> sb_step r" if "r \<in> set extra" for r
      using left that late by (auto simp: appended(4))
    ultimately show ?thesis using False log by (force simp: S2 filter_empty_conv intro: filter_True)
  qed
  obtain n0 items0 where "next_round_open env S completed decided = Some (n0, items0)" using opened by auto
  note board = appended_board(2) [OF this, of new candidates, folded appended(4)]
  have "same_history completed S (drop_round ?n S2)"
    unfolding same_history_def drop_round_def Let_def scrapped kept rows
    using idle board by (simp add: S2 appended(4) append_round_def Let_def)
  then show ?thesis using advance_same_history again by blast
qed

section \<open>The unlocked precheck agrees with the append\<close>

lemma highest_bound: "e \<in> set (rm_board (se_room S)) \<Longrightarrow> en_round e = Some n \<Longrightarrow> n \<le> highest_or_0 S"
  and highest_step: "s \<in> set (rm_steps (se_room S)) \<Longrightarrow> rs_round s = Some n \<Longrightarrow> n \<le> highest_or_0 S"
proof -
  let ?rounds = "List.map_filter en_round (rm_board (se_room S)) @ List.map_filter rs_round (rm_steps (se_room S))"
  have *: "n \<in> set ?rounds \<Longrightarrow> n \<le> highest_or_0 S" for n
    by (auto simp: highest_or_0_def highest_round_def Let_def intro: Max_ge)
  show "e \<in> set (rm_board (se_room S)) \<Longrightarrow> en_round e = Some n \<Longrightarrow> n \<le> highest_or_0 S"
    by (rule *) (force simp: map_filter_def image_iff)
  show "s \<in> set (rm_steps (se_room S)) \<Longrightarrow> rs_round s = Some n \<Longrightarrow> n \<le> highest_or_0 S"
    by (rule *) (force simp: map_filter_def image_iff)
qed

lemma owed_opens:
  "round_owed env S \<longleftrightarrow> \<not> (rm_status (se_room S) = Cancelled \<or> se_awaiting S) \<and> highest_or_0 S < round_target env (se_kind S) \<and>
     next_round_open env S (highest_or_0 S) (fst (round_result env (highest_or_0 S))) \<noteq> None"
proof -
  have "\<not> list_ex (\<lambda>e. en_round e = Some (highest_or_0 S + 1)) (rm_board (se_room S))"
    using highest_bound [of _ S "highest_or_0 S + 1"] by (auto simp: list_ex_iff)
  then show ?thesis by (auto simp: round_owed_def next_round_open_def Let_def not_less split: option.splits)
qed

lemma sync_loop_changed: "sync_loop env tgt highest S c = Inr (changed, S') \<Longrightarrow> c \<Longrightarrow> changed"
proof (induction env tgt highest S c rule: sync_loop.induct)
  case (1 env tgt highest S c)
  obtain decided winner where res: "round_result env highest = (decided, winner)" by fastforce
  show ?case
    using 1(2,3) 1(1) [OF _ res [symmetric] refl]
    by (subst (asm) (1) sync_loop.simps) (auto simp: res split: if_splits sum.splits)
qed

text \<open>When the synchronisation returns, it has opened what the precheck calls owed.\<close>

lemma owed_when_synced:
  assumes "\<not> se_awaiting S" and sync: "sync_rounds env S = Inr (changed, S')"
  shows "(changed \<longrightarrow> round_owed env S) \<and> (round_owed env S \<and> \<not> changed \<longrightarrow>
      rm_steps (se_room S') = rm_steps (se_room S) \<and> round_entries (highest_or_0 S + 1) (rm_board (se_room S')) = [])"
proof (rule conjI)
  let ?h = "highest_or_0 S" and ?tgt = "round_target env (se_kind S)"
  obtain decided winner where res: "round_result env ?h = (decided, winner)" by fastforce
  show "changed \<longrightarrow> round_owed env S"
  proof
    assume changed
    then have go: "rm_status (se_room S) \<noteq> Cancelled" "?h < ?tgt" and loop: "sync_loop env ?tgt ?h S False = Inr (True, S')"
      using sync by (auto simp: sync_rounds_def split: if_splits)
    have "next_round_open env S ?h decided \<noteq> None"
    proof
      assume "next_round_open env S ?h decided = None"
      then have "advance_round env ?h winner decided None S = Inr S" by (simp add: advance_round_def)
      then show False using loop go(2) res by (subst (asm) sync_loop.simps) simp
    qed
    then show "round_owed env S" using go assms(1) res by (simp add: owed_opens)
  qed
  show "round_owed env S \<and> \<not> changed \<longrightarrow>
      rm_steps (se_room S') = rm_steps (se_room S) \<and> round_entries (?h + 1) (rm_board (se_room S')) = []"
  proof (intro impI, elim conjE)
    assume owed: "round_owed env S" and same: "\<not> changed"
    have go: "rm_status (se_room S) \<noteq> Cancelled" "?h < ?tgt" and opens: "next_round_open env S ?h decided \<noteq> None"
      using owed res by (auto simp: owed_opens)
    have "po_progressive (se_pool S)" using opens by (auto simp: next_round_open_def Let_def split: if_splits)
    then have loop: "sync_loop env ?tgt ?h S False = Inr (False, S')" using go sync same by (simp add: sync_rounds_def)
    obtain S1 where S1: "advance_round env ?h winner decided None S = Inr S1" "S' = S1" "highest_or_0 S1 \<le> ?h"
      using loop go(2) res
      by (subst (asm) sync_loop.simps) (auto split: sum.splits if_splits dest: sync_loop_changed)
    from S1(1) show "rm_steps (se_room S') = rm_steps (se_room S) \<and> round_entries (?h + 1) (rm_board (se_room S')) = []"
    proof (cases rule: advance_round_cases)
      case declined
      then show ?thesis using opens by simp
    next
      case (appended items opener candidates new)
      have "new = []"
      proof (rule ccontr)
        assume "new \<noteq> []"
        then obtain s where s: "s \<in> set new" by (cases new) auto
        then have "rs_round s = Some (?h + 1)" "s \<in> set (rm_steps (se_room S1))"
          using resolve_round_frame(2) [OF appended(3) [unfolded round_steps_def]] appended(4) by simp_all
        then show False using highest_step [of s S1 "?h + 1"] S1(3) by simp
      qed
      moreover have "round_entries (?h + 1) (rm_board (se_room S1)) = []"
        using highest_bound [of _ S1 "?h + 1"] S1(3) by (auto simp: round_entries_def filter_empty_conv)
      ultimately show ?thesis using appended(4) S1(2) by simp
    qed
  qed
qed

text \<open>C27: while no loser has to choose, the scheduler's unlocked precheck calls a round owed exactly when the
  locked synchronisation does something about it: it changes the session, or it refuses to open the round
  (too few candidates, an error of the rules). Only a round that turns out to have neither steps nor
  entries is called owed and changes nothing.\<close>

theorem owed_round_is_opened:
  assumes "\<not> se_awaiting S"
  shows "case sync_rounds env S of
      Inl e \<Rightarrow> round_owed env S
    | Inr (changed, S') \<Rightarrow> (changed \<longrightarrow> round_owed env S) \<and> (round_owed env S \<and> \<not> changed \<longrightarrow>
        rm_steps (se_room S') = rm_steps (se_room S) \<and> round_entries (highest_or_0 S + 1) (rm_board (se_room S')) = [])"
proof (cases "sync_rounds env S")
  case (Inl e)
  let ?h = "highest_or_0 S" and ?tgt = "round_target env (se_kind S)"
  obtain decided winner where res: "round_result env ?h = (decided, winner)" by fastforce
  have go: "rm_status (se_room S) \<noteq> Cancelled" "?h < ?tgt" and loop: "sync_loop env ?tgt ?h S False = Inl e"
    using Inl by (auto simp: sync_rounds_def split: if_splits)
  have "next_round_open env S ?h decided \<noteq> None"
  proof
    assume "next_round_open env S ?h decided = None"
    then have "advance_round env ?h winner decided None S = Inr S" by (simp add: advance_round_def)
    then show False using loop go(2) res by (subst (asm) sync_loop.simps) simp
  qed
  then have "round_owed env S" using go assms res by (simp add: owed_opens)
  then show ?thesis using Inl by simp
next
  case (Inr r)
  then show ?thesis using owed_when_synced [OF assms] by (cases r) simp
qed

section \<open>Worked rooms\<close>

text \<open>Two seats, three items, one ban per round by the seat \<open>tok\<close> names.\<close>

definition one_ban :: "string \<Rightarrow> ruleset" where
  "one_ban tok = \<lparr>rs_timer = None, rs_on_timeout = Wait, rs_phases = [\<lparr>ph_id = ''main'', ph_name = None, ph_when = [], ph_pool_filter = [],
     ph_generator = None, ph_steps = [v1_step ''s1'' Ban tok]\<rparr>]\<rparr>"

definition three_heroes :: "string \<Rightarrow> first_ban_rotation \<Rightarrow> pool_config" where
  "three_heroes tok rotation = \<lparr>pc_stage = None, pc_round = None, pc_mode = Pool_Mode, pc_rotation = rotation, pc_rules = one_ban tok,
     pc_items = [(10, 0), (11, 1), (12, 2)], pc_slots = []\<rparr>"

definition two_seats :: "int set \<Rightarrow> room_env" where
  "two_seats played = \<lparr>re_kind = ''hero'', re_now = 100, re_participants = [1, 2], re_opener = Some 1, re_sides = [], re_groups = [],
     re_rosters = [], re_seats = [], re_exclusions = [], re_mix = False, re_played = played, re_claimed = {},
     re_heroes_begun = (\<lambda>_. False), re_rng = (\<lambda>_ _ _ _. 0)\<rparr>"

definition best_of_three :: "(int, int option) dict \<Rightarrow> series_env" where
  "best_of_three results = \<lparr>sv_room = two_seats (set (map fst results)), sv_best_of = 3, sv_groups = (\<lambda>_. []), sv_ended = False,
     sv_games = int (length results), sv_results = results, sv_map_pool = False, sv_map_room = None\<rparr>"

definition hero_series :: "string \<Rightarrow> first_ban_rotation \<Rightarrow> py_error + series" where
  "hero_series tok rotation = open_session (best_of_three []) ''hero'' (three_heroes tok rotation)
     (pool_snapshot (three_heroes tok rotation) ''hero'' 3) 1 []"

definition ban_by :: "int \<Rightarrow> int \<Rightarrow> act_request" where
  "ban_by team item = \<lparr>aq_captain = True, aq_team = team, aq_member = None, aq_viewer_member = None, aq_action = ''ban'', aq_item = item, aq_target = None\<rparr>"

definition act_in :: "series_env \<Rightarrow> act_request \<Rightarrow> series \<Rightarrow> series" where
  "act_in env q S = (case perform_action (sv_room env) q (se_room S) of Inl _ \<Rightarrow> S | Inr room \<Rightarrow> S\<lparr>se_room := room\<rparr>)"

definition series_of :: "'e + series \<Rightarrow> series" where
  "series_of m = (case m of Inr S \<Rightarrow> S | Inl _ \<Rightarrow> undefined)"

text \<open>Round 1 banned item 10, position 1 was confirmed, and round 2 is open.\<close>

definition round_two :: "string \<Rightarrow> first_ban_rotation \<Rightarrow> int option \<Rightarrow> series" where
  "round_two tok rotation winner =
     snd (case sync_rounds (best_of_three [(1, winner)]) (act_in (best_of_three []) (ban_by 1 10) (series_of (hero_series tok rotation))) of
       Inr r \<Rightarrow> r | Inl _ \<Rightarrow> undefined)"

text \<open>Nothing keeps an agreed undo out of a round that was played: with position 1 confirmed and
  round 2 open, both captains may still take back the ban of round 1; its untouched candidates are
  gone from the board, so only the item taken back can be banned again, while the organizer's
  dispute guard would have called the round blocked.\<close>

theorem undo_rewinds_a_played_round:
  "case perform_undo (two_seats {1}) 1 True (se_room (round_two ''first'' Rot_Fixed (Some 1))) of Inl _ \<Rightarrow> False
   | Inr asked \<Rightarrow> (case perform_undo (two_seats {1}) 2 True asked of Inl _ \<Rightarrow> False
     | Inr undone \<Rightarrow> map_option rs_round (current_step (rm_steps undone) (rm_rows undone)) = Some (Some 1) \<and>
         map en_item (round_entries 1 (rm_board undone)) = [10] \<and>
         perform_action (two_seats {1}) (ban_by 1 11) undone = Inl (Items_Refused [Item_Not_Available]))"
  by code_simp

text \<open>A rotation that does not look at results never rebuilds a round, although the round's steps may
  name the previous winner: after the correction the open ban still belongs to the old winner, and
  the append on the corrected result would have given it to the other seat.\<close>

theorem corrected_winner_keeps_his_step:
  "plan_correction (best_of_three [(1, Some 1)]) (round_two ''winner_prev'' Rot_Fixed (Some 1)) 1 (Some 1) (Some 2) = Inr Keep \<and>
   map actors (rm_steps (se_room (round_two ''winner_prev'' Rot_Fixed (Some 1)))) = [[Some 1], [Some 1]] \<and>
   map actors (rm_steps (se_room (round_two ''winner_prev'' Rot_Fixed (Some 2)))) = [[Some 1], [Some 2]]"
  by code_simp

text \<open>Electing an opener does not ask whether the room was cancelled: a room cancelled while it waits
  for the loser's choice still grows a round.\<close>

theorem cancelled_room_grows:
  "let waiting = round_two ''first'' Rot_Loser_Choice (Some 1);
       cancelled = waiting\<lparr>se_room := (se_room waiting)\<lparr>rm_status := Cancelled\<rparr>\<rparr>
   in se_awaiting waiting \<and> se_chooser waiting = Some 2 \<and>
      cancel_session (se_room waiting) = Inr (se_room cancelled) \<and>
      (case elect_round_opener (best_of_three [(1, Some 1)]) 2 (Some 2) cancelled of Inl _ \<Rightarrow> False
       | Inr S \<Rightarrow> rm_status (se_room S) = Cancelled \<and> length (rm_steps (se_room S)) = 2 \<and> length (round_entries 2 (rm_board (se_room S))) = 3)"
  by code_simp

definition round_one_played :: "string \<Rightarrow> first_ban_rotation \<Rightarrow> series" where
  "round_one_played tok rotation = act_in (best_of_three []) (ban_by 1 10) (series_of (hero_series tok rotation))"

lemma round_two_appends:
  "advance_round (best_of_three [(1, Some 1)]) 1 (Some 1) True None (round_one_played ''winner_prev'' Rot_Winner_First) =
    Inr (round_two ''winner_prev'' Rot_Winner_First (Some 1))"
  "next_round_open (best_of_three [(1, Some 1)]) (round_one_played ''winner_prev'' Rot_Winner_First) 1 True = Some (2, [10, 11, 12])"
  by code_simp+

theorem opening_gates_agree_witness:
  "let f = \<lparr>gf_slot_count = 2, gf_best_of = 3, gf_seats = 2, gf_live = True, gf_config = Some (three_heroes ''first'' Rot_Fixed),
       gf_all_ready = True, gf_map_settled = True\<rparr>
   in creation_plan_for ''hero'' f \<noteq> None \<and> unavailable_reason_for ''hero'' f = Not_Ready"
proof -
  let ?f = "\<lparr>gf_slot_count = 2, gf_best_of = 3, gf_seats = 2, gf_live = True, gf_config = Some (three_heroes ''first'' Rot_Fixed),
       gf_all_ready = True, gf_map_settled = True\<rparr>"
  have "unavailable_reason_for ''hero'' ?f = Not_Ready" by code_simp
  then show ?thesis using opening_gates_agree [of ?f "''hero''"] by (simp add: ROOM_SLOT_COUNT_def)
qed

theorem appended_round_exact_witness:
  "rm_rows (se_room (round_two ''winner_prev'' Rot_Winner_First (Some 1))) = rm_rows (se_room (round_one_played ''winner_prev'' Rot_Winner_First)) \<and>
   map en_item (filter (\<lambda>e. en_carried e = None) (round_entries 2 (rm_board (se_room (round_two ''winner_prev'' Rot_Winner_First (Some 1)))))) =
     filter (\<lambda>i. let_in (best_of_three [(1, Some 1)]) (round_one_played ''winner_prev'' Rot_Winner_First) 2 [10, 11, 12] i \<and>
       i \<notin> cb_item ` set (active_bans 2 (round_one_played ''winner_prev'' Rot_Winner_First))) [10, 11, 12]"
  using appended_round_exact [OF round_two_appends, of "best_of_three []" None True None] by simp

theorem owed_round_is_opened_witness:
  "round_owed (best_of_three [(1, Some 1)]) (round_one_played ''first'' Rot_Fixed)"
proof -
  have "sync_rounds (best_of_three [(1, Some 1)]) (round_one_played ''first'' Rot_Fixed) = Inr (True, round_two ''first'' Rot_Fixed (Some 1))"
    "\<not> se_awaiting (round_one_played ''first'' Rot_Fixed)" by code_simp+
  then show ?thesis using owed_round_is_opened [of "round_one_played ''first'' Rot_Fixed" "best_of_three [(1, Some 1)]"] by simp
qed

theorem correction_rebuilds_the_round_witness:
  "advance_round (best_of_three [(1, Some 2)]) 1 (Some 2) True None (drop_round 2 (round_two ''winner_prev'' Rot_Winner_First (Some 1))) =
     advance_round (best_of_three [(1, Some 2)]) 1 (Some 2) True None (round_one_played ''winner_prev'' Rot_Winner_First) \<and>
   plan_correction (best_of_three []) (round_two ''winner_prev'' Rot_Winner_First (Some 1)) 1 (Some 1) (Some 2) = Inr Drop_Round"
proof -
  let ?S = "round_one_played ''winner_prev'' Rot_Winner_First"
  let ?T = "round_two ''winner_prev'' Rot_Winner_First (Some 1)"
  have idle: "rm_status (se_room ?S) = Completed" "rm_undo_by (se_room ?S) = None" "rm_undo_index (se_room ?S) = None"
    "map index (rm_steps (se_room ?S)) = map int [0..<length (rm_steps (se_room ?S))]"
    "\<forall>s \<in> set (rm_steps (se_room ?S)). round_or_0 s \<le> 1"
    "\<forall>r \<in> set (rm_rows (se_room ?S)). sb_step r < int (length (rm_steps (se_room ?S)))"
    "?T = ?T\<lparr>se_room := (se_room ?T)\<lparr>rm_rows := rm_rows (se_room ?S) @ [], rm_status := Active, rm_undo_by := None, rm_undo_index := None\<rparr>\<rparr>"
    "next_round_open (best_of_three [(1, Some 2)]) ?S 1 True \<noteq> None"
    "plan_correction (best_of_three []) ?T 1 (Some 1) (Some 2) = Inr Drop_Round" by code_simp+
  show ?thesis
    using correction_rebuilds_the_round [OF round_two_appends(1) _ idle(1-6) _ idle(7,8), where winner' = "Some 2" and elected' = None] round_two_appends(2) idle(9) by simp
qed

section \<open>The cascade\<close>

text \<open>The configuration a coordinate resolves to: the most specific one with a pool, and only when none
  has a pool the most specific template.\<close>

lemma ranked_head:
  assumes "xs \<noteq> []" and "sort_key (\<lambda>(k, c). - int k) xs = (k, c) # ys"
  shows "(k, c) \<in> set xs \<and> (\<forall>(k', c') \<in> set xs. k' \<le> k)"
proof -
  have "sorted (map (\<lambda>(k, c). - int k) ((k, c) # ys))" unfolding assms(2) [symmetric] by (rule sorted_sort_key)
  moreover have "set xs = set ((k, c) # ys)" unfolding assms(2) [symmetric] by simp
  ultimately show ?thesis by auto
qed

theorem cascade_prefers_pools:
  assumes "pick_config candidates stage rnd = Some c"
  shows "c \<in> set candidates \<and> (\<exists>k. config_rank stage rnd c = Some k \<and>
    (\<forall>c' \<in> set candidates. \<forall>k'. config_rank stage rnd c' = Some k' \<longrightarrow>
       (has_pool c' \<longrightarrow> has_pool c \<and> k' \<le> k) \<and> (\<not> has_pool c \<longrightarrow> k' \<le> k)))"
proof -
  define matched where "matched = List.map_filter (\<lambda>c. map_option (\<lambda>k. (k, c)) (config_rank stage rnd c)) candidates"
  let ?key = "\<lambda>(k, c :: pool_config). - int k"
  have in_matched: "(k, c) \<in> set matched \<longleftrightarrow> c \<in> set candidates \<and> config_rank stage rnd c = Some k" for k c
    by (auto simp: matched_def map_filter_def image_iff)
  have matched: "matched \<noteq> []" using assms by (auto simp: pick_config_def matched_def Let_def split: if_splits)
  have res: "(case filter has_pool (map snd (sort_key ?key matched)) of c # _ \<Rightarrow> Some c | [] \<Rightarrow> Some (snd (hd (sort_key ?key matched)))) = Some c"
    using assms [unfolded pick_config_def Let_def, folded matched_def] matched by (simp only: if_False)
  show ?thesis
  proof (cases "filter (has_pool \<circ> snd) matched")
    case Nil
    obtain k d ys where hd: "sort_key ?key matched = (k, d) # ys"
      using matched by (metis (no_types) length_0_conv length_sort list.exhaust prod.collapse)
    have none: "\<not> has_pool c'" if "(k', c') \<in> set matched" for k' c' using Nil that by (force simp: filter_empty_conv)
    have "filter has_pool (map snd (sort_key ?key matched)) = []" using none by (auto simp: filter_empty_conv)
    then have "c = d" using res hd by simp
    then have top: "(k, c) \<in> set matched" "\<And>k' c'. (k', c') \<in> set matched \<Longrightarrow> k' \<le> k" using ranked_head [OF matched hd] by auto
    show ?thesis
      by (rule conjI, use top(1) in_matched in blast, rule exI [of _ k]) (use top none in_matched in blast)
  next
    case (Cons x xs)
    have "filter has_pool (map snd (sort_key ?key matched)) = map snd (sort_key ?key (filter (has_pool \<circ> snd) matched))"
      by (simp add: filter_map filter_sort)
    moreover obtain k d ys where hd: "sort_key ?key (filter (has_pool \<circ> snd) matched) = (k, d) # ys"
      by (metis (no_types) Cons length_0_conv length_sort list.distinct(1) list.exhaust prod.collapse)
    ultimately have "c = d" using res by simp
    have "filter (has_pool \<circ> snd) matched \<noteq> []" by (simp add: Cons)
    from ranked_head [OF this hd] have top: "(k, c) \<in> set matched" "has_pool c"
      "\<And>k' c'. (k', c') \<in> set matched \<Longrightarrow> has_pool c' \<Longrightarrow> k' \<le> k" using \<open>c = d\<close> by auto
    show ?thesis
      by (rule conjI, use top(1) in_matched in blast, rule exI [of _ k]) (use top in_matched in blast)
  qed
qed

theorem cascade_prefers_pools_witness:
  "pick_config [(three_heroes ''first'' Rot_Fixed)\<lparr>pc_stage := Some 5, pc_items := []\<rparr>, three_heroes ''first'' Rot_Fixed] (Some 5) (Some 1) =
     Some (three_heroes ''first'' Rot_Fixed) \<and> has_pool (three_heroes ''first'' Rot_Fixed)"
proof -
  let ?cs = "[(three_heroes ''first'' Rot_Fixed)\<lparr>pc_stage := Some 5, pc_items := []\<rparr>, three_heroes ''first'' Rot_Fixed]"
  have run: "pick_config ?cs (Some 5) (Some 1) = Some (three_heroes ''first'' Rot_Fixed)" by code_simp
  have "config_rank (Some 5) (Some 1) (three_heroes ''first'' Rot_Fixed) = Some 0" "has_pool (?cs ! 1)" by code_simp+
  then show ?thesis using run cascade_prefers_pools [OF run] by fastforce
qed

text \<open>The precheck does not look at what the append asserts: a map series whose next slot the pool filter
  leaves with one candidate is owed at every tick, and every synchronisation refuses to open it.\<close>

definition thin_slot :: pool_config where
  "thin_slot = \<lparr>pc_stage = None, pc_round = None, pc_mode = Slots_Mode, pc_rotation = Rot_Fixed,
     pc_rules = \<lparr>rs_timer = None, rs_on_timeout = Wait, rs_phases = [\<lparr>ph_id = ''main'', ph_name = None, ph_when = [],
       ph_pool_filter = never_banned ''any'', ph_generator = None, ph_steps = [v1_step ''s1'' Ban ''first'']\<rparr>]\<rparr>,
     pc_items = [], pc_slots = [\<lparr>cs_position = 1, cs_items = [10, 11, 12], cs_reserve = None\<rparr>, \<lparr>cs_position = 2, cs_items = [10, 11], cs_reserve = None\<rparr>]\<rparr>"

definition thin_series :: series where
  "thin_series = act_in (best_of_three []) (ban_by 1 10)
     (series_of (open_session (best_of_three []) ''map'' thin_slot (pool_snapshot thin_slot ''map'' 3) 1 []))"
theorem refused_round_stays_owed:
  "round_owed (best_of_three [(1, Some 1)]) thin_series \<and> \<not> se_awaiting thin_series \<and>
    sync_rounds (best_of_three [(1, Some 1)]) thin_series = Inl Too_Few_Candidates"
  by code_simp

end
