(* ===== verification/Pickban_Lifecycle.thy ===== *)
theory Pickban_Lifecycle
  imports Pickban_Room_Log Pickban_Members Pickban_Series
begin

text \<open>
  The life of a pick-ban session as a step relation: every request on a room, the scheduler's tick,
  the append of a round and a corrected result, in any order and each with an environment of its
  own. The invariant \<open>room_ok\<close> is preserved by every one of them: the steps are numbered without a
  gap and owed by nobody twice, the log keeps the database's key and refers to steps that exist,
  and a request to undo always names both who asked and which step.
\<close>

section \<open>Well-formed steps\<close>

definition step_ok :: "resolved_step \<Rightarrow> bool" where
  "step_ok s \<longleftrightarrow> distinct (actors s) \<and> distinct (member_seats s) \<and> seats_of_acting s \<and>
     (None \<in> set (actors s) \<longrightarrow> actors s = [None])"

definition steps_ok :: "resolved_step list \<Rightarrow> bool" where
  "steps_ok ss \<longleftrightarrow> map index ss = map int [0..<length ss] \<and> list_all step_ok ss"

definition env_ok :: "room_env \<Rightarrow> bool" where
  "env_ok env \<longleftrightarrow> distinct (re_participants env) \<and> distinct (map ms_id (re_seats env))"

named_theorems steps_intro

lemma distinct_answers: "step_ok s \<Longrightarrow> distinct (answers s)"
  by (auto simp: step_ok_def answers_def distinct_map inj_on_def)

lemma distinct_acting: "distinct (actors s) \<Longrightarrow> distinct (acting_actors s)"
proof -
  have "distinct (List.map_filter id xs)" if "distinct xs" for xs :: "int option list"
    using that by (induction xs) (auto simp: map_filter_simps map_filter_def image_iff split: option.splits)
  then show "distinct (actors s) \<Longrightarrow> distinct (acting_actors s)" by (simp add: acting_actors_def)
qed

lemma resolve_actors_distinct:
  assumes "resolve_actors token ps opener winner sides = Inr as" and "distinct ps"
  shows "distinct as"
  using assms
  by (auto simp: resolve_actors_def Let_def distinct_map inj_on_def split: if_splits option.splits list.splits)

lemma resolve_actors_system:
  "resolve_actors token ps opener winner sides = Inr as \<Longrightarrow> None \<in> set as \<Longrightarrow> as = [None]"
  by (auto simp: resolve_actors_def Let_def split: if_splits option.splits list.splits)

text \<open>Rosters name nobody twice.\<close>

lemma members_by_team_get: "dict_get (members_by_team seats) t [] = map ms_id (filter (\<lambda>s. ms_team s = t) seats)"
proof -
  have "dict_get (foldl (\<lambda>d s. dict_set (ms_team s) (dict_get d (ms_team s) [] @ [ms_id s]) d) d seats) t [] =
      dict_get d t [] @ map ms_id (filter (\<lambda>s. ms_team s = t) seats)" for d
    by (induction seats arbitrary: d) auto
  from this [of "[]"] show ?thesis by (simp add: members_by_team_def)
qed

lemma distinct_rosters: "env_ok env \<Longrightarrow> distinct (dict_get (members_by_team (re_seats env)) t [])"
  by (auto simp: env_ok_def members_by_team_get distinct_map inj_on_def)

section \<open>Binding keeps steps well formed\<close>

lemma seat_actors_ok:
  assumes "\<forall>t. distinct (dict_get M t [])" and "distinct as"
  shows "distinct (fst (seat_actors mode rnd M as named)) \<and> fst ` set (fst (seat_actors mode rnd M as named)) \<subseteq> set as"
  using assms
proof (induction mode rnd M as named rule: seat_actors.induct)
  case (2 mode rnd M a as named)
  note M = 2(4)
  show ?case
  proof (cases "mode = Each_Member")
    case True
    obtain seats named' where rest: "seat_actors mode rnd M as named = (seats, named')" by fastforce
    have IH: "distinct seats" "fst ` set seats \<subseteq> set as" using 2(1) [OF refl True M] 2(5) rest by auto
    have "distinct (map (Pair a) (dict_get M a []))" using M by (simp add: distinct_map inj_on_def)
    then show ?thesis using True IH 2(5) by (auto simp: rest [unfolded True])
  next
    case False
    show ?thesis
    proof (cases "first_left rnd a (dict_get M a []) named")
      case None
      then show ?thesis using False 2(2) [OF refl False None M] 2(5) by auto
    next
      case (Some m)
      obtain seats named' where rest: "seat_actors mode rnd M as (insert (rnd, a, m) named) = (seats, named')" by fastforce
      have "distinct seats" "fst ` set seats \<subseteq> set as" using 2(3) [OF refl False Some M] 2(5) rest by auto
      then show ?thesis using False Some 2(5) by (auto simp: rest)
    qed
  qed
qed simp

lemma acting_of_seats [simp]: "acting_actors (s\<lparr>member_seats := x\<rparr>) = acting_actors s"
  by (simp add: acting_actors_def)

lemma bind_from_ok:
  assumes "\<forall>t. distinct (dict_get M t [])" and "list_all step_ok ss"
  shows "list_all step_ok (bind_from M named ss)"
  using assms
proof (induction M named ss rule: bind_from.induct)
  case (2 M named s ss)
  note M = 2(4) and ok = 2(5)
  show ?case
  proof (cases "member s")
    case None
    then show ?thesis using 2 by simp
  next
    case (Some mode)
    show ?thesis
    proof (cases "member_seats s \<noteq> [] \<or> is_unbound s")
      case True
      then show ?thesis using Some 2(2) [OF Some True M] ok by simp
    next
      case False
      obtain seats named' where seat: "seat_actors mode (rs_round s) M (acting_actors s) named = (seats, named')" by fastforce
      have "distinct (acting_actors s)" using ok distinct_acting by (simp add: step_ok_def)
      then have "step_ok (s\<lparr>member_seats := seats\<rparr>)"
        using ok seat_actors_ok [OF M, of "acting_actors s" mode "rs_round s" named] seat
        by (simp add: step_ok_def seats_of_acting_def)
      then show ?thesis using Some False 2(3) [OF Some False seat [symmetric] refl M] ok by (simp add: seat)
    qed
  qed
qed simp

lemma bind_members_ok:
  assumes "env_ok env" and "steps_ok ss"
  shows "steps_ok (bind_members ss (members_by_team (re_seats env)))"
  using assms distinct_rosters bind_from_ok
  by (simp add: steps_ok_def bind_members_frame) (simp add: bind_members_def)

lemma steps_ok_update:
  assumes "steps_ok (pre @ s # post)" and "index s' = index s" and "step_ok s'"
  shows "steps_ok (pre @ s' # post)"
  using assms by (simp add: steps_ok_def)

lemma unbound_no_seats: "step_ok s \<Longrightarrow> actors s = [] \<Longrightarrow> member_seats s = []"
  by (simp add: step_ok_def seats_of_acting_def acting_actors_def map_filter_simps)

lemma bind_sides_ok:
  "env_ok env \<Longrightarrow> steps_ok (pre @ post) \<Longrightarrow> bind_sides env rows pre post = Inr (ss, bound) \<Longrightarrow> steps_ok ss \<and> map rs_round ss = map rs_round (pre @ post)"
proof (induction env rows pre post arbitrary: ss bound rule: bind_sides.induct)
  case (2 env rows pre s post)
  show ?case
  proof (cases "is_unbound s")
    case False
    then show ?thesis using 2(1) [of ss bound] 2(4-6) by simp
  next
    case True
    obtain opener where opener: "session_opener env = Inr opener" using True 2(6) by (cases "session_opener env") auto
    let ?res = "resolve_actors (case actors_token s of None \<Rightarrow> [] | Some t \<Rightarrow> t) (re_participants env) opener None
           (assigned_sides (pre @ s # post) rows (re_sides env) (re_participants env) (rs_round s))"
    show ?thesis
    proof (cases ?res)
      case (Inl e)
      then show ?thesis using 2(2) [of opener e ss bound] 2(4-6) True opener by (auto split: if_splits)
    next
      case (Inr as)
      obtain b where run: "bind_sides env rows (pre @ [s\<lparr>actors := as\<rparr>]) post = Inr (ss, b)"
        using 2(6) True opener Inr by (cases "bind_sides env rows (pre @ [s\<lparr>actors := as\<rparr>]) post") auto
      have ok: "step_ok s" using 2(5) by (simp add: steps_ok_def)
      have "member_seats s = []" using unbound_no_seats [OF ok] True by (simp add: is_unbound_def)
      moreover have "distinct as" using resolve_actors_distinct [OF Inr] 2(4) by (simp add: env_ok_def)
      ultimately have "step_ok (s\<lparr>actors := as\<rparr>)" using resolve_actors_system [OF Inr] by (simp add: step_ok_def seats_of_acting_def)
      then have "steps_ok (pre @ (s\<lparr>actors := as\<rparr>) # post)" using steps_ok_update [OF 2(5)] by simp
      then show ?thesis using 2(3) [OF _ Inr _ _ run] True 2(4) by simp
    qed
  qed
qed simp

lemma reseat_step_ok:
  assumes "reseat t actor mine = Inr t'" and "step_ok t"
  shows "step_ok t' \<and> index t' = index t \<and> rs_round t' = rs_round t"
proof -
  let ?seats = "filter (\<lambda>(a, m). a \<noteq> actor) (member_seats t) @ (case mine of None \<Rightarrow> [] | Some m \<Rightarrow> [(actor, m)])"
  have t': "t' = t\<lparr>member_seats := sort_key (\<lambda>(a, m). index_of a (acting_actors t)) ?seats\<rparr>"
    and acting: "list_all (\<lambda>(a, m). a \<in> set (acting_actors t)) ?seats"
    using assms(1) by (auto simp: reseat_def Let_def split: if_splits)
  have "distinct ?seats" using assms(2) by (auto simp: step_ok_def split: option.split)
  moreover have "fst ` set ?seats \<subseteq> set (acting_actors t)" using acting by (auto simp: list_all_iff)
  ultimately show ?thesis using assms(2) by (simp add: t' step_ok_def seats_of_acting_def)
qed

lemma rebind_steps_ok:
  "rebind_steps s actor chosen rest ts = Inr ts' \<Longrightarrow> list_all step_ok ts \<Longrightarrow> list_all step_ok ts' \<and> map index ts' = map index ts \<and> map rs_round ts' = map rs_round ts"
proof (induction s actor chosen rest ts arbitrary: ts' rule: rebind_steps.induct)
  case (2 s actor chosen rest t ts)
  then show ?case
    by (auto split: if_splits sum.splits prod.splits list.splits dest: reseat_step_ok)
qed simp

lemma rebind_free_pick_ok:
  assumes "rebind_free_pick ss s actor chosen M = Inr ss'" and "steps_ok ss"
  shows "steps_ok ss' \<and> map rs_round ss' = map rs_round ss"
proof -
  obtain rest where "rebind_steps s actor chosen rest ss = Inr ss'"
    using assms(1) by (auto simp: rebind_free_pick_def Let_def split: if_splits)
  from rebind_steps_ok [OF this] assms(2) show ?thesis
    by (auto simp: steps_ok_def dest: map_eq_imp_length_eq)
qed

lemma unbound_ok: "step_ok (unbound s)"
  by (simp add: step_ok_def unbound_def seats_of_acting_def)

lemma index_take_back [simp]: "map index (take_back_sides rounds ss) = map index ss"
  by (simp add: take_back_sides_def unbound_def)

lemma take_back_sides_ok: "steps_ok ss \<Longrightarrow> steps_ok (take_back_sides rounds ss)"
  by (simp add: steps_ok_def) (auto simp: take_back_sides_def list_all_iff unbound_ok)

lemma rounds_take_back [simp]: "map rs_round (take_back_sides rounds ss) = map rs_round ss"
  by (simp add: take_back_sides_def unbound_def)

lemma length_take_back [simp]: "length (take_back_sides rounds ss) = length ss"
  by (simp add: take_back_sides_def)

section \<open>The invariant of a room\<close>

definition rows_in :: "submission list \<Rightarrow> nat \<Rightarrow> bool" where
  "rows_in rows n \<longleftrightarrow> (\<forall>r \<in> set rows. 0 \<le> sb_step r \<and> sb_step r < int n)"

definition core_ok :: "room \<Rightarrow> bool" where
  "core_ok room \<longleftrightarrow> steps_ok (rm_steps room) \<and> log_ok (rm_rows room) \<and> rows_in (rm_rows room) (length (rm_steps room))"

definition room_ok :: "room \<Rightarrow> bool" where
  "room_ok room \<longleftrightarrow> core_ok room \<and> (rm_undo_by room = None \<longleftrightarrow> rm_undo_index room = None)"

text \<open>What settling leaves alone.\<close>

definition rounds_of :: "room \<Rightarrow> int option list" where
  "rounds_of room = map rs_round (rm_steps room)"

lemma rounds_length: "rounds_of room' = rounds_of room \<Longrightarrow> length (rm_steps room') = length (rm_steps room)"
  by (metis length_map rounds_of_def)

definition same_frame :: "room \<Rightarrow> room \<Rightarrow> bool" where
  "same_frame room room' \<longleftrightarrow> rm_undo_by room' = rm_undo_by room \<and> rm_undo_index room' = rm_undo_index room \<and>
     rm_paused room' = rm_paused room \<and> rounds_of room' = rounds_of room"

lemma same_frame_refl [simp]: "same_frame room room"
  by (simp add: same_frame_def rounds_of_def)

lemma same_frame_trans: "same_frame a b \<Longrightarrow> same_frame b c \<Longrightarrow> same_frame a c"
  by (simp add: same_frame_def rounds_of_def)

lemma steps_index: "steps_ok ss \<Longrightarrow> s \<in> set ss \<Longrightarrow> 0 \<le> index s \<and> index s < int (length ss)"
proof -
  assume "steps_ok ss" "s \<in> set ss"
  then have "index s \<in> set (map int [0..<length ss])" by (metis image_eqI list.set_map steps_ok_def)
  then show ?thesis by auto
qed

lemma rows_in_sigs: "sigs rows' = sigs rows \<Longrightarrow> rows_in rows' n \<longleftrightarrow> rows_in rows n"
proof -
  assume eq: "sigs rows' = sigs rows"
  have "map sb_step rows = map (\<lambda>(k, v). fst k) (sigs rows)" for rows by (simp add: sigs_def row_key_def)
  then have "map sb_step rows' = map sb_step rows" using eq by metis
  then have "sb_step ` set rows' = sb_step ` set rows" by (metis list.set_map)
  then show ?thesis unfolding rows_in_def by (metis (no_types, lifting) image_iff)
qed

lemma rows_in_write:
  assumes "rows_in rows n" and "0 \<le> index s \<and> index s < int n" and "st \<noteq> Voided"
  shows "rows_in (write_row s a m ds st rows) n"
proof (cases "actor_submission rows (index s) a m")
  case None
  then show ?thesis using assms by (auto simp: write_row_def rows_in_def)
next
  case (Some r)
  then show ?thesis using rows_in_sigs [OF sigs_write_row_live [of rows s a m st ds]] assms by simp
qed

lemma rows_in_void: "rows_in rows n \<Longrightarrow> rows_in (void_where P rows) n"
  by (auto simp: rows_in_def void_where_def)

lemma core_write:
  assumes "core_ok room" and "s \<in> set (rm_steps room)" and "st \<noteq> Voided"
  shows "core_ok (room\<lparr>rm_rows := write_row s a m ds st (rm_rows room)\<rparr>)"
proof -
  have "0 \<le> index s \<and> index s < int (length (rm_steps room))" using assms steps_index [of "rm_steps room" s] by (simp add: core_ok_def)
  then show ?thesis using assms log_ok_write_row rows_in_write [of "rm_rows room"] by (simp add: core_ok_def)
qed

lemma core_reveal: "core_ok room \<Longrightarrow> core_ok (room\<lparr>rm_rows := reveal s (rm_rows room)\<rparr>)"
  using rows_in_sigs [OF sigs_reveal] log_ok_reveal by (simp add: core_ok_def)

lemma project_reads [simp]:
  "rm_steps (project room) = rm_steps room" "rm_rows (project room) = rm_rows room" "rm_status (project room) = rm_status room"
  "rm_started (project room) = rm_started room" "rm_paused (project room) = rm_paused room" "rm_undo_by (project room) = rm_undo_by room"
  "rm_undo_index (project room) = rm_undo_index room" "rm_sides (project room) = rm_sides room"
  "rm_board (project room) = project_entries (rm_board room) (rm_steps room) (rm_rows room)"
  by (simp_all add: project_def)

lemma core_project [simp]: "core_ok (project room) = core_ok room"
  by (simp add: core_ok_def)

lemma frame_project [simp]: "same_frame room (project room)"
  by (simp add: same_frame_def rounds_of_def)

section \<open>Settling keeps the invariant\<close>

lemma core_side_pick:
  "rm_steps (settle_side_pick env s room) = rm_steps room \<and> rm_rows (settle_side_pick env s room) = rm_rows room \<and>
   rm_undo_by (settle_side_pick env s room) = rm_undo_by room \<and> rm_undo_index (settle_side_pick env s room) = rm_undo_index room \<and>
   rm_paused (settle_side_pick env s room) = rm_paused room \<and> rm_status (settle_side_pick env s room) = rm_status room \<and>
   rm_started (settle_side_pick env s room) = rm_started room \<and> rm_board (settle_side_pick env s room) = rm_board room"
proof -
  have "rm_steps r' = rm_steps r \<and> rm_rows r' = rm_rows r \<and> rm_undo_by r' = rm_undo_by r \<and> rm_undo_index r' = rm_undo_index r \<and>
      rm_paused r' = rm_paused r \<and> rm_status r' = rm_status r \<and> rm_started r' = rm_started r \<and> rm_board r' = rm_board r"
    if "r' = foldl (\<lambda>room a. case actor_submission (rm_rows room) (index s) (Some a) None of None \<Rightarrow> room
     | Some r \<Rightarrow> if items_of r = [] \<or> re_sides env = [] then room
         else apply_side_pick env s a (re_sides env ! nat (di_item (hd (items_of r)) mod int (length (re_sides env)))) room) r as" for r r' as
    using that
  proof (induction as arbitrary: r)
    case (Cons a as)
    let ?step = "\<lambda>room a. case actor_submission (rm_rows room) (index s) (Some a) None of None \<Rightarrow> room
     | Some r \<Rightarrow> if items_of r = [] \<or> re_sides env = [] then room
         else apply_side_pick env s a (re_sides env ! nat (di_item (hd (items_of r)) mod int (length (re_sides env)))) room"
    have one: "rm_steps (?step r a) = rm_steps r" "rm_rows (?step r a) = rm_rows r" "rm_undo_by (?step r a) = rm_undo_by r"
      "rm_undo_index (?step r a) = rm_undo_index r" "rm_paused (?step r a) = rm_paused r" "rm_status (?step r a) = rm_status r"
      "rm_started (?step r a) = rm_started r" "rm_board (?step r a) = rm_board r"
      by (auto simp: apply_side_pick_def Let_def split: option.split)
    show ?case using Cons.IH [of "?step r a"] Cons.prems unfolding foldl.simps one by simp
  qed simp
  then show ?thesis unfolding settle_side_pick_def by blast
qed

lemma core_bind:
  assumes "env_ok env" and "core_ok room" and "bind_side_actors env room = Inr room'"
  shows "core_ok room' \<and> same_frame room room' \<and> rm_rows room' = rm_rows room"
proof -
  obtain ss bound where run: "bind_sides env (rm_rows room) [] (rm_steps room) = Inr (ss, bound)"
    and room': "room' = (if bound then room\<lparr>rm_steps := bind_members ss (members_by_team (re_seats env))\<rparr> else room)"
    using assms(3) by (cases "bind_sides env (rm_rows room) [] (rm_steps room)") (auto simp: bind_side_actors_def)
  have ss: "steps_ok ss" "map rs_round ss = map rs_round (rm_steps room)" using bind_sides_ok [OF assms(1) _ run] assms(2) by (simp_all add: core_ok_def)
  then have "length ss = length (rm_steps room)" by (metis length_map)
  then show ?thesis using ss assms(2) bind_members_ok [OF assms(1)]
    by (simp add: room' core_ok_def same_frame_def rounds_of_def bind_members_frame)
qed

lemma core_stand_in:
  "stand_in env n k s joint room ams = Inr room' \<Longrightarrow> core_ok room \<Longrightarrow> s \<in> set (rm_steps room) \<Longrightarrow>
    core_ok room' \<and> same_frame room room' \<and> rm_steps room' = rm_steps room \<and> rm_started room' = rm_started room \<and> rm_status room' = rm_status room"
proof (induction env n k s joint room ams rule: stand_in.induct)
  case (2 env n k s joint room a m ams)
  obtain ds where ds: "stand_in_items env (re_rng env n k) s joint room a m = Inr ds"
    and run: "stand_in env n (Suc k) s joint (project (room\<lparr>rm_rows := write_row s (Some a) m ds Locked (rm_rows room)\<rparr>)) ams = Inr room'"
    using 2(2) by (auto simp: sum_bind_Inr)
  have "core_ok (room\<lparr>rm_rows := write_row s (Some a) m ds Locked (rm_rows room)\<rparr>)" by (rule core_write) (use 2 in simp_all)
  then show ?case using 2(1) [OF run] 2(4) by (simp add: same_frame_def rounds_of_def)
qed simp

lemma current_step_in: "current_step ss rows = Some s \<Longrightarrow> s \<in> set ss"
  by (auto simp: current_step_def find_Some_iff)

text \<open>One pass, once the cursor is known.\<close>

lemma settle_pass_at:
  assumes "current_step (rm_steps room) (rm_rows room) = Some s"
  shows "is_unbound s \<Longrightarrow> settle_pass env n timed room = Inr (False, project room)"
    and "\<not> is_unbound s \<Longrightarrow> is_system s \<Longrightarrow> settle_pass env n timed room =
      map_sum id (\<lambda>ds. (True, (project room)\<lparr>rm_rows := write_row s None None ds Revealed (rm_rows room)\<rparr>))
        (resolve_system_step s (ctx_of env (project room) s) (re_rng env n 0))"
    and "\<not> is_unbound s \<Longrightarrow> \<not> is_system s \<Longrightarrow> ready_to_reveal s (rm_rows room) \<Longrightarrow> settle_pass env n timed room =
      map_sum id (Pair True) (if action s = Side_Pick
        then bind_side_actors env (settle_side_pick env s ((project room)\<lparr>rm_rows := reveal s (rm_rows room)\<rparr>))
        else Inr ((project room)\<lparr>rm_rows := reveal s (rm_rows room)\<rparr>))"
    and "\<not> is_unbound s \<Longrightarrow> \<not> is_system s \<Longrightarrow> \<not> ready_to_reveal s (rm_rows room) \<Longrightarrow>
      Some (index s) = timed \<and> on_timeout s \<noteq> Wait \<and> expired env (project room) s \<Longrightarrow>
      settle_pass env n timed room = map_sum id (Pair True) (expire env n s (project room))"
    and "\<not> is_unbound s \<Longrightarrow> \<not> is_system s \<Longrightarrow> \<not> ready_to_reveal s (rm_rows room) \<Longrightarrow>
      \<not> (Some (index s) = timed \<and> on_timeout s \<noteq> Wait \<and> expired env (project room) s) \<Longrightarrow>
      settle_pass env n timed room = Inr (False, project room)"
  using assms by (simp_all only: settle_pass_def Let_def project_reads option.case if_True if_False simp_thms)

lemma map_sum_Inr: "map_sum f g m = Inr y \<longleftrightarrow> (\<exists>x. m = Inr x \<and> y = g x)"
  by (cases m) auto

text \<open>What a pass of the loop can do, with the condition under which it does it.\<close>

lemma settle_pass_cases:
  assumes "settle_pass env n timed room = Inr (again, room')"
  obtains (ended) "current_step (rm_steps room) (rm_rows room) = None" "\<not> again" "room' = project room"
    | (waiting) s where "current_step (rm_steps room) (rm_rows room) = Some s" "\<not> again" "room' = project room"
        "is_unbound s \<or> \<not> is_system s \<and> \<not> ready_to_reveal s (rm_rows room) \<and>
           \<not> (Some (index s) = timed \<and> on_timeout s \<noteq> Wait \<and> expired env (project room) s)"
    | (system) s ds where "current_step (rm_steps room) (rm_rows room) = Some s" again "\<not> is_unbound s" "is_system s"
        "room' = (project room)\<lparr>rm_rows := write_row s None None ds Revealed (rm_rows room)\<rparr>"
    | (shown) s where "current_step (rm_steps room) (rm_rows room) = Some s" again "\<not> is_unbound s" "ready_to_reveal s (rm_rows room)"
        "room' = (project room)\<lparr>rm_rows := reveal s (rm_rows room)\<rparr>"
    | (bound) s where "current_step (rm_steps room) (rm_rows room) = Some s" again "\<not> is_unbound s" "ready_to_reveal s (rm_rows room)"
        "bind_side_actors env (settle_side_pick env s ((project room)\<lparr>rm_rows := reveal s (rm_rows room)\<rparr>)) = Inr room'"
    | (due) s where "current_step (rm_steps room) (rm_rows room) = Some s" again "\<not> is_unbound s" "\<not> is_system s" "\<not> ready_to_reveal s (rm_rows room)"
        "Some (index s) = timed" "expire env n s (project room) = Inr room'"
proof (cases "current_step (rm_steps room) (rm_rows room)")
  case None
  then have "\<not> again" "room' = project room" using assms by (auto simp: settle_pass_def Let_def)
  with None show ?thesis by (rule ended)
next
  case (Some s)
  note pass = settle_pass_at [OF Some, where env = env and n = n and timed = timed, unfolded assms]
  show ?thesis
  proof (cases "is_unbound s")
    case True
    with pass(1) show ?thesis using waiting [OF Some] by simp
  next
    case unb: False
    show ?thesis
    proof (cases "is_system s")
      case True
      from pass(2) [OF unb True, symmetric] obtain ds where again "room' = (project room)\<lparr>rm_rows := write_row s None None ds Revealed (rm_rows room)\<rparr>"
        by (auto simp only: map_sum_Inr prod.inject)
      then show ?thesis using system [OF Some _ unb True] by blast
    next
      case sys: False
      show ?thesis
      proof (cases "ready_to_reveal s (rm_rows room)")
        case True
        from pass(3) [OF unb sys True, symmetric] show ?thesis using shown [OF Some _ unb True] bound [OF Some _ unb True]
          by (auto simp only: map_sum_Inr prod.inject sum.inject split: if_splits)
      next
        case idle: False
        show ?thesis
        proof (cases "Some (index s) = timed \<and> on_timeout s \<noteq> Wait \<and> expired env (project room) s")
          case True
          from pass(4) [OF unb sys idle True, symmetric] show ?thesis using due [OF Some _ unb sys idle] True by (auto simp only: map_sum_Inr prod.inject)
        next
          case False
          with pass(5) [OF unb sys idle] show ?thesis using waiting [OF Some] sys idle by simp
        qed
      qed
    qed
  qed
qed

lemma core_settle_pass:
  assumes "env_ok env" and "core_ok room" and "settle_pass env n timed room = Inr (again, room')"
  shows "core_ok room' \<and> same_frame room room' \<and> rm_status room' = rm_status room"
  using assms(3)
proof (cases rule: settle_pass_cases)
  case (system s ds)
  then show ?thesis using core_write [of "project room" s Revealed] assms(2) current_step_in [of _ _ s] by (simp add: same_frame_def rounds_of_def)
next
  case (shown s)
  then show ?thesis using core_reveal [of "project room"] assms(2) by (simp add: same_frame_def rounds_of_def)
next
  case (bound s)
  let ?shown = "(project room)\<lparr>rm_rows := reveal s (rm_rows room)\<rparr>"
  have "core_ok (settle_side_pick env s ?shown)"
    using core_reveal [of "project room"] assms(2) core_side_pick [of env s ?shown] by (simp add: core_ok_def)
  from core_bind [OF assms(1) this bound(5)] have "core_ok room'" "same_frame (settle_side_pick env s ?shown) room'" by simp_all
  moreover have "rm_status room' = rm_status (settle_side_pick env s ?shown)"
    using bound(5) by (auto simp: bind_side_actors_def map_sum_Inr)
  ultimately show ?thesis using core_side_pick [of env s ?shown] by (simp add: same_frame_def rounds_of_def)
next
  case (due s)
  then obtain joint where "stand_in env n 1 s joint (project room) (owing s (rm_rows room)) = Inr room'"
    unfolding expire_def Let_def sum_bind_Inr by auto
  from core_stand_in [OF this] show ?thesis using assms(2) current_step_in [OF due(1)] by (simp add: same_frame_def rounds_of_def)
qed (use assms(2) in simp_all)

lemma core_settle_loop:
  assumes "env_ok env"
  shows "settle_loop env n timed room changed = Inr (changed', room') \<Longrightarrow> core_ok room \<Longrightarrow>
    core_ok room' \<and> same_frame room room' \<and> rm_status room' = rm_status room"
proof (induction n arbitrary: room changed)
  case (Suc n)
  obtain again mid where pass: "settle_pass env n timed room = Inr (again, mid)"
    using Suc.prems(1) by (cases "settle_pass env n timed room") auto
  note mid = core_settle_pass [OF assms Suc.prems(2) pass]
  show ?case
  proof (cases again)
    case True
    then have "settle_loop env n timed mid True = Inr (changed', room')" using Suc.prems(1) pass by simp
    from Suc.IH [OF this] show ?thesis using mid same_frame_trans [of room mid room'] by simp
  qed (use Suc.prems(1) pass mid in simp)
qed simp

lemma finish_reads:
  "rm_steps (snd (finish env timed cr)) = rm_steps (snd cr)" "rm_rows (snd (finish env timed cr)) = rm_rows (snd cr)"
  "rm_undo_by (snd (finish env timed cr)) = rm_undo_by (snd cr)" "rm_undo_index (snd (finish env timed cr)) = rm_undo_index (snd cr)"
  "rm_paused (snd (finish env timed cr)) = rm_paused (snd cr)"
  "rm_board (snd (finish env timed cr)) = project_entries (rm_board (snd cr)) (rm_steps (snd cr)) (rm_rows (snd cr))"
  by (cases cr; simp add: finish_def Let_def)+

text \<open>The status after the loop: completed exactly when no step is left.\<close>

lemma finish_status:
  "rm_status (snd cr) \<noteq> Cancelled \<Longrightarrow>
    rm_status (snd (finish env timed cr)) = (if current_step (rm_steps (snd cr)) (rm_rows (snd cr)) = None then Completed else Active)"
  by (cases cr; cases "rm_status (snd cr)") (auto simp: finish_def Let_def timed_index_def)

definition at_rest :: "room \<Rightarrow> bool" where
  "at_rest room \<longleftrightarrow> rm_board room = project_entries (rm_board room) (rm_steps room) (rm_rows room) \<and>
     (rm_status room = Completed \<longrightarrow> current_step (rm_steps room) (rm_rows room) = None)"

lemma settle_cases:
  assumes "settle env room = Inr (changed, room')"
  obtains (cancelled) "rm_status room = Cancelled" "room' = room"
  | (ran) mid c end_room where "rm_status room \<noteq> Cancelled" "bind_side_actors env room = Inr mid"
    "settle_loop env (length (rm_steps mid) + 2) (timed_index mid) mid False = Inr (c, end_room)"
    "room' = snd (finish env (timed_index mid) (c, end_room))"
proof (cases "rm_status room = Cancelled")
  case True
  then have "room' = room" using assms by (simp add: settle_def)
  with True show ?thesis by (rule cancelled)
next
  case False
  then obtain mid where mid: "bind_side_actors env room = Inr mid"
    and run: "map_sum id (finish env (timed_index mid)) (settle_loop env (length (rm_steps mid) + 2) (timed_index mid) mid False) = Inr (changed, room')"
    using assms [unfolded settle_def sum_bind_Inr if_not_P [OF False]] by blast
  obtain c end_room where "settle_loop env (length (rm_steps mid) + 2) (timed_index mid) mid False = Inr (c, end_room)"
    "(changed, room') = finish env (timed_index mid) (c, end_room)" using run by (auto simp: map_sum_Inr)
  then have "settle_loop env (length (rm_steps mid) + 2) (timed_index mid) mid False = Inr (c, end_room)"
    "room' = snd (finish env (timed_index mid) (c, end_room))" by (simp, metis snd_conv)
  then show ?thesis by (rule ran [OF False mid])
qed

lemma bind_status: "bind_side_actors env room = Inr room' \<Longrightarrow> rm_status room' = rm_status room"
  by (auto simp: bind_side_actors_def map_sum_Inr)

theorem settle_ok:
  assumes "env_ok env" and "core_ok room" and "settle env room = Inr (changed, room')"
  shows "core_ok room' \<and> same_frame room room' \<and> (rm_status room \<noteq> Cancelled \<longrightarrow> at_rest room' \<and> rm_status room' \<noteq> Cancelled)"
  using assms(3)
proof (cases rule: settle_cases)
  case cancelled
  then show ?thesis using assms(2) by simp
next
  case (ran mid c end_room)
  have mid: "core_ok mid" "same_frame room mid" using core_bind [OF assms(1,2) ran(2)] by simp_all
  have fin: "core_ok end_room" "same_frame mid end_room" "rm_status end_room = rm_status mid"
    using core_settle_loop [OF assms(1) ran(3) mid(1)] by simp_all
  have "rm_status end_room \<noteq> Cancelled" using fin(3) bind_status [OF ran(2)] ran(1) by simp
  then have "at_rest room' \<and> rm_status room' \<noteq> Cancelled"
    using ran(4) by (simp add: at_rest_def finish_reads finish_status projection_idempotent)
  moreover have "core_ok room'" using fin(1) ran(4) by (simp add: core_ok_def finish_reads)
  moreover have "same_frame room room'" using same_frame_trans [OF mid(2) fin(2)] ran(4) by (simp add: same_frame_def rounds_of_def finish_reads)
  ultimately show ?thesis by simp
qed

lemma commit_ok:
  assumes "env_ok env" and "room_ok room" and "commit env room = Inr room'"
  shows "room_ok room' \<and> rounds_of room' = rounds_of room \<and> (rm_status room \<noteq> Cancelled \<longrightarrow> at_rest room' \<and> rm_status room' \<noteq> Cancelled)"
proof -
  obtain changed where "settle env room = Inr (changed, room')"
    using assms(3) by (auto simp: commit_def map_sum_Inr raised_Inr)
  from settle_ok [OF assms(1) _ this] show ?thesis using assms(2) by (simp add: room_ok_def same_frame_def)
qed

section \<open>Every request keeps the invariant\<close>

lemma if_Inl_Inr: "(if b then Inl e else m) = Inr y \<longleftrightarrow> \<not> b \<and> m = Inr y"
  by simp

lemma option_Inr: "(case x of None \<Rightarrow> Inl e | Some y \<Rightarrow> f y) = Inr z \<longleftrightarrow> (\<exists>y. x = Some y \<and> f y = Inr z)"
  by (cases x) simp_all

lemmas request_steps = option_Inr sum_bind_Inr if_Inl_Inr Let_def split_paired_Ex prod.case

lemma lock_room_Inr: "lock_room captain room = Inr room' \<longleftrightarrow> room' = room \<and> rm_status room \<noteq> Cancelled \<and> (captain \<longrightarrow> rm_paused room = None)"
  by (auto simp: lock_room_def)

lemma require_step_Inr: "require_step room = Inr s \<longleftrightarrow> current_step (rm_steps room) (rm_rows room) = Some s"
  by (auto simp: require_step_def split: option.split)

lemma room_ok_write:
  assumes "room_ok room" and "s \<in> set (rm_steps room)" and "st \<noteq> Voided"
  shows "room_ok (clear_undo_request (room\<lparr>rm_rows := write_row s a m ds st (rm_rows room)\<rparr>))"
  using core_write [of room s st a m ds] assms by (simp add: room_ok_def clear_undo_request_def core_ok_def)

lemma clear_undo_status [simp]: "rm_status (clear_undo_request room) = rm_status room"
  by (simp add: clear_undo_request_def)

lemma bind_free_pick_ok:
  assumes "bind_free_pick env room s a m = Inr (room', s')" and "room_ok room" and "s \<in> set (rm_steps room)"
  shows "room_ok room' \<and> s' \<in> set (rm_steps room') \<and> rm_status room' = rm_status room \<and> rm_rows room' = rm_rows room \<and> rounds_of room' = rounds_of room"
proof -
  consider "room' = room" "s' = s"
    | (rebound) ss where "rebind_free_pick (rm_steps room) s a (the m) (members_by_team (re_seats env)) = Inr ss"
        "find (\<lambda>t. index t = index s) ss = Some s'" "room' = room\<lparr>rm_steps := ss\<rparr>"
  proof -
    let ?M = "members_by_team (re_seats env)"
    show ?thesis
    proof (cases "room' = room \<and> s' = s")
      case False
      obtain k where m: "m = Some k" using assms(1) False by (cases m) (auto simp: bind_free_pick_def)
      from assms(1) False obtain ss where "rebind_free_pick (rm_steps room) s a k ?M = Inr ss"
        "(case find (\<lambda>t. index t = index s) ss of None \<Rightarrow> Inl (Raised Other_Error) | Some t \<Rightarrow> Inr (room\<lparr>rm_steps := ss\<rparr>, t)) = Inr (room', s')"
        unfolding bind_free_pick_def Let_def m option.case by (auto simp only: sum_bind_Inr raised_Inr sum.inject prod.inject split: if_splits)
      then have "rebind_free_pick (rm_steps room) s a (the m) ?M = Inr ss" "find (\<lambda>t. index t = index s) ss = Some s'" "room' = room\<lparr>rm_steps := ss\<rparr>"
        unfolding m by (auto split: option.splits)
      then show ?thesis by (rule that(2))
    qed (use that(1) in blast)
  qed
  then show ?thesis
  proof cases
    case rebound
    have ss: "steps_ok ss \<and> map rs_round ss = map rs_round (rm_steps room)"
      using rebind_free_pick_ok [OF rebound(1)] assms(2) by (simp add: room_ok_def core_ok_def)
    then have "length ss = length (rm_steps room)" by (metis length_map)
    then show ?thesis using ss assms(2) rebound(2,3) find_Some_first [OF rebound(2)] by (simp add: room_ok_def core_ok_def rounds_of_def)
  qed (use assms in simp)
qed

lemma locked_or_draft: "(if b then Locked else Draft) \<noteq> Voided"
  by simp

lemma perform_action_ok:
  assumes "env_ok env" and "room_ok room" and "perform_action env q room = Inr room'"
  shows "room_ok room' \<and> at_rest room' \<and> rounds_of room' = rounds_of room"
proof -
  obtain room1 s room2 s2 ds st where open_room: "rm_status room \<noteq> Cancelled"
    and first: "commit env room = Inr room1" and s: "current_step (rm_steps room1) (rm_rows room1) = Some s"
    and bind: "bind_free_pick env room1 s (aq_team q) (aq_member q) = Inr (room2, s2)"
    and last: "commit env (clear_undo_request (room2\<lparr>rm_rows := write_row s2 (Some (aq_team q)) (aq_member q) ds st (rm_rows room2)\<rparr>)) = Inr room'"
    and st: "st \<noteq> Voided"
    using assms(3) unfolding perform_action_def request_steps lock_room_Inr require_step_Inr
    by - (elim exE conjE; hypsubst; rule that; (assumption | rule locked_or_draft))
  note one = commit_ok [OF assms(1,2) first]
  note two = bind_free_pick_ok [OF bind _ current_step_in [OF s]]
  have "room_ok (clear_undo_request (room2\<lparr>rm_rows := write_row s2 (Some (aq_team q)) (aq_member q) ds st (rm_rows room2)\<rparr>))"
    by (rule room_ok_write) (use one two st in simp_all)
  from commit_ok [OF assms(1) this last] show ?thesis using one two open_room by (simp add: rounds_of_def clear_undo_request_def)
qed

lemma submit_items_ok:
  assumes "env_ok env" and "room_ok room" and "submit_items env q room = Inr room'"
  shows "room_ok room' \<and> at_rest room' \<and> rounds_of room' = rounds_of room"
proof -
  obtain room1 s where open_room: "rm_status room \<noteq> Cancelled"
    and first: "commit env room = Inr room1" and s: "current_step (rm_steps room1) (rm_rows room1) = Some s"
    and last: "commit env (clear_undo_request (room1\<lparr>rm_rows := write_row s (Some (sq_team q)) None (sq_items q)
        (if sq_lock q then Locked else Draft) (rm_rows room1)\<rparr>)) = Inr room'"
    using assms(3) unfolding submit_items_def request_steps lock_room_Inr require_step_Inr
    by - (elim exE conjE; hypsubst; rule that; assumption)
  note one = commit_ok [OF assms(1,2) first]
  have "room_ok (clear_undo_request (room1\<lparr>rm_rows := write_row s (Some (sq_team q)) None (sq_items q)
        (if sq_lock q then Locked else Draft) (rm_rows room1)\<rparr>))"
    by (rule room_ok_write) (use one current_step_in [OF s] in simp_all)
  from commit_ok [OF assms(1) this last] show ?thesis using one open_room by (simp add: rounds_of_def clear_undo_request_def)
qed

lemma room_ok_reopen:
  assumes "room_ok room" and "s \<in> set (rm_steps room)"
  shows "rounds_of (reopen env s room) = rounds_of room \<and> (room_ok (reopen env s room) \<and> rm_status (reopen env s room) \<noteq> Cancelled \<or> rm_status room = Cancelled)"
proof -
  let ?rows = "void_where (live_at (rm_rows room) (index s)) (rm_rows room) @ fresh_drafts s (rm_rows room)"
  have ok: "steps_ok (rm_steps room)" "log_ok (rm_rows room)" "rows_in (rm_rows room) (length (rm_steps room))"
    using assms(1) by (simp_all add: room_ok_def core_ok_def)
  have "step_ok s" using ok(1) assms(2) by (simp add: steps_ok_def list_all_iff)
  then have "log_ok ?rows" using log_ok_reopen [OF ok(2)] distinct_answers by blast
  moreover have "rows_in ?rows (length (rm_steps room))"
    using rows_in_void [OF ok(3), of "live_at (rm_rows room) (index s)"] steps_index [OF ok(1) assms(2)]
    by (auto simp: rows_in_def fresh_drafts_def)
  ultimately show ?thesis using ok(1) take_back_sides_ok [OF ok(1), of "{rs_round s}"]
    by (cases "rm_status room") (auto simp: reopen_def Let_def rounds_of_def room_ok_def core_ok_def clear_undo_request_def wake_def clear_sides_def)
qed

lemma dispute_step_ok:
  assumes "env_ok env" and "room_ok room" and "dispute_step env team room = Inr room'"
  shows "room_ok room' \<and> at_rest room' \<and> rounds_of room' = rounds_of room"
proof -
  obtain room1 s where open_room: "rm_status room \<noteq> Cancelled" and first: "commit env room = Inr room1"
    and s: "s \<in> set (rm_steps room1)" and last: "commit env (reopen env s room1) = Inr room'"
    using assms(3) unfolding dispute_step_def request_steps lock_room_Inr
    by - (elim exE conjE; hypsubst; rule that; (assumption | rule find_Some_first [THEN conjunct1]); assumption?)
  note one = commit_ok [OF assms(1,2) first]
  have re: "room_ok (reopen env s room1)" "rm_status (reopen env s room1) \<noteq> Cancelled" "rounds_of (reopen env s room1) = rounds_of room1"
    using room_ok_reopen [of room1 s env] one open_room s by auto
  then show ?thesis using commit_ok [OF assms(1) re(1) last] one by simp
qed

lemma reopenable_in: "reopenable room = Some s \<Longrightarrow> s \<in> set (rm_steps room)"
proof -
  assume re: "reopenable room = Some s"
  then have "filter (touched (rm_rows room)) (rm_steps room) \<noteq> []" "s = last (filter (touched (rm_rows room)) (rm_steps room))"
    by (auto simp: reopenable_def split: list.splits if_splits)
  then show ?thesis by (metis filter_is_subset last_in_set subsetD)
qed

lemma admin_reopen_ok:
  assumes "env_ok env" and "room_ok room" and "admin_reopen_step env room = Inr room'"
  shows "room_ok room' \<and> at_rest room' \<and> rounds_of room' = rounds_of room"
proof -
  obtain room1 s where open_room: "rm_status room \<noteq> Cancelled" and first: "commit env room = Inr room1"
    and s: "reopenable room1 = Some s" and last: "commit env (reopen env s room1) = Inr room'"
    using assms(3) unfolding admin_reopen_step_def request_steps lock_room_Inr
    by - (elim exE conjE; hypsubst; rule that; assumption)
  note one = commit_ok [OF assms(1,2) first]
  have re: "room_ok (reopen env s room1)" "rm_status (reopen env s room1) \<noteq> Cancelled" "rounds_of (reopen env s room1) = rounds_of room1"
    using room_ok_reopen [of room1 s env] one open_room reopenable_in [OF s] by auto
  then show ?thesis using commit_ok [OF assms(1) re(1) last] one by simp
qed

text \<open>An undo voids the live rows of a suffix of the steps, then forgets the sides it took back.\<close>

lemma undo_rows:
  "void_where (\<lambda>r. list_ex (\<lambda>s. tgt \<le> index s \<and> live_at rows (index s) r) steps) rows =
   void_where (\<lambda>r. sb_step r \<in> {i. tgt \<le> i \<and> i \<in> index ` set steps} \<and> live_at rows (sb_step r) r) rows"
  by (auto simp: void_where_def list_ex_iff live_at_def)

lemma apply_undo_ok:
  assumes "room_ok room"
  shows "room_ok (clear_sides ps (apply_undo env tgt room)) \<and> rounds_of (clear_sides ps (apply_undo env tgt room)) = rounds_of room"
proof -
  have ok: "steps_ok (rm_steps room)" "log_ok (rm_rows room)" "rows_in (rm_rows room) (length (rm_steps room))"
    using assms by (simp_all add: room_ok_def core_ok_def)
  have "log_ok (void_where (\<lambda>r. list_ex (\<lambda>s. tgt \<le> index s \<and> live_at (rm_rows room) (index s) r) (rm_steps room)) (rm_rows room))"
    unfolding undo_rows by (rule log_ok_void [OF ok(2)])
  then show ?thesis
    using take_back_sides_ok [OF ok(1), of "undone_side_rounds (rm_steps room) (rm_rows room) tgt"] rows_in_void [OF ok(3)]
    by (cases "rm_status room")
      (simp_all add: apply_undo_def Let_def clear_sides_def wake_def clear_undo_request_def room_ok_def core_ok_def rounds_of_def)
qed

lemma apply_undo_rest: "at_rest room \<Longrightarrow> rm_status room \<noteq> Cancelled \<Longrightarrow> at_rest (clear_sides ps (apply_undo env tgt room))"
  by (cases "rm_status room")
    (simp_all add: at_rest_def apply_undo_def Let_def clear_sides_def wake_def clear_undo_request_def projection_idempotent)

lemma perform_undo_cases:
  assumes "perform_undo env team consent room = Inr room'"
  obtains (withdrawn) "\<not> consent" "room' = clear_undo_request room"
  | (asked) tgt where "consent" "room' = room\<lparr>rm_undo_by := Some team, rm_undo_index := Some tgt\<rparr>"
      "undo_target (rm_steps room) (rm_rows room) = Some tgt" "rm_status room \<noteq> Cancelled" "rm_paused room = None"
  | (applied) tgt other where "consent" "undo_target (rm_steps room) (rm_rows room) = Some tgt" "rm_status room \<noteq> Cancelled" "rm_paused room = None"
      "rm_undo_index room = Some tgt" "rm_undo_by room = Some other" "other \<noteq> team"
      "room' = clear_sides (undone_side_positions (rm_steps room) (rm_rows room) tgt) (apply_undo env tgt room)"
proof -
  obtain tgt s where go: "rm_status room \<noteq> Cancelled" "rm_paused room = None" "undo_target (rm_steps room) (rm_rows room) = Some tgt"
    and run: "(if \<not> consent then Inr (clear_undo_request room)
       else if (if rm_undo_index room = Some tgt then rm_undo_by room else None) = None \<or>
               (if rm_undo_index room = Some tgt then rm_undo_by room else None) = Some team
            then Inr (room\<lparr>rm_undo_by := Some team, rm_undo_index := Some tgt\<rparr>)
            else Inr (clear_sides (undone_side_positions (rm_steps room) (rm_rows room) tgt) (apply_undo env tgt room))) = (Inr room' :: refusal + room)"
    using assms unfolding perform_undo_def option_Inr sum_bind_Inr Let_def lock_room_Inr
    by - (elim exE conjE; hypsubst; rule that; (assumption | simp only: simp_thms)?)
  show ?thesis
  proof (cases consent)
    case False
    show ?thesis by (rule withdrawn [OF False]) (use run False in simp)
  next
    case True
    show ?thesis
    proof (cases "rm_undo_index room = Some tgt \<and> (\<exists>other. rm_undo_by room = Some other \<and> other \<noteq> team)")
      case False
      show ?thesis by (rule asked [OF True _ go(3,1,2)]) (use run False True in \<open>auto split: if_splits\<close>)
    next
      case agree: True
      then obtain other where "rm_undo_by room = Some other" "other \<noteq> team" by blast
      then show ?thesis using run True agree by (intro applied [OF True go(3,1,2)]) auto
    qed
  qed
qed

lemma perform_undo_ok:
  assumes "room_ok room" and "perform_undo env team consent room = Inr room'"
  shows "room_ok room' \<and> rounds_of room' = rounds_of room \<and> (at_rest room \<longrightarrow> at_rest room')"
  using assms(2)
proof (cases rule: perform_undo_cases)
  case withdrawn
  then show ?thesis using assms(1) by (simp add: room_ok_def core_ok_def clear_undo_request_def at_rest_def rounds_of_def)
next
  case (asked tgt)
  then show ?thesis using assms(1) by (simp add: room_ok_def core_ok_def at_rest_def rounds_of_def)
next
  case (applied tgt other)
  then show ?thesis using apply_undo_ok [OF assms(1)] apply_undo_rest by simp
qed

lemma controls_ok:
  "room_ok room \<Longrightarrow> set_paused env paused room = Inr room' \<Longrightarrow> room_ok room' \<and> rounds_of room' = rounds_of room \<and> (at_rest room \<longrightarrow> at_rest room')"
  "room_ok room \<Longrightarrow> extend_step_timer seconds room = Inr room' \<Longrightarrow> room_ok room' \<and> rounds_of room' = rounds_of room \<and> (at_rest room \<longrightarrow> at_rest room')"
  "room_ok room \<Longrightarrow> cancel_session room = Inr room' \<Longrightarrow> room_ok room' \<and> rounds_of room' = rounds_of room \<and> (at_rest room \<longrightarrow> at_rest room')"
  by (auto simp: set_paused_def extend_step_timer_def cancel_session_def load_active_def room_ok_def core_ok_def at_rest_def rounds_of_def
      split: if_splits option.splits)

section \<open>The room as a step relation\<close>

inductive room_step :: "room \<Rightarrow> room \<Rightarrow> bool" where
  act: "env_ok env \<Longrightarrow> perform_action env q room = Inr room' \<Longrightarrow> room_step room room'"
| submit: "env_ok env \<Longrightarrow> submit_items env q room = Inr room' \<Longrightarrow> room_step room room'"
| dispute: "env_ok env \<Longrightarrow> dispute_step env team room = Inr room' \<Longrightarrow> room_step room room'"
| reopening: "env_ok env \<Longrightarrow> admin_reopen_step env room = Inr room' \<Longrightarrow> room_step room room'"
| undoing: "perform_undo env team consent room = Inr room' \<Longrightarrow> room_step room room'"
| tick: "env_ok env \<Longrightarrow> settle env room = Inr (changed, room') \<Longrightarrow> room_step room room'"
| pausing: "set_paused env paused room = Inr room' \<Longrightarrow> room_step room room'"
| extending: "extend_step_timer seconds room = Inr room' \<Longrightarrow> room_step room room'"
| cancelling: "cancel_session room = Inr room' \<Longrightarrow> room_step room room'"

inductive_cases room_stepE: "room_step room room'"

lemma room_step_ok: "room_step room room' \<Longrightarrow> room_ok room \<Longrightarrow> room_ok room' \<and> rounds_of room' = rounds_of room \<and> (at_rest room \<longrightarrow> at_rest room')"
proof (induction rule: room_step.induct)
  case (tick env room changed room')
  then show ?case using settle_ok [OF tick(1) _ tick(2)] settle_cases [OF tick(2)]
    by (auto simp: room_ok_def same_frame_def)
qed (auto dest: perform_action_ok submit_items_ok dispute_step_ok admin_reopen_ok perform_undo_ok controls_ok)

abbreviation room_reaches :: "room \<Rightarrow> room \<Rightarrow> bool" where
  "room_reaches \<equiv> rtranclp room_step"

section \<open>Opened rooms\<close>

lemma resolve_round_ok_steps:
  assumes "resolve_round r a = Inr rs" and "distinct (ra_participants a)" and "\<forall>t. distinct (dict_get (ra_members a) t [])"
  shows "list_all step_ok rs"
proof -
  have "rs = [] \<or> (\<exists>p ss (x :: resolved_step list). resolve_steps (\<lambda>s. resolved_actors s (ra_participants a) (ra_opener a) (ra_prev_winner a) (ra_sides a))
      (resolve_step r p (ra_round a)) (ra_kind a) (ra_start_index a) ss = Inr x \<and> rs = bind_members x (ra_members a))"
    using assms(1) by (auto simp: resolve_round_def split: sum.splits option.splits)
  then consider "rs = []" | (steps) p ss x where "resolve_steps (\<lambda>s. resolved_actors s (ra_participants a) (ra_opener a) (ra_prev_winner a) (ra_sides a))
      (resolve_step r p (ra_round a)) (ra_kind a) (ra_start_index a) ss = Inr x" "rs = bind_members x (ra_members a)" by blast
  then show ?thesis
  proof cases
    case steps
    have "step_ok s" if "s \<in> set x" for s
    proof -
      obtain st at where st: "member_seats s = []" "resolved_actors st (ra_participants a) (ra_opener a) (ra_prev_winner a) (ra_sides a) = Inr at" "actors s = fst at"
        using resolve_steps_all [OF steps(1)] \<open>s \<in> set x\<close> by blast
      then have "distinct (actors s) \<and> (None \<in> set (actors s) \<longrightarrow> actors s = [None])"
        using resolve_actors_distinct [OF _ assms(2)] resolve_actors_system by (auto simp: resolved_actors_def split: sum.splits py_error.splits)
      then show ?thesis using st(1) by (simp add: step_ok_def seats_of_acting_def)
    qed
    then show ?thesis unfolding steps(2) bind_members_def by (intro bind_from_ok assms(3)) (simp add: list_all_iff)
  qed simp
qed

lemma reset_fresh [simp]: "reset_entry (fresh_entry k rnd i) = fresh_entry k rnd i"
  by (simp add: reset_entry_def fresh_entry_def)

lemma projection_of_nothing: "project_entries es steps [] = map reset_entry es"
proof -
  have "applied_items steps [] = []"
    by (simp add: applied_items_def shown_items_def actor_submission_def)
  then show ?thesis by (simp add: project_entries_def)
qed

lemma open_session_ok:
  assumes "open_session env kind c p opener sides = Inr S" and "env_ok (sv_room env)"
  shows "room_ok (se_room S) \<and> at_rest (se_room S) \<and> se_kind S = kind \<and> se_pool S = p \<and> \<not> se_awaiting S \<and> se_chooser S = None \<and>
    (\<forall>s \<in> set (rm_steps (se_room S)). rs_round s = (if po_progressive p then Some 1 else None))"
proof -
  let ?rnd = "if po_progressive p then Some 1 else None"
  obtain candidates steps a where steps: "resolve_round (pc_rules c) a = Inr steps" "ra_start_index a = 0" "ra_round a = ?rnd"
      "ra_participants a = re_participants (sv_room env)" "ra_members a = members_by_team (re_seats (sv_room env))"
    and S: "S = \<lparr>se_room = \<lparr>rm_status = (if steps = [] then Completed else Active), rm_steps = steps, rm_rows = [],
             rm_board = candidate_entries 0 ?rnd candidates, rm_started = Some (re_now (sv_room env)), rm_paused = None,
             rm_undo_by = None, rm_undo_index = None, rm_sides = sides\<rparr>,
           se_kind = kind, se_pool = p, se_rules = pc_rules c, se_opener = Some opener, se_awaiting = False, se_chooser = None\<rparr>"
    using assms(1) unfolding open_session_def Let_def sum_bind_Inr map_sum_Inr
    by - (elim exE conjE, rule that, assumption, simp_all only: round_args.simps)
  have index: "map index steps = map int [0..<length steps]"
    using resolve_round_frame(1) [OF steps(1)] steps(2) by simp
  have ok: "list_all step_ok steps"
    using resolve_round_ok_steps [OF steps(1)] steps(4,5) assms(2) distinct_rosters [OF assms(2)] by (simp add: env_ok_def)
  have "map reset_entry (candidate_entries 0 ?rnd candidates) = candidate_entries 0 ?rnd candidates"
    by (simp add: candidate_entries_def o_def case_prod_beta)
  then show ?thesis
    using index ok resolve_round_frame(2) [OF steps(1)] steps(3)
    by (auto simp: S room_ok_def core_ok_def steps_ok_def rows_in_def log_ok_def at_rest_def projection_of_nothing current_step_def)
qed

text \<open>C4: Whatever happens to an opened room - actions, drafts, disputes, reopened steps, undo requests,
  pauses, extensions, cancellation and the scheduler's ticks, in any order and each with its own
  clock and line-ups - the log keeps the database's unique key with one live attempt per step and
  refers to existing steps, the steps stay numbered without a gap and are owed by nobody twice, the
  board shown is the projection of the log, a completed room has no step left to answer, and an
  undo request names both the side that asked and the step.\<close>

theorem room_invariant:
  assumes opened: "open_session env kind c p opener sides = Inr S" and env: "env_ok (sv_room env)"
    and reached: "room_reaches (se_room S) room"
  shows "log_ok (rm_rows room) \<and> (\<forall>r \<in> set (rm_rows room). 0 \<le> sb_step r \<and> sb_step r < int (length (rm_steps room))) \<and>
    map index (rm_steps room) = map int [0..<length (rm_steps room)] \<and> (\<forall>s \<in> set (rm_steps room). distinct (answers s)) \<and>
    rm_board room = project_entries (rm_board room) (rm_steps room) (rm_rows room) \<and>
    (rm_status room = Completed \<longrightarrow> current_step (rm_steps room) (rm_rows room) = None) \<and>
    (rm_undo_by room = None \<longleftrightarrow> rm_undo_index room = None)"
proof -
  have "room_ok room \<and> at_rest room"
    using reached open_session_ok [OF opened env]
    by (induction rule: rtranclp_induct) (auto dest: room_step_ok)
  then show ?thesis
    by (simp add: room_ok_def core_ok_def at_rest_def rows_in_def steps_ok_def list_all_iff distinct_answers)
qed

section \<open>The session as a step relation\<close>

definition series_ok :: "series \<Rightarrow> bool" where
  "series_ok S \<longleftrightarrow> room_ok (se_room S) \<and> sorted (map round_or_0 (rm_steps (se_room S))) \<and>
     (po_progressive (se_pool S) \<longrightarrow> (\<forall>s \<in> set (rm_steps (se_room S)). rs_round s \<noteq> None)) \<and>
     (\<not> se_awaiting S \<longrightarrow> se_chooser S = None)"

inductive series_step :: "series \<Rightarrow> series \<Rightarrow> bool" where
  request: "room_step (se_room S) room' \<Longrightarrow> series_step S (S\<lparr>se_room := room'\<rparr>)"
| growing: "env_ok (sv_room env) \<Longrightarrow> sync_rounds env S = Inr (changed, S') \<Longrightarrow> series_step S S'"
| electing: "env_ok (sv_room env) \<Longrightarrow> elect_round_opener env first acting S = Inr S' \<Longrightarrow> series_step S S'"
| correcting: "plan_correction env S position old new = Inr c \<Longrightarrow> series_step S (apply_correction position c S)"

lemma rounds_of_sorted:
  assumes "rounds_of room' = rounds_of room"
  shows "map round_or_0 (rm_steps room') = map round_or_0 (rm_steps room)"
    and "(\<forall>s \<in> set (rm_steps room'). rs_round s \<noteq> None) \<longleftrightarrow> (\<forall>s \<in> set (rm_steps room). rs_round s \<noteq> None)"
proof -
  have 1: "map round_or_0 (rm_steps r) = map (\<lambda>r. case r of None \<Rightarrow> 0 | Some n \<Rightarrow> n) (rounds_of r)" for r
    by (simp add: rounds_of_def round_or_0_def [abs_def] o_def)
  have 2: "(\<forall>s \<in> set (rm_steps r). rs_round s \<noteq> None) \<longleftrightarrow> None \<notin> set (rounds_of r)" for r
    by (force simp: rounds_of_def)
  show "map round_or_0 (rm_steps room') = map round_or_0 (rm_steps room)" using 1 assms by simp
  show "(\<forall>s \<in> set (rm_steps room'). rs_round s \<noteq> None) \<longleftrightarrow> (\<forall>s \<in> set (rm_steps room). rs_round s \<noteq> None)" using 2 assms by simp
qed

lemma steps_ok_append:
  assumes "steps_ok ss" and "map index new = map (\<lambda>k. int (length ss) + int k) [0..<length new]" and "list_all step_ok new"
  shows "steps_ok (ss @ new)"
proof -
  have "map int [0..<n + k] = map int [0..<n] @ map (\<lambda>j. int n + int j) [0..<k]" for n k
    by (induction k) simp_all
  then show ?thesis using assms by (simp add: steps_ok_def)
qed

lemma advance_ok:
  assumes run: "advance_round env (highest_or_0 S) winner decided elected S = Inr S'" and ok: "series_ok S" and env: "env_ok (sv_room env)"
  shows "series_ok S'"
  using run
proof (cases rule: advance_round_cases)
  case declined
  then show ?thesis using ok by simp
next
  case (appended items opener candidates new)
  let ?h = "highest_or_0 S"
  have room: "room_ok (se_room S)" using ok by (simp add: series_ok_def)
  have new: "map index new = map (\<lambda>k. int (length (rm_steps (se_room S))) + int k) [0..<length new]" "\<And>s. s \<in> set new \<Longrightarrow> rs_round s = Some (?h + 1)"
    using resolve_round_frame [OF appended(3) [unfolded round_steps_def]] by auto
  have new_ok: "list_all step_ok new"
    by (rule resolve_round_ok_steps [OF appended(3) [unfolded round_steps_def]]) (use env in \<open>simp_all add: env_ok_def\<close>)
  have progressive: "po_progressive (se_pool S)" using appended(1) by (auto simp: next_round_open_def Let_def split: if_splits)
  have old: "round_or_0 s \<le> ?h + 1" if "s \<in> set (rm_steps (se_room S))" for s
  proof -
    have "rs_round s \<noteq> None" using ok progressive that by (simp add: series_ok_def)
    then obtain r where r: "rs_round s = Some r" by blast
    then show ?thesis using highest_step [OF that r] by (simp add: round_or_0_def)
  qed
  have "steps_ok (rm_steps (se_room S) @ new)"
    using steps_ok_append new new_ok room by (simp add: room_ok_def core_ok_def)
  moreover have "sorted (map round_or_0 (rm_steps (se_room S) @ new))"
    using ok old new(2) by (auto simp: series_ok_def sorted_append round_or_0_def sorted_wrt_map intro!: sorted_wrt_true [THEN sorted_wrt_mono_rel [rotated]])
  moreover have "rows_in (rm_rows (se_room S)) (length (rm_steps (se_room S) @ new))"
    using room by (force simp: room_ok_def core_ok_def rows_in_def)
  ultimately show ?thesis using room ok new(2) appended(4)
    by (auto simp: series_ok_def room_ok_def core_ok_def append_round_def Let_def)
qed

lemma sync_loop_ok:
  "sync_loop env tgt highest S changed = Inr (changed', S') \<Longrightarrow> highest = highest_or_0 S \<Longrightarrow> series_ok S \<Longrightarrow> env_ok (sv_room env) \<Longrightarrow> series_ok S'"
proof (induction env tgt highest S changed rule: sync_loop.induct)
  case (1 env tgt highest S changed)
  obtain decided winner where res: "round_result env highest = (decided, winner)" by fastforce
  show ?case
  proof (cases "tgt \<le> highest")
    case True
    then show ?thesis using 1(2,4) by (simp add: sync_loop.simps [of env tgt highest])
  next
    case False
    show ?thesis
    proof (cases "advance_round env highest winner decided None S")
      case (Inl e)
      then show ?thesis using 1(2,4) False res
        by (auto simp: sync_loop.simps [of env tgt highest] series_ok_def split: if_splits)
    next
      case (Inr S1)
      have S1: "series_ok S1" using advance_ok Inr 1(3-5) by simp
      show ?thesis
      proof (cases "highest_or_0 S1 \<le> highest")
        case True
        then show ?thesis using 1(2) False res Inr S1 by (simp add: sync_loop.simps [of env tgt highest])
      next
        case go: False
        then have "sync_loop env tgt (highest_or_0 S1) S1 True = Inr (changed', S')"
          using 1(2) False res Inr by (simp add: sync_loop.simps [of env tgt highest])
        then show ?thesis using 1(1) [OF False res [symmetric] refl Inr go] S1 1(5) by simp
      qed
    qed
  qed
qed

section \<open>Dropping a round\<close>

lemma current_attempt_filter:
  "P i \<Longrightarrow> current_attempt (filter (\<lambda>r. P (sb_step r)) rows) i = current_attempt rows i"
proof -
  assume "P i"
  then have "filter (\<lambda>r. sb_step r = i) (filter (\<lambda>r. P (sb_step r)) rows) = filter (\<lambda>r. sb_step r = i) rows"
    by (auto intro: filter_cong)
  then show ?thesis by (simp only: current_attempt_def)
qed

lemma log_ok_filter: "log_ok rows \<Longrightarrow> log_ok (filter (\<lambda>r. P (sb_step r)) rows)"
proof -
  assume ok: "log_ok rows"
  let ?rows = "filter (\<lambda>r. P (sb_step r)) rows"
  have "distinct (map row_key ?rows)" using log_ok_keys [OF ok] distinct_map_filter by blast
  moreover have "sb_attempt r = current_attempt ?rows (sb_step r)" if "r \<in> set ?rows" "sb_state r \<noteq> Voided" for r
    using that log_ok_live [OF ok, of r] by (simp add: current_attempt_filter)
  moreover have "(sb_state r = Voided) = (sb_state r' = Voided)"
    if "r \<in> set ?rows" "r' \<in> set ?rows" "sb_step r = sb_step r'" "sb_attempt r = sb_attempt r'" for r r'
    using that log_ok_whole [OF ok, of r r'] by simp
  ultimately show ?thesis by (rule log_okI)
qed

lemma sorted_prefix: "sorted (map f xs) \<Longrightarrow> filter (\<lambda>x. f x < n) xs = take (length (filter (\<lambda>x. f x < n) xs)) xs"
  for f :: "'a \<Rightarrow> int"
proof (induction xs)
  case (Cons x xs)
  show ?case
  proof (cases "f x < n")
    case False
    then have "filter (\<lambda>x. f x < n) xs = []" using Cons.prems by (auto simp: filter_empty_conv)
    then show ?thesis using False by simp
  qed (use Cons in simp)
qed simp

lemma sorted_suffix: "sorted (map f xs) \<Longrightarrow> filter (\<lambda>x. n \<le> f x) xs = drop (length (filter (\<lambda>x. f x < n) xs)) xs"
  for f :: "'a \<Rightarrow> int"
proof (induction xs)
  case (Cons x xs)
  show ?case
  proof (cases "f x < n")
    case False
    then have "filter (\<lambda>x. f x < n) xs = []" "filter (\<lambda>x. n \<le> f x) xs = xs" using Cons.prems
      by (auto simp: filter_empty_conv intro!: filter_True)
    then show ?thesis using False by simp
  qed (use Cons in simp)
qed simp

lemma drop_round_ok:
  assumes "series_ok S"
  shows "series_ok (drop_round n S)"
proof -
  let ?ss = "rm_steps (se_room S)"
  define k where "k = length (filter (\<lambda>s. round_or_0 s < n) ?ss)"
  have sorted: "sorted (map round_or_0 ?ss)" and room: "room_ok (se_room S)" using assms by (simp_all add: series_ok_def)
  have k: "k \<le> length ?ss" unfolding k_def by (rule length_filter_le)
  have kept: "filter (\<lambda>s. round_or_0 s < n) ?ss = take k ?ss" using sorted_prefix [OF sorted, of n] by (simp add: k_def)
  have gone: "filter (\<lambda>s. n \<le> round_or_0 s) ?ss = drop k ?ss" using sorted_suffix [OF sorted, of n] by (simp add: k_def)
  have numbered: "map index ?ss = map int [0..<length ?ss]" using room by (simp add: room_ok_def core_ok_def steps_ok_def)
  have "map index (take k ?ss) = take k (map int [0..<length ?ss])" by (simp only: take_map [symmetric] numbered)
  then have "map index (take k ?ss) = map int [0..<k]" using k by (simp add: take_map)
  then have steps: "steps_ok (take k ?ss)"
    using room k by (auto simp: room_ok_def core_ok_def steps_ok_def list_all_iff dest: in_set_takeD)
  have scrapped: "map index (drop k ?ss) = map int [k..<length ?ss]"
    by (simp only: drop_map [symmetric] numbered) (simp add: drop_map)
  define rows where "rows = (if drop k ?ss = [] then rm_rows (se_room S) else filter (\<lambda>r. sb_step r < Min (set (map index (drop k ?ss)))) (rm_rows (se_room S)))"
  have reads: "rm_rows (se_room (drop_round n S)) = rows" "rm_steps (se_room (drop_round n S)) = take k ?ss"
    unfolding drop_round_def Let_def gone kept rows_def by simp_all
  have "log_ok rows \<and> rows_in rows k"
  proof (cases "drop k ?ss = []")
    case True
    then show ?thesis using room k by (simp add: rows_def room_ok_def core_ok_def)
  next
    case False
    then have "Min (set (map index (drop k ?ss))) = int k"
      unfolding scrapped by (intro Min_eqI) auto
    then show ?thesis using False room log_ok_filter [of "rm_rows (se_room S)" "\<lambda>i. i < int k"]
      by (auto simp: rows_def room_ok_def core_ok_def rows_in_def)
  qed
  moreover have "sorted (map round_or_0 (take k ?ss))" using sorted by (simp add: take_map [symmetric] sorted_wrt_take)
  moreover have "\<forall>s \<in> set (take k ?ss). rs_round s \<noteq> None" if "po_progressive (se_pool S)"
    using assms that by (auto simp: series_ok_def dest: in_set_takeD)
  moreover have "rm_undo_by (se_room (drop_round n S)) = None" "rm_undo_index (se_room (drop_round n S)) = None"
    "se_pool (drop_round n S) = se_pool S" "se_awaiting (drop_round n S) = se_awaiting S" "se_chooser (drop_round n S) = se_chooser S"
    by (simp_all add: drop_round_def Let_def)
  ultimately show ?thesis using steps assms k by (simp add: series_ok_def room_ok_def core_ok_def reads)
qed

lemma series_step_ok: "series_step S S' \<Longrightarrow> series_ok S \<Longrightarrow> series_ok S'"
proof (induction rule: series_step.induct)
  case (request S room')
  have ok: "room_ok (se_room S)" using request(2) by (simp add: series_ok_def)
  note step = room_step_ok [OF request(1) ok]
  then show ?case using request(2) rounds_of_sorted [of room' "se_room S"] by (simp add: series_ok_def)
next
  case (growing env S changed S')
  then show ?case using sync_loop_ok by (auto simp: sync_rounds_def split: if_splits)
next
  case (electing env S first acting S')
  then show ?case using advance_ok by (auto simp: elect_round_opener_def Let_def split: if_splits)
next
  case (correcting env S position old new c)
  then show ?case using drop_round_ok by (cases c) (auto simp: apply_correction_def series_ok_def)
qed

text \<open>C3: The same over the whole life of a session, rounds appended, openers elected and rounds dropped by
  corrected results included: the log keeps its key and only names existing steps, the steps stay
  numbered without a gap with their rounds in order, nobody owes a step twice, an undo request is
  whole, and somebody is entitled to elect an opener only while the session waits for that choice.\<close>

theorem series_invariant:
  assumes opened: "open_session env kind c p opener sides = Inr S" and env: "env_ok (sv_room env)"
    and reached: "rtranclp series_step S T"
  shows "log_ok (rm_rows (se_room T)) \<and>
    (\<forall>r \<in> set (rm_rows (se_room T)). \<exists>s \<in> set (rm_steps (se_room T)). index s = sb_step r) \<and>
    map index (rm_steps (se_room T)) = map int [0..<length (rm_steps (se_room T))] \<and>
    sorted (map round_or_0 (rm_steps (se_room T))) \<and> (\<forall>s \<in> set (rm_steps (se_room T)). distinct (answers s)) \<and>
    (rm_undo_by (se_room T) = None \<longleftrightarrow> rm_undo_index (se_room T) = None) \<and> (se_chooser T \<noteq> None \<longrightarrow> se_awaiting T)"
proof -
  note start = open_session_ok [OF opened env]
  then have "map round_or_0 (rm_steps (se_room S)) = map (\<lambda>s. if po_progressive p then 1 else 0) (rm_steps (se_room S))"
    by (auto simp: round_or_0_def)
  then have "sorted (map round_or_0 (rm_steps (se_room S)))" by (simp add: map_replicate_const)
  then have "series_ok S" using start by (auto simp: series_ok_def)
  with reached have ok: "series_ok T" by (induction rule: rtranclp_induct) (auto dest: series_step_ok)
  have "\<exists>s \<in> set (rm_steps (se_room T)). index s = sb_step r" if "r \<in> set (rm_rows (se_room T))" for r
  proof -
    have "0 \<le> sb_step r" "sb_step r < int (length (rm_steps (se_room T)))"
      using ok that by (simp_all add: series_ok_def room_ok_def core_ok_def rows_in_def)
    then have "sb_step r \<in> set (map int [0..<length (rm_steps (se_room T))])"
      by (auto simp: image_iff intro!: bexI [of _ "nat (sb_step r)"])
    also have "set (map int [0..<length (rm_steps (se_room T))]) = set (map index (rm_steps (se_room T)))"
      using ok by (simp add: series_ok_def room_ok_def core_ok_def steps_ok_def)
    finally show ?thesis by auto
  qed
  then show ?thesis using ok by (auto simp: series_ok_def room_ok_def core_ok_def steps_ok_def list_all_iff distinct_answers)
qed

lemma hero_series_opens:
  "open_session (best_of_three []) ''hero'' (three_heroes ''first'' Rot_Fixed) (pool_snapshot (three_heroes ''first'' Rot_Fixed) ''hero'' 3) 1 [] =
     Inr (series_of (hero_series ''first'' Rot_Fixed))"
  by code_simp

lemma best_of_three_ok: "env_ok (sv_room (best_of_three results))"
  by (simp add: env_ok_def best_of_three_def two_seats_def)

lemma first_ban_step: "room_step (se_room (series_of (hero_series ''first'' Rot_Fixed))) (se_room (round_one_played ''first'' Rot_Fixed))"
proof -
  have "perform_action (sv_room (best_of_three [])) (ban_by 1 10) (se_room (series_of (hero_series ''first'' Rot_Fixed))) =
      Inr (se_room (round_one_played ''first'' Rot_Fixed))" by code_simp
  then show ?thesis by (rule room_step.act [OF best_of_three_ok])
qed

theorem room_invariant_witness:
  "log_ok (rm_rows (se_room (round_one_played ''first'' Rot_Fixed))) \<and>
   rm_status (se_room (round_one_played ''first'' Rot_Fixed)) = Completed \<and>
   current_step (rm_steps (se_room (round_one_played ''first'' Rot_Fixed))) (rm_rows (se_room (round_one_played ''first'' Rot_Fixed))) = None"
proof -
  have "rm_status (se_room (round_one_played ''first'' Rot_Fixed)) = Completed" by code_simp
  then show ?thesis
    using room_invariant [OF hero_series_opens best_of_three_ok r_into_rtranclp [of room_step, OF first_ban_step]] by simp
qed

theorem series_invariant_witness:
  "log_ok (rm_rows (se_room (round_two ''first'' Rot_Fixed (Some 1)))) \<and>
   sorted (map round_or_0 (rm_steps (se_room (round_two ''first'' Rot_Fixed (Some 1)))))"
proof -
  let ?S = "series_of (hero_series ''first'' Rot_Fixed)"
  have "round_one_played ''first'' Rot_Fixed = ?S\<lparr>se_room := se_room (round_one_played ''first'' Rot_Fixed)\<rparr>"
    "sync_rounds (best_of_three [(1, Some 1)]) (round_one_played ''first'' Rot_Fixed) = Inr (True, round_two ''first'' Rot_Fixed (Some 1))"
    by code_simp+
  then have "series_step ?S (round_one_played ''first'' Rot_Fixed)"
    "series_step (round_one_played ''first'' Rot_Fixed) (round_two ''first'' Rot_Fixed (Some 1))"
    using series_step.request [OF first_ban_step] series_step.growing [OF best_of_three_ok] by metis+
  then have "rtranclp series_step ?S (round_two ''first'' Rot_Fixed (Some 1))" by (meson converse_rtranclp_into_rtranclp rtranclp.rtrancl_refl)
  from series_invariant [OF hero_series_opens best_of_three_ok this] show ?thesis by simp
qed

end
