(* ===== verification/Pickban_Settling.thy ===== *)
theory Pickban_Settling
  imports Pickban_Lifecycle
begin

text \<open>
  What the requests do to the log. The laws of reading an answer after a write are the interface
  \<open>answer_store\<close>, interpreted on the log of the room; on top of them: settling leaves nothing it
  could still do itself, an answer that was locked is never rewritten by playing on, and an agreed
  undo takes back exactly the steps from the one asked for.
\<close>

section \<open>Reading after writing\<close>

text \<open>\<open>at\<close> is the place of a step in the store, \<open>fine\<close> the values a write may put there.\<close>

locale answer_store =
  fixes read :: "'log \<Rightarrow> int \<Rightarrow> 'a \<Rightarrow> 'v option"
    and put :: "'s \<Rightarrow> 'a \<Rightarrow> 'v \<Rightarrow> 'log \<Rightarrow> 'log"
    and place :: "'s \<Rightarrow> int"
    and fine :: "'v \<Rightarrow> bool"
  assumes read_put: "fine v \<Longrightarrow> read (put s a v l) (place s) a = Some v"
    and read_other: "fine v \<Longrightarrow> (i, b) \<noteq> (place s, a) \<Longrightarrow> read (put s a v l) i b = read l i b"
begin

lemma read_written: "fine v \<Longrightarrow> read (put s a v l) i b = (if (i, b) = (place s, a) then Some v else read l i b)"
  using read_put read_other by simp

text \<open>Writing a whole list of answers of one step.\<close>

lemma read_after_all:
  assumes "\<forall>(a, v) \<in> set avs. fine v"
  shows "read (foldl (\<lambda>l (a, v). put s a v l) l avs) i b =
    (if i = place s \<and> b \<in> fst ` set avs then map_of (rev avs) b else read l i b)"
  using assms
proof (induction avs arbitrary: l)
  case (Cons av avs)
  obtain a v where av: "av = (a, v)" by fastforce
  have "read (foldl (\<lambda>l (a, v). put s a v l) (put s a v l) avs) i b =
    (if i = place s \<and> b \<in> fst ` set avs then map_of (rev avs) b else read (put s a v l) i b)"
    using Cons by simp
  moreover have "map_of (rev avs) b \<noteq> None \<longleftrightarrow> b \<in> fst ` set avs" by (metis domIff dom_map_of_conv_image_fst set_rev)
  ultimately show ?case using Cons.prems
    by (auto simp: av read_written map_add_def split: option.splits)
qed simp

lemma answered_after_all:
  assumes "\<forall>(a, v) \<in> set avs. fine v \<and> P v" and "b \<in> fst ` set avs \<or> (\<exists>v. read l (place s) b = Some v \<and> P v)"
  shows "\<exists>v. read (foldl (\<lambda>l (a, v). put s a v l) l avs) (place s) b = Some v \<and> P v"
proof (cases "b \<in> fst ` set avs")
  case True
  then obtain v where v: "map_of (rev avs) b = Some v" by (metis domD dom_map_of_conv_image_fst set_rev)
  then have "(b, v) \<in> set avs" by (metis map_of_SomeD set_rev)
  then show ?thesis using v assms(1) True by (subst read_after_all) auto
qed (use assms in \<open>subst read_after_all; auto\<close>)

end

text \<open>The log: an answer is read as its state and items.\<close>

definition read_answer :: "submission list \<Rightarrow> int \<Rightarrow> int option \<times> int option \<Rightarrow> (sub_state \<times> draft_item list) option" where
  "read_answer rows i am = map_option (\<lambda>r. (sb_state r, items_of r)) (actor_submission rows i (fst am) (snd am))"

definition write_answer ::
  "resolved_step \<Rightarrow> int option \<times> int option \<Rightarrow> sub_state \<times> draft_item list \<Rightarrow> submission list \<Rightarrow> submission list" where
  "write_answer s am v rows = write_row s (fst am) (snd am) (snd v) (fst v) rows"

lemma find_update_other:
  assumes "\<not> Q (xs ! k)" and "\<not> Q x" and "k < length xs"
  shows "find Q (xs[k := x]) = find Q xs"
  using assms
proof (induction xs arbitrary: k)
  case (Cons y ys)
  then show ?case by (cases k) auto
qed simp

lemma find_update_hit:
  assumes "first_index Q xs = Some k" and "Q x"
  shows "find Q (xs[k := x]) = Some x"
  using assms
proof (induction xs arbitrary: k)
  case (Cons y ys)
  then show ?case by (cases k) (auto split: if_splits)
qed simp

lemma find_append: "find P (xs @ ys) = (case find P xs of None \<Rightarrow> find P ys | Some x \<Rightarrow> Some x)"
  by (induction xs) auto

lemma find_cong_list: "(\<And>x. x \<in> set xs \<Longrightarrow> P x = Q x) \<Longrightarrow> find P xs = find Q xs"
  by (induction xs) auto

text \<open>An update in place changes the reading of its own answer only.\<close>

lemma read_update_live:
  assumes key: "\<And>r. row_key (f r) = row_key r" and live: "\<And>r. sb_state r \<noteq> Voided \<Longrightarrow> sb_state (f r) \<noteq> Voided"
  shows "actor_submission (update_live i a m f rows) j b n =
    (if (j, b, n) = (i, a, m) then map_option f (actor_submission rows i a m) else actor_submission rows j b n)"
proof (cases "first_index (live_row rows i a m) rows")
  case None
  then have "actor_submission rows i a m = None" by (simp add: actor_submission_index)
  then show ?thesis by (simp add: update_live_def None)
next
  case (Some k)
  note hit = first_index_hit [OF Some]
  let ?rows = "rows[k := f (rows ! k)]"
  have rows': "update_live i a m f rows = ?rows" by (simp add: update_live_def Some)
  have "sigs ?rows = sigs rows" using sigs_update_live [of f i a m rows, OF key live] rows' by simp
  then have same: "live_row ?rows = live_row rows" by (intro ext) (simp add: live_row_def current_attempt_sigs [of ?rows rows])
  have new: "live_row rows j b n (f (rows ! k)) \<longleftrightarrow> live_row rows j b n (rows ! k)" for j b n
    using hit key [of "rows ! k"] live [of "rows ! k"] by (auto simp: live_row_def row_key_def)
  show ?thesis
  proof (cases "(j, b, n) = (i, a, m)")
    case True
    then show ?thesis using find_update_hit [OF Some, of "f (rows ! k)"] hit new [of i a m] Some
      by (simp add: rows' actor_submission_live same first_index_find)
  next
    case False
    then have "\<not> live_row rows j b n (rows ! k)" using hit by (auto simp: live_row_def)
    then show ?thesis using False find_update_other [of "live_row rows j b n" rows k "f (rows ! k)"] hit new [of j b n]
      by (auto simp: rows' actor_submission_live same)
  qed
qed

text \<open>A new row is read back, whatever attempt it opens, and every other answer reads as before.\<close>

lemma current_attempt_fresh: "filter (\<lambda>r. sb_step r = i) rows = [] \<Longrightarrow> current_attempt rows i = 1"
  by (simp add: current_attempt_def)

lemma writable_current:
  assumes "new = \<lparr>sb_step = i, sb_team = a, sb_member = m, sb_attempt = writable_attempt rows i, sb_state = st, sb_items = ds\<rparr>"
  shows "current_attempt (rows @ [new]) i = writable_attempt rows i"
proof -
  have le: "sb_attempt r \<le> current_attempt rows i" if "r \<in> set rows" "sb_step r = i" for r
    using current_attempt_ge [OF that(1)] that(2) by simp
  have "current_attempt rows i \<le> writable_attempt rows i" by (simp add: writable_attempt_def Let_def)
  then have "Max (set (map sb_attempt (filter (\<lambda>r. sb_step r = i) (rows @ [new])))) = writable_attempt rows i"
    using le by (intro Max_eqI) (auto simp: assms dest: le)
  then show ?thesis by (simp add: current_attempt_def assms)
qed

lemma read_append:
  assumes none: "actor_submission rows i a m = None" and st: "st \<noteq> Voided"
    and new: "new = \<lparr>sb_step = i, sb_team = a, sb_member = m, sb_attempt = writable_attempt rows i, sb_state = st, sb_items = ds\<rparr>"
  shows "actor_submission (rows @ [new]) j b n = (if (j, b, n) = (i, a, m) then Some new else actor_submission rows j b n)"
proof (cases "j = i")
  case False
  then have "current_attempt (rows @ [new]) j = current_attempt rows j" by (intro current_attempt_other) (auto simp: new)
  then have "live_row (rows @ [new]) j b n = live_row rows j b n" by (intro ext) (simp add: live_row_def)
  then show ?thesis using False by (auto simp: actor_submission_live find_append live_row_def new split: option.split)
next
  case True
  note att = writable_current [OF new]
  have old: "live_row (rows @ [new]) i b n r \<longleftrightarrow> live_row rows i b n r" if "r \<in> set rows" for b n r
  proof (cases "writable_attempt rows i = current_attempt rows i")
    case False
    then have above: "writable_attempt rows i = current_attempt rows i + 1"
      and void: "\<forall>r \<in> set rows. sb_step r = i \<longrightarrow> sb_attempt r = current_attempt rows i \<longrightarrow> sb_state r = Voided"
      by (auto simp: writable_attempt_def Let_def list_all_iff split: if_splits)
    have "sb_step r = i \<Longrightarrow> sb_attempt r \<le> current_attempt rows i" using current_attempt_ge [OF that] by simp
    then show ?thesis using that above void by (auto simp: live_row_def att)
  qed (simp add: live_row_def att)
  have "find (live_row (rows @ [new]) i b n) rows = find (live_row rows i b n) rows" for b n
    by (rule find_cong_list) (rule old)
  moreover have "live_row (rows @ [new]) i b n new \<longleftrightarrow> b = a \<and> n = m" for b n
    using st by (auto simp: live_row_def att) (simp_all add: new)
  ultimately show ?thesis using True none by (auto simp: actor_submission_live find_append split: option.split)
qed

lemma read_write_row:
  assumes "st \<noteq> Voided"
  shows "read_answer (write_row s a m ds st rows) i bn = (if (i, bn) = (index s, a, m) then Some (st, ds) else read_answer rows i bn)"
proof (cases "actor_submission rows (index s) a m")
  case None
  then show ?thesis using read_append [OF None assms refl]
    by (cases bn) (simp add: write_row_def read_answer_def items_of_def)
next
  case (Some r)
  have "actor_submission (update_live (index s) a m (\<lambda>r. r\<lparr>sb_items := Some ds, sb_state := st\<rparr>) rows) i (fst bn) (snd bn) =
    (if (i, fst bn, snd bn) = (index s, a, m) then map_option (\<lambda>r. r\<lparr>sb_items := Some ds, sb_state := st\<rparr>) (Some r)
     else actor_submission rows i (fst bn) (snd bn))"
    using read_update_live [of "\<lambda>r. r\<lparr>sb_items := Some ds, sb_state := st\<rparr>" "index s" a m rows i "fst bn" "snd bn"] assms Some
    by (simp add: row_key_def)
  then show ?thesis using Some by (cases bn) (auto simp: write_row_def read_answer_def items_of_def)
qed

interpretation the_log: answer_store read_answer write_answer index "\<lambda>v. fst v \<noteq> Voided"
  by unfold_locales (auto simp: write_answer_def read_write_row)

lemma answered_read: "answered_in states rows s am \<longleftrightarrow> (\<exists>v. read_answer rows (index s) am = Some v \<and> fst v \<in> states)"
  by (auto simp: answered_in_def read_answer_def split: option.split)

text \<open>Revealing turns the state of the step's answers and nothing else.\<close>

definition shown :: "sub_state \<times> draft_item list \<Rightarrow> sub_state \<times> draft_item list" where
  "shown v = (Revealed, snd v)"

lemma read_reveal:
  "read_answer (reveal s rows) i am =
    (if i = index s \<and> am \<in> set (answers s) then map_option shown (read_answer rows i am) else read_answer rows i am)"
proof -
  let ?one = "\<lambda>rows am. case actor_submission rows (index s) (fst am) (snd am) of
       None \<Rightarrow> rows
     | Some r \<Rightarrow> if sb_state r = Revealed then rows
         else update_live (index s) (fst am) (snd am) (\<lambda>r. r\<lparr>sb_state := Revealed\<rparr>) rows"
  have one: "read_answer (?one rows bn) i am = (if i = index s \<and> am = bn then map_option shown (read_answer rows i am) else read_answer rows i am)"
    for rows bn
  proof (cases "actor_submission rows (index s) (fst bn) (snd bn)")
    case (Some r)
    have upd: "actor_submission (update_live (index s) (fst bn) (snd bn) (\<lambda>r. r\<lparr>sb_state := Revealed\<rparr>) rows) i (fst am) (snd am) =
      (if (i, fst am, snd am) = (index s, fst bn, snd bn) then map_option (\<lambda>r. r\<lparr>sb_state := Revealed\<rparr>) (actor_submission rows (index s) (fst bn) (snd bn))
       else actor_submission rows i (fst am) (snd am))"
      by (rule read_update_live) (simp_all add: row_key_def)
    show ?thesis
    proof (cases "sb_state r = Revealed")
      case True
      then show ?thesis using Some by (auto simp: read_answer_def shown_def items_of_def)
    next
      case False
      then show ?thesis using Some upd by (cases am; cases bn) (auto simp: read_answer_def shown_def items_of_def)
    qed
  qed (auto simp: read_answer_def)
  have "read_answer (foldl ?one rows ams) i am =
      (if i = index s \<and> am \<in> set ams then map_option shown (read_answer rows i am) else read_answer rows i am)" for ams
  proof (induction ams arbitrary: rows)
    case (Cons b ams)
    show ?case unfolding foldl.simps Cons.IH one by (cases "read_answer rows i am") (auto simp: shown_def)
  qed simp
  then show ?thesis by (simp only: reveal_def)
qed

section \<open>What is left to show\<close>

text \<open>A step rests once it is owed by somebody and all its answers are revealed.\<close>

definition rests :: "submission list \<Rightarrow> resolved_step \<Rightarrow> bool" where
  "rests rows s \<longleftrightarrow> answers s \<noteq> [] \<and> list_all (answered_in {Revealed} rows s) (answers s)"

definition open_steps :: "room \<Rightarrow> nat" where
  "open_steps room = length (filter (\<lambda>s. \<not> rests (rm_rows room) s) (rm_steps room))"

text \<open>The timed step still waits for an answer.\<close>

definition waits :: "room \<Rightarrow> int option \<Rightarrow> nat" where
  "waits room timed = (if \<exists>s \<in> set (rm_steps room). Some (index s) = timed \<and> answers s \<noteq> [] \<and> ready_to_reveal s (rm_rows room) then 0 else 1)"

lemma length_filter_pairs:
  assumes "list_all2 (\<lambda>x y. Q y \<longrightarrow> P x) xs ys"
  shows "length (filter Q ys) \<le> length (filter P xs)"
  using assms by (induction rule: list_all2_induct) auto

lemma length_filter_drops:
  assumes "\<And>y. y \<in> set ys \<Longrightarrow> Q y \<Longrightarrow> P y" and "x \<in> set ys" and "P x" and "\<not> Q x"
  shows "length (filter Q ys) < length (filter P ys)"
proof -
  have "filter Q ys = filter Q (filter P ys)" using assms(1) by (auto intro!: filter_cong)
  also have "length \<dots> < length (filter P ys)" by (rule length_filter_less [of x]) (use assms in auto)
  finally show ?thesis .
qed

lemma unbound_answers: "step_ok s \<Longrightarrow> is_unbound s \<Longrightarrow> answers s = []"
  using unbound_no_seats by (auto simp: is_unbound_def answers_def)

lemma cursor_in:
  assumes "current_step ss rows = Some s"
  shows "s \<in> set ss" and "is_unbound s \<or> list_ex (\<lambda>am. \<not> answered_in {Revealed} rows s am) (answers s)"
  using find_Some_first [OF assms [unfolded current_step_def]] by blast+

lemma cursor_open:
  assumes "current_step ss rows = Some s" and "list_all step_ok ss"
  shows "\<not> rests rows s" and "\<not> is_unbound s \<Longrightarrow> answers s \<noteq> []"
proof -
  have "step_ok s" using cursor_in(1) [OF assms(1)] assms(2) by (simp add: list_all_iff)
  then show "\<not> rests rows s" using cursor_in(2) [OF assms(1)] unbound_answers [of s]
    by (auto simp: rests_def list_ex_iff list_all_iff)
  show "\<not> is_unbound s \<Longrightarrow> answers s \<noteq> []" using cursor_in(2) [OF assms(1)] by auto
qed

text \<open>Writing or revealing keeps every step that rested.\<close>

lemma rests_cong: "(\<And>am. am \<in> set (answers s) \<Longrightarrow> read_answer rows' (index s) am = read_answer rows (index s) am) \<Longrightarrow> rests rows' s = rests rows s"
  by (auto simp: rests_def list_all_iff answered_read)

lemma rests_reveal: "rests rows t \<Longrightarrow> rests (reveal s rows) t"
  by (fastforce simp: rests_def list_all_iff answered_read read_reveal shown_def)

lemma ready_reveal: "ready_to_reveal t rows \<Longrightarrow> ready_to_reveal t (reveal s rows)"
  by (fastforce simp: ready_to_reveal_def list_all_iff answered_read read_reveal shown_def)

lemma reveal_rests: "answers s \<noteq> [] \<Longrightarrow> ready_to_reveal s rows \<Longrightarrow> rests (reveal s rows) s"
  by (fastforce simp: rests_def ready_to_reveal_def list_all_iff answered_read read_reveal shown_def)

lemma rests_write_other: "index t \<noteq> index s \<Longrightarrow> st \<noteq> Voided \<Longrightarrow> rests (write_row s a m ds st rows) t = rests rows t"
  by (intro rests_cong) (simp add: read_write_row)

lemma rests_write_revealed: "rests rows t \<Longrightarrow> rests (write_row s a m ds Revealed rows) t"
  by (fastforce simp: rests_def list_all_iff answered_read read_write_row)

lemma ready_write: "st \<in> {Locked, Revealed} \<Longrightarrow> ready_to_reveal t rows \<Longrightarrow> ready_to_reveal t (write_row s a m ds st rows)"
  by (auto simp: ready_to_reveal_def list_all_iff answered_read read_write_row)

section \<open>Binding leaves answered steps alone\<close>

definition kept :: "resolved_step \<Rightarrow> resolved_step \<Rightarrow> bool" where
  "kept s s' \<longleftrightarrow> index s' = index s \<and> timer_seconds s' = timer_seconds s \<and> (answers s \<noteq> [] \<longrightarrow> s' = s)"

lemma kept_refl [simp]: "kept s s"
  by (simp add: kept_def)

lemma kept_trans: "kept s t \<Longrightarrow> kept t u \<Longrightarrow> kept s u"
  by (auto simp: kept_def)

lemma all_kept_refl [simp]: "list_all2 kept ss ss"
  by (simp add: list_all2_refl)

lemma all_kept_trans: "list_all2 kept ss ts \<Longrightarrow> list_all2 kept ts us \<Longrightarrow> list_all2 kept ss us"
  by (rule list_all2_trans [of kept kept kept]) (blast intro: kept_trans)+

lemma kept_bind_from: "list_all2 kept ss (bind_from M named ss)"
proof (induction M named ss rule: bind_from.induct)
  case (2 M named s ss)
  show ?case
  proof (cases "member s")
    case (Some mode)
    show ?thesis
    proof (cases "member_seats s \<noteq> [] \<or> is_unbound s")
      case False
      obtain seats named' where seat: "seat_actors mode (rs_round s) M (acting_actors s) named = (seats, named')" by fastforce
      have "kept s (s\<lparr>member_seats := seats\<rparr>)" using False Some by (simp add: kept_def answers_def)
      then show ?thesis using Some False 2(3) [OF Some False seat [symmetric] refl] by (simp add: seat)
    qed (use 2 Some in simp)
  qed (use 2 in simp)
qed simp

lemma kept_bind_sides:
  "bind_sides env rows pre post = Inr (ss, bound) \<Longrightarrow> list_all (\<lambda>s. is_unbound s \<longrightarrow> member_seats s = []) (pre @ post) \<Longrightarrow> list_all2 kept (pre @ post) ss"
proof (induction env rows pre post arbitrary: ss bound rule: bind_sides.induct)
  case (2 env rows pre s post)
  show ?case
  proof (cases "is_unbound s")
    case False
    then show ?thesis using 2(1) [of ss bound] 2(4,5) by simp
  next
    case True
    obtain opener where opener: "session_opener env = Inr opener" using True 2(4) by (cases "session_opener env") auto
    let ?res = "resolve_actors (case actors_token s of None \<Rightarrow> [] | Some t \<Rightarrow> t) (re_participants env) opener None
           (assigned_sides (pre @ s # post) rows (re_sides env) (re_participants env) (rs_round s))"
    show ?thesis
    proof (cases ?res)
      case (Inl e)
      then show ?thesis using 2(2) [of opener e ss bound] 2(4,5) True opener by (auto split: if_splits)
    next
      case (Inr as)
      obtain b where run: "bind_sides env rows (pre @ [s\<lparr>actors := as\<rparr>]) post = Inr (ss, b)"
        using 2(4) True opener Inr by (cases "bind_sides env rows (pre @ [s\<lparr>actors := as\<rparr>]) post") auto
      have seats: "member_seats s = []" using 2(5) True by simp
      then have one: "list_all2 kept (pre @ s # post) ((pre @ [s\<lparr>actors := as\<rparr>]) @ post)"
        using True by (auto simp: kept_def is_unbound_def answers_def intro!: list_all2_appendI)
      have "list_all2 kept ((pre @ [s\<lparr>actors := as\<rparr>]) @ post) ss"
        by (rule 2(3) [OF _ Inr run]) (use True 2(5) seats in simp_all)
      with one show ?thesis by (rule all_kept_trans)
    qed
  qed
qed simp

lemma kept_bind:
  assumes "list_all step_ok (rm_steps room)" and "bind_side_actors env room = Inr room'"
  shows "list_all2 kept (rm_steps room) (rm_steps room') \<and> rm_rows room' = rm_rows room"
proof -
  obtain ss bound where run: "bind_sides env (rm_rows room) [] (rm_steps room) = Inr (ss, bound)"
    and room': "room' = (if bound then room\<lparr>rm_steps := bind_members ss (members_by_team (re_seats env))\<rparr> else room)"
    using assms(2) by (cases "bind_sides env (rm_rows room) [] (rm_steps room)") (auto simp: bind_side_actors_def)
  have "list_all (\<lambda>s. is_unbound s \<longrightarrow> member_seats s = []) (rm_steps room)"
    using assms(1) unbound_no_seats by (auto simp: list_all_iff is_unbound_def)
  then have "list_all2 kept (rm_steps room) ss" using kept_bind_sides [OF run] by simp
  then show ?thesis using kept_bind_from all_kept_trans by (auto simp: room' bind_members_def)
qed

text \<open>So a binding never opens a step that rests, and the timed step keeps waiting or not.\<close>

lemma open_steps_bind:
  assumes "list_all2 kept (rm_steps room) (rm_steps room')" and "rm_rows room' = rm_rows room"
  shows "open_steps room' \<le> open_steps room" and "waits room' timed \<le> waits room timed"
proof -
  have "list_all2 (\<lambda>s s'. \<not> rests (rm_rows room) s' \<longrightarrow> \<not> rests (rm_rows room) s) (rm_steps room) (rm_steps room')"
    using assms(1) by (rule list_all2_mono) (auto simp: kept_def rests_def)
  then show "open_steps room' \<le> open_steps room" using assms(2) by (simp add: open_steps_def length_filter_pairs)
  have "\<exists>s' \<in> set (rm_steps room'). s' = s" if "s \<in> set (rm_steps room)" "answers s \<noteq> []" for s
    using that assms(1) by (metis in_set_conv_nth kept_def list_all2_conv_all_nth)
  then show "waits room' timed \<le> waits room timed" using assms(2) by (fastforce simp: waits_def)
qed

section \<open>The loop comes to rest\<close>

lemma step_of_index: "map index ss = map int [0..<length ss] \<Longrightarrow> s \<in> set ss \<Longrightarrow> t \<in> set ss \<Longrightarrow> index s = index t \<Longrightarrow> s = t"
proof -
  assume a: "map index ss = map int [0..<length ss]" and st: "s \<in> set ss" "t \<in> set ss" "index s = index t"
  have "distinct (map index ss)" unfolding a by (simp add: distinct_map)
  then show "s = t" using st by (auto simp: distinct_map inj_on_def)
qed

text \<open>The rows the stand-ins write are the owed answers, all locked.\<close>

lemma stand_in_writes:
  "stand_in env n k s joint room ams = Inr room' \<Longrightarrow>
    \<exists>vs. length vs = length ams \<and> rm_steps room' = rm_steps room \<and>
      rm_rows room' = foldl (\<lambda>l (am, v). write_answer s am v l) (rm_rows room)
        (zip (map (\<lambda>(a, m). (Some a, m)) ams) (map (Pair Locked) vs))"
proof (induction env n k s joint room ams rule: stand_in.induct)
  case (2 env n k s joint room a m ams)
  obtain ds where run: "stand_in env n (Suc k) s joint (project (room\<lparr>rm_rows := write_row s (Some a) m ds Locked (rm_rows room)\<rparr>)) ams = Inr room'"
    using 2(2) by (auto simp: sum_bind_Inr)
  obtain vs where vs: "length vs = length ams" "rm_steps room' = rm_steps room"
    "rm_rows room' = foldl (\<lambda>l (am, v). write_answer s am v l) (write_row s (Some a) m ds Locked (rm_rows room))
        (zip (map (\<lambda>(a, m). (Some a, m)) ams) (map (Pair Locked) vs))"
    using 2(1) [OF run] by auto
  show ?case by (rule exI [of _ "ds # vs"]) (simp add: vs write_answer_def)
qed simp

lemma owing_answers:
  assumes "(a, m) \<in> set (answers s)" and "\<not> answered_in {Locked, Revealed} rows s (a, m)" and "a \<noteq> None"
  shows "(a, m) \<in> (\<lambda>(a, m). (Some a, m)) ` set (owing s rows)"
  using assms by (force simp: owing_def set_map_filter_iff image_iff)

lemma expire_ready:
  assumes "expire env n s room = Inr room'" and "step_ok s" and "\<not> is_system s"
  shows "rm_steps room' = rm_steps room \<and> ready_to_reveal s (rm_rows room') \<and>
    (\<forall>t. rests (rm_rows room) t \<longrightarrow> index t \<noteq> index s \<longrightarrow> rests (rm_rows room') t)"
proof -
  obtain joint where "stand_in env n 1 s joint room (owing s (rm_rows room)) = Inr room'"
    using assms(1) unfolding expire_def Let_def sum_bind_Inr by auto
  then obtain vs where vs: "length vs = length (owing s (rm_rows room))" "rm_steps room' = rm_steps room"
    and rows: "rm_rows room' = foldl (\<lambda>l (am, v). write_answer s am v l) (rm_rows room)
        (zip (map (\<lambda>(a, m). (Some a, m)) (owing s (rm_rows room))) (map (Pair Locked) vs))"
    using stand_in_writes by blast
  let ?avs = "zip (map (\<lambda>(a, m). (Some a, m)) (owing s (rm_rows room))) (map (Pair Locked) vs)"
  have keys: "fst ` set ?avs = (\<lambda>(a, m). (Some a, m)) ` set (owing s (rm_rows room))"
    using vs(1) by (metis (no_types, lifting) length_map list.set_map map_fst_zip)
  have vals: "\<forall>(a, v) \<in> set ?avs. fst v = Locked" by (auto dest: set_zip_rightD)
  have "answered_in {Locked, Revealed} (rm_rows room') s am" if am: "am \<in> set (answers s)" for am
  proof -
    have "fst am \<noteq> None" using am assms(2,3) by (cases "fst am") (auto simp: answers_def step_ok_def is_system_def split: if_splits)
    then have "am \<in> fst ` set ?avs \<or> (\<exists>v. read_answer (rm_rows room) (index s) am = Some v \<and> fst v \<in> {Locked, Revealed})"
      using owing_answers [of "fst am" "snd am" s "rm_rows room"] am unfolding keys answered_read [symmetric] by auto
    then show ?thesis unfolding answered_read rows
      by (intro the_log.answered_after_all) (use vals in \<open>auto split: prod.splits\<close>)
  qed
  moreover have "rests (rm_rows room') t" if "rests (rm_rows room) t" "index t \<noteq> index s" for t
  proof -
    have "read_answer (rm_rows room') (index t) am = read_answer (rm_rows room) (index t) am" for am
      unfolding rows using that(2) vals by (subst the_log.read_after_all) (auto split: prod.splits)
    then show ?thesis using that(1) rests_cong by blast
  qed
  ultimately show ?thesis using vs(2) by (simp add: ready_to_reveal_def list_all_iff)
qed

lemma project_counts [simp]: "open_steps (project room) = open_steps room" "waits (project room) timed = waits room timed"
  by (simp_all add: open_steps_def waits_def)

text \<open>A pass that goes on settles a step or answers the timed one.\<close>

lemma open_steps_reveal:
  assumes "core_ok room" and "current_step (rm_steps room) (rm_rows room) = Some s" and "\<not> is_unbound s" and "ready_to_reveal s (rm_rows room)"
  shows "open_steps ((project room)\<lparr>rm_rows := reveal s (rm_rows room)\<rparr>) < open_steps room"
    and "waits ((project room)\<lparr>rm_rows := reveal s (rm_rows room)\<rparr>) timed \<le> waits room timed"
proof -
  have ok: "list_all step_ok (rm_steps room)" using assms(1) by (simp add: core_ok_def steps_ok_def)
  note cursor = cursor_open [OF assms(2) ok]
  have reads: "rm_rows ((project room)\<lparr>rm_rows := reveal s (rm_rows room)\<rparr>) = reveal s (rm_rows room)"
    "rm_steps ((project room)\<lparr>rm_rows := reveal s (rm_rows room)\<rparr>) = rm_steps room" by simp_all
  show "open_steps ((project room)\<lparr>rm_rows := reveal s (rm_rows room)\<rparr>) < open_steps room"
    unfolding open_steps_def reads
    by (rule length_filter_drops [of _ _ _ s])
      (use rests_reveal reveal_rests [OF cursor(2) [OF assms(3)] assms(4)] cursor(1) cursor_in(1) [OF assms(2)] in auto)
  show "waits ((project room)\<lparr>rm_rows := reveal s (rm_rows room)\<rparr>) timed \<le> waits room timed"
    using ready_reveal by (fastforce simp: waits_def)
qed

lemma system_team_step:
  assumes "step_ok s" and "is_system s" and "answers s \<noteq> []"
  shows "member s = None"
proof (rule ccontr)
  assume m: "member s \<noteq> None"
  have "acting_actors s = []" using assms(2) by (simp add: is_system_def acting_actors_def map_filter_simps)
  then have "member_seats s = []" using assms(1) by (simp add: step_ok_def seats_of_acting_def)
  then show False using m assms(3) by (simp add: answers_def)
qed

lemma settle_pass_progress:
  assumes "env_ok env" and ok: "core_ok room" and "settle_pass env n timed room = Inr (True, room')"
  shows "open_steps room' + waits room' timed < open_steps room + waits room timed"
proof -
  have steps: "list_all step_ok (rm_steps room)" "map index (rm_steps room) = map int [0..<length (rm_steps room)]"
    using ok by (simp_all add: core_ok_def steps_ok_def)
  show ?thesis using assms(3)
  proof (cases rule: settle_pass_cases)
    case (system s ds)
    have s: "s \<in> set (rm_steps room)" "step_ok s" using cursor_in(1) [OF system(1)] steps(1) by (auto simp: list_all_iff)
    have "member s = None" using system_team_step [OF s(2) system(4)] cursor_open(2) [OF system(1) steps(1) system(3)] by simp
    then have "rests (rm_rows room') s" using system(4,5)
      by (simp add: rests_def answers_def is_system_def answered_read read_write_row)
    moreover have reads: "rm_rows room' = write_row s None None ds Revealed (rm_rows room)" "rm_steps room' = rm_steps room"
      using system(5) by simp_all
    ultimately have "open_steps room' < open_steps room"
      unfolding open_steps_def reads
      by (intro length_filter_drops [of _ _ _ s]) (use cursor_open(1) [OF system(1) steps(1)] s(1) rests_write_revealed in auto)
    moreover have "waits room' timed \<le> waits room timed" using system(5) ready_write by (fastforce simp: waits_def)
    ultimately show ?thesis by simp
  next
    case (shown s)
    then show ?thesis using open_steps_reveal(1) [OF ok shown(1,3,4)] open_steps_reveal(2) [OF ok shown(1,3,4), of timed] by simp
  next
    case (bound s)
    let ?shown = "(project room)\<lparr>rm_rows := reveal s (rm_rows room)\<rparr>"
    note same = core_side_pick [of env s ?shown]
    have "list_all step_ok (rm_steps (settle_side_pick env s ?shown))" using same steps(1) by simp
    from kept_bind [OF this bound(5)] have "open_steps room' \<le> open_steps (settle_side_pick env s ?shown)"
      "waits room' timed \<le> waits (settle_side_pick env s ?shown) timed" using open_steps_bind by auto
    moreover have "open_steps (settle_side_pick env s ?shown) = open_steps ?shown" "waits (settle_side_pick env s ?shown) timed = waits ?shown timed"
      using same by (simp_all add: open_steps_def waits_def)
    ultimately show ?thesis using open_steps_reveal(1) [OF ok bound(1,3,4)] open_steps_reveal(2) [OF ok bound(1,3,4), of timed] by simp
  next
    case (due s)
    have s: "s \<in> set (rm_steps room)" "step_ok s" using cursor_in(1) [OF due(1)] steps(1) by (auto simp: list_all_iff)
    note after = expire_ready [OF due(7) s(2) due(4)]
    have "\<not> (\<exists>t \<in> set (rm_steps room). Some (index t) = timed \<and> answers t \<noteq> [] \<and> ready_to_reveal t (rm_rows room))"
      using step_of_index [OF steps(2) s(1)] due(5,6) by fastforce
    then have "waits room timed = 1" unfolding waits_def by (rule if_not_P)
    moreover have "waits room' timed = 0" using after s(1) due(6) cursor_open(2) [OF due(1) steps(1) due(3)] by (auto simp: waits_def)
    moreover have "open_steps room' \<le> open_steps room"
    proof -
      have "rests (rm_rows room') t" if "t \<in> set (rm_steps room)" "rests (rm_rows room) t" for t
        using that after step_of_index [OF steps(2) s(1) that(1)] cursor_open(1) [OF due(1) steps(1)] by auto
      then show ?thesis using after unfolding open_steps_def by (auto intro!: length_filter_pairs simp: list_all2_same)
    qed
    ultimately show ?thesis by simp
  qed simp_all
qed

text \<open>The passes granted are enough: the loop ends by a pass that has nothing left to do.\<close>

definition at_end :: "room_env \<Rightarrow> int option \<Rightarrow> room \<Rightarrow> bool" where
  "at_end env timed room \<longleftrightarrow> (\<forall>s. current_step (rm_steps room) (rm_rows room) = Some s \<longrightarrow> is_unbound s \<or>
     \<not> is_system s \<and> \<not> ready_to_reveal s (rm_rows room) \<and> \<not> (Some (index s) = timed \<and> on_timeout s \<noteq> Wait \<and> expired env room s))"

lemma expired_project [simp]: "expired env (project room) s = expired env room s"
  by (simp add: expired_def step_deadline_def split: option.splits)

lemma settle_loop_ends:
  assumes "env_ok env"
  shows "settle_loop env n timed room changed = Inr (changed', room') \<Longrightarrow> core_ok room \<Longrightarrow>
    open_steps room + waits room timed < n \<Longrightarrow> at_end env timed room'"
proof (induction n arbitrary: room changed)
  case (Suc n)
  obtain again mid where pass: "settle_pass env n timed room = Inr (again, mid)"
    using Suc.prems(1) by (cases "settle_pass env n timed room") auto
  show ?case
  proof (cases again)
    case True
    then have run: "settle_loop env n timed mid True = Inr (changed', room')" using Suc.prems(1) pass by simp
    have "open_steps mid + waits mid timed < n" using settle_pass_progress [OF assms Suc.prems(2)] pass True Suc.prems(3) by fastforce
    then show ?thesis using Suc.IH [OF run] core_settle_pass [OF assms Suc.prems(2) pass] by simp
  next
    case False
    then have "room' = mid" using Suc.prems(1) pass by simp
    with pass show ?thesis using False
      by (cases rule: settle_pass_cases) (simp_all add: at_end_def)
  qed
qed simp

lemma open_steps_le: "open_steps room \<le> length (rm_steps room)" and waits_le: "waits room timed \<le> 1"
  by (simp_all add: open_steps_def waits_def)

definition timers_run :: "room \<Rightarrow> bool" where
  "timers_run room \<longleftrightarrow> (\<forall>s \<in> set (rm_steps room). \<forall>t. timer_seconds s = Some t \<longrightarrow> 0 < t)"

lemma timers_kept: "list_all2 kept ss ts \<Longrightarrow> map timer_seconds ts = map timer_seconds ss"
  by (induction rule: list_all2_induct) (simp_all add: kept_def)

lemma stand_in_steps: "expire env n s room = Inr room' \<Longrightarrow> rm_steps room' = rm_steps room"
  unfolding expire_def Let_def sum_bind_Inr by (auto dest!: stand_in_writes)

lemma settle_pass_timers:
  assumes "core_ok room" and "settle_pass env n timed room = Inr (again, room')"
  shows "map timer_seconds (rm_steps room') = map timer_seconds (rm_steps room)"
  using assms(2)
proof (cases rule: settle_pass_cases)
  case (bound s)
  let ?shown = "(project room)\<lparr>rm_rows := reveal s (rm_rows room)\<rparr>"
  note same = core_side_pick [of env s ?shown]
  have "list_all step_ok (rm_steps (settle_side_pick env s ?shown))" using same assms(1) by (simp add: core_ok_def steps_ok_def)
  from kept_bind [OF this bound(5)] show ?thesis using timers_kept same by simp
next
  case (due s)
  then show ?thesis using stand_in_steps [OF due(7)] by simp
qed simp_all

lemma settle_loop_timers:
  assumes "env_ok env"
  shows "settle_loop env n timed room changed = Inr (changed', room') \<Longrightarrow> core_ok room \<Longrightarrow>
    map timer_seconds (rm_steps room') = map timer_seconds (rm_steps room)"
proof (induction n arbitrary: room changed)
  case (Suc n)
  obtain again mid where pass: "settle_pass env n timed room = Inr (again, mid)"
    using Suc.prems(1) by (cases "settle_pass env n timed room") auto
  note mid = settle_pass_timers [OF Suc.prems(2) pass]
  show ?case
  proof (cases again)
    case True
    then have "settle_loop env n timed mid True = Inr (changed', room')" using Suc.prems(1) pass by simp
    from Suc.IH [OF this] show ?thesis using mid core_settle_pass [OF assms Suc.prems(2) pass] by simp
  qed (use Suc.prems(1) pass mid in simp)
qed simp

lemma timers_run_map: "timers_run room \<longleftrightarrow> (\<forall>t. Some t \<in> set (map timer_seconds (rm_steps room)) \<longrightarrow> 0 < t)"
  by (force simp: timers_run_def)

text \<open>A clock that has just been started is not over.\<close>

lemma finish_clock:
  assumes "timed_index end_room \<noteq> timed" and "\<forall>t. timer_seconds s = Some t \<longrightarrow> 0 < t"
  shows "\<not> expired env (snd (finish env timed (c, end_room))) s"
  using assms by (auto simp: finish_def Let_def timed_index_def expired_def step_deadline_def step_clock_def split: option.splits)

lemma finish_started:
  assumes "timed_index end_room = timed"
  shows "expired env (snd (finish env timed (c, end_room))) s = expired env end_room s"
  using assms by (simp add: finish_def Let_def timed_index_def expired_def step_deadline_def split: option.splits)

text \<open>C5: Settling leaves nothing that the scheduler would have to do: whatever a settled room was - steps to
  reveal, coins to flip, timed-out seats to stand in for - the passes granted to the loop are enough
  to work it all off, the clock of the step it stops at has been restarted, and the sweep calls the
  room pending exactly when its cursor waits for a side nobody has been given.\<close>

theorem settled_room_owes_nothing:
  assumes "env_ok env" and "room_ok room" and "rm_status room \<noteq> Cancelled"
    and timers: "\<forall>s \<in> set (rm_steps room). \<forall>t. timer_seconds s = Some t \<longrightarrow> 0 < t"
    and run: "settle env room = Inr (changed, room')"
  shows "session_pending env room' \<longleftrightarrow>
    (\<exists>s. current_step (rm_steps room') (rm_rows room') = Some s \<and> is_unbound s)"
  using run
proof (cases rule: settle_cases)
  case cancelled
  then show ?thesis using assms(3) by simp
next
  case (ran mid c end_room)
  have core: "core_ok room" using assms(2) by (simp add: room_ok_def)
  have mid: "core_ok mid" using core_bind [OF assms(1) core ran(2)] by simp
  have fin: "core_ok end_room" "rm_status end_room = rm_status mid" using core_settle_loop [OF assms(1) ran(3) mid] by simp_all
  have "open_steps mid + waits mid (timed_index mid) < length (rm_steps mid) + 2" using open_steps_le [of mid] waits_le [of mid "timed_index mid"] by simp
  then have stop: "at_end env (timed_index mid) end_room" by (rule settle_loop_ends [OF assms(1) ran(3) mid])
  have "timers_run room" using timers by (simp add: timers_run_def)
  moreover have "map timer_seconds (rm_steps mid) = map timer_seconds (rm_steps room)"
    using kept_bind [OF _ ran(2)] core timers_kept by (simp add: core_ok_def steps_ok_def)
  ultimately have run_timers: "timers_run end_room" using settle_loop_timers [OF assms(1) ran(3) mid] by (simp add: timers_run_map)
  have reads: "rm_steps room' = rm_steps end_room" "rm_rows room' = rm_rows end_room" by (simp_all add: ran(4) finish_reads)
  have "rm_status end_room \<noteq> Cancelled" using fin(2) bind_status [OF ran(2)] ran(1) by simp
  then have status: "rm_status room' = (if current_step (rm_steps room') (rm_rows room') = None then Completed else Active)"
    unfolding reads unfolding ran(4) by (simp add: finish_status)
  show ?thesis
  proof (cases "current_step (rm_steps room') (rm_rows room')")
    case None
    then show ?thesis using status by (simp add: session_pending_def)
  next
    case (Some s)
    have at: "current_step (rm_steps end_room) (rm_rows end_room) = Some s" using Some reads by simp
    have s: "s \<in> set (rm_steps end_room)" "step_ok s" using cursor_in(1) [OF at] fin(1) by (auto simp: core_ok_def steps_ok_def list_all_iff)
    show ?thesis
    proof (cases "is_unbound s")
      case True
      then have "ready_to_reveal s (rm_rows room')" using unbound_answers [OF s(2)] by (simp add: ready_to_reveal_def)
      then show ?thesis using Some True status by (simp add: session_pending_def)
    next
      case False
      have idle: "\<not> is_system s" "\<not> ready_to_reveal s (rm_rows room')" and
        clock: "\<not> (Some (index s) = timed_index mid \<and> on_timeout s \<noteq> Wait \<and> expired env end_room s)"
        using stop at False reads(2) by (auto simp: at_end_def)
      have "\<not> (on_timeout s \<noteq> Wait \<and> expired env room' s)"
      proof (cases "timed_index end_room = timed_index mid")
        case True
        then have "Some (index s) = timed_index mid" using at by (simp add: timed_index_def)
        then show ?thesis using clock finish_started [OF True] by (simp add: ran(4))
      next
        case False
        have "\<forall>t. timer_seconds s = Some t \<longrightarrow> 0 < t" using run_timers s(1) by (simp add: timers_run_def)
        then show ?thesis using finish_clock [OF False] by (simp add: ran(4))
      qed
      then show ?thesis using Some False idle status by (simp add: session_pending_def)
    qed
  qed
qed

text \<open>Two bans in turn, the first one over time: the stand-in plays it and the second clock runs.\<close>

definition late_ban :: room where
  "late_ban = \<lparr>rm_status = Active,
     rm_steps = map (\<lambda>i. (ban_step i False [Some (i + 1)])\<lparr>cnt := 1, timer_seconds := Some 30, on_timeout := Random_Fill\<rparr>) [0, 1],
     rm_rows = [], rm_board = map (\<lambda>i. open_entry i None) [10, 11], rm_started = Some 0, rm_paused = None,
     rm_undo_by = None, rm_undo_index = None, rm_sides = []\<rparr>"

definition played_ban :: room where
  "played_ban = (case settle (two_seats {}) late_ban of Inr (_, room) \<Rightarrow> room | Inl _ \<Rightarrow> late_ban)"

lemma late_ban_played:
  "settle (two_seats {}) late_ban = Inr (True, played_ban)"
  "session_pending (two_seats {}) late_ban"
  "current_step (rm_steps played_ban) (rm_rows played_ban) = Some (rm_steps late_ban ! 1)"
  "rm_started played_ban = Some 100"
  by code_simp+

lemma late_ban_ok: "room_ok late_ban"
  by (simp add: room_ok_def core_ok_def steps_ok_def step_ok_def late_ban_def ban_step_def seats_of_acting_def log_ok_def rows_in_def)

theorem settled_room_owes_nothing_witness:
  "session_pending (two_seats {}) late_ban \<and> settle (two_seats {}) late_ban = Inr (True, played_ban) \<and>
   \<not> session_pending (two_seats {}) played_ban \<and> length (rm_rows played_ban) = 1"
proof -
  have "env_ok (two_seats {})" "rm_status late_ban \<noteq> Cancelled" "\<forall>s \<in> set (rm_steps late_ban). \<forall>t. timer_seconds s = Some t \<longrightarrow> 0 < t"
    by (simp_all add: env_ok_def two_seats_def late_ban_def)
  moreover have "\<not> is_unbound (rm_steps late_ban ! 1)" "length (rm_rows played_ban) = 1" by code_simp+
  ultimately show ?thesis
    using settled_room_owes_nothing [of "two_seats {}" late_ban True played_ban] late_ban_ok late_ban_played by simp
qed

section \<open>Locked answers\<close>

text \<open>Every answer that was locked or revealed still is, with the same items.\<close>

definition keeps_locks :: "submission list \<Rightarrow> submission list \<Rightarrow> bool" where
  "keeps_locks rows rows' \<longleftrightarrow> (\<forall>i a m st ds. read_answer rows i (Some a, m) = Some (st, ds) \<longrightarrow> st \<in> {Locked, Revealed} \<longrightarrow>
     (\<exists>st' \<in> {Locked, Revealed}. read_answer rows' i (Some a, m) = Some (st', ds)))"

lemma keeps_locks_refl [simp]: "keeps_locks rows rows"
  by (auto simp: keeps_locks_def)

lemma keeps_locksD:
  "keeps_locks rows rows' \<Longrightarrow> read_answer rows i (Some a, m) = Some (st, ds) \<Longrightarrow> st \<in> {Locked, Revealed} \<Longrightarrow>
    \<exists>st' \<in> {Locked, Revealed}. read_answer rows' i (Some a, m) = Some (st', ds)"
  unfolding keeps_locks_def by iprover

lemma keeps_locks_trans: "keeps_locks a b \<Longrightarrow> keeps_locks b c \<Longrightarrow> keeps_locks a c"
  unfolding keeps_locks_def by meson

lemma keeps_reveal: "keeps_locks rows (reveal s rows)"
  by (auto simp: keeps_locks_def read_reveal shown_def)

lemma keeps_system: "keeps_locks rows (write_row s None None ds Revealed rows)"
  by (auto simp: keeps_locks_def read_write_row)

lemma keeps_write:
  assumes "st \<noteq> Voided" and "\<not> answered_in {Locked, Revealed} rows s (a, m)"
  shows "keeps_locks rows (write_row s a m ds st rows)"
  using assms by (auto simp: keeps_locks_def read_write_row answered_read)

lemma keeps_expire:
  assumes "expire env n s room = Inr room'"
  shows "keeps_locks (rm_rows room) (rm_rows room')"
proof -
  obtain joint where "stand_in env n 1 s joint room (owing s (rm_rows room)) = Inr room'"
    using assms unfolding expire_def Let_def sum_bind_Inr by auto
  then obtain vs where vs: "length vs = length (owing s (rm_rows room))"
    and rows: "rm_rows room' = foldl (\<lambda>l (am, v). write_answer s am v l) (rm_rows room)
        (zip (map (\<lambda>(a, m). (Some a, m)) (owing s (rm_rows room))) (map (Pair Locked) vs))"
    using stand_in_writes by blast
  let ?avs = "zip (map (\<lambda>(a, m). (Some a, m)) (owing s (rm_rows room))) (map (Pair Locked) vs)"
  have keys: "fst ` set ?avs = (\<lambda>(a, m). (Some a, m)) ` set (owing s (rm_rows room))"
    using vs(1) by (metis (no_types, lifting) length_map list.set_map map_fst_zip)
  have vals: "\<forall>(a, v) \<in> set ?avs. fst v \<noteq> Voided" by (auto dest: set_zip_rightD)
  have open_keys: "\<not> answered_in {Locked, Revealed} (rm_rows room) s am" if "am \<in> fst ` set ?avs" for am
    using that unfolding keys by (auto simp: owing_def set_map_filter_iff split: option.splits if_splits)
  show ?thesis
    unfolding keeps_locks_def rows
    by (intro allI impI, subst the_log.read_after_all [OF vals]) (use open_keys in \<open>fastforce simp: answered_read\<close>)
qed

lemma keeps_pass:
  assumes "settle_pass env n timed room = Inr (again, room')"
  shows "keeps_locks (rm_rows room) (rm_rows room')"
  using assms
proof (cases rule: settle_pass_cases)
  case (system s ds)
  then show ?thesis using keeps_system by simp
next
  case (shown s)
  then show ?thesis using keeps_reveal by simp
next
  case (bound s)
  let ?shown = "(project room)\<lparr>rm_rows := reveal s (rm_rows room)\<rparr>"
  have "rm_rows room' = rm_rows (settle_side_pick env s ?shown)" using bound(5) by (auto simp: bind_side_actors_def map_sum_Inr)
  then show ?thesis using keeps_reveal core_side_pick [of env s ?shown] by simp
next
  case (due s)
  then show ?thesis using keeps_expire [OF due(7)] by simp
qed simp_all

lemma keeps_loop: "settle_loop env n timed room changed = Inr (changed', room') \<Longrightarrow> keeps_locks (rm_rows room) (rm_rows room')"
proof (induction n arbitrary: room changed)
  case (Suc n)
  obtain again mid where pass: "settle_pass env n timed room = Inr (again, mid)"
    using Suc.prems(1) by (cases "settle_pass env n timed room") auto
  show ?case
  proof (cases again)
    case True
    then have "settle_loop env n timed mid True = Inr (changed', room')" using Suc.prems(1) pass by simp
    from Suc.IH [OF this] show ?thesis using keeps_pass [OF pass] keeps_locks_trans by blast
  qed (use Suc.prems(1) pass keeps_pass [OF pass] in simp)
qed simp

lemma keeps_settle:
  assumes "settle env room = Inr (changed, room')"
  shows "keeps_locks (rm_rows room) (rm_rows room')"
  using assms
proof (cases rule: settle_cases)
  case (ran mid c end_room)
  have "rm_rows mid = rm_rows room" using ran(2) by (auto simp: bind_side_actors_def map_sum_Inr)
  then show ?thesis using keeps_loop [OF ran(3)] by (simp add: ran(4) finish_reads)
qed simp_all

lemma keeps_commit: "commit env room = Inr room' \<Longrightarrow> keeps_locks (rm_rows room) (rm_rows room')"
  by (auto simp: commit_def map_sum_Inr raised_Inr intro: keeps_settle)

lemma require_turn_Inr: "require_turn room s a m = Inr u \<Longrightarrow> \<not> answered_in {Locked, Revealed} (rm_rows room) s (Some a, m)"
  by (auto simp: require_turn_def split: if_splits)

lemma bind_free_pick_rows: "bind_free_pick env room s a m = Inr (room', s') \<Longrightarrow> rm_rows room' = rm_rows room"
  by (auto simp: bind_free_pick_def Let_def sum_bind_Inr split: option.splits if_splits)

lemma keeps_action:
  assumes "perform_action env q room = Inr room'"
  shows "keeps_locks (rm_rows room) (rm_rows room')"
proof -
  obtain room1 s room2 s2 u ds st where first: "commit env room = Inr room1"
    and bind: "bind_free_pick env room1 s (aq_team q) (aq_member q) = Inr (room2, s2)"
    and turn: "require_turn room2 s2 (aq_team q) (aq_member q) = Inr u"
    and last: "commit env (clear_undo_request (room2\<lparr>rm_rows := write_row s2 (Some (aq_team q)) (aq_member q) ds st (rm_rows room2)\<rparr>)) = Inr room'"
    and st: "st \<noteq> Voided"
    using assms unfolding perform_action_def request_steps lock_room_Inr
    by - (elim exE conjE; hypsubst; rule that; (assumption | rule locked_or_draft))
  have "keeps_locks (rm_rows room2) (rm_rows room')"
    using keeps_commit [OF last] keeps_write [OF st require_turn_Inr [OF turn]] keeps_locks_trans by (fastforce simp: clear_undo_request_def)
  then show ?thesis using keeps_commit [OF first] bind_free_pick_rows [OF bind] keeps_locks_trans by simp
qed

lemma keeps_submit:
  assumes "submit_items env q room = Inr room'"
  shows "keeps_locks (rm_rows room) (rm_rows room')"
proof -
  obtain room1 s u where first: "commit env room = Inr room1"
    and turn: "require_turn room1 s (sq_team q) None = Inr u"
    and last: "commit env (clear_undo_request (room1\<lparr>rm_rows := write_row s (Some (sq_team q)) None (sq_items q)
        (if sq_lock q then Locked else Draft) (rm_rows room1)\<rparr>)) = Inr room'"
    using assms unfolding submit_items_def request_steps lock_room_Inr
    by - (elim exE conjE; hypsubst; rule that; assumption)
  have "keeps_locks (rm_rows room1) (rm_rows room')"
    using keeps_commit [OF last] keeps_write [OF locked_or_draft require_turn_Inr [OF turn]] keeps_locks_trans
    by (fastforce simp: clear_undo_request_def)
  then show ?thesis using keeps_commit [OF first] keeps_locks_trans by blast
qed

text \<open>Playing on: everything but disputes, reopened steps and undo.\<close>

inductive playing_on :: "room \<Rightarrow> room \<Rightarrow> bool" where
  play_action: "perform_action env q room = Inr room' \<Longrightarrow> playing_on room room'"
| play_draft: "submit_items env d room = Inr room' \<Longrightarrow> playing_on room room'"
| play_tick: "settle env room = Inr (changed, room') \<Longrightarrow> playing_on room room'"
| play_pause: "set_paused env paused room = Inr room' \<Longrightarrow> playing_on room room'"
| play_extension: "extend_step_timer seconds room = Inr room' \<Longrightarrow> playing_on room room'"
| play_cancel: "cancel_session room = Inr room' \<Longrightarrow> playing_on room room'"

inductive_cases playing_onE: "playing_on room room'"

lemma playing_on_keeps: "playing_on room room' \<Longrightarrow> keeps_locks (rm_rows room) (rm_rows room')"
  by (erule playing_onE)
    (auto intro: keeps_action keeps_submit keeps_settle
      simp: set_paused_def extend_step_timer_def cancel_session_def load_active_def split: if_splits option.splits)

text \<open>C6: A seat that has locked an answer has played it: whatever is played after that - by either seat, by
  the clock standing in, by reveals, pauses or a cancellation, for as long as nobody disputes,
  reopens or takes back by agreement - the answer stays locked or becomes revealed, with the very
  items it was locked with.\<close>

theorem locked_answers_final:
  assumes "rtranclp playing_on room room'"
    and "actor_submission (rm_rows room) i (Some a) m = Some r" and "sb_state r \<in> {Locked, Revealed}"
  shows "\<exists>r'. actor_submission (rm_rows room') i (Some a) m = Some r' \<and> sb_state r' \<in> {Locked, Revealed} \<and> items_of r' = items_of r"
proof -
  have "keeps_locks (rm_rows room) (rm_rows room')"
    using assms(1)
  proof (induction rule: rtranclp_induct)
    case (step b c)
    show ?case by (rule keeps_locks_trans [OF step(3) playing_on_keeps [OF step(2)]])
  qed simp
  moreover have "read_answer (rm_rows room) i (Some a, m) = Some (sb_state r, items_of r)" using assms(2) by (simp add: read_answer_def)
  ultimately have "\<exists>st' \<in> {Locked, Revealed}. read_answer (rm_rows room') i (Some a, m) = Some (st', items_of r)"
    using assms(3) by (rule keeps_locksD)
  then show ?thesis by (auto simp: read_answer_def)
qed

section \<open>Taking back by agreement\<close>

lemma find_map: "find P (map f xs) = map_option f (find (P \<circ> f) xs)"
  by (induction xs) auto

lemma read_void:
  "actor_submission (void_where (\<lambda>r. sb_step r \<in> I \<and> live_at rows (sb_step r) r) rows) i a m =
    (if i \<in> I then None else actor_submission rows i a m)"
proof -
  let ?P = "\<lambda>r. sb_step r \<in> I \<and> live_at rows (sb_step r) r"
  let ?void = "\<lambda>r. if ?P r then r\<lparr>sb_state := Voided\<rparr> else r"
  have live: "live_row (void_where ?P rows) i a m (?void r) \<longleftrightarrow> i \<notin> I \<and> live_row rows i a m r" for r
    by (auto simp: live_row_def live_at_def)
  have "find (live_row (void_where ?P rows) i a m \<circ> ?void) rows = (if i \<in> I then None else find (live_row rows i a m) rows)"
    using live by (auto simp: o_def find_None_iff)
  moreover have "map_option ?void (find (live_row rows i a m) rows) = find (live_row rows i a m) rows" if "i \<notin> I"
  proof (cases "find (live_row rows i a m) rows")
    case (Some r)
    then have "sb_step r = i" using find_Some_first [OF Some] by (simp add: live_row_def)
    then show ?thesis using that Some by simp
  qed simp
  ultimately show ?thesis
    by (simp add: actor_submission_live void_where_def find_map)
qed

lemma read_undone:
  assumes "room_ok room"
  shows "actor_submission (rm_rows (clear_sides ps (apply_undo env tgt room))) i a m =
    (if tgt \<le> i then None else actor_submission (rm_rows room) i a m)"
proof -
  let ?I = "{i. tgt \<le> i \<and> i \<in> index ` set (rm_steps room)}"
  have rows: "rm_rows (clear_sides ps (apply_undo env tgt room)) =
      void_where (\<lambda>r. sb_step r \<in> ?I \<and> live_at (rm_rows room) (sb_step r) r) (rm_rows room)"
    unfolding undo_rows [symmetric] by (simp add: apply_undo_def Let_def clear_sides_def wake_def clear_undo_request_def)
  have "actor_submission (rm_rows room) i a m = None" if "i \<notin> index ` set (rm_steps room)"
  proof (rule ccontr)
    assume "actor_submission (rm_rows room) i a m \<noteq> None"
    then obtain r where "r \<in> set (rm_rows room)" "sb_step r = i"
      by (auto simp: actor_submission_live live_row_def dest: find_Some_first)
    then have "0 \<le> i \<and> i < int (length (rm_steps room))" using assms by (auto simp: room_ok_def core_ok_def rows_in_def)
    then have "i \<in> set (map int [0..<length (rm_steps room)])" by (auto simp: image_iff intro!: bexI [of _ "nat i"])
    also have "\<dots> = set (map index (rm_steps room))" using assms by (simp add: room_ok_def core_ok_def steps_ok_def)
    finally show False using that by simp
  qed
  then show ?thesis unfolding rows read_void by auto
qed

text \<open>C7: The log only goes back when both sides want it: an undo that changes the log was asked for by the
  other seat before, for exactly the step that is the last one with an answer now; it withdraws every
  live answer from that step on and not one before it, clears the request, sets a finished room
  running again and gives the reopened step a full clock.\<close>

theorem undo_takes_back_exactly:
  assumes "room_ok room" and "perform_undo env team consent room = Inr room'" and "rm_rows room' \<noteq> rm_rows room"
  shows "\<exists>tgt other. undo_target (rm_steps room) (rm_rows room) = Some tgt \<and> consent \<and>
    rm_undo_by room = Some other \<and> other \<noteq> team \<and> rm_undo_index room = Some tgt \<and>
    (\<forall>i a m. actor_submission (rm_rows room') i a m = (if tgt \<le> i then None else actor_submission (rm_rows room) i a m)) \<and>
    rm_undo_by room' = None \<and> rm_status room' = Active \<and> rm_started room' = Some (re_now env)"
  using assms(2)
proof (cases rule: perform_undo_cases)
  case (applied tgt other)
  have "rm_undo_by room' = None" "rm_status room' = Active" "rm_started room' = Some (re_now env)"
    using applied(3) by (cases "rm_status room"; simp add: applied(8) apply_undo_def Let_def clear_sides_def wake_def clear_undo_request_def)+
  then show ?thesis using applied read_undone [OF assms(1)] by blast
qed (use assms(3) in \<open>simp_all add: clear_undo_request_def\<close>)

text \<open>One ban has been played; the captain of the other seat has asked to take it back.\<close>

definition asked_back :: room where
  "asked_back = (case perform_undo (two_seats {}) 2 True played_ban of Inr room \<Rightarrow> room | Inl _ \<Rightarrow> late_ban)"

definition taken_back :: room where
  "taken_back = (case perform_undo (two_seats {}) 1 True asked_back of Inr room \<Rightarrow> room | Inl _ \<Rightarrow> late_ban)"

lemma played_ban_ok: "room_ok played_ban"
proof -
  have "env_ok (two_seats {})" by (simp add: env_ok_def two_seats_def)
  moreover have "rm_undo_by played_ban = None" "rm_undo_index played_ban = None" by code_simp+
  ultimately show ?thesis using settle_ok [OF _ _ late_ban_played(1)] late_ban_ok by (simp add: room_ok_def)
qed

lemma asked_and_taken:
  "perform_undo (two_seats {}) 2 True played_ban = Inr asked_back"
  "perform_undo (two_seats {}) 1 True asked_back = Inr taken_back"
  "map sb_state (rm_rows taken_back) = [Voided]" "map sb_state (rm_rows asked_back) = [Revealed]"
  by code_simp+

theorem undo_takes_back_exactly_witness:
  "perform_undo (two_seats {}) 1 True asked_back = Inr taken_back \<and> rm_rows taken_back \<noteq> rm_rows asked_back \<and>
   rm_undo_by asked_back = Some 2 \<and> actor_submission (rm_rows taken_back) 0 (Some 1) None = None"
proof -
  have changed: "rm_rows taken_back \<noteq> rm_rows asked_back" using asked_and_taken(3,4) by auto
  have "rm_undo_by asked_back = Some 2" "undo_target (rm_steps asked_back) (rm_rows asked_back) = Some 0" by code_simp+
  moreover have "room_ok asked_back" using perform_undo_ok [OF played_ban_ok asked_and_taken(1)] by blast
  ultimately show ?thesis
    using undo_takes_back_exactly [OF _ asked_and_taken(2) changed] asked_and_taken(2) changed by fastforce
qed

text \<open>The stand-in's ban stays on the log while the other seat plays.\<close>

definition second_ban :: room where
  "second_ban = (case perform_action (two_seats {}) (ban_by 2 11) played_ban of Inr room \<Rightarrow> room | Inl _ \<Rightarrow> late_ban)"

theorem locked_answers_final_witness:
  "perform_action (two_seats {}) (ban_by 2 11) played_ban = Inr second_ban \<and> length (rm_rows second_ban) = 2 \<and>
   (\<exists>r. actor_submission (rm_rows second_ban) 0 (Some 1) None = Some r \<and> map di_item (items_of r) = [10])"
proof -
  have ban: "perform_action (two_seats {}) (ban_by 2 11) played_ban = Inr second_ban" "length (rm_rows second_ban) = 2"
    and first: "actor_submission (rm_rows played_ban) 0 (Some 1) None = Some (hd (rm_rows played_ban))"
    "sb_state (hd (rm_rows played_ban)) = Revealed" "map di_item (items_of (hd (rm_rows played_ban))) = [10]" by code_simp+
  have "rtranclp playing_on played_ban second_ban" using play_action [OF ban(1)] by (rule r_into_rtranclp)
  from locked_answers_final [OF this first(1)] show ?thesis using ban first(2,3) by auto
qed

section \<open>The clock of a paused room\<close>

text \<open>A pause costs nobody time: while the room is paused no step can run out, and once it is resumed
  every step has exactly the time left that it had when the pause began.\<close>

theorem pause_keeps_the_time_left:
  assumes "rm_paused room = None" and "set_paused env True room = Inr paused" and "set_paused env' False paused = Inr resumed"
  shows "\<not> expired env'' paused s \<and>
    map_option (\<lambda>d. d - re_now env') (step_deadline resumed s) = map_option (\<lambda>d. d - re_now env) (step_deadline room s)"
  using assms by (auto simp: set_paused_def load_active_def expired_def step_deadline_def split: if_splits option.splits)

text \<open>A step that still waits for a side counts as fully revealed, because nobody owes it an answer: the
  dispute of the blind step that was really revealed last is refused.\<close>

definition waiting_for_a_side :: resolved_step where
  "waiting_for_a_side = (ban_step 2 False [])\<lparr>actors_token := Some ''side:attack''\<rparr>"

theorem unbound_step_hides_the_dispute:
  "is_unbound waiting_for_a_side \<and>
   dp_step_index (dispute_target [ban_step 0 True [Some 1, Some 2], side_step\<lparr>index := 1\<rparr>]
     [row 0 1 Revealed [7], row 0 2 Revealed [8]] (Some 1) {}) = Some 0 \<and>
   dp_step_index (dispute_target [ban_step 0 True [Some 1, Some 2], side_step\<lparr>index := 1\<rparr>, waiting_for_a_side]
     [row 0 1 Revealed [7], row 0 2 Revealed [8]] (Some 1) {}) = None"
  by code_simp

end
