(* ===== verification/Individual_Swiss.thy ===== *)
theory Individual_Swiss
  imports Complex_Main Random_Choice
begin

text \<open>
  The individual Swiss format (\<open>tournament-service/src/domain/individual_swiss\<close>): which pools of
  players make a round (\<open>pool.py\<close>), how a round's lobbies and teams are formed and paired
  (\<open>pairing.py\<close>), and the order of the personal table with its pins, the cut and the captains
  (\<open>table.py\<close>). A shape gives every role its seats per team, in the order of the mapping.

  \<open>PoolError\<close> keeps its code and loses its text; the errors Python itself raises on a shape or an
  order that do not fit are values too. Points and differences of the table are floats that are only
  negated and compared, so they are read as the rationals they stand for.
\<close>

section \<open>The pool\<close>

record swiss_player =
  pp_member :: int
  pp_registration :: "int option"
  pp_name :: string
  pp_role :: string
  pp_rank :: int

datatype pool_error =
    Role_Outside_Shape | Role_Count_Mismatch | Odd_Team_Count | Too_Few_Players | Playoff_Too_Large
  | Zero_Division | Key_Error | Empty_Minimum

type_synonym shape = "(string, nat) dict"

definition in_role :: "string \<Rightarrow> swiss_player list \<Rightarrow> swiss_player list" where
  "in_role role ps = filter (\<lambda>p. pp_role p = role) ps"

definition outside_shape :: "swiss_player list \<Rightarrow> shape \<Rightarrow> bool" where
  "outside_shape ps shape \<longleftrightarrow> list_ex (\<lambda>p. pp_role p \<notin> fst ` set shape) ps"

definition teams_per_round :: "swiss_player list \<Rightarrow> shape \<Rightarrow> pool_error + nat" where
  "teams_per_round ps shape =
    (if outside_shape ps shape then Inl Role_Outside_Shape
     else if list_ex (\<lambda>(role, n). n = 0) shape then Inl Zero_Division
     else let teams = map (\<lambda>(role, n). length (in_role role ps) div n) shape
       in if list_ex (\<lambda>(role, n). length (in_role role ps) mod n \<noteq> 0) shape \<or> length (dedup teams) \<noteq> 1 then Inl Role_Count_Mismatch
          else if odd (hd teams) then Inl Odd_Team_Count
          else if hd teams < 2 then Inl Too_Few_Players
          else Inr (hd teams))"

definition check_playoff_team_count :: "nat \<Rightarrow> nat \<Rightarrow> pool_error + unit" where
  "check_playoff_team_count k per_round = (if per_round < k then Inl Playoff_Too_Large else Inr ())"

section \<open>Lobbies by the table\<close>

fun traverse :: "('a \<Rightarrow> 'e + 'b) \<Rightarrow> 'a list \<Rightarrow> 'e + 'b list" where
  "traverse f [] = Inr []"
| "traverse f (x # xs) = (case f x of Inl e \<Rightarrow> Inl e | Inr y \<Rightarrow> map_sum id (Cons y) (traverse f xs))"

definition lobbies_of :: "(string, 'p list) dict \<Rightarrow> string \<times> nat \<Rightarrow> pool_error + nat" where
  "lobbies_of order = (\<lambda>(role, n). case map_of order role of
     None \<Rightarrow> Inl Key_Error
   | Some ps \<Rightarrow> if n = 0 then Inl Zero_Division else Inr (length ps div (2 * n)))"

definition lobby :: "(string, 'p list) dict \<Rightarrow> shape \<Rightarrow> nat \<Rightarrow> 'p list" where
  "lobby order shape i = concat (map (\<lambda>(role, n). take (2 * n) (drop (i * 2 * n) (dict_get order role []))) shape)"

definition score_lobbies :: "(string, 'p list) dict \<Rightarrow> shape \<Rightarrow> pool_error + 'p list list" where
  "score_lobbies order shape =
    (case traverse (lobbies_of order) shape of
       Inl e \<Rightarrow> Inl e
     | Inr [] \<Rightarrow> Inl Empty_Minimum
     | Inr ns \<Rightarrow> Inr (map (lobby order shape) [0..<Min (set ns)]))"

definition by_role :: "swiss_player list \<Rightarrow> shape \<Rightarrow> nat \<Rightarrow> pool_error + (string, swiss_player list) dict" where
  "by_role ps shape per_team =
    (if outside_shape ps shape \<or> list_ex (\<lambda>(role, n). length (in_role role ps) \<noteq> n * per_team) shape
     then Inl Role_Count_Mismatch
     else Inr (map (\<lambda>(role, n). (role, in_role role ps)) shape))"

section \<open>Splitting a lobby in two\<close>

text \<open>\<open>itertools.combinations\<close>; \<open>itertools.product\<close> is \<open>product_lists\<close> of the library.\<close>

fun combos :: "nat \<Rightarrow> 'a list \<Rightarrow> 'a list list" where
  "combos 0 xs = [[]]"
| "combos (Suc k) [] = []"
| "combos (Suc k) (x # xs) = map (Cons x) (combos k xs) @ combos (Suc k) xs"

text \<open>A pick gives, role by role, the positions team A takes.\<close>

definition pick_sum :: "swiss_player list list \<Rightarrow> nat list list \<Rightarrow> int" where
  "pick_sum groups pick = sum_list (map (\<lambda>(g, idx). sum_list (map (\<lambda>i. pp_rank (g ! i)) idx)) (zip groups pick))"

definition rank_sum :: "swiss_player list \<Rightarrow> int" where
  "rank_sum ps = sum_list (map pp_rank ps)"

definition gap_of :: "int \<Rightarrow> swiss_player list list \<Rightarrow> nat list list \<Rightarrow> int" where
  "gap_of all_ranks groups pick = \<bar>2 * pick_sum groups pick - all_ranks\<bar>"

definition keep_best :: "('p \<Rightarrow> int) \<Rightarrow> int option \<times> 'p list \<Rightarrow> 'p \<Rightarrow> int option \<times> 'p list" where
  "keep_best gap best pick =
    (case best of
       (None, _) \<Rightarrow> (Some (gap pick), [pick])
     | (Some g, picks) \<Rightarrow> if gap pick < g then (Some (gap pick), [pick])
         else if gap pick = g then (Some g, picks @ [pick]) else (Some g, picks))"

definition team_a :: "swiss_player list list \<Rightarrow> nat list list \<Rightarrow> swiss_player list" where
  "team_a groups pick = concat (map (\<lambda>(g, idx). map snd (filter (\<lambda>(i, p). i \<in> set idx) (enumerate 0 g))) (zip groups pick))"

definition team_b :: "swiss_player list list \<Rightarrow> nat list list \<Rightarrow> swiss_player list" where
  "team_b groups pick = concat (map (\<lambda>(g, idx). map snd (filter (\<lambda>(i, p). i \<notin> set idx) (enumerate 0 g))) (zip groups pick))"

definition split_two :: "swiss_player list \<Rightarrow> shape \<Rightarrow> rng \<Rightarrow> pool_error + swiss_player list \<times> swiss_player list" where
  "split_two ps shape rng =
    (case by_role ps shape 2 of
       Inl e \<Rightarrow> Inl e
     | Inr roles \<Rightarrow>
         (let groups = map snd roles;
              options = map (\<lambda>((role, n), g). combos n [0..<length g]) (zip shape groups);
              best = snd (foldl (keep_best (gap_of (rank_sum ps) groups)) (None, []) (product_lists options));
              chosen = choice rng 0 best
          in Inr (team_a groups chosen, team_b groups chosen)))"

section \<open>Splitting a pool into teams\<close>

definition deal :: "rng \<Rightarrow> nat \<Rightarrow> (string, swiss_player list) dict \<Rightarrow> shape \<Rightarrow> swiss_player list list" where
  "deal rng team_count roles shape =
    map (\<lambda>t. concat (map (\<lambda>(k, (role, n), (_, g)). take n (drop (t * n) (shuffle rng k g))) (enumerate 0 (zip shape roles)))) [0..<team_count]"

text \<open>The first swap of one player of each team that evens the totals out: the sum of the squared
  deviations changes by twice this value.\<close>

definition swap_gain :: "int \<Rightarrow> int \<Rightarrow> swiss_player \<Rightarrow> swiss_player \<Rightarrow> int" where
  "swap_gain ti tj a b = (let d = pp_rank b - pp_rank a in d * (ti - tj) + d * d)"

definition first_swap :: "swiss_player list \<Rightarrow> swiss_player list \<Rightarrow> int \<Rightarrow> int \<Rightarrow> (nat \<times> nat) option" where
  "first_swap team other ti tj =
    find (\<lambda>(x, y). pp_role (team ! x) = pp_role (other ! y) \<and> swap_gain ti tj (team ! x) (other ! y) < 0)
      (List.product [0..<length team] [0..<length other])"

text \<open>One pair of teams: whether a swap was made, and the teams and totals after it.\<close>

type_synonym split_state = "bool \<times> swiss_player list list \<times> int list"

definition try_pair :: "split_state \<Rightarrow> nat \<times> nat \<Rightarrow> split_state" where
  "try_pair s ij =
    (case (s, ij) of ((improved, teams, totals), (i, j)) \<Rightarrow>
      case first_swap (teams ! i) (teams ! j) (totals ! i) (totals ! j) of
        None \<Rightarrow> s
      | Some (x, y) \<Rightarrow>
          (let a = teams ! i ! x; b = teams ! j ! y; d = pp_rank b - pp_rank a
           in (True, teams[i := (teams ! i)[x := b], j := (teams ! j)[y := a]],
               totals[i := totals ! i + d, j := totals ! j - d])))"

definition team_pairs :: "nat \<Rightarrow> (nat \<times> nat) list" where
  "team_pairs n = concat (map (\<lambda>i. map (Pair i) [Suc i..<n]) [0..<n])"

definition split_pass :: "swiss_player list list \<Rightarrow> int list \<Rightarrow> split_state" where
  "split_pass teams totals = foldl try_pair (False, teams, totals) (team_pairs (length totals))"

text \<open>The sum of the squared totals, up to the fixed mean the spread of the teams, falls with every swap.\<close>

definition spread :: "int list \<Rightarrow> int" where
  "spread totals = sum_list (map (\<lambda>t. t * t) totals)"

lemma spread_update: "i < length ts \<Longrightarrow> spread (ts[i := v]) = spread ts - ts ! i * ts ! i + v * v"
proof (induction ts arbitrary: i)
  case (Cons t ts)
  then show ?case by (cases i) (auto simp: spread_def)
qed simp

lemma spread_nonneg: "0 \<le> spread ts"
  by (induction ts) (simp_all add: spread_def)

lemma spread_swap:
  assumes "i < length ts" and "j < length ts" and "i \<noteq> j"
  shows "spread (ts[i := ts ! i + d, j := ts ! j - d]) = spread ts + 2 * (d * (ts ! i - ts ! j) + d * d)"
proof -
  have "spread (ts[i := ts ! i + d, j := ts ! j - d]) = spread (ts[i := ts ! i + d]) - ts ! j * ts ! j + (ts ! j - d) * (ts ! j - d)"
    using assms by (subst spread_update) simp_all
  also have "\<dots> = spread ts - ts ! i * ts ! i + (ts ! i + d) * (ts ! i + d) - ts ! j * ts ! j + (ts ! j - d) * (ts ! j - d)"
    using assms by (simp add: spread_update)
  finally show ?thesis by (simp add: algebra_simps)
qed

lemma first_swap_gain:
  "first_swap team other ti tj = Some (x, y) \<Longrightarrow> x < length team \<and> y < length other \<and>
    pp_role (team ! x) = pp_role (other ! y) \<and> swap_gain ti tj (team ! x) (other ! y) < 0"
  by (auto simp: first_swap_def dest: find_SomeD)

lemma first_swap_None:
  "first_swap team other ti tj = None \<longleftrightarrow>
    (\<forall>a \<in> set team. \<forall>b \<in> set other. pp_role a = pp_role b \<longrightarrow> 0 \<le> swap_gain ti tj a b)"
proof -
  have "first_swap team other ti tj = None \<longleftrightarrow> (\<forall>x < length team. \<forall>y < length other.
      pp_role (team ! x) = pp_role (other ! y) \<longrightarrow> 0 \<le> swap_gain ti tj (team ! x) (other ! y))"
    unfolding first_swap_def find_None_iff by (auto simp: not_less) (meson not_less)+
  then show ?thesis by (simp only: all_set_conv_all_nth)
qed

lemma team_pairs_in: "(i, j) \<in> set (team_pairs n) \<longleftrightarrow> i < j \<and> j < n"
  by (auto simp: team_pairs_def image_iff)

lemma try_pair_spread:
  assumes "i < j" and "j < length totals" and "try_pair (improved, teams, totals) (i, j) = (improved', teams', totals')"
  shows "length totals' = length totals \<and> spread totals' \<le> spread totals \<and> (improved' \<longrightarrow> improved \<or> spread totals' < spread totals)"
proof (cases "first_swap (teams ! i) (teams ! j) (totals ! i) (totals ! j)")
  case None
  then show ?thesis using assms(3) by (simp add: try_pair_def)
next
  case (Some xy)
  obtain x y where xy: "xy = (x, y)" by fastforce
  define d where "d = pp_rank (teams ! j ! y) - pp_rank (teams ! i ! x)"
  have totals': "totals' = totals[i := totals ! i + d, j := totals ! j - d]"
    using assms(3) Some by (auto simp: try_pair_def xy Let_def d_def)
  have "d * (totals ! i - totals ! j) + d * d < 0"
    using first_swap_gain [OF Some [unfolded xy]] by (simp add: swap_gain_def Let_def d_def)
  then show ?thesis using assms(1,2) spread_swap [of i totals j d] by (simp add: totals')
qed

lemma split_pass_spread:
  assumes "split_pass teams totals = (improved, teams', totals')"
  shows "length totals' = length totals \<and> (improved \<longrightarrow> spread totals' < spread totals)"
proof -
  have "length ts' = length ts \<and> spread ts' \<le> spread ts \<and> (better' \<longrightarrow> better \<or> spread ts' < spread ts)"
    if "foldl try_pair (better, tms, ts) ps = (better', tms', ts')" "\<forall>(i, j) \<in> set ps. i < j \<and> j < length ts"
    for better tms ts ps better' tms' ts'
    using that
  proof (induction ps arbitrary: better tms ts)
    case (Cons p ps)
    obtain i j where p: "p = (i, j)" by fastforce
    obtain b t u where one: "try_pair (better, tms, ts) (i, j) = (b, t, u)" by (cases "try_pair (better, tms, ts) (i, j)") auto
    have step: "length u = length ts \<and> spread u \<le> spread ts \<and> (b \<longrightarrow> better \<or> spread u < spread ts)"
      using try_pair_spread [OF _ _ one] Cons.prems(2) p by auto
    have "length ts' = length u \<and> spread ts' \<le> spread u \<and> (better' \<longrightarrow> b \<or> spread ts' < spread u)"
      by (rule Cons.IH) (use Cons.prems one p step in auto)
    then show ?case using step by auto
  qed simp
  moreover have "\<forall>(i, j) \<in> set (team_pairs (length totals)). i < j \<and> j < length totals" by (auto simp: team_pairs_in)
  ultimately show ?thesis using assms [unfolded split_pass_def] by blast
qed

text \<open>The \<open>while improved\<close> loop. It ends on every input, because the spread is a natural number that
  every pass with a swap makes smaller.\<close>

function even_out :: "swiss_player list list \<Rightarrow> int list \<Rightarrow> swiss_player list list \<times> int list" where
  "even_out teams totals =
    (case split_pass teams totals of (improved, teams', totals') \<Rightarrow>
      if improved then even_out teams' totals' else (teams', totals'))"
  by pat_completeness auto

termination
proof (relation "measure (\<lambda>(teams, totals). nat (spread totals))", goal_cases)
  case (2 teams totals improved rest teams' totals')
  then have "split_pass teams totals = (improved, teams', totals')" improved by simp_all
  then have "spread totals' < spread totals" using split_pass_spread by blast
  then show ?case using spread_nonneg [of totals'] by simp
qed simp

declare even_out.simps [simp del]

definition split_pool :: "swiss_player list \<Rightarrow> shape \<Rightarrow> nat \<Rightarrow> rng \<Rightarrow> pool_error + swiss_player list list" where
  "split_pool ps shape team_count rng =
    map_sum id (\<lambda>roles. let teams = deal rng team_count roles shape in fst (even_out teams (map rank_sum teams)))
      (by_role ps shape team_count)"

section \<open>Pairing\<close>

fun pair_up :: "'a list \<Rightarrow> ('a \<times> 'a) list" where
  "pair_up (x # y # xs) = (x, y) # pair_up xs"
| "pair_up xs = []"

definition pair_randomly :: "'a list \<Rightarrow> rng \<Rightarrow> pool_error + ('a \<times> 'a) list" where
  "pair_randomly teams rng = (if odd (length teams) then Inl Odd_Team_Count else Inr (pair_up (shuffle rng 0 teams)))"

definition captain_key :: "swiss_player \<Rightarrow> int \<times> int" where
  "captain_key p = (- pp_rank p, pp_member p)"

definition round_captain :: "swiss_player list \<Rightarrow> pool_error + swiss_player" where
  "round_captain team = (case sort_key captain_key team of [] \<Rightarrow> Inl Empty_Minimum | p # _ \<Rightarrow> Inr p)"

section \<open>The personal table\<close>

record standing_line =
  sl_member :: int
  sl_role :: string
  sl_rank :: int
  sl_points :: rat
  sl_map_diff :: rat
  sl_buchholz :: rat

definition standing_key :: "standing_line \<Rightarrow> rat \<times> rat \<times> rat \<times> int \<times> int" where
  "standing_key x = (- sl_points x, - sl_map_diff x, - sl_buchholz x, - sl_rank x, sl_member x)"

text \<open>A pinned member takes its position, or the next free one, or the last free one.\<close>

definition free_slot :: "'a option list \<Rightarrow> nat \<Rightarrow> nat" where
  "free_slot slots lo =
    (let free = filter (\<lambda>i. slots ! i = None) [0..<length slots]
     in case find (\<lambda>i. lo \<le> i) free of Some i \<Rightarrow> i | None \<Rightarrow> last free)"

definition pin_at :: "int \<Rightarrow> nat \<Rightarrow> nat" where
  "pin_at pos n = nat (min (max pos 1) (int n) - 1)"

definition place_pin :: "int option list \<Rightarrow> int \<times> int \<Rightarrow> int option list" where
  "place_pin slots = (\<lambda>(pos, m). slots[free_slot slots (pin_at pos (length slots)) := Some m])"

fun fill_slots :: "'a option list \<Rightarrow> 'a list \<Rightarrow> 'a list" where
  "fill_slots [] rest = []"
| "fill_slots (Some m # slots) rest = m # fill_slots slots rest"
| "fill_slots (None # slots) (m # rest) = m # fill_slots slots rest"
| "fill_slots (None # slots) [] = []"

definition pinned_of :: "int list \<Rightarrow> (int, int) dict \<Rightarrow> (int \<times> int) list" where
  "pinned_of ids pins = sort (map (\<lambda>(m, pos). (pos, m)) (filter (\<lambda>(m, pos). m \<in> set ids) pins))"

definition order_role :: "standing_line list \<Rightarrow> (int, int) dict \<Rightarrow> int list" where
  "order_role ls pins =
    (let ids = map sl_member (sort_key standing_key ls);
         pinned = pinned_of ids pins;
         slots = foldl place_pin (replicate (length ids) None) pinned
     in fill_slots slots (filter (\<lambda>m. m \<notin> snd ` set pinned) ids))"

definition qualify :: "(string, int list) dict \<Rightarrow> shape \<Rightarrow> nat \<Rightarrow> pool_error + int set" where
  "qualify order shape k =
    map_sum id (\<lambda>cuts. set (concat cuts))
      (traverse (\<lambda>(role, n). case map_of order role of None \<Rightarrow> Inl Key_Error | Some ms \<Rightarrow> Inr (take (k * n) ms)) shape)"

definition pick_captains :: "swiss_player list \<Rightarrow> nat \<Rightarrow> int list" where
  "pick_captains qualified k = map pp_member (take k (sort_key captain_key qualified))"

section \<open>Teams of a pool\<close>

lemma mset_concat_update:
  "i < length ts \<Longrightarrow> mset (concat (ts[i := t])) + mset (ts ! i) = mset (concat ts) + mset t"
proof (induction ts arbitrary: i)
  case (Cons u ts)
  then show ?case by (cases i) (auto simp: ac_simps)
qed simp

lemma mset_set_at: "x < length t \<Longrightarrow> mset (t[x := b]) + {#t ! x#} = mset t + {#b#}"
  by (simp add: mset_update)

lemma rank_sum_set_at: "x < length t \<Longrightarrow> rank_sum (t[x := b]) = rank_sum t + (pp_rank b - pp_rank (t ! x))"
proof (induction t arbitrary: x)
  case (Cons u t)
  then show ?case by (cases x) (auto simp: rank_sum_def)
qed simp

lemma mset_swapped:
  fixes ts :: "'a list list"
  assumes "i < length ts" and "j < length ts" and "i \<noteq> j" and "x < length (ts ! i)" and "y < length (ts ! j)"
  shows "mset (concat (ts[i := (ts ! i)[x := ts ! j ! y], j := (ts ! j)[y := ts ! i ! x]])) = mset (concat ts)"
proof (rule multiset_eqI)
  fix z :: 'a
  let ?u = "ts[i := (ts ! i)[x := ts ! j ! y]]"
  have c: "count A z = count B z" if "A = B" for A B using that by simp
  have 1: "mset (concat ?u) + mset (ts ! i) = mset (concat ts) + mset ((ts ! i)[x := ts ! j ! y])"
    by (rule mset_concat_update [OF assms(1)])
  have 2: "mset (concat (?u[j := (ts ! j)[y := ts ! i ! x]])) + mset (ts ! j) = mset (concat ?u) + mset ((ts ! j)[y := ts ! i ! x])"
    using mset_concat_update [of j ?u] assms by simp
  note 3 = mset_set_at [OF assms(4), of "ts ! j ! y"]
  note 4 = mset_set_at [OF assms(5), of "ts ! i ! x"]
  show "count (mset (concat (?u[j := (ts ! j)[y := ts ! i ! x]]))) z = count (mset (concat ts)) z"
    using c [OF 1] c [OF 2] c [OF 3] c [OF 4] by (simp only: count_union)
qed

text \<open>What the passes keep: who is in some team, the roles seat by seat, and totals that are the sums.\<close>

definition same_pool :: "swiss_player list list \<times> int list \<Rightarrow> swiss_player list list \<times> int list \<Rightarrow> bool" where
  "same_pool = (\<lambda>(teams, totals) (teams', totals'). totals = map rank_sum teams \<longrightarrow>
     totals' = map rank_sum teams' \<and> mset (concat teams') = mset (concat teams) \<and> map (map pp_role) teams' = map (map pp_role) teams)"

lemma same_pool_refl [simp]: "same_pool s s"
  by (simp add: same_pool_def split_beta)

lemma same_pool_trans: "same_pool s t \<Longrightarrow> same_pool t u \<Longrightarrow> same_pool s u"
  by (simp add: same_pool_def split_beta)

lemma try_pair_same:
  assumes "i < j" and "j < length totals" and "try_pair (improved, teams, totals) (i, j) = (improved', teams', totals')"
  shows "same_pool (teams, totals) (teams', totals')"
proof (cases "first_swap (teams ! i) (teams ! j) (totals ! i) (totals ! j)")
  case None
  then show ?thesis using assms(3) by (simp add: try_pair_def)
next
  case (Some xy)
  obtain x y where xy: "xy = (x, y)" by fastforce
  define a where "a = teams ! i ! x"
  define b where "b = teams ! j ! y"
  have new: "teams' = teams[i := (teams ! i)[x := b], j := (teams ! j)[y := a]]"
    "totals' = totals[i := totals ! i + (pp_rank b - pp_rank a), j := totals ! j - (pp_rank b - pp_rank a)]"
    using assms(3) Some by (auto simp: try_pair_def xy Let_def a_def b_def)
  note gain = first_swap_gain [OF Some [unfolded xy]]
  show ?thesis
  proof (cases "totals = map rank_sum teams")
    case True
    then have ij: "i < length teams" "j < length teams" "i \<noteq> j" using assms(1,2) by auto
    have "mset (concat teams') = mset (concat teams)"
      unfolding new a_def b_def using gain by (intro mset_swapped ij) simp_all
    moreover have "map (map pp_role) teams' = map (map pp_role) teams"
    proof -
      have "map pp_role ((teams ! i)[x := b]) = map pp_role (teams ! i)" "map pp_role ((teams ! j)[y := a]) = map pp_role (teams ! j)"
        using gain by (simp_all add: map_update a_def b_def list_update_same_conv)
      moreover have "(map (map pp_role) teams)[k := map pp_role (teams ! k)] = map (map pp_role) teams" if "k < length teams" for k
        using that by (metis list_update_id nth_map)
      ultimately show ?thesis using ij by (simp add: new map_update)
    qed
    moreover have "totals' = map rank_sum teams'"
    proof -
      have "rank_sum ((teams ! i)[x := b]) = totals ! i + (pp_rank b - pp_rank a)"
        "rank_sum ((teams ! j)[y := a]) = totals ! j - (pp_rank b - pp_rank a)"
        using gain ij True by (simp_all add: rank_sum_set_at a_def b_def)
      then show ?thesis using True by (simp add: new map_update)
    qed
    ultimately show ?thesis by (simp add: same_pool_def)
  qed (simp add: same_pool_def)
qed

text \<open>A pass that makes no swap leaves everything, and there was none to make.\<close>

definition settled_pair :: "swiss_player list list \<Rightarrow> int list \<Rightarrow> nat \<times> nat \<Rightarrow> bool" where
  "settled_pair teams totals = (\<lambda>(i, j). first_swap (teams ! i) (teams ! j) (totals ! i) (totals ! j) = None)"

lemma split_pass_same:
  assumes "split_pass teams totals = (improved, teams', totals')"
  shows "same_pool (teams, totals) (teams', totals') \<and>
    (\<not> improved \<longrightarrow> teams' = teams \<and> totals' = totals \<and> (\<forall>ij \<in> set (team_pairs (length totals)). settled_pair teams totals ij))"
proof -
  have "same_pool (tms, ts) (tms', ts') \<and> (\<not> better' \<longrightarrow> \<not> better \<and> tms' = tms \<and> ts' = ts \<and> (\<forall>ij \<in> set ps. settled_pair tms ts ij))"
    if "foldl try_pair (better, tms, ts) ps = (better', tms', ts')" "\<forall>(i, j) \<in> set ps. i < j \<and> j < length ts"
    for better tms ts ps better' tms' ts'
    using that
  proof (induction ps arbitrary: better tms ts)
    case (Cons p ps)
    obtain i j where p: "p = (i, j)" by fastforce
    obtain b t u where one: "try_pair (better, tms, ts) (i, j) = (b, t, u)" by (cases "try_pair (better, tms, ts) (i, j)") auto
    have ij: "i < j" "j < length ts" using Cons.prems(2) p by auto
    have len: "length u = length ts" using try_pair_spread [OF ij one] by simp
    have unchanged: "\<not> b \<Longrightarrow> \<not> better \<and> t = tms \<and> u = ts \<and> settled_pair tms ts p"
      using one by (auto simp: try_pair_def p settled_pair_def Let_def split: option.splits prod.splits)
    have "same_pool (t, u) (tms', ts') \<and> (\<not> better' \<longrightarrow> \<not> b \<and> tms' = t \<and> ts' = u \<and> (\<forall>ij \<in> set ps. settled_pair t u ij))"
      by (rule Cons.IH) (use Cons.prems one p len in auto)
    then show ?case using try_pair_same [OF ij one] same_pool_trans unchanged by fastforce
  qed simp
  moreover have "\<forall>(i, j) \<in> set (team_pairs (length totals)). i < j \<and> j < length totals" by (auto simp: team_pairs_in)
  ultimately show ?thesis using assms [unfolded split_pass_def] by blast
qed

lemma even_out_same:
  "even_out teams totals = (teams', totals') \<Longrightarrow> same_pool (teams, totals) (teams', totals') \<and>
    (\<forall>ij \<in> set (team_pairs (length totals')). settled_pair teams' totals' ij)"
proof (induction teams totals rule: even_out.induct)
  case (1 teams totals)
  obtain improved t u where pass: "split_pass teams totals = (improved, t, u)" by (cases "split_pass teams totals") auto
  show ?case
  proof (cases improved)
    case True
    then have "even_out t u = (teams', totals')" using 1(2) pass by (simp add: even_out.simps [of teams])
    from 1(1) [OF pass [symmetric] refl True this] show ?thesis using split_pass_same [OF pass] same_pool_trans by blast
  next
    case False
    then show ?thesis using 1(2) pass split_pass_same [OF pass] by (simp add: even_out.simps [of teams])
  qed
qed

section \<open>Dealing\<close>

lemma chunks: "concat (map (\<lambda>t. take n (drop (t * n) g)) [0..<T]) = take (T * n) g"
proof (induction T)
  case (Suc T)
  then show ?case by (simp add: take_add [symmetric] add.commute)
qed simp

lemma mset_concat_swap:
  "mset (concat (map (\<lambda>t. concat (map (f t) L)) ts)) = mset (concat (map (\<lambda>l. concat (map (\<lambda>t. f t l) ts)) L))"
proof (induction L)
  case (Cons l L)
  have "mset (concat (map (\<lambda>t. f t l @ g t) ts)) = mset (concat (map (\<lambda>t. f t l) ts)) + mset (concat (map g ts))" for g
    by (induction ts) (simp_all add: ac_simps)
  then show ?case using Cons by simp
qed simp

lemma mset_by_roles:
  "distinct (map fst shape) \<Longrightarrow> (\<forall>p \<in> set ps. pp_role p \<in> fst ` set shape) \<Longrightarrow>
    mset (concat (map (\<lambda>(role, n). in_role role ps) shape)) = mset ps"
proof (induction shape arbitrary: ps)
  case (Cons rn shape)
  obtain role n where rn: "rn = (role, n)" by fastforce
  let ?rest = "filter (\<lambda>p. pp_role p \<noteq> role) ps"
  have "in_role r ?rest = in_role r ps" if "r \<in> fst ` set shape" for r
    using that Cons.prems(1) by (auto simp: rn in_role_def intro!: filter_cong)
  then have "map (\<lambda>(role, n). in_role role ?rest) shape = map (\<lambda>(role, n). in_role role ps) shape" by force
  moreover have "mset (concat (map (\<lambda>(role, n). in_role role ?rest) shape)) = mset ?rest"
    by (rule Cons.IH) (use Cons.prems rn in auto)
  ultimately have "mset (concat (map (\<lambda>(role, n). in_role role ps) shape)) = mset ?rest" by (simp only:)
  moreover have "mset (in_role role ps) + mset ?rest = mset ps" by (simp add: in_role_def)
  ultimately show ?case by (simp add: rn)
qed simp

definition dealt :: "rng \<Rightarrow> swiss_player list \<Rightarrow> nat \<Rightarrow> nat \<Rightarrow> shape \<Rightarrow> swiss_player list" where
  "dealt rng ps s t shape = concat (map (\<lambda>(k, role, n). take n (drop (t * n) (shuffle rng k (in_role role ps)))) (enumerate s shape))"

lemma deal_dealt:
  "deal rng T (map (\<lambda>(role, n). (role, in_role role ps)) shape) shape = map (\<lambda>t. dealt rng ps 0 t shape) [0..<T]"
proof -
  have "map (\<lambda>(k, (role, n), (_, g)). take n (drop (t * n) (shuffle rng k g)))
      (enumerate s (zip shape (map (\<lambda>(role, n). (role, in_role role ps)) shape))) =
    map (\<lambda>(k, role, n). take n (drop (t * n) (shuffle rng k (in_role role ps)))) (enumerate s shape)" for s t
    by (induction shape arbitrary: s) auto
  then show ?thesis unfolding deal_def dealt_def by simp
qed

lemma dealt_roles:
  assumes "\<forall>(role, n) \<in> set shape. length (in_role role ps) = n * T" and "t < T" and "distinct (map fst shape)"
  shows "length (in_role r (dealt rng ps s t shape)) = dict_get shape r 0 \<and>
    (\<forall>p \<in> set (dealt rng ps s t shape). pp_role p \<in> fst ` set shape)"
  using assms(1,3)
proof (induction shape arbitrary: s)
  case (Cons rn shape)
  obtain role n where rn: "rn = (role, n)" by fastforce
  let ?part = "take n (drop (t * n) (shuffle rng s (in_role role ps)))"
  have "Suc t * n \<le> T * n" using assms(2) by (intro mult_le_mono1) simp
  then have "t * n + n \<le> length (in_role role ps)" using Cons.prems rn by (auto simp: mult.commute)
  then have len: "length ?part = n" by simp
  have roles: "pp_role p = role" if "p \<in> set ?part" for p
    using that by (auto simp: in_role_def dest!: in_set_takeD in_set_dropD)
  have "filter (\<lambda>p. pp_role p = r) ?part = (if r = role then ?part else [])"
    using roles by (auto simp: filter_empty_conv intro!: filter_True)
  then have part: "length (in_role r ?part) = (if r = role then n else 0)" using len by (simp add: in_role_def)
  have split: "dealt rng ps s t (rn # shape) = ?part @ dealt rng ps (Suc s) t shape" by (simp add: dealt_def rn)
  have rest: "length (in_role r (dealt rng ps (Suc s) t shape)) = dict_get shape r 0 \<and>
      (\<forall>p \<in> set (dealt rng ps (Suc s) t shape). pp_role p \<in> fst ` set shape)"
    using Cons by simp
  have "r = role \<Longrightarrow> dict_get shape r 0 = 0"
    using Cons.prems(2) rn by (auto simp: dict_get_def image_iff split: option.split dest!: map_of_SomeD)
  then have "length (in_role r (?part @ dealt rng ps (Suc s) t shape)) = dict_get (rn # shape) r 0"
    using part rest by (simp add: in_role_def rn)
  moreover have "\<forall>p \<in> set (?part @ dealt rng ps (Suc s) t shape). pp_role p \<in> fst ` set (rn # shape)"
    using rest roles rn by auto
  ultimately show ?case unfolding split by (rule conjI)
qed (auto simp: dealt_def in_role_def)

lemma deal_pool:
  assumes "distinct (map fst shape)" and "\<forall>(role, n) \<in> set shape. length (in_role role ps) = n * T"
    and "\<forall>p \<in> set ps. pp_role p \<in> fst ` set shape"
  shows "mset (concat (map (\<lambda>t. dealt rng ps 0 t shape) [0..<T])) = mset ps"
proof -
  have "mset (concat (map (\<lambda>(k, role, n). concat (map (\<lambda>t. take n (drop (t * n) (shuffle rng k (in_role role ps)))) [0..<T])) (enumerate s shape))) =
    mset (concat (map (\<lambda>(role, n). in_role role ps) shape))" for s
    using assms(2)
  proof (induction shape arbitrary: s)
    case (Cons rn shape)
    obtain role n where rn: "rn = (role, n)" by fastforce
    have "take (T * n) (shuffle rng s (in_role role ps)) = shuffle rng s (in_role role ps)"
      using Cons.prems rn by (intro take_all) (auto simp: mult.commute)
    then show ?case using Cons by (simp add: rn chunks)
  qed simp
  then have whole: "mset (concat (map (\<lambda>l. concat (map (\<lambda>t. (\<lambda>(k, role, n). take n (drop (t * n) (shuffle rng k (in_role role ps)))) l) [0..<T])) (enumerate 0 shape))) =
      mset (concat (map (\<lambda>(role, n). in_role role ps) shape))"
    by (simp only: split_def)
  show ?thesis unfolding dealt_def
    by (rule trans [OF mset_concat_swap trans [OF whole mset_by_roles [OF assms(1,3)]]])
qed

section \<open>The split of a pool\<close>

lemma by_role_Inr:
  "by_role ps shape T = Inr roles \<longleftrightarrow> (\<forall>p \<in> set ps. pp_role p \<in> fst ` set shape) \<and>
    (\<forall>(role, n) \<in> set shape. length (in_role role ps) = n * T) \<and> roles = map (\<lambda>(role, n). (role, in_role role ps)) shape"
  by (auto simp: by_role_def outside_shape_def list_ex_iff split_beta)

definition exchanged :: "swiss_player list list \<Rightarrow> nat \<Rightarrow> nat \<Rightarrow> nat \<Rightarrow> nat \<Rightarrow> swiss_player list list" where
  "exchanged teams i x j y = teams[i := (teams ! i)[x := teams ! j ! y], j := (teams ! j)[y := teams ! i ! x]]"

lemma spread_exchanged:
  assumes "i < j" and "j < length teams" and "x < length (teams ! i)" and "y < length (teams ! j)"
  shows "spread (map rank_sum (exchanged teams i x j y)) = spread (map rank_sum teams) +
    2 * swap_gain (rank_sum (teams ! i)) (rank_sum (teams ! j)) (teams ! i ! x) (teams ! j ! y)"
proof -
  let ?d = "pp_rank (teams ! j ! y) - pp_rank (teams ! i ! x)" and ?T = "map rank_sum teams"
  have "map rank_sum (exchanged teams i x j y) = ?T[i := ?T ! i + ?d, j := ?T ! j - ?d]"
    using assms by (simp add: exchanged_def map_update rank_sum_set_at algebra_simps)
  then show ?thesis using assms spread_swap [of i ?T j ?d] by (simp add: swap_gain_def Let_def)
qed

lemma in_role_length: "length (in_role r t) = length (filter (\<lambda>x. x = r) (map pp_role t))"
  by (simp add: in_role_def filter_map o_def)

lemma split_pool_outcome:
  assumes "distinct (map fst shape)" and "split_pool ps shape T rng = Inr teams"
  shows "\<forall>(role, n) \<in> set shape. length (in_role role ps) = n * T" and "length teams = T" and "mset (concat teams) = mset ps"
    and "map (map pp_role) teams = map (\<lambda>t. map pp_role (dealt rng ps 0 t shape)) [0..<T]"
    and "\<And>i j. i < j \<Longrightarrow> j < T \<Longrightarrow> first_swap (teams ! i) (teams ! j) (rank_sum (teams ! i)) (rank_sum (teams ! j)) = None"
proof -
  let ?deal = "map (\<lambda>t. dealt rng ps 0 t shape) [0..<T]"
  obtain totals where pool: "\<forall>p \<in> set ps. pp_role p \<in> fst ` set shape" "\<forall>(role, n) \<in> set shape. length (in_role role ps) = n * T"
    and out: "even_out ?deal (map rank_sum ?deal) = (teams, totals)"
    using assms(2) unfolding split_pool_def by (cases "by_role ps shape T") (auto simp: by_role_Inr deal_dealt Let_def intro: prod.collapse [symmetric])
  from even_out_same [OF out] have same: "totals = map rank_sum teams" "mset (concat teams) = mset (concat ?deal)"
      "map (map pp_role) teams = map (map pp_role) ?deal"
    and rest: "\<And>ij. ij \<in> set (team_pairs (length totals)) \<Longrightarrow> settled_pair teams totals ij" by (auto simp: same_pool_def)
  show len: "length teams = T" using arg_cong [OF same(3), of length] by simp
  show "\<forall>(role, n) \<in> set shape. length (in_role role ps) = n * T" by (rule pool(2))
  show "mset (concat teams) = mset ps" using same(2) deal_pool [OF assms(1) pool(2,1)] by simp
  show "map (map pp_role) teams = map (\<lambda>t. map pp_role (dealt rng ps 0 t shape)) [0..<T]" using same(3) by simp
  show "first_swap (teams ! i) (teams ! j) (rank_sum (teams ! i)) (rank_sum (teams ! j)) = None" if "i < j" "j < T" for i j
    using rest [of "(i, j)"] that len by (simp add: team_pairs_in same(1) settled_pair_def)
qed

text \<open>C33: A pool is split whatever the shuffles were: the swapping ends, every player is in exactly one team,
  every team has the shape's seats in every role, and no exchange of two players of the same role
  between two teams makes the totals more even.\<close>

theorem split_pool_even:
  assumes "distinct (map fst shape)" and "split_pool ps shape T rng = Inr teams"
  shows "length teams = T \<and> mset (concat teams) = mset ps \<and>
    (\<forall>t \<in> set teams. \<forall>(role, n) \<in> set shape. length (in_role role t) = n) \<and>
    (\<forall>i j x y. i < j \<and> j < T \<and> x < length (teams ! i) \<and> y < length (teams ! j) \<and>
       pp_role (teams ! i ! x) = pp_role (teams ! j ! y) \<longrightarrow>
       spread (map rank_sum teams) \<le> spread (map rank_sum (exchanged teams i x j y)))"
proof -
  note outcome = split_pool_outcome [OF assms]
  have "length (in_role role t) = n" if t: "t \<in> set teams" "(role, n) \<in> set shape" for t role n
  proof -
    obtain k where k: "k < T" "t = teams ! k" using t(1) outcome(2) by (auto simp: in_set_conv_nth)
    have "map (map pp_role) teams ! k = map (\<lambda>t. map pp_role (dealt rng ps 0 t shape)) [0..<T] ! k" by (simp only: outcome(4))
    then have "map pp_role t = map pp_role (dealt rng ps 0 k shape)" using k outcome(2) by simp
    then have "length (in_role role t) = length (in_role role (dealt rng ps 0 k shape))" by (simp only: in_role_length)
    also have "\<dots> = n" using dealt_roles [OF outcome(1) k(1) assms(1), of role rng 0] t(2) assms(1) by (simp add: dict_get_def)
    finally show ?thesis .
  qed
  moreover have "spread (map rank_sum teams) \<le> spread (map rank_sum (exchanged teams i x j y))"
    if ij: "i < j \<and> j < T \<and> x < length (teams ! i) \<and> y < length (teams ! j) \<and> pp_role (teams ! i ! x) = pp_role (teams ! j ! y)" for i j x y
  proof -
    have "0 \<le> swap_gain (rank_sum (teams ! i)) (rank_sum (teams ! j)) (teams ! i ! x) (teams ! j ! y)"
      using outcome(5) [of i j] ij by (simp add: first_swap_None)
    then show ?thesis using ij outcome(2) by (subst spread_exchanged) auto
  qed
  ultimately show ?thesis using outcome(2,3) by blast
qed

lemma pair_up_all: "even (length xs) \<Longrightarrow> concat (map (\<lambda>(a, b). [a, b]) (pair_up xs)) = xs \<and> 2 * length (pair_up xs) = length xs"
  by (induction xs rule: pair_up.induct) auto

text \<open>A pool the format accepts makes a round: it splits into the accepted number of teams and these pair
  off into matches, at least one, in which every player plays exactly once.\<close>

theorem accepted_pool_forms_a_round:
  assumes "distinct (map fst shape)" and "teams_per_round ps shape = Inr c"
  shows "\<exists>teams pairs. split_pool ps shape c rng = Inr teams \<and> pair_randomly teams rng' = Inr pairs \<and>
    2 * length pairs = c \<and> 1 \<le> length pairs \<and> mset (concat (map (\<lambda>(a, b). a @ b) pairs)) = mset ps"
proof -
  let ?teams = "map (\<lambda>(role, n). length (in_role role ps) div n) shape"
  have facts: "\<forall>p \<in> set ps. pp_role p \<in> fst ` set shape" "\<forall>(role, n) \<in> set shape. length (in_role role ps) mod n = 0"
    "length (dedup ?teams) = 1" "even (hd ?teams)" "2 \<le> hd ?teams" "c = hd ?teams"
    using assms(2) by (auto simp: teams_per_round_def outside_shape_def list_ex_iff Let_def split: if_splits)
  then have "card (set ?teams) = 1" by (simp add: length_dedup)
  then obtain x where x: "set ?teams = {x}" by (auto simp: card_1_singleton_iff)
  have "?teams \<noteq> []" using facts(3) by auto
  then have "c \<in> set ?teams" using facts(6) by (metis hd_in_set)
  then have all: "\<forall>m \<in> set ?teams. m = c" using x by auto
  have "length (in_role role ps) = n * c" if "(role, n) \<in> set shape" for role n
  proof -
    have "length (in_role role ps) div n = c" using all that by force
    moreover have "length (in_role role ps) mod n = 0" using facts(2) that by auto
    ultimately show ?thesis by (metis add.right_neutral mult_div_mod_eq)
  qed
  then have "by_role ps shape c = Inr (map (\<lambda>(role, n). (role, in_role role ps)) shape)" using facts(1) by (auto simp: by_role_Inr)
  then obtain teams where teams: "split_pool ps shape c rng = Inr teams" by (auto simp: split_pool_def)
  note split = split_pool_outcome(2,3) [OF assms(1) teams]
  have ev: "even (length (shuffle rng' 0 teams))" using split facts(4,6) by simp
  note pairs = pair_up_all [OF ev]
  have "concat (map (\<lambda>(a, b). a @ b) xs) = concat (concat (map (\<lambda>(a, b). [a, b]) xs))" for xs :: "('a list \<times> 'a list) list"
    by (induction xs) auto
  then have "concat (map (\<lambda>(a, b). a @ b) (pair_up (shuffle rng' 0 teams))) = concat (shuffle rng' 0 teams)" using pairs by metis
  moreover have "mset (concat (shuffle rng' 0 teams)) = mset (concat teams)"
    by (simp add: mset_concat flip: sum_mset_sum_list)
  ultimately have "mset (concat (map (\<lambda>(a, b). a @ b) (pair_up (shuffle rng' 0 teams)))) = mset ps" using split by simp
  moreover have "pair_randomly teams rng' = Inr (pair_up (shuffle rng' 0 teams))" using ev by (simp add: pair_randomly_def)
  moreover have "2 * length (pair_up (shuffle rng' 0 teams)) = c" using pairs split by simp
  ultimately show ?thesis using teams facts(5,6) by (intro exI [of _ teams] exI [of _ "pair_up (shuffle rng' 0 teams)"]) auto
qed

section \<open>The exact split of a lobby\<close>

lemma combos_length: "idx \<in> set (combos k xs) \<Longrightarrow> length idx = k \<and> set idx \<subseteq> set xs \<and> (distinct xs \<longrightarrow> distinct idx)"
proof (induction k xs arbitrary: idx rule: combos.induct)
  case (3 k x xs)
  from 3(3) consider c where "idx = x # c" "c \<in> set (combos k xs)" | "idx \<in> set (combos (Suc k) xs)" by auto
  then show ?case
  proof cases
    case 1
    then show ?thesis using 3(1) [OF 1(2)] by auto
  next
    case 2
    then show ?thesis using 3(2) [OF 2] by auto
  qed
qed simp_all

lemma combos_map: "combos k (map f xs) = map (map f) (combos k xs)"
  by (induction k xs rule: combos.induct) simp_all

text \<open>Every sub-multiset of the right size is some combination.\<close>

lemma combos_complete: "A \<subseteq># mset xs \<Longrightarrow> size A = k \<Longrightarrow> \<exists>c \<in> set (combos k xs). mset c = A"
proof (induction k xs arbitrary: A rule: combos.induct)
  case (3 k x xs)
  show ?case
  proof (cases "x \<in># A")
    case True
    then have "A - {#x#} \<subseteq># mset xs" "size (A - {#x#}) = k" using 3(3,4) by (auto simp: subset_eq_diff_conv size_Diff_singleton)
    then obtain c where "c \<in> set (combos k xs)" "mset c = A - {#x#}" using 3(1) by blast
    then show ?thesis using True by (intro bexI [of _ "x # c"]) auto
  next
    case False
    have "count A y \<le> count (mset xs) y" for y
      using mset_subset_eq_count [OF 3(3), of y] False by (cases "y = x") (auto simp: not_in_iff)
    then have "A \<subseteq># mset xs" by (rule mset_subset_eqI)
    then show ?thesis using 3(2) 3(4) by auto
  qed
qed auto

lemma combos_nonempty: "k \<le> length xs \<Longrightarrow> combos k xs \<noteq> []"
  by (induction k xs rule: combos.induct) auto

text \<open>The positions taken and the positions left.\<close>

definition taken :: "nat set \<Rightarrow> 'a list \<Rightarrow> 'a list" where
  "taken I g = map snd (filter (\<lambda>(i, p). i \<in> I) (enumerate 0 g))"

lemma taken_nth: "taken I g = map ((!) g) (filter (\<lambda>i. i \<in> I) [0..<length g])"
proof -
  have "enumerate 0 g = map (\<lambda>i. (i, g ! i)) [0..<length g]" by (rule nth_equalityI) (simp_all add: nth_enumerate_eq)
  then show ?thesis by (simp add: taken_def filter_map o_def)
qed

lemma taken_combo:
  assumes "idx \<in> set (combos k [0..<length g])"
  shows "mset (taken (set idx) g) = mset (map ((!) g) idx)" and "length (taken (set idx) g) = k"
proof -
  have idx: "distinct idx" "set idx \<subseteq> {0..<length g}" "length idx = k" using combos_length [OF assms] by auto
  then have "mset (filter (\<lambda>i. i \<in> set idx) [0..<length g]) = mset idx"
    by (intro set_eq_iff_mset_eq_distinct [THEN iffD1]) auto
  then show "mset (taken (set idx) g) = mset (map ((!) g) idx)" by (simp add: taken_nth)
  then show "length (taken (set idx) g) = k" using idx(3) by (metis length_map size_mset)
qed

lemma taken_left: "mset (taken I g) + mset (taken (- I) g) = mset g"
proof -
  have "mset (filter (\<lambda>i. i \<in> I) js) + mset (filter (\<lambda>i. i \<in> - I) js) = mset js" for js :: "nat list"
    by (induction js) auto
  then have "mset (map f (filter (\<lambda>i. i \<in> I) [0..<length g])) + mset (map f (filter (\<lambda>i. i \<in> - I) [0..<length g])) = mset (map f [0..<length g])"
    for f :: "nat \<Rightarrow> 'a" unfolding mset_map by (metis image_mset_union)
  from this [of "(!) g"] show ?thesis by (simp only: taken_nth map_nth)
qed

text \<open>The loop keeps exactly the picks with the smallest gap.\<close>

lemma keep_best_loop:
  "foldl (keep_best gap) (None, []) ps =
    (if ps = [] then (None, []) else (Some (Min (gap ` set ps)), filter (\<lambda>p. gap p = Min (gap ` set ps)) ps))"
proof (induction ps rule: rev_induct)
  case (snoc p ps)
  show ?case
  proof (cases "ps = []")
    case False
    let ?m = "Min (gap ` set ps)"
    have min: "Min (gap ` set (ps @ [p])) = min (gap p) ?m" using False by simp
    have le: "?m \<le> gap q" if "q \<in> set ps" for q using that by simp
    have IH: "foldl (keep_best gap) (None, []) (ps @ [p]) = keep_best gap (Some ?m, filter (\<lambda>q. gap q = ?m) ps) p"
      using snoc False by simp
    consider "gap p < ?m" | "gap p = ?m" | "?m < gap p" by linarith
    then show ?thesis
    proof cases
      case 1
      then have "gap q \<noteq> gap p" if "q \<in> set ps" for q using le [OF that] by linarith
      then have "filter (\<lambda>q. gap q = gap p) ps = []" by (simp add: filter_empty_conv)
      then show ?thesis using 1 unfolding IH min by (simp add: keep_best_def min_def)
    qed (unfold IH min, simp_all add: keep_best_def min_def)
  qed (simp add: keep_best_def)
qed simp

lemma best_picks:
  assumes "ps \<noteq> []" and "p \<in> set (snd (foldl (keep_best gap) (None, []) ps))"
  shows "p \<in> set ps \<and> (\<forall>q \<in> set ps. gap p \<le> gap q)"
  using assms by (auto simp: keep_best_loop)

lemma some_best_pick: "ps \<noteq> [] \<Longrightarrow> snd (foldl (keep_best gap) (None, []) ps) \<noteq> []"
proof -
  assume ps: "ps \<noteq> []"
  then have "Min (gap ` set ps) \<in> gap ` set ps" by (intro Min_in) auto
  then obtain q where "q \<in> set ps" "gap q = Min (gap ` set ps)" by fastforce
  then show ?thesis using ps by (auto simp: keep_best_loop filter_empty_conv)
qed

lemma product_lists_iff: "pick \<in> set (product_lists xss) \<longleftrightarrow> list_all2 (\<lambda>c xs. c \<in> set xs) pick xss"
  by (simp add: product_lists_set)

text \<open>A pick over the roles of a shape: positions of the right number in every group.\<close>

definition picks :: "swiss_player list \<Rightarrow> shape \<Rightarrow> nat list list \<Rightarrow> bool" where
  "picks ps shape pick \<longleftrightarrow> list_all2 (\<lambda>idx (role, n). idx \<in> set (combos n [0..<length (in_role role ps)])) pick shape"

abbreviation groups_of :: "swiss_player list \<Rightarrow> shape \<Rightarrow> swiss_player list list" where
  "groups_of ps shape \<equiv> map (\<lambda>(role, n). in_role role ps) shape"

lemma rank_sum_append [simp]: "rank_sum (xs @ ys) = rank_sum xs + rank_sum ys" and rank_sum_Nil [simp]: "rank_sum [] = 0"
  by (simp_all add: rank_sum_def)

lemma rank_sum_mset: "rank_sum xs = sum_mset (image_mset pp_rank (mset xs))"
  by (simp add: rank_sum_def flip: sum_mset_sum_list)

lemma team_a_Cons [simp]: "team_a (g # gs) (idx # pick) = taken (set idx) g @ team_a gs pick"
  and team_b_Cons [simp]: "team_b (g # gs) (idx # pick) = taken (- set idx) g @ team_b gs pick"
  and pick_sum_Cons [simp]: "pick_sum (g # gs) (idx # pick) = rank_sum (map ((!) g) idx) + pick_sum gs pick"
  and team_Nil [simp]: "team_a [] [] = []" "team_b [] [] = []" "pick_sum [] [] = 0"
  by (simp_all add: team_a_def team_b_def taken_def pick_sum_def rank_sum_def o_def)

lemma taken_in: "p \<in> set (taken I g) \<Longrightarrow> p \<in> set g"
  by (auto simp: taken_nth)

lemma picked_teams:
  assumes "picks ps shape pick"
  shows "pick_sum (groups_of ps shape) pick = rank_sum (team_a (groups_of ps shape) pick)"
    and "mset (team_a (groups_of ps shape) pick) + mset (team_b (groups_of ps shape) pick) = mset (concat (groups_of ps shape))"
    and "distinct (map fst shape) \<Longrightarrow> length (in_role r (team_a (groups_of ps shape) pick)) = dict_get shape r 0"
proof -
  have "pick_sum (groups_of ps shape) pick = rank_sum (team_a (groups_of ps shape) pick) \<and>
    mset (team_a (groups_of ps shape) pick) + mset (team_b (groups_of ps shape) pick) = mset (concat (groups_of ps shape)) \<and>
    (distinct (map fst shape) \<longrightarrow> length (in_role r (team_a (groups_of ps shape) pick)) = dict_get shape r 0)"
    using assms unfolding picks_def
  proof (induction rule: list_all2_induct)
    case Nil
    then show ?case by (simp add: in_role_def)
  next
    case (Cons idx pick rn shape)
    obtain role n where rn: "rn = (role, n)" by fastforce
    let ?g = "in_role role ps"
    have idx: "idx \<in> set (combos n [0..<length ?g])" using Cons.hyps(1) by (simp add: rn)
    note part = taken_combo [OF idx]
    have "rank_sum (map ((!) ?g) idx) = rank_sum (taken (set idx) ?g)" by (simp only: rank_sum_mset part(1))
    moreover have "mset (taken (set idx) ?g) + mset (taken (- set idx) ?g) = mset ?g" by (rule taken_left)
    moreover have "length (in_role r (taken (set idx) ?g)) = (if r = role then n else 0)"
    proof -
      have "filter (\<lambda>p. pp_role p = r) (taken (set idx) ?g) = (if r = role then taken (set idx) ?g else [])"
        by (auto simp: filter_empty_conv in_role_def dest!: taken_in intro!: filter_True)
      then show ?thesis using part(2) by (simp add: in_role_def)
    qed
    moreover have "distinct (map fst (rn # shape)) \<Longrightarrow> r = role \<Longrightarrow> dict_get shape r 0 = 0"
      using rn by (auto simp: dict_get_def image_iff split: option.split dest!: map_of_SomeD)
    ultimately show ?case using Cons.IH by (auto simp: rn in_role_def ac_simps)
  qed
  then show "pick_sum (groups_of ps shape) pick = rank_sum (team_a (groups_of ps shape) pick)"
    "mset (team_a (groups_of ps shape) pick) + mset (team_b (groups_of ps shape) pick) = mset (concat (groups_of ps shape))"
    "distinct (map fst shape) \<Longrightarrow> length (in_role r (team_a (groups_of ps shape) pick)) = dict_get shape r 0" by blast+
qed

text \<open>Whatever team has the right roles is reached by some pick with the same strength.\<close>

lemma some_pick:
  assumes "mset A \<subseteq># mset ps" and "\<forall>(role, n) \<in> set shape. length (in_role role A) = n"
  shows "\<exists>pick. picks ps shape pick \<and> pick_sum (groups_of ps shape) pick = rank_sum (concat (groups_of A shape))"
  using assms(2)
proof (induction shape)
  case Nil
  then show ?case by (simp add: picks_def)
next
  case (Cons rn shape)
  obtain role n where rn: "rn = (role, n)" by fastforce
  let ?g = "in_role role ps"
  have "mset (in_role role A) \<subseteq># mset ?g" unfolding in_role_def mset_filter using assms(1) by (rule multiset_filter_mono)
  moreover have "size (mset (in_role role A)) = n" using Cons.prems by (simp add: rn)
  ultimately obtain c where "c \<in> set (combos n ?g)" "mset c = mset (in_role role A)" using combos_complete by blast
  moreover have "combos n ?g = map (map ((!) ?g)) (combos n [0..<length ?g])" using combos_map [of n "(!) ?g" "[0..<length ?g]"] by (simp add: map_nth)
  ultimately obtain idx where idx: "idx \<in> set (combos n [0..<length ?g])" "mset (map ((!) ?g) idx) = mset (in_role role A)" by auto
  obtain pick where pick: "picks ps shape pick" "pick_sum (groups_of ps shape) pick = rank_sum (concat (groups_of A shape))"
    using Cons by auto
  have "rank_sum (map ((!) ?g) idx) = rank_sum (in_role role A)" by (simp only: rank_sum_mset idx(2))
  then show ?case using idx(1) pick by (intro exI [of _ "idx # pick"]) (simp add: picks_def rn)
qed

lemma picks_exist: "\<forall>(role, n) \<in> set shape. n \<le> length (in_role role ps) \<Longrightarrow> \<exists>pick. picks ps shape pick"
proof (induction shape)
  case (Cons rn shape)
  obtain role n where rn: "rn = (role, n)" by fastforce
  have "combos n [0..<length (in_role role ps)] \<noteq> []" using Cons.prems rn by (intro combos_nonempty) simp
  then obtain idx where "idx \<in> set (combos n [0..<length (in_role role ps)])" by (meson hd_in_set)
  moreover obtain pick where "picks ps shape pick" using Cons by auto
  ultimately show ?case by (intro exI [of _ "idx # pick"]) (simp add: picks_def rn)
qed (auto simp: picks_def)

lemma picks_product:
  "set (product_lists (map (\<lambda>((role, n), g). combos n [0..<length g]) (zip shape (groups_of ps shape)))) = Collect (picks ps shape)"
proof -
  have "map (\<lambda>((role, n), g). combos n [0..<length g]) (zip shape (groups_of ps shape)) =
      map (\<lambda>(role, n). combos n [0..<length (in_role role ps)]) shape"
    by (induction shape) auto
  moreover have "list_all2 (\<lambda>c xs. c \<in> set xs) pick (map (\<lambda>(role, n). combos n [0..<length (in_role role ps)]) shape) = picks ps shape pick" for pick
    by (simp add: picks_def list_all2_map2 split_def)
  ultimately show ?thesis by (simp add: product_lists_set)
qed

text \<open>C34: The split of a lobby is the best there is: the two teams share out the players, have the shape's seats
  in every role, and no other way of sharing them out by roles brings the rank sums closer together;
  the generator only decides between equally good ones.\<close>

theorem split_two_optimal:
  assumes "distinct (map fst shape)" and "split_two ps shape rng = Inr (A, B)"
  shows "mset A + mset B = mset ps \<and>
    (\<forall>(role, n) \<in> set shape. length (in_role role A) = n \<and> length (in_role role B) = n) \<and>
    (\<forall>A' B'. mset A' + mset B' = mset ps \<and> (\<forall>(role, n) \<in> set shape. length (in_role role A') = n) \<longrightarrow>
       \<bar>rank_sum A - rank_sum B\<bar> \<le> \<bar>rank_sum A' - rank_sum B'\<bar>)"
proof -
  let ?G = "groups_of ps shape"
  let ?all = "product_lists (map (\<lambda>((role, n), g). combos n [0..<length g]) (zip shape ?G))"
  let ?best = "snd (foldl (keep_best (gap_of (rank_sum ps) ?G)) (None, []) ?all)"
  have pool: "\<forall>p \<in> set ps. pp_role p \<in> fst ` set shape" "\<forall>(role, n) \<in> set shape. length (in_role role ps) = n * 2"
    and AB: "A = team_a ?G (choice rng 0 ?best)" "B = team_b ?G (choice rng 0 ?best)"
    using assms(2) unfolding split_two_def
    by (cases "by_role ps shape 2"; auto simp: by_role_Inr Let_def split_beta o_def cong: map_cong)+
  have sums: "rank_sum A' + rank_sum B' = rank_sum ps" if "mset A' + mset B' = mset ps" for A' B'
    by (simp only: rank_sum_mset flip: that) simp
  have whole: "mset (concat ?G) = mset ps" by (rule mset_by_roles [OF assms(1) pool(1)])
  have "\<exists>pick. picks ps shape pick" using pool(2) by (intro picks_exist) auto
  then have "?all \<noteq> []" using picks_product [of shape ps] by fastforce
  then have chosen: "choice rng 0 ?best \<in> set ?all" "\<And>q. q \<in> set ?all \<Longrightarrow> gap_of (rank_sum ps) ?G (choice rng 0 ?best) \<le> gap_of (rank_sum ps) ?G q"
    using best_picks [of ?all _ "gap_of (rank_sum ps) ?G"] choice_in [OF some_best_pick, of ?all rng 0 "gap_of (rank_sum ps) ?G"] by blast+
  then have pick: "picks ps shape (choice rng 0 ?best)" by (simp add: picks_product)
  note teams = picked_teams [OF pick, folded AB]
  have both: "mset A + mset B = mset ps" using teams(2) whole by simp
  have gap: "gap_of (rank_sum ps) ?G (choice rng 0 ?best) = \<bar>rank_sum A - rank_sum B\<bar>"
    using teams(1) sums [OF both] by (simp add: gap_of_def)
  have "\<bar>rank_sum A - rank_sum B\<bar> \<le> \<bar>rank_sum A' - rank_sum B'\<bar>"
    if other: "mset A' + mset B' = mset ps" "\<forall>(role, n) \<in> set shape. length (in_role role A') = n" for A' B'
  proof -
    have sub: "mset A' \<subseteq># mset ps" using other(1) by (metis mset_subset_eq_add_left)
    obtain q where q: "picks ps shape q" "pick_sum ?G q = rank_sum (concat (groups_of A' shape))" using some_pick [OF sub other(2)] by blast
    have "\<forall>p \<in> set A'. pp_role p \<in> fst ` set shape" using sub pool(1) by (metis mset_subset_eqD set_mset_mset)
    then have "rank_sum (concat (groups_of A' shape)) = rank_sum A'" by (simp only: rank_sum_mset mset_by_roles [OF assms(1)])
    then have "gap_of (rank_sum ps) ?G q = \<bar>rank_sum A' - rank_sum B'\<bar>" using q(2) sums [OF other(1)] by (simp add: gap_of_def)
    then show ?thesis using chosen(2) [of q] q(1) gap by (simp add: picks_product)
  qed
  moreover have "length (in_role role A) = n \<and> length (in_role role B) = n" if rn: "(role, n) \<in> set shape" for role n
  proof -
    have A: "length (in_role role A) = n" using teams(3) [OF assms(1), of role] rn assms(1) by (simp add: dict_get_def)
    have "size (filter_mset (\<lambda>p. pp_role p = role) (mset A + mset B)) = 2 * n" using pool(2) rn both by (force simp: in_role_def simp flip: mset_filter)
    then have "length (in_role role A) + length (in_role role B) = 2 * n" by (simp add: in_role_def flip: mset_filter)
    then show ?thesis using A by simp
  qed
  ultimately show ?thesis using both by blast
qed

section \<open>Lobbies of a table\<close>

lemma traverse_Inr: "traverse f xs = Inr ys \<longleftrightarrow> list_all2 (\<lambda>x y. f x = Inr y) xs ys"
proof (induction xs arbitrary: ys)
  case (Cons x xs)
  show ?case
  proof (cases "f x")
    case (Inr y)
    have "map_sum id (Cons y) (traverse f xs) = Inr ys \<longleftrightarrow> (\<exists>zs. ys = y # zs \<and> traverse f xs = Inr zs)"
      by (cases "traverse f xs") auto
    then show ?thesis using Inr Cons.IH by (cases ys) auto
  qed (auto simp: list_all2_Cons1)
qed auto

lemma in_role_append [simp]: "in_role r (xs @ ys) = in_role r xs @ in_role r ys" and in_role_Nil [simp]: "in_role r [] = []"
  by (simp_all add: in_role_def)

definition keyed :: "(string, swiss_player list) dict \<Rightarrow> shape \<Rightarrow> bool" where
  "keyed order shape \<longleftrightarrow> (\<forall>(role, n) \<in> set shape. \<forall>p \<in> set (dict_get order role []). pp_role p = role)"

lemma in_role_lobby:
  assumes "keyed order shape" and "distinct (map fst shape)"
  shows "in_role r (lobby order shape i) = (case map_of shape r of None \<Rightarrow> []
    | Some n \<Rightarrow> take (2 * n) (drop (i * (2 * n)) (dict_get order r [])))"
  using assms
proof (induction shape)
  case (Cons rn shape)
  obtain role n where rn: "rn = (role, n)" by fastforce
  let ?part = "take (2 * n) (drop (i * (2 * n)) (dict_get order role []))"
  have "filter (\<lambda>p. pp_role p = r) ?part = (if r = role then ?part else [])"
    using Cons.prems(1) by (auto simp: keyed_def rn filter_empty_conv intro!: filter_True dest!: in_set_takeD in_set_dropD)
  then have part: "in_role r ?part = (if r = role then ?part else [])" by (simp add: in_role_def)
  have split: "lobby order (rn # shape) i = ?part @ lobby order shape i" by (simp add: lobby_def rn mult.assoc)
  have "map_of shape role = None" using Cons.prems(2) rn by (simp add: map_of_eq_None_iff image_iff)
  moreover have "in_role r (lobby order shape i) = (case map_of shape r of None \<Rightarrow> []
    | Some n \<Rightarrow> take (2 * n) (drop (i * (2 * n)) (dict_get order r [])))"
    using Cons by (auto simp: keyed_def)
  ultimately show ?case unfolding split in_role_append part by (auto simp: rn)
qed (simp add: lobby_def)

lemma lobby_roles: "keyed order shape \<Longrightarrow> p \<in> set (lobby order shape i) \<Longrightarrow> pp_role p \<in> fst ` set shape"
  by (force simp: lobby_def keyed_def dest!: in_set_takeD in_set_dropD)

text \<open>The table makes as many lobbies as its shortest role allows; read role by role the lobbies are the top
  of the table in its order, and every one of them can be split into two teams.\<close>

theorem lobbies_take_the_top:
  assumes "distinct (map fst shape)" and "keyed order shape" and "score_lobbies order shape = Inr ls"
  shows "(\<forall>(role, n) \<in> set shape. in_role role (concat ls) = take (length ls * (2 * n)) (dict_get order role [])) \<and>
    (\<exists>(role, n) \<in> set shape. length (dict_get order role []) < (length ls + 1) * (2 * n)) \<and>
    (\<forall>l \<in> set ls. \<exists>teams. split_two l shape rng = Inr teams)"
proof -
  obtain ns where ns: "list_all2 (\<lambda>rn n. lobbies_of order rn = Inr n) shape ns" "ns \<noteq> []"
    and ls: "ls = map (lobby order shape) [0..<Min (set ns)]"
    using assms(3) by (auto simp: score_lobbies_def traverse_Inr split: sum.splits list.splits)
  have lobbies: "lobbies_of order (role, n) = Inr m \<Longrightarrow> 0 < n \<and> m = length (dict_get order role []) div (2 * n)" for role n m
    by (auto simp: lobbies_of_def dict_get_def split: option.splits if_splits)
  have one: "0 < n \<and> (\<exists>m \<in> set ns. m = length (dict_get order role []) div (2 * n))" if mem: "(role, n) \<in> set shape" for role n
  proof -
    obtain i where i: "i < length shape" "shape ! i = (role, n)" using mem by (auto simp: in_set_conv_nth)
    then have "lobbies_of order (role, n) = Inr (ns ! i)" "ns ! i \<in> set ns"
      using list_all2_nthD [OF ns(1) i(1)] list_all2_lengthD [OF ns(1)] i by simp_all
    then show ?thesis using lobbies by blast
  qed
  have fits: "(i + 1) * (2 * n) \<le> length (dict_get order role [])" if "(role, n) \<in> set shape" "i < Min (set ns)" for role n i
  proof -
    have "i + 1 \<le> length (dict_get order role []) div (2 * n)"
      using one [OF that(1)] that(2) by (metis List.finite_set Min_le Suc_eq_plus1 Suc_leI le_trans)
    then show ?thesis using one [OF that(1)] by (simp add: less_eq_div_iff_mult_less_eq)
  qed
  have part: "in_role role (lobby order shape i) = take (2 * n) (drop (i * (2 * n)) (dict_get order role []))" if "(role, n) \<in> set shape" for role n i
    using in_role_lobby [OF assms(2,1)] that assms(1) by simp
  have "in_role role (concat ls) = take (length ls * (2 * n)) (dict_get order role [])" if "(role, n) \<in> set shape" for role n
  proof -
    have "in_role role (concat xs) = concat (map (in_role role) xs)" for xs by (induction xs) simp_all
    then have "in_role role (concat ls) = concat (map (\<lambda>i. take (2 * n) (drop (i * (2 * n)) (dict_get order role []))) [0..<Min (set ns)])"
      using part [OF that] by (simp add: ls o_def)
    then show ?thesis by (simp add: chunks ls)
  qed
  moreover have "\<exists>(role, n) \<in> set shape. length (dict_get order role []) < (length ls + 1) * (2 * n)"
  proof -
    have "Min (set ns) \<in> set ns" using ns(2) by (intro Min_in) auto
    then obtain i where i: "i < length ns" "ns ! i = Min (set ns)" by (auto simp: in_set_conv_nth)
    obtain role n where rn: "shape ! i = (role, n)" by fastforce
    have "i < length shape" using ns(1) i(1) by (simp add: list_all2_lengthD)
    then have mem: "(role, n) \<in> set shape" using rn by (metis nth_mem)
    have "lobbies_of order (role, n) = Inr (Min (set ns))" using list_all2_nthD2 [OF ns(1) i(1)] i(2) rn by simp
    then have "length (dict_get order role []) div (2 * n) = length ls" using lobbies by (simp add: ls)
    then have "length (dict_get order role []) < (length ls + 1) * (2 * n)"
      using one [OF mem] div_less_iff_less_mult [of "2 * n" "length (dict_get order role [])" "length ls + 1"] by simp
    then show ?thesis using mem by blast
  qed
  moreover have "\<exists>teams. split_two l shape rng = Inr teams" if "l \<in> set ls" for l
  proof -
    obtain i where i: "i < Min (set ns)" "l = lobby order shape i" using \<open>l \<in> set ls\<close> by (auto simp: ls)
    have "length (in_role role l) = n * 2" if rn: "(role, n) \<in> set shape" for role n
      using part [OF rn, of i] fits [OF rn i(1)] by (simp add: i(2))
    then have "by_role l shape 2 = Inr (map (\<lambda>(role, n). (role, in_role role l)) shape)"
      using lobby_roles [OF assms(2)] i(2) by (auto simp: by_role_Inr)
    then show ?thesis by (simp add: split_two_def Let_def)
  qed
  ultimately show ?thesis by blast
qed

section \<open>Pins\<close>

definition nones :: "'a option list \<Rightarrow> nat" where
  "nones slots = length (filter (\<lambda>s. s = None) slots)"

definition somes :: "'a option list \<Rightarrow> 'a list" where
  "somes slots = List.map_filter id slots"

lemma nones_simps [simp]: "nones [] = 0" "nones (None # s) = Suc (nones s)" "nones (Some m # s) = nones s"
  by (simp_all add: nones_def)

lemma somes_simps [simp]: "somes [] = []" "somes (None # s) = somes s" "somes (Some m # s) = m # somes s"
  by (simp_all add: somes_def map_filter_Cons map_filter_simps)

lemma fill_slots_all:
  "length rest = nones slots \<Longrightarrow> mset (fill_slots slots rest) = mset (somes slots) + mset rest \<and> length (fill_slots slots rest) = length slots"
  by (induction slots rest rule: fill_slots.induct) auto

lemma fill_slots_nth: "length rest = nones slots \<Longrightarrow> i < length slots \<Longrightarrow> slots ! i = Some m \<Longrightarrow> fill_slots slots rest ! i = m"
  by (induction slots rest arbitrary: i rule: fill_slots.induct) (auto simp: nth_Cons split: nat.splits)

lemma fill_slots_rest:
  "length rest = nones slots \<Longrightarrow> \<forall>s \<in> set (somes slots). \<not> P s \<Longrightarrow> \<forall>r \<in> set rest. P r \<Longrightarrow> filter P (fill_slots slots rest) = rest"
  by (induction slots rest rule: fill_slots.induct) auto

lemma free_slot_free:
  assumes "0 < nones slots"
  shows "free_slot slots lo < length slots \<and> slots ! free_slot slots lo = None"
proof -
  let ?free = "filter (\<lambda>i. slots ! i = None) [0..<length slots]"
  have "\<exists>i < length slots. slots ! i = None" using assms by (auto simp: nones_def filter_empty_conv in_set_conv_nth)
  then have "?free \<noteq> []" by (auto simp: filter_empty_conv)
  then have "free_slot slots lo \<in> set ?free"
    using last_in_set [of ?free] by (auto simp: free_slot_def Let_def dest: find_SomeD split: option.splits)
  then show ?thesis by simp
qed

lemma free_slot_wanted: "lo < length slots \<Longrightarrow> slots ! lo = None \<Longrightarrow> free_slot slots lo = lo"
proof -
  assume lo: "lo < length slots" "slots ! lo = None"
  have "find (\<lambda>i. lo \<le> i) (filter (\<lambda>i. slots ! i = None) [0..<length slots]) = Some lo"
  proof -
    have "[0..<length slots] = [0..<lo] @ lo # [Suc lo..<length slots]" using upt_add_eq_append [of 0 lo "length slots - lo"] lo(1) by (simp add: upt_conv_Cons)
    moreover have "find (\<lambda>i. lo \<le> i) (xs @ lo # ys) = Some lo" if "\<forall>x \<in> set xs. x < lo" for xs ys
      using that by (induction xs) auto
    ultimately show ?thesis using lo(2) by simp
  qed
  then show ?thesis by (simp add: free_slot_def)
qed

lemma place_counts:
  assumes "i < length slots" and "slots ! i = None"
  shows "Suc (nones (slots[i := Some m])) = nones slots \<and> mset (somes (slots[i := Some m])) = add_mset m (mset (somes slots))"
  using assms
proof (induction slots arbitrary: i)
  case (Cons s slots)
  show ?case
  proof (cases i)
    case (Suc j)
    then show ?thesis using Cons by (cases s) auto
  qed (use Cons in simp)
qed simp

lemma place_pins:
  "length qs \<le> nones slots \<Longrightarrow> nones (foldl place_pin slots qs) = nones slots - length qs \<and>
    mset (somes (foldl place_pin slots qs)) = mset (somes slots) + mset (map snd qs) \<and> length (foldl place_pin slots qs) = length slots"
proof (induction qs arbitrary: slots)
  case (Cons q qs)
  obtain pos m where q: "q = (pos, m)" by fastforce
  let ?slots = "place_pin slots q"
  have "0 < nones slots" using Cons.prems by simp
  note free = free_slot_free [OF this, of "pin_at pos (length slots)"]
  have one: "Suc (nones ?slots) = nones slots" "mset (somes ?slots) = add_mset m (mset (somes slots))" "length ?slots = length slots"
    using place_counts [OF conjunct1 [OF free] conjunct2 [OF free], of m] by (simp_all add: place_pin_def q)
  then have "length qs \<le> nones ?slots" using Cons.prems by simp
  from Cons.IH [OF this] show ?case using one by (simp add: q)
qed simp

lemma place_pins_exact:
  assumes "\<forall>(pos, m) \<in> set qs. 1 \<le> pos \<and> pos \<le> int (length slots) \<and> slots ! nat (pos - 1) = None" and "distinct (map fst qs)"
  shows "(\<forall>(pos, m) \<in> set qs. foldl place_pin slots qs ! nat (pos - 1) = Some m) \<and>
    (\<forall>i < length slots. slots ! i \<noteq> None \<longrightarrow> foldl place_pin slots qs ! i = slots ! i)"
  using assms
proof (induction qs arbitrary: slots)
  case (Cons q qs)
  obtain pos m where q: "q = (pos, m)" by fastforce
  let ?i = "nat (pos - 1)"
  have pos: "1 \<le> pos" "pos \<le> int (length slots)" "slots ! ?i = None" using Cons.prems(1) q by auto
  then have at_pos: "pin_at pos (length slots) = ?i" "?i < length slots" by (auto simp: pin_at_def)
  have slots': "place_pin slots q = slots[?i := Some m]"
    using free_slot_wanted [OF at_pos(2) pos(3)] at_pos(1) by (simp add: place_pin_def q)
  have others: "\<forall>(pos', m') \<in> set qs. 1 \<le> pos' \<and> pos' \<le> int (length slots) \<and> slots[?i := Some m] ! nat (pos' - 1) = None"
  proof (intro ballI)
    fix e assume e: "e \<in> set qs"
    obtain pos' m' where e': "e = (pos', m')" by fastforce
    have "pos' \<noteq> pos" using Cons.prems(2) e q e' by (force simp: image_iff)
    moreover have "1 \<le> pos' \<and> pos' \<le> int (length slots) \<and> slots ! nat (pos' - 1) = None" using Cons.prems(1) e e' by auto
    ultimately show "case e of (pos', m') \<Rightarrow> 1 \<le> pos' \<and> pos' \<le> int (length slots) \<and> slots[?i := Some m] ! nat (pos' - 1) = None"
      using pos by (auto simp: e' nth_list_update)
  qed
  have rest: "(\<forall>(pos', m') \<in> set qs. foldl place_pin (slots[?i := Some m]) qs ! nat (pos' - 1) = Some m') \<and>
    (\<forall>i < length slots. slots[?i := Some m] ! i \<noteq> None \<longrightarrow> foldl place_pin (slots[?i := Some m]) qs ! i = slots[?i := Some m] ! i)"
    using Cons.IH [of "slots[?i := Some m]"] others Cons.prems(2) by (simp add: q)
  then have "foldl place_pin (slots[?i := Some m]) qs ! ?i = Some m" using at_pos(2) by simp
  moreover have "foldl place_pin (slots[?i := Some m]) qs ! i = slots ! i" if "i < length slots" "slots ! i \<noteq> None" for i
    using rest that pos(3) by (metis nth_list_update_neq)
  ultimately show ?case using rest unfolding foldl.simps slots' by (simp add: q)
qed simp

text \<open>A pin decides one place and nothing else: the table is a permutation of the role's members, the
  unpinned ones stand in the order of points, map difference, Buchholz, rank and id, and pins that
  do not clash put every pinned member exactly where they say.\<close>

theorem pins_move_only_the_pinned:
  assumes "distinct (map sl_member ls)" and "distinct (map fst pins)"
  shows "mset (order_role ls pins) = mset (map sl_member ls) \<and>
    filter (\<lambda>m. m \<notin> fst ` set pins) (order_role ls pins) = filter (\<lambda>m. m \<notin> fst ` set pins) (map sl_member (sort_key standing_key ls)) \<and>
    (let here = filter (\<lambda>(m, pos). m \<in> sl_member ` set ls) pins
     in distinct (map snd here) \<and> (\<forall>(m, pos) \<in> set here. 1 \<le> pos \<and> pos \<le> int (length ls)) \<longrightarrow>
       (\<forall>(m, pos) \<in> set here. order_role ls pins ! nat (pos - 1) = m))"
proof -
  define ids where "ids = map sl_member (sort_key standing_key ls)"
  define pinned where "pinned = pinned_of ids pins"
  define slots where "slots = foldl place_pin (replicate (length ids) None) pinned"
  define rest where "rest = filter (\<lambda>m. m \<notin> snd ` set pinned) ids"
  have ids: "mset ids = mset (map sl_member ls)" "set ids = sl_member ` set ls" "length ids = length ls" by (simp_all add: ids_def)
  have "distinct ids" using assms(1) ids(1) by (metis mset_eq_imp_distinct_iff)
  have order: "order_role ls pins = fill_slots slots rest" by (simp add: order_role_def Let_def ids_def pinned_def slots_def rest_def)
  let ?here = "filter (\<lambda>(m, pos). m \<in> set ids) pins"
  have pinned: "mset pinned = mset (map (\<lambda>(m, pos). (pos, m)) ?here)" by (simp add: pinned_def pinned_of_def)
  have "map snd (map (\<lambda>(m, pos). (pos, m)) ?here) = map fst ?here" by (simp add: o_def split_beta)
  then have members: "mset (map snd pinned) = mset (map fst ?here)" using pinned by (metis mset_map)
  have dist: "distinct (map fst ?here)" using assms(2) by (rule distinct_map_filter)
  then have dist_p: "distinct (map snd pinned)" using members by (metis mset_eq_imp_distinct_iff)
  have set_p: "snd ` set pinned = {m \<in> set ids. m \<in> fst ` set pins}"
  proof -
    have "set (map snd pinned) = set (map fst ?here)" using members by (metis set_mset_mset)
    then show ?thesis by (auto simp: image_iff)
  qed
  have count: "length pinned \<le> length ids"
    using card_mono [of "set ids" "snd ` set pinned"] set_p dist_p \<open>distinct ids\<close> by (simp add: distinct_card flip: set_map)
  have start: "nones (replicate k (None :: int option)) = k" "somes (replicate k (None :: int option)) = []" for k by (induction k) simp_all
  note placed = place_pins [of pinned "replicate (length ids) None", unfolded start, OF count, folded slots_def]
  have "length rest + length pinned = length ids"
  proof -
    have "length (filter (\<lambda>m. m \<in> snd ` set pinned) ids) = card (snd ` set pinned)"
      using \<open>distinct ids\<close> set_p by (subst distinct_card [symmetric]) (auto intro: arg_cong [of _ _ card])
    also have "\<dots> = length pinned" using dist_p by (metis distinct_card length_map list.set_map)
    finally show ?thesis unfolding rest_def using sum_length_filter_compl [of "\<lambda>m. m \<in> snd ` set pinned" ids] by simp
  qed
  then have fit: "length rest = nones slots" using placed by simp
  have somes: "set (somes slots) = snd ` set pinned" using placed by (metis add.left_neutral list.set_map mset.simps(1) set_mset_mset)
  have "mset (fill_slots slots rest) = mset ids"
  proof -
    have "mset (map snd pinned) = mset (filter (\<lambda>m. m \<in> snd ` set pinned) ids)"
      using dist_p \<open>distinct ids\<close> set_p by (intro set_eq_iff_mset_eq_distinct [THEN iffD1]) auto
    moreover have "mset (filter (\<lambda>m. m \<in> snd ` set pinned) ids) + mset rest = mset ids" by (simp add: rest_def)
    ultimately show ?thesis using fill_slots_all [OF fit] placed by simp
  qed
  moreover have "filter (\<lambda>m. m \<notin> fst ` set pins) (fill_slots slots rest) = filter (\<lambda>m. m \<notin> fst ` set pins) ids"
  proof -
    have "filter (\<lambda>m. m \<notin> fst ` set pins) (fill_slots slots rest) = rest"
      using somes set_p by (intro fill_slots_rest [OF fit]) (auto simp: rest_def)
    also have "rest = filter (\<lambda>m. m \<notin> fst ` set pins) ids" using set_p by (auto simp: rest_def intro!: filter_cong)
    finally show ?thesis .
  qed
  moreover have "fill_slots slots rest ! nat (pos - 1) = m"
    if free: "distinct (map snd ?here)" "\<forall>(m, pos) \<in> set ?here. 1 \<le> pos \<and> pos \<le> int (length ids)" and at: "(m, pos) \<in> set ?here" for m pos
  proof -
    have "set pinned = set (map (\<lambda>(m, pos). (pos, m)) ?here)" using pinned by (metis set_mset_mset)
    then have in_p: "(pos', m') \<in> set pinned \<longleftrightarrow> (m', pos') \<in> set ?here" for pos' m' by force
    have "map fst (map (\<lambda>(m, pos). (pos, m)) ?here) = map snd ?here" by (simp add: o_def split_beta)
    then have "mset (map fst pinned) = mset (map snd ?here)" using pinned by (metis mset_map)
    then have "distinct (map fst pinned)" using free(1) by (metis mset_eq_imp_distinct_iff)
    moreover have "\<forall>(pos, m) \<in> set pinned. 1 \<le> pos \<and> pos \<le> int (length (replicate (length ids) (None :: int option))) \<and>
        replicate (length ids) (None :: int option) ! nat (pos - 1) = None" using in_p free(2) by fastforce
    ultimately have "\<forall>(pos, m) \<in> set pinned. slots ! nat (pos - 1) = Some m" unfolding slots_def by (intro place_pins_exact [THEN conjunct1])
    then have "slots ! nat (pos - 1) = Some m" using in_p at by blast
    moreover have "nat (pos - 1) < length slots" using free(2) at placed by fastforce
    ultimately show ?thesis by (intro fill_slots_nth [OF fit])
  qed
  ultimately show ?thesis unfolding order ids_def [symmetric] Let_def ids(3) [symmetric] ids(2) [symmetric] ids(1) [symmetric] by blast
qed

section \<open>A small pool\<close>

definition player :: "int \<Rightarrow> string \<Rightarrow> int \<Rightarrow> swiss_player" where
  "player m role rank = \<lparr>pp_member = m, pp_registration = None, pp_name = show_int m, pp_role = role, pp_rank = rank\<rparr>"

definition duo :: shape where
  "duo = [(''tank'', 1), (''support'', 1)]"

definition four_players :: "swiss_player list" where
  "four_players = [player 1 ''tank'' 30, player 2 ''support'' 40, player 3 ''tank'' 10, player 4 ''support'' 20]"

definition no_shuffle :: rng where
  "no_shuffle _ i = i"

lemma duo_keys: "distinct (map fst duo)"
  by (simp add: duo_def)

lemma four_split:
  "split_pool four_players duo 2 no_shuffle = Inr [[player 3 ''tank'' 10, player 2 ''support'' 40], [player 1 ''tank'' 30, player 4 ''support'' 20]]"
  "split_two four_players duo no_shuffle = Inr ([player 1 ''tank'' 30, player 4 ''support'' 20], [player 3 ''tank'' 10, player 2 ''support'' 40])"
  "teams_per_round four_players duo = Inr 2"
  by code_simp+

theorem split_pool_even_witness:
  "\<exists>teams. split_pool four_players duo 2 no_shuffle = Inr teams \<and> mset (concat teams) = mset four_players \<and>
     spread (map rank_sum teams) \<le> spread (map rank_sum (exchanged teams 0 0 1 0))"
proof -
  let ?teams = "[[player 3 ''tank'' 10, player 2 ''support'' 40], [player 1 ''tank'' 30, player 4 ''support'' 20]]"
  note even = split_pool_even [OF duo_keys four_split(1)]
  have "spread (map rank_sum ?teams) \<le> spread (map rank_sum (exchanged ?teams 0 0 1 0))"
    using even by (simp add: player_def)
  then show ?thesis using even four_split(1) by blast
qed

theorem accepted_pool_forms_a_round_witness:
  "\<exists>teams pairs. split_pool four_players duo 2 no_shuffle = Inr teams \<and> pair_randomly teams no_shuffle = Inr pairs \<and> length pairs = 1"
  using accepted_pool_forms_a_round [OF duo_keys four_split(3), of no_shuffle no_shuffle] by fastforce

theorem split_two_optimal_witness:
  "\<exists>A B. split_two four_players duo no_shuffle = Inr (A, B) \<and> mset A + mset B = mset four_players \<and>
     \<bar>rank_sum A - rank_sum B\<bar> \<le> \<bar>rank_sum [player 1 ''tank'' 30, player 2 ''support'' 40] - rank_sum [player 3 ''tank'' 10, player 4 ''support'' 20]\<bar>"
proof -
  note best = split_two_optimal [OF duo_keys four_split(2)]
  have "mset [player 1 ''tank'' 30, player 2 ''support'' 40] + mset [player 3 ''tank'' 10, player 4 ''support'' 20] = mset four_players"
    "\<forall>(role, n) \<in> set duo. length (in_role role [player 1 ''tank'' 30, player 2 ''support'' 40]) = n"
    by (simp_all add: four_players_def duo_def in_role_def player_def)
  then show ?thesis using best four_split(2) by blast
qed

definition duo_order :: "(string, swiss_player list) dict" where
  "duo_order = [(''tank'', [player 1 ''tank'' 30, player 3 ''tank'' 10, player 5 ''tank'' 5]), (''support'', [player 2 ''support'' 40, player 4 ''support'' 20])]"

theorem lobbies_take_the_top_witness:
  "\<exists>l. score_lobbies duo_order duo = Inr [l] \<and> in_role ''tank'' l = [player 1 ''tank'' 30, player 3 ''tank'' 10] \<and>
     (\<exists>teams. split_two l duo no_shuffle = Inr teams)"
proof -
  have ls: "score_lobbies duo_order duo = Inr [lobby duo_order duo 0]" by code_simp
  have keyed: "keyed duo_order duo" by (simp add: keyed_def duo_def duo_order_def player_def)
  note top = lobbies_take_the_top [OF duo_keys keyed ls, of no_shuffle]
  then show ?thesis using ls by (intro exI [of _ "lobby duo_order duo 0"]) (simp add: duo_def duo_order_def)
qed

definition table_line :: "int \<Rightarrow> rat \<Rightarrow> standing_line" where
  "table_line m points = \<lparr>sl_member = m, sl_role = ''tank'', sl_rank = 0, sl_points = points, sl_map_diff = 0, sl_buchholz = 0\<rparr>"

theorem pins_move_only_the_pinned_witness:
  "order_role (map (\<lambda>m. table_line m (of_int m)) [1, 2, 3]) [(1, 1)] = [1, 3, 2] \<and>
   order_role (map (\<lambda>m. table_line m (of_int m)) [1, 2, 3]) [(1, 1)] ! 0 = 1"
proof -
  have "order_role (map (\<lambda>m. table_line m (of_int m)) [1, 2, 3]) [(1, 1)] = [1, 3, 2]" by code_simp
  then show ?thesis using pins_move_only_the_pinned [of "map (\<lambda>m. table_line m (of_int m)) [1, 2, 3]" "[(1, 1)]"]
    by (simp add: table_line_def)
qed

end
