(* ===== verification/Stage_Seeds.thy ===== *)
theory Stage_Seeds
  imports Complex_Main Bracket_Engine Random_Choice
begin

text \<open>
  The order in which a stage's teams are seated: \<open>tournament-service/src/domain/stage/seeds.py\<close>. The
  seed rankings, the deal into groups, the wiring of a playoff from group places with the swaps that
  keep a group's teams apart in the first round, and the plan that gives every advancing result a stage
  item and a slot. Strengths are floats that are only negated and compared; they are read as the
  rationals they stand for.
\<close>

section \<open>Rankings\<close>

datatype seed_ranking = By_Slot | By_Source | By_Avg_Sr | By_Total_Sr | By_Random | By_Captain_Rank | By_Cross | By_Snake

definition seated_order :: "seed_ranking set" where
  "seated_order = {By_Slot, By_Source, By_Cross, By_Snake}"

record rankable_team =
  rt_id :: int
  rt_avg_sr :: "rat option"
  rt_total_sr :: "rat option"

definition parse_seed_mode :: "string \<Rightarrow> seed_ranking option" where
  "parse_seed_mode mode = map_of [(''snake_sr'', By_Avg_Sr), (''by_total_sr'', By_Total_Sr), (''random'', By_Random), (''captain_rank'', By_Captain_Rank)] mode"

text \<open>The group of the \<open>i\<close>-th team; the division by zero groups raises.\<close>

definition group_for_index :: "nat \<Rightarrow> nat \<Rightarrow> bool \<Rightarrow> nat option" where
  "group_for_index i n snake =
    (if n = 0 then None
     else if \<not> snake then Some (i mod n)
     else Some (if even (i div n) then i mod n else n - 1 - i mod n))"

definition or_zero :: "'a::zero option \<Rightarrow> 'a" where
  "or_zero x = (case x of None \<Rightarrow> 0 | Some v \<Rightarrow> v)"

definition rank_team_ids :: "rankable_team list \<Rightarrow> seed_ranking \<Rightarrow> rng \<Rightarrow> (int, int option) dict \<Rightarrow> int list" where
  "rank_team_ids teams ranking rng captain_ranks =
    (case ranking of
       By_Avg_Sr \<Rightarrow> map rt_id (sort_key (\<lambda>t. (- or_zero (rt_avg_sr t), rt_id t)) teams)
     | By_Total_Sr \<Rightarrow> map rt_id (sort_key (\<lambda>t. (- or_zero (rt_total_sr t), rt_id t)) teams)
     | By_Captain_Rank \<Rightarrow> map rt_id (sort_key (\<lambda>t. (- or_zero (dict_get captain_ranks (rt_id t) None), rt_id t)) teams)
     | By_Random \<Rightarrow> shuffle rng 0 (map rt_id teams)
     | _ \<Rightarrow> map rt_id teams)"

definition apply_seed_ranking :: "int list \<Rightarrow> (int, rankable_team) dict \<Rightarrow> seed_ranking \<Rightarrow> rng \<Rightarrow> int list" where
  "apply_seed_ranking ids by_id ranking rng =
    (if ranking \<in> seated_order \<or> ids = [] then ids
     else if list_ex (\<lambda>i. i \<le> 0 \<or> \<not> dict_has by_id i) ids then ids
     else rank_team_ids (map (\<lambda>i. the (map_of by_id i)) ids) ranking rng [])"

section \<open>Who is wired into a bracket stage\<close>

datatype item_type = Group_Item | Bracket_Upper | Bracket_Lower | Single_Bracket

datatype input_type = Final_Input | Empty_Input

record item_input =
  in_slot :: int
  in_team :: "int option"
  in_type :: "input_type option"

record stage_item =
  si_id :: int
  si_type :: item_type
  si_order :: int
  si_inputs :: "item_input list"

definition lower_bracket_item :: "stage_type \<Rightarrow> stage_item list \<Rightarrow> stage_item option" where
  "lower_bracket_item st items = (if st \<noteq> DOUBLE_ELIMINATION then None else find (\<lambda>i. si_type i = Bracket_Lower) items)"

definition collect_item_team_ids :: "stage_item \<Rightarrow> int list" where
  "collect_item_team_ids item =
    List.map_filter (\<lambda>inp. if in_team inp \<noteq> None \<and> in_type inp \<noteq> Some Empty_Input then in_team inp else None)
      (sort_key in_slot (si_inputs item))"

text \<open>\<open>item is not lb_item\<close> compares objects; the items of one stage have different ids.\<close>

definition bracket_seeds :: "stage_item list \<Rightarrow> stage_item option \<Rightarrow> (stage_item \<Rightarrow> int list) \<Rightarrow> int list \<times> int list" where
  "bracket_seeds items lb collect =
    (concat (map (\<lambda>i. if map_option si_id lb = Some (si_id i) then [] else collect i) items),
     case lb of None \<Rightarrow> [] | Some i \<Rightarrow> collect i)"

definition team_for :: "(int, int) dict \<Rightarrow> int option \<Rightarrow> int option" where
  "team_for teams seed = (case seed of None \<Rightarrow> None | Some s \<Rightarrow> if 0 \<le> s then Some s else map_of teams s)"

definition resolve_seeds :: "bracket_skeleton \<Rightarrow> (int, int) dict \<Rightarrow> bracket_skeleton" where
  "resolve_seeds sk teams = sk\<lparr>pairings := map (\<lambda>p. p\<lparr>team_ids := map (team_for teams) (team_ids p)\<rparr>) (pairings sk)\<rparr>"

section \<open>A playoff from groups\<close>

record group_slice =
  gs_item :: int
  gs_start :: int
  gs_count :: nat

definition build_seeding :: "group_slice list \<Rightarrow> bool \<Rightarrow> (int \<times> int) list" where
  "build_seeding slices snake =
    concat (map (\<lambda>col.
        map (\<lambda>g. (gs_item g, gs_start g + int col))
          (filter (\<lambda>g. col < gs_count g) (if \<not> snake \<and> odd col then rev slices else slices)))
      [0..<(if slices = [] then 0 else Max (set (map gs_count slices)))])"

fun bit_length :: "nat \<Rightarrow> nat" where
  "bit_length n = (if n = 0 then 0 else Suc (bit_length (n div 2)))"

declare bit_length.simps [simp del]

text \<open>The two seeds of every first-round match that is played, in the order of the layout.\<close>

definition opening_matches :: "nat \<Rightarrow> (nat \<times> nat) list" where
  "opening_matches n = filter (\<lambda>(home, away). home < n \<and> away < n) (adjacent_pairs (seeding_order (2 ^ bit_length (n - 1))))"

definition opponents :: "nat \<Rightarrow> (nat, nat) dict" where
  "opponents n = foldl (\<lambda>d (home, away). dict_set away home (dict_set home away d)) [] (opening_matches n)"

definition clashes :: "(nat, nat) dict \<Rightarrow> ('g \<times> 'p) list \<Rightarrow> nat \<Rightarrow> bool" where
  "clashes opp order seed = (case map_of opp seed of None \<Rightarrow> False | Some other \<Rightarrow> fst (order ! seed) = fst (order ! other))"

definition swap_at :: "nat \<Rightarrow> nat \<Rightarrow> 'a list \<Rightarrow> 'a list" where
  "swap_at i j xs = xs[i := xs ! j, j := xs ! i]"

text \<open>The inner loop: the first candidate of the same place whose swap leaves neither seat clashing.\<close>

fun first_repair :: "(nat, nat) dict \<Rightarrow> nat \<Rightarrow> nat \<Rightarrow> nat list \<Rightarrow> ('g \<times> 'p) list \<Rightarrow> ('g \<times> 'p) list" where
  "first_repair opp better lower [] order = order"
| "first_repair opp better lower (c # cs) order =
    (if c = better \<or> c = lower \<or> snd (order ! c) \<noteq> snd (order ! lower) then first_repair opp better lower cs order
     else let swapped = swap_at lower c order
       in if \<not> clashes opp swapped lower \<and> \<not> clashes opp swapped c then swapped
          else first_repair opp better lower cs order)"

definition repair_seed :: "(nat, nat) dict \<Rightarrow> ('g \<times> 'p) list \<Rightarrow> nat \<Rightarrow> ('g \<times> 'p) list" where
  "repair_seed opp order better =
    (case map_of opp better of
       None \<Rightarrow> order
     | Some lower \<Rightarrow> if lower < better \<or> \<not> clashes opp order better then order
         else first_repair opp better lower [0..<length order] order)"

definition separate_groups :: "('g \<times> 'p) list \<Rightarrow> ('g \<times> 'p) list" where
  "separate_groups seeding =
    (if length seeding < 2 then seeding
     else let opp = opponents (length seeding)
       in foldl (repair_seed opp) seeding (sort (map fst opp)))"

section \<open>Seating the results\<close>

record seat_source =
  ss_result :: int
  ss_team :: int
  ss_item :: "int option"
  ss_rank :: "int option"
  ss_lower :: bool

datatype seat_error = No_Lower_Item | No_Upper_Item | No_Groups

definition band_rows :: "seat_source list \<Rightarrow> (int, seat_source list) dict" where
  "band_rows band = foldl (\<lambda>d one. dict_set (or_zero (ss_item one)) (dict_get d (or_zero (ss_item one)) [] @ [one]) d) []
     (sort_key (\<lambda>one. or_zero (ss_rank one)) band)"

definition band_slices :: "(int, seat_source list) dict \<Rightarrow> (int, int) dict \<Rightarrow> group_slice list" where
  "band_slices by_item item_order =
    map (\<lambda>(item, rows). \<lparr>gs_item = item, gs_start = 1, gs_count = length rows\<rparr>)
      (sort_key (\<lambda>(item, rows). (dict_get item_order item (int (length by_item)), item)) by_item)"

definition seat_band :: "seat_source list \<Rightarrow> seed_ranking \<Rightarrow> bool \<Rightarrow> (int, int) dict \<Rightarrow> seat_source list" where
  "seat_band band ranking arrange item_order =
    (if ranking \<notin> {By_Cross, By_Snake} \<or> list_ex (\<lambda>one. ss_item one = None \<or> ss_rank one = None) band then band
     else let by_item = band_rows band;
              seeding = build_seeding (band_slices by_item item_order) (ranking = By_Snake);
              arranged = (if arrange then separate_groups seeding else seeding)
       in map (\<lambda>(item, place). dict_get by_item item [] ! nat (place - 1)) arranged)"

definition plan_seats ::
  "seat_source list \<Rightarrow> seed_ranking \<Rightarrow> stage_item list \<Rightarrow> bool \<Rightarrow> bool \<Rightarrow> (int, int) dict \<Rightarrow> rng \<Rightarrow>
   seat_error + (int, seat_source list) dict" where
  "plan_seats sources ranking targets double_elim arrange item_order rng =
    (let items = sort_key si_order targets;
         empty = foldl (\<lambda>d i. dict_set (si_id i) [] d) [] items
     in if \<not> list_ex (\<lambda>i. si_type i \<noteq> Group_Item) items then
          let rows = (if ranking = By_Random then shuffle rng 0 sources else sources)
          in if rows \<noteq> [] \<and> items = [] then Inl No_Groups
             else Inr (foldl (\<lambda>plan (k, one).
                 let target = si_id (items ! the (group_for_index k (length items) (ranking \<noteq> By_Random)))
                 in dict_set target (dict_get plan target [] @ [one]) plan) empty (enumerate 0 rows))
        else
          let lower_item = find (\<lambda>i. si_type i = Bracket_Lower) items;
              lower = (if double_elim then filter ss_lower sources else []);
              upper = filter (\<lambda>one. \<not> (double_elim \<and> ss_lower one)) sources
          in case find (\<lambda>i. si_type i \<noteq> Bracket_Lower) items of
               None \<Rightarrow> Inl No_Upper_Item
             | Some upper_item \<Rightarrow>
                 if lower \<noteq> [] \<and> lower_item = None then Inl No_Lower_Item
                 else let plan = dict_set (si_id upper_item) (seat_band upper ranking arrange item_order) empty
                   in Inr (case lower_item of
                        None \<Rightarrow> plan
                      | Some l \<Rightarrow> dict_set (si_id l) (seat_band lower ranking arrange item_order) plan))"

section \<open>Who opens against whom\<close>

lemma bit_length_pow: "n < 2 ^ bit_length n"
  by (induction n rule: bit_length.induct) (subst bit_length.simps, auto)

lemma bit_length_least: "0 < n \<Longrightarrow> 2 ^ bit_length n \<le> 2 * n"
proof (induction n rule: bit_length.induct)
  case (1 n)
  have b: "bit_length n = Suc (bit_length (n div 2))" using 1(2) by (subst bit_length.simps) simp
  show ?case
  proof (cases "n div 2 = 0")
    case True
    then have "bit_length (n div 2) = 0" by (simp add: bit_length.simps [of 0])
    then show ?thesis using b 1(2) by simp
  next
    case False
    then have "2 ^ bit_length (n div 2) \<le> 2 * (n div 2)" using 1 by simp
    then show ?thesis using b by simp
  qed
qed

lemma adjacent_pairs_flat: "even (length xs) \<Longrightarrow> concat (map (\<lambda>(a, b). [a, b]) (adjacent_pairs xs)) = xs"
  by (induction xs rule: adjacent_pairs.induct) auto

definition flat :: "('a \<times> 'a) list \<Rightarrow> 'a list" where
  "flat ps = concat (map (\<lambda>(a, b). [a, b]) ps)"

lemma flat_simps [simp]: "flat [] = []" "flat ((a, b) # ps) = a # b # flat ps"
  by (simp_all add: flat_def)

lemma set_flat: "set (flat ps) = fst ` set ps \<union> snd ` set ps"
proof (induction ps)
  case (Cons p ps)
  then show ?case by (cases p) force
qed simp

lemma distinct_flat_filter: "distinct (flat ps) \<Longrightarrow> distinct (flat (filter P ps))"
proof (induction ps)
  case (Cons p ps)
  then show ?case by (cases p) (auto simp: set_flat image_iff)
qed simp

lemma opening_matches_flat: "distinct (flat (opening_matches n)) \<and> set (flat (opening_matches n)) \<subseteq> {..<n}"
proof -
  let ?k = "bit_length (n - 1)"
  have "distinct (flat (adjacent_pairs (seeding_order (2 ^ ?k))))"
  proof (cases "?k = 0")
    case True
    then show ?thesis by simp
  next
    case False
    then have "even (length (seeding_order (2 ^ ?k)))" by simp
    then have "flat (adjacent_pairs (seeding_order (2 ^ ?k))) = seeding_order (2 ^ ?k)" unfolding flat_def by (rule adjacent_pairs_flat)
    moreover have "distinct (seeding_order (2 ^ ?k))" using mset_seeding_order [of ?k] by (metis distinct_upt mset_eq_imp_distinct_iff)
    ultimately show ?thesis by simp
  qed
  then show ?thesis unfolding opening_matches_def using distinct_flat_filter by (auto simp: set_flat)
qed

lemma match_dict:
  assumes "distinct (flat ms @ map fst d)" and "distinct (map fst d)"
  shows "map_of (foldl (\<lambda>d (home, away). dict_set away home (dict_set home away d)) d ms) a = Some b \<longleftrightarrow>
    (a, b) \<in> set ms \<or> (b, a) \<in> set ms \<or> map_of d a = Some b"
  using assms
proof (induction ms arbitrary: d)
  case (Cons m ms)
  obtain x y where m: "m = (x, y)" by fastforce
  let ?d = "dict_set y x (dict_set x y d)"
  have new: "x \<noteq> y" "x \<notin> fst ` set d" "y \<notin> fst ` set d" "x \<notin> set (flat ms)" "y \<notin> set (flat ms)" using Cons.prems(1) m by auto
  have keys: "set (map fst ?d) = insert x (insert y (set (map fst d)))" by (auto simp: keys_dict_set)
  have dist: "distinct (map fst ?d)" using Cons.prems(2) by simp
  have "distinct (flat ms @ map fst ?d)" using Cons.prems(1) dist keys m new by (auto simp del: distinct_keys_dict_set set_map)
  from Cons.IH [OF this dist] have "map_of (foldl (\<lambda>d (home, away). dict_set away home (dict_set home away d)) ?d ms) a = Some b \<longleftrightarrow>
    (a, b) \<in> set ms \<or> (b, a) \<in> set ms \<or> map_of ?d a = Some b" .
  moreover have "map_of d x = None" "map_of d y = None" using new by (simp_all add: map_of_eq_None_iff)
  ultimately show ?case using m new(1) by (auto simp: map_of_dict_set_at)
qed simp

lemma opponents_iff: "map_of (opponents n) a = Some b \<longleftrightarrow> (a, b) \<in> set (opening_matches n) \<or> (b, a) \<in> set (opening_matches n)"
  using match_dict [of "opening_matches n" "[]" a b] opening_matches_flat [of n] by (simp add: opponents_def)

lemma flat_partner:
  "distinct (flat ms) \<Longrightarrow> (a, b) \<in> set ms \<or> (b, a) \<in> set ms \<Longrightarrow> (a, c) \<in> set ms \<or> (c, a) \<in> set ms \<Longrightarrow> a \<noteq> b \<and> b = c"
proof (induction ms)
  case (Cons m ms)
  obtain x y where m: "m = (x, y)" by fastforce
  then have "x \<noteq> y" "x \<notin> set (flat ms)" "y \<notin> set (flat ms)" "distinct (flat ms)" using Cons.prems(1) by auto
  then show ?case using Cons.IH Cons.prems(2,3) m by (auto simp: set_flat image_iff)
qed simp

text \<open>Every seat has at most one opponent, and opponents oppose each other.\<close>

lemma opponent_facts:
  assumes "map_of (opponents n) a = Some b"
  shows "map_of (opponents n) b = Some a" and "a \<noteq> b" and "a < n" and "b < n"
proof -
  have m: "(a, b) \<in> set (opening_matches n) \<or> (b, a) \<in> set (opening_matches n)" using assms by (simp add: opponents_iff)
  show "map_of (opponents n) b = Some a" using m by (auto simp: opponents_iff)
  show "a \<noteq> b" using flat_partner [OF _ m m] opening_matches_flat [of n] by blast
  have "a \<in> set (flat (opening_matches n))" "b \<in> set (flat (opening_matches n))" using m by (force simp: set_flat)+
  then show "a < n" "b < n" using opening_matches_flat [of n] by auto
qed

section \<open>Keeping a group's teams apart\<close>

lemma swap_at_length [simp]: "length (swap_at i j xs) = length xs"
  by (simp add: swap_at_def)

lemma swap_at_nth: "i < length xs \<Longrightarrow> j < length xs \<Longrightarrow> swap_at i j xs ! k = (if k = i then xs ! j else if k = j then xs ! i else xs ! k)"
  by (cases "k < length xs") (auto simp: swap_at_def nth_list_update)

lemma mset_swap_at: "i < length xs \<Longrightarrow> j < length xs \<Longrightarrow> mset (swap_at i j xs) = mset xs"
  by (simp add: swap_at_def mset_swap)

lemma swap_at_same:
  assumes "i < length xs" and "j < length xs" and "f (xs ! i) = f (xs ! j)"
  shows "map f (swap_at i j xs) = map f xs"
proof (rule nth_equalityI)
  fix k assume "k < length (map f (swap_at i j xs))"
  then have "k < length xs" by simp
  then show "map f (swap_at i j xs) ! k = map f xs ! k" using assms(3) swap_at_nth [OF assms(1,2), of k] by simp
qed simp

text \<open>Every place has as many seats as any group sends teams.\<close>

definition roomy :: "('g \<times> 'p) list \<Rightarrow> bool" where
  "roomy order \<longleftrightarrow> (\<forall>x\<in>set order. \<forall>y\<in>set order. length (filter (\<lambda>z. fst z = fst x) order) \<le> length (filter (\<lambda>z. snd z = snd y) order))"

lemma roomy_perm: "mset xs = mset ys \<Longrightarrow> roomy xs = roomy ys"
  unfolding roomy_def by (metis (no_types, lifting) mset_eq_setD mset_filter size_mset)

text \<open>What the repair asks of the draw: opponents oppose each other, and every one has a seat.\<close>

locale draw =
  fixes opp :: "(nat, nat) dict" and n :: nat
  assumes mutual: "map_of opp a = Some b \<Longrightarrow> map_of opp b = Some a"
    and other_seat: "map_of opp a = Some b \<Longrightarrow> a \<noteq> b"
    and seated: "map_of opp a = Some b \<Longrightarrow> a < n"
begin

lemma clash_mutual: "map_of opp a = Some b \<Longrightarrow> clashes opp order a = clashes opp order b"
  using mutual [of a b] by (cases "map_of opp b") (auto simp: clashes_def)

definition good :: "('g \<times> 'p) list \<Rightarrow> nat \<Rightarrow> nat \<Rightarrow> nat \<Rightarrow> bool" where
  "good order better lower c \<longleftrightarrow> c \<noteq> better \<and> c \<noteq> lower \<and> snd (order ! c) = snd (order ! lower) \<and>
    \<not> clashes opp (swap_at lower c order) lower \<and> \<not> clashes opp (swap_at lower c order) c"

lemma first_repair_cases:
  "(first_repair opp better lower cs order = order \<and> (\<forall>c\<in>set cs. \<not> good order better lower c)) \<or>
   (\<exists>c\<in>set cs. good order better lower c \<and> first_repair opp better lower cs order = swap_at lower c order)"
proof (induction cs)
  case (Cons c cs)
  show ?case
  proof (cases "good order better lower c")
    case True
    then have "first_repair opp better lower (c # cs) order = swap_at lower c order" by (simp add: good_def Let_def)
    then show ?thesis using True by auto
  next
    case False
    then have "first_repair opp better lower (c # cs) order = first_repair opp better lower cs order" by (auto simp: good_def Let_def)
    then show ?thesis using Cons False by auto
  qed
qed simp

text \<open>One repair: nothing, or a swap of two seats of one place that leaves no clash at either.\<close>

lemma repair_seed_cases:
  assumes "length order = n"
  shows "(repair_seed opp order better = order \<and>
      (\<forall>lower. map_of opp better = Some lower \<longrightarrow> better < lower \<longrightarrow> clashes opp order better \<longrightarrow> (\<forall>c<n. \<not> good order better lower c))) \<or>
    (\<exists>lower c. map_of opp better = Some lower \<and> c < n \<and> lower < n \<and> good order better lower c \<and> repair_seed opp order better = swap_at lower c order)"
proof (cases "map_of opp better")
  case None
  then show ?thesis by (simp add: repair_seed_def)
next
  case (Some lower)
  have lt: "lower < n" using mutual [OF Some] seated by blast
  show ?thesis
  proof (cases "lower < better \<or> \<not> clashes opp order better")
    case True
    then show ?thesis using Some by (auto simp: repair_seed_def)
  next
    case False
    then have "repair_seed opp order better = first_repair opp better lower [0..<n] order" using Some assms by (simp add: repair_seed_def)
    then show ?thesis using first_repair_cases [of better lower "[0..<n]" order] Some lt by (elim disjE) (auto simp: atLeast0LessThan)
  qed
qed

lemma repair_seed_keeps:
  assumes "length order = n"
  shows "mset (repair_seed opp order better) = mset order" and "map snd (repair_seed opp order better) = map snd order"
    and "\<not> clashes opp order s \<Longrightarrow> \<not> clashes opp (repair_seed opp order better) s"
proof -
  consider "repair_seed opp order better = order" | (swap) lower c where "c < n" "lower < n" "good order better lower c" "repair_seed opp order better = swap_at lower c order"
    using repair_seed_cases [OF assms, of better] by blast
  then have "mset (repair_seed opp order better) = mset order \<and> map snd (repair_seed opp order better) = map snd order \<and>
      (\<not> clashes opp order s \<longrightarrow> \<not> clashes opp (repair_seed opp order better) s)"
  proof cases
    case swap
    let ?new = "swap_at lower c order"
    have nc: "\<not> clashes opp ?new lower" "\<not> clashes opp ?new c" using swap(3) by (auto simp: good_def)
    have "\<not> clashes opp ?new s" if calm: "\<not> clashes opp order s"
    proof (cases "map_of opp s")
      case None
      then show ?thesis by (simp add: clashes_def)
    next
      case (Some t)
      show ?thesis
      proof (cases "{s, t} \<inter> {lower, c} = {}")
        case True
        then show ?thesis using calm Some swap(1,2) assms by (auto simp: clashes_def swap_at_nth)
      next
        case False
        then show ?thesis using nc clash_mutual [OF Some] by auto
      qed
    qed
    then show ?thesis using swap assms by (auto simp: good_def mset_swap_at swap_at_same)
  qed simp
  then show "mset (repair_seed opp order better) = mset order" "map snd (repair_seed opp order better) = map snd order"
    "\<not> clashes opp order s \<Longrightarrow> \<not> clashes opp (repair_seed opp order better) s" by blast+
qed

lemma repairs_keep:
  assumes "length order = n"
  shows "mset (foldl (repair_seed opp) order bs) = mset order \<and> map snd (foldl (repair_seed opp) order bs) = map snd order \<and>
    (\<forall>s. clashes opp (foldl (repair_seed opp) order bs) s \<longrightarrow> clashes opp order s)"
  using assms
proof (induction bs arbitrary: order)
  case (Cons b bs)
  note one = repair_seed_keeps [OF Cons.prems]
  have len: "length (repair_seed opp order b) = n" using one(1) Cons.prems by (metis size_mset)
  have "clashes opp order s" if "clashes opp (repair_seed opp order b) s" for s using that one(3) by blast
  then show ?case using Cons.IH [OF len] one(1,2) by auto
qed simp

text \<open>A clash has a good swap whenever the place of the lower seed has as many seats as the clashing group.\<close>

lemma good_exists:
  assumes len: "length order = n" and dist: "distinct order" and opp: "map_of opp better = Some lower" and clash: "clashes opp order better"
    and room: "card {s. s < n \<and> fst (order ! s) = fst (order ! better)} \<le> card {s. s < n \<and> snd (order ! s) = snd (order ! lower)}"
  shows "\<exists>c<n. good order better lower c"
proof -
  let ?G = "{s. s < n \<and> fst (order ! s) = fst (order ! better)}"
  let ?B = "{s. s < n \<and> snd (order ! s) = snd (order ! lower)}"
  let ?bad = "{c \<in> ?B. \<exists>t. map_of opp c = Some t \<and> t \<in> ?G \<and> c \<noteq> lower}"
  have ret: "map_of opp lower = Some better" and ne: "better \<noteq> lower" using mutual other_seat opp by blast+
  have seats: "better < n" "lower < n" using seated opp ret by blast+
  have same: "fst (order ! better) = fst (order ! lower)" using clash opp by (simp add: clashes_def)
  have inj: "i = j" if "i < n" "j < n" "fst (order ! i) = fst (order ! j)" "snd (order ! i) = snd (order ! j)" for i j
    using that dist len by (metis nth_eq_iff_index_eq prod.expand)
  have nb: "better \<notin> ?B" using inj [of better lower] seats same ne by auto
  have "inj_on (\<lambda>c. the (map_of opp c)) ?bad"
  proof (rule inj_onI)
    fix x y assume "x \<in> ?bad" "y \<in> ?bad" and eq: "the (map_of opp x) = the (map_of opp y)"
    then obtain t where "map_of opp x = Some t" "map_of opp y = Some t" by auto
    then have "map_of opp t = Some x" "map_of opp t = Some y" using mutual by blast+
    then show "x = y" by simp
  qed
  moreover have "(\<lambda>c. the (map_of opp c)) ` ?bad \<subseteq> ?G - {better, lower}"
  proof (rule subsetI)
    fix t assume "t \<in> (\<lambda>c. the (map_of opp c)) ` ?bad"
    then obtain c where c: "c \<in> ?B" "map_of opp c = Some t" "t \<in> ?G" "c \<noteq> lower" by auto
    have "map_of opp t = Some c" using c(2) by (rule mutual)
    then have "t \<noteq> better" "t \<noteq> lower" using opp ret c(1,4) nb by auto
    then show "t \<in> ?G - {better, lower}" using c(3) by blast
  qed
  ultimately have "card ?bad \<le> card (?G - {better, lower})" by (rule card_inj_on_le) simp
  also have "\<dots> = card ?G - 2" using seats same ne by (subst card_Diff_subset) auto
  finally have bad: "card ?bad \<le> card ?G - 2" .
  have "card {better, lower} \<le> card ?G" using seats same by (intro card_mono) auto
  then have two: "2 \<le> card ?G" using ne by simp
  have "card (?B - {lower}) = card ?B - 1" using seats by (subst card_Diff_singleton) auto
  then have "card ?bad < card (?B - {lower})" using bad two room by linarith
  then have "\<not> ?B - {lower} \<subseteq> ?bad" using card_mono [of ?bad "?B - {lower}"] by fastforce
  then obtain c where c: "c < n" "snd (order ! c) = snd (order ! lower)" "c \<noteq> lower" "\<And>t. map_of opp c = Some t \<Longrightarrow> t \<notin> ?G" by blast
  have cb: "c \<noteq> better" using c nb by auto
  have sw: "swap_at lower c order ! k = (if k = lower then order ! c else if k = c then order ! lower else order ! k)" for k
    using swap_at_nth [of lower order c k] seats(2) c(1) len by simp
  have "\<not> clashes opp (swap_at lower c order) lower"
    using inj [of c lower] c seats same ret ne cb by (auto simp: clashes_def sw)
  moreover have "\<not> clashes opp (swap_at lower c order) c"
  proof (cases "map_of opp c")
    case (Some t)
    have "t \<noteq> lower" "t \<noteq> c" "t < n" using Some mutual ret cb other_seat seated by (metis option.inject)+
    then show ?thesis using Some c(4) [OF Some] same by (auto simp: clashes_def sw)
  qed (simp add: clashes_def)
  ultimately show ?thesis using c cb by (auto simp: good_def)
qed

lemma repair_separates:
  assumes len: "length order = n" and dist: "distinct order" and room: "roomy order" and opp: "map_of opp better = Some lower" and lt: "better < lower"
  shows "\<not> clashes opp (repair_seed opp order better) better"
proof (cases "clashes opp order better")
  case False
  then show ?thesis using repair_seed_keeps(3) [OF len] by blast
next
  case True
  have seats: "better < n" "lower < n" using seated mutual opp by blast+
  have "length (filter (\<lambda>z. fst z = fst (order ! better)) order) \<le> length (filter (\<lambda>z. snd z = snd (order ! lower)) order)"
    using room seats len unfolding roomy_def by (metis nth_mem)
  then have "\<exists>c<n. good order better lower c" using good_exists [OF len dist opp True] by (simp add: length_filter_conv_card len)
  then have "\<exists>l c. map_of opp better = Some l \<and> c < n \<and> l < n \<and> good order better l c \<and> repair_seed opp order better = swap_at l c order"
    using repair_seed_cases [OF len, of better] opp lt True by blast
  then have "\<not> clashes opp (repair_seed opp order better) lower" using opp by (auto simp: good_def)
  then show ?thesis using clash_mutual [OF opp] by blast
qed

lemma repairs_separate:
  assumes "length order = n" and "distinct order" and "roomy order" and "map_of opp s = Some t" and "s < t" and "s \<in> set bs"
  shows "\<not> clashes opp (foldl (repair_seed opp) order bs) s"
  using assms
proof (induction bs arbitrary: order)
  case (Cons b bs)
  let ?o = "repair_seed opp order b"
  have ms: "mset ?o = mset order" using repair_seed_keeps(1) [OF Cons.prems(1)] .
  then have o: "length ?o = n" "distinct ?o" "roomy ?o"
    using Cons.prems(1-3) roomy_perm by (metis size_mset, metis mset_eq_imp_distinct_iff, blast)
  show ?case
  proof (cases "s = b")
    case True
    then have "\<not> clashes opp ?o s" using repair_separates Cons.prems by blast
    then show ?thesis using repairs_keep [OF o(1), of bs] by auto
  next
    case False
    then show ?thesis using Cons.IH [OF o] Cons.prems by simp
  qed
qed simp

end

interpretation first_round: draw "opponents n" n for n
  by unfold_locales (rule opponent_facts; assumption)+

section \<open>The generated bracket opens with these matches\<close>

lemma ceil_log2_bit_length: "2 \<le> n \<Longrightarrow> ceil_log2 n = bit_length (n - 1)"
proof -
  assume n: "2 \<le> n"
  let ?c = "ceil_log2 n" and ?b = "bit_length (n - 1)"
  have "(2::nat) ^ ?c < 2 * n" "n \<le> 2 ^ ?c" using ceil_log2_least [of n] ceil_log2_upper [of n] n by auto
  moreover have "(2::nat) ^ ?b < 2 * n" "n \<le> 2 ^ ?b" using bit_length_least [of "n - 1"] bit_length_pow [of "n - 1"] n by auto
  ultimately have "(2::nat) ^ ?c < 2 ^ Suc ?b" "(2::nat) ^ ?b < 2 ^ Suc ?c" by auto
  then show ?thesis by (simp only: power_strict_increasing_iff one_less_numeral_iff semiring_norm)
qed

definition opens :: "int list \<Rightarrow> nat \<times> nat \<Rightarrow> bool" where
  "opens ids = (\<lambda>(a, b). a < length ids \<and> b < length ids)"

lemma se_first_teams:
  assumes "foldl (se_first_step k) (ps, n, c, out) (map (\<lambda>(a, b). (seed_to_team ids a, seed_to_team ids b)) ms) = (ps', n', c', out')"
  shows "map team_ids ps' = map team_ids ps @ map (\<lambda>(a, b). [Some (ids ! a), Some (ids ! b)]) (filter (opens ids) ms) \<and>
    (list_all (\<lambda>p. round_number p = 1) ps \<longrightarrow> list_all (\<lambda>p. round_number p = 1) ps')"
  using assms
proof (induction ms arbitrary: ps n c out)
  case (Cons m ms)
  obtain a b where m: "m = (a, b)" by fastforce
  show ?case
  proof (cases "opens ids m")
    case True
    let ?p = "mk_pairing [Some (ids ! a), Some (ids ! b)] 1 (se_label k 1 (c + 1)) n"
    have "se_first_step k (ps, n, c, out) (seed_to_team ids a, seed_to_team ids b) = (ps @ [?p], n + 1, c + 1, out @ [(Some n, None)])"
      using True m by (simp add: opens_def se_first_step_def seed_to_team_def)
    then show ?thesis using Cons.prems m True Cons.IH [of "ps @ [?p]" "n + 1" "c + 1" "out @ [(Some n, None)]"]
      by (simp add: mk_pairing_def)
  next
    case False
    then obtain out1 where "se_first_step k (ps, n, c, out) (seed_to_team ids a, seed_to_team ids b) = (ps, n, c, out1)"
      using m by (cases "a < length ids"; cases "b < length ids") (auto simp: opens_def se_first_step_def seed_to_team_def)
    then show ?thesis using Cons.prems False m Cons.IH [of ps n c out1] by (simp add: opens_def)
  qed
qed simp

lemma se_next_rounds:
  assumes "foldl (se_next_step k r) (ps, es, n, c, out) ms = (ps', es', n', c', out')"
  shows "\<exists>more. ps' = ps @ more \<and> (\<forall>p\<in>set more. round_number p = int r)"
  using assms
proof (induction ms arbitrary: ps es n c out)
  case (Cons m ms)
  obtain ps1 es1 n1 c1 out1 where one: "se_next_step k r (ps, es, n, c, out) m = (ps1, es1, n1, c1, out1)" by (metis prod_cases5)
  have "\<exists>more. ps1 = ps @ more \<and> (\<forall>p\<in>set more. round_number p = int r)"
    using one by (cases m) (auto simp: se_next_step_def mk_pairing_def Let_def split: prod.splits if_splits)
  moreover have "\<exists>more. ps' = ps1 @ more \<and> (\<forall>p\<in>set more. round_number p = int r)"
    using Cons.IH [of ps1 es1 n1 c1 out1] Cons.prems one by simp
  ultimately show ?case by (metis Un_iff append.assoc set_append)
qed simp

lemma se_later_rounds:
  assumes "foldl (se_round k) (ps, es, n, slots) rs = (ps', es', n', slots')" and "\<forall>r\<in>set rs. 2 \<le> r"
  shows "\<exists>more. ps' = ps @ more \<and> (\<forall>p\<in>set more. round_number p \<noteq> 1)"
  using assms
proof (induction rs arbitrary: ps es n slots)
  case (Cons r rs)
  obtain ps1 es1 n1 c1 out1 where one: "foldl (se_next_step k r) (ps, es, n, 0, []) (adjacent_pairs slots) = (ps1, es1, n1, c1, out1)"
    by (metis prod_cases5)
  obtain more1 where "ps1 = ps @ more1" "\<forall>p\<in>set more1. round_number p = int r" using se_next_rounds [OF one] by blast
  moreover have "se_round k (ps, es, n, slots) r = (ps1, es1, n1, out1)" by (simp add: se_round_def one)
  then obtain more2 where "ps' = ps1 @ more2" "\<forall>p\<in>set more2. round_number p \<noteq> 1"
    using Cons.IH [of ps1 es1 n1 out1] Cons.prems by auto
  ultimately show ?case using Cons.prems(2) by (intro exI [of _ "more1 @ more2"]) auto
qed simp

lemma se_opening_round:
  assumes "2 \<le> length ids"
  shows "map team_ids (filter (\<lambda>p. round_number p = 1) (pairings (se_generate ids))) =
    map (\<lambda>(a, b). [Some (ids ! a), Some (ids ! b)]) (opening_matches (length ids))"
proof -
  let ?k = "ceil_log2 (length ids)"
  let ?ms = "adjacent_pairs (seeding_order (2 ^ ?k))"
  let ?pos = "map (\<lambda>(a, b). (seed_to_team ids a, seed_to_team ids b)) ?ms"
  obtain ps n c slots where first: "foldl (se_first_step ?k) ([], 0, 0, []) ?pos = (ps, n, c, slots)" by (metis prod_cases4)
  obtain ps' es n' slots' where rest: "foldl (se_round ?k) (ps, [], n, slots) [2..<?k + 1] = (ps', es, n', slots')" by (metis prod_cases4)
  have gen: "pairings (se_generate ids) = ps'"
    using assms first rest by (simp add: se_generate_def Let_def adjacent_pairs_map map_prod_def mk_skeleton_def del: upt_Suc)
  obtain more where more: "ps' = ps @ more" "\<forall>p\<in>set more. round_number p \<noteq> 1" using se_later_rounds [OF rest] by auto
  have "filter (\<lambda>p. round_number p = 1) ps' = ps" using more se_first_teams [OF first] by (simp add: filter_id_conv list_all_iff)
  moreover have "filter (opens ids) ?ms = opening_matches (length ids)"
    using assms by (simp add: opens_def opening_matches_def ceil_log2_bit_length)
  ultimately show ?thesis using gen se_first_teams [OF first] by simp
qed

lemma separate_groups_keeps:
  "mset (separate_groups s) = mset s" "map snd (separate_groups s) = map snd s"
  "clashes (opponents (length s)) (separate_groups s) a \<Longrightarrow> clashes (opponents (length s)) s a"
  using first_round.repairs_keep [of s "length s" "sort (map fst (opponents (length s)))"] by (auto simp: separate_groups_def Let_def split: if_splits)

lemma clash_of_match: "(a, b) \<in> set (opening_matches n) \<Longrightarrow> clashes (opponents n) s a = (fst (s ! a) = fst (s ! b))"
  by (simp add: clashes_def opponents_iff [THEN iffD2, of a b])

lemma match_keys: "(a, b) \<in> set (opening_matches n) \<Longrightarrow> a \<in> fst ` set (opponents n) \<and> b \<in> fst ` set (opponents n)"
  using opponents_iff [of n a b] opponents_iff [of n b a] by (metis (mono_tags) domI dom_map_of_conv_image_fst)

text \<open>C31: \<open>separate_groups\<close> seats the same group places in the same place order, takes no first-round match
  between two groups apart into one of one group, and the first round of the single elimination bracket
  generated from any teams that are seated in that order plays exactly these matches.\<close>

theorem separation_only_helps:
  fixes s :: "('g \<times> 'p) list" and team :: "'g \<times> 'p \<Rightarrow> int"
  assumes "2 \<le> length s"
  shows "mset (separate_groups s) = mset s \<and> map snd (separate_groups s) = map snd s \<and>
    (\<forall>(a, b)\<in>set (opening_matches (length s)). fst (s ! a) \<noteq> fst (s ! b) \<longrightarrow> fst (separate_groups s ! a) \<noteq> fst (separate_groups s ! b)) \<and>
    map team_ids (filter (\<lambda>p. round_number p = 1) (pairings (se_generate (map team (separate_groups s))))) =
      map (\<lambda>(a, b). [Some (team (separate_groups s ! a)), Some (team (separate_groups s ! b))]) (opening_matches (length s))"
proof -
  have len: "length (separate_groups s) = length s" using separate_groups_keeps(1) by (metis size_mset)
  have "fst (separate_groups s ! a) \<noteq> fst (separate_groups s ! b)" if "(a, b) \<in> set (opening_matches (length s))" and "fst (s ! a) \<noteq> fst (s ! b)" for a b
    using that separate_groups_keeps(3) [of s a] clash_of_match [OF that(1)] by metis
  moreover have "map (\<lambda>(a, b). [Some (map team (separate_groups s) ! a), Some (map team (separate_groups s) ! b)]) (opening_matches (length s)) =
      map (\<lambda>(a, b). [Some (team (separate_groups s ! a)), Some (team (separate_groups s ! b))]) (opening_matches (length s))"
    using len by (auto simp: opening_matches_def)
  ultimately show ?thesis using se_opening_round [of "map team (separate_groups s)"] separate_groups_keeps(1,2) [of s] len assms by auto
qed

lemma groups_apart:
  assumes dist: "distinct s" and room: "roomy s" and match: "(a, b) \<in> set (opening_matches (length s))"
  shows "fst (separate_groups s ! a) \<noteq> fst (separate_groups s ! b)"
proof -
  let ?n = "length s"
  have lt: "a < ?n" "b < ?n" "a \<noteq> b" using match opening_matches_flat [of ?n] opponent_facts(2) [of ?n a b] by (auto simp: opponents_iff opening_matches_def)
  let ?bs = "sort (map fst (opponents ?n))"
  let ?o = "foldl (repair_seed (opponents ?n)) s ?bs"
  have sep: "separate_groups s = ?o" using lt by (auto simp: separate_groups_def Let_def)
  have ab: "map_of (opponents ?n) a = Some b" "map_of (opponents ?n) b = Some a" using match by (auto simp: opponents_iff)
  have keys: "a \<in> set ?bs" "b \<in> set ?bs" using match_keys [OF match] by auto
  have "\<not> clashes (opponents ?n) ?o a"
  proof (cases "a < b")
    case True
    then show ?thesis using first_round.repairs_separate [OF refl dist room ab(1) _ keys(1)] by blast
  next
    case False
    then have "\<not> clashes (opponents ?n) ?o b" using first_round.repairs_separate [OF refl dist room ab(2) _ keys(2)] lt by simp
    then show ?thesis using first_round.clash_mutual [OF ab(1)] by blast
  qed
  then show ?thesis using clash_of_match [OF match, of "separate_groups s"] sep by simp
qed

text \<open>C30: when the seeding has every group place once and every place has as many seats as any group sends
  teams, \<open>separate_groups\<close> leaves no first-round match between two teams of one group.\<close>

theorem groups_kept_apart:
  fixes s :: "('g \<times> 'p) list"
  assumes "distinct s"
    and "\<forall>x\<in>set s. \<forall>y\<in>set s. length (filter (\<lambda>z. fst z = fst x) s) \<le> length (filter (\<lambda>z. snd z = snd y) s)"
    and "(a, b) \<in> set (opening_matches (length s))"
  shows "fst (separate_groups s ! a) \<noteq> fst (separate_groups s ! b)"
  using groups_apart [OF assms(1) _ assms(3)] assms(2) by (simp add: roomy_def)

text \<open>Three groups that send two teams each: the snake order opens \<open>C1\<close> against \<open>C2\<close>, the repaired one does not.\<close>

definition three_groups :: "(int \<times> int) list" where
  "three_groups = build_seeding (map (\<lambda>i. \<lparr>gs_item = i, gs_start = 1, gs_count = 2\<rparr>) [7, 8, 9]) True"

lemma three_groups_code: "three_groups = [(7, 1), (8, 1), (9, 1), (7, 2), (8, 2), (9, 2)]"
  by code_simp

theorem separation_only_helps_witness:
  "mset (separate_groups three_groups) = mset three_groups \<and>
    separate_groups three_groups = [(7, 1), (8, 1), (9, 1), (9, 2), (8, 2), (7, 2)] \<and> opening_matches (length three_groups) = [(3, 4), (2, 5)]"
proof -
  have "2 \<le> length three_groups" by (simp add: three_groups_code)
  from separation_only_helps [OF this] have "mset (separate_groups three_groups) = mset three_groups" by blast
  moreover have "separate_groups three_groups = [(7, 1), (8, 1), (9, 1), (9, 2), (8, 2), (7, 2)]" by code_simp
  moreover have "opening_matches (length three_groups) = [(3, 4), (2, 5)]" by code_simp
  ultimately show ?thesis by blast
qed

theorem groups_kept_apart_witness: "fst (three_groups ! 2) = fst (three_groups ! 5) \<and> fst (separate_groups three_groups ! 2) \<noteq> fst (separate_groups three_groups ! 5)"
proof -
  have "(2, 5) \<in> set (opening_matches (length three_groups))" by code_simp
  moreover have "\<forall>x\<in>set three_groups. \<forall>y\<in>set three_groups. length (filter (\<lambda>z. fst z = fst x) three_groups) \<le> length (filter (\<lambda>z. snd z = snd y) three_groups)"
    by (simp add: three_groups_code)
  moreover have "distinct three_groups" by (simp add: three_groups_code)
  ultimately show ?thesis using groups_kept_apart [of three_groups 2 5] by (simp add: three_groups_code)
qed

section \<open>Every result gets one seat\<close>

definition all_values :: "('k, 'v list) dict \<Rightarrow> 'v multiset" where
  "all_values d = sum_list (map (\<lambda>(k, vs). mset vs) d)"

lemma all_values_simps [simp]: "all_values [] = {#}" "all_values ((k, vs) # d) = mset vs + all_values d"
  by (simp_all add: all_values_def)

lemma all_values_push: "all_values (dict_set k (dict_get d k [] @ [x]) d) = add_mset x (all_values d)"
proof (induction d)
  case (Cons e d)
  then show ?case by (cases e) auto
qed simp

lemma all_values_fill: "k \<in> fst ` set d \<Longrightarrow> dict_get d k [] = [] \<Longrightarrow> all_values (dict_set k vs d) = mset vs + all_values d"
proof (induction d)
  case (Cons e d)
  then show ?case by (cases e) (auto split: if_splits)
qed simp

lemma all_values_fold: "all_values (foldl (\<lambda>d x. dict_set (f x) (dict_get d (f x) [] @ [g x]) d) d xs) = mset (map g xs) + all_values d"
  by (induction xs arbitrary: d) (simp_all add: all_values_push)

lemma all_values_sort: "all_values (sort_key f d) = all_values d"
  unfolding all_values_def by (metis mset_map mset_sort sum_mset_sum_list)

lemma distinct_push_fold: "distinct (map fst d) \<Longrightarrow> distinct (map fst (foldl (\<lambda>d x. dict_set (f x) (dict_get d (f x) [] @ [g x]) d) d xs))"
  by (induction xs arbitrary: d) (simp_all del: distinct_map)

lemma band_rows_facts: "all_values (band_rows band) = mset band" "distinct (map fst (band_rows band))"
  unfolding band_rows_def by (simp_all add: all_values_fold [where g = "\<lambda>x. x", simplified] distinct_push_fold [where g = "\<lambda>x. x", simplified] del: distinct_map)

lemma columns_of_one: "c \<le> m \<Longrightarrow> sum_list (map (\<lambda>col. if col < c then {#h col#} else {#}) [0..<m]) = mset (map h [0..<c])"
proof (induction m)
  case (Suc m)
  show ?case
  proof (cases "c = Suc m")
    case True
    then have "map (\<lambda>col. if col < c then {#h col#} else {#}) [0..<Suc m] = map (\<lambda>col. {#h col#}) [0..<Suc m]" by simp
    moreover have "sum_list (map (\<lambda>col. {#h col#}) xs) = mset (map h xs)" for xs by (induction xs) auto
    ultimately show ?thesis using True by (simp only:)
  qed (use Suc in simp)
qed simp

lemma columns_of_all:
  "\<forall>g\<in>set gs. c g \<le> m \<Longrightarrow>
    sum_list (map (\<lambda>col. sum_list (map (\<lambda>g. if col < c g then {#h col g#} else {#}) gs)) [0..<m]) =
    sum_list (map (\<lambda>g. mset (map (\<lambda>col. h col g) [0..<c g])) gs)"
  by (induction gs) (simp_all add: sum_list_addf columns_of_one del: mset_map)

lemma mset_filter_sum: "mset (map h (filter P xs)) = sum_list (map (\<lambda>x. if P x then {#h x#} else {#}) xs)"
  by (induction xs) auto

text \<open>\<open>build_seeding\<close> takes every place of every slice once.\<close>

lemma mset_build_seeding:
  "mset (build_seeding slices snake) = sum_list (map (\<lambda>g. mset (map (\<lambda>col. (gs_item g, gs_start g + int col)) [0..<gs_count g])) slices)"
proof -
  let ?m = "if slices = [] then 0 else Max (set (map gs_count slices))"
  have le: "\<forall>g\<in>set slices. gs_count g \<le> ?m" by auto
  have col: "mset (map (\<lambda>g. (gs_item g, gs_start g + int col)) (filter (\<lambda>g. col < gs_count g) (if \<not> snake \<and> odd col then rev slices else slices))) =
      sum_list (map (\<lambda>g. if col < gs_count g then {#(gs_item g, gs_start g + int col)#} else {#}) slices)" for col
    unfolding mset_filter_sum by (auto simp: rev_map [symmetric])
  have "mset (build_seeding slices snake) =
      sum_list (map (\<lambda>col. sum_list (map (\<lambda>g. if col < gs_count g then {#(gs_item g, gs_start g + int col)#} else {#}) slices)) [0..<?m])"
    unfolding build_seeding_def mset_concat map_map comp_def col ..
  then show ?thesis by (simp only: columns_of_all [OF le])
qed

lemma image_sum_list: "image_mset f (sum_list ms) = sum_list (map (image_mset f) ms)"
  by (induction ms) auto

lemma mset_seat_band: "mset (seat_band band ranking arrange item_order) = mset band"
proof (cases "ranking \<notin> {By_Cross, By_Snake} \<or> list_ex (\<lambda>one. ss_item one = None \<or> ss_rank one = None) band")
  case True
  then show ?thesis by (auto simp: seat_band_def)
next
  case False
  let ?rows = "band_rows band" and ?ord = "\<lambda>(item, rows). (dict_get item_order item (int (length (band_rows band))), item)"
  let ?slices = "band_slices ?rows item_order"
  let ?seeding = "build_seeding ?slices (ranking = By_Snake)"
  let ?arranged = "if arrange then separate_groups ?seeding else ?seeding"
  let ?pick = "\<lambda>(item, place). dict_get ?rows item [] ! nat (place - 1)"
  have "mset ?arranged = mset ?seeding" by (simp add: separate_groups_keeps)
  then have "mset (seat_band band ranking arrange item_order) = image_mset ?pick (mset ?seeding)"
    using False by (simp add: seat_band_def Let_def)
  also have "\<dots> = sum_list (map (\<lambda>g. mset (map (\<lambda>col. dict_get ?rows (gs_item g) [] ! nat (gs_start g + int col - 1)) [0..<gs_count g])) ?slices)"
    unfolding mset_build_seeding by (simp add: image_sum_list comp_def multiset.map_comp)
  also have "\<dots> = all_values (sort_key ?ord ?rows)"
  proof -
    have "mset (map (\<lambda>col. dict_get ?rows item [] ! col) [0..<length vs]) = mset vs" if "(item, vs) \<in> set ?rows" for item vs
      using that band_rows_facts(2) [of band] by (simp add: dict_get_def map_nth del: mset_map)
    then show ?thesis unfolding all_values_def band_slices_def map_map
      by (intro arg_cong [of _ _ sum_list] map_cong) (auto simp del: mset_map)
  qed
  finally show ?thesis by (simp add: all_values_sort band_rows_facts(1))
qed

lemma all_values_empty: "all_values (foldl (\<lambda>d i. dict_set (si_id i) [] d) d items) = {#}" if "\<And>v. v \<in> snd ` set d \<Longrightarrow> v = []"
  using that
proof (induction items arbitrary: d)
  case Nil
  then show ?case by (induction d) auto
next
  case (Cons i items)
  have "v = []" if "v \<in> snd ` set (dict_set (si_id i) [] d)" for v
    using that Cons.prems set_dict_set_subset [of "si_id i" "[]" d] by force
  then show ?case using Cons.IH by simp
qed

lemma keys_of_items: "fst ` set (foldl (\<lambda>d i. dict_set (si_id i) [] d) d items) = si_id ` set items \<union> fst ` set d"
  by (induction items arbitrary: d) (auto simp: keys_dict_set)

lemma no_values_yet: "all_values d = {#} \<Longrightarrow> dict_get d k [] = []"
  by (induction d) auto

lemma mset_split: "mset (filter P xs) + mset (filter (\<lambda>x. \<not> P x) xs) = mset xs"
  by (induction xs) auto

lemma plan_partition:
  assumes ids: "distinct (map si_id targets)"
    and plan: "plan_seats sources ranking targets double_elim arrange item_order rng = Inr plan"
  shows "all_values plan = mset sources"
proof -
  let ?items = "sort_key si_order targets" and ?empty = "\<lambda>items. foldl (\<lambda>d i. dict_set (si_id i) [] d) [] items"
  have none: "all_values (?empty is) = {#}" for "is" :: "stage_item list" by (rule all_values_empty) simp
  have items: "distinct (map si_id ?items)" using ids by (metis (no_types, lifting) mset_eq_imp_distinct_iff mset_map mset_sort)
  show ?thesis
  proof (cases "list_ex (\<lambda>i. si_type i \<noteq> Group_Item) ?items")
    case False
    let ?rows = "if ranking = By_Random then shuffle rng 0 sources else sources"
    have "plan = foldl (\<lambda>d x. dict_set (si_id (?items ! the (group_for_index (fst x) (length ?items) (ranking \<noteq> By_Random))))
        (dict_get d (si_id (?items ! the (group_for_index (fst x) (length ?items) (ranking \<noteq> By_Random)))) [] @ [snd x]) d) (?empty ?items) (enumerate 0 ?rows)"
      using plan False unfolding plan_seats_def Let_def by (simp add: case_prod_unfold split: if_splits)
    then have "all_values plan = mset ?rows" by (simp only: all_values_fold none add_0_right map_snd_enumerate)
    then show ?thesis by (simp add: mset_shuffle split: if_splits)
  next
    case True
    let ?low = "find (\<lambda>i. si_type i = Bracket_Lower) ?items"
    let ?lower = "if double_elim then filter ss_lower sources else []"
    let ?upper = "filter (\<lambda>one. \<not> (double_elim \<and> ss_lower one)) sources"
    obtain u where u: "find (\<lambda>i. si_type i \<noteq> Bracket_Lower) ?items = Some u"
      using plan True unfolding plan_seats_def Let_def by (auto split: option.splits)
    let ?plan = "dict_set (si_id u) (seat_band ?upper ranking arrange item_order) (?empty ?items)"
    have "u \<in> set ?items" "si_type u \<noteq> Bracket_Lower" using find_SomeD [OF u] by auto
    then have up: "all_values ?plan = mset ?upper" by (subst all_values_fill) (auto simp: keys_of_items none no_values_yet mset_seat_band)
    have both: "mset ?lower + mset ?upper = mset sources" using mset_split [of ss_lower sources] by simp
    have res: "\<not> (?lower \<noteq> [] \<and> ?low = None)" "plan = (case ?low of None \<Rightarrow> ?plan | Some l \<Rightarrow> dict_set (si_id l) (seat_band ?lower ranking arrange item_order) ?plan)"
      using plan True u unfolding plan_seats_def Let_def by (simp_all split: if_split_asm)
    show ?thesis
    proof (cases ?low)
      case None
      then show ?thesis using res up both by simp
    next
      case (Some l)
      have l: "l \<in> set ?items" "si_type l = Bracket_Lower" using find_SomeD [OF Some] by auto
      have "si_id l \<noteq> si_id u" using l \<open>u \<in> set ?items\<close> \<open>si_type u \<noteq> Bracket_Lower\<close> items by (metis distinct_map inj_onD)
      then have "all_values (dict_set (si_id l) (seat_band ?lower ranking arrange item_order) ?plan) = mset (seat_band ?lower ranking arrange item_order) + all_values ?plan"
        using l by (intro all_values_fill) (auto simp: keys_dict_set keys_of_items none no_values_yet)
      then show ?thesis using Some res(2) up both by (simp only: option.case mset_seat_band)
    qed
  qed
qed

text \<open>The deal is even: row \<open>r\<close> of the deal gives group \<open>j\<close> the index \<open>r * m + f r\<close>.\<close>

lemma deal_even:
  assumes j: "j < m"
  shows "n div m \<le> card {i. i < n \<and> group_for_index i m snake = Some j} \<and> card {i. i < n \<and> group_for_index i m snake = Some j} \<le> n div m + 1"
proof -
  define f where "f r = (if snake \<and> odd r then m - 1 - j else j)" for r :: nat
  define at_row where "at_row r = r * m + f r" for r
  let ?R = "{r. at_row r < n}"
  have f: "f r < m" for r using j by (auto simp: f_def)
  have row: "at_row r div m = r" "at_row r mod m = f r" for r using f [of r] by (simp_all add: at_row_def)
  have inj: "inj_on at_row A" for A by (rule inj_onI) (metis row(1))
  have hit: "group_for_index i m snake = Some j \<longleftrightarrow> i mod m = f (i div m)" for i
  proof -
    have "i mod m < m" using j by simp
    then have "m - 1 - i mod m = j \<longleftrightarrow> i mod m = m - 1 - j" using j by linarith
    then show ?thesis using j by (auto simp: group_for_index_def f_def)
  qed
  have "{i. i < n \<and> group_for_index i m snake = Some j} = at_row ` ?R"
  proof (intro equalityI subsetI)
    fix i assume "i \<in> {i. i < n \<and> group_for_index i m snake = Some j}"
    then have "i = at_row (i div m)" "i < n" using hit by (simp_all add: at_row_def) (metis div_mult_mod_eq)
    then show "i \<in> at_row ` ?R" by (metis (mono_tags) image_eqI mem_Collect_eq)
  qed (auto simp: hit row)
  moreover have lower: "{..<n div m} \<subseteq> ?R"
  proof
    fix r assume "r \<in> {..<n div m}"
    then have "Suc r * m \<le> n" by (metis Suc_leI div_times_less_eq_dividend lessThan_iff mult_le_mono1 order_trans)
    then show "r \<in> ?R" using f [of r] by (simp add: at_row_def)
  qed
  moreover have upper: "?R \<subseteq> {..n div m}"
  proof
    fix r assume "r \<in> ?R"
    then have "r * m \<le> n" by (simp add: at_row_def)
    then show "r \<in> {..n div m}" using j by (simp add: less_eq_div_iff_mult_less_eq)
  qed
  ultimately show ?thesis
    using card_image [OF inj, of ?R] card_mono [OF _ lower] card_mono [OF _ upper] finite_subset [OF upper] by simp
qed

lemma length_dealt:
  "length (dict_get (foldl (\<lambda>d x. dict_set (f x) (dict_get d (f x) [] @ [g x]) d) d xs) k []) =
    length (dict_get d k []) + length (filter (\<lambda>x. f x = k) xs)"
  by (induction xs arbitrary: d) auto

lemma group_for_index_in: "0 < m \<Longrightarrow> \<exists>c. group_for_index i m snake = Some c \<and> c < m"
  by (auto simp: group_for_index_def)

lemma plan_deal:
  assumes ids: "distinct (map si_id targets)" and groups: "\<forall>i\<in>set targets. si_type i = Group_Item"
    and plan: "plan_seats sources ranking targets double_elim arrange item_order rng = Inr plan" and t: "t \<in> set targets"
  shows "length sources div length targets \<le> length (dict_get plan (si_id t) []) \<and>
    length (dict_get plan (si_id t) []) \<le> length sources div length targets + 1"
proof -
  let ?items = "sort_key si_order targets" and ?snake = "ranking \<noteq> By_Random"
  let ?rows = "if ranking = By_Random then shuffle rng 0 sources else sources"
  let ?to = "\<lambda>x. si_id (?items ! the (group_for_index (fst x) (length targets) ?snake))"
  let ?empty = "foldl (\<lambda>d i. dict_set (si_id i) [] d) [] ?items"
  have g: "\<not> list_ex (\<lambda>i. si_type i \<noteq> Group_Item) ?items" using groups by (auto simp: list_ex_iff)
  have n: "length ?rows = length sources" and m: "0 < length targets" using t by auto
  obtain j where j: "j < length targets" "?items ! j = t" using t by (metis in_set_conv_nth length_sort set_sort)
  have items: "distinct (map si_id ?items)" using ids by (metis (no_types, lifting) mset_eq_imp_distinct_iff mset_map mset_sort)
  have to_iff: "?to x = si_id t \<longleftrightarrow> group_for_index (fst x) (length targets) ?snake = Some j" for x :: "nat \<times> seat_source"
  proof -
    obtain c where c: "group_for_index (fst x) (length targets) ?snake = Some c" "c < length targets"
      using group_for_index_in [OF m] by blast
    then have "?to x = si_id t \<longleftrightarrow> map si_id ?items ! c = map si_id ?items ! j" using j by simp
    also have "\<dots> \<longleftrightarrow> c = j" using nth_eq_iff_index_eq [OF items, of c j] c(2) j(1) by simp
    finally have "?to x = si_id t \<longleftrightarrow> c = j" .
    then show ?thesis using c by simp
  qed
  have none: "dict_get ?empty (si_id t) [] = []" by (rule no_values_yet) (rule all_values_empty, simp)
  have "plan = foldl (\<lambda>d x. dict_set (?to x) (dict_get d (?to x) [] @ [snd x]) d) ?empty (enumerate 0 ?rows)"
    using plan g unfolding plan_seats_def Let_def by (simp add: case_prod_unfold split: if_splits)
  then have "length (dict_get plan (si_id t) []) = length (filter (\<lambda>x. ?to x = si_id t) (enumerate 0 ?rows))"
    by (simp only: length_dealt none list.size add_0)
  also have "\<dots> = card {i. i < length sources \<and> group_for_index i (length targets) ?snake = Some j}"
    unfolding to_iff length_filter_conv_card by (intro arg_cong [of _ _ card]) (auto simp: nth_enumerate_eq)
  finally show ?thesis using deal_even [OF j(1), of "length sources" ?snake] by simp
qed

text \<open>C32: a seating plan that is not refused puts every input row on exactly one slot of exactly one target item,
  whatever the ranking, the template and the lower starters; and a plan over group items deals them evenly: no
  group is more than one row longer than another.\<close>

theorem results_seated_once:
  assumes "distinct (map si_id targets)"
    and "plan_seats sources ranking targets double_elim arrange item_order rng = Inr plan"
  shows "mset (concat (map snd plan)) = mset sources \<and>
    ((\<forall>i\<in>set targets. si_type i = Group_Item) \<longrightarrow> (\<forall>t\<in>set targets.
      length sources div length targets \<le> length (dict_get plan (si_id t) []) \<and>
      length (dict_get plan (si_id t) []) \<le> length sources div length targets + 1))"
proof -
  have "mset (concat (map snd d)) = all_values d" for d :: "(int, seat_source list) dict" by (induction d) auto
  then show ?thesis using plan_partition [OF assms] plan_deal [OF assms(1) _ assms(2)] by auto
qed

text \<open>A double elimination stage: two upper starters of each of two groups in cross order, and one lower starter.\<close>

definition seat_row :: "int \<Rightarrow> int \<Rightarrow> int \<Rightarrow> bool \<Rightarrow> seat_source" where
  "seat_row r item rank low = \<lparr>ss_result = r, ss_team = 100 + r, ss_item = Some item, ss_rank = Some rank, ss_lower = low\<rparr>"

definition seat_rows :: "seat_source list" where
  "seat_rows = [seat_row 1 7 1 False, seat_row 2 7 2 False, seat_row 3 8 1 False, seat_row 4 8 2 False, seat_row 5 7 3 True]"

definition seat_items :: "stage_item list" where
  "seat_items = [\<lparr>si_id = 21, si_type = Bracket_Lower, si_order = 2, si_inputs = []\<rparr>, \<lparr>si_id = 20, si_type = Bracket_Upper, si_order = 1, si_inputs = []\<rparr>]"

theorem results_seated_once_witness:
  "\<exists>plan. plan_seats seat_rows By_Cross seat_items True True [] (\<lambda>k n. 0) = Inr plan \<and> mset (concat (map snd plan)) = mset seat_rows \<and>
    map (\<lambda>(item, rows). (item, map ss_result rows)) plan = [(20, [1, 3, 2, 4]), (21, [5])]"
proof -
  let ?plan = "[(20 :: int, [seat_row 1 7 1 False, seat_row 3 8 1 False, seat_row 2 7 2 False, seat_row 4 8 2 False]), (21, [seat_row 5 7 3 True])]"
  have plan: "plan_seats seat_rows By_Cross seat_items True True [] (\<lambda>k n. 0) = Inr ?plan" by code_simp
  have "distinct (map si_id seat_items)" by (simp add: seat_items_def)
  from results_seated_once [OF this plan] have "mset (concat (map snd ?plan)) = mset seat_rows" by blast
  then show ?thesis using plan by (auto simp: seat_row_def)
qed

end
