(* ===== verification/Stage_Pins.thy ===== *)
theory Stage_Pins
  imports Complex_Main Prelude
begin

text \<open>
  The places an admin has pinned in a ranked table: \<open>tournament-service/src/domain/stage/pins.py\<close>, shared by
  the standings and the leaderboard of a flow. The iterator over the unpinned rows raises when it is
  asked for more rows than there are; that is the value \<open>None\<close> here, and \<open>pins_seat_everyone\<close> shows that it
  does not happen.
\<close>

section \<open>The places of the pins\<close>

text \<open>First every pin is pushed below the one before it, then the tail is pulled back inside the table.\<close>

fun push_down :: "int \<Rightarrow> int list \<Rightarrow> int list" where
  "push_down before [] = []"
| "push_down before (wanted # rest) = max wanted (before + 1) # push_down (max wanted (before + 1)) rest"

fun pull_up :: "int \<Rightarrow> int list \<Rightarrow> int list" where
  "pull_up roof [] = []"
| "pull_up roof (place # rest) = min place roof # pull_up (min place roof - 1) rest"

definition pin_places :: "int list \<Rightarrow> int \<Rightarrow> int list" where
  "pin_places wanted limit = rev (pull_up limit (rev (push_down 0 wanted)))"

definition pin_seats :: "(int, int) dict \<Rightarrow> int \<Rightarrow> (int, int) dict" where
  "pin_seats pins limit =
    (let ordered = sort_key (\<lambda>(team, wanted). (wanted, team)) pins
     in foldl (\<lambda>d (place, team). dict_set place team d) [] (zip (pin_places (map snd ordered) limit) (map fst ordered)))"

section \<open>The table\<close>

text \<open>\<open>previous\<close> is the computed and the final place of the unpinned row one seat up.\<close>

fun seat_places :: "(int, int) dict \<Rightarrow> int list \<Rightarrow> (int option \<times> int) list \<Rightarrow> (int \<times> int) option \<Rightarrow> (int \<times> int \<times> bool) list option" where
  "seat_places seats [] upcoming previous = Some []"
| "seat_places seats (place # places) upcoming previous =
    (case map_of seats place of
       Some team \<Rightarrow> map_option (\<lambda>out. (team, place, True) # out) (seat_places seats places upcoming None)
     | None \<Rightarrow>
         (case upcoming of
            [] \<Rightarrow> None
          | (team, computed) # rest \<Rightarrow>
              let position = (case previous of None \<Rightarrow> place | Some (c, final) \<Rightarrow> if c = computed then final else place)
              in map_option (\<lambda>out. case team of None \<Rightarrow> out | Some t \<Rightarrow> (t, position, False) # out)
                   (seat_places seats places rest (Some (computed, position)))))"

definition table_pins :: "(int \<times> int) list \<Rightarrow> (int, int) dict \<Rightarrow> (int, int) dict" where
  "table_pins ranked pins =
    foldl (\<lambda>d (team, position). case map_of pins team of None \<Rightarrow> d | Some wanted \<Rightarrow> dict_set team wanted d) [] ranked"

text \<open>The seats above the first ranked place are held for the teams still alive; a pinned one takes its own.\<close>

definition held_places :: "(int \<times> int) list \<Rightarrow> (int, int) dict \<Rightarrow> int list" where
  "held_places ranked here =
    (let ranked_places = filter (\<lambda>p. 0 < p) (map snd ranked);
         first = (if ranked_places = [] then 1 else Min (set ranked_places));
         alive_pinned = length (filter (\<lambda>(team, position). dict_has here team \<and> position \<le> 0) ranked)
     in [1..first - int alive_pinned - 1])"

definition apply_pins :: "(int \<times> int) list \<Rightarrow> (int, int) dict \<Rightarrow> (int \<times> int \<times> bool) list option" where
  "apply_pins ranked pins =
    (let here = table_pins ranked pins;
         free = filter (\<lambda>(team, position). \<not> dict_has here team \<and> 0 < position) ranked;
         held = map (\<lambda>place. (None, place)) (held_places ranked here);
         upcoming = held @ map (\<lambda>(team, position). (Some team, position)) free;
         limit = int (length here + length upcoming);
         seats = pin_seats here limit
     in map_option (\<lambda>out. out @ map (\<lambda>(team, position). (team, 0, False)) (filter (\<lambda>(team, position). \<not> dict_has here team \<and> position \<le> 0) ranked))
          (seat_places seats [1..limit] upcoming None))"

section \<open>Every pin has a place of its own inside the table\<close>

lemma length_push_down [simp]: "length (push_down b ws) = length ws"
  by (induction ws arbitrary: b) auto

lemma length_pull_up [simp]: "length (pull_up c ps) = length ps"
  by (induction ps arbitrary: c) auto

lemma length_pin_places [simp]: "length (pin_places ws limit) = length ws"
  by (simp add: pin_places_def)

lemma push_down_above: "p \<in> set (push_down b ws) \<Longrightarrow> b < p"
  by (induction ws arbitrary: b) force+

lemma push_down_sorted: "sorted_wrt (<) (push_down b ws)"
  by (induction ws arbitrary: b) (auto dest: push_down_above)

lemma push_down_at: "i < length ws \<Longrightarrow> b + int i < push_down b ws ! i"
proof (induction ws arbitrary: b i)
  case (Cons w ws)
  show ?case
  proof (cases i)
    case (Suc j)
    then have "max w (b + 1) + int j < push_down (max w (b + 1)) ws ! j" using Cons by simp
    then show ?thesis using Suc by simp
  qed auto
qed simp

lemma pull_up_below: "p \<in> set (pull_up c ps) \<Longrightarrow> p \<le> c"
  by (induction ps arbitrary: c) force+

lemma pull_up_sorted: "sorted_wrt (>) (pull_up c ps)"
proof (induction ps arbitrary: c)
  case (Cons p ps)
  have "q < min p c" if "q \<in> set (pull_up (min p c - 1) ps)" for q using pull_up_below [OF that] by linarith
  moreover have "sorted_wrt (>) (pull_up (min p c - 1) ps)" by (rule Cons.IH)
  ultimately show ?case unfolding pull_up.simps sorted_wrt.simps by blast
qed simp

text \<open>Pulling back does not leave the table at the top: the \<open>i\<close>-th pin from the end had place \<open>length - i\<close> at least.\<close>

lemma pull_up_at:
  "int (length ps) \<le> c \<Longrightarrow> \<forall>i<length ps. int (length ps - i) \<le> ps ! i \<Longrightarrow> i < length ps \<Longrightarrow> int (length ps - i) \<le> pull_up c ps ! i"
proof (induction ps arbitrary: c i)
  case (Cons p ps)
  have p: "int (length (p # ps)) \<le> p" using Cons.prems(2) [rule_format, of 0] by simp
  have rest: "\<forall>j<length ps. int (length ps - j) \<le> ps ! j"
  proof (intro allI impI)
    fix j assume "j < length ps"
    then show "int (length ps - j) \<le> ps ! j" using Cons.prems(2) [rule_format, of "Suc j"] by simp
  qed
  show ?case
  proof (cases i)
    case 0
    then show ?thesis using p Cons.prems(1) by simp
  next
    case (Suc j)
    have "int (length ps) \<le> min p c - 1" using p Cons.prems(1) by simp
    then have "int (length ps - j) \<le> pull_up (min p c - 1) ps ! j" using Cons.IH rest Cons.prems(3) Suc by simp
    then show ?thesis using Suc by simp
  qed
qed simp

lemma distinct_sorted_wrt: "sorted_wrt (>) (ps :: int list) \<Longrightarrow> distinct ps"
  by (induction ps) auto

lemma pin_places_inside:
  assumes "int (length ws) \<le> limit"
  shows "set (pin_places ws limit) \<subseteq> {1..limit}" and "distinct (pin_places ws limit)"
proof -
  let ?ps = "rev (push_down 0 ws)"
  have "int (length ?ps - i) \<le> ?ps ! i" if "i < length ?ps" for i
  proof -
    have "0 + int (length ws - Suc i) < push_down 0 ws ! (length ws - Suc i)" using that by (intro push_down_at) simp
    then show ?thesis using that by (simp add: rev_nth of_nat_diff)
  qed
  then have low: "int (length ?ps - i) \<le> pull_up limit ?ps ! i" if "i < length ?ps" for i
    using pull_up_at [of ?ps limit i] that assms by simp
  have "1 \<le> p" if "p \<in> set (pull_up limit ?ps)" for p
    using that low by (fastforce simp: in_set_conv_nth)
  then show "set (pin_places ws limit) \<subseteq> {1..limit}" using pull_up_below by (auto simp: pin_places_def)
  have "distinct (pull_up limit ?ps)" using pull_up_sorted [of limit ?ps] by (rule distinct_sorted_wrt)
  then show "distinct (pin_places ws limit)" by (simp add: pin_places_def)
qed

text \<open>Pins that do not clash get the places they ask for.\<close>

lemma push_down_same: "sorted_wrt (<) ws \<Longrightarrow> \<forall>w\<in>set ws. b < w \<Longrightarrow> push_down b ws = ws"
  by (induction ws arbitrary: b) auto

lemma pull_up_same: "sorted_wrt (>) ps \<Longrightarrow> \<forall>p\<in>set ps. p \<le> c \<Longrightarrow> pull_up c ps = ps"
proof (induction ps arbitrary: c)
  case (Cons p ps)
  then have "pull_up (p - 1) ps = ps" by (intro Cons.IH) auto
  then show ?case using Cons.prems by auto
qed simp

lemma pin_places_same:
  assumes "sorted_wrt (<) ws" and "set ws \<subseteq> {1..limit}"
  shows "pin_places ws limit = ws"
proof -
  have "push_down 0 ws = ws" using assms by (intro push_down_same) auto
  moreover have "pull_up limit (rev ws) = rev ws" using assms by (intro pull_up_same) (auto simp: sorted_wrt_rev)
  ultimately show ?thesis by (simp add: pin_places_def)
qed

section \<open>Everybody is seated once\<close>

lemma table_pins_eq:
  assumes "distinct (map fst ranked)"
  shows "table_pins ranked pins = map (\<lambda>x. (fst x, the (map_of pins (fst x)))) (filter (\<lambda>x. dict_has pins (fst x)) ranked)"
proof -
  have "foldl (\<lambda>d (team, position). case map_of pins team of None \<Rightarrow> d | Some wanted \<Rightarrow> dict_set team wanted d) d xs =
      foldl (\<lambda>d x. dict_set (fst x) (the (map_of pins (fst x))) d) d (filter (\<lambda>x. dict_has pins (fst x)) xs)" for d and xs :: "(int \<times> int) list"
    by (induction xs arbitrary: d) (auto simp: dict_has_def)
  moreover have "distinct (map fst (filter (\<lambda>x. dict_has pins (fst x)) ranked))" using assms by (rule distinct_map_filter)
  ultimately show ?thesis unfolding table_pins_def by (simp add: dict_comprehension)
qed

definition by_place :: "(int, int) dict \<Rightarrow> (int \<times> int) list" where
  "by_place pins = sort_key (\<lambda>(team, wanted). (wanted, team)) pins"

lemma by_place_facts:
  "length (by_place pins) = length pins" "set (by_place pins) = set pins" "mset (map fst (by_place pins)) = mset (map fst pins)"
  by (simp_all add: by_place_def)

lemma pin_seats_eq:
  assumes "int (length pins) \<le> limit"
  shows "pin_seats pins limit = zip (pin_places (map snd (by_place pins)) limit) (map fst (by_place pins))"
proof -
  let ?zip = "zip (pin_places (map snd (by_place pins)) limit) (map fst (by_place pins))"
  have "distinct (map fst ?zip)" using pin_places_inside(2) [of "map snd (by_place pins)" limit] assms by (simp add: by_place_facts)
  from dict_comprehension [OF this, of snd] show ?thesis by (simp add: pin_seats_def by_place_def Let_def split_def)
qed

lemma pin_seats_facts:
  assumes "int (length pins) \<le> limit"
  shows "distinct (map fst (pin_seats pins limit))" "set (map fst (pin_seats pins limit)) \<subseteq> {1..limit}"
    "mset (map snd (pin_seats pins limit)) = mset (map fst pins)" "length (pin_seats pins limit) = length pins"
  using pin_places_inside [of "map snd (by_place pins)" limit] assms by (simp_all add: pin_seats_eq [OF assms] by_place_facts del: mset_map set_map)

lemma pin_seats_free:
  assumes "int (length pins) \<le> limit" and "distinct (map snd pins)" and "set (map snd pins) \<subseteq> {1..limit}"
  shows "set (pin_seats pins limit) = (\<lambda>(team, wanted). (wanted, team)) ` set pins"
proof -
  have "sorted (map (\<lambda>(team, wanted). (wanted, team)) (by_place pins))" unfolding by_place_def by (rule sorted_sort_key)
  then have "sorted (map snd (by_place pins))" by (auto simp: sorted_wrt_map split_def elim!: sorted_wrt_mono_rel [rotated])
  moreover have "distinct (map snd (by_place pins))" using assms(2) unfolding by_place_def by (metis mset_eq_imp_distinct_iff mset_map mset_sort)
  ultimately have "sorted_wrt (<) (map snd (by_place pins))" by (simp add: strict_sorted_iff)
  then have "pin_places (map snd (by_place pins)) limit = map snd (by_place pins)"
    using assms(3) by (intro pin_places_same) (simp_all add: by_place_facts)
  then have "pin_seats pins limit = map (\<lambda>(team, wanted). (wanted, team)) (by_place pins)"
    unfolding pin_seats_eq [OF assms(1)] by (simp add: zip_map_map zip_same_conv_map split_def)
  then show ?thesis by (simp add: by_place_facts)
qed

lemma seat_places_result:
  "length (filter (\<lambda>p. map_of seats p = None) places) \<le> length upcoming \<Longrightarrow>
   \<exists>out. seat_places seats places upcoming previous = Some out \<and>
     map fst (filter (\<lambda>(t, p, b). \<not> b) out) = List.map_filter fst (take (length (filter (\<lambda>p. map_of seats p = None) places)) upcoming) \<and>
     map (\<lambda>(t, p, b). (p, t)) (filter (\<lambda>(t, p, b). b) out) = List.map_filter (\<lambda>p. map_option (Pair p) (map_of seats p)) places"
proof (induction places arbitrary: upcoming previous)
  case (Cons place places)
  show ?case
  proof (cases "map_of seats place")
    case (Some team)
    then show ?thesis using Cons.IH [of upcoming None] Cons.prems by (auto simp: map_filter_simps)
  next
    case None
    then obtain team computed rest where up: "upcoming = (team, computed) # rest" using Cons.prems by (cases upcoming) auto
    let ?position = "case previous of None \<Rightarrow> place | Some (c, final) \<Rightarrow> if c = computed then final else place"
    show ?thesis using Cons.IH [of rest "Some (computed, ?position)"] Cons.prems None up
      by (cases team) (auto simp: map_filter_simps Let_def)
  qed
qed (simp add: map_filter_simps)

lemma distinct_of_map: "distinct (map f xs) \<Longrightarrow> distinct xs"
  by (simp add: distinct_map)

lemma pinned_places:
  assumes keys: "distinct (map fst seats)" "set (map fst seats) \<subseteq> {1..limit}"
  shows "mset (List.map_filter (\<lambda>p. map_option (Pair p) (map_of seats p)) [1..limit]) = mset seats"
    and "int (length (filter (\<lambda>p. map_of seats p = None) [1..limit])) = max 0 limit - int (length seats)"
proof -
  let ?at = "List.map_filter (\<lambda>p. map_option (Pair p) (map_of seats p)) [1..limit]"
  have fsts: "map fst (List.map_filter (\<lambda>p. map_option (Pair p) (map_of seats p)) ps) = filter (\<lambda>p. map_of seats p \<noteq> None) ps" for ps :: "int list"
    by (induction ps) (auto simp: map_filter_simps)
  have "distinct (map fst ?at)" unfolding fsts by (simp add: distinct_filter)
  then have dist: "distinct ?at" by (rule distinct_of_map)
  have "distinct seats" using keys(1) by (rule distinct_of_map)
  moreover have "set ?at = set seats"
  proof -
    have "(p, t) \<in> set ?at \<longleftrightarrow> p \<in> {1..limit} \<and> map_of seats p = Some t" for p t
      by (force simp: List.map_filter_def image_iff)
    moreover have "map_of seats p = Some t \<longleftrightarrow> (p, t) \<in> set seats" for p t using keys(1) by (rule map_of_eq_Some_iff)
    moreover have "p \<in> {1..limit}" if "(p, t) \<in> set seats" for p t
      by (rule subsetD [OF keys(2)]) (use image_eqI [OF _ that, of p fst] in simp)
    ultimately have "(p, t) \<in> set ?at \<longleftrightarrow> (p, t) \<in> set seats" for p t by metis
    then show ?thesis by auto
  qed
  ultimately show same: "mset ?at = mset seats" using dist by (simp add: set_eq_iff_mset_eq_distinct)
  have "length (filter (\<lambda>p. map_of seats p \<noteq> None) [1..limit]) = length seats"
    using arg_cong [OF same, of size] arg_cong [OF fsts [of "[1..limit]"], of length] by (simp only: length_map size_mset)
  moreover have "length (filter (\<lambda>p. map_of seats p = None) [1..limit]) + length (filter (\<lambda>p. map_of seats p \<noteq> None) [1..limit]) = length [1..limit]"
    using sum_length_filter_compl [of "\<lambda>p. map_of seats p = None" "[1..limit]"] by simp
  ultimately show "int (length (filter (\<lambda>p. map_of seats p = None) [1..limit])) = max 0 limit - int (length seats)" by auto
qed

lemma map_filter_fst_held: "List.map_filter fst (map (\<lambda>place. (None, place)) held @ map (\<lambda>(team, position). (Some team, position)) free) = map fst free"
  by (induction held; induction free) (auto simp: map_filter_simps)

lemma three_parts:
  "mset (map f (filter P xs)) + mset (map f (filter (\<lambda>x. \<not> P x \<and> Q x) xs @ filter (\<lambda>x. \<not> P x \<and> \<not> Q x) xs)) = mset (map f xs)"
  "length (filter (\<lambda>x. P x \<or> Q x) xs) = length (filter P xs) + length (filter (\<lambda>x. \<not> P x \<and> Q x) xs)"
  by (induction xs) auto

lemma mset_parts: "mset (map fst out) = mset (map (\<lambda>(t, p, b). t) (filter (\<lambda>(t, p, b). b) out)) + mset (map fst (filter (\<lambda>(t, p, b). \<not> b) out))"
  by (induction out) auto

lemma seat_places_index:
  "\<forall>x\<in>set upcoming. fst x \<noteq> None \<Longrightarrow> seat_places seats places upcoming previous = Some out \<Longrightarrow>
    length out = length places \<and> (\<forall>i<length places. snd (snd (out ! i)) \<longrightarrow> fst (snd (out ! i)) = places ! i)"
proof (induction places arbitrary: upcoming previous out)
  case (Cons place places)
  show ?case
  proof (cases "map_of seats place")
    case (Some team)
    then obtain rest where "seat_places seats places upcoming None = Some rest" "out = (team, place, True) # rest" using Cons.prems(2) by auto
    then show ?thesis using Cons.IH [OF Cons.prems(1)] by (auto simp: nth_Cons split: nat.splits)
  next
    case None
    then obtain team computed more where up: "upcoming = (Some team, computed) # more" using Cons.prems by (cases upcoming) auto
    let ?position = "case previous of None \<Rightarrow> place | Some (c, final) \<Rightarrow> if c = computed then final else place"
    obtain rest where "seat_places seats places more (Some (computed, ?position)) = Some rest" "out = (team, ?position, False) # rest"
      using Cons.prems(2) None up by (auto simp: Let_def)
    then show ?thesis using Cons.IH [of more] Cons.prems(1) up by (auto simp: nth_Cons split: nat.splits)
  qed
qed simp

lemma no_seats_held:
  assumes "held = held_places ranked here" and "\<forall>(t, p) \<in> set ranked. 0 < p" and "1 \<in> snd ` set ranked"
  shows "held = []"
proof -
  have "set (filter (\<lambda>p. 0 < p) (map snd ranked)) = snd ` set ranked" using assms(2) by force
  moreover have "Min (snd ` set ranked) = 1" using assms(2,3) by (intro Min_eqI) force+
  moreover have "filter (\<lambda>p. 0 < p) (map snd ranked) \<noteq> []" using assms(3) by (force simp: filter_empty_conv)
  ultimately show ?thesis unfolding assms(1) held_places_def Let_def by (simp only: if_False) simp
qed

text \<open>The places a table hands out: one for every pinned or ranked team, and above the first ranked place one for
  every team still alive that is not pinned. A team that is neither pinned nor ranked takes none.\<close>

definition seat_count :: "(int \<times> int) list \<Rightarrow> (int, int) dict \<Rightarrow> int" where
  "seat_count ranked pins =
    (let ranks = filter (\<lambda>p. 0 < p) (map snd ranked);
         first = (if ranks = [] then 1 else Min (set ranks));
         alive_pinned = length (filter (\<lambda>(t, p). t \<in> fst ` set pins \<and> p \<le> 0) ranked)
     in int (length (filter (\<lambda>(t, p). t \<in> fst ` set pins \<or> 0 < p) ranked)) + max 0 (first - 1 - int alive_pinned))"

lemma seat_count_rows: "int (length (filter (\<lambda>(t, p). t \<in> fst ` set pins \<or> 0 < p) ranked)) \<le> seat_count ranked pins"
  by (simp add: seat_count_def Let_def)

lemma pins_seat_once:
  assumes "distinct (map fst ranked)" and "distinct (map fst pins)"
  shows "\<exists>out. apply_pins ranked pins = Some out \<and> mset (map fst out) = mset (map fst ranked) \<and>
    map fst (filter (\<lambda>(t, p, b). \<not> b) out) =
      map fst (filter (\<lambda>(t, p). t \<notin> fst ` set pins \<and> 0 < p) ranked @ filter (\<lambda>(t, p). t \<notin> fst ` set pins \<and> p \<le> 0) ranked) \<and>
    distinct (map (\<lambda>(t, p, b). p) (filter (\<lambda>(t, p, b). b) out)) \<and>
    (let here = filter (\<lambda>(t, w). t \<in> fst ` set ranked) pins
     in distinct (map snd here) \<and> (\<forall>(t, w) \<in> set here. 1 \<le> w \<and> w \<le> seat_count ranked pins) \<longrightarrow>
       (\<forall>(t, w) \<in> set here. (t, w, True) \<in> set out)) \<and>
    (\<forall>(t, p, b) \<in> set out. b \<longrightarrow> t \<in> fst ` set pins) \<and>
    ((\<forall>(t, p) \<in> set ranked. 0 < p) \<and> 1 \<in> snd ` set ranked \<longrightarrow> length out = length ranked \<and> (\<forall>i<length out. snd (snd (out ! i)) \<longrightarrow> fst (snd (out ! i)) = int i + 1))"
proof -
  let ?in = "\<lambda>x. dict_has pins (fst x)"
  define here where "here = table_pins ranked pins"
  have here: "here = map (\<lambda>x. (fst x, the (map_of pins (fst x)))) (filter ?in ranked)" unfolding here_def by (rule table_pins_eq [OF assms(1)])
  have has: "dict_has here t \<longleftrightarrow> t \<in> fst ` set pins" if "t \<in> fst ` set ranked" for t
    using that unfolding here by (auto simp: dict_has_iff image_iff)
  define free where "free = filter (\<lambda>(t, p). t \<notin> fst ` set pins \<and> 0 < p) ranked"
  define rest where "rest = filter (\<lambda>(t, p). t \<notin> fst ` set pins \<and> p \<le> 0) ranked"
  have free: "filter (\<lambda>(t, p). \<not> dict_has here t \<and> 0 < p) ranked = free" and rest: "filter (\<lambda>(t, p). \<not> dict_has here t \<and> p \<le> 0) ranked = rest"
    unfolding free_def rest_def by (auto intro!: filter_cong simp: has rev_image_eqI)
  have split: "free = filter (\<lambda>x. \<not> ?in x \<and> 0 < snd x) ranked" "rest = filter (\<lambda>x. \<not> ?in x \<and> \<not> 0 < snd x) ranked"
      "filter (\<lambda>(t, p). t \<in> fst ` set pins \<or> 0 < p) ranked = filter (\<lambda>x. ?in x \<or> 0 < snd x) ranked"
    unfolding free_def rest_def by (intro filter_cong refl; simp add: dict_has_iff split_def not_less)+
  obtain held where held: "held = held_places ranked here" and out_eq: "apply_pins ranked pins = (let upcoming = map (\<lambda>place. (None, place)) held @ map (\<lambda>(t, p). (Some t, p)) free; limit = int (length here + length upcoming)
      in map_option (\<lambda>out. out @ map (\<lambda>(t, p). (t, 0, False)) rest) (seat_places (pin_seats here limit) [1..limit] upcoming None))"
    unfolding apply_pins_def Let_def here_def [symmetric] free rest by blast
  define up where "up = map (\<lambda>place. (None :: int option, place)) held @ map (\<lambda>(t, p). (Some t, p)) free"
  define limit where "limit = int (length here + length up)"
  define seats where "seats = pin_seats here limit"
  have le: "int (length here) \<le> limit" by (simp add: limit_def)
  note seats = pin_seats_facts [OF le, folded seats_def]
  note places = pinned_places [OF seats(1,2)]
  have count: "length (filter (\<lambda>p. map_of seats p = None) [1..limit]) = length up" using places(2) seats(4) by (simp add: limit_def)
  obtain out where out: "seat_places seats [1..limit] up None = Some out"
    "map fst (filter (\<lambda>(t, p, b). \<not> b) out) = map fst free"
    "mset (map (\<lambda>(t, p, b). (p, t)) (filter (\<lambda>(t, p, b). b) out)) = mset seats"
  proof -
    have "List.map_filter fst up = map fst free" unfolding up_def by (rule map_filter_fst_held)
    then show thesis using seat_places_result [of seats "[1..limit]" up None] places(1) that unfolding count by (auto simp del: mset_map mset_filter)
  qed
  let ?all = "out @ map (\<lambda>(t, p). (t, 0, False)) rest"
  let ?pinned = "filter (\<lambda>(t, p, b). b) out"
  have pinned: "filter (\<lambda>(t, p, b). b) ?all = ?pinned" and unpinned: "filter (\<lambda>(t, p, b). \<not> b) ?all = filter (\<lambda>(t, p, b). \<not> b) out @ map (\<lambda>(t, p). (t, 0, False)) rest"
    by (induction rest) auto
  have drop_place: "map (\<lambda>(t, p). fst (t :: int, 0 :: int, False)) xs = map fst xs" for xs :: "(int \<times> int) list" by (induction xs) auto
  have order: "map fst (filter (\<lambda>(t, p, b). \<not> b) ?all) = map fst (free @ rest)" using out(2) unfolding unpinned by (simp add: comp_def split_def)
  have "mset (map (\<lambda>(t, p, b). t) ?pinned) = mset (map fst here)"
    using arg_cong [OF out(3), of "image_mset snd"] seats(3) by (simp add: multiset.map_comp comp_def split_def)
  also have "\<dots> = mset (map fst (filter ?in ranked))" by (simp add: here multiset.map_comp comp_def)
  finally have teams: "mset (map (\<lambda>(t, p, b). t) ?pinned) = mset (map fst (filter ?in ranked))" .
  have "mset (map fst ?all) = mset (map fst (filter ?in ranked)) + mset (map fst (free @ rest))"
    unfolding mset_parts [of ?all] pinned teams order ..
  also have "\<dots> = mset (map fst ranked)" using three_parts(1) [where f = fst and P = ?in and Q = "\<lambda>x. 0 < snd x" and xs = ranked] unfolding split by simp
  finally have all: "mset (map fst ?all) = mset (map fst ranked)" .
  have "mset (map (\<lambda>(t, p, b). p) ?pinned) = mset (map fst seats)"
    using arg_cong [OF out(3), of "image_mset fst"] by (simp add: multiset.map_comp comp_def split_def)
  then have dist: "distinct (map (\<lambda>(t, p, b). p) (filter (\<lambda>(t, p, b). b) ?all))" using seats(1) pinned by (metis mset_eq_imp_distinct_iff)
  have sat: "(t, w, True) \<in> set ?all" if calm: "distinct (map snd (filter (\<lambda>(t, w). t \<in> fst ` set ranked) pins))"
      "\<forall>(t, w) \<in> set (filter (\<lambda>(t, w). t \<in> fst ` set ranked) pins). 1 \<le> w \<and> w \<le> seat_count ranked pins"
      and tw: "(t, w) \<in> set (filter (\<lambda>(t, w). t \<in> fst ` set ranked) pins)" for t w
  proof -
    let ?pins = "filter (\<lambda>(t, w). t \<in> fst ` set ranked) pins"
    have same: "set here = set ?pins" using assms(2) unfolding here by (force simp: dict_has_def image_iff)
    have "distinct (map fst here)" unfolding here map_map comp_def fst_conv using assms(1) by (rule distinct_map_filter)
    then have "distinct here" by (rule distinct_of_map)
    moreover have "distinct ?pins" using assms(2) distinct_of_map by (intro distinct_filter) blast
    ultimately have ms: "mset here = mset ?pins" using same set_eq_iff_mset_eq_distinct by blast
    have "length (filter (\<lambda>(t, p). t \<in> fst ` set pins \<or> 0 < p) ranked) = length here + length free"
      unfolding here split length_map by (rule three_parts(2))
    moreover have "filter (\<lambda>(t, p). dict_has here t \<and> p \<le> 0) ranked = filter (\<lambda>(t, p). t \<in> fst ` set pins \<and> p \<le> 0) ranked"
      by (rule filter_cong) (auto simp: has rev_image_eqI)
    then have "int (length held) = max 0 ((if filter (\<lambda>p. 0 < p) (map snd ranked) = [] then 1 else Min (set (filter (\<lambda>p. 0 < p) (map snd ranked)))) - 1 -
        int (length (filter (\<lambda>(t, p). t \<in> fst ` set pins \<and> p \<le> 0) ranked)))"
      unfolding held held_places_def Let_def by (simp add: length_upto)
    ultimately have bound: "seat_count ranked pins \<le> limit" by (simp add: limit_def up_def seat_count_def Let_def)
    have "distinct (map snd here)" using calm(1) ms by (metis mset_eq_imp_distinct_iff mset_map)
    moreover have "set (map snd here) \<subseteq> {1..limit}" using calm(2) bound same by force
    ultimately have "set seats = (\<lambda>(t, w). (w, t)) ` set here" unfolding seats_def by (rule pin_seats_free [OF le])
    then have "(w, t) \<in> set seats" using tw same by force
    then have "(w, t) \<in> set (map (\<lambda>(t, p, b). (p, t)) ?pinned)" using out(3) mset_eq_setD by blast
    then show ?thesis by auto
  qed
  have run: "apply_pins ranked pins = Some ?all" using out(1) unfolding out_eq Let_def up_def [symmetric] limit_def [symmetric] seats_def [symmetric] by simp
  have marked: "t \<in> fst ` set pins" if "(t, p, True) \<in> set ?all" for t p
  proof -
    have "t \<in> set (map (\<lambda>(t, p, b). t) ?pinned)" using that by (force simp: image_iff)
    then have "t \<in> set (map fst (filter ?in ranked))" using teams mset_eq_setD by blast
    then show ?thesis by (auto simp: dict_has_iff)
  qed
  have index: "length ?all = length ranked \<and> (\<forall>i<length ?all. snd (snd (?all ! i)) \<longrightarrow> fst (snd (?all ! i)) = int i + 1)"
    if ranks: "\<forall>(t, p) \<in> set ranked. 0 < p" "1 \<in> snd ` set ranked"
  proof -
    have "rest = []" using ranks(1) by (auto simp: rest_def filter_empty_conv)
    moreover have "held = []" using held ranks by (rule no_seats_held)
    then have "\<forall>x\<in>set up. fst x \<noteq> None" by (auto simp: up_def)
    note seat_places_index [OF this out(1)]
    ultimately show ?thesis using arg_cong [OF all, of size] by (auto simp: add.commute)
  qed
  show ?thesis unfolding Let_def
  proof (intro exI [of _ ?all] conjI impI)
    show "map fst (filter (\<lambda>(t, p, b). \<not> b) ?all) =
        map fst (filter (\<lambda>(t, p). t \<notin> fst ` set pins \<and> 0 < p) ranked @ filter (\<lambda>(t, p). t \<notin> fst ` set pins \<and> p \<le> 0) ranked)"
      using order unfolding free_def rest_def .
    show "\<forall>(t, p, b)\<in>set ?all. b \<longrightarrow> t \<in> fst ` set pins"
    proof (intro ballI)
      fix x assume x: "x \<in> set ?all"
      obtain t p b where "x = (t, p, b)" by (rule prod_cases3)
      then show "case x of (t, p, b) \<Rightarrow> b \<longrightarrow> t \<in> fst ` set pins" using x marked [of t p] by auto
    qed
  qed (use run all dist sat index in blast)+
qed

text \<open>C37: pins never break a table: every team of it is seated exactly once, the unpinned ones in the order of
  the table with the unranked ones last at 0, exactly the pinned teams are marked and each has a place of its
  own, and when the pins of the table do not clash and none lies below the places the table hands out, each
  gets the place it asks for.\<close>

theorem pins_seat_everyone:
  assumes "distinct (map fst ranked)" and "distinct (map fst pins)"
  shows "\<exists>out. apply_pins ranked pins = Some out \<and> mset (map fst out) = mset (map fst ranked) \<and>
    map fst (filter (\<lambda>(t, p, b). \<not> b) out) =
      map fst (filter (\<lambda>(t, p). t \<notin> fst ` set pins \<and> 0 < p) ranked @ filter (\<lambda>(t, p). t \<notin> fst ` set pins \<and> p \<le> 0) ranked) \<and>
    distinct (map (\<lambda>(t, p, b). p) (filter (\<lambda>(t, p, b). b) out)) \<and>
    (let here = filter (\<lambda>(t, w). t \<in> fst ` set ranked) pins
     in distinct (map snd here) \<and> (\<forall>(t, w) \<in> set here. 1 \<le> w \<and> w \<le> seat_count ranked pins) \<longrightarrow>
       (\<forall>(t, w) \<in> set here. (t, w, True) \<in> set out))"
  using pins_seat_once [OF assms] by blast

text \<open>Three of a group's five teams are pinned, two of them to the same place; one place is shared.\<close>

definition sample_table :: "(int \<times> int) list" where
  "sample_table = [(11, 1), (12, 2), (13, 2), (14, 4), (15, 0)]"

theorem pins_seat_everyone_witness:
  "\<exists>out. apply_pins sample_table [(14, 1), (11, 1)] = Some out \<and> mset (map fst out) = mset (map fst sample_table) \<and>
    out = [(11, 1, True), (14, 2, True), (12, 3, False), (13, 3, False), (15, 0, False)]"
proof -
  have "apply_pins sample_table [(14, 1), (11, 1)] = Some [(11, 1, True), (14, 2, True), (12, 3, False), (13, 3, False), (15, 0, False)]"
    by code_simp
  moreover have "distinct (map fst sample_table)" "distinct (map fst [(14 :: int, 1 :: int), (11, 1)])" by (simp_all add: sample_table_def)
  note pins_seat_everyone [OF this]
  ultimately show ?thesis by auto
qed

text \<open>In a table nobody of which has played, only the pinned teams have places, so a lone pin at 3 is seated 1st.\<close>

theorem pin_in_unplayed_table:
  "apply_pins [(1, 0), (2, 0), (3, 0), (4, 0)] [(1, 3)] = Some [(1, 1, True), (2, 0, False), (3, 0, False), (4, 0, False)] \<and>
    seat_count [(1, 0), (2, 0), (3, 0), (4, 0)] [(1, 3)] = 1"
  by code_simp

text \<open>The documented identity: a table ranked the usual way, the next place of a run shared or its seat, comes
  back as it was when nothing is pinned; seats above its first place stay free for the teams still alive.\<close>

fun usual_places :: "int \<Rightarrow> (int \<times> int) option \<Rightarrow> (int \<times> int) list \<Rightarrow> bool" where
  "usual_places seat previous [] = True"
| "usual_places seat previous ((team, p) # rest) =
    ((p = seat \<or> (case previous of Some (c, f) \<Rightarrow> p = f | None \<Rightarrow> False)) \<and> usual_places (seat + 1) (Some (p, p)) rest)"

lemma seat_places_unpinned:
  "usual_places seat previous rows \<Longrightarrow> (\<And>c f. previous = Some (c, f) \<Longrightarrow> c = f \<and> c < seat) \<Longrightarrow>
   seat_places [] [seat..seat + int (length rows) - 1] (map (\<lambda>(t, p). (Some t, p)) rows) previous = Some (map (\<lambda>(t, p). (t, p, False)) rows)"
proof (induction rows arbitrary: seat previous)
  case (Cons row rows)
  obtain t p where row: "row = (t, p)" by fastforce
  have up: "[seat..seat + int (length rows)] = seat # [seat + 1..seat + int (length rows)]"
    by (subst upto.simps) simp
  have p: "p = seat \<or> previous = Some (p, p)" using Cons.prems row by (auto split: option.splits)
  then have "p \<le> seat" using Cons.prems(2) by force
  have pos: "(case previous of None \<Rightarrow> seat | Some (c, final) \<Rightarrow> if c = p then final else seat) = p"
    using p Cons.prems(2) by (auto split: option.splits)
  have "seat_places [] [seat + 1..seat + 1 + int (length rows) - 1] (map (\<lambda>(t, p). (Some t, p)) rows) (Some (p, p)) = Some (map (\<lambda>(t, p). (t, p, False)) rows)"
    using Cons.prems row \<open>p \<le> seat\<close> by (intro Cons.IH) auto
  then show ?case by (simp add: up row pos Let_def)
qed simp

lemma seat_places_held:
  "seat_places [] ([1..h] @ places) (map (\<lambda>place. (None, place)) [1..h] @ up) None = seat_places [] places up (if 1 \<le> h then Some (h, h) else None)"
proof -
  have "a \<le> h + 1 \<Longrightarrow> (\<And>c f. previous = Some (c, f) \<Longrightarrow> c < a) \<Longrightarrow>
      seat_places [] ([a..h] @ places) (map (\<lambda>place. (None, place)) [a..h] @ up) previous =
      seat_places [] places up (if a \<le> h then Some (h, h) else previous)" for a previous
  proof (induction "nat (h + 1 - a)" arbitrary: a previous)
    case (Suc n)
    have "[a..h] = a # [a + 1..h]" using Suc.hyps(2) by (subst upto.simps) auto
    moreover have "seat_places [] ([a + 1..h] @ places) (map (\<lambda>place. (None, place)) [a + 1..h] @ up) (Some (a, a)) =
        seat_places [] places up (if a + 1 \<le> h then Some (h, h) else Some (a, a))"
      using Suc.hyps(2) by (intro Suc.hyps(1)) auto
    moreover have "a + 1 \<le> h \<or> a = h" "a \<le> h" using Suc.hyps(2) by auto
    ultimately show ?case using Suc.prems by (auto simp: Let_def option.map_ident split: option.splits)
  qed simp
  from this [of 1 None] show ?thesis by (cases "0 \<le> h") auto
qed

lemma usual_places_after: "usual_places seat None rows \<Longrightarrow> usual_places seat previous rows"
  by (cases rows) auto

lemma usual_places_low: "usual_places seat previous rows \<Longrightarrow> (\<And>c f. previous = Some (c, f) \<Longrightarrow> low \<le> f) \<Longrightarrow> low \<le> seat \<Longrightarrow> (t, p) \<in> set rows \<Longrightarrow> low \<le> p"
proof (induction rows arbitrary: seat previous)
  case (Cons row rows)
  obtain u q where row: "row = (u, q)" by fastforce
  have q: "low \<le> q" using Cons.prems row by (auto split: option.splits)
  show ?case
  proof (cases "(t, p) = row")
    case True
    then show ?thesis using q row by simp
  next
    case False
    then have "(t, p) \<in> set rows" using Cons.prems(4) by auto
    then show ?thesis using Cons.IH [of "seat + 1" "Some (q, q)"] Cons.prems(1,3) row q by simp
  qed
qed simp

text \<open>Without pins a table that is ranked the usual way comes back unchanged: its first place may leave
  seats above it for teams that are still alive, every further row has its seat or shares the place of
  the row before, and unranked teams stand last at 0.\<close>

theorem no_pins_no_change:
  assumes "\<forall>(t, p) \<in> set unranked. p = 0" and "1 \<le> first"
    and "case rows of [] \<Rightarrow> True | (t, p) # rest \<Rightarrow> p = first" and "usual_places first None rows"
  shows "apply_pins (rows @ unranked) [] = Some (map (\<lambda>(t, p). (t, p, False)) (rows @ unranked))"
proof -
  have low: "first \<le> p" if "(t, p) \<in> set rows" for t p using usual_places_low [OF assms(4) _ _ that, of first] by simp
  have pos: "0 < snd x" if "x \<in> set rows" for x using that low [of "fst x" "snd x"] assms(2) by simp
  have zero: "snd x = 0" if "x \<in> set unranked" for x using that assms(1) by auto
  have parts: "filter (\<lambda>x. 0 < snd x) rows = rows" "filter (\<lambda>x. 0 < snd x) unranked = []" "filter (\<lambda>x. snd x \<le> 0) rows = []" "filter (\<lambda>x. snd x \<le> 0) unranked = unranked"
    using pos zero by (auto simp: filter_id_conv filter_empty_conv not_le)
  have here: "table_pins (rows @ unranked) [] = []"
  proof -
    have "foldl (\<lambda>d (team, position). case map_of [] team of None \<Rightarrow> d | Some wanted \<Rightarrow> dict_set team wanted d) [] xs = ([] :: (int, int) dict)" for xs :: "(int \<times> int) list"
      by (induction xs) auto
    then show ?thesis by (simp only: table_pins_def)
  qed
  have rows: "filter (\<lambda>(team, position). \<not> dict_has [] team \<and> 0 < position) (rows @ unranked) = rows"
    and zeros: "filter (\<lambda>(team, position). \<not> dict_has [] team \<and> position \<le> 0) (rows @ unranked) = unranked"
    and none: "filter (\<lambda>(team, position). dict_has [] team \<and> position \<le> 0) (rows @ unranked) = []"
    by (simp_all add: dict_has_def split_def parts)
  have places: "filter (\<lambda>p. 0 < p) (map snd (rows @ unranked)) = map snd rows"
    using parts(1,2) arg_cong [OF parts(1), of "map snd"] arg_cong [OF parts(2), of "map snd"] by (simp add: filter_map comp_def)
  have same: "map (\<lambda>(t, p). (t, 0, False)) unranked = map (\<lambda>(t, p). (t, p, False)) unranked" using assms(1) by auto
  define h where "h = (if rows = [] then 0 else first - 1)"
  have held: "(if map snd rows = [] then 1 else Min (set (map snd rows))) - int (length ([] :: (int \<times> int) list)) - 1 = h"
  proof (cases rows)
    case (Cons row rest)
    then have "first \<in> snd ` set rows" using assms(3) by (cases row) auto
    then have "Min (snd ` set rows) = first" using low by (intro Min_eqI) auto
    then show ?thesis using Cons by (simp add: h_def)
  qed (simp add: h_def)
  have h: "0 \<le> h" using assms(2) by (simp add: h_def)
  let ?up = "map (\<lambda>(t, p). (Some t, p)) rows"
  have seats: "pin_seats [] limit = []" for limit by (simp add: pin_seats_def pin_places_def)
  have limit: "[1..int (length ([] :: (int, int) dict) + length (map (\<lambda>place. (None :: int option, place)) [1..h] @ ?up))] = [1..h] @ [h + 1..h + 1 + int (length rows) - 1]"
    using h upto_split2 [of 1 h "h + int (length rows)"] by (cases "h = 0") simp_all
  have start: "usual_places (h + 1) (if 1 \<le> h then Some (h, h) else None) rows"
    using usual_places_after [OF assms(4)] by (cases "rows = []") (auto simp: h_def)
  have "seat_places [] [h + 1..h + 1 + int (length rows) - 1] ?up (if 1 \<le> h then Some (h, h) else None) = Some (map (\<lambda>(t, p). (t, p, False)) rows)"
    by (rule seat_places_unpinned [OF start]) (auto split: if_splits)
  then show ?thesis
    unfolding apply_pins_def held_places_def Let_def here rows zeros none places held seats limit seat_places_held same by simp
qed

theorem no_pins_no_change_witness:
  "apply_pins [(21, 3), (22, 3), (23, 5), (24, 0), (25, 0)] [] = Some [(21, 3, False), (22, 3, False), (23, 5, False), (24, 0, False), (25, 0, False)]"
  using no_pins_no_change [of "[(24, 0), (25, 0)]" 3 "[(21, 3), (22, 3), (23, 5)]"] by simp

end
