(* ===== verification/Flow_Compute.thy ===== *)
theory Flow_Compute
  imports Stage_Seeds Stage_Pins "HOL-Library.Sublist"
begin

text \<open>
  The pure nodes of a tournament flow: \<open>tournament-service/src/domain/flow/compute.py\<close> with the node
  configurations of \<open>shared/domain/flow/config.py\<close> it reads. A filter in every mode, a merge, a split and a
  leaderboard take the result rows of a port and give the rows of the next one. The bounds pydantic puts on
  the fields of a configuration are in their types (\<open>ge=0\<close> is \<open>nat\<close>). Scores are only carried along. The
  loop that looks for the next open bucket is a partial function; \<open>split_deals_fairly\<close> shows that it ends.
\<close>

section \<open>Rows\<close>

text \<open>A breakdown is a dict of fields or a list of such (the aggregate's), which these nodes only pass on.\<close>

datatype field = Text string | Number rat | Null

datatype breakdown = Fields "(string, field) dict" | Lines "(string, field) dict list"

record result_row =
  rr_member :: "int option"
  rr_team :: "int option"
  rr_item :: "int option"
  rr_item_rank :: "int option"
  rr_score :: "rat option"
  rr_tie_group :: "nat option"
  rr_breakdown :: "breakdown option"
  rr_role :: "string option"

datatype flow_error = Nameless_Row | Pins_Exhausted

record pure_output =
  po_ports :: "(string, result_row list) dict"
  po_boundary_tie :: bool

text \<open>The \<open>ValueError\<close> for a row without a name is \<open>None\<close>.\<close>

definition participant_id :: "result_row \<Rightarrow> int option" where
  "participant_id row = (case rr_member row of Some m \<Rightarrow> Some m | None \<Rightarrow> rr_team row)"

definition straddles :: "result_row list \<Rightarrow> nat \<Rightarrow> bool" where
  "straddles rows edge \<longleftrightarrow> 0 < edge \<and> edge < length rows \<and> rr_tie_group (rows ! (edge - 1)) \<noteq> None \<and>
    rr_tie_group (rows ! (edge - 1)) = rr_tie_group (rows ! edge)"

section \<open>Filter\<close>

datatype filter_mode = Top | Range | Per_Item_Top | Swiss_Status | Manual

record filter_config =
  fc_mode :: filter_mode
  fc_n :: "nat option"
  fc_from :: "nat option"
  fc_to :: "nat option"
  fc_per_item :: "(int, int) dict"
  fc_upper :: "nat option"
  fc_per_item_upper :: "(int, nat) dict"
  fc_swiss_status :: "string option"
  fc_manual :: "int list"

text \<open>The model validator of the configuration.\<close>

definition filter_config_ok :: "filter_config \<Rightarrow> bool" where
  "filter_config_ok c \<longleftrightarrow>
    (case fc_mode c of
       Top \<Rightarrow> fc_n c \<noteq> None
     | Per_Item_Top \<Rightarrow> fc_n c \<noteq> None
     | Range \<Rightarrow> (case (fc_from c, fc_to c) of (Some a, Some b) \<Rightarrow> a \<le> b | _ \<Rightarrow> False)
     | Swiss_Status \<Rightarrow> fc_swiss_status c \<noteq> None
     | Manual \<Rightarrow> True)"

definition by_item :: "result_row list \<Rightarrow> (int option, result_row list) dict" where
  "by_item rows = foldl (\<lambda>d r. dict_set (rr_item r) (dict_get d (rr_item r) [] @ [r]) d) [] (filter (\<lambda>r. rr_item_rank r \<noteq> None) rows)"

definition rank_of :: "result_row \<Rightarrow> int" where
  "rank_of r = or_zero (rr_item_rank r)"

text \<open>\<open>per_item.get(item, n)\<close>: the rows of no item have the key \<open>None\<close>, which is not in the dict.\<close>

definition item_lookup :: "(int, 'a) dict \<Rightarrow> int option \<Rightarrow> 'a \<Rightarrow> 'a" where
  "item_lookup d item dflt = (case item of None \<Rightarrow> dflt | Some i \<Rightarrow> dict_get d i dflt)"

definition lower_start :: "nat option \<Rightarrow> result_row \<Rightarrow> result_row" where
  "lower_start upper r =
    (case upper of
       None \<Rightarrow> r
     | Some u \<Rightarrow> if rank_of r \<le> int u then r
         else r\<lparr>rr_breakdown := Some (Fields (dict_set ''bracket'' (Text ''lower'') (case rr_breakdown r of Some (Fields d) \<Rightarrow> d | _ \<Rightarrow> [])))\<rparr>)"

definition item_cut :: "filter_config \<Rightarrow> int option \<Rightarrow> result_row list \<Rightarrow> nat" where
  "item_cut c item grp = length (filter (\<lambda>r. rank_of r \<le> item_lookup (fc_per_item c) item (int (or_zero (fc_n c)))) grp)"

definition per_item_top :: "filter_config \<Rightarrow> result_row list \<Rightarrow> (int, int) dict \<Rightarrow> result_row list \<times> bool" where
  "per_item_top c rows item_order =
    (let groups = map (\<lambda>(item, rs). (item, sort_key rank_of rs)) (by_item rows);
         kept = concat (map (\<lambda>(item, rs).
             map (\<lambda>r. ((rank_of r, item_lookup item_order item 0, or_zero item),
                  lower_start (item_lookup (map (\<lambda>(i, u). (i, Some u)) (fc_per_item_upper c)) item (fc_upper c)) r))
               (take (item_cut c item rs) rs)) groups)
     in (map snd (sort_key fst kept), list_ex (\<lambda>(item, rs). straddles rs (item_cut c item rs)) groups))"

definition has_status :: "string option \<Rightarrow> result_row \<Rightarrow> bool" where
  "has_status status r =
    (case rr_breakdown r of
       Some (Fields d) \<Rightarrow> (case map_of d ''swiss_status'' of
           None \<Rightarrow> status = None | Some (Text t) \<Rightarrow> status = Some t | Some Null \<Rightarrow> status = None | Some (Number x) \<Rightarrow> False)
     | _ \<Rightarrow> False)"

definition compute_filter :: "filter_config \<Rightarrow> result_row list \<Rightarrow> (int, int) dict \<Rightarrow> flow_error + pure_output" where
  "compute_filter c rows item_order =
    (let out = (\<lambda>passed tie. Inr \<lparr>po_ports = [(''passed'', passed)], po_boundary_tie = tie\<rparr>)
     in case fc_mode c of
          Top \<Rightarrow> let n = or_zero (fc_n c) in out (take n rows) (straddles rows n)
        | Range \<Rightarrow> let start = (case fc_from c of None \<Rightarrow> 1 | Some 0 \<Rightarrow> 1 | Some f \<Rightarrow> f) - 1; stop = or_zero (fc_to c)
            in out (drop start (take stop rows)) (straddles rows start \<or> straddles rows stop)
        | Per_Item_Top \<Rightarrow> (case per_item_top c rows item_order of (passed, tie) \<Rightarrow> out passed tie)
        | Swiss_Status \<Rightarrow> out (filter (has_status (fc_swiss_status c)) rows) False
        | Manual \<Rightarrow> if list_ex (\<lambda>r. participant_id r = None) rows then Inl Nameless_Row
            else out (filter (\<lambda>r. the (participant_id r) \<in> set (fc_manual c)) rows) False)"

section \<open>Merge and split\<close>

definition row_key :: "result_row \<Rightarrow> int option \<times> int option" where
  "row_key r = (rr_member r, rr_team r)"

fun merge_rows :: "(int option \<times> int option) set \<Rightarrow> result_row list \<Rightarrow> result_row list" where
  "merge_rows seen [] = []"
| "merge_rows seen (r # rs) = (if row_key r \<in> seen then merge_rows seen rs else r # merge_rows (insert (row_key r) seen) rs)"

definition compute_merge :: "result_row list list \<Rightarrow> result_row list" where
  "compute_merge inputs = merge_rows {} (concat inputs)"

record split_bucket =
  bu_name :: string
  bu_size :: "nat option"

record split_config =
  sc_buckets :: "split_bucket list"
  sc_serpentine :: bool

definition bucket_full :: "nat option list \<Rightarrow> 'a list list \<Rightarrow> nat \<Rightarrow> bool" where
  "bucket_full sizes buckets i = (case sizes ! i of None \<Rightarrow> False | Some n \<Rightarrow> n \<le> length (buckets ! i))"

text \<open>\<open>while full(i := group_for_index(dealt, \<dots>)): dealt += 1\<close>\<close>

partial_function (option) next_open :: "(nat \<Rightarrow> bool) \<Rightarrow> nat \<Rightarrow> nat \<Rightarrow> nat option" where
  "next_open full m dealt = (if full (the (group_for_index dealt m True)) then next_open full m (Suc dealt) else Some dealt)"

declare next_open.simps [code]

fun serpentine :: "nat option list \<Rightarrow> 'a list \<Rightarrow> 'a list list \<Rightarrow> nat \<Rightarrow> 'a list list option" where
  "serpentine sizes [] buckets dealt = Some buckets"
| "serpentine sizes (r # rs) buckets dealt =
    (if list_all (bucket_full sizes buckets) [0..<length sizes] then Some buckets
     else case next_open (bucket_full sizes buckets) (length sizes) dealt of
            None \<Rightarrow> None
          | Some d \<Rightarrow> let i = the (group_for_index d (length sizes) True)
              in serpentine sizes rs (buckets[i := buckets ! i @ [r]]) (Suc d))"

fun slices :: "nat option list \<Rightarrow> nat \<Rightarrow> 'a list \<Rightarrow> 'a list list" where
  "slices [] start rows = []"
| "slices (quota # sizes) start rows =
    (let stop = (case quota of None \<Rightarrow> length rows | Some n \<Rightarrow> start + n)
     in drop start (take stop rows) # slices sizes stop rows)"

definition split_rows :: "split_config \<Rightarrow> 'a list \<Rightarrow> 'a list list option" where
  "split_rows c rows =
    (let sizes = map bu_size (sc_buckets c)
     in if sc_serpentine c then serpentine sizes rows (map (\<lambda>s. []) sizes) 0 else Some (slices sizes 0 rows))"

definition compute_split :: "split_config \<Rightarrow> result_row list \<Rightarrow> pure_output option" where
  "compute_split c rows =
    map_option (\<lambda>buckets. \<lparr>po_ports = map (\<lambda>(i, b). (''bucket_'' @ show_nat i, b)) (enumerate 1 buckets), po_boundary_tie = False\<rparr>)
      (split_rows c rows)"

section \<open>Leaderboard\<close>

record leaderboard_pin =
  lp_participant :: int
  lp_role :: "string option"
  lp_position :: nat

definition leaderboard_config_ok :: "leaderboard_pin list \<Rightarrow> bool" where
  "leaderboard_config_ok pins \<longleftrightarrow> (\<forall>p\<in>set pins. 1 \<le> lp_position p) \<and>
    distinct (map (\<lambda>p. (lp_participant p, lp_role p)) pins) \<and> distinct (map (\<lambda>p. (lp_role p, lp_position p)) pins)"

text \<open>\<open>itertools.groupby\<close>: runs of adjacent elements with one key.\<close>

function group_runs :: "('a \<Rightarrow> 'k) \<Rightarrow> 'a list \<Rightarrow> ('k \<times> 'a list) list" where
  "group_runs f [] = []"
| "group_runs f (x # xs) = (f x, x # takeWhile (\<lambda>y. f y = f x) xs) # group_runs f (dropWhile (\<lambda>y. f y = f x) xs)"
  by pat_completeness auto

termination group_runs
  by (relation "measure (length \<circ> snd)") (auto simp: less_Suc_eq_le length_dropWhile_le)

definition place_run :: "result_row list \<Rightarrow> nat option \<times> (result_row \<times> nat option) list \<Rightarrow> result_row list" where
  "place_run ranking kr =
    (case kr of (key, run) \<Rightarrow>
       let head = (if key \<noteq> None \<and> 1 < length run then Some (length ranking + 1) else None)
       in ranking @ map (\<lambda>(r, k). r\<lparr>rr_tie_group := head\<rparr>) run)"

definition pinned_rows :: "result_row list \<Rightarrow> (int, int) dict \<Rightarrow> flow_error + result_row list" where
  "pinned_rows rows pins =
    (if list_ex (\<lambda>r. participant_id r = None) rows then Inl Nameless_Row
     else let by_id = foldl (\<lambda>d r. dict_set (the (participant_id r)) r d) [] rows
       in case apply_pins (map (\<lambda>(i, r). (the (participant_id r), int i)) (enumerate 1 rows)) pins of
            None \<Rightarrow> Inl Pins_Exhausted
          | Some placed \<Rightarrow>
              Inr (foldl place_run []
                (group_runs snd (map (\<lambda>(pid, position, pinned). let r = the (map_of by_id pid) in (r, if pinned then None else rr_tie_group r)) placed))))"

definition role_pins :: "leaderboard_pin list \<Rightarrow> string option \<Rightarrow> (int, int) dict" where
  "role_pins pins role = foldl (\<lambda>d p. dict_set (lp_participant p) (int (lp_position p)) d) [] (filter (\<lambda>p. lp_role p = role) pins)"

fun place_roles :: "leaderboard_pin list \<Rightarrow> (string option \<times> result_row list) list \<Rightarrow> flow_error + result_row list" where
  "place_roles pins [] = Inr []"
| "place_roles pins ((role, members) # runs) =
    (case (if role_pins pins role = [] then Inr members else pinned_rows members (role_pins pins role)) of
       Inl e \<Rightarrow> Inl e
     | Inr placed \<Rightarrow> (case place_roles pins runs of Inl e \<Rightarrow> Inl e | Inr rest \<Rightarrow> Inr (placed @ rest)))"

definition compute_leaderboard :: "leaderboard_pin list \<Rightarrow> result_row list \<Rightarrow> flow_error + pure_output" where
  "compute_leaderboard pins rows =
    (let out = (\<lambda>ranking. \<lparr>po_ports = [(''ranking'', ranking)], po_boundary_tie = False\<rparr>)
     in if pins = [] then Inr (out rows)
        else map_sum id out (place_roles pins (group_runs rr_role rows)))"

section \<open>A split deals fairly\<close>

definition turns :: "nat \<Rightarrow> nat \<Rightarrow> nat \<Rightarrow> nat" where
  "turns m j d = card {i. i < d \<and> group_for_index i m True = Some j}"

lemma turns_Suc: "turns m j (Suc d) = turns m j d + (if group_for_index d m True = Some j then 1 else 0)"
proof -
  have "{i. i < Suc d \<and> group_for_index i m True = Some j} =
      (if group_for_index d m True = Some j then insert d else id) {i. i < d \<and> group_for_index i m True = Some j}"
    by (auto simp: less_Suc_eq)
  then show ?thesis by (simp add: turns_def)
qed

lemma turns_even: "i < m \<Longrightarrow> j < m \<Longrightarrow> turns m j d \<le> turns m i d + 1"
  using deal_even [of i m d True] deal_even [of j m d True] by (simp add: turns_def)

lemma next_open_finds:
  "\<not> full (the (group_for_index i m True)) \<Longrightarrow> dealt \<le> i \<Longrightarrow>
   \<exists>d. next_open full m dealt = Some d \<and> dealt \<le> d \<and> \<not> full (the (group_for_index d m True)) \<and>
     (\<forall>e. dealt \<le> e \<longrightarrow> e < d \<longrightarrow> full (the (group_for_index e m True)))"
proof (induction "i - dealt" arbitrary: dealt)
  case 0
  then show ?case by (subst next_open.simps) auto
next
  case (Suc n)
  show ?case
  proof (cases "full (the (group_for_index dealt m True))")
    case True
    have "n = i - Suc dealt" "Suc dealt \<le> i" using Suc.hyps(2) by linarith+
    then obtain d where "next_open full m (Suc dealt) = Some d" "Suc dealt \<le> d" "\<not> full (the (group_for_index d m True))"
      "\<And>e. Suc dealt \<le> e \<Longrightarrow> e < d \<Longrightarrow> full (the (group_for_index e m True))"
      using Suc.hyps(1) [OF _ Suc.prems(1)] by blast
    moreover have "next_open full m dealt = next_open full m (Suc dealt)" using True by (subst next_open.simps) simp
    ultimately show ?thesis using True by (metis Suc_leD le_antisym not_less_eq_eq)
  next
    case False
    then show ?thesis by (subst next_open.simps) auto
  qed
qed

text \<open>Every open bucket has a turn ahead, so the loop ends.\<close>

lemma turn_ahead: "j < m \<Longrightarrow> dealt \<le> 2 * dealt * m + j \<and> group_for_index (2 * dealt * m + j) m True = Some j"
  by (simp add: group_for_index_def) (cases m; simp)

definition capped :: "nat option \<Rightarrow> nat \<Rightarrow> nat" where
  "capped quota t = (case quota of None \<Rightarrow> t | Some n \<Rightarrow> min n t)"

definition dealt_ok :: "nat option list \<Rightarrow> 'a list \<Rightarrow> 'a list list \<Rightarrow> nat \<Rightarrow> bool" where
  "dealt_ok sizes xs buckets d \<longleftrightarrow> length buckets = length sizes \<and> mset (concat buckets) = mset xs \<and>
    (\<forall>b\<in>set buckets. subseq b xs) \<and> (\<forall>j<length sizes. length (buckets ! j) = capped (sizes ! j) (turns (length sizes) j d))"

lemma mset_bucket_update: "i < length bs \<Longrightarrow> mset (concat (bs[i := bs ! i @ [r]])) = add_mset r (mset (concat bs))"
  by (induction bs arbitrary: i) (auto split: nat.splits)

lemma dealt_ok_step:
  assumes ok: "dealt_ok sizes xs buckets d0" and "d0 \<le> d" and m: "sizes \<noteq> []"
    and skipped: "\<And>e. d0 \<le> e \<Longrightarrow> e < d \<Longrightarrow> bucket_full sizes buckets (the (group_for_index e (length sizes) True))"
    and j: "group_for_index d (length sizes) True = Some i" and room: "\<not> bucket_full sizes buckets i"
  shows "dealt_ok sizes (xs @ [r]) (buckets[i := buckets ! i @ [r]]) (Suc d)"
proof -
  let ?m = "length sizes"
  have im: "i < ?m" using group_for_index_in [of ?m d True] m j by auto
  have same: "capped (sizes ! k) (turns ?m k d') = length (buckets ! k)" if "k < ?m" "d0 \<le> d'" "d' \<le> d" for k d'
    using that(2,3)
  proof (induction d' rule: dec_induct)
    case base
    then show ?case using ok that(1) by (simp add: dealt_ok_def)
  next
    case (step e)
    obtain c where c: "group_for_index e ?m True = Some c" using group_for_index_in [of ?m e True] m by auto
    show ?case
    proof (cases "c = k")
      case True
      then have "bucket_full sizes buckets k" using skipped [of e] step c by simp
      then show ?thesis using step c True by (auto simp: turns_Suc bucket_full_def capped_def split: option.splits)
    next
      case False
      then show ?thesis using step c by (simp add: turns_Suc)
    qed
  qed
  have len: "length (buckets[i := buckets ! i @ [r]] ! k) = capped (sizes ! k) (turns ?m k (Suc d))" if "k < ?m" for k
  proof (cases "k = i")
    case True
    then show ?thesis using same [of i d] that assms(2) room ok j
      by (auto simp: turns_Suc bucket_full_def capped_def dealt_ok_def split: option.splits)
  next
    case False
    then show ?thesis using same [of k d] that assms(2) j ok by (simp add: turns_Suc)
  qed
  have "subseq b (xs @ [r])" if "b \<in> set (buckets[i := buckets ! i @ [r]])" for b
  proof -
    have old: "\<forall>b\<in>set buckets. subseq b xs" and lb: "length buckets = ?m" using ok by (simp_all add: dealt_ok_def)
    have "b = buckets ! i @ [r] \<or> b \<in> set buckets" using that set_update_subset_insert by fastforce
    then show ?thesis using old lb im by (auto intro: list_emb_append_mono subseq_append')
  qed
  then show ?thesis using len ok im by (simp add: dealt_ok_def mset_bucket_update)
qed

lemma serpentine_deals:
  assumes "dealt_ok sizes xs buckets d" and "sizes \<noteq> []"
  shows "\<exists>out n d'. serpentine sizes rs buckets d = Some out \<and> dealt_ok sizes (xs @ take n rs) out d' \<and>
    (n < length rs \<longrightarrow> (\<forall>j<length sizes. bucket_full sizes out j))"
  using assms(1)
proof (induction rs arbitrary: xs buckets d)
  case Nil
  then show ?case by auto
next
  case (Cons r rs)
  let ?m = "length sizes" and ?full = "bucket_full sizes buckets"
  show ?case
  proof (cases "list_all ?full [0..<?m]")
    case True
    then show ?thesis using Cons.prems by (intro exI [of _ buckets] exI [of _ 0] exI [of _ d]) (auto simp: list_all_iff)
  next
    case False
    then obtain j where j: "j < ?m" "\<not> ?full j" by (auto simp: list_all_iff)
    let ?i = "2 * d * ?m + j"
    have "\<not> ?full (the (group_for_index ?i ?m True))" "d \<le> ?i" using turn_ahead [OF j(1), of d] j(2) by auto
    from next_open_finds [of ?full ?i ?m d, OF this] obtain e where e: "next_open ?full ?m d = Some e" "d \<le> e" "\<not> ?full (the (group_for_index e ?m True))"
      "\<And>k. d \<le> k \<Longrightarrow> k < e \<Longrightarrow> ?full (the (group_for_index k ?m True))" by blast
    obtain c where c: "group_for_index e ?m True = Some c" using group_for_index_in [of ?m e True] assms(2) by auto
    have "dealt_ok sizes (xs @ [r]) (buckets[c := buckets ! c @ [r]]) (Suc e)"
      using dealt_ok_step [OF Cons.prems e(2) assms(2) e(4) c] e(3) c by simp
    from Cons.IH [OF this] obtain out n d' where out: "serpentine sizes rs (buckets[c := buckets ! c @ [r]]) (Suc e) = Some out"
      "dealt_ok sizes ((xs @ [r]) @ take n rs) out d'" "n < length rs \<longrightarrow> (\<forall>j<?m. bucket_full sizes out j)" by blast
    then show ?thesis using False e(1) c by (intro exI [of _ out] exI [of _ "Suc n"] exI [of _ d']) (simp add: Let_def)
  qed
qed

lemma slices_fill:
  "\<exists>n. concat (slices sizes start rows) = drop start (take n rows) \<and>
    (n < length rows \<longrightarrow> start \<le> n \<and> list_all2 (\<lambda>size b. size = Some (length b)) sizes (slices sizes start rows))"
proof (induction sizes arbitrary: start)
  case Nil
  show ?case by (intro exI [of _ start]) simp
next
  case (Cons quota sizes)
  let ?stop = "case quota of None \<Rightarrow> length rows | Some n \<Rightarrow> start + n"
  obtain n where n: "concat (slices sizes ?stop rows) = drop ?stop (take n rows)"
    "n < length rows \<longrightarrow> ?stop \<le> n \<and> list_all2 (\<lambda>size b. size = Some (length b)) sizes (slices sizes ?stop rows)" using Cons by blast
  have cut_at: "drop start (take stop rows) @ drop stop (take n rows) = drop start (take n rows)" if "start \<le> stop" "stop \<le> n" for stop
  proof -
    have "drop start (take n rows) = take (stop - start) (drop start (take n rows)) @ drop (stop - start) (drop start (take n rows))" by (rule append_take_drop_id [symmetric])
    then show ?thesis using that by (simp add: take_drop min_def)
  qed
  show ?case
  proof (cases "length rows \<le> start")
    case True
    then have "?stop < length rows \<longrightarrow> False" by (auto split: option.splits)
    then show ?thesis using n True by (intro exI [of _ "length rows"]) (auto simp: Let_def split: option.splits)
  next
    case False
    then have le: "start \<le> ?stop" by (auto split: option.splits)
    show ?thesis
    proof (cases "n < length rows")
      case True
      then obtain k where k: "quota = Some k" "start + k \<le> n" using n(2) by (auto split: option.splits)
      then show ?thesis using n True cut_at [OF le] by (intro exI [of _ n]) (auto simp: Let_def min_def)
    next
      case False
      then have all: "take n rows = rows" by simp
      have "drop start (take ?stop rows) @ drop ?stop rows = drop start rows"
      proof (cases "?stop \<le> length rows")
        case True
        then show ?thesis using cut_at [OF le] False all by simp
      next
        case False
        then show ?thesis by simp
      qed
      then show ?thesis using n(1) False all by (intro exI [of _ n]) (simp add: Let_def)
    qed
  qed
qed

lemma slices_parts:
  "length (slices sizes start rows) = length sizes"
  "b \<in> set (slices sizes start rows) \<Longrightarrow> subseq b rows"
  "j < length sizes \<Longrightarrow> sizes ! j = Some k \<Longrightarrow> length (slices sizes start rows ! j) \<le> k"
proof -
  show "length (slices sizes start rows) = length sizes" by (induction sizes arbitrary: start) (auto simp: Let_def)
  show "subseq b rows" if "b \<in> set (slices sizes start rows)"
    using that
  proof (induction sizes arbitrary: start)
    case (Cons quota sizes)
    have "subseq (drop start (take stop rows)) rows" for stop
      by (rule subseq_order.trans [OF sublist_imp_subseq sublist_imp_subseq]) (rule sublist_drop, rule sublist_take)
    then show ?case using Cons by (auto simp: Let_def)
  qed simp
  show "length (slices sizes start rows ! j) \<le> k" if "j < length sizes" "sizes ! j = Some k"
    using that by (induction sizes arbitrary: start j) (auto simp: Let_def nth_Cons split: nat.splits)
qed

text \<open>C36: a split always returns. It deals out a first part of the rows, all of them unless every bucket is full,
  gives no bucket more than its size, and keeps the order of the rows in each bucket. Without the
  serpentine the buckets are filled one after another; with it an open bucket is never more
  than one row behind any other bucket.\<close>

theorem split_deals_fairly:
  assumes "sc_buckets c \<noteq> []"
  shows "\<exists>buckets n. split_rows c rows = Some buckets \<and> length buckets = length (sc_buckets c) \<and>
    mset (concat buckets) = mset (take n rows) \<and> (\<forall>b\<in>set buckets. subseq b rows) \<and>
    (\<forall>j k. j < length buckets \<and> bu_size (sc_buckets c ! j) = Some k \<longrightarrow> length (buckets ! j) \<le> k) \<and>
    (n < length rows \<longrightarrow> (\<forall>j<length buckets. bu_size (sc_buckets c ! j) = Some (length (buckets ! j)))) \<and>
    (\<not> sc_serpentine c \<longrightarrow> concat buckets = take n rows) \<and>
    (sc_serpentine c \<longrightarrow> (\<forall>i j. i < length buckets \<and> j < length buckets \<and> bu_size (sc_buckets c ! i) \<noteq> Some (length (buckets ! i)) \<longrightarrow>
      length (buckets ! j) \<le> length (buckets ! i) + 1))"
proof (cases "sc_serpentine c")
  case False
  let ?sizes = "map bu_size (sc_buckets c)" and ?out = "slices (map bu_size (sc_buckets c)) 0 rows"
  obtain n where n: "concat ?out = take n rows" "n < length rows \<longrightarrow> list_all2 (\<lambda>size b. size = Some (length b)) ?sizes ?out"
    using slices_fill [of ?sizes 0 rows] by auto
  have "length (?out ! j) \<le> k" if "j < length (sc_buckets c)" "bu_size (sc_buckets c ! j) = Some k" for j k
    using slices_parts(3) [of j ?sizes k 0 rows] that by simp
  moreover have "bu_size (sc_buckets c ! j) = Some (length (?out ! j))" if "n < length rows" "j < length (sc_buckets c)" for j
    using n(2) that list_all2_nthD [of _ ?sizes ?out j] by fastforce
  ultimately show ?thesis using n(1) slices_parts(2) [of _ ?sizes 0 rows] False
    by (intro exI [of _ ?out] exI [of _ n]) (simp add: split_rows_def slices_parts(1))
next
  case True
  let ?sizes = "map bu_size (sc_buckets c)" and ?m = "length (sc_buckets c)"
  have "concat (map (\<lambda>s. [] :: 'a list) xs) = []" for xs :: "nat option list" by simp
  then have "dealt_ok ?sizes [] (map (\<lambda>s. []) ?sizes) 0"
    by (auto simp: dealt_ok_def turns_def capped_def split: option.splits)
  from serpentine_deals [OF this, of rows] obtain out n d where out: "serpentine ?sizes rows (map (\<lambda>s. []) ?sizes) 0 = Some out"
    "dealt_ok ?sizes (take n rows) out d" "n < length rows \<longrightarrow> (\<forall>j<?m. bucket_full ?sizes out j)"
    using assms by auto
  have len: "length out = ?m" and parts: "mset (concat out) = mset (take n rows)" "\<forall>b\<in>set out. subseq b (take n rows)"
    and size_of: "\<And>j. j < ?m \<Longrightarrow> length (out ! j) = capped (bu_size (sc_buckets c ! j)) (turns ?m j d)"
    using out(2) by (simp_all add: dealt_ok_def)
  have "subseq b rows" if "b \<in> set out" for b
    using parts(2) that by (meson sublist_imp_subseq sublist_take subseq_order.trans)
  moreover have "length (out ! j) \<le> k" if "j < ?m" "bu_size (sc_buckets c ! j) = Some k" for j k
    using size_of [OF that(1)] that(2) by (simp add: capped_def)
  moreover have "bu_size (sc_buckets c ! j) = Some (length (out ! j))" if "n < length rows" "j < ?m" for j
    using out(3) that size_of [of j] by (auto simp: bucket_full_def capped_def split: option.splits)
  moreover have "length (out ! j) \<le> length (out ! i) + 1"
    if "i < ?m" "j < ?m" "bu_size (sc_buckets c ! i) \<noteq> Some (length (out ! i))" for i j
  proof -
    have "length (out ! i) = turns ?m i d" using size_of [OF that(1)] that(3) by (auto simp: capped_def min_def split: option.splits if_splits)
    moreover have "length (out ! j) \<le> turns ?m j d" using size_of [OF that(2)] by (auto simp: capped_def split: option.splits)
    ultimately show ?thesis using turns_even [OF that(1,2), of d] by simp
  qed
  ultimately show ?thesis using out(1) True len parts(1)
    by (intro exI [of _ out] exI [of _ n]) (simp add: split_rows_def)
qed

text \<open>Seven rows over a bucket of one, a bucket of two and an open one.\<close>

definition three_buckets :: split_config where
  "three_buckets = \<lparr>sc_buckets = [\<lparr>bu_name = ''A'', bu_size = Some 1\<rparr>, \<lparr>bu_name = ''B'', bu_size = Some 2\<rparr>, \<lparr>bu_name = ''C'', bu_size = None\<rparr>], sc_serpentine = True\<rparr>"

theorem split_deals_fairly_witness:
  "\<exists>buckets. split_rows three_buckets [1 :: nat, 2, 3, 4, 5, 6, 7] = Some buckets \<and> (\<forall>b\<in>set buckets. subseq b [1, 2, 3, 4, 5, 6, 7]) \<and>
    buckets = [[1], [2, 5], [3, 4, 6, 7]]"
proof -
  have "sc_buckets three_buckets \<noteq> []" by (simp add: three_buckets_def)
  from split_deals_fairly [OF this, of "[1 :: nat, 2, 3, 4, 5, 6, 7]"]
  obtain buckets where b: "split_rows three_buckets [1 :: nat, 2, 3, 4, 5, 6, 7] = Some buckets" "\<forall>b\<in>set buckets. subseq b [1, 2, 3, 4, 5, 6, 7]" by blast
  moreover have "split_rows three_buckets [1 :: nat, 2, 3, 4, 5, 6, 7] = Some [[1], [2, 5], [3, 4, 6, 7]]"
    by code_simp
  ultimately show ?thesis by simp
qed

section \<open>What a filter passes\<close>

lemma in_window: "x \<in> set (drop start (take stop rows)) \<longleftrightarrow> (\<exists>i. start \<le> i \<and> i < stop \<and> i < length rows \<and> rows ! i = x)"
proof
  assume "x \<in> set (drop start (take stop rows))"
  then obtain k where "k < length (drop start (take stop rows))" "drop start (take stop rows) ! k = x" by (auto simp: in_set_conv_nth)
  then show "\<exists>i. start \<le> i \<and> i < stop \<and> i < length rows \<and> rows ! i = x" by (intro exI [of _ "start + k"]) (auto simp: min_def split: if_splits)
next
  assume "\<exists>i. start \<le> i \<and> i < stop \<and> i < length rows \<and> rows ! i = x"
  then obtain i where i: "start \<le> i" "i < stop" "i < length rows" "rows ! i = x" by blast
  then have "drop start (take stop rows) ! (i - start) = x" "i - start < length (drop start (take stop rows))" by auto
  then show "x \<in> set (drop start (take stop rows))" by (metis nth_mem)
qed

definition ties_adjacent :: "result_row list \<Rightarrow> bool" where
  "ties_adjacent rows \<longleftrightarrow> (\<forall>i j k. i < j \<and> j < k \<and> k < length rows \<and> rr_tie_group (rows ! i) = rr_tie_group (rows ! k) \<and> rr_tie_group (rows ! i) \<noteq> None \<longrightarrow>
    rr_tie_group (rows ! j) = rr_tie_group (rows ! i))"

lemma tie_at: "ties_adjacent rows \<Longrightarrow> i \<le> j \<Longrightarrow> j \<le> k \<Longrightarrow> k < length rows \<Longrightarrow> rr_tie_group (rows ! i) = rr_tie_group (rows ! k) \<Longrightarrow>
    rr_tie_group (rows ! i) \<noteq> None \<Longrightarrow> rr_tie_group (rows ! j) = rr_tie_group (rows ! i)"
  unfolding ties_adjacent_def by (metis le_neq_implies_less)

lemma window_tie:
  assumes dist: "distinct rows" and adj: "ties_adjacent rows" and window: "start < stop \<or> start = 0"
  shows "straddles rows start \<or> straddles rows stop \<longleftrightarrow>
    (\<exists>r\<in>set (drop start (take stop rows)). \<exists>s\<in>set rows - set (drop start (take stop rows)). rr_tie_group r \<noteq> None \<and> rr_tie_group r = rr_tie_group s)"
    (is "?l \<longleftrightarrow> ?r")
proof
  have outside: "rows ! i \<in> set rows - set (drop start (take stop rows))" if "i < length rows" "i < start \<or> stop \<le> i" for i
  proof -
    have "rows ! k \<noteq> rows ! i" if "start \<le> k" "k < stop" "k < length rows" for k
      using nth_eq_iff_index_eq [OF dist that(3) \<open>i < length rows\<close>] that \<open>i < start \<or> stop \<le> i\<close> by auto
    then have "rows ! i \<notin> set (drop start (take stop rows))" unfolding in_window by blast
    then show ?thesis using that(1) by simp
  qed
  have inside: "rows ! i \<in> set (drop start (take stop rows))" if "i < length rows" "start \<le> i" "i < stop" for i
    unfolding in_window by (intro exI [of _ i]) (simp add: that)
  assume ?l
  then show ?r
  proof
    assume "straddles rows start"
    then have "0 < start" "start < length rows" "rr_tie_group (rows ! (start - 1)) \<noteq> None" "rr_tie_group (rows ! (start - 1)) = rr_tie_group (rows ! start)"
      unfolding straddles_def by blast+
    then show ?r using inside [of start] outside [of "start - 1"] window
      by (intro bexI [of _ "rows ! start"] bexI [of _ "rows ! (start - 1)"]) simp_all
  next
    assume "straddles rows stop"
    then have "0 < stop" "stop < length rows" "rr_tie_group (rows ! (stop - 1)) \<noteq> None" "rr_tie_group (rows ! (stop - 1)) = rr_tie_group (rows ! stop)"
      unfolding straddles_def by blast+
    then show ?r using inside [of "stop - 1"] outside [of stop] window
      by (intro bexI [of _ "rows ! (stop - 1)"] bexI [of _ "rows ! stop"]) auto
  qed
next
  assume ?r
  then obtain i k where ik: "start \<le> i" "i < stop" "i < length rows" "k < length rows" "k < start \<or> stop \<le> k"
    "rr_tie_group (rows ! i) \<noteq> None" "rr_tie_group (rows ! i) = rr_tie_group (rows ! k)"
    by (auto simp: in_window) (metis in_set_conv_nth not_less)
  show ?l
  proof (cases "k < start")
    case True
    then have "rr_tie_group (rows ! (start - 1)) = rr_tie_group (rows ! k)" "rr_tie_group (rows ! start) = rr_tie_group (rows ! k)"
      using ik by (auto intro!: tie_at [OF adj, of k _ i])
    then show ?thesis using True ik by (simp add: straddles_def)
  next
    case False
    then have "rr_tie_group (rows ! (stop - 1)) = rr_tie_group (rows ! i)" "rr_tie_group (rows ! stop) = rr_tie_group (rows ! i)"
      using tie_at [OF adj, of i "stop - 1" k] tie_at [OF adj, of i stop k] ik False by auto
    then show ?thesis using False ik by (simp add: straddles_def)
  qed
qed

text \<open>A filter by place passes adjacent rows, and it reports a boundary tie exactly when one of them is tied
  with a row it dropped, provided the ranking keeps tied rows together.\<close>

theorem filter_reports_split_ties:
  assumes "filter_config_ok c" and "fc_mode c = Top \<or> fc_mode c = Range" and "distinct rows"
    and "\<forall>i j k. i < j \<and> j < k \<and> k < length rows \<and> rr_tie_group (rows ! i) = rr_tie_group (rows ! k) \<and> rr_tie_group (rows ! i) \<noteq> None \<longrightarrow>
      rr_tie_group (rows ! j) = rr_tie_group (rows ! i)"
  shows "\<exists>passed. sublist passed rows \<and> compute_filter c rows item_order =
    Inr \<lparr>po_ports = [(''passed'', passed)],
      po_boundary_tie = (\<exists>r\<in>set passed. \<exists>s\<in>set rows - set passed. rr_tie_group r \<noteq> None \<and> rr_tie_group r = rr_tie_group s)\<rparr>"
proof -
  have adj: "ties_adjacent rows" unfolding ties_adjacent_def by (rule assms(4))
  obtain start stop where window: "start < stop \<or> start = 0"
    "compute_filter c rows item_order = Inr \<lparr>po_ports = [(''passed'', drop start (take stop rows))], po_boundary_tie = (straddles rows start \<or> straddles rows stop)\<rparr>"
  proof (cases "fc_mode c")
    case Top
    then show ?thesis using that [of 0 "or_zero (fc_n c)"] by (simp add: compute_filter_def Let_def straddles_def [of _ 0])
  next
    case Range
    then obtain a b where ab: "fc_from c = Some a" "fc_to c = Some b" "a \<le> b" using assms(1) by (auto simp: filter_config_ok_def split: option.splits)
    then show ?thesis using that [of "a - 1" b] Range by (cases a) (auto simp: compute_filter_def Let_def or_zero_def)
  qed (use assms(2) in auto)
  have "sublist (drop start (take stop rows)) rows" by (rule sublist_order.order_trans [OF sublist_drop sublist_take])
  then show ?thesis unfolding window(2) window_tie [OF assms(3) adj window(1)]
    by (intro exI [of _ "drop start (take stop rows)"] conjI refl)
qed

definition plain_row :: "int \<Rightarrow> nat option \<Rightarrow> result_row" where
  "plain_row i tie = \<lparr>rr_member = Some i, rr_team = None, rr_item = None, rr_item_rank = None, rr_score = None, rr_tie_group = tie, rr_breakdown = None, rr_role = None\<rparr>"

theorem filter_reports_split_ties_witness:
  "map_sum id po_boundary_tie (compute_filter \<lparr>fc_mode = Top, fc_n = Some 2, fc_from = None, fc_to = None, fc_per_item = [], fc_upper = None, fc_per_item_upper = [], fc_swiss_status = None, fc_manual = []\<rparr>
     [plain_row 1 None, plain_row 2 (Some 2), plain_row 3 (Some 2)] []) = Inr True"
proof -
  let ?c = "\<lparr>fc_mode = Top, fc_n = Some 2, fc_from = None, fc_to = None, fc_per_item = [], fc_upper = None, fc_per_item_upper = [], fc_swiss_status = None, fc_manual = []\<rparr>"
  let ?rows = "[plain_row 1 None, plain_row 2 (Some 2), plain_row 3 (Some 2)]"
  have "\<forall>i j k. i < j \<and> j < k \<and> k < length ?rows \<and> rr_tie_group (?rows ! i) = rr_tie_group (?rows ! k) \<and> rr_tie_group (?rows ! i) \<noteq> None \<longrightarrow>
      rr_tie_group (?rows ! j) = rr_tie_group (?rows ! i)"
    by (auto simp: plain_row_def less_Suc_eq numeral_eq_Suc)
  then obtain passed where "compute_filter ?c ?rows [] = Inr \<lparr>po_ports = [(''passed'', passed)],
      po_boundary_tie = (\<exists>r\<in>set passed. \<exists>s\<in>set ?rows - set passed. rr_tie_group r \<noteq> None \<and> rr_tie_group r = rr_tie_group s)\<rparr>"
    using filter_reports_split_ties [of ?c ?rows "[]"] by (auto simp: filter_config_ok_def plain_row_def)
  moreover have "compute_filter ?c ?rows [] = Inr \<lparr>po_ports = [(''passed'', take 2 ?rows)], po_boundary_tie = True\<rparr>" by code_simp
  ultimately show ?thesis by simp
qed

section \<open>A leaderboard places its pins\<close>

definition untie :: "result_row \<Rightarrow> result_row" where
  "untie r = r\<lparr>rr_tie_group := None\<rparr>"

lemma untie_simps [simp]:
  "untie (r\<lparr>rr_tie_group := t\<rparr>) = untie r" "participant_id (untie r) = participant_id r" "rr_role (untie r) = rr_role r"
  "participant_id (r\<lparr>rr_tie_group := t\<rparr>) = participant_id r"
  by (simp_all add: untie_def participant_id_def split: option.splits)

lemma concat_group_runs: "concat (map snd (group_runs f xs)) = xs"
  by (induction f xs rule: group_runs.induct) simp_all

lemma group_runs_key: "(k, ys) \<in> set (group_runs f xs) \<Longrightarrow> ys \<noteq> [] \<and> (\<forall>y\<in>set ys. f y = k)"
proof (induction f xs rule: group_runs.induct)
  case (2 f x xs)
  show ?case
  proof (cases "(k, ys) = (f x, x # takeWhile (\<lambda>y. f y = f x) xs)")
    case True
    then show ?thesis by (auto dest: set_takeWhileD)
  next
    case False
    then have "(k, ys) \<in> set (group_runs f (dropWhile (\<lambda>y. f y = f x) xs))" using 2(2) by auto
    then show ?thesis by (rule 2(1))
  qed
qed simp

text \<open>After the runs are placed two adjacent rows are tied exactly when their keys say so, and a row without a
  key is not tied.\<close>

lemma place_runs:
  "\<exists>tail. foldl place_run acc (group_runs snd xs) = acc @ tail \<and> map untie tail = map (untie \<circ> fst) xs \<and>
    (\<forall>i<length xs. snd (xs ! i) = None \<longrightarrow> rr_tie_group (tail ! i) = None) \<and>
    (\<forall>i<length xs. \<forall>g. rr_tie_group (tail ! i) = Some g \<longrightarrow> length acc < g) \<and>
    (\<forall>i. Suc i < length xs \<longrightarrow> (rr_tie_group (tail ! i) \<noteq> None \<and> rr_tie_group (tail ! i) = rr_tie_group (tail ! Suc i)) =
      (snd (xs ! i) \<noteq> None \<and> snd (xs ! i) = snd (xs ! Suc i)))"
proof (induction "snd :: result_row \<times> nat option \<Rightarrow> nat option" xs arbitrary: acc rule: group_runs.induct)
  case 1
  then show ?case by simp
next
  case (2 x xs)
  let ?run = "x # takeWhile (\<lambda>y. snd y = snd x) xs" and ?more = "dropWhile (\<lambda>y. snd y = snd x) xs"
  define head where "head = (if snd x \<noteq> None \<and> 1 < length ?run then Some (length acc + 1) else None)"
  define done_now where "done_now = map (\<lambda>(r, k). r\<lparr>rr_tie_group := head\<rparr>) ?run"
  let ?n = "length ?run"
  have step: "place_run acc (snd x, ?run) = acc @ done_now" by (simp add: place_run_def head_def done_now_def Let_def)
  obtain tail where tail: "foldl place_run (acc @ done_now) (group_runs snd ?more) = (acc @ done_now) @ tail" "map untie tail = map (untie \<circ> fst) ?more"
    "\<forall>i<length ?more. snd (?more ! i) = None \<longrightarrow> rr_tie_group (tail ! i) = None"
    "\<forall>i<length ?more. \<forall>g. rr_tie_group (tail ! i) = Some g \<longrightarrow> length (acc @ done_now) < g"
    "\<forall>i. Suc i < length ?more \<longrightarrow> (rr_tie_group (tail ! i) \<noteq> None \<and> rr_tie_group (tail ! i) = rr_tie_group (tail ! Suc i)) =
      (snd (?more ! i) \<noteq> None \<and> snd (?more ! i) = snd (?more ! Suc i))"
    using 2 [of "acc @ done_now"] by blast
  have split: "x # xs = ?run @ ?more" by simp
  have len: "length done_now = ?n" "length (x # xs) = ?n + length ?more" "length tail = length ?more"
    using arg_cong [OF split, of length] arg_cong [OF tail(2), of length] unfolding length_append by (simp_all add: done_now_def)
  have key: "snd ((x # xs) ! i) = snd x" if "i < ?n" for i
    unfolding split nth_append using that by (cases i) (auto dest: nth_mem set_takeWhileD)
  have now: "rr_tie_group ((done_now @ tail) ! i) = head" if "i < ?n" for i
  proof -
    have "(done_now @ tail) ! i = done_now ! i" using that len(1) by (simp add: nth_append)
    also have "\<dots> = (\<lambda>(r, k). r\<lparr>rr_tie_group := head\<rparr>) (?run ! i)" unfolding done_now_def using that by (rule nth_map)
    finally show ?thesis by (simp add: split_def)
  qed
  have later: "(x # xs) ! (?n + i) = ?more ! i" "(done_now @ tail) ! (?n + i) = tail ! i" for i
    by (simp only: split nth_append_length_plus) (simp only: len(1) [symmetric] nth_append_length_plus)
  have other: "snd (?more ! 0) \<noteq> snd x" if "?more \<noteq> []" using that hd_dropWhile [OF that] by (simp add: hd_conv_nth)
  have tied: "(rr_tie_group ((done_now @ tail) ! i) \<noteq> None \<and> rr_tie_group ((done_now @ tail) ! i) = rr_tie_group ((done_now @ tail) ! Suc i)) =
      (snd ((x # xs) ! i) \<noteq> None \<and> snd ((x # xs) ! i) = snd ((x # xs) ! Suc i))" if i: "Suc i < length (x # xs)" for i
  proof -
    consider "Suc i < ?n" | "Suc i = ?n" | j where "i = ?n + j" by (metis Suc_lessI le_Suc_ex linorder_not_less)
    then show ?thesis
    proof cases
      case 1
      then have "1 < ?n" by linarith
      then have "head = (if snd x \<noteq> None then Some (length acc + 1) else None)" by (simp only: head_def simp_thms)
      then show ?thesis using 1 now [of i] now [of "Suc i"] key [of i] key [of "Suc i"] by simp
    next
      case 2
      then have ne: "?more \<noteq> []" using i len(2) by auto
      have "rr_tie_group (tail ! 0) = Some g \<longrightarrow> length acc + 1 < g" for g using tail(4) ne len(1) by force
      then have "rr_tie_group (tail ! 0) \<noteq> Some (length acc + 1)" by blast
      then have "head \<noteq> None \<longrightarrow> head \<noteq> rr_tie_group (tail ! 0)" unfolding head_def by (simp add: eq_commute)
      then show ?thesis using 2 now [of i] key [of i] later [of 0] other [OF ne] by auto
    next
      case 3
      then show ?thesis using later [of j] later [of "Suc j"] tail(5) i len(2) by simp
    qed
  qed
  have "rr_tie_group ((done_now @ tail) ! i) = None" if "i < length (x # xs)" "snd ((x # xs) ! i) = None" for i
  proof (cases "i < ?n")
    case True
    then show ?thesis using now key [OF True] that(2) by (simp add: head_def)
  next
    case False
    then obtain j where "i = ?n + j" by (metis le_Suc_ex not_less)
    then show ?thesis using later [of j] tail(3) that len(2) by simp
  qed
  moreover have "length acc < g" if "i < length (x # xs)" "rr_tie_group ((done_now @ tail) ! i) = Some g" for i g
  proof (cases "i < ?n")
    case True
    then show ?thesis using now that(2) by (auto simp: head_def split: if_splits)
  next
    case False
    then obtain j where "i = ?n + j" by (metis le_Suc_ex not_less)
    then show ?thesis using later [of j] tail(4) that len(2) by fastforce
  qed
  moreover have "map untie (done_now @ tail) = map (untie \<circ> fst) (x # xs)"
    unfolding split map_append using tail(2) by (simp add: done_now_def split_def)
  moreover have "foldl place_run acc (group_runs snd (x # xs)) = acc @ (done_now @ tail)" using tail(1) step by simp
  ultimately show ?case using tied by blast
qed

definition pid :: "result_row \<Rightarrow> int" where
  "pid r = the (participant_id r)"

lemma pid_untie [simp]: "pid (untie r) = pid r"
  by (simp add: pid_def)

lemma positive_parts:
  "\<forall>(t, p) \<in> set L. 0 < p \<Longrightarrow> map fst (filter (\<lambda>(t, p). t \<notin> K \<and> 0 < p) L @ filter (\<lambda>(t, p). t \<notin> K \<and> p \<le> 0) L) = filter (\<lambda>i. i \<notin> K) (map fst L)"
  for L :: "(int \<times> int) list"
  by (induction L) auto

lemma not_kept: "t \<in> set (map fst (filter (\<lambda>(t, p). t \<notin> K \<and> 0 < p) L @ filter (\<lambda>(t, p). t \<notin> K \<and> p \<le> 0) L)) \<Longrightarrow> t \<notin> K"
  for L :: "(int \<times> int) list"
  by auto

text \<open>One role's rows: nothing raises, nobody is lost, and pins that fit get their places.\<close>

lemma pinned_rows_result:
  assumes named: "\<forall>r\<in>set rows. participant_id r \<noteq> None" and dist: "distinct (map pid rows)" and keys: "distinct (map fst pins)" and "rows \<noteq> []"
  shows "\<exists>out. pinned_rows rows pins = Inr out \<and> mset (map untie out) = mset (map untie rows) \<and>
    map untie (filter (\<lambda>r. pid r \<notin> fst ` set pins) out) = map untie (filter (\<lambda>r. pid r \<notin> fst ` set pins) rows) \<and>
    ((let here = filter (\<lambda>(t, w). t \<in> pid ` set rows) pins
      in distinct (map snd here) \<and> (\<forall>(t, w) \<in> set here. 1 \<le> w \<and> w \<le> int (length rows)) \<longrightarrow>
       (\<forall>(t, w) \<in> set here. pid (out ! nat (w - 1)) = t \<and> rr_tie_group (out ! nat (w - 1)) = None)))"
proof -
  let ?ranked = "map (\<lambda>(i, r). (the (participant_id r), int i)) (enumerate 1 rows)"
  have "map fst ?ranked = map pid (map snd (enumerate 1 rows))"
    unfolding map_map by (rule map_cong) (auto simp: pid_def)
  then have fsts: "map fst ?ranked = map pid rows" by (simp only: map_snd_enumerate)
  have pos: "\<forall>(t, p) \<in> set ?ranked. 0 < p" by (auto simp: in_set_enumerate_eq)
  have "enumerate 1 rows = (1, hd rows) # enumerate 2 (tl rows)" using assms(4) by (cases rows) (simp_all add: numeral_2_eq_2)
  then have one: "1 \<in> snd ` set ?ranked" by simp
  obtain placed where placed: "apply_pins ?ranked pins = Some placed" "mset (map fst placed) = mset (map pid rows)"
    "map fst (filter (\<lambda>(t, p, b). \<not> b) placed) = map fst (filter (\<lambda>(t, p). t \<notin> fst ` set pins \<and> 0 < p) ?ranked @ filter (\<lambda>(t, p). t \<notin> fst ` set pins \<and> p \<le> 0) ?ranked)"
    "let here = filter (\<lambda>(t, w). t \<in> fst ` set ?ranked) pins
     in distinct (map snd here) \<and> (\<forall>(t, w) \<in> set here. 1 \<le> w \<and> w \<le> seat_count ?ranked pins) \<longrightarrow>
       (\<forall>(t, w) \<in> set here. (t, w, True) \<in> set placed)"
    "\<forall>(t, p, b) \<in> set placed. b \<longrightarrow> t \<in> fst ` set pins" "length placed = length ?ranked" "\<forall>i<length placed. snd (snd (placed ! i)) \<longrightarrow> fst (snd (placed ! i)) = int i + 1"
    using pins_seat_once [of ?ranked pins] dist keys pos one unfolding fsts by blast
  define by_id where "by_id = foldl (\<lambda>d r. dict_set (the (participant_id r)) r d) [] rows"
  have by_id: "by_id = map (\<lambda>r. (pid r, r)) rows" using dict_comprehension [of pid rows "\<lambda>r. r"] dist by (simp add: by_id_def pid_def)
  have found: "the (map_of by_id (pid r)) = r" if "r \<in> set rows" for r
  proof -
    have "map_of by_id (pid r) = Some r" by (rule map_of_is_SomeI) (use that dist in \<open>auto simp: by_id comp_def\<close>)
    then show ?thesis by simp
  qed
  let ?xs = "map (\<lambda>(i, position, pinned). let r = the (map_of by_id i) in (r, if pinned then None else rr_tie_group r)) placed"
  obtain out where out: "foldl place_run [] (group_runs snd ?xs) = out" "map untie out = map (untie \<circ> fst) ?xs"
    "\<forall>i<length ?xs. snd (?xs ! i) = None \<longrightarrow> rr_tie_group (out ! i) = None"
    using place_runs [of "[]" ?xs] unfolding append_Nil by blast
  have len: "length out = length placed" using arg_cong [OF out(2), of length] by simp
  have pids: "pid (the (map_of by_id i)) = i" if "i \<in> pid ` set rows" for i using that found by auto
  have inr: "fst x \<in> pid ` set rows" if "x \<in> set placed" for x using that mset_eq_setD [OF placed(2)] by (metis image_eqI list.set_map)
  have ids: "map pid out = map fst placed"
  proof -
    have "map pid out = map pid (map untie out)" by (simp add: comp_def)
    also have "\<dots> = map fst placed" unfolding out(2) map_map by (intro map_cong refl) (simp add: split_def Let_def pids inr)
    finally show ?thesis .
  qed
  have same: "untie (out ! i) = untie (the (map_of by_id (fst (placed ! i))))" if "i < length placed" for i
    using arg_cong [OF out(2), of "\<lambda>ys. ys ! i"] that len by (simp add: split_def Let_def)
  have rows_eq: "map untie out = map (\<lambda>i. untie (the (map_of by_id i))) (map pid out)"
    unfolding ids using same len by (intro nth_equalityI) simp_all
  have back_rows: "map untie ys = map (\<lambda>i. untie (the (map_of by_id i))) (map pid ys)" if "set ys \<subseteq> set rows" for ys
    using that found by (auto simp: subset_iff)
  have all: "mset (map untie out) = mset (map untie rows)"
    unfolding rows_eq back_rows [OF subset_refl] ids using placed(2) by (metis mset_map)
  have "map pid (filter (\<lambda>r. pid r \<notin> fst ` set pins) ys) = filter (\<lambda>i. i \<notin> fst ` set pins) (map pid ys)" for ys by (simp add: filter_map comp_def)
  note flt = this
  have "filter (\<lambda>i. i \<notin> fst ` set pins) (map fst placed) = map fst (filter (\<lambda>(t, p, b). \<not> b) placed)"
  proof -
    have "\<not> b \<longrightarrow> t \<notin> fst ` set pins" if "(t, p, b) \<in> set placed" for t p b
    proof
      assume "\<not> b"
      then have "t \<in> set (map fst (filter (\<lambda>(t, p, b). \<not> b) placed))" using that by force
      then show "t \<notin> fst ` set pins" unfolding placed(3) by (rule not_kept)
    qed
    then have flag: "t \<notin> fst ` set pins \<longleftrightarrow> \<not> b" if "(t, p, b) \<in> set placed" for t p b using that placed(5) by blast
    have "filter (\<lambda>x. fst x \<notin> fst ` set pins) placed = filter (\<lambda>(t, p, b). \<not> b) placed"
    proof (rule filter_cong [OF refl])
      fix x assume x: "x \<in> set placed"
      obtain t p b where "x = (t, p, b)" by (rule prod_cases3)
      then show "(fst x \<notin> fst ` set pins) = (case x of (t, p, b) \<Rightarrow> \<not> b)" using flag [of t p b] x by simp
    qed
    then show ?thesis unfolding filter_map comp_def by (rule arg_cong)
  qed
  also have "\<dots> = filter (\<lambda>i. i \<notin> fst ` set pins) (map pid rows)"
    unfolding placed(3) fsts [symmetric] by (rule positive_parts [OF pos])
  finally have free: "map pid (filter (\<lambda>r. pid r \<notin> fst ` set pins) out) = map pid (filter (\<lambda>r. pid r \<notin> fst ` set pins) rows)" unfolding flt ids .
  have "map untie (filter Q out) = map (\<lambda>i. untie (the (map_of by_id i))) (map pid (filter Q out))" for Q
  proof -
    have "untie r = untie (the (map_of by_id (pid r)))" if r: "r \<in> set out" for r
    proof -
      obtain i where i: "i < length out" "r = out ! i" using r unfolding in_set_conv_nth by blast
      have "fst (placed ! i) = pid r" using arg_cong [OF ids, of "\<lambda>ys. ys ! i"] i len by simp
      then show ?thesis using same [of i] len i by simp
    qed
    then show ?thesis by simp
  qed
  then have "map untie (filter (\<lambda>r. pid r \<notin> fst ` set pins) out) =
      map (\<lambda>i. untie (the (map_of by_id i))) (map pid (filter (\<lambda>r. pid r \<notin> fst ` set pins) rows))" unfolding free [symmetric] .
  then have unpinned: "map untie (filter (\<lambda>r. pid r \<notin> fst ` set pins) out) = map untie (filter (\<lambda>r. pid r \<notin> fst ` set pins) rows)"
    unfolding back_rows [of "filter (\<lambda>r. pid r \<notin> fst ` set pins) rows", OF filter_is_subset] .
  have seats: "pid (out ! nat (w - 1)) = t \<and> rr_tie_group (out ! nat (w - 1)) = None" if tw: "(t, w, True) \<in> set placed" for t w
  proof -
    obtain i where i: "i < length placed" "placed ! i = (t, w, True)" using tw unfolding in_set_conv_nth by blast
    then have "w = int i + 1" using placed(7) by fastforce
    then have "nat (w - 1) = i" by simp
    moreover have "pid (out ! i) = t" using arg_cong [OF ids, of "\<lambda>ys. ys ! i"] i len by simp
    moreover have "rr_tie_group (out ! i) = None" using out(3) i by (simp add: Let_def)
    ultimately show ?thesis by simp
  qed
  have "pinned_rows rows pins = Inr out"
    using named placed(1) out(1) unfolding pinned_rows_def by (simp add: list_ex_iff Let_def by_id_def [symmetric])
  moreover have "seat_count ?ranked pins = int (length rows)"
  proof -
    have "filter (\<lambda>(t, p). t \<in> fst ` set pins \<or> 0 < p) ?ranked = ?ranked" "filter (\<lambda>p. 0 < p) (map snd ?ranked) = map snd ?ranked"
      using pos by (auto simp: filter_id_conv)
    moreover have "Min (set (map snd ?ranked)) = 1"
    proof (rule Min_eqI)
      show "1 \<in> set (map snd ?ranked)" using one unfolding set_map .
      show "1 \<le> p" if "p \<in> set (map snd ?ranked)" for p using that by (auto simp: in_set_enumerate_eq)
    qed simp
    moreover have "map snd ?ranked \<noteq> []" using assms(4) by (cases rows) simp_all
    ultimately show ?thesis unfolding seat_count_def Let_def by simp
  qed
  moreover have "fst ` set ?ranked = pid ` set rows" using arg_cong [OF fsts, of set] unfolding set_map .
  ultimately have run: "pinned_rows rows pins = Inr out" "let here = filter (\<lambda>(t, w). t \<in> pid ` set rows) pins
     in distinct (map snd here) \<and> (\<forall>(t, w) \<in> set here. 1 \<le> w \<and> w \<le> int (length rows)) \<longrightarrow> (\<forall>(t, w) \<in> set here. (t, w, True) \<in> set placed)"
    using placed(4) by simp_all
  let ?here = "filter (\<lambda>(t, w). t \<in> pid ` set rows) pins"
  have "distinct (map snd ?here) \<and> (\<forall>(t, w) \<in> set ?here. 1 \<le> w \<and> w \<le> int (length rows)) \<longrightarrow>
       (\<forall>(t, w) \<in> set ?here. pid (out ! nat (w - 1)) = t \<and> rr_tie_group (out ! nat (w - 1)) = None)"
    using run(2) seats unfolding Let_def by fast
  then show ?thesis using all unpinned run(1) unfolding Let_def by blast
qed

definition run_placed :: "leaderboard_pin list \<Rightarrow> string option \<Rightarrow> result_row list \<Rightarrow> result_row list \<Rightarrow> bool" where
  "run_placed pins role members out \<longleftrightarrow> mset (map untie out) = mset (map untie members) \<and>
    ((\<forall>q\<in>set pins. lp_role q = role \<and> lp_participant q \<in> pid ` set members \<longrightarrow> lp_position q \<le> length members) \<longrightarrow>
     (\<forall>p\<in>set pins. lp_role p = role \<and> lp_participant p \<in> pid ` set members \<longrightarrow>
       pid (out ! (lp_position p - 1)) = lp_participant p \<and> rr_tie_group (out ! (lp_position p - 1)) = None))"

lemma role_pins_eq:
  assumes "leaderboard_config_ok pins"
  shows "role_pins pins role = map (\<lambda>p. (lp_participant p, int (lp_position p))) (filter (\<lambda>p. lp_role p = role) pins)"
    and "distinct (map lp_participant (filter (\<lambda>p. lp_role p = role) pins))" and "distinct (map lp_position (filter (\<lambda>p. lp_role p = role) pins))"
proof -
  show part: "distinct (map lp_participant (filter (\<lambda>p. lp_role p = role) pins))" and "distinct (map lp_position (filter (\<lambda>p. lp_role p = role) pins))"
    using assms by (auto simp: leaderboard_config_ok_def distinct_map inj_on_def)
  show "role_pins pins role = map (\<lambda>p. (lp_participant p, int (lp_position p))) (filter (\<lambda>p. lp_role p = role) pins)"
    unfolding role_pins_def by (rule dict_comprehension [OF part])
qed

lemma one_role:
  assumes ok: "leaderboard_config_ok pins" and named: "\<forall>r\<in>set members. participant_id r \<noteq> None" and dist: "distinct (map pid members)" and "members \<noteq> []"
  shows "\<exists>out. (if role_pins pins role = [] then Inr members else pinned_rows members (role_pins pins role)) = Inr out \<and> run_placed pins role members out"
proof (cases "role_pins pins role = []")
  case True
  then have "lp_role p \<noteq> role" if "p \<in> set pins" for p using that by (auto simp: role_pins_eq(1) [OF ok] filter_empty_conv)
  then show ?thesis using True by (auto simp: run_placed_def)
next
  case False
  let ?pins = "role_pins pins role" and ?mine = "filter (\<lambda>p. lp_role p = role) pins"
  have keys: "distinct (map fst ?pins)" using role_pins_eq(2) [OF ok, of role] by (simp add: role_pins_eq(1) [OF ok] comp_def)
  have snds: "map snd ?pins = map int (map lp_position ?mine)" by (simp add: role_pins_eq(1) [OF ok])
  have "distinct (map snd ?pins)" unfolding snds using role_pins_eq(3) [OF ok, of role] by (simp add: distinct_map inj_on_def)
  then have places: "distinct (map snd (filter P ?pins))" for P by (rule distinct_map_filter)
  have in_pins: "(t, w) \<in> set ?pins \<longleftrightarrow> (\<exists>p\<in>set pins. lp_role p = role \<and> t = lp_participant p \<and> w = int (lp_position p))" for t w
    by (auto simp: role_pins_eq(1) [OF ok])
  obtain out where out: "pinned_rows members ?pins = Inr out" "mset (map untie out) = mset (map untie members)"
    "(\<forall>(t, w) \<in> set (filter (\<lambda>(t, w). t \<in> pid ` set members) ?pins). 1 \<le> w \<and> w \<le> int (length members)) \<longrightarrow>
       (\<forall>(t, w) \<in> set (filter (\<lambda>(t, w). t \<in> pid ` set members) ?pins). pid (out ! nat (w - 1)) = t \<and> rr_tie_group (out ! nat (w - 1)) = None)"
    using pinned_rows_result [OF named dist keys assms(4)] places unfolding Let_def by blast
  have "pid (out ! (lp_position p - 1)) = lp_participant p \<and> rr_tie_group (out ! (lp_position p - 1)) = None"
    if fits: "\<forall>q\<in>set pins. lp_role q = role \<and> lp_participant q \<in> pid ` set members \<longrightarrow> lp_position q \<le> length members"
      and p: "p \<in> set pins" "lp_role p = role" "lp_participant p \<in> pid ` set members" for p
  proof -
    have low: "1 \<le> lp_position q" if "q \<in> set pins" for q using ok that by (simp add: leaderboard_config_ok_def)
    have "\<forall>(t, w) \<in> set (filter (\<lambda>(t, w). t \<in> pid ` set members) ?pins). 1 \<le> w \<and> w \<le> int (length members)"
    proof (intro ballI)
      fix x assume x: "x \<in> set (filter (\<lambda>(t, w). t \<in> pid ` set members) ?pins)"
      obtain t w where tw: "x = (t, w)" by fastforce
      then have "(t, w) \<in> set ?pins" "t \<in> pid ` set members" using x by simp_all
      moreover then obtain q where "q \<in> set pins" "lp_role q = role" "t = lp_participant q" "w = int (lp_position q)"
        unfolding in_pins by blast
      ultimately show "case x of (t, w) \<Rightarrow> 1 \<le> w \<and> w \<le> int (length members)" using fits low tw by auto
    qed
    moreover have "(lp_participant p, int (lp_position p)) \<in> set (filter (\<lambda>(t, w). t \<in> pid ` set members) ?pins)"
      using p in_pins by auto
    ultimately have "pid (out ! nat (int (lp_position p) - 1)) = lp_participant p \<and> rr_tie_group (out ! nat (int (lp_position p) - 1)) = None"
      using out(3) by fast
    moreover have "nat (int (lp_position p) - 1) = lp_position p - 1" by simp
    ultimately show ?thesis by simp
  qed
  then show ?thesis using False out(1,2) by (auto simp: run_placed_def)
qed

lemma all_roles:
  assumes ok: "leaderboard_config_ok pins" and runs: "\<forall>(role, members) \<in> set runs. (\<forall>r\<in>set members. participant_id r \<noteq> None) \<and> distinct (map pid members) \<and> members \<noteq> []"
  shows "\<exists>outs. place_roles pins runs = Inr (concat outs) \<and> list_all2 (\<lambda>(role, members) out. run_placed pins role members out) runs outs"
  using runs
proof (induction runs)
  case (Cons run runs)
  obtain role members where run: "run = (role, members)" by fastforce
  obtain out where "(if role_pins pins role = [] then Inr members else pinned_rows members (role_pins pins role)) = Inr out" "run_placed pins role members out"
    using one_role [OF ok, of members role] Cons.prems run by auto
  moreover obtain outs where "place_roles pins runs = Inr (concat outs)" "list_all2 (\<lambda>(role, members) out. run_placed pins role members out) runs outs"
    using Cons by auto
  ultimately show ?case using run by (intro exI [of _ "out # outs"]) (simp only: place_roles.simps sum.case list_all2_Cons prod.case concat.simps simp_thms)
qed simp

lemma run_placed_role:
  assumes "run_placed pins role members out" and "\<forall>r\<in>set members. rr_role r = role" and "r \<in> set out"
  shows "rr_role r = role"
proof -
  have "untie ` set out = untie ` set members" using assms(1) mset_eq_setD [of "map untie out" "map untie members"] by (simp add: run_placed_def)
  then obtain m where "m \<in> set members" "untie r = untie m" using assms(3) by (metis imageE imageI)
  then show ?thesis using assms(2) untie_simps(3) by metis
qed

lemma role_out:
  assumes "list_all2 (\<lambda>(role, members) out. run_placed pins role members out) runs outs"
    and "\<forall>(role, members) \<in> set runs. \<forall>r\<in>set members. rr_role r = role" and "distinct (map fst runs)" and "(role, members) \<in> set runs"
  shows "\<exists>out. filter (\<lambda>r. rr_role r = role) (concat outs) = out \<and> run_placed pins role members out \<and> filter (\<lambda>r. rr_role r = role) (concat (map snd runs)) = members"
  using assms
proof (induction runs outs rule: list_all2_induct)
  case (Cons run runs out outs)
  obtain k ms where run: "run = (k, ms)" by fastforce
  have placed: "run_placed pins k ms out" and ms: "\<forall>r\<in>set ms. rr_role r = k" using Cons.hyps(1) Cons.prems(1) run by auto
  have out: "\<forall>r\<in>set out. rr_role r = k" using run_placed_role [OF placed ms] by blast
  show ?case
  proof (cases "role = k")
    case True
    have members: "members = ms" using True Cons.prems(2,3) run by (force simp: image_iff)
    have later: "rr_role r \<noteq> k" if "r \<in> set (concat outs) \<union> set (concat (map snd runs))" for r
    proof -
      have "\<exists>(k', ms') \<in> set runs. rr_role r = k'"
        using that
      proof
        assume "r \<in> set (concat outs)"
        then obtain ys where ys: "ys \<in> set outs" "r \<in> set ys" by auto
        then obtain i where i: "i < length outs" "r \<in> set (outs ! i)" unfolding in_set_conv_nth [of ys] by blast
        then have "(case runs ! i of (role, members) \<Rightarrow> run_placed pins role members (outs ! i))" "i < length runs"
          using Cons.hyps(2) by (auto simp: list_all2_conv_all_nth)
        moreover obtain k' ms' where "runs ! i = (k', ms')" by fastforce
        moreover have "(k', ms') \<in> set runs" using calculation by (metis nth_mem)
        ultimately show ?thesis using run_placed_role [of pins k' ms' "outs ! i" r] i(2) Cons.prems(1) by fastforce
      qed (use Cons.prems(1) in fastforce)
      then show ?thesis using Cons.prems(2) run by force
    qed
    have "filter (\<lambda>r. rr_role r = role) (concat outs) = []" "filter (\<lambda>r. rr_role r = role) (concat (map snd runs)) = []"
      using later True by (auto simp: filter_empty_conv)
    then show ?thesis using placed members True ms out run by (simp add: filter_id_conv)
  next
    case False
    then have "filter (\<lambda>r. rr_role r = role) out = []" "filter (\<lambda>r. rr_role r = role) ms = []" using out ms by (auto simp: filter_empty_conv)
    then show ?thesis using Cons.IH Cons.prems False run by auto
  qed
qed simp

lemma mset_placed: "list_all2 (\<lambda>(role, members) out. run_placed pins role members out) runs outs \<Longrightarrow> mset (map untie (concat outs)) = mset (map untie (concat (map snd runs)))"
  by (induction runs outs rule: list_all2_induct) (auto simp: run_placed_def)

text \<open>C40: on named rows, each participant once per role and the rows of a role together, a leaderboard never
  fails: it keeps every row, its tie group apart, and when the pins of a
  role fit into it every pinned participant stands at its place inside the role, tied with nobody.\<close>

theorem leaderboard_places_pins:
  assumes "leaderboard_config_ok pins" and "\<forall>r\<in>set rows. participant_id r \<noteq> None"
    and "distinct (map (\<lambda>r. (participant_id r, rr_role r)) rows)" and "distinct (map fst (group_runs rr_role rows))"
  shows "\<exists>ranking. compute_leaderboard pins rows = Inr \<lparr>po_ports = [(''ranking'', ranking)], po_boundary_tie = False\<rparr> \<and>
    mset (map untie ranking) = mset (map untie rows) \<and>
    (\<forall>p\<in>set pins. let before = filter (\<lambda>r. rr_role r = lp_role p) rows; after = filter (\<lambda>r. rr_role r = lp_role p) ranking
      in lp_participant p \<in> pid ` set before \<and>
         (\<forall>q\<in>set pins. lp_role q = lp_role p \<and> lp_participant q \<in> pid ` set before \<longrightarrow> lp_position q \<le> length before) \<longrightarrow>
         pid (after ! (lp_position p - 1)) = lp_participant p \<and> rr_tie_group (after ! (lp_position p - 1)) = None)"
proof (cases "pins = []")
  case True
  then show ?thesis by (auto simp: compute_leaderboard_def)
next
  case False
  let ?runs = "group_runs rr_role rows"
  have whole: "concat (map snd ?runs) = rows" by (rule concat_group_runs)
  have roles: "\<forall>(role, members) \<in> set ?runs. \<forall>r\<in>set members. rr_role r = role" using group_runs_key by fast
  have part: "members \<noteq> [] \<and> set members \<subseteq> set rows \<and> members = filter (\<lambda>r. rr_role r = role) rows" if run: "(role, members) \<in> set ?runs" for role members
  proof -
    have "list_all2 (\<lambda>(role, members) out. run_placed [] role members out) ?runs (map snd ?runs)" by (auto simp: list_all2_conv_all_nth run_placed_def split_def)
    then show ?thesis using role_out [OF _ roles assms(4) run] group_runs_key [OF run] whole by fastforce
  qed
  have "distinct (map pid members)" if run: "(role, members) \<in> set ?runs" for role members
  proof -
    have "distinct members" using part [OF run] distinct_filter [OF distinct_of_map [OF assms(3)]] by metis
    moreover have "inj_on pid (set members)"
    proof (rule inj_onI)
      fix x y assume xy: "x \<in> set members" "y \<in> set members" "pid x = pid y"
      then have "x \<in> set rows" "y \<in> set rows" "rr_role x = rr_role y" using part [OF run] roles run by auto
      moreover have "participant_id x = participant_id y" using calculation assms(2) xy(3) by (metis option.expand pid_def)
      ultimately show "x = y" using assms(3) by (auto simp: distinct_map inj_on_def)
    qed
    ultimately show ?thesis by (simp add: distinct_map)
  qed
  then have good: "\<forall>(role, members) \<in> set ?runs. (\<forall>r\<in>set members. participant_id r \<noteq> None) \<and> distinct (map pid members) \<and> members \<noteq> []"
    using part assms(2) by fast
  obtain outs where outs: "place_roles pins ?runs = Inr (concat outs)" "list_all2 (\<lambda>(role, members) out. run_placed pins role members out) ?runs outs"
    using all_roles [OF assms(1) good] by blast
  have "pid (after ! (lp_position p - 1)) = lp_participant p \<and> rr_tie_group (after ! (lp_position p - 1)) = None"
    if p: "p \<in> set pins" "lp_participant p \<in> pid ` set before" and fits: "\<forall>q\<in>set pins. lp_role q = lp_role p \<and> lp_participant q \<in> pid ` set before \<longrightarrow> lp_position q \<le> length before"
      and sides: "before = filter (\<lambda>r. rr_role r = lp_role p) rows" "after = filter (\<lambda>r. rr_role r = lp_role p) (concat outs)" for p before after
  proof -
    obtain r where r: "r \<in> set rows" "rr_role r = lp_role p" using p(2) sides(1) by auto
    then have "r \<in> set (concat (map snd ?runs))" unfolding whole by simp
    then obtain k members where run: "(k, members) \<in> set ?runs" "r \<in> set members" by force
    then have "(lp_role p, members) \<in> set ?runs" using roles r(2) by auto
    then have "run_placed pins (lp_role p) members after" "members = before" using role_out [OF outs(2) roles assms(4)] sides whole by auto
    then show ?thesis using p fits unfolding run_placed_def by blast
  qed
  then have "\<forall>p\<in>set pins. let before = filter (\<lambda>r. rr_role r = lp_role p) rows; after = filter (\<lambda>r. rr_role r = lp_role p) (concat outs)
      in lp_participant p \<in> pid ` set before \<and>
         (\<forall>q\<in>set pins. lp_role q = lp_role p \<and> lp_participant q \<in> pid ` set before \<longrightarrow> lp_position q \<le> length before) \<longrightarrow>
         pid (after ! (lp_position p - 1)) = lp_participant p \<and> rr_tie_group (after ! (lp_position p - 1)) = None"
    unfolding Let_def by blast
  then show ?thesis using False outs(1) mset_placed [OF outs(2)] whole by (intro exI [of _ "concat outs"]) (simp add: compute_leaderboard_def)
qed

text \<open>A players' leaderboard by role, one pin in each role; the pin splits a tie.\<close>

definition role_row :: "int \<Rightarrow> string \<Rightarrow> nat option \<Rightarrow> result_row" where
  "role_row i role tie = (plain_row i tie)\<lparr>rr_role := Some role\<rparr>"

definition day_rows :: "result_row list" where
  "day_rows = [role_row 1 ''dps'' (Some 1), role_row 2 ''dps'' (Some 1), role_row 3 ''dps'' None, role_row 1 ''tank'' None, role_row 4 ''tank'' None]"

definition day_pins :: "leaderboard_pin list" where
  "day_pins = [\<lparr>lp_participant = 3, lp_role = Some ''dps'', lp_position = 2\<rparr>, \<lparr>lp_participant = 4, lp_role = Some ''tank'', lp_position = 1\<rparr>]"

theorem leaderboard_places_pins_witness:
  "\<exists>ranking. compute_leaderboard day_pins day_rows = Inr \<lparr>po_ports = [(''ranking'', ranking)], po_boundary_tie = False\<rparr> \<and>
    mset (map untie ranking) = mset (map untie day_rows) \<and> map (\<lambda>r. (pid r, rr_tie_group r)) ranking = [(1, None), (3, None), (2, None), (4, None), (1, None)]"
proof -
  let ?out = "[role_row 1 ''dps'' None, role_row 3 ''dps'' None, role_row 2 ''dps'' None, role_row 4 ''tank'' None, role_row 1 ''tank'' None]"
  have out: "compute_leaderboard day_pins day_rows = Inr \<lparr>po_ports = [(''ranking'', ?out)], po_boundary_tie = False\<rparr>" by code_simp
  have "leaderboard_config_ok day_pins" by (simp add: leaderboard_config_ok_def day_pins_def)
  moreover have "\<forall>r\<in>set day_rows. participant_id r \<noteq> None" by (simp add: day_rows_def role_row_def plain_row_def participant_id_def)
  moreover have "distinct (map (\<lambda>r. (participant_id r, rr_role r)) day_rows)" by (simp add: day_rows_def role_row_def plain_row_def participant_id_def)
  moreover have "distinct (map fst (group_runs rr_role day_rows))" by code_simp
  ultimately obtain ranking where r: "compute_leaderboard day_pins day_rows = Inr \<lparr>po_ports = [(''ranking'', ranking)], po_boundary_tie = False\<rparr>"
    "mset (map untie ranking) = mset (map untie day_rows)" using leaderboard_places_pins [of day_pins day_rows] by blast
  then have "ranking = ?out" using out by simp
  then show ?thesis using r by (auto simp: role_row_def plain_row_def pid_def participant_id_def)
qed

end
