(* ===== verification/Flow_Graph.thy ===== *)
theory Flow_Graph
  imports Complex_Main Bracket_Engine
begin

text \<open>
  The graph of a tournament flow and its validation: \<open>shared/domain/flow/ports.py\<close> and
  \<open>shared/domain/flow/validate.py\<close>. A node's configuration is the one pydantic parsed, \<open>None\<close> when it refused it,
  with the fields the rules read; issues are their codes with the node or edge they name, without the
  messages. \<open>heapq\<close> is a list from which the smallest element is taken.
\<close>

section \<open>Nodes, edges and ports\<close>

datatype flow_kind = Registration_Node | Formation_Node | Stage_Node | Filter_Node | Merge_Node | Split_Node | Aggregate_Node | Leaderboard_Node

datatype flow_unit = Players | Teams

datatype formation_mode = Balancer_Mode | Draft_Mode | Registered_Mode | Manual_Mode

datatype aggregate_mode = Sum_All | Sum_Last_N | Sum_Best_N | Average

datatype node_config =
    Registration_Config bool
  | Formation_Config formation_mode
  | Stage_Config
  | Filter_Config
  | Merge_Config
  | Split_Config nat
  | Aggregate_Config flow_unit aggregate_mode "nat option" bool
  | Leaderboard_Config

record flow_node =
  fn_id :: int
  fn_kind :: flow_kind
  fn_config :: "node_config option"
  fn_stage_id :: "int option"
  fn_stage_type :: "stage_type option"

record flow_edge =
  fe_id :: int
  fe_source :: int
  fe_source_port :: string
  fe_target :: int
  fe_target_port :: string

datatype unit_rule = Rule_Players | Rule_Teams | Rule_Stage | Rule_Config | Rule_Input

record port_spec =
  ps_name :: string
  ps_rule :: unit_rule
  ps_multi :: bool
  ps_repeated :: bool

definition port :: "string \<Rightarrow> unit_rule \<Rightarrow> port_spec" where
  "port name rule = \<lparr>ps_name = name, ps_rule = rule, ps_multi = False, ps_repeated = False\<rparr>"

fun catalogue :: "flow_kind \<Rightarrow> port_spec list \<times> port_spec list" where
  "catalogue Registration_Node = ([], [port ''participants'' Rule_Players])"
| "catalogue Formation_Node = ([port ''players'' Rule_Players], [port ''teams'' Rule_Teams])"
| "catalogue Stage_Node = ([port ''participants'' Rule_Stage], [port ''ranking'' Rule_Stage])"
| "catalogue Filter_Node = ([port ''ranking'' Rule_Input], [port ''passed'' Rule_Input])"
| "catalogue Merge_Node = ([(port ''inputs'' Rule_Input)\<lparr>ps_multi := True\<rparr>], [port ''merged'' Rule_Input])"
| "catalogue Split_Node = ([port ''ranking'' Rule_Input], [(port ''bucket'' Rule_Input)\<lparr>ps_repeated := True\<rparr>])"
| "catalogue Aggregate_Node = ([(port ''inputs'' Rule_Config)\<lparr>ps_multi := True\<rparr>], [port ''ranking'' Rule_Config])"
| "catalogue Leaderboard_Node = ([port ''ranking'' Rule_Input], [port ''ranking'' Rule_Input])"

definition bucket_count :: "node_config option \<Rightarrow> nat" where
  "bucket_count config = (case config of Some (Split_Config k) \<Rightarrow> k | _ \<Rightarrow> 0)"

definition concrete_outputs :: "flow_kind \<Rightarrow> node_config option \<Rightarrow> port_spec list" where
  "concrete_outputs kind config =
    concat (map (\<lambda>spec.
        if ps_repeated spec
        then map (\<lambda>i. \<lparr>ps_name = ps_name spec @ ''_'' @ show_nat i, ps_rule = ps_rule spec, ps_multi = ps_multi spec, ps_repeated = False\<rparr>)
          [1..<bucket_count config + 1]
        else [spec])
      (snd (catalogue kind)))"

definition port_unit :: "unit_rule \<Rightarrow> stage_type option \<Rightarrow> node_config option \<Rightarrow> flow_unit option \<Rightarrow> flow_unit option" where
  "port_unit rule st config input_unit =
    (case rule of
       Rule_Players \<Rightarrow> Some Players
     | Rule_Teams \<Rightarrow> Some Teams
     | Rule_Stage \<Rightarrow> (case st of None \<Rightarrow> None | Some t \<Rightarrow> Some (if t = INDIVIDUAL_SWISS then Players else Teams))
     | Rule_Config \<Rightarrow> (case config of Some (Aggregate_Config u _ _ _) \<Rightarrow> Some u | _ \<Rightarrow> None)
     | Rule_Input \<Rightarrow> input_unit)"

section \<open>Kahn's algorithm\<close>

text \<open>One edge of the node that was taken: the target loses an incoming edge and is ready after the last one.\<close>

definition release :: "(int, int) dict \<times> int list \<Rightarrow> int \<Rightarrow> (int, int) dict \<times> int list" where
  "release st target =
    (case st of (indegree, ready) \<Rightarrow>
       let d = dict_get indegree target 0 - 1
       in (dict_set target d indegree, if d = 0 then target # ready else ready))"

definition open_targets :: "(int, int) dict \<Rightarrow> int set" where
  "open_targets indegree = {n. 0 < dict_get indegree n 0}"

lemma finite_open_targets: "finite (open_targets indegree)"
proof (rule finite_subset)
  show "open_targets indegree \<subseteq> set (map fst indegree)"
    by (auto simp: open_targets_def dict_get_def split: option.splits dest!: map_of_SomeD) force
qed simp

lemma release_measure:
  "card (open_targets (fst (release st t))) + length (snd (release st t)) \<le> card (open_targets (fst st)) + length (snd st)"
proof -
  obtain indegree ready where st: "st = (indegree, ready)" by fastforce
  let ?d = "dict_get indegree t 0 - 1"
  have now: "open_targets (fst (release st t)) = (if 0 < ?d then insert t (open_targets indegree) else open_targets indegree - {t})"
    by (auto simp: st release_def Let_def open_targets_def)
  show ?thesis
  proof (cases "?d = 0")
    case True
    then have t: "t \<in> open_targets indegree" by (simp add: open_targets_def)
    then have "card (open_targets indegree) = Suc (card (open_targets indegree - {t}))" using finite_open_targets by (metis card_Suc_Diff1)
    then show ?thesis using True by (simp add: now) (simp add: st release_def Let_def)
  next
    case False
    have "card (open_targets (fst (release st t))) \<le> card (open_targets indegree)"
    proof (cases "0 < ?d")
      case True
      then have "insert t (open_targets indegree) = open_targets indegree" by (auto simp: open_targets_def)
      then show ?thesis using True by (simp add: now)
    next
      case False
      then show ?thesis by (simp add: now card_mono finite_open_targets)
    qed
    then show ?thesis using False by (simp add: st) (simp add: release_def Let_def)
  qed
qed

lemma releases_measure:
  "card (open_targets (fst (foldl release st ts))) + length (snd (foldl release st ts)) \<le> card (open_targets (fst st)) + length (snd st)"
proof (induction ts arbitrary: st)
  case (Cons t ts)
  show ?case using order_trans [OF Cons.IH release_measure] by simp
qed simp

function kahn_loop :: "(int, int list) dict \<Rightarrow> (int, int) dict \<Rightarrow> int list \<Rightarrow> int list \<Rightarrow> int list" where
  "kahn_loop out indegree ready order =
    (if ready = [] then order
     else let current = Min (set ready);
              st = foldl release (indegree, remove1 current ready) (dict_get out current [])
       in kahn_loop out (fst st) (snd st) (order @ [current]))"
  by pat_completeness auto

termination kahn_loop
proof (relation "measure (\<lambda>(out, indegree, ready, order). card (open_targets indegree) + length ready)")
  fix out :: "(int, int list) dict" and indegree :: "(int, int) dict" and ready order :: "int list" and current st
  assume ne: "ready \<noteq> []" and c: "current = Min (set ready)" and st: "st = foldl release (indegree, remove1 current ready) (dict_get out current [])"
  have "current \<in> set ready" using ne c by simp
  then have "length (remove1 current ready) < length ready" by (metis length_pos_if_in_set length_remove1 One_nat_def diff_less zero_less_one)
  then show "((out, fst st, snd st, order @ [current]), (out, indegree, ready, order)) \<in> measure (\<lambda>(out, indegree, ready, order). card (open_targets indegree) + length ready)"
    using releases_measure [of "(indegree, remove1 current ready)" "dict_get out current []"] by (simp add: st)
qed simp

declare kahn_loop.simps [simp del]

text \<open>A target that is no node raises \<open>KeyError\<close>: the value \<open>None\<close>.\<close>

definition kahn :: "int list \<Rightarrow> (int \<times> int) list \<Rightarrow> int list option" where
  "kahn ids edges =
    (let start = foldl (\<lambda>d n. dict_set n 0 d) [] ids
     in if list_ex (\<lambda>(s, t). \<not> dict_has start t) edges then None
        else let indegree = foldl (\<lambda>d (s, t). dict_set t (dict_get d t 0 + 1) d) start edges;
                 out = foldl (\<lambda>d (s, t). dict_set s (dict_get d s [] @ [t]) d) [] edges
          in Some (kahn_loop out indegree (map fst (filter (\<lambda>(n, d). d = 0) indegree)) []))"

datatype order_result = Key_Error | Cyclic | Ordered "int list"

definition topological_order :: "int list \<Rightarrow> (int \<times> int) list \<Rightarrow> order_result" where
  "topological_order ids edges =
    (case kahn ids edges of
       None \<Rightarrow> Key_Error
     | Some order \<Rightarrow> if length order = card (set ids) then Ordered order else Cyclic)"

lemma releases_effect:
  assumes "\<And>n. int (count_list ts n) \<le> dict_get indegree n 0" and "distinct ready" and "\<And>n. n \<in> set ready \<Longrightarrow> dict_get indegree n 0 = 0"
  shows "(\<forall>n. dict_get (fst (foldl release (indegree, ready) ts)) n 0 = dict_get indegree n 0 - int (count_list ts n)) \<and>
    set (snd (foldl release (indegree, ready) ts)) = set ready \<union> {n. 0 < dict_get indegree n 0 \<and> dict_get indegree n 0 = int (count_list ts n)} \<and>
    distinct (snd (foldl release (indegree, ready) ts))"
  using assms
proof (induction ts arbitrary: indegree ready)
  case (Cons t ts)
  let ?d = "dict_get indegree t 0 - 1"
  let ?in = "dict_set t ?d indegree" and ?ready = "if ?d = 0 then t # ready else ready"
  have pos: "1 + int (count_list ts t) \<le> dict_get indegree t 0" using Cons.prems(1) [of t] by simp
  then have fresh: "t \<notin> set ready" using Cons.prems(3) by force
  have "int (count_list ts n) \<le> dict_get ?in n 0" for n using Cons.prems(1) [of n] pos by (auto split: if_splits)
  moreover have "distinct ?ready" using Cons.prems(2) fresh by simp
  moreover have "dict_get ?in n 0 = 0" if "n \<in> set ?ready" for n using that Cons.prems(3) fresh by (auto split: if_splits)
  ultimately have ih: "(\<forall>n. dict_get (fst (foldl release (?in, ?ready) ts)) n 0 = dict_get ?in n 0 - int (count_list ts n)) \<and>
    set (snd (foldl release (?in, ?ready) ts)) = set ?ready \<union> {n. 0 < dict_get ?in n 0 \<and> dict_get ?in n 0 = int (count_list ts n)} \<and>
    distinct (snd (foldl release (?in, ?ready) ts))" by (rule Cons.IH)
  have step: "foldl release (indegree, ready) (t # ts) = foldl release (?in, ?ready) ts" by (simp add: release_def Let_def)
  have "set ?ready \<union> {n. 0 < dict_get ?in n 0 \<and> dict_get ?in n 0 = int (count_list ts n)} =
      set ready \<union> {n. 0 < dict_get indegree n 0 \<and> dict_get indegree n 0 = int (count_list (t # ts) n)}"
    using pos by (auto split: if_splits)
  then show ?case unfolding step using ih by auto
qed auto

definition pending :: "(int \<times> int) list \<Rightarrow> int list \<Rightarrow> int \<Rightarrow> nat" where
  "pending edges order n = length (filter (\<lambda>(s, t). t = n \<and> s \<notin> set order) edges)"

definition targets_of :: "(int \<times> int) list \<Rightarrow> int \<Rightarrow> int list" where
  "targets_of edges s = map snd (filter (\<lambda>e. fst e = s) edges)"

lemma pending_after: "s \<notin> set order \<Longrightarrow> pending edges (order @ [s]) n + count_list (targets_of edges s) n = pending edges order n"
  by (induction edges) (auto simp: pending_def targets_of_def)

definition kahn_inv :: "int list \<Rightarrow> (int \<times> int) list \<Rightarrow> (int, int) dict \<Rightarrow> int list \<Rightarrow> int list \<Rightarrow> bool" where
  "kahn_inv ids edges indegree ready order \<longleftrightarrow>
    (\<forall>n. dict_get indegree n 0 = int (pending edges order n)) \<and> distinct (order @ ready) \<and>
    set order \<union> set ready = {n \<in> set ids. pending edges order n = 0} \<and>
    (\<forall>i<length order. pending edges (take i order) (order ! i) = 0 \<and>
      (\<forall>m\<in>set ids. m \<notin> set (take i order) \<and> pending edges (take i order) m = 0 \<longrightarrow> order ! i \<le> m))"

lemma kahn_loop_inv:
  assumes "\<forall>(s, t)\<in>set edges. t \<in> set ids" and "\<And>s. dict_get out s [] = targets_of edges s" and "kahn_inv ids edges indegree ready order"
  shows "\<exists>final. kahn_inv ids edges final [] (kahn_loop out indegree ready order)"
  using assms
proof (induction out indegree ready order rule: kahn_loop.induct)
  case (1 out indegree ready order)
  show ?case
  proof (cases "ready = []")
    case True
    then have "kahn_loop out indegree ready order = order" by (subst kahn_loop.simps) simp
    then show ?thesis using 1(4) True by auto
  next
    case False
    define c where "c = Min (set ready)"
    define st where "st = foldl release (indegree, remove1 c ready) (dict_get out c [])"
    note inv = 1(4) [unfolded kahn_inv_def]
    have deg: "dict_get indegree n 0 = int (pending edges order n)" for n using inv by blast
    have c: "c \<in> set ready" "\<And>m. m \<in> set ready \<Longrightarrow> c \<le> m" using False by (simp_all add: c_def)
    have co: "c \<notin> set order" "pending edges order c = 0" "c \<in> set ids" using c inv by auto
    have ready: "distinct ready" "set (remove1 c ready) = set ready - {c}" using inv by (auto simp: set_remove1_eq)
    have after: "int (pending edges (order @ [c]) n) = int (pending edges order n) - int (count_list (targets_of edges c) n)" for n
      using pending_after [OF co(1), of edges n] by linarith
    have fits: "int (count_list (targets_of edges c) n) \<le> dict_get indegree n 0" for n
      using pending_after [OF co(1), of edges n] deg [of n] by linarith
    have zero: "dict_get indegree n 0 = 0" if "n \<in> set (remove1 c ready)" for n
      using that ready inv deg [of n] by auto
    have eff: "(\<forall>n. dict_get (fst st) n 0 = dict_get indegree n 0 - int (count_list (targets_of edges c) n))"
      "set (snd st) = set (remove1 c ready) \<union> {n. 0 < dict_get indegree n 0 \<and> dict_get indegree n 0 = int (count_list (targets_of edges c) n)}"
      "distinct (snd st)"
      using releases_effect [of "targets_of edges c" indegree "remove1 c ready", OF fits distinct_remove1 [OF ready(1)] zero]
      unfolding st_def 1(3) by blast+
    have next_ready: "set (snd st) = (set ready - {c}) \<union> {n. 0 < pending edges order n \<and> pending edges order n = count_list (targets_of edges c) n}"
      unfolding eff(2) ready(2) by (simp add: deg)
    have known: "n \<in> set ids" if "0 < pending edges order n" for n
      using that 1(2) by (auto simp: pending_def filter_empty_conv)
    have "kahn_inv ids edges (fst st) (snd st) (order @ [c])"
      unfolding kahn_inv_def
    proof (intro conjI allI impI)
      show "dict_get (fst st) n 0 = int (pending edges (order @ [c]) n)" for n using eff(1) deg after by simp
      have "pending edges order n = 0" if "n \<in> set order" for n using that inv by blast
      then have "set order \<inter> set (snd st) = {}" "c \<notin> set (snd st)" using eff(2) ready(2) inv deg co(2) by auto
      then show "distinct ((order @ [c]) @ snd st)" using eff(3) inv co(1) by auto
      show "set (order @ [c]) \<union> set (snd st) = {n \<in> set ids. pending edges (order @ [c]) n = 0}"
      proof (intro set_eqI iffI)
        fix n assume "n \<in> set (order @ [c]) \<union> set (snd st)"
        then consider "n \<in> set order \<union> set ready" | "0 < pending edges order n" "pending edges order n = count_list (targets_of edges c) n"
          unfolding next_ready using c(1) by auto
        then show "n \<in> {n \<in> set ids. pending edges (order @ [c]) n = 0}"
        proof cases
          case 1
          then have "n \<in> set ids" "pending edges order n = 0" using inv by blast+
          then show ?thesis using pending_after [OF co(1), of edges n] by simp
        next
          case 2
          then show ?thesis using pending_after [OF co(1), of edges n] known [of n] by simp
        qed
      next
        fix n assume "n \<in> {n \<in> set ids. pending edges (order @ [c]) n = 0}"
        then have n: "n \<in> set ids" "pending edges order n = count_list (targets_of edges c) n" using pending_after [OF co(1), of edges n] by simp_all
        show "n \<in> set (order @ [c]) \<union> set (snd st)"
        proof (cases "pending edges order n = 0")
          case True
          then have "n \<in> set order \<union> set ready" using inv n(1) by blast
          then show ?thesis unfolding next_ready by auto
        next
          case False
          then show ?thesis unfolding next_ready using n(2) by simp
        qed
      qed
      fix i assume i: "i < length (order @ [c])"
      have old: "\<And>m. m \<in> set ids \<Longrightarrow> m \<notin> set order \<Longrightarrow> pending edges order m = 0 \<Longrightarrow> c \<le> m" using inv c(2) by blast
      show "pending edges (take i (order @ [c])) ((order @ [c]) ! i) = 0"
        using i inv co(2) by (cases "i < length order") (auto simp: nth_append less_Suc_eq)
      show "\<forall>m\<in>set ids. m \<notin> set (take i (order @ [c])) \<and> pending edges (take i (order @ [c])) m = 0 \<longrightarrow> (order @ [c]) ! i \<le> m"
        using i inv old by (cases "i < length order") (auto simp: nth_append less_Suc_eq)
    qed
    then have "\<exists>final. kahn_inv ids edges final [] (kahn_loop out (fst st) (snd st) (order @ [c]))"
      using 1(1) [OF False c_def] 1(2,3) by (simp add: st_def)
    moreover have "kahn_loop out indegree ready order = kahn_loop out (fst st) (snd st) (order @ [c])"
      using False by (subst kahn_loop.simps) (simp add: Let_def c_def st_def)
    ultimately show ?thesis by simp
  qed
qed

text \<open>The state before the loop: incoming edges counted, outgoing ones listed.\<close>

lemma start_zero: "dict_get (foldl (\<lambda>d n. dict_set n 0 d) d ids) n 0 = (if n \<in> set ids then 0 else dict_get d n (0 :: int))"
  by (induction ids arbitrary: d) auto

lemma start_keys: "fst ` set (foldl (\<lambda>d n. dict_set n 0 d) d ids) = set ids \<union> fst ` set d"
  by (induction ids arbitrary: d) (auto simp: keys_dict_set)

lemma start_distinct: "distinct (map fst d) \<Longrightarrow> distinct (map fst (foldl (\<lambda>d n. dict_set n 0 d) d ids))"
  by (induction ids arbitrary: d) (simp_all del: distinct_map)

lemma indegree_count:
  "dict_get (foldl (\<lambda>d (s, t). dict_set t (dict_get d t 0 + 1) d) d edges) n 0 = dict_get d n 0 + int (length (filter (\<lambda>(s, t). t = n) edges))"
  by (induction edges arbitrary: d) auto

lemma indegree_keys: "\<forall>(s, t)\<in>set edges. t \<in> fst ` set d \<Longrightarrow> fst ` set (foldl (\<lambda>d (s, t). dict_set t (dict_get d t 0 + 1) d) d edges) = fst ` set d"
proof (induction edges arbitrary: d)
  case (Cons e edges)
  obtain s t where e: "e = (s, t)" by fastforce
  have "fst ` set (dict_set t (dict_get d t 0 + 1) d) = fst ` set d" using Cons.prems e by (simp add: keys_dict_set insert_absorb)
  then show ?case using Cons.IH [of "dict_set t (dict_get d t 0 + 1) d"] Cons.prems e by simp
qed simp

lemma indegree_distinct: "distinct (map fst d) \<Longrightarrow> distinct (map fst (foldl (\<lambda>d (s, t). dict_set t (dict_get d t 0 + (1 :: int)) d) d edges))"
  by (induction edges arbitrary: d) (auto simp del: distinct_map)

lemma targets_listed:
  "dict_get (foldl (\<lambda>d (s, t). dict_set s (dict_get d s [] @ [t]) d) d edges) n [] = dict_get d n [] @ targets_of edges n"
  by (induction edges arbitrary: d) (auto simp: targets_of_def)

lemma kahn_correct:
  assumes "\<forall>(s, t)\<in>set edges. t \<in> set ids"
  shows "\<exists>order final. kahn ids edges = Some order \<and> kahn_inv ids edges final [] order"
proof -
  define start where "start = foldl (\<lambda>d n. dict_set n (0 :: int) d) [] ids"
  define indegree where "indegree = foldl (\<lambda>d (s, t). dict_set t (dict_get d t 0 + 1) d) start edges"
  define out where "out = foldl (\<lambda>d (s, t). dict_set s (dict_get d s [] @ [t]) d) [] edges"
  define ready where "ready = map fst (filter (\<lambda>(n, d). d = 0) indegree)"
  have keys: "fst ` set start = set ids" using start_keys [of "[]" ids] by (simp add: start_def)
  have known: "\<not> list_ex (\<lambda>(s, t). \<not> dict_has start t) edges" using assms keys by (auto simp: list_ex_iff dict_has_iff)
  have deg: "dict_get indegree n 0 = int (pending edges [] n)" for n
    by (simp add: indegree_def indegree_count start_def start_zero pending_def)
  have "fst ` set indegree = set ids" unfolding indegree_def using indegree_keys [of edges start] assms keys by auto
  moreover have dist: "distinct (map fst indegree)" unfolding indegree_def start_def by (intro indegree_distinct start_distinct) simp
  moreover have "(n, d) \<in> set indegree \<longleftrightarrow> n \<in> fst ` set indegree \<and> dict_get indegree n 0 = d" for n d
    using map_of_eq_Some_iff [OF dist, of n d] map_of_eq_None_iff [of indegree n] by (cases "map_of indegree n") (auto simp: dict_get_def)
  ultimately have set_ready: "set ready = {n \<in> set ids. pending edges [] n = 0}" unfolding ready_def by (auto simp: deg image_iff)
  have "distinct ready" unfolding ready_def using dist by (rule distinct_map_filter)
  then have "kahn_inv ids edges indegree ready []" using deg set_ready by (simp add: kahn_inv_def)
  then have "\<exists>final. kahn_inv ids edges final [] (kahn_loop out indegree ready [])"
    by (intro kahn_loop_inv) (use assms targets_listed [of "[]" edges] in \<open>auto simp: out_def\<close>)
  moreover have "kahn ids edges = Some (kahn_loop out indegree ready [])"
    using known by (simp add: kahn_def Let_def start_def indegree_def out_def ready_def)
  ultimately show ?thesis by blast
qed

lemma order_edges:
  assumes inv: "kahn_inv ids edges final [] order" and edge: "(s, t) \<in> set edges" and j: "j < length order" "order ! j = t"
  shows "\<exists>i<j. order ! i = s"
proof -
  have "pending edges (take j order) t = 0" using inv j by (auto simp: kahn_inv_def)
  then have "s \<in> set (take j order)" using edge by (force simp: pending_def filter_empty_conv)
  then show ?thesis using j(1) by (auto simp: in_set_conv_nth)
qed

lemma ordered_acyclic:
  assumes inv: "kahn_inv ids edges final [] order" and all: "set order = set ids" and known: "\<forall>(s, t)\<in>set edges. s \<in> set ids \<and> t \<in> set ids"
  shows "acyclic (set edges)"
proof (rule acyclicI, intro allI notI)
  fix x assume cyc: "(x, x) \<in> (set edges)\<^sup>+"
  have "\<exists>i<j. order ! i = a" if path: "(a, b) \<in> (set edges)\<^sup>+" and j: "j < length order" "order ! j = b" for a b j
    using path j
  proof (induction arbitrary: j rule: trancl_induct)
    case (base b)
    then show ?case using order_edges [OF inv] by blast
  next
    case (step b c)
    obtain i where i: "i < j" "order ! i = b" using order_edges [OF inv step.hyps(2) step.prems] by blast
    then obtain h where "h < i" "order ! h = a" using step.IH [of i] step.prems(1) by auto
    then show ?case using i(1) by (intro exI [of _ h]) simp
  qed
  moreover have "x \<in> set order" using cyc known all by (auto dest: tranclD)
  then obtain j where j: "j < length order" "order ! j = x" by (auto simp: in_set_conv_nth)
  ultimately obtain i where "i < j" "order ! i = x" using cyc by blast
  moreover have "distinct order" using inv by (simp add: kahn_inv_def)
  ultimately show False using j by (metis nth_eq_iff_index_eq order_less_trans less_irrefl)
qed

lemma unordered_cyclic:
  assumes inv: "kahn_inv ids edges final [] order" and some: "set order \<noteq> set ids" and known: "\<forall>(s, t)\<in>set edges. s \<in> set ids \<and> t \<in> set ids"
  shows "\<not> acyclic (set edges)"
proof
  assume "acyclic (set edges)"
  then have wf: "wf (set edges)" by (intro finite_acyclic_wf) auto
  have sub: "set order = {n \<in> set ids. pending edges order n = 0}" using inv by (simp add: kahn_inv_def)
  then obtain x where x: "x \<in> set ids - set order" using some by blast
  obtain z where z: "z \<in> set ids - set order" "\<And>y. (y, z) \<in> set edges \<Longrightarrow> y \<notin> set ids - set order"
    using wf x unfolding wf_eq_minimal by blast
  have "z \<in> set order \<longleftrightarrow> z \<in> set ids \<and> pending edges order z = 0" by (simp add: sub)
  then have "pending edges order z \<noteq> 0" using z(1) by simp
  then obtain s where "(s, z) \<in> set edges" "s \<notin> set order" by (auto simp: pending_def filter_empty_conv)
  then show False using z known by blast
qed

lemma topological_order_result:
  assumes "\<forall>(s, t)\<in>set edges. s \<in> set ids \<and> t \<in> set ids"
  obtains final order where "kahn ids edges = Some order" and "kahn_inv ids edges final [] order"
    and "topological_order ids edges = (if acyclic (set edges) then Ordered order else Cyclic)"
    and "acyclic (set edges) \<longleftrightarrow> set order = set ids"
proof -
  obtain order final where k: "kahn ids edges = Some order" "kahn_inv ids edges final [] order"
    using kahn_correct [of edges ids] assms by fast
  then have sub: "set order \<subseteq> set ids" and dist: "distinct order" by (auto simp: kahn_inv_def)
  have iff: "acyclic (set edges) \<longleftrightarrow> set order = set ids"
    using ordered_acyclic [OF k(2) _ assms] unordered_cyclic [OF k(2) _ assms] by blast
  moreover have "length order = card (set ids) \<longleftrightarrow> set order = set ids"
    using card_subset_eq [OF finite_set sub] distinct_card [OF dist] by auto
  ultimately have "topological_order ids edges = (if acyclic (set edges) then Ordered order else Cyclic)"
    using k(1) by (simp add: topological_order_def)
  then show thesis using that k iff by blast
qed

text \<open>C35: the order exists exactly when the flow has no cycle; then it holds every node once, every edge leads
  forward in it, and of the nodes whose inputs are done the one with the smallest id comes next.\<close>

theorem topological_order_exact:
  assumes "\<forall>(s, t)\<in>set edges. s \<in> set ids \<and> t \<in> set ids"
  shows "(\<not> acyclic (set edges) \<and> topological_order ids edges = Cyclic) \<or>
    (acyclic (set edges) \<and> (\<exists>order. topological_order ids edges = Ordered order \<and> distinct order \<and> set order = set ids \<and>
      (\<forall>(s, t)\<in>set edges. \<forall>j<length order. order ! j = t \<longrightarrow> (\<exists>i<j. order ! i = s)) \<and>
      (\<forall>i<length order. \<forall>m\<in>set (drop i order). (\<forall>(s, t)\<in>set edges. t = m \<longrightarrow> s \<in> set (take i order)) \<longrightarrow> order ! i \<le> m)))"
proof -
  obtain final order where r: "kahn_inv ids edges final [] order" "topological_order ids edges = (if acyclic (set edges) then Ordered order else Cyclic)"
    "acyclic (set edges) \<longleftrightarrow> set order = set ids" using topological_order_result [OF assms] by metis
  have "order ! i \<le> m" if i: "i < length order" and m: "m \<in> set (drop i order)" and ready: "\<forall>(s, t)\<in>set edges. t = m \<longrightarrow> s \<in> set (take i order)" for i m
  proof -
    have "distinct order" "set order \<subseteq> set ids" using r(1) by (auto simp: kahn_inv_def)
    then have "m \<notin> set (take i order)" "m \<in> set ids" using m set_take_disj_set_drop_if_distinct [of order i i] in_set_dropD [of m i order] by auto
    moreover have "pending edges (take i order) m = 0" using ready by (auto simp: pending_def filter_empty_conv)
    ultimately show ?thesis using r(1) i by (auto simp: kahn_inv_def)
  qed
  moreover have "distinct order" using r(1) by (simp add: kahn_inv_def)
  moreover have "\<forall>(s, t)\<in>set edges. \<forall>j<length order. order ! j = t \<longrightarrow> (\<exists>i<j. order ! i = s)"
    using order_edges [OF r(1)] by fast
  ultimately show ?thesis using r(2,3) by auto
qed

theorem topological_order_exact_witness:
  "topological_order [4, 2, 9, 7] [(9, 2), (9, 4), (4, 7), (2, 7)] = Ordered [9, 2, 4, 7] \<and> acyclic {(9 :: int, 2 :: int), (9, 4), (4, 7), (2, 7)}"
proof -
  have run: "topological_order [4, 2, 9, 7] [(9, 2), (9, 4), (4, 7), (2, 7)] = Ordered [9, 2, 4, 7]" by code_simp
  have "\<forall>(s, t)\<in>set [(9 :: int, 2 :: int), (9, 4), (4, 7), (2, 7)]. s \<in> set [4, 2, 9, 7] \<and> t \<in> set [4, 2, 9, 7]" by simp
  from topological_order_exact [OF this] show ?thesis using run by auto
qed

section \<open>Units and ports\<close>

definition node_map :: "flow_node list \<Rightarrow> (int, flow_node) dict" where
  "node_map nodes = foldl (\<lambda>d n. dict_set (fn_id n) n d) [] nodes"

definition between_nodes :: "(int, flow_node) dict \<Rightarrow> flow_edge list \<Rightarrow> flow_edge list" where
  "between_nodes by_id edges = sort_key fe_id (filter (\<lambda>e. dict_has by_id (fe_source e) \<and> dict_has by_id (fe_target e)) edges)"

definition lowest_incoming :: "flow_edge list \<Rightarrow> (int, flow_edge) dict" where
  "lowest_incoming edges =
    foldl (\<lambda>d e. case map_of d (fe_target e) of
        None \<Rightarrow> dict_set (fe_target e) e d
      | Some f \<Rightarrow> if fe_id e < fe_id f then dict_set (fe_target e) e d else d) [] edges"

type_synonym units = "(int, flow_unit option) dict"

definition edge_pair :: "flow_edge \<Rightarrow> int \<times> int" where
  "edge_pair e = (fe_source e, fe_target e)"

text \<open>One node of the order: its input unit is the output unit of its lowest incoming edge's source.\<close>

definition output_rule :: "flow_node \<Rightarrow> unit_rule" where
  "output_rule n = ps_rule (hd (snd (catalogue (fn_kind n))))"

definition unit_step :: "(int, flow_node) dict \<Rightarrow> (int, flow_edge) dict \<Rightarrow> units \<times> units \<Rightarrow> int \<Rightarrow> units \<times> units" where
  "unit_step by_id lowest st i =
    (case st of (out, into) \<Rightarrow>
       let n = the (map_of by_id i);
           u = (case map_of lowest i of None \<Rightarrow> None | Some e \<Rightarrow> dict_get out (fe_source e) None)
       in (dict_set i (port_unit (output_rule n) (fn_stage_type n) (fn_config n) u) out, dict_set i u into))"

definition flow_units :: "(int, flow_node) dict \<Rightarrow> flow_edge list \<Rightarrow> units \<times> units" where
  "flow_units by_id edges =
    (let blank = map (\<lambda>(i, n). (i, None)) by_id
     in case topological_order (map fst by_id) (map edge_pair edges) of
          Ordered order \<Rightarrow> foldl (unit_step by_id (lowest_incoming edges)) (blank, blank) order
        | _ \<Rightarrow> (blank, blank))"

definition resolve_units :: "flow_node list \<Rightarrow> flow_edge list \<Rightarrow> units" where
  "resolve_units nodes edges = (let by_id = node_map nodes in fst (flow_units by_id (between_nodes by_id edges)))"

record resolved_port =
  rp_name :: string
  rp_in :: bool
  rp_multi :: bool
  rp_unit :: "flow_unit option"

definition node_ports :: "units \<Rightarrow> flow_node \<Rightarrow> resolved_port list" where
  "node_ports into n =
    (let unit_of = (\<lambda>rule. port_unit rule (fn_stage_type n) (fn_config n) (dict_get into (fn_id n) None));
         resolved = (\<lambda>is_in p. \<lparr>rp_name = ps_name p, rp_in = is_in, rp_multi = ps_multi p, rp_unit = unit_of (ps_rule p)\<rparr>)
     in map (resolved True) (fst (catalogue (fn_kind n))) @ map (resolved False) (concrete_outputs (fn_kind n) (fn_config n)))"

definition resolve_ports :: "flow_node list \<Rightarrow> flow_edge list \<Rightarrow> (int, resolved_port list) dict" where
  "resolve_ports nodes edges =
    (let by_id = node_map nodes; into = snd (flow_units by_id (between_nodes by_id edges))
     in foldl (\<lambda>d n. dict_set (fn_id n) (node_ports into n) d) [] nodes)"

section \<open>Validation\<close>

datatype issue_code = Invalid_Config | Stage_Without_Stage_Id | Unknown_Node | Unknown_Port | Port_Taken | Cycle | Unit_Mismatch
  | Aggregate_N_Exceeds_Inputs | Team_Intake_Target | Aggregate_By_Role_Target | Missing_Input | Sink_Not_Terminal

record flow_issue =
  fi_code :: issue_code
  fi_error :: bool
  fi_node :: "int option"
  fi_edge :: "int option"

definition node_error :: "issue_code \<Rightarrow> int \<Rightarrow> flow_issue" where
  "node_error code i = \<lparr>fi_code = code, fi_error = True, fi_node = Some i, fi_edge = None\<rparr>"

definition edge_error :: "issue_code \<Rightarrow> flow_edge \<Rightarrow> flow_issue" where
  "edge_error code e = \<lparr>fi_code = code, fi_error = True, fi_node = None, fi_edge = Some (fe_id e)\<rparr>"

definition node_warning :: "issue_code \<Rightarrow> flow_node \<Rightarrow> flow_issue" where
  "node_warning code n = \<lparr>fi_code = code, fi_error = False, fi_node = Some (fn_id n), fi_edge = None\<rparr>"

text \<open>\<open>{p.name: p for p in ports if p.direction == "in"}\<close>: the input port of a name.\<close>

definition input_port :: "(int, resolved_port list) dict \<Rightarrow> flow_edge \<Rightarrow> resolved_port option" where
  "input_port ports e =
    map_of (foldl (\<lambda>d p. dict_set (rp_name p) p d) [] (filter rp_in (dict_get ports (fe_target e) []))) (fe_target_port e)"

definition ports_exist :: "(int, resolved_port list) dict \<Rightarrow> flow_edge \<Rightarrow> bool" where
  "ports_exist ports e \<longleftrightarrow> fe_source_port e \<in> rp_name ` set (filter (\<lambda>p. \<not> rp_in p) (dict_get ports (fe_source e) [])) \<and> input_port ports e \<noteq> None"

fun taken_ports :: "(int, resolved_port list) dict \<Rightarrow> (int \<times> string) set \<Rightarrow> flow_edge list \<Rightarrow> flow_issue list" where
  "taken_ports ports seen [] = []"
| "taken_ports ports seen (e # es) =
    (if (fe_target e, fe_target_port e) \<in> seen then edge_error Port_Taken e # taken_ports ports seen es
     else taken_ports ports (if rp_multi (the (input_port ports e)) then seen else insert (fe_target e, fe_target_port e) seen) es)"

definition units_fit :: "flow_unit option \<Rightarrow> flow_unit option \<Rightarrow> flow_kind \<Rightarrow> bool" where
  "units_fit source target kind \<longleftrightarrow> source = None \<or> target = None \<or> source = target \<or>
    (source = Some Teams \<and> kind \<in> {Formation_Node, Aggregate_Node})"

definition unit_errors :: "(int, flow_node) dict \<Rightarrow> (int, resolved_port list) dict \<Rightarrow> units \<Rightarrow> flow_edge list \<Rightarrow> flow_issue list" where
  "unit_errors by_id ports out valid =
    map (edge_error Unit_Mismatch)
      (filter (\<lambda>e. \<not> units_fit (dict_get out (fe_source e) None) (rp_unit (the (input_port ports e))) (fn_kind (the (map_of by_id (fe_target e))))) valid)"

definition n_exceeds :: "flow_edge list \<Rightarrow> flow_node \<Rightarrow> bool" where
  "n_exceeds valid n =
    (case fn_config n of
       Some (Aggregate_Config u mode (Some k) by_role) \<Rightarrow>
         mode \<in> {Sum_Last_N, Sum_Best_N} \<and> length (filter (\<lambda>e. fe_target e = fn_id n) valid) < k
     | _ \<Rightarrow> False)"

definition feeding_errors :: "(int, flow_node) dict \<Rightarrow> flow_edge \<Rightarrow> flow_issue list" where
  "feeding_errors by_id e =
    (let source = fn_config (the (map_of by_id (fe_source e))); target = the (map_of by_id (fe_target e))
     in (if source = Some (Registration_Config True) \<and> fn_config target \<noteq> Some (Formation_Config Registered_Mode) then [edge_error Team_Intake_Target e] else []) @
        (case source of
           Some (Aggregate_Config u mode k True) \<Rightarrow> if fn_kind target \<noteq> Leaderboard_Node then [edge_error Aggregate_By_Role_Target e] else []
         | _ \<Rightarrow> []))"

definition flow_warnings :: "flow_node list \<Rightarrow> flow_edge list \<Rightarrow> flow_issue list" where
  "flow_warnings nodes known =
    map (node_warning Missing_Input) (filter (\<lambda>n. fn_kind n \<in> {Formation_Node, Stage_Node} \<and> fn_id n \<notin> fe_target ` set known) nodes) @
    map (node_warning Sink_Not_Terminal) (filter (\<lambda>n. fn_kind n \<notin> {Stage_Node, Leaderboard_Node} \<and> fn_id n \<notin> fe_source ` set known) nodes)"

definition validate_flow :: "flow_node list \<Rightarrow> flow_edge list \<Rightarrow> flow_issue list" where
  "validate_flow nodes0 edges0 =
    (let nodes = sort_key fn_id nodes0;
         by_id = node_map nodes;
         edges = sort_key fe_id edges0;
         ports = resolve_ports nodes edges;
         known = between_nodes by_id edges;
         valid = filter (ports_exist ports) known;
         order = the (kahn (map fst by_id) (map edge_pair known))
     in map (\<lambda>n. node_error Invalid_Config (fn_id n)) (filter (\<lambda>n. fn_config n = None) nodes) @
        map (\<lambda>n. node_error Stage_Without_Stage_Id (fn_id n)) (filter (\<lambda>n. fn_kind n = Stage_Node \<and> fn_stage_id n = None) nodes) @
        map (edge_error Unknown_Node) (filter (\<lambda>e. fe_id e \<notin> fe_id ` set known) edges) @
        map (edge_error Unknown_Port) (filter (\<lambda>e. \<not> ports_exist ports e) known) @
        taken_ports ports {} valid @
        (if length order < length nodes
         then [node_error Cycle (Min (set (map fst by_id) - set order))]
         else unit_errors by_id ports (fst (flow_units by_id known)) valid) @
        map (\<lambda>n. node_error Aggregate_N_Exceeds_Inputs (fn_id n)) (filter (n_exceeds valid) nodes) @
        concat (map (feeding_errors by_id) known) @
        flow_warnings nodes known)"

section \<open>Units are the only solution of their equations\<close>

lemma node_map_of: "distinct (map fn_id nodes) \<Longrightarrow> node_map nodes = map (\<lambda>n. (fn_id n, n)) nodes"
  using dict_comprehension [of fn_id nodes "\<lambda>n. n"] by (simp add: node_map_def)

lemma node_found:
  assumes "distinct (map fn_id nodes)" and "n \<in> set nodes"
  shows "map_of (node_map nodes) (fn_id n) = Some n"
  by (rule map_of_is_SomeI) (use assms in \<open>auto simp: node_map_of comp_def\<close>)

lemma lowest_incoming_spec:
  assumes "distinct (map fe_id edges)"
  shows "map_of (lowest_incoming edges) t = Some e \<Longrightarrow> e \<in> set edges \<and> fe_target e = t \<and> (\<forall>f\<in>set edges. fe_target f = t \<longrightarrow> fe_id e \<le> fe_id f)"
    and "map_of (lowest_incoming edges) t = None \<longleftrightarrow> (\<forall>f\<in>set edges. fe_target f \<noteq> t)"
proof -
  have "case map_of (lowest_incoming edges) t of
      None \<Rightarrow> \<forall>f\<in>set edges. fe_target f \<noteq> t
    | Some e \<Rightarrow> e \<in> set edges \<and> fe_target e = t \<and> (\<forall>f\<in>set edges. fe_target f = t \<longrightarrow> fe_id e \<le> fe_id f)"
  proof (induction edges rule: rev_induct)
    case Nil
    then show ?case by (simp add: lowest_incoming_def)
  next
    case (snoc x edges)
    have "lowest_incoming (edges @ [x]) = (case map_of (lowest_incoming edges) (fe_target x) of
        None \<Rightarrow> dict_set (fe_target x) x (lowest_incoming edges)
      | Some f \<Rightarrow> if fe_id x < fe_id f then dict_set (fe_target x) x (lowest_incoming edges) else lowest_incoming edges)"
      unfolding lowest_incoming_def by simp
    then show ?case using snoc by (cases "fe_target x = t") (fastforce split: option.splits if_splits)+
  qed
  then show "map_of (lowest_incoming edges) t = Some e \<Longrightarrow> e \<in> set edges \<and> fe_target e = t \<and> (\<forall>f\<in>set edges. fe_target f = t \<longrightarrow> fe_id e \<le> fe_id f)"
    "map_of (lowest_incoming edges) t = None \<longleftrightarrow> (\<forall>f\<in>set edges. fe_target f \<noteq> t)"
    by (auto split: option.splits)
qed

text \<open>The declarative reading of a unit assignment: every node's output unit follows from its input unit, which is
  the output unit of the source of its incoming edge with the smallest id.\<close>

definition unit_solution :: "flow_node list \<Rightarrow> flow_edge list \<Rightarrow> (int \<Rightarrow> flow_unit option) \<Rightarrow> (int \<Rightarrow> flow_unit option) \<Rightarrow> bool" where
  "unit_solution nodes edges out into \<longleftrightarrow> (\<forall>n\<in>set nodes.
    out (fn_id n) = port_unit (output_rule n) (fn_stage_type n) (fn_config n) (into (fn_id n)) \<and>
    (if \<forall>e\<in>set edges. fe_target e \<noteq> fn_id n then into (fn_id n) = None
     else \<exists>e\<in>set edges. fe_target e = fn_id n \<and> (\<forall>f\<in>set edges. fe_target f = fn_id n \<longrightarrow> fe_id e \<le> fe_id f) \<and> into (fn_id n) = out (fe_source e)))"

lemma unit_solution_unique:
  assumes a: "unit_solution nodes edges out into" and b: "unit_solution nodes edges out' into'" and acyc: "acyclic (set (map edge_pair edges))"
    and ids: "distinct (map fe_id edges)" and known: "\<forall>e\<in>set edges. fe_source e \<in> fn_id ` set nodes"
  shows "i \<in> fn_id ` set nodes \<Longrightarrow> out i = out' i \<and> into i = into' i"
proof (induction i rule: wf_induct_rule [OF finite_acyclic_wf [OF _ acyc]])
  case (2 i)
  then obtain n where n: "n \<in> set nodes" "fn_id n = i" by auto
  have "into i = into' i"
  proof (cases "\<forall>e\<in>set edges. fe_target e \<noteq> i")
    case True
    then show ?thesis using a b n by (auto simp: unit_solution_def)
  next
    case False
    obtain e where e: "e \<in> set edges" "fe_target e = i" "\<forall>f\<in>set edges. fe_target f = i \<longrightarrow> fe_id e \<le> fe_id f" "into i = out (fe_source e)"
      using a n False unfolding unit_solution_def by metis
    obtain f where f: "f \<in> set edges" "fe_target f = i" "\<forall>e\<in>set edges. fe_target e = i \<longrightarrow> fe_id f \<le> fe_id e" "into' i = out' (fe_source f)"
      using b n False unfolding unit_solution_def by metis
    have "fe_id e = fe_id f" using e f by (intro order_antisym) auto
    then have "e = f" using ids e(1) f(1) by (simp add: distinct_map inj_on_def)
    moreover have "(fe_source e, i) \<in> set (map edge_pair edges)" using e by (force simp: edge_pair_def)
    ultimately show ?thesis using 2(1) [of "fe_source e"] known e f by simp
  qed
  then show ?case using a b n by (auto simp: unit_solution_def)
qed simp

lemma unit_steps:
  assumes order: "distinct order" and into_seen: "\<And>j e. j < length order \<Longrightarrow> map_of lowest (order ! j) = Some e \<Longrightarrow> fe_source e \<in> set (take j order)"
  shows "case foldl (unit_step by_id lowest) st order of (out, into) \<Rightarrow> \<forall>i\<in>set order.
    dict_get into i None = (case map_of lowest i of None \<Rightarrow> None | Some e \<Rightarrow> dict_get out (fe_source e) None) \<and>
    dict_get out i None = port_unit (output_rule (the (map_of by_id i))) (fn_stage_type (the (map_of by_id i))) (fn_config (the (map_of by_id i))) (dict_get into i None)"
  using assms
proof (induction order rule: rev_induct)
  case Nil
  then show ?case by (simp split: prod.splits)
next
  case (snoc i order)
  obtain out into where st: "foldl (unit_step by_id lowest) st order = (out, into)" by fastforce
  have "fe_source e \<in> set (take j order)" if "j < length order" "map_of lowest (order ! j) = Some e" for j e
    using snoc.prems(2) [of j e] that by (simp add: nth_append)
  then have old: "\<forall>k\<in>set order. dict_get into k None = (case map_of lowest k of None \<Rightarrow> None | Some e \<Rightarrow> dict_get out (fe_source e) None) \<and>
      dict_get out k None = port_unit (output_rule (the (map_of by_id k))) (fn_stage_type (the (map_of by_id k))) (fn_config (the (map_of by_id k))) (dict_get into k None)"
    using snoc.IH snoc.prems(1) st by simp
  have before: "fe_source e \<noteq> i" if k: "k \<in> set (order @ [i])" and low: "map_of lowest k = Some e" for k e
  proof -
    obtain j where j: "j < length (order @ [i])" "(order @ [i]) ! j = k" using k unfolding in_set_conv_nth by blast
    then have "fe_source e \<in> set (take j (order @ [i]))" using snoc.prems(2) [of j e] low by simp
    moreover have "take j (order @ [i]) = take j order" using j(1) by simp
    ultimately have "fe_source e \<in> set order" by (metis in_set_takeD)
    then show ?thesis using snoc.prems(1) by auto
  qed
  let ?u = "case map_of lowest i of None \<Rightarrow> None | Some e \<Rightarrow> dict_get out (fe_source e) None"
  have step: "foldl (unit_step by_id lowest) st (order @ [i]) =
      (dict_set i (port_unit (output_rule (the (map_of by_id i))) (fn_stage_type (the (map_of by_id i))) (fn_config (the (map_of by_id i))) ?u) out, dict_set i ?u into)"
    using st by (simp add: unit_step_def Let_def)
  have "i \<notin> set order" using snoc.prems(1) by simp
  then show ?case unfolding step using old before by (auto split: option.splits)
qed

lemma flow_units_solve:
  assumes nodes: "distinct (map fn_id nodes)" and edges: "distinct (map fe_id edges)" and acyc: "acyclic (set (map edge_pair edges))"
    and known: "\<forall>e\<in>set edges. fe_source e \<in> fn_id ` set nodes \<and> fe_target e \<in> fn_id ` set nodes"
  shows "case flow_units (node_map nodes) edges of (out, into) \<Rightarrow> unit_solution nodes edges (\<lambda>i. dict_get out i None) (\<lambda>i. dict_get into i None)"
proof -
  have ids: "map fst (node_map nodes) = map fn_id nodes" by (simp add: node_map_of [OF nodes] comp_def)
  have "\<forall>(s, t)\<in>set (map edge_pair edges). s \<in> set (map fn_id nodes) \<and> t \<in> set (map fn_id nodes)" using known by (auto simp: edge_pair_def)
  from topological_order_result [OF this] obtain final order where order: "kahn_inv (map fn_id nodes) (map edge_pair edges) final [] order"
    "topological_order (map fn_id nodes) (map edge_pair edges) = Ordered order" "set order = set (map fn_id nodes)" using acyc by metis
  obtain out into where units: "flow_units (node_map nodes) edges = (out, into)" by fastforce
  let ?blank = "map (\<lambda>(i, n). (i, None)) (node_map nodes)"
  have run: "foldl (unit_step (node_map nodes) (lowest_incoming edges)) (?blank, ?blank) order = (out, into)"
    using units order(2) by (simp add: flow_units_def Let_def ids)
  have dist: "distinct order" using order(1) by (simp add: kahn_inv_def)
  have source_first: "fe_source e \<in> set (take j order)" if j: "j < length order" and low: "map_of (lowest_incoming edges) (order ! j) = Some e" for j e
  proof -
    have "(fe_source e, order ! j) \<in> set (map edge_pair edges)" using lowest_incoming_spec(1) [OF edges low] by (force simp: edge_pair_def)
    then obtain i where "i < j" "order ! i = fe_source e" using order_edges [OF order(1) _ j refl] by blast
    then show ?thesis using j by (force simp: in_set_conv_nth)
  qed
  have eqs: "dict_get into i None = (case map_of (lowest_incoming edges) i of None \<Rightarrow> None | Some e \<Rightarrow> dict_get out (fe_source e) None) \<and>
      dict_get out i None = port_unit (output_rule (the (map_of (node_map nodes) i))) (fn_stage_type (the (map_of (node_map nodes) i))) (fn_config (the (map_of (node_map nodes) i))) (dict_get into i None)"
    if "i \<in> set order" for i
    using unit_steps [OF dist source_first, of "lowest_incoming edges" "node_map nodes" "(?blank, ?blank)"] that unfolding run prod.case by blast
  have "unit_solution nodes edges (\<lambda>i. dict_get out i None) (\<lambda>i. dict_get into i None)"
    unfolding unit_solution_def
  proof (intro ballI)
    fix n assume n: "n \<in> set nodes"
    then have "fn_id n \<in> set order" using order(3) by simp
    note eq = eqs [OF this, unfolded node_found [OF nodes n] option.sel]
    show "dict_get out (fn_id n) None = port_unit (output_rule n) (fn_stage_type n) (fn_config n) (dict_get into (fn_id n) None) \<and>
      (if \<forall>e\<in>set edges. fe_target e \<noteq> fn_id n then dict_get into (fn_id n) None = None
       else \<exists>e\<in>set edges. fe_target e = fn_id n \<and> (\<forall>f\<in>set edges. fe_target f = fn_id n \<longrightarrow> fe_id e \<le> fe_id f) \<and> dict_get into (fn_id n) None = dict_get out (fe_source e) None)"
    proof (cases "map_of (lowest_incoming edges) (fn_id n)")
      case None
      then have "\<forall>f\<in>set edges. fe_target f \<noteq> fn_id n" using lowest_incoming_spec(2) [OF edges] by blast
      then show ?thesis using eq unfolding None by simp
    next
      case (Some e)
      then show ?thesis using eq lowest_incoming_spec(1) [OF edges Some] by (auto intro!: bexI [of _ e])
    qed
  qed
  then show ?thesis using units by simp
qed

text \<open>C39: in a flow without a cycle the resolved units are the one solution of the unit equations: a node's
  output unit follows from its kind, its stage, its configuration and its input unit, and its input unit is the
  output unit of the source of its incoming edge with the smallest id.\<close>

theorem units_are_the_solution:
  assumes "distinct (map fn_id nodes)" and "distinct (map fe_id edges)" and "acyclic (set (map edge_pair edges))"
    and "\<forall>e\<in>set edges. fe_source e \<in> fn_id ` set nodes \<and> fe_target e \<in> fn_id ` set nodes"
  shows "\<exists>into. unit_solution nodes edges (\<lambda>i. dict_get (resolve_units nodes edges) i None) into \<and>
    (\<forall>out' into'. unit_solution nodes edges out' into' \<longrightarrow>
      (\<forall>n\<in>set nodes. out' (fn_id n) = dict_get (resolve_units nodes edges) (fn_id n) None \<and> into' (fn_id n) = into (fn_id n)))"
proof -
  let ?known = "between_nodes (node_map nodes) edges"
  have "filter (\<lambda>e. dict_has (node_map nodes) (fe_source e) \<and> dict_has (node_map nodes) (fe_target e)) edges = edges"
    using assms(4) node_found [OF assms(1)] by (auto simp: filter_id_conv dict_has_def)
  then have known: "set ?known = set edges" "mset ?known = mset edges" by (simp_all add: between_nodes_def)
  obtain out into where units: "flow_units (node_map nodes) ?known = (out, into)" by fastforce
  have "distinct (map fe_id ?known)" using assms(2) known(2) by (metis mset_eq_imp_distinct_iff mset_map)
  then have "unit_solution nodes ?known (\<lambda>i. dict_get out i None) (\<lambda>i. dict_get into i None)"
    using flow_units_solve [OF assms(1), of ?known] assms(3,4) known(1) units by simp
  then have sol: "unit_solution nodes edges (\<lambda>i. dict_get out i None) (\<lambda>i. dict_get into i None)" unfolding unit_solution_def known(1) .
  have res: "resolve_units nodes edges = out" by (simp add: resolve_units_def Let_def units)
  have "\<forall>e\<in>set edges. fe_source e \<in> fn_id ` set nodes" using assms(4) by blast
  note unique = unit_solution_unique [OF sol _ assms(3,2) this]
  show ?thesis unfolding res
  proof (intro exI [of _ "\<lambda>i. dict_get into i None"] conjI sol allI impI ballI)
    fix out' into' n assume "unit_solution nodes edges out' into'" and "n \<in> set nodes"
    from unique [OF this(1) imageI [OF this(2)]]
    show "out' (fn_id n) = dict_get out (fn_id n) None" and "into' (fn_id n) = dict_get into (fn_id n) None" by simp_all
  qed
qed


text \<open>A small flow: a draft forms the teams of a Swiss stage, which feeds a leaderboard.\<close>

definition small_flow :: "flow_node list" where
  "small_flow =
    [\<lparr>fn_id = 1, fn_kind = Registration_Node, fn_config = Some (Registration_Config False), fn_stage_id = None, fn_stage_type = None\<rparr>,
     \<lparr>fn_id = 2, fn_kind = Formation_Node, fn_config = Some (Formation_Config Draft_Mode), fn_stage_id = None, fn_stage_type = None\<rparr>,
     \<lparr>fn_id = 3, fn_kind = Stage_Node, fn_config = Some Stage_Config, fn_stage_id = Some 7, fn_stage_type = Some SWISS\<rparr>,
     \<lparr>fn_id = 4, fn_kind = Leaderboard_Node, fn_config = Some Leaderboard_Config, fn_stage_id = None, fn_stage_type = None\<rparr>]"

definition small_edges :: "flow_edge list" where
  "small_edges =
    [\<lparr>fe_id = 12, fe_source = 3, fe_source_port = ''ranking'', fe_target = 4, fe_target_port = ''ranking''\<rparr>,
     \<lparr>fe_id = 10, fe_source = 1, fe_source_port = ''participants'', fe_target = 2, fe_target_port = ''players''\<rparr>,
     \<lparr>fe_id = 11, fe_source = 2, fe_source_port = ''teams'', fe_target = 3, fe_target_port = ''participants''\<rparr>]"

theorem units_are_the_solution_witness:
  "\<exists>into. unit_solution small_flow small_edges (\<lambda>i. dict_get (resolve_units small_flow small_edges) i None) into \<and>
    map (\<lambda>n. dict_get (resolve_units small_flow small_edges) (fn_id n) None) small_flow = [Some Players, Some Teams, Some Teams, Some Teams]"
proof -
  have nodes: "distinct (map fn_id small_flow)" by (simp add: small_flow_def)
  have edges: "distinct (map fe_id small_edges)" by (simp add: small_edges_def)
  have acyc: "acyclic (set (map edge_pair small_edges))"
    by (rule acyclicI_order [of _ uminus]) (auto simp: small_edges_def edge_pair_def)
  have joined: "\<forall>e\<in>set small_edges. fe_source e \<in> fn_id ` set small_flow \<and> fe_target e \<in> fn_id ` set small_flow"
    by (simp add: small_edges_def small_flow_def)
  have run: "map (\<lambda>n. dict_get (resolve_units small_flow small_edges) (fn_id n) None) small_flow = [Some Players, Some Teams, Some Teams, Some Teams]"
    by code_simp
  from units_are_the_solution [OF nodes edges acyc joined] obtain into where
    "unit_solution small_flow small_edges (\<lambda>i. dict_get (resolve_units small_flow small_edges) i None) into" by (elim exE conjE)
  then show ?thesis using run by (intro exI [of _ into] conjI)
qed

section \<open>What the validation accepts\<close>

definition input_rule :: "flow_node \<Rightarrow> unit_rule" where
  "input_rule n = ps_rule (hd (fst (catalogue (fn_kind n))))"

definition many_inputs :: "flow_kind \<Rightarrow> bool" where
  "many_inputs kind \<longleftrightarrow> kind \<in> {Merge_Node, Aggregate_Node}"

lemma one_input: "fst (catalogue kind) = [] \<and> kind = Registration_Node \<or> (\<exists>p. fst (catalogue kind) = [p] \<and> ps_multi p = many_inputs kind)"
  by (cases kind) (simp_all add: port_def many_inputs_def)

lemma input_port_node:
  assumes "dict_get ports (fe_target e) [] = node_ports into n"
  shows "input_port ports e = (case fst (catalogue (fn_kind n)) of
      [p] \<Rightarrow> if ps_name p = fe_target_port e
        then Some \<lparr>rp_name = ps_name p, rp_in = True, rp_multi = ps_multi p, rp_unit = port_unit (ps_rule p) (fn_stage_type n) (fn_config n) (dict_get into (fn_id n) None)\<rparr> else None
    | _ \<Rightarrow> None)"
proof -
  have "filter rp_in (node_ports into n) = map (\<lambda>p. \<lparr>rp_name = ps_name p, rp_in = True, rp_multi = ps_multi p, rp_unit = port_unit (ps_rule p) (fn_stage_type n) (fn_config n) (dict_get into (fn_id n) None)\<rparr>) (fst (catalogue (fn_kind n)))"
    by (simp add: node_ports_def Let_def filter_map comp_def)
  then show ?thesis using one_input [of "fn_kind n"] unfolding input_port_def assms by (auto split: list.splits)
qed

lemma output_names: "rp_name ` set (filter (\<lambda>p. \<not> rp_in p) (node_ports into n)) = ps_name ` set (concrete_outputs (fn_kind n) (fn_config n))"
  by (simp add: node_ports_def Let_def filter_map comp_def image_comp)

lemma ports_of_node:
  assumes "distinct (map fn_id nodes)" and "n \<in> set nodes"
  shows "dict_get (resolve_ports nodes edges) (fn_id n) [] = node_ports (snd (flow_units (node_map nodes) (between_nodes (node_map nodes) edges))) n"
proof -
  let ?into = "snd (flow_units (node_map nodes) (between_nodes (node_map nodes) edges))"
  have "resolve_ports nodes edges = map (\<lambda>n. (fn_id n, node_ports ?into n)) nodes"
    unfolding resolve_ports_def Let_def by (rule dict_comprehension [OF assms(1)])
  moreover have "map_of (map (\<lambda>n. (fn_id n, node_ports ?into n)) nodes) (fn_id n) = Some (node_ports ?into n)"
    by (rule map_of_is_SomeI) (use assms in \<open>auto simp: comp_def\<close>)
  ultimately show ?thesis by (simp add: dict_get_def)
qed

text \<open>No port is taken twice exactly when two edges share an input only where it accepts many.\<close>

lemma taken_ports_none:
  "taken_ports ports seen es = [] \<longleftrightarrow>
    (\<forall>i<length es. (fe_target (es ! i), fe_target_port (es ! i)) \<notin> seen \<and>
      (\<forall>j<i. (fe_target (es ! j), fe_target_port (es ! j)) = (fe_target (es ! i), fe_target_port (es ! i)) \<longrightarrow> rp_multi (the (input_port ports (es ! j)))))"
proof (induction es arbitrary: seen)
  case (Cons e es)
  let ?k = "\<lambda>e. (fe_target e, fe_target_port e)" and ?m = "\<lambda>e. rp_multi (the (input_port ports e))"
  have "taken_ports ports seen (e # es) = [] \<longleftrightarrow> ?k e \<notin> seen \<and> taken_ports ports (if ?m e then seen else insert (?k e) seen) es = []" by simp
  also have "\<dots> \<longleftrightarrow> ?k e \<notin> seen \<and> (\<forall>i<length es. ?k (es ! i) \<notin> seen \<and> (?k e = ?k (es ! i) \<longrightarrow> ?m e) \<and> (\<forall>j<i. ?k (es ! j) = ?k (es ! i) \<longrightarrow> ?m (es ! j)))"
    unfolding Cons.IH by (cases "?m e") auto
  also have "\<dots> \<longleftrightarrow> (\<forall>i<length (e # es). ?k ((e # es) ! i) \<notin> seen \<and> (\<forall>j<i. ?k ((e # es) ! j) = ?k ((e # es) ! i) \<longrightarrow> ?m ((e # es) ! j)))"
    unfolding length_Cons All_less_Suc2 by simp
  finally show ?case .
qed simp

lemma pairs_by_index:
  assumes "distinct es" and "\<And>x y. x \<in> set es \<Longrightarrow> y \<in> set es \<Longrightarrow> k x = k y \<Longrightarrow> m x = m y"
  shows "(\<forall>i<length es. \<forall>j<i. k (es ! j) = k (es ! i) \<longrightarrow> m (es ! j)) \<longleftrightarrow> (\<forall>x\<in>set es. \<forall>y\<in>set es. x \<noteq> y \<and> k x = k y \<longrightarrow> m x)"
proof
  assume idx: "\<forall>i<length es. \<forall>j<i. k (es ! j) = k (es ! i) \<longrightarrow> m (es ! j)"
  show "\<forall>x\<in>set es. \<forall>y\<in>set es. x \<noteq> y \<and> k x = k y \<longrightarrow> m x"
  proof (intro ballI impI)
    fix x y assume xy: "x \<in> set es" "y \<in> set es" "x \<noteq> y \<and> k x = k y"
    obtain i where i: "i < length es" "es ! i = x" using xy(1) unfolding in_set_conv_nth by blast
    obtain j where j: "j < length es" "es ! j = y" using xy(2) unfolding in_set_conv_nth by blast
    have "i < j \<or> j < i" using i j xy(3) by (metis nat_neq_iff)
    then have "m x \<or> m y" using idx i j xy(3) by metis
    then show "m x" using assms(2) [OF xy(1,2)] xy(3) by simp
  qed
next
  assume all: "\<forall>x\<in>set es. \<forall>y\<in>set es. x \<noteq> y \<and> k x = k y \<longrightarrow> m x"
  show "\<forall>i<length es. \<forall>j<i. k (es ! j) = k (es ! i) \<longrightarrow> m (es ! j)"
  proof (intro allI impI)
    fix i j assume ij: "i < length es" "j < i" "k (es ! j) = k (es ! i)"
    then have "es ! j \<noteq> es ! i" using assms(1) by (simp add: nth_eq_iff_index_eq)
    then show "m (es ! j)" using all ij by (meson less_trans nth_mem)
  qed
qed

definition node_sound :: "flow_edge list \<Rightarrow> flow_node \<Rightarrow> bool" where
  "node_sound edges n \<longleftrightarrow> fn_config n \<noteq> None \<and> (fn_kind n = Stage_Node \<longrightarrow> fn_stage_id n \<noteq> None) \<and>
    (\<forall>u mode k by_role. fn_config n = Some (Aggregate_Config u mode (Some k) by_role) \<and> mode \<in> {Sum_Last_N, Sum_Best_N} \<longrightarrow>
      k \<le> length (filter (\<lambda>e. fe_target e = fn_id n) edges))"

definition edge_ports_sound :: "flow_edge \<Rightarrow> flow_node \<Rightarrow> flow_node \<Rightarrow> bool" where
  "edge_ports_sound e s t \<longleftrightarrow> fe_source_port e \<in> ps_name ` set (concrete_outputs (fn_kind s) (fn_config s)) \<and> fe_target_port e \<in> ps_name ` set (fst (catalogue (fn_kind t)))"

definition edge_feeds_sound :: "flow_node \<Rightarrow> flow_node \<Rightarrow> bool" where
  "edge_feeds_sound s t \<longleftrightarrow> (fn_config s = Some (Registration_Config True) \<longrightarrow> fn_config t = Some (Formation_Config Registered_Mode)) \<and>
    ((\<exists>u mode k. fn_config s = Some (Aggregate_Config u mode k True)) \<longrightarrow> fn_kind t = Leaderboard_Node)"

lemma feeding_errors_none:
  "map_of by_id (fe_source e) = Some s \<Longrightarrow> map_of by_id (fe_target e) = Some t \<Longrightarrow> feeding_errors by_id e = [] \<longleftrightarrow> edge_feeds_sound s t"
  by (cases "fn_config s") (auto simp: feeding_errors_def edge_feeds_sound_def Let_def split: node_config.splits bool.splits)

lemma n_exceeds_sound: "fn_config n \<noteq> None \<Longrightarrow> \<not> n_exceeds edges n \<longleftrightarrow>
    (\<forall>u mode k by_role. fn_config n = Some (Aggregate_Config u mode (Some k) by_role) \<and> mode \<in> {Sum_Last_N, Sum_Best_N} \<longrightarrow>
      k \<le> length (filter (\<lambda>e. fe_target e = fn_id n) edges))"
  by (auto simp: n_exceeds_def split: option.splits node_config.splits)

definition input_unit_of :: "(int \<Rightarrow> flow_unit option) \<Rightarrow> flow_node \<Rightarrow> flow_unit option" where
  "input_unit_of into t = port_unit (input_rule t) (fn_stage_type t) (fn_config t) (into (fn_id t))"

lemma edge_ports:
  assumes s: "dict_get ports (fe_source e) [] = node_ports into s" and t: "dict_get ports (fe_target e) [] = node_ports into t"
  shows "ports_exist ports e \<longleftrightarrow> edge_ports_sound e s t"
    and "ports_exist ports e \<Longrightarrow> rp_multi (the (input_port ports e)) = many_inputs (fn_kind t)"
    and "ports_exist ports e \<Longrightarrow> rp_unit (the (input_port ports e)) = input_unit_of (\<lambda>i. dict_get into i None) t"
proof -
  have inp: "input_port ports e \<noteq> None \<longleftrightarrow> fe_target_port e \<in> ps_name ` set (fst (catalogue (fn_kind t)))"
    using one_input [of "fn_kind t"] unfolding input_port_node [OF t] by (auto split: if_splits)
  then show "ports_exist ports e \<longleftrightarrow> edge_ports_sound e s t" unfolding ports_exist_def s output_names edge_ports_sound_def by simp
  assume "ports_exist ports e"
  then have "input_port ports e \<noteq> None" by (simp add: ports_exist_def)
  then obtain p where p: "fst (catalogue (fn_kind t)) = [p]" "ps_multi p = many_inputs (fn_kind t)"
    using one_input [of "fn_kind t"] unfolding input_port_node [OF t] by (auto split: list.splits)
  moreover have "ps_name p = fe_target_port e"
    using \<open>input_port ports e \<noteq> None\<close> p(1) unfolding input_port_node [OF t] by (cases "ps_name p = fe_target_port e") simp_all
  ultimately show "rp_multi (the (input_port ports e)) = many_inputs (fn_kind t)"
    "rp_unit (the (input_port ports e)) = input_unit_of (\<lambda>i. dict_get into i None) t"
    using p unfolding input_port_node [OF t] by (simp_all add: input_unit_of_def input_rule_def)
qed

text \<open>All edges of a flow whose edges join its nodes, checked against the units of one solution.\<close>

definition edges_sound :: "flow_node list \<Rightarrow> flow_edge list \<Rightarrow> (int \<Rightarrow> flow_unit option) \<Rightarrow> (int \<Rightarrow> flow_unit option) \<Rightarrow> bool" where
  "edges_sound nodes edges out into \<longleftrightarrow>
    (\<forall>e\<in>set edges. \<exists>s\<in>set nodes. \<exists>t\<in>set nodes. fn_id s = fe_source e \<and> fn_id t = fe_target e \<and> edge_ports_sound e s t \<and> edge_feeds_sound s t \<and>
      units_fit (out (fe_source e)) (input_unit_of into t) (fn_kind t) \<and>
      (\<forall>f\<in>set edges. f \<noteq> e \<and> fe_target f = fe_target e \<and> fe_target_port f = fe_target_port e \<longrightarrow> many_inputs (fn_kind t)))"

lemma edges_checked:
  assumes nodes: "distinct (map fn_id nodes)" and edges: "distinct edges"
    and joined: "\<forall>e\<in>set edges. fe_source e \<in> fn_id ` set nodes \<and> fe_target e \<in> fn_id ` set nodes"
    and ports: "\<And>n. n \<in> set nodes \<Longrightarrow> dict_get ports (fn_id n) [] = node_ports into n"
  shows "edges_sound nodes edges (\<lambda>i. dict_get out i None) (\<lambda>i. dict_get into i None) \<longleftrightarrow>
    filter (\<lambda>e. \<not> ports_exist ports e) edges = [] \<and> taken_ports ports {} edges = [] \<and> unit_errors (node_map nodes) ports out edges = [] \<and>
    concat (map (feeding_errors (node_map nodes)) edges) = []"
proof -
  let ?by_id = "node_map nodes"
  define src where "src e = the (map_of ?by_id (fe_source e))" for e :: flow_edge
  define tgt where "tgt e = the (map_of ?by_id (fe_target e))" for e :: flow_edge
  have at: "src e \<in> set nodes" "fn_id (src e) = fe_source e" "map_of ?by_id (fe_source e) = Some (src e)"
    "tgt e \<in> set nodes" "fn_id (tgt e) = fe_target e" "map_of ?by_id (fe_target e) = Some (tgt e)" if "e \<in> set edges" for e
    using joined that node_found [OF nodes] by (fastforce simp: src_def tgt_def)+
  have only: "s = src e" "t = tgt e" if "e \<in> set edges" "s \<in> set nodes" "t \<in> set nodes" "fn_id s = fe_source e" "fn_id t = fe_target e" for e s t
    using at [OF that(1)] that(2-5) nodes by (auto simp: distinct_map inj_on_def)
  have pe: "ports_exist ports e \<longleftrightarrow> edge_ports_sound e (src e) (tgt e)" if "e \<in> set edges" for e
    using edge_ports(1) [where ports = ports and e = e and into = into and s = "src e" and t = "tgt e"] ports at [OF that] by metis
  have pm: "rp_multi (the (input_port ports e)) = many_inputs (fn_kind (tgt e))" if "e \<in> set edges" "ports_exist ports e" for e
    using edge_ports(2) [where ports = ports and e = e and into = into and s = "src e" and t = "tgt e"] ports at [OF that(1)] that(2) by metis
  have pu: "rp_unit (the (input_port ports e)) = input_unit_of (\<lambda>i. dict_get into i None) (tgt e)" if "e \<in> set edges" "ports_exist ports e" for e
    using edge_ports(3) [where ports = ports and e = e and into = into and s = "src e" and t = "tgt e"] ports at [OF that(1)] that(2) by metis
  have "edges_sound nodes edges (\<lambda>i. dict_get out i None) (\<lambda>i. dict_get into i None) \<longleftrightarrow>
    (\<forall>e\<in>set edges. edge_ports_sound e (src e) (tgt e) \<and> edge_feeds_sound (src e) (tgt e) \<and>
      units_fit (dict_get out (fe_source e) None) (input_unit_of (\<lambda>i. dict_get into i None) (tgt e)) (fn_kind (tgt e)) \<and>
      (\<forall>f\<in>set edges. f \<noteq> e \<and> fe_target f = fe_target e \<and> fe_target_port f = fe_target_port e \<longrightarrow> many_inputs (fn_kind (tgt e))))"
    unfolding edges_sound_def
  proof (intro ball_cong refl)
    fix e assume e: "e \<in> set edges"
    have "(\<exists>s\<in>set nodes. \<exists>t\<in>set nodes. fn_id s = fe_source e \<and> fn_id t = fe_target e \<and> P s t) \<longleftrightarrow> P (src e) (tgt e)" for P
    proof
      assume "\<exists>s\<in>set nodes. \<exists>t\<in>set nodes. fn_id s = fe_source e \<and> fn_id t = fe_target e \<and> P s t"
      then obtain s t where "s \<in> set nodes" "t \<in> set nodes" "fn_id s = fe_source e" "fn_id t = fe_target e" "P s t" by blast
      then show "P (src e) (tgt e)" using only [OF e, of s t] by simp
    next
      assume "P (src e) (tgt e)"
      then show "\<exists>s\<in>set nodes. \<exists>t\<in>set nodes. fn_id s = fe_source e \<and> fn_id t = fe_target e \<and> P s t" using at [OF e] by blast
    qed
    note joined_nodes = this
    show "(\<exists>s\<in>set nodes. \<exists>t\<in>set nodes. fn_id s = fe_source e \<and> fn_id t = fe_target e \<and> edge_ports_sound e s t \<and> edge_feeds_sound s t \<and>
        units_fit (dict_get out (fe_source e) None) (input_unit_of (\<lambda>i. dict_get into i None) t) (fn_kind t) \<and>
        (\<forall>f\<in>set edges. f \<noteq> e \<and> fe_target f = fe_target e \<and> fe_target_port f = fe_target_port e \<longrightarrow> many_inputs (fn_kind t))) \<longleftrightarrow>
      edge_ports_sound e (src e) (tgt e) \<and> edge_feeds_sound (src e) (tgt e) \<and>
        units_fit (dict_get out (fe_source e) None) (input_unit_of (\<lambda>i. dict_get into i None) (tgt e)) (fn_kind (tgt e)) \<and>
        (\<forall>f\<in>set edges. f \<noteq> e \<and> fe_target f = fe_target e \<and> fe_target_port f = fe_target_port e \<longrightarrow> many_inputs (fn_kind (tgt e)))"
      by (rule joined_nodes)
  qed
  also have "\<dots> \<longleftrightarrow> (\<forall>e\<in>set edges. ports_exist ports e) \<and> (\<forall>e\<in>set edges. edge_feeds_sound (src e) (tgt e)) \<and>
      (\<forall>e\<in>set edges. units_fit (dict_get out (fe_source e) None) (rp_unit (the (input_port ports e))) (fn_kind (tgt e))) \<and>
      (\<forall>e\<in>set edges. \<forall>f\<in>set edges. f \<noteq> e \<and> fe_target f = fe_target e \<and> fe_target_port f = fe_target_port e \<longrightarrow> rp_multi (the (input_port ports e)))"
    (is "?spec \<longleftrightarrow> ?p \<and> ?f \<and> ?u \<and> ?t")
  proof (cases ?p)
    case True
    then show ?thesis using pe pm pu by auto
  next
    case False
    then show ?thesis using pe by blast
  qed
  also have "\<dots> \<longleftrightarrow> filter (\<lambda>e. \<not> ports_exist ports e) edges = [] \<and> taken_ports ports {} edges = [] \<and> unit_errors ?by_id ports out edges = [] \<and>
      concat (map (feeding_errors ?by_id) edges) = []"
  proof (cases ?p)
    case True
    have same: "rp_multi (the (input_port ports x)) = rp_multi (the (input_port ports y))"
      if "x \<in> set edges" "y \<in> set edges" "(fe_target x, fe_target_port x) = (fe_target y, fe_target_port y)" for x y
      using that pm True by (simp add: tgt_def)
    have "taken_ports ports {} edges = [] \<longleftrightarrow>
        (\<forall>x\<in>set edges. \<forall>y\<in>set edges. x \<noteq> y \<and> (fe_target x, fe_target_port x) = (fe_target y, fe_target_port y) \<longrightarrow> rp_multi (the (input_port ports x)))"
      unfolding taken_ports_none using pairs_by_index [of edges "\<lambda>e. (fe_target e, fe_target_port e)" "\<lambda>e. rp_multi (the (input_port ports e))", OF edges same] by simp
    also have "\<dots> \<longleftrightarrow> ?t" by (intro ball_cong refl) auto
    finally have "taken_ports ports {} edges = [] \<longleftrightarrow> ?t" .
    moreover have "unit_errors ?by_id ports out edges = [] \<longleftrightarrow> ?u" by (auto simp: unit_errors_def filter_empty_conv tgt_def)
    moreover have "concat (map (feeding_errors ?by_id) edges) = [] \<longleftrightarrow> ?f" using feeding_errors_none at(3,6) by fastforce
    moreover have "filter (\<lambda>e. \<not> ports_exist ports e) edges = [] \<longleftrightarrow> ?p" by (simp add: filter_empty_conv)
    ultimately show ?thesis by blast
  next
    case False
    then show ?thesis by (auto simp: filter_empty_conv)
  qed
  finally show ?thesis .
qed

definition flow_errors :: "flow_issue list \<Rightarrow> flow_issue list" where
  "flow_errors issues = filter fi_error issues"

lemma error_kinds:
  "flow_errors (xs @ ys) = flow_errors xs @ flow_errors ys" "flow_errors (map (\<lambda>n. node_error code (fn_id n)) ns) = map (\<lambda>n. node_error code (fn_id n)) ns"
  "flow_errors (map (edge_error code) es) = map (edge_error code) es" "flow_errors (flow_warnings nodes es) = []"
  "flow_errors (taken_ports ports seen es) = taken_ports ports seen es" "flow_errors (unit_errors by_id ports out es) = unit_errors by_id ports out es"
  "flow_errors (concat (map (feeding_errors by_id) es)) = concat (map (feeding_errors by_id) es)" "flow_errors [node_error code i] = [node_error code i]"
proof -
  have f: "flow_errors (feeding_errors by_id e) = feeding_errors by_id e" for e
    by (auto simp: flow_errors_def feeding_errors_def edge_error_def Let_def split: option.splits node_config.splits bool.splits)
  then show "flow_errors (concat (map (feeding_errors by_id) es)) = concat (map (feeding_errors by_id) es)" by (induction es) (auto simp: flow_errors_def)
  show "flow_errors (taken_ports ports seen es) = taken_ports ports seen es" by (induction es arbitrary: seen) (auto simp: flow_errors_def edge_error_def)
qed (simp_all add: flow_errors_def node_error_def edge_error_def flow_warnings_def node_warning_def unit_errors_def filter_map comp_def)

lemma edges_sound_cong: "set nodes = set nodes' \<Longrightarrow> set edges = set edges' \<Longrightarrow> edges_sound nodes edges out into = edges_sound nodes' edges' out into"
  by (simp add: edges_sound_def)

lemma edges_sound_units:
  assumes "\<And>i. i \<in> fn_id ` set nodes \<Longrightarrow> out i = out' i \<and> into i = into' i"
  shows "edges_sound nodes edges out into \<longleftrightarrow> edges_sound nodes edges out' into'"
proof -
  have "units_fit (out (fe_source e)) (input_unit_of into t) (fn_kind t) = units_fit (out' (fe_source e)) (input_unit_of into' t) (fn_kind t)"
    if "s \<in> set nodes" "t \<in> set nodes" "fn_id s = fe_source e" for s t e
    using assms [of "fe_source e"] assms [of "fn_id t"] that by (force simp: input_unit_of_def)
  then show ?thesis unfolding edges_sound_def by (intro ball_cong bex_cong refl) blast
qed

lemma not_joined_refused:
  assumes "distinct (map fe_id edges)" and "known = between_nodes by_id edges"
  shows "filter (\<lambda>e. fe_id e \<notin> fe_id ` set known) edges = [] \<longleftrightarrow> (\<forall>e\<in>set edges. dict_has by_id (fe_source e) \<and> dict_has by_id (fe_target e))"
proof -
  have "set known = {e \<in> set edges. dict_has by_id (fe_source e) \<and> dict_has by_id (fe_target e)}" by (simp add: assms(2) between_nodes_def)
  moreover have "inj_on fe_id (set edges)" using assms(1) by (simp add: distinct_map)
  ultimately show ?thesis by (auto simp: filter_empty_conv dest: inj_onD)
qed

text \<open>The checks behind the joints: everything \<open>validate_flow\<close> tests once every edge joins two nodes.\<close>

lemma joined_flow_accepted:
  assumes nodes: "distinct (map fn_id nodes)" and edges: "distinct (map fe_id edges)" and known: "known = between_nodes (node_map nodes) edges"
    and joined: "\<forall>e\<in>set edges. fe_source e \<in> fn_id ` set nodes \<and> fe_target e \<in> fn_id ` set nodes"
    and ports: "ports = resolve_ports nodes edges" and order: "order = the (kahn (map fst (node_map nodes)) (map edge_pair known))"
  shows "filter (\<lambda>e. \<not> ports_exist ports e) known = [] \<and> taken_ports ports {} (filter (ports_exist ports) known) = [] \<and>
      (if length order < length nodes then [node_error Cycle (Min (set (map fst (node_map nodes)) - set order))]
       else unit_errors (node_map nodes) ports (fst (flow_units (node_map nodes) known)) (filter (ports_exist ports) known)) = [] \<and>
      concat (map (feeding_errors (node_map nodes)) known) = [] \<longleftrightarrow>
    acyclic (set (map edge_pair edges)) \<and> (\<exists>out into. unit_solution nodes edges out into \<and> edges_sound nodes edges out into)"
proof -
  let ?by_id = "node_map nodes"
  have ids: "map fst ?by_id = map fn_id nodes" by (simp add: node_map_of [OF nodes] comp_def)
  have "filter (\<lambda>e. dict_has ?by_id (fe_source e) \<and> dict_has ?by_id (fe_target e)) edges = edges"
    using joined node_found [OF nodes] by (auto simp: filter_id_conv dict_has_def)
  then have same: "set known = set edges" "mset known = mset edges" by (simp_all add: known between_nodes_def)
  have known_ids: "distinct (map fe_id known)" using edges same(2) by (metis mset_eq_imp_distinct_iff mset_map)
  have known_distinct: "distinct known" using known_ids by (simp add: distinct_map)
  have joined_known: "\<forall>e\<in>set known. fe_source e \<in> fn_id ` set nodes \<and> fe_target e \<in> fn_id ` set nodes" using joined same(1) by simp
  have "\<forall>(s, t)\<in>set (map edge_pair known). s \<in> set (map fn_id nodes) \<and> t \<in> set (map fn_id nodes)" using joined_known by (auto simp: edge_pair_def)
  from topological_order_result [OF this] obtain final o' where kahn: "kahn (map fn_id nodes) (map edge_pair known) = Some o'"
    "kahn_inv (map fn_id nodes) (map edge_pair known) final [] o'" "acyclic (set (map edge_pair known)) \<longleftrightarrow> set o' = set (map fn_id nodes)" by metis
  have o': "order = o'" using kahn(1) by (simp add: order ids)
  have "set o' \<subseteq> set (map fn_id nodes)" "distinct o'" using kahn(2) by (auto simp: kahn_inv_def)
  then have "length o' \<le> length nodes" "length o' = length nodes \<longleftrightarrow> set o' = set (map fn_id nodes)"
    using distinct_card [OF nodes] distinct_card [of o'] card_mono [of "set (map fn_id nodes)" "set o'"] card_subset_eq [of "set (map fn_id nodes)" "set o'"] by auto
  then have cyc: "length order < length nodes \<longleftrightarrow> \<not> acyclic (set (map edge_pair edges))" using kahn(3) same(1) by (auto simp: o')
  show ?thesis
  proof (cases "acyclic (set (map edge_pair edges))")
    case False
    then show ?thesis using cyc by simp
  next
    case True
    obtain out into where units: "flow_units ?by_id known = (out, into)" by fastforce
    have sol: "unit_solution nodes known (\<lambda>i. dict_get out i None) (\<lambda>i. dict_get into i None)"
      using flow_units_solve [OF nodes known_ids _ joined_known] True same(1) units by simp
    then have sol': "unit_solution nodes edges (\<lambda>i. dict_get out i None) (\<lambda>i. dict_get into i None)" unfolding unit_solution_def same(1) .
    have src: "\<forall>e\<in>set edges. fe_source e \<in> fn_id ` set nodes" using joined by blast
    have only: "(\<exists>out into. unit_solution nodes edges out into \<and> edges_sound nodes edges out into) \<longleftrightarrow>
        edges_sound nodes edges (\<lambda>i. dict_get out i None) (\<lambda>i. dict_get into i None)"
      using edges_sound_units [of nodes "\<lambda>i. dict_get out i None" _ "\<lambda>i. dict_get into i None"] unit_solution_unique [OF sol' _ True edges src] sol' by blast
    have at_node: "dict_get ports (fn_id n) [] = node_ports into n" if "n \<in> set nodes" for n
      using ports_of_node [OF nodes that, of edges] units by (simp add: ports known [symmetric])
    have "edges_sound nodes edges (\<lambda>i. dict_get out i None) (\<lambda>i. dict_get into i None) \<longleftrightarrow>
        edges_sound nodes known (\<lambda>i. dict_get out i None) (\<lambda>i. dict_get into i None)" by (rule edges_sound_cong) (simp_all add: same(1))
    also have "\<dots> \<longleftrightarrow> filter (\<lambda>e. \<not> ports_exist ports e) known = [] \<and> taken_ports ports {} known = [] \<and> unit_errors ?by_id ports out known = [] \<and>
        concat (map (feeding_errors ?by_id) known) = []"
      by (rule edges_checked [OF nodes known_distinct joined_known at_node])
    also have "\<dots> \<longleftrightarrow> filter (\<lambda>e. \<not> ports_exist ports e) known = [] \<and> taken_ports ports {} (filter (ports_exist ports) known) = [] \<and>
        unit_errors ?by_id ports out (filter (ports_exist ports) known) = [] \<and> concat (map (feeding_errors ?by_id) known) = []"
    proof (cases "filter (\<lambda>e. \<not> ports_exist ports e) known = []")
      case True
      then have "filter (ports_exist ports) known = known" by (simp add: filter_empty_conv filter_id_conv)
      then show ?thesis by simp
    qed simp
    finally have "edges_sound nodes edges (\<lambda>i. dict_get out i None) (\<lambda>i. dict_get into i None) \<longleftrightarrow>
        filter (\<lambda>e. \<not> ports_exist ports e) known = [] \<and> taken_ports ports {} (filter (ports_exist ports) known) = [] \<and>
        unit_errors ?by_id ports out (filter (ports_exist ports) known) = [] \<and> concat (map (feeding_errors ?by_id) known) = []" .
    then show ?thesis using True cyc units only by simp
  qed
qed

lemma unit_solution_cong: "set nodes = set nodes' \<Longrightarrow> set edges = set edges' \<Longrightarrow> unit_solution nodes edges out into = unit_solution nodes' edges' out into"
  by (simp add: unit_solution_def)

lemma node_sound_perm: "mset edges = mset edges' \<Longrightarrow> node_sound edges n = node_sound edges' n"
  unfolding node_sound_def by (metis mset_filter size_mset)

text \<open>C38: a flow is accepted without an error exactly when every node is configured and its window fits its inputs,
  every edge joins two of its nodes at ports that exist, the graph has no cycle, an input shared by two edges
  is one that accepts many, the units that solve the unit equations fit along every edge, and what a node may feed
  is respected.\<close>

theorem flow_accepted_iff:
  assumes "distinct (map fn_id nodes)" and "distinct (map fe_id edges)"
  shows "filter fi_error (validate_flow nodes edges) = [] \<longleftrightarrow>
    (\<forall>n\<in>set nodes. node_sound edges n) \<and> acyclic (set (map edge_pair edges)) \<and>
    (\<exists>out into. unit_solution nodes edges out into \<and> edges_sound nodes edges out into)"
proof -
  define N where "N = sort_key fn_id nodes"
  define E where "E = sort_key fe_id edges"
  define known where "known = between_nodes (node_map N) E"
  define ports where "ports = resolve_ports N E"
  define order where "order = the (kahn (map fst (node_map N)) (map edge_pair known))"
  let ?valid = "filter (ports_exist ports) known"
  have N: "set N = set nodes" "distinct (map fn_id N)" using assms(1) unfolding N_def by (simp, metis mset_eq_imp_distinct_iff mset_map mset_sort)
  have E: "set E = set edges" "mset E = mset edges" "distinct (map fe_id E)" using assms(2) unfolding E_def by (simp, simp, metis mset_eq_imp_distinct_iff mset_map mset_sort)
  have "filter fi_error (validate_flow nodes edges) = [] \<longleftrightarrow>
      filter (\<lambda>n. fn_config n = None) N = [] \<and> filter (\<lambda>n. fn_kind n = Stage_Node \<and> fn_stage_id n = None) N = [] \<and>
      filter (\<lambda>e. fe_id e \<notin> fe_id ` set known) E = [] \<and> filter (\<lambda>e. \<not> ports_exist ports e) known = [] \<and> taken_ports ports {} ?valid = [] \<and>
      (if length order < length N then [node_error Cycle (Min (set (map fst (node_map N)) - set order))]
       else unit_errors (node_map N) ports (fst (flow_units (node_map N) known)) ?valid) = [] \<and>
      filter (n_exceeds ?valid) N = [] \<and> concat (map (feeding_errors (node_map N)) known) = []"
    unfolding flow_errors_def [symmetric] validate_flow_def Let_def N_def [symmetric] E_def [symmetric] known_def [symmetric] ports_def [symmetric] order_def [symmetric]
    by (simp only: error_kinds append_is_Nil_conv map_is_Nil_conv if_distrib [of flow_errors] simp_thms)
  also have "\<dots> \<longleftrightarrow> (\<forall>n\<in>set nodes. node_sound edges n) \<and> acyclic (set (map edge_pair edges)) \<and>
      (\<exists>out into. unit_solution nodes edges out into \<and> edges_sound nodes edges out into)" (is "?checks \<longleftrightarrow> ?spec")
  proof (cases "\<forall>e\<in>set E. fe_source e \<in> fn_id ` set N \<and> fe_target e \<in> fn_id ` set N")
    case False
    have has: "dict_has (node_map N) i \<longleftrightarrow> i \<in> fn_id ` set N" for i by (force simp: node_map_of [OF N(2)] dict_has_iff)
    have "filter (\<lambda>e. fe_id e \<notin> fe_id ` set known) E \<noteq> []" using not_joined_refused [OF E(3) known_def] False by (simp add: has)
    moreover have "\<not> edges_sound nodes edges out into" for out into
    proof
      assume "edges_sound nodes edges out into"
      then have "\<forall>e\<in>set edges. fe_source e \<in> fn_id ` set nodes \<and> fe_target e \<in> fn_id ` set nodes" unfolding edges_sound_def by (metis imageI)
      then show False using False E(1) N(1) by simp
    qed
    ultimately show ?thesis by blast
  next
    case True
    have has: "dict_has (node_map N) i \<longleftrightarrow> i \<in> fn_id ` set N" for i by (force simp: node_map_of [OF N(2)] dict_has_iff)
    have joined: "filter (\<lambda>e. fe_id e \<notin> fe_id ` set known) E = []" using not_joined_refused [OF E(3) known_def] True by (simp add: has)
    have known: "mset known = mset E" using True unfolding known_def between_nodes_def by (simp add: has filter_id_conv [THEN iffD2])
    have valid: "filter (\<lambda>e. \<not> ports_exist ports e) known = [] \<Longrightarrow> ?valid = known" by (simp add: filter_empty_conv filter_id_conv)
    have nodes_ok: "filter (\<lambda>n. fn_config n = None) N = [] \<and> filter (\<lambda>n. fn_kind n = Stage_Node \<and> fn_stage_id n = None) N = [] \<and> filter (n_exceeds known) N = [] \<longleftrightarrow>
        (\<forall>n\<in>set nodes. node_sound edges n)"
    proof -
      have "node_sound edges n = node_sound known n" for n using node_sound_perm [of edges known] known E(2) by simp
      moreover have "node_sound known n \<longleftrightarrow> fn_config n \<noteq> None \<and> \<not> (fn_kind n = Stage_Node \<and> fn_stage_id n = None) \<and> \<not> n_exceeds known n" for n
        by (cases "fn_config n = None") (simp_all only: node_sound_def n_exceeds_sound [of n known] simp_thms de_Morgan_conj imp_conv_disj)
      ultimately show ?thesis unfolding filter_empty_conv N(1) by blast
    qed
    note rest = joined_flow_accepted [OF N(2) E(3) known_def True ports_def order_def]
    have spec: "acyclic (set (map edge_pair E)) \<and> (\<exists>out into. unit_solution N E out into \<and> edges_sound N E out into) \<longleftrightarrow>
        acyclic (set (map edge_pair edges)) \<and> (\<exists>out into. unit_solution nodes edges out into \<and> edges_sound nodes edges out into)"
      using unit_solution_cong [OF N(1) E(1)] edges_sound_cong [OF N(1) E(1)] by (simp add: E(1))
    show ?thesis
    proof (cases "filter (\<lambda>e. \<not> ports_exist ports e) known = []")
      case ok: True
      show ?thesis unfolding valid [OF ok] using joined ok nodes_ok rest [unfolded valid [OF ok]] spec by argo
    next
      case False
      then show ?thesis using rest spec by argo
    qed
  qed
  finally show ?thesis .
qed

theorem flow_accepted_iff_witness:
  "filter fi_error (validate_flow small_flow small_edges) = [] \<and>
    (\<exists>out into. unit_solution small_flow small_edges out into \<and> edges_sound small_flow small_edges out into)"
proof -
  have nodes: "distinct (map fn_id small_flow)" by (simp add: small_flow_def)
  have edges: "distinct (map fe_id small_edges)" by (simp add: small_edges_def)
  have run: "filter fi_error (validate_flow small_flow small_edges) = []" by code_simp
  show ?thesis using flow_accepted_iff [OF nodes edges] run by blast
qed

end
