(* ===== verification/Spec2Isabelle.thy ===== *)
theory Spec2Isabelle
  imports Draft_Rules Bracket_Template Pickban_Members Pickban_Validation Pickban_Answers Pickban_Settling Individual_Swiss Flow_Compute Flow_Graph
begin

text \<open>
  Verification library of the decision logic of the OWT tournament platform.

  The program. A back end of Python services runs Overwatch tournaments. Players register, teams are
  formed by a balancer or a live draft, teams play stages (groups, Swiss rounds, knockout brackets),
  and before every map two captains ban and pick in a room that follows a ruleset. The services load
  rows from a database, ask a pure rule, and write rows back. The rules live in the domain packages
  (\<open>backend/shared/domain\<close>, \<open>balancer-service/src/domain\<close>, \<open>tournament-service/src/domain\<close>) and, for the
  pick-ban room, in \<open>tournament-service/src/services/encounter\<close>. This library models those rules; every
  theory names the files it translates, and the definitions keep the names of the code where Isabelle
  allows it.

  The draft.
  \<^item> \<open>Matching\<close> is the bipartite matcher \<open>matching.py\<close> with its shared visited set. Its results are
    maximum matchings and prefer earlier candidates; the locale \<open>bipartite_matcher\<close> states what a
    client may rely on, and both matchers of the program, this one and the one in the pick-ban runtime,
    interpret it.
  \<^item> \<open>Roster\<close> holds roster shapes and the role and rank readings of a player; \<open>Draft_Model\<close> the rows of
    a draft; \<open>Draft_Feasibility\<close> the state built from a snapshot, the remaining capacity and the options of
    a pick (\<open>feasibility.py\<close>). Its lemmas show that the subset test the code runs agrees with the
    existence of a complete assignment, that a pick is offered exactly when the draft stays completable,
    and that a completable draft always has a pick to offer.
  \<^item> \<open>Draft_Rules\<close> is \<open>rules.py\<close>: validations, orders of seats and captains, the clock, the resolution of
    a pick. Its 32-bit shuffle keeps the wrap-around.

  The brackets.
  \<^item> \<open>Bracket_Types\<close> holds pairings, edges, the seeding order and the locale \<open>bracket_generator\<close>, the
    contract of a knockout generator; \<open>Bracket_Elimination\<close> interprets it for single and double
    elimination. Every team is seeded exactly once, every winner but the last advances exactly once,
    and every open seat is fed by exactly one edge.
  \<^item> \<open>Bracket_Round_Robin\<close> is the circle method; \<open>Bracket_Swiss\<close> the budgeted searches for a Swiss round;
    \<open>Bracket_Engine\<close> the dispatcher and the placeholder brackets; \<open>Bracket_Template\<close> the brackets an
    organizer draws, their validation and both conversions.

  The pick-ban engine.
  \<^item> \<open>Pickban_Conditions\<close> (condition trees and their checker), \<open>Pickban_Rules\<close> (rulesets, phases,
    actors), \<open>Pickban_Validation\<close> (the whole checker) and \<open>Pickban_Members\<close> (who answers for a member)
    model \<open>shared/domain/pick_ban_rules\<close>. An accepted tree never raises, and the checker itself never fails.
    An accepted ruleset resolves in every round, unless an actor token ends in a line break: the
    checker's pattern lets that one through, which \<open>line_break_token_accepted\<close> shows.
  \<^item> \<open>Pickban_Board\<close> reads the board, the cursor and the carried bans off the action log; \<open>Pickban_Fill\<close>
    and \<open>Pickban_Answers\<close> say what may be chosen and how the clock completes a draft.
  \<^item> \<open>Pickban_Room\<close> is the room: a record with the resolved steps, the log, the clock, the status and a
    request to undo; one definition per request, and the settling loop. \<open>Pickban_Series\<close> opens sessions,
    appends rounds and rebuilds them after a corrected result. \<open>Pickban_Room_Log\<close> and
    \<open>Pickban_Lifecycle\<close> are the invariants: the second defines the step relation of a session, every request,
    tick and correction in any order, and shows the invariant by rule induction. \<open>Pickban_Settling\<close> holds the
    locale \<open>answer_store\<close> (reading a log after writing to it) and what rests on it.

  Stages and flows.
  \<^item> \<open>Stage_Seeds\<close> seats teams in groups and brackets (\<open>seeds.py\<close>); the swaps that keep a group apart rest
    on the locale \<open>draw\<close>, interpreted on the first round the knockout generator plays. \<open>Stage_Pins\<close>
    (\<open>pins.py\<close>) puts pinned teams at their places.
  \<^item> \<open>Individual_Swiss\<close> is the format in which players change teams every round.
  \<^item> \<open>Flow_Compute\<close> holds the filter, merge, split and leaderboard nodes of a tournament flow;
    \<open>Flow_Graph\<close> its ports, Kahn's algorithm, the units of the nodes and the validation. A flow is
    accepted exactly when it meets a specification that mentions no algorithm.

  \<open>Prelude\<close> holds what they share (insertion-ordered dictionaries as association lists, stable sorting
  in both directions, sums of errors and values), \<open>Random_Choice\<close> Python's random source.

  Conventions. A class is a record, an enum a datatype, a dict an association list in insertion order
  when its order is read and a map otherwise. A raised error is the left side of a sum or a constructor of
  a result type; English messages are left out, codes are kept. Python's integers are \<open>int\<close> or \<open>nat\<close>;
  the interpreter's refusal to read a numeral of more than 4300 digits is left out;
  strings hold characters below 256; floats that are only negated and compared are the rationals they
  stand for, or any linear order. Random numbers are a table given from outside, and theorems hold
  for every table. Time is a parameter: an environment of the room carries the current second, and
  the Swiss search is told at every reading whether its deadline has passed.

  Loops, bounds and fuel. Most loops are structural or end by a measure: the matcher by the slots not
  visited, Kahn's algorithm by the open nodes, the evening-out of teams by the spread of their totals, the
  series by the rounds missing. The lower bracket's reduction gets the number of survivors as fuel, which
  the correctness theorem shows to be enough. The Swiss searches carry the code's own budget of 50000
  nodes; it is shown to suffice for a round with rematches of up to 157 teams. The settling loop has the
  code's own number of passes, two more than there are steps, which leaves nothing undone. The search
  for an open bucket is a partial function, shown to return. Condition trees have the code's limits of
  200 nodes and depth 20.

  Not modelled. Functions that only move data between the database, the broker, the clients and these
  rules (services, repositories, RPC handlers, schemas, migrations); parsing by pydantic, whose typed results
  are where the models start; the aggregate node, match scores and the totals of the individual Swiss,
  which add up and round floats; the balancer's search, which is native code; analytics, which is
  third-party linear algebra; the gateway, the front end and the chat bot.
\<close>

end
